(* ===== verification/Prelude.thy ===== *)
theory Prelude
  imports Main "HOL-Library.Word"
begin

unbundle bit_operations_syntax

section \<open>Shared types, word and list facts\<close>

text \<open>
  This theory holds what the component theories share: names for the machine integers of
  \<^verbatim>\<open>types.h\<close> (the target is 32-bit x86, so \<^verbatim>\<open>int\<close>, \<^verbatim>\<open>long\<close>, \<^verbatim>\<open>size_t\<close> and pointers are
  32 bits wide and \<^verbatim>\<open>char\<close> is a signed byte), a handful of facts about words that are
  used to move between a word and the natural number it stands for, and the collections
  of simplification rules the component theories fill:
  \<^item> \<open>unat_simps\<close>: equations that turn a word expression into arithmetic on \<open>nat\<close>;
  \<^item> \<open>rep_simps\<close>: representation facts of data structures.
  An operation whose source contains an \<^verbatim>\<open>assert\<close> (asserts are compiled in: no makefile
  sets \<^verbatim>\<open>NDEBUG\<close>), a dereference of a null pointer or an access outside an array has a
  result of type \<open>option\<close>, with \<open>None\<close> for a stopped CPU or undefined behaviour.
\<close>

named_theorems unat_simps
named_theorems rep_simps

type_synonym u8 = "8 word"
type_synonym u16 = "16 word"
type_synonym u32 = "32 word"
type_synonym u64 = "64 word"

subsection \<open>Words and natural numbers\<close>

lemma unat_of_nat_small [unat_simps]:
  "n < 2 ^ LENGTH('a) \<Longrightarrow> unat (of_nat n :: 'a::len word) = n"
  by (simp add: unat_of_nat take_bit_nat_eq_self_iff)

lemma unat_plus_small [unat_simps]:
  "unat a + unat b < 2 ^ LENGTH('a) \<Longrightarrow> unat (a + b :: 'a::len word) = unat a + unat b"
  by (simp add: unat_word_ariths take_bit_nat_eq_self_iff)

lemma unat_minus_le [unat_simps]:
  "b \<le> a \<Longrightarrow> unat (a - b :: 'a::len word) = unat a - unat b"
  by (rule unat_sub)

lemma unat_drop_bit_div [unat_simps]:
  "unat (drop_bit n w :: 'a::len word) = unat w div 2 ^ n"
  by (metis unat_drop_bit_eq drop_bit_eq_div)

lemma unat_lt2p_32: "unat (w :: u32) < 4294967296"
  using unsigned_less [of w, where ?'a = nat] by simp

lemma unat_lt2p_16: "unat (w :: u16) < 65536"
  using unsigned_less [of w, where ?'a = nat] by simp

lemma unat_lt2p_8: "unat (w :: u8) < 256"
  using unsigned_less [of w, where ?'a = nat] by simp

lemma drop_bit_of_nat_word:
  assumes "n < 2 ^ LENGTH('a)"
  shows "drop_bit k (of_nat n :: 'a::len word) = of_nat (n div 2 ^ k)"
proof -
  have "unat (of_nat (n div 2 ^ k) :: 'a word) = n div 2 ^ k"
    using assms by (intro unat_of_nat_small) (rule le_less_trans [OF div_le_dividend])
  then show ?thesis
    using assms by (simp only: word_unat_eq_iff unat_drop_bit_div unat_of_nat_small)
qed

lemma of_nat_le_word:
  assumes "m < 2 ^ LENGTH('a)" "n < 2 ^ LENGTH('a)"
  shows "(of_nat m :: 'a::len word) \<le> of_nat n \<longleftrightarrow> m \<le> n"
  using assms by (simp add: word_le_nat_alt unat_simps)

lemma of_nat_less_word:
  assumes "m < 2 ^ LENGTH('a)" "n < 2 ^ LENGTH('a)"
  shows "(of_nat m :: 'a::len word) < of_nat n \<longleftrightarrow> m < n"
  using assms by (simp add: word_less_nat_alt unat_simps)

lemma of_nat_eq_word:
  assumes "m < 2 ^ LENGTH('a)" "n < 2 ^ LENGTH('a)"
  shows "(of_nat m :: 'a::len word) = of_nat n \<longleftrightarrow> m = n"
  using assms by (metis unat_of_nat_small)

lemma of_nat_diff_word:
  "m \<le> n \<Longrightarrow> (of_nat n - of_nat m :: 'a::len word) = of_nat (n - m)"
  by simp

lemma unat_of_nat_self [simp]: "(of_nat (unat w) :: 'a::len word) = w"
  by simp

lemma sint_ge_0_iff:
  "0 \<le> sint (w :: 'a::len word) \<longleftrightarrow> unat w < 2 ^ (LENGTH('a) - 1)"
proof -
  have bound: "unat w < 2 * 2 ^ (LENGTH('a) - 1)"
    using unsigned_less [of w, where ?'a = nat]
    by (metis One_nat_def Suc_pred len_gt_0 power_Suc)
  have "0 \<le> sint w \<longleftrightarrow> \<not> bit (unat w) (LENGTH('a) - 1)"
    by (simp add: sint_uint signed_take_bit_nonnegative_iff bit_unsigned_iff)
  also have "\<dots> \<longleftrightarrow> unat w div 2 ^ (LENGTH('a) - 1) = 0"
  proof -
    have "unat w div 2 ^ (LENGTH('a) - 1) < 2"
      using bound by (intro less_mult_imp_div_less)
    then show ?thesis by (auto simp: bit_iff_odd less_2_cases_iff)
  qed
  also have "\<dots> \<longleftrightarrow> unat w < 2 ^ (LENGTH('a) - 1)"
    by (simp add: div_eq_0_iff)
  finally show ?thesis .
qed

lemma sint_small:
  assumes "unat (w :: 'a::len word) < 2 ^ (LENGTH('a) - 1)"
  shows "sint w = int (unat w)"
proof -
  have "int (unat w) < 2 ^ (LENGTH('a) - 1)"
    using assms by (metis of_nat_less_iff of_nat_numeral of_nat_power)
  moreover have "- (2 ^ (LENGTH('a) - 1)) \<le> (0 :: int)" by simp
  then have "- (2 ^ (LENGTH('a) - 1)) \<le> int (unat w)" by (rule order_trans) simp
  moreover have "sint w = signed_take_bit (LENGTH('a) - 1) (int (unat w))" by (simp add: sint_uint)
  ultimately show ?thesis by (simp only: signed_take_bit_int_eq_self)
qed

lemma len8: "LENGTH(8) = 8" and len16: "LENGTH(16) = 16"
  and len32: "LENGTH(32) = 32" and len64: "LENGTH(64) = 64"
  by simp_all

lemmas len_widths = len8 len16 len32 len64

lemma word_neq_0_unat: "w \<noteq> 0 \<longleftrightarrow> 0 < unat (w :: 'a::len word)"
  by (simp add: unat_gt_0)

lemma word_and_1_odd: "w AND 1 \<noteq> 0 \<longleftrightarrow> odd (unat (w :: 'a::len word))"
proof -
  have "w AND 1 \<noteq> 0 \<longleftrightarrow> bit w 0"
    by (simp add: and_one_eq bit_0 odd_iff_mod_2_eq_one)
  also have "\<dots> \<longleftrightarrow> bit (unat w) 0"
    by (simp add: bit_unsigned_iff)
  finally show ?thesis by (simp add: bit_0)
qed

text \<open>A statement about a byte follows from its 256 instances, which evaluation checks.\<close>

lemma u8_all_below:
  "list_all (\<lambda>n. P (of_nat n :: u8)) [0..<k] \<Longrightarrow> unat b < k \<Longrightarrow> P b"
  by (drule list_all_iff [THEN iffD1], drule bspec [where x = "unat b"]) simp_all

lemma u8_all: "list_all (\<lambda>n. P (of_nat n :: u8)) [0..<256] \<Longrightarrow> P b"
  by (erule u8_all_below) (rule unat_lt2p_8)

subsection \<open>Lists\<close>

lemma nth_list_update_fold:
  "i < length xs \<Longrightarrow> (xs[i := v]) ! j = (if i = j then v else xs ! j)"
  by (simp add: nth_list_update)

lemma distinct_last_notin_butlast:
  "distinct xs \<Longrightarrow> xs \<noteq> [] \<Longrightarrow> last xs \<notin> set (butlast xs)"
  by (induction xs) (auto split: if_splits dest: in_set_butlastD)

lemma takeWhile_dropWhile_hd:
  "dropWhile P xs = y # ys \<Longrightarrow> \<not> P y"
  by (induction xs) (auto split: if_splits)

subsection \<open>Draining a container\<close>

text \<open>
  The loop \<^verbatim>\<open>while ((t = dequeue()))\<close>, respectively \<^verbatim>\<open>while (buf.consume(k))\<close>, that several
  clients run over a queue or buffer, with the elements it visits in their order.
  \<open>None\<close> stands for a loop that does not end.
\<close>

partial_function (option) drain :: "('s \<Rightarrow> 'a option \<times> 's) \<Rightarrow> 's \<Rightarrow> ('a list \<times> 's) option" where
  "drain deq s =
     (case deq s of
        (None, s') \<Rightarrow> Some ([], s')
      | (Some x, s') \<Rightarrow> Option.bind (drain deq s') (\<lambda>(xs, s''). Some (x # xs, s'')))"

lemma drain_None: "deq s = (None, s') \<Longrightarrow> drain deq s = Some ([], s')"
  by (subst drain.simps) simp

lemma drain_Some:
  "deq s = (Some x, s1) \<Longrightarrow> drain deq s1 = Some (xs, s') \<Longrightarrow> drain deq s = Some (x # xs, s')"
  by (subst drain.simps) simp

end
