(* ===== verification/MathUtil.thy ===== *)
theory MathUtil
  imports Prelude
begin

section \<open>utils/math.h: 64-bit division, powers, BCD\<close>

text \<open>
  The functions of \<^verbatim>\<open>utils/math.h\<close>. \<open>div64\<close> is the shift-and-subtract division the
  kernel uses because the 32-bit target has no 64-bit divide instruction: a first loop
  shifts the divisor left until its top bit is set (it never ends for the divisor 0, so
  the model is a partial function into \<open>option\<close>), a second one subtracts.
\<close>

subsection \<open>div64\<close>

partial_function (option) div64_align :: "u64 \<Rightarrow> u64 \<Rightarrow> (u64 \<times> u64) option" where
  "div64_align den qbit =
     (if 0 \<le> sint den then div64_align (push_bit 1 den) (push_bit 1 qbit)
      else Some (den, qbit))"

function div64_subtract :: "u64 \<Rightarrow> u64 \<Rightarrow> u64 \<Rightarrow> u64 \<Rightarrow> u64 \<times> u64" where
  "div64_subtract num den quot qbit =
     (if qbit \<noteq> 0 then
        (if den \<le> num
         then div64_subtract (num - den) (drop_bit 1 den) (quot + qbit) (drop_bit 1 qbit)
         else div64_subtract num (drop_bit 1 den) quot (drop_bit 1 qbit))
      else (quot, num))"
  by pat_completeness auto
termination
  by (relation "measure (\<lambda>(num, den, quot, qbit). unat qbit)")
     (auto simp: unat_drop_bit_div word_neq_0_unat)

declare div64_subtract.simps [simp del]

definition div64 :: "u64 \<Rightarrow> u64 \<Rightarrow> (u64 \<times> u64) option" where
  "div64 num den =
     (case div64_align den 1 of
        None \<Rightarrow> None
      | Some (den', qbit) \<Rightarrow> Some (div64_subtract num den' 0 qbit))"

lemma div64_subtract_end: "div64_subtract num den quot 0 = (quot, num)"
  by (simp add: div64_subtract.simps)

lemma div64_subtract_step:
  assumes "n < 2 ^ 64" "D < 2 ^ 64" "0 < b" "b < 2 ^ 64"
  shows "div64_subtract (of_nat n) (of_nat D) (of_nat q) (of_nat b) =
           div64_subtract (of_nat (if D \<le> n then n - D else n)) (of_nat (D div 2))
             (of_nat (if D \<le> n then q + b else q)) (of_nat (b div 2))"
proof -
  have le: "(of_nat D :: u64) \<le> of_nat n \<longleftrightarrow> D \<le> n"
    using assms by (simp only: of_nat_le_word len64)
  have ne: "(of_nat b :: u64) \<noteq> 0"
    using assms by (simp only: word_neq_0_unat unat_of_nat_small len64)
  have "drop_bit 1 (of_nat D :: u64) = of_nat (D div 2 ^ 1)"
    using assms by (intro drop_bit_of_nat_word) (simp only: len64)
  moreover have "drop_bit 1 (of_nat b :: u64) = of_nat (b div 2 ^ 1)"
    using assms by (intro drop_bit_of_nat_word) (simp only: len64)
  ultimately show ?thesis
    using ne by (subst div64_subtract.simps) (simp add: le)
qed

lemma div64_subtract_nat:
  assumes "n < 2 ^ 64" "d * 2 ^ k < 2 ^ 64" "n < d * 2 ^ Suc k"
  shows "div64_subtract (of_nat n) (of_nat (d * 2 ^ k)) (of_nat q) (of_nat (2 ^ k)) =
           (of_nat (q + n div d), of_nat (n mod d))"
  using assms
proof (induction k arbitrary: n q)
  case 0
  then have d: "0 < d" "d < 2 ^ 64" "n < 2 * d" by auto
  have "div64_subtract (of_nat n) (of_nat d) (of_nat q) (of_nat 1) =
      (of_nat (if d \<le> n then q + 1 else q), of_nat (if d \<le> n then n - d else n))"
    by (subst div64_subtract_step [OF 0(1) d(2)]) (auto simp: div64_subtract_end)
  moreover have "n div d = (if d \<le> n then 1 else 0)"
    using d by (simp add: le_div_geq)
  moreover have "n mod d = (if d \<le> n then n - d else n)"
    using d by (simp add: le_mod_geq)
  ultimately show ?case by simp
next
  case (Suc k)
  let ?D = "d * 2 ^ Suc k"
  let ?n = "if ?D \<le> n then n - ?D else n"
  let ?q = "if ?D \<le> n then q + 2 ^ Suc k else q"
  have d: "0 < d" using Suc.prems by (cases d) auto
  then have "2 ^ Suc k \<le> ?D" by simp
  then have pow: "2 ^ Suc k < (2::nat) ^ 64" using Suc.prems(2) by linarith
  have half: "?D div 2 = d * 2 ^ k" "(2::nat) ^ Suc k div 2 = 2 ^ k" by simp_all
  have lt: "?n < 2 ^ 64" "d * 2 ^ k < 2 ^ 64" "?n < d * 2 ^ Suc k"
    using Suc.prems by auto
  have "div64_subtract (of_nat n) (of_nat ?D) (of_nat q) (of_nat (2 ^ Suc k)) =
          div64_subtract (of_nat ?n) (of_nat (?D div 2)) (of_nat ?q) (of_nat (2 ^ Suc k div 2))"
    by (rule div64_subtract_step [OF Suc.prems(1,2) _ pow]) simp
  also have "\<dots> = (of_nat (?q + ?n div d), of_nat (?n mod d))"
    unfolding half by (rule Suc.IH [OF lt])
  finally have "div64_subtract (of_nat n) (of_nat ?D) (of_nat q) (of_nat (2 ^ Suc k)) =
          (of_nat (?q + ?n div d), of_nat (?n mod d))" .
  moreover have "?q + ?n div d = q + n div d" "?n mod d = n mod d"
  proof -
    have "n = ?n + (if ?D \<le> n then 2 ^ Suc k else 0) * d" by (simp add: mult.commute)
    then have "n div d = (if ?D \<le> n then 2 ^ Suc k else 0) + ?n div d" "n mod d = ?n mod d"
      using d by (metis add.commute div_mult_self1 less_irrefl, metis mod_mult_self1)
    then show "?q + ?n div d = q + n div d" "?n mod d = n mod d" by simp_all
  qed
  ultimately show ?case by (simp only:)
qed

lemma div64_align_nat:
  assumes "d * 2 ^ k < 2 ^ 64" "0 < d" "k \<le> 63"
  shows "\<exists>j. div64_align (of_nat (d * 2 ^ k)) (of_nat (2 ^ k)) =
               Some (of_nat (d * 2 ^ j), of_nat (2 ^ j))
             \<and> d * 2 ^ j < 2 ^ 64 \<and> 2 ^ 63 \<le> d * 2 ^ j"
  using assms
proof (induction "63 - k" arbitrary: k rule: less_induct)
  case less
  show ?case
  proof (cases "d * 2 ^ k < 2 ^ 63")
    case True
    then have "0 \<le> sint (of_nat (d * 2 ^ k) :: u64)"
      using less.prems(1)
      by (simp only: sint_ge_0_iff unat_of_nat_small len64) simp
    then have step: "div64_align (of_nat (d * 2 ^ k)) (of_nat (2 ^ k)) =
                     div64_align (of_nat (d * 2 ^ Suc k)) (of_nat (2 ^ Suc k))"
      by (subst div64_align.simps) (simp add: push_bit_eq_mult mult.commute mult.left_commute)
    have "2 ^ k \<le> d * 2 ^ k" using less.prems by simp
    with True have "(2::nat) ^ k < 2 ^ 63" by linarith
    then have "k < 63" by (rule power_less_imp_less_exp [rotated]) simp
    moreover have "d * 2 ^ Suc k < 2 ^ 64" using True by simp
    ultimately show ?thesis
      using less.hyps [of "Suc k"] less.prems(2) step by simp
  next
    case False
    then have "\<not> 0 \<le> sint (of_nat (d * 2 ^ k) :: u64)"
      using less.prems(1)
      by (simp only: sint_ge_0_iff unat_of_nat_small len64) simp
    with False less.prems show ?thesis
      by (intro exI [of _ k]) (subst div64_align.simps, simp)
  qed
qed

lemma div64_align_zero: "div64_align 0 qbit \<noteq> Some r"
proof
  assume "div64_align 0 qbit = Some r"
  then have "(0::u64) = 0 \<longrightarrow> False"
    by (rule div64_align.raw_induct [where P = "\<lambda>den qbit r. den = 0 \<longrightarrow> False", rotated])
       (fastforce split: if_splits)
  then show False by simp
qed

lemma div64_eq:
  assumes "den \<noteq> 0"
  shows "div64 num den = Some (num div den, num mod den)"
proof -
  have d: "0 < unat den" "unat den * 2 ^ 0 < 2 ^ 64"
    using assms unsigned_less [of den, where ?'a = nat] by (auto simp: word_neq_0_unat)
  obtain j where j: "div64_align den 1 = Some (of_nat (unat den * 2 ^ j), of_nat (2 ^ j))"
      "unat den * 2 ^ j < 2 ^ 64" "2 ^ 63 \<le> unat den * 2 ^ j"
    using div64_align_nat [OF d(2,1)] by auto
  have n: "unat num < 2 ^ 64" using unsigned_less [of num, where ?'a = nat] by simp
  moreover have "unat num < unat den * 2 ^ Suc j" using n j(3) by simp
  ultimately have "div64_subtract (of_nat (unat num)) (of_nat (unat den * 2 ^ j)) (of_nat 0) (of_nat (2 ^ j))
      = (of_nat (0 + unat num div unat den), of_nat (unat num mod unat den))"
    using j(2) by (intro div64_subtract_nat)
  then show ?thesis
    by (simp add: div64_def j(1) flip: unat_div unat_mod)
qed

text \<open>Property C11. \<open>Math::div64\<close> terminates for every divisor except 0 and returns the
  quotient and the remainder of the 64-bit division.\<close>

theorem div64_correct:
  assumes "den \<noteq> 0"
  shows "div64 num den = Some (num div den, num mod den)"
  by (rule div64_eq [OF assms])

theorem div64_correct_witness: "div64 1000000007 10 = Some (100000000, 7)"
  using div64_correct [of 10 1000000007] by simp

lemma div64_zero: "div64 num 0 = None"
  using div64_align_zero [of 1] by (cases "div64_align 0 1") (auto simp: div64_def)

subsection \<open>min and max\<close>

text \<open>The templates \<^verbatim>\<open>min\<close> and \<^verbatim>\<open>max\<close> at the type \<^verbatim>\<open>size_t\<close> the string class uses.\<close>

definition math_min :: "u32 \<Rightarrow> u32 \<Rightarrow> u32" where
  "math_min a b = (if a > b then b else a)"

definition math_max :: "u32 \<Rightarrow> u32 \<Rightarrow> u32" where
  "math_max a b = (if a > b then a else b)"

lemma unat_math_min [unat_simps]: "unat (math_min a b) = min (unat a) (unat b)"
  by (auto simp: math_min_def word_less_nat_alt min_def)

lemma unat_math_max [unat_simps]: "unat (math_max a b) = max (unat a) (unat b)"
  by (auto simp: math_max_def word_less_nat_alt max_def)

subsection \<open>pow\<close>

text \<open>Square and multiply; the loop leaves before the last, unused squaring.\<close>

function pow_loop :: "u32 \<Rightarrow> u32 \<Rightarrow> u32 \<Rightarrow> u32" where
  "pow_loop base ex result =
     (let result' = (if ex AND 1 \<noteq> 0 then result * base else result);
          ex' = drop_bit 1 ex
      in if ex' = 0 then result' else pow_loop (base * base) ex' result')"
  by pat_completeness auto
termination
proof (relation "measure (\<lambda>(base, ex, result). unat ex)", goal_cases)
  case (2 base ex result r' ex')
  then have "0 < unat ex div 2"
    by (metis power_one_right unat_drop_bit_div word_neq_0_unat)
  with 2 show ?case by (simp add: unat_drop_bit_div)
qed simp

declare pow_loop.simps [simp del]

definition math_pow :: "u32 \<Rightarrow> u32 \<Rightarrow> u32" where
  "math_pow base ex = pow_loop base ex 1"

lemma pow_loop_correct: "pow_loop base ex result = result * base ^ unat ex"
proof (induction base ex result rule: pow_loop.induct)
  case (1 base ex result)
  let ?r = "if ex AND 1 \<noteq> 0 then result * base else result"
  have half: "unat (drop_bit 1 ex) = unat ex div 2" by (simp add: unat_drop_bit_div)
  have split: "result * base ^ unat ex = ?r * (base * base) ^ (unat ex div 2)"
  proof -
    have "unat ex = 2 * (unat ex div 2) + unat ex mod 2" by simp
    then have "base ^ unat ex = (base ^ 2) ^ (unat ex div 2) * base ^ (unat ex mod 2)"
      by (metis power_add power_mult)
    moreover have "unat ex mod 2 = (if ex AND 1 \<noteq> 0 then 1 else 0)"
      by (simp only: word_and_1_odd mod_2_eq_odd of_bool_def)
    ultimately show ?thesis by (simp add: power2_eq_square ac_simps)
  qed
  show ?case
  proof (cases "drop_bit 1 ex = 0")
    case True
    with half have "unat ex div 2 = 0" by simp
    with True split show ?thesis by (subst pow_loop.simps) (simp add: Let_def)
  next
    case False
    with "1.IH" [OF refl refl] half split show ?thesis
      by (subst pow_loop.simps) (simp add: Let_def)
  qed
qed

lemma math_pow_correct: "math_pow base ex = base ^ unat ex"
  by (simp add: math_pow_def pow_loop_correct)

subsection \<open>Binary coded decimal\<close>

definition bcd_to_int :: "u8 \<Rightarrow> u16" where
  "bcd_to_int bcd = ucast (drop_bit 4 bcd) * 10 + ucast (bcd AND 0xf)"

definition int_to_bcd :: "u8 \<Rightarrow> u16" where
  "int_to_bcd i = push_bit 4 (ucast (i div 10)) + ucast (i mod 10)"

text \<open>The CMOS stores the low byte of the BCD encoding; an encoding of two decimal digits
  has a high and a low nibble of at most 9.\<close>

definition valid_bcd :: "u8 \<Rightarrow> bool" where
  "valid_bcd b \<longleftrightarrow> drop_bit 4 b \<le> 9 \<and> b AND 0xf \<le> 9"

lemma int_to_bcd_roundtrip: "i < 100 \<Longrightarrow> bcd_to_int (ucast (int_to_bcd i)) = ucast i"
proof -
  have "list_all (\<lambda>n. bcd_to_int (ucast (int_to_bcd (of_nat n))) = ucast (of_nat n :: u8)) [0..<100]"
    by code_simp
  then show "i < 100 \<Longrightarrow> ?thesis"
    by (rule u8_all_below) (simp add: word_less_nat_alt)
qed

lemma valid_bcd_int_to_bcd: "i < 100 \<Longrightarrow> valid_bcd (ucast (int_to_bcd i))"
proof -
  have "list_all (\<lambda>n. valid_bcd (ucast (int_to_bcd (of_nat n)))) [0..<100]"
    by code_simp
  then show "i < 100 \<Longrightarrow> ?thesis"
    by (rule u8_all_below) (simp add: word_less_nat_alt)
qed

lemma bcd_roundtrip:
  "valid_bcd b \<Longrightarrow> bcd_to_int b < 100 \<and> int_to_bcd (ucast (bcd_to_int b)) = ucast b"
proof -
  have "list_all (\<lambda>n. valid_bcd (of_nat n) \<longrightarrow>
          bcd_to_int (of_nat n) < 100 \<and>
          int_to_bcd (ucast (bcd_to_int (of_nat n))) = ucast (of_nat n :: u8)) [0..<256]"
    by code_simp
  then have "valid_bcd b \<longrightarrow>
      bcd_to_int b < 100 \<and> int_to_bcd (ucast (bcd_to_int b)) = ucast b"
    by (rule u8_all)
  then show "valid_bcd b \<Longrightarrow> ?thesis" by blast
qed

end
