(* ===== verification/MemUtil.thy ===== *)
theory MemUtil
  imports Prelude
begin

section \<open>utils/memutil.cc: byte memory, memcpy, memmove, memset\<close>

text \<open>
  Memory is a function from 32-bit addresses to bytes. The little-endian \<open>load32\<close> and
  \<open>store32\<close> are the accesses through a \<^verbatim>\<open>size_t *\<close> or pointer-to-pointer lvalue; the three
  routines are the loops of the source over byte pointers, the loop counter a
  \<^verbatim>\<open>size_t\<close> that is compared with \<^verbatim>\<open>!=\<close>. The reference meaning of a copy is \<open>mem_copy\<close>:
  all source bytes are read before any destination byte is written.
\<close>

type_synonym mem = "u32 \<Rightarrow> u8"

subsection \<open>Aligned 32-bit accesses\<close>

definition load32 :: "mem \<Rightarrow> u32 \<Rightarrow> u32" where
  "load32 m a =
     ucast (m a) OR push_bit 8 (ucast (m (a + 1)))
     OR push_bit 16 (ucast (m (a + 2))) OR push_bit 24 (ucast (m (a + 3)))"

definition store32 :: "mem \<Rightarrow> u32 \<Rightarrow> u32 \<Rightarrow> mem" where
  "store32 m a v =
     m(a := ucast v, a + 1 := ucast (drop_bit 8 v),
       a + 2 := ucast (drop_bit 16 v), a + 3 := ucast (drop_bit 24 v))"

definition aligned4 :: "u32 \<Rightarrow> bool" where
  "aligned4 a \<longleftrightarrow> a AND 3 = 0"

lemma aligned4_unat: "aligned4 a \<longleftrightarrow> unat a mod 4 = 0"
proof -
  have "a AND 3 = take_bit 2 a"
    by (simp add: take_bit_eq_mask mask_eq_exp_minus_1)
  moreover have "take_bit 2 a = 0 \<longleftrightarrow> take_bit 2 (unat a) = 0"
    by (metis unsigned_take_bit_eq unsigned_0 unat_0_iff)
  ultimately show ?thesis by (simp add: aligned4_def take_bit_eq_mod)
qed

lemma unat_aligned_add: "aligned4 a \<Longrightarrow> k < 4 \<Longrightarrow> unat (a + of_nat k) = unat a + k"
proof -
  assume "aligned4 a" "k < 4"
  moreover have "unat a < 4294967296" by (rule unat_lt2p_32)
  ultimately have "unat a + k < 4294967296"
    unfolding aligned4_unat by presburger
  with \<open>k < 4\<close> show ?thesis by (simp add: unat_simps)
qed

lemma aligned_cells_disjoint:
  "aligned4 a \<Longrightarrow> aligned4 b \<Longrightarrow> a \<noteq> b \<Longrightarrow> j < 4 \<Longrightarrow> k < 4 \<Longrightarrow> a + of_nat j \<noteq> b + of_nat k"
proof
  assume al: "aligned4 a" "aligned4 b" "a \<noteq> b" "j < 4" "k < 4"
    and eq: "a + of_nat j = b + of_nat k"
  then have "unat a + j = unat b + k" by (metis unat_aligned_add)
  moreover have "unat a mod 4 = 0" "unat b mod 4 = 0" using al by (simp_all add: aligned4_unat)
  ultimately have "unat a = unat b" using al(4,5) by presburger
  with al(3) show False by (simp add: word_unat_eq_iff)
qed

lemma load32_store32_same [simp]: "load32 (store32 m a v) a = v"
proof -
  have off: "a + 1 \<noteq> a" "a + 2 \<noteq> a" "a + 3 \<noteq> a" "a + 2 \<noteq> a + 1" "a + 3 \<noteq> a + 1" "a + 3 \<noteq> a + 2"
    by simp_all
  have "load32 (store32 m a v) a =
      ucast (ucast v :: u8) OR push_bit 8 (ucast (ucast (drop_bit 8 v) :: u8))
      OR push_bit 16 (ucast (ucast (drop_bit 16 v) :: u8))
      OR push_bit 24 (ucast (ucast (drop_bit 24 v) :: u8))"
    using off by (simp add: load32_def store32_def)
  also have "\<dots> = v"
  proof (rule bit_word_eqI)
    fix n
    assume "n < LENGTH(32)"
    then consider "n < 8" | "8 \<le> n" "n < 16" | "16 \<le> n" "n < 24" | "24 \<le> n" "n < 32"
      by fastforce
    then show "bit (ucast (ucast v :: u8) OR push_bit 8 (ucast (ucast (drop_bit 8 v) :: u8))
        OR push_bit 16 (ucast (ucast (drop_bit 16 v) :: u8))
        OR push_bit 24 (ucast (ucast (drop_bit 24 v) :: u8)) :: u32) n = bit v n"
      by cases (auto simp: bit_simps)
  qed
  finally show ?thesis .
qed

lemma load32_store32_other [simp]:
  assumes "aligned4 a" "aligned4 b" "a \<noteq> b"
  shows "load32 (store32 m a v) b = load32 m b"
proof -
  have ne: "b + of_nat k \<noteq> a + of_nat j" if "j < 4" "k < 4" for j k
    using aligned_cells_disjoint [of b a k j] assms that by auto
  show ?thesis
    using ne [of 0 0] ne [of 1 0] ne [of 2 0] ne [of 3 0] ne [of 0 1] ne [of 1 1] ne [of 2 1]
      ne [of 3 1] ne [of 0 2] ne [of 1 2] ne [of 2 2] ne [of 3 2] ne [of 0 3] ne [of 1 3]
      ne [of 2 3] ne [of 3 3]
    by (simp add: load32_def store32_def)
qed

lemma store32_other_byte:
  assumes "\<And>k. k < 4 \<Longrightarrow> b \<noteq> a + of_nat k"
  shows "store32 m a v b = m b"
  using assms [of 0] assms [of 1] assms [of 2] assms [of 3] by (simp add: store32_def)

subsection \<open>The copy routines\<close>

function memcpy_loop :: "mem \<Rightarrow> u32 \<Rightarrow> u32 \<Rightarrow> u32 \<Rightarrow> u32 \<Rightarrow> mem" where
  "memcpy_loop m dest src sz i =
     (if i \<noteq> sz then memcpy_loop (m(dest + i := m (src + i))) dest src sz (i + 1) else m)"
  by pat_completeness auto
termination
proof (relation "measure (\<lambda>(m, dest, src, sz, i). unat (sz - i))", goal_cases)
  case (2 m dest src sz i)
  then have "sz - i \<noteq> 0" by simp
  then have "unat (sz - i - 1) < unat (sz - i)"
    by (simp add: unat_minus_one unat_gt_0)
  then show ?case by (simp add: diff_diff_eq)
qed simp

definition memcpy :: "mem \<Rightarrow> u32 \<Rightarrow> u32 \<Rightarrow> u32 \<Rightarrow> mem" where
  "memcpy m dest src sz = memcpy_loop m dest src sz 0"

function memmove_down :: "mem \<Rightarrow> u32 \<Rightarrow> u32 \<Rightarrow> u32 \<Rightarrow> mem" where
  "memmove_down m dest src i =
     (if i \<noteq> 0 then memmove_down (m(dest + (i - 1) := m (src + (i - 1)))) dest src (i - 1) else m)"
  by pat_completeness auto
termination
  by (relation "measure (\<lambda>(m, dest, src, i). unat i)") (auto simp: unat_minus_one unat_gt_0)

definition memmove :: "mem \<Rightarrow> u32 \<Rightarrow> u32 \<Rightarrow> u32 \<Rightarrow> mem" where
  "memmove m dest src sz =
     (if src > dest then memcpy_loop m dest src sz 0 else memmove_down m dest src sz)"

function memset_loop :: "mem \<Rightarrow> u32 \<Rightarrow> u8 \<Rightarrow> u32 \<Rightarrow> u32 \<Rightarrow> mem" where
  "memset_loop m dest pat sz i =
     (if i \<noteq> sz then memset_loop (m(dest + i := pat)) dest pat sz (i + 1) else m)"
  by pat_completeness auto
termination
proof (relation "measure (\<lambda>(m, dest, pat, sz, i). unat (sz - i))", goal_cases)
  case (2 m dest pat sz i)
  then have "sz - i \<noteq> 0" by simp
  then have "unat (sz - i - 1) < unat (sz - i)"
    by (simp add: unat_minus_one unat_gt_0)
  then show ?case by (simp add: diff_diff_eq)
qed simp

definition memset :: "mem \<Rightarrow> u32 \<Rightarrow> u8 \<Rightarrow> u32 \<Rightarrow> mem" where
  "memset m dest pat sz = memset_loop m dest pat sz 0"

declare memcpy_loop.simps [simp del] memmove_down.simps [simp del] memset_loop.simps [simp del]

definition mem_copy :: "mem \<Rightarrow> nat \<Rightarrow> nat \<Rightarrow> nat \<Rightarrow> mem" where
  "mem_copy m d s n =
     (\<lambda>a. if d \<le> unat a \<and> unat a < d + n then m (of_nat (s + (unat a - d))) else m a)"

text \<open>A region that does not wrap around the end of the address space.\<close>

definition no_wrap :: "u32 \<Rightarrow> u32 \<Rightarrow> bool" where
  "no_wrap a sz \<longleftrightarrow> unat a + unat sz \<le> 2 ^ 32"

lemma unat_offset: "no_wrap a sz \<Longrightarrow> i < unat sz \<Longrightarrow> unat (a + of_nat i) = unat a + i"
  using unat_lt2p_32 [of sz] by (simp add: no_wrap_def unat_simps)

lemma offset_eq_of_nat: "a + of_nat i = of_nat (unat a + i)"
  by simp

lemma memcpy_loop_copy:
  assumes "no_wrap dest sz" "no_wrap src sz" "i \<le> unat sz"
    and "unat dest \<le> unat src \<or> unat src + unat sz \<le> unat dest"
  shows "memcpy_loop m dest src sz (of_nat i) =
           mem_copy m (unat dest + i) (unat src + i) (unat sz - i)"
  using assms(3)
proof (induction "unat sz - i" arbitrary: m i)
  case 0
  then have "i = unat sz" by simp
  then show ?case
    by (subst memcpy_loop.simps) (auto simp: mem_copy_def intro!: ext)
next
  case (Suc n)
  then have i: "i < unat sz" by simp
  have i32: "i < 2 ^ LENGTH(32)" using i unat_lt2p_32 [of sz] by simp
  have "of_nat i \<noteq> sz" using i i32 by (metis less_irrefl unat_of_nat_small)
  then have "memcpy_loop m dest src sz (of_nat i) =
      memcpy_loop (m(dest + of_nat i := m (src + of_nat i))) dest src sz (of_nat (Suc i))"
    by (subst memcpy_loop.simps) (simp add: add.commute)
  also have "\<dots> = mem_copy (m(dest + of_nat i := m (src + of_nat i)))
      (unat dest + Suc i) (unat src + Suc i) (unat sz - Suc i)"
    using Suc i by (intro Suc.hyps) auto
  also have "\<dots> = mem_copy m (unat dest + i) (unat src + i) (unat sz - i)"
  proof
    fix a :: u32
    have d: "unat (dest + of_nat i) = unat dest + i" using assms(1) i by (rule unat_offset)
    have "of_nat (unat src + Suc i + (unat a - (unat dest + Suc i))) \<noteq> dest + of_nat i"
      if "unat dest + Suc i \<le> unat a" "unat a < unat dest + unat sz"
    proof
      let ?k = "unat a - unat dest"
      assume eq: "of_nat (unat src + Suc i + (unat a - (unat dest + Suc i))) = dest + of_nat i"
      moreover have "unat src + Suc i + (unat a - (unat dest + Suc i)) = unat src + ?k"
        using that by simp
      moreover have "unat (of_nat (unat src + ?k) :: u32) = unat src + ?k"
        using that assms(2) unat_lt2p_32 [of sz]
        by (intro unat_of_nat_small) (auto simp: no_wrap_def)
      ultimately have "unat src + ?k = unat dest + i" using d by simp
      with assms(4) that show False by linarith
    qed
    then show "mem_copy (m(dest + of_nat i := m (src + of_nat i)))
        (unat dest + Suc i) (unat src + Suc i) (unat sz - Suc i) a =
      mem_copy m (unat dest + i) (unat src + i) (unat sz - i) a"
      using d i
      by (cases "unat a = unat dest + i")
         (auto simp: mem_copy_def word_unat_eq_iff Suc_le_eq algebra_simps)
  qed
  finally show ?case .
qed

lemma memmove_down_copy:
  assumes "no_wrap dest sz" "no_wrap src sz" "i \<le> unat sz" "unat src \<le> unat dest"
  shows "memmove_down m dest src (of_nat i) = mem_copy m (unat dest) (unat src) i"
  using assms(3)
proof (induction i arbitrary: m)
  case 0
  show ?case by (subst memmove_down.simps) (auto simp: mem_copy_def intro!: ext)
next
  case (Suc i)
  have i: "i < unat sz" using Suc by simp
  have i32: "Suc i < 2 ^ LENGTH(32)" using Suc.prems unat_lt2p_32 [of sz] by simp
  have "of_nat (Suc i) \<noteq> (0 :: u32)"
    using i32 by (metis nat.distinct(1) unat_0 unat_of_nat_small)
  then have "memmove_down m dest src (of_nat (Suc i)) =
      memmove_down (m(dest + of_nat i := m (src + of_nat i))) dest src (of_nat i)"
    by (subst memmove_down.simps) simp
  also have "\<dots> = mem_copy (m(dest + of_nat i := m (src + of_nat i))) (unat dest) (unat src) i"
    using Suc by simp
  also have "\<dots> = mem_copy m (unat dest) (unat src) (Suc i)"
  proof
    fix a :: u32
    have d: "unat (dest + of_nat i) = unat dest + i" using assms(1) i by (rule unat_offset)
    have "of_nat (unat src + (unat a - unat dest)) \<noteq> dest + of_nat i"
      if "unat dest \<le> unat a" "unat a < unat dest + i"
    proof
      assume eq: "of_nat (unat src + (unat a - unat dest)) = dest + of_nat i"
      moreover have "unat (of_nat (unat src + (unat a - unat dest)) :: u32) = unat src + (unat a - unat dest)"
        using that i assms(2) unat_lt2p_32 [of a] assms(4) by (intro unat_of_nat_small) simp
      ultimately have "unat src + (unat a - unat dest) = unat dest + i" using d by simp
      with that assms(4) show False by linarith
    qed
    then show "mem_copy (m(dest + of_nat i := m (src + of_nat i))) (unat dest) (unat src) i a =
        mem_copy m (unat dest) (unat src) (Suc i) a"
      using d
      by (cases "unat a = unat dest + i") (auto simp: mem_copy_def word_unat_eq_iff)
  qed
  finally show ?case .
qed

lemma memcpy_correct:
  assumes "no_wrap dest sz" "no_wrap src sz"
    and "unat dest \<le> unat src \<or> unat src + unat sz \<le> unat dest"
  shows "memcpy m dest src sz = mem_copy m (unat dest) (unat src) (unat sz)"
  using memcpy_loop_copy [OF assms(1,2) _ assms(3), of 0 m] by (simp add: memcpy_def)

text \<open>Property C12. \<open>memmove\<close> is a simultaneous copy whatever the overlap of the two
  regions is: the destination gets the bytes the source held before the call, and no
  other byte changes.\<close>

theorem memmove_correct:
  assumes "no_wrap dest sz" "no_wrap src sz"
  shows "memmove m dest src sz = mem_copy m (unat dest) (unat src) (unat sz)"
proof (cases "src > dest")
  case True
  then have "unat dest \<le> unat src \<or> unat src + unat sz \<le> unat dest"
    by (simp add: word_less_nat_alt)
  from memcpy_loop_copy [OF assms _ this, of 0 m] True show ?thesis by (simp add: memmove_def)
next
  case False
  then have "unat src \<le> unat dest" by (simp add: word_le_nat_alt not_less)
  from memmove_down_copy [OF assms order.refl this, of m] False show ?thesis
    by (simp add: memmove_def)
qed

theorem memmove_correct_witness:
  "memmove ((\<lambda>_. 0)(4 := 1, 5 := 2, 6 := 3)) 5 4 3 6 = 2"
proof -
  have "memmove ((\<lambda>_. 0)(4 := 1, 5 := 2, 6 := 3)) 5 4 3 =
      mem_copy ((\<lambda>_. 0)(4 := 1, 5 := 2, 6 := 3)) 5 4 3"
    by (subst memmove_correct) (simp_all add: no_wrap_def)
  then show ?thesis by (simp add: mem_copy_def)
qed

lemma memset_loop_fill:
  assumes "no_wrap dest sz" "i \<le> unat sz"
  shows "memset_loop m dest pat sz (of_nat i) =
           (\<lambda>a. if unat dest + i \<le> unat a \<and> unat a < unat dest + unat sz then pat else m a)"
  using assms(2)
proof (induction "unat sz - i" arbitrary: m i)
  case 0
  then have "i = unat sz" by simp
  then show ?case by (subst memset_loop.simps) (auto intro!: ext)
next
  case (Suc n)
  then have i: "i < unat sz" by simp
  have i32: "i < 2 ^ LENGTH(32)" using i unat_lt2p_32 [of sz] by simp
  have "of_nat i \<noteq> sz" using i i32 by (metis less_irrefl unat_of_nat_small)
  then have "memset_loop m dest pat sz (of_nat i) =
      memset_loop (m(dest + of_nat i := pat)) dest pat sz (of_nat (Suc i))"
    by (subst memset_loop.simps) (simp add: add.commute)
  also have "\<dots> = (\<lambda>a. if unat dest + Suc i \<le> unat a \<and> unat a < unat dest + unat sz then pat
      else (m(dest + of_nat i := pat)) a)"
    using Suc i by (intro Suc.hyps) auto
  also have "\<dots> = (\<lambda>a. if unat dest + i \<le> unat a \<and> unat a < unat dest + unat sz then pat else m a)"
  proof
    fix a :: u32
    have d: "unat (dest + of_nat i) = unat dest + i" using assms(1) i by (rule unat_offset)
    show "(if unat dest + Suc i \<le> unat a \<and> unat a < unat dest + unat sz then pat
        else (m(dest + of_nat i := pat)) a) =
      (if unat dest + i \<le> unat a \<and> unat a < unat dest + unat sz then pat else m a)"
      using d i by (cases "unat a = unat dest + i") (auto simp: word_unat_eq_iff)
  qed
  finally show ?case .
qed

lemma memset_correct:
  assumes "no_wrap dest sz"
  shows "memset m dest pat sz =
           (\<lambda>a. if unat dest \<le> unat a \<and> unat a < unat dest + unat sz then pat else m a)"
  using memset_loop_fill [OF assms, of 0 m pat] by (simp add: memset_def)

end
