(* ===== verification/Heap.thy ===== *)
theory Heap
  imports MemUtil "HOL-Library.Monad_Syntax"
begin

section \<open>utils/heap.cc: the heap\<close>

text \<open>
  The heap works on the byte memory of theory \<open>MemUtil\<close>. \<open>hb\<close> is the address of
  \<^verbatim>\<open>heap._mem\<close>, which the linker chooses; the sentinel of the free list lies in the eight bytes
  before it. A \<^verbatim>\<open>Memblock *\<close> is the address of its header, a \<^verbatim>\<open>FreelistNode *\<close> that of the
  user memory behind it. \<open>None\<close> is a failed assertion.
\<close>

definition HEAP_SIZE :: u32 where "HEAP_SIZE = 1024 * 1024 * 1"
definition ALIGNMENT :: u32 where "ALIGNMENT = 4"

definition heap_align :: "u32 \<Rightarrow> u32" where
  "heap_align val = (val + (ALIGNMENT - 1)) AND NOT (ALIGNMENT - 1)"

definition is_aligned :: "u32 \<Rightarrow> bool" where "is_aligned val \<longleftrightarrow> val AND (ALIGNMENT - 1) = 0"

definition USED_BIT :: u32 where "USED_BIT = 1"
definition RESERVED_BIT :: u32 where "RESERVED_BIT = 2"
definition FLAG_BITS :: u32 where "FLAG_BITS = USED_BIT OR RESERVED_BIT"

text \<open>The sizes of \<^verbatim>\<open>Memblock\<close> and \<^verbatim>\<open>FreelistNode\<close>, the field addresses.\<close>

definition SIZEOF_MEMBLOCK :: u32 where "SIZEOF_MEMBLOCK = 4"
definition SIZEOF_FREELISTNODE :: u32 where "SIZEOF_FREELISTNODE = 8"
definition blk_mem :: "u32 \<Rightarrow> u32" where "blk_mem block = block + SIZEOF_MEMBLOCK"
definition node_prev :: "u32 \<Rightarrow> u32" where "node_prev p = p"
definition node_next :: "u32 \<Rightarrow> u32" where "node_next p = p + 4"

definition MEMBLOCK_OVERHEAD :: u32 where "MEMBLOCK_OVERHEAD = SIZEOF_MEMBLOCK + 4"
definition MIN_BLOCK_SIZE :: u32 where "MIN_BLOCK_SIZE = max ALIGNMENT SIZEOF_FREELISTNODE"

definition sentinel :: "u32 \<Rightarrow> u32" where "sentinel hb = hb - SIZEOF_FREELISTNODE"
definition MIN_HEAP_PTR :: "u32 \<Rightarrow> u32" where "MIN_HEAP_PTR hb = hb + SIZEOF_MEMBLOCK"
definition MAX_HEAP_PTR :: "u32 \<Rightarrow> u32" where "MAX_HEAP_PTR hb = hb + HEAP_SIZE - 4"
definition MIN_MEMBLOCK_POINTER :: "u32 \<Rightarrow> u32" where "MIN_MEMBLOCK_POINTER hb = hb"
definition MAX_MEMBLOCK_POINTER :: "u32 \<Rightarrow> u32" where
  "MAX_MEMBLOCK_POINTER hb = hb + HEAP_SIZE - MEMBLOCK_OVERHEAD - MIN_BLOCK_SIZE"

definition is_heap_pointer :: "u32 \<Rightarrow> u32 \<Rightarrow> bool" where
  "is_heap_pointer hb ptr \<longleftrightarrow> ptr \<le> MAX_HEAP_PTR hb \<and> MIN_HEAP_PTR hb \<le> ptr"

definition get_size :: "u32 \<Rightarrow> mem \<Rightarrow> u32" where "get_size block m = load32 m block AND NOT FLAG_BITS"
definition get_flags :: "u32 \<Rightarrow> mem \<Rightarrow> u32" where "get_flags block m = load32 m block AND FLAG_BITS"

definition memblock_valid :: "u32 \<Rightarrow> u32 \<Rightarrow> bool" where
  "memblock_valid hb block \<longleftrightarrow> MIN_MEMBLOCK_POINTER hb \<le> block \<and> block \<le> MAX_MEMBLOCK_POINTER hb"

definition is_free :: "u32 \<Rightarrow> mem \<Rightarrow> bool" where "is_free block m \<longleftrightarrow> \<not> (load32 m block AND USED_BIT \<noteq> 0)"
definition mark_used :: "u32 \<Rightarrow> mem \<Rightarrow> mem" where
  "mark_used block m = store32 m block (load32 m block OR USED_BIT)"
definition mark_free :: "u32 \<Rightarrow> mem \<Rightarrow> mem" where
  "mark_free block m = store32 m block (load32 m block AND NOT USED_BIT)"

definition free_list_insert :: "u32 \<Rightarrow> u32 \<Rightarrow> mem \<Rightarrow> mem option" where
  "free_list_insert hb block m =
     (if is_free block m
      then let free_block = blk_mem block;
               m = store32 m (node_next free_block) (load32 m (node_next (sentinel hb)));
               m = store32 m (node_prev free_block) (sentinel hb);
               m = store32 m (node_next (sentinel hb)) free_block
           in Some (store32 m (node_prev (load32 m (node_next free_block))) free_block)
      else None)"

definition free_list_remove :: "u32 \<Rightarrow> mem \<Rightarrow> mem" where
  "free_list_remove block m =
     (let free_block = blk_mem block;
          prev = load32 m (node_prev free_block);
          next = load32 m (node_next free_block);
          m = store32 m (node_next prev) next
      in store32 m (node_prev next) prev)"

definition get_block :: "u32 \<Rightarrow> u32" where "get_block free_block = free_block - SIZEOF_MEMBLOCK"

definition write_size_fields :: "u32 \<Rightarrow> u32 \<Rightarrow> u32 \<Rightarrow> mem \<Rightarrow> mem option" where
  "write_size_fields block sz flags m =
     (if sz AND FLAG_BITS = 0 \<and> flags AND NOT FLAG_BITS = 0
      then let m = store32 m block (sz OR flags) in Some (store32 m (blk_mem block + sz) sz)
      else None)"

text \<open>The null pointer is 0.\<close>

definition get_next :: "u32 \<Rightarrow> u32 \<Rightarrow> mem \<Rightarrow> u32" where
  "get_next hb block m =
     (let block_size = blk_mem block + get_size block m
      in if get_size block m \<noteq> load32 m block_size then 0
         else let next = block_size + 4 in if MAX_MEMBLOCK_POINTER hb < next then 0 else next)"

definition get_previous :: "u32 \<Rightarrow> u32 \<Rightarrow> mem \<Rightarrow> u32" where
  "get_previous hb block m =
     (let prev_size = block - 4;
          prev = prev_size - load32 m prev_size - SIZEOF_MEMBLOCK
      in if get_size prev m \<noteq> load32 m prev_size then 0
         else if prev < MIN_MEMBLOCK_POINTER hb then 0 else prev)"

text \<open>The two steps of \<^verbatim>\<open>try_merge\<close>: the block before and the one behind, if they are free.\<close>

definition merge_previous :: "u32 \<Rightarrow> u32 \<Rightarrow> u32 \<Rightarrow> mem \<Rightarrow> u32 \<times> u32 \<times> mem" where
  "merge_previous hb block new_size m =
     (let prev = get_previous hb block m
      in if prev \<noteq> 0 \<and> is_free prev m
         then let m = free_list_remove prev m in (prev, new_size + (get_size prev m + MEMBLOCK_OVERHEAD), m)
         else (block, new_size, m))"

definition merge_next :: "u32 \<Rightarrow> u32 \<Rightarrow> u32 \<Rightarrow> mem \<Rightarrow> u32 \<times> mem" where
  "merge_next hb block new_size m =
     (let next = get_next hb block m
      in if next \<noteq> 0 \<and> is_free next m
         then let m = free_list_remove next m in (new_size + (get_size next m + MEMBLOCK_OVERHEAD), m)
         else (new_size, m))"

definition try_merge :: "u32 \<Rightarrow> u32 \<Rightarrow> mem \<Rightarrow> (u32 \<times> mem) option" where
  "try_merge hb block m =
     (let orig_size = get_size block m;
          (result, new_size, m) = merge_previous hb block orig_size m;
          (new_size, m) = merge_next hb block new_size m
      in if new_size \<noteq> orig_size
         then if is_aligned new_size
              then map_option (Pair result) (write_size_fields result new_size (get_flags block m) m)
              else None
         else Some (result, m))"

definition maybe_split_block :: "u32 \<Rightarrow> u32 \<Rightarrow> u32 \<Rightarrow> mem \<Rightarrow> (u32 \<times> mem) option" where
  "maybe_split_block hb block sz m =
     (let sz = max (heap_align sz) MIN_BLOCK_SIZE
      in if sz + MEMBLOCK_OVERHEAD + MIN_BLOCK_SIZE \<le> get_size block m
         then let flags = get_flags block m;
                  new_size = get_size block m - sz - MEMBLOCK_OVERHEAD
              in if MIN_BLOCK_SIZE \<le> new_size
                 then do {
                   m \<leftarrow> write_size_fields block new_size 0 m;
                   m \<leftarrow> free_list_insert hb block m;
                   let block = get_next hb block m;
                   if block \<noteq> 0 then do { m \<leftarrow> write_size_fields block sz flags m; Some (block, m) } else None }
                 else None
         else Some (block, m))"

partial_function (option) find_loop :: "u32 \<Rightarrow> u32 \<Rightarrow> u32 \<Rightarrow> mem \<Rightarrow> u32 option" where
  "find_loop hb sz free_block m =
     (if free_block \<noteq> sentinel hb
      then let block = get_block free_block
           in if sz \<le> get_size block m then Some block
              else find_loop hb sz (load32 m (node_next free_block)) m
      else Some 0)"

definition find_free_block :: "u32 \<Rightarrow> u32 \<Rightarrow> mem \<Rightarrow> u32 option" where
  "find_free_block hb sz m = find_loop hb sz (load32 m (node_next (sentinel hb))) m"

definition malloc_block :: "u32 \<Rightarrow> u32 \<Rightarrow> mem \<Rightarrow> (u32 \<times> mem) option" where
  "malloc_block hb sz m = do {
     block \<leftarrow> find_free_block hb sz m;
     if block = 0 then Some (0, m)
     else if is_free block m
     then let m = mark_used block m; m = free_list_remove block m in maybe_split_block hb block sz m
     else None }"

definition malloc :: "u32 \<Rightarrow> u32 \<Rightarrow> mem \<Rightarrow> (u32 \<times> mem) option" where
  "malloc hb sz m =
     (if sz = 0 then None
      else do {
        (block, m) \<leftarrow> malloc_block hb sz m;
        if is_heap_pointer hb (blk_mem block) then Some (blk_mem block, m) else None })"

definition calloc :: "u32 \<Rightarrow> u32 \<Rightarrow> u32 \<Rightarrow> mem \<Rightarrow> (u32 \<times> mem) option" where
  "calloc hb nmemb sz m =
     (if 0 < nmemb \<and> sz \<le> - 1 div nmemb
      then do {
        let total = nmemb * sz;
        (p, m) \<leftarrow> malloc hb total m;
        Some (if p \<noteq> 0 then (p, memset m p 0 total) else (0, m)) }
      else Some (0, m))"

definition free_block :: "u32 \<Rightarrow> u32 \<Rightarrow> mem \<Rightarrow> mem option" where
  "free_block hb block m = do {
     (block, m) \<leftarrow> try_merge hb block m;
     free_list_insert hb block (mark_free block m) }"

definition heap_free :: "u32 \<Rightarrow> u32 \<Rightarrow> mem \<Rightarrow> mem option" where
  "heap_free hb ptr m =
     (let block = ptr - SIZEOF_MEMBLOCK
      in if \<not> memblock_valid hb block \<or> is_free block m then None else free_block hb block m)"

definition realloc_block :: "u32 \<Rightarrow> u32 \<Rightarrow> u32 \<Rightarrow> mem \<Rightarrow> (u32 \<times> mem) option" where
  "realloc_block hb block sz m = do {
     (new_block, m) \<leftarrow> try_merge hb block m;
     if get_size new_block m < sz
     then do {
       (res_block, m) \<leftarrow> malloc_block hb sz m;
       let m = memcpy m (blk_mem res_block) (blk_mem block) sz;
       m \<leftarrow> free_list_insert hb new_block (mark_free new_block m);
       Some (res_block, m) }
     else do {
       (new_block, m) \<leftarrow> maybe_split_block hb new_block sz m;
       Some (new_block, if new_block \<noteq> block then memmove m (blk_mem new_block) (blk_mem block) sz else m) }}"

definition realloc :: "u32 \<Rightarrow> u32 \<Rightarrow> u32 \<Rightarrow> mem \<Rightarrow> (u32 \<times> mem) option" where
  "realloc hb ptr sz m =
     (if sz = 0 \<or> ptr = 0 then None
      else let block = ptr - SIZEOF_MEMBLOCK
           in if \<not> memblock_valid hb block \<or> is_free block m then None
              else do {
                (block, m) \<leftarrow> realloc_block hb block sz m;
                if is_heap_pointer hb (blk_mem block) then Some (blk_mem block, m) else None })"

text \<open>The constructor of \<^verbatim>\<open>Heap\<close>.\<close>

definition heap_init :: "u32 \<Rightarrow> mem \<Rightarrow> mem option" where
  "heap_init hb m = do {
     let m = store32 m (node_prev (sentinel hb)) (sentinel hb);
     let m = store32 m (node_next (sentinel hb)) (sentinel hb);
     m \<leftarrow> write_size_fields hb (HEAP_SIZE - MEMBLOCK_OVERHEAD) 0 m;
     free_list_insert hb hb m }"

record heap_stats =
  h_free :: u32
  h_free_blocks :: u32
  h_used :: u32
  h_used_blocks :: u32
  h_total :: u32

partial_function (option) stats_loop :: "u32 \<Rightarrow> u32 \<Rightarrow> heap_stats \<Rightarrow> mem \<Rightarrow> heap_stats option" where
  "stats_loop hb cur r m =
     (if cur \<noteq> 0
      then stats_loop hb (get_next hb cur m)
        (if is_free cur m
         then r\<lparr>h_free := h_free r + get_size cur m, h_free_blocks := h_free_blocks r + 1\<rparr>
         else r\<lparr>h_used := h_used r + get_size cur m, h_used_blocks := h_used_blocks r + 1\<rparr>) m
      else Some r)"

definition get_heap_stats :: "u32 \<Rightarrow> mem \<Rightarrow> heap_stats option" where
  "get_heap_stats hb m =
     map_option (\<lambda>r. r\<lparr>h_total := HEAP_SIZE\<rparr>)
       (stats_loop hb hb \<lparr>h_free = 0, h_free_blocks = 0, h_used = 0, h_used_blocks = 0, h_total = 0\<rparr> m)"

text \<open>The operators of C++.\<close>

definition op_new :: "u32 \<Rightarrow> u32 \<Rightarrow> mem \<Rightarrow> (u32 \<times> mem) option" where "op_new hb sz = malloc hb sz"
definition op_new_array :: "u32 \<Rightarrow> u32 \<Rightarrow> mem \<Rightarrow> (u32 \<times> mem) option" where "op_new_array hb sz = malloc hb sz"
definition op_delete :: "u32 \<Rightarrow> u32 \<Rightarrow> mem \<Rightarrow> mem option" where "op_delete hb ptr = heap_free hb ptr"
definition op_delete_array :: "u32 \<Rightarrow> u32 \<Rightarrow> mem \<Rightarrow> mem option" where "op_delete_array hb ptr = heap_free hb ptr"

end
