(* ===== verification/HeapRep.thy ===== *)
theory HeapRep
  imports Heap
begin

section \<open>The heap as a list of blocks\<close>

text \<open>
  The blocks of the heap tile its memory. A list of sizes and used flags stands for them; the
  address of a block follows from the sizes before it. This theory relates such a list and the
  list of the free nodes to the bytes of the memory, and shows what writes at some cells leave
  unchanged. Addresses are natural numbers here, so that sums of them need no word arithmetic.
\<close>

subsection \<open>Cells\<close>

definition ld :: "mem \<Rightarrow> nat \<Rightarrow> u32" where "ld m a = load32 m (of_nat a)"
definition st :: "mem \<Rightarrow> nat \<Rightarrow> u32 \<Rightarrow> mem" where "st m a v = store32 m (of_nat a) v"
definition byte :: "mem \<Rightarrow> nat \<Rightarrow> u8" where "byte m p = m (of_nat p)"

definition cell :: "nat \<Rightarrow> bool" where "cell a \<longleftrightarrow> 4 dvd a \<and> a + 4 \<le> 2 ^ 32"

lemma unat_cell: "cell a \<Longrightarrow> unat (of_nat a :: u32) = a"
  by (simp add: cell_def unat_of_nat_small)

lemma aligned4_cell: "cell a \<Longrightarrow> aligned4 (of_nat a)"
  using unat_cell [of a] by (simp add: aligned4_unat cell_def dvd_eq_mod_eq_0)

lemma cell_inj: "cell a \<Longrightarrow> cell b \<Longrightarrow> (of_nat a :: u32) = of_nat b \<longleftrightarrow> a = b"
  using unat_cell by metis

lemma ld_st: "cell a \<Longrightarrow> cell b \<Longrightarrow> ld (st m a v) b = (if b = a then v else ld m b)"
  by (cases "b = a") (simp_all add: aligned4_cell cell_inj ld_def st_def)

lemma st_byte:
  assumes "cell a" "p < 2 ^ 32" "p < a \<or> a + 4 \<le> p"
  shows "byte (st m a v) p = byte m p"
  unfolding byte_def st_def
proof (rule store32_other_byte)
  fix k :: nat assume k: "k < 4"
  have "(of_nat p :: u32) \<noteq> of_nat (a + k)"
    using assms k by (subst of_nat_eq_word) (auto simp: cell_def)
  then show "of_nat p \<noteq> of_nat a + (of_nat k :: u32)" by simp
qed

text \<open>\<open>agree C m m'\<close>: the two memories are the same outside the cells \<open>C\<close>.\<close>

definition agree :: "nat set \<Rightarrow> mem \<Rightarrow> mem \<Rightarrow> bool" where
  "agree C m m' \<longleftrightarrow> (\<forall>p < 2 ^ 32. (\<forall>c \<in> C. p < c \<or> c + 4 \<le> p) \<longrightarrow> byte m' p = byte m p)"

lemma agree_refl [simp, intro]: "agree C m m"
  by (simp add: agree_def)

lemma agree_mono: "agree C m m' \<Longrightarrow> C \<subseteq> D \<Longrightarrow> agree D m m'"
  by (auto simp: agree_def)

lemma agree_trans [trans]: "agree C m m' \<Longrightarrow> agree C m' m'' \<Longrightarrow> agree C m m''"
  by (simp add: agree_def)

lemma agree_st: "agree C m m' \<Longrightarrow> cell a \<Longrightarrow> a \<in> C \<Longrightarrow> agree C m (st m' a v)"
  by (auto simp: agree_def st_byte)

lemma agree_ld:
  assumes "agree C m m'" "cell a" "\<forall>c \<in> C. cell c" "a \<notin> C"
  shows "ld m' a = ld m a"
proof -
  have "byte m' (a + k) = byte m (a + k)" if "k < 4" for k
  proof -
    have "a + k < c \<or> c + 4 \<le> a + k" if "c \<in> C" for c
      proof -
      have "4 dvd c" "4 dvd a" "c \<noteq> a" using assms(2-4) that by (auto simp: cell_def)
      with \<open>k < 4\<close> show ?thesis by presburger
    qed
    moreover have "a + k < 2 ^ 32" using assms(2) that by (simp add: cell_def)
    ultimately show ?thesis using assms(1) by (simp add: agree_def)
  qed
  from this [of 0] this [of 1] this [of 2] this [of 3] show ?thesis
    by (simp add: ld_def load32_def byte_def add.commute)
qed

subsection \<open>Blocks\<close>

type_synonym blocks = "(nat \<times> bool) list"

definition span :: "blocks \<Rightarrow> nat" where "span bs = (\<Sum>(n, u) \<leftarrow> bs. n + 8)"

definition shape :: "blocks \<Rightarrow> bool" where "shape bs \<longleftrightarrow> (\<forall>(n, u) \<in> set bs. 8 \<le> n \<and> 4 dvd n)"

lemma span_simps [simp]: "span [] = 0" "span ((n, u) # bs) = n + 8 + span bs" "span (xs @ ys) = span xs + span ys"
  by (simp_all add: span_def)

lemma shape_simps [simp]: "shape []" "shape ((n, u) # bs) \<longleftrightarrow> 8 \<le> n \<and> 4 dvd n \<and> shape bs"
  "shape (xs @ ys) \<longleftrightarrow> shape xs \<and> shape ys"
  by (auto simp: shape_def)

lemma shape_dvd: "shape bs \<Longrightarrow> 4 dvd span bs"
  by (induction bs) auto

fun tiled :: "mem \<Rightarrow> nat \<Rightarrow> blocks \<Rightarrow> bool" where
  "tiled m a [] \<longleftrightarrow> True"
| "tiled m a ((n, u) # bs) \<longleftrightarrow> ld m a = of_nat (n + of_bool u) \<and> ld m (a + 4 + n) = of_nat n \<and> tiled m (a + n + 8) bs"

text \<open>The cells of the headers and footers, the free nodes, and the user memory of used blocks.\<close>

fun marks :: "nat \<Rightarrow> blocks \<Rightarrow> nat set" where
  "marks a [] = {}"
| "marks a ((n, u) # bs) = {a, a + 4 + n} \<union> marks (a + n + 8) bs"

fun nodes :: "nat \<Rightarrow> blocks \<Rightarrow> nat set" where
  "nodes a [] = {}"
| "nodes a ((n, u) # bs) = (if u then {} else {a + 4}) \<union> nodes (a + n + 8) bs"

fun useds :: "nat \<Rightarrow> blocks \<Rightarrow> (nat \<times> nat) set" where
  "useds a [] = {}"
| "useds a ((n, u) # bs) = (if u then {(a + 4, n)} else {}) \<union> useds (a + n + 8) bs"

lemma tiled_append [simp]: "tiled m a (xs @ ys) \<longleftrightarrow> tiled m a xs \<and> tiled m (a + span xs) ys"
  by (induction m a xs rule: tiled.induct) (auto simp: add_ac)

lemma marks_append [simp]: "marks a (xs @ ys) = marks a xs \<union> marks (a + span xs) ys"
  by (induction a xs rule: marks.induct) (auto simp: add_ac)

lemma nodes_append [simp]: "nodes a (xs @ ys) = nodes a xs \<union> nodes (a + span xs) ys"
  by (induction a xs rule: nodes.induct) (auto simp: add_ac)

lemma useds_append [simp]: "useds a (xs @ ys) = useds a xs \<union> useds (a + span xs) ys"
  by (induction a xs rule: useds.induct) (auto simp: add_ac)

lemma marks_range: "c \<in> marks a bs \<Longrightarrow> a \<le> c \<and> c + 4 \<le> a + span bs"
  by (induction a bs rule: marks.induct) (force simp: add_ac)+

lemma nodes_range: "shape bs \<Longrightarrow> x \<in> nodes a bs \<Longrightarrow> a + 4 \<le> x \<and> x + 12 \<le> a + span bs"
  by (induction a bs rule: nodes.induct) (force simp: add_ac split: if_splits)+

lemma useds_range: "(p, k) \<in> useds a bs \<Longrightarrow> a + 4 \<le> p \<and> p + k + 4 \<le> a + span bs"
  by (induction a bs rule: useds.induct) (force simp: add_ac split: if_splits)+

lemma marks_dvd: "4 dvd a \<Longrightarrow> shape bs \<Longrightarrow> c \<in> marks a bs \<Longrightarrow> 4 dvd c"
  by (induction a bs rule: marks.induct) (auto simp: dvd_add)

lemma nodes_dvd: "4 dvd a \<Longrightarrow> shape bs \<Longrightarrow> x \<in> nodes a bs \<Longrightarrow> 4 dvd x"
  by (induction a bs rule: nodes.induct) (auto simp: dvd_add split: if_splits)

text \<open>Blocks do not overlap.\<close>

lemma nodes_marks: "shape bs \<Longrightarrow> x \<in> nodes a bs \<Longrightarrow> c \<in> marks a bs \<Longrightarrow> c + 4 \<le> x \<or> x + 8 \<le> c"
proof (induction a bs rule: nodes.induct)
  case (2 a n u bs)
  then show ?case
    using nodes_range [of bs x "a + n + 8"] marks_range [of c "a + n + 8" bs] by (auto split: if_splits)
qed simp

lemma useds_marks: "(p, k) \<in> useds a bs \<Longrightarrow> c \<in> marks a bs \<Longrightarrow> c + 4 \<le> p \<or> p + k \<le> c"
proof (induction a bs rule: useds.induct)
  case (2 a n u bs)
  then show ?case
    using useds_range [of p k "a + n + 8" bs] marks_range [of c "a + n + 8" bs] by (auto split: if_splits)
qed simp

lemma useds_nodes: "shape bs \<Longrightarrow> (p, k) \<in> useds a bs \<Longrightarrow> x \<in> nodes a bs \<Longrightarrow> x + 8 \<le> p \<or> p + k \<le> x"
proof (induction a bs rule: useds.induct)
  case (2 a n u bs)
  then show ?case
    using useds_range [of p k "a + n + 8" bs] nodes_range [of bs x "a + n + 8"] by (auto split: if_splits)
qed simp

lemma nodes_apart: "shape bs \<Longrightarrow> x \<in> nodes a bs \<Longrightarrow> y \<in> nodes a bs \<Longrightarrow> x \<noteq> y \<Longrightarrow> x + 16 \<le> y \<or> y + 16 \<le> x"
proof (induction a bs rule: nodes.induct)
  case (2 a n u bs)
  then show ?case
    using nodes_range [of bs x "a + n + 8"] nodes_range [of bs y "a + n + 8"] by (auto split: if_splits)
qed simp

lemma tiled_agree:
  assumes "tiled m a bs" "agree C m m'" "4 dvd a" "shape bs" "a + span bs \<le> 2 ^ 32"
    and "\<forall>c \<in> C. cell c" "C \<inter> marks a bs = {}"
  shows "tiled m' a bs"
  using assms(1,3-5,7)
proof (induction a bs rule: marks.induct)
  case (2 a n u bs)
  have "cell a" "cell (a + 4 + n)" using 2(3-5) by (auto simp: cell_def)
  then have "ld m' a = ld m a" "ld m' (a + 4 + n) = ld m (a + 4 + n)"
    using 2(6) assms(6) by (auto intro!: agree_ld [OF assms(2)])
  moreover have "tiled m' (a + n + 8) bs"
    using 2 by (intro 2(1)) (auto simp: dvd_add)
  ultimately show ?case using 2(2) by simp
qed simp

subsection \<open>The free list\<close>

text \<open>\<open>lseg m x ns y\<close>: the nodes \<open>ns\<close> are linked, in both directions, from \<open>x\<close> to \<open>y\<close>.\<close>

fun lseg :: "mem \<Rightarrow> nat \<Rightarrow> nat list \<Rightarrow> nat \<Rightarrow> bool" where
  "lseg m x [] y \<longleftrightarrow> ld m (x + 4) = of_nat y \<and> ld m y = of_nat x"
| "lseg m x (n # ns) y \<longleftrightarrow> ld m (x + 4) = of_nat n \<and> ld m n = of_nat x \<and> lseg m n ns y"

lemma lseg_append: "lseg m x (as @ n # bs) y \<longleftrightarrow> lseg m x as n \<and> lseg m n bs y"
  by (induction as arbitrary: x) auto

text \<open>The cells that a segment reads.\<close>

definition seg_cells :: "nat \<Rightarrow> nat list \<Rightarrow> nat \<Rightarrow> nat set" where
  "seg_cells x ns y = {x + 4, y} \<union> set ns \<union> (\<lambda>n. n + 4) ` set ns"

lemma lseg_agree:
  assumes "lseg m x ns y" "agree C m m'" "\<forall>c \<in> seg_cells x ns y. cell c"
    and "\<forall>c \<in> C. cell c" "C \<inter> seg_cells x ns y = {}"
  shows "lseg m' x ns y"
  using assms(1,3,5)
proof (induction ns arbitrary: x)
  case Nil
  have "ld m' (x + 4) = ld m (x + 4)" "ld m' y = ld m y"
    using Nil.prems(2,3) assms(4) by (auto intro!: agree_ld [OF assms(2)] simp: seg_cells_def)
  with Nil show ?case by simp
next
  case (Cons n ns)
  have "ld m' (x + 4) = ld m (x + 4)" "ld m' n = ld m n"
    using Cons.prems(2,3) assms(4) by (auto intro!: agree_ld [OF assms(2)] simp: seg_cells_def)
  moreover have "lseg m' n ns y"
    using Cons.prems by (intro Cons.IH) (auto simp: seg_cells_def)
  ultimately show ?case using Cons.prems(1) by simp
qed

subsection \<open>Linking and unlinking\<close>

text \<open>The cells of some nodes, and that these do not overlap.\<close>

definition link_cells :: "nat set \<Rightarrow> nat set" where "link_cells S = S \<union> (\<lambda>x. x + 4) ` S"

definition sep :: "nat set \<Rightarrow> bool" where
  "sep S \<longleftrightarrow> (\<forall>x \<in> S. cell x \<and> cell (x + 4)) \<and> (\<forall>x \<in> S. \<forall>y \<in> S. x + 4 \<noteq> y)"

lemma sep_mono: "sep T \<Longrightarrow> S \<subseteq> T \<Longrightarrow> sep S"
  by (auto simp: sep_def)

lemma link_cells_mono: "S \<subseteq> T \<Longrightarrow> link_cells S \<subseteq> link_cells T"
  by (auto simp: link_cells_def)

lemma sep_link_cells: "sep S \<Longrightarrow> c \<in> link_cells S \<Longrightarrow> cell c"
  by (auto simp: sep_def link_cells_def)

lemma sentinel_nat: "8 \<le> hb \<Longrightarrow> sentinel (of_nat hb) = of_nat (hb - 8)"
  by (simp add: sentinel_def SIZEOF_FREELISTNODE_def)

lemma addr_nat: "blk_mem (of_nat a) = of_nat (a + 4)" "node_next (of_nat a) = of_nat (a + 4)"
  "node_prev (of_nat a) = of_nat a"
  by (simp_all add: blk_mem_def node_next_def node_prev_def SIZEOF_MEMBLOCK_def)

lemmas fold_mem = ld_def [symmetric] st_def [symmetric]

definition linked :: "mem \<Rightarrow> nat \<Rightarrow> nat list \<Rightarrow> bool" where
  "linked m s ns \<longleftrightarrow> distinct (s # ns) \<and> sep (insert s (set ns)) \<and> lseg m s ns s"

lemma linked_agree:
  assumes "linked m s ns" "agree C m m'" "\<forall>c \<in> C. cell c" "C \<inter> link_cells (insert s (set ns)) = {}"
  shows "linked m' s ns"
proof -
  have "seg_cells s ns s \<subseteq> link_cells (insert s (set ns))" by (auto simp: seg_cells_def link_cells_def)
  with assms sep_link_cells show ?thesis
    unfolding linked_def by (blast intro!: lseg_agree [of m s ns s C m'])
qed

lemma free_list_insert_ok:
  assumes "linked m s ns" "hb = s + 8" "is_free (of_nat a) m"
    and "a + 4 \<notin> insert s (set ns)" "sep (insert (a + 4) (insert s (set ns)))"
  shows "\<exists>m'. free_list_insert (of_nat hb) (of_nat a) m = Some m' \<and> linked m' s ((a + 4) # ns) \<and>
    agree (link_cells (insert (a + 4) (insert s (set ns)))) m m'"
proof -
  define n where "n = a + 4"
  define f where "f = hd (ns @ [s])"
  define m3 where "m3 = st (st (st m (n + 4) (of_nat f)) n (of_nat s)) (s + 4) (of_nat n)"
  have sp: "sep (insert n (insert s (set ns)))" "n \<noteq> s" "n \<notin> set ns" using assms(4,5) by (simp_all add: n_def)
  have seg: "distinct (s # ns)" "lseg m s ns s" using assms(1) by (simp_all add: linked_def)
  have f: "f \<in> insert s (set ns)" by (cases ns) (simp_all add: f_def)
  have first: "ld m (s + 4) = of_nat f" using seg(2) by (cases ns) (simp_all add: f_def)
  have cells: "cell n" "cell (n + 4)" "cell (s + 4)" "cell s" "cell f" "cell (f + 4)"
    "n + 4 \<noteq> s" "s + 4 \<noteq> n" "f + 4 \<noteq> n" "n + 4 \<noteq> f" "f + 4 \<noteq> s" "s + 4 \<noteq> f" "n \<noteq> f"
    using sp f by (auto simp: sep_def)
  have "ld m3 (n + 4) = of_nat f" using cells sp(2) by (simp add: m3_def ld_st)
  with assms(2,3) first have res: "free_list_insert (of_nat hb) (of_nat a) m = Some (st m3 f (of_nat n))"
    by (simp add: free_list_insert_def sentinel_nat addr_nat Let_def fold_mem m3_def n_def
        del: of_nat_add)
  let ?C = "{n, n + 4, s + 4, f}"
  have ag: "agree ?C m (st m3 f (of_nat n))"
    unfolding m3_def using cells by (intro agree_st agree_refl) auto
  have "lseg (st m3 f (of_nat n)) s (n # ns) s"
  proof (cases ns)
    case Nil
    with cells sp(2) show ?thesis by (simp add: f_def m3_def ld_st)
  next
    case (Cons x xs)
    then have x: "x = f" by (simp add: f_def)
    have "lseg (st m3 f (of_nat n)) f xs s"
    proof (rule lseg_agree [OF _ ag])
      show "lseg m f xs s" using seg(2) Cons x by simp
      show "\<forall>c \<in> seg_cells f xs s. cell c" using sp(1) Cons x by (auto simp: seg_cells_def sep_def)
      show "\<forall>c \<in> ?C. cell c" using cells by simp
      show "?C \<inter> seg_cells f xs s = {}"
        using sp seg(1) Cons x by (auto simp: seg_cells_def sep_def)
    qed
    with Cons x cells sp(2) show ?thesis by (simp add: m3_def ld_st)
  qed
  with sp seg have "linked (st m3 f (of_nat n)) s (n # ns)" by (simp add: linked_def insert_commute)
  moreover have "?C \<subseteq> link_cells (insert n (insert s (set ns)))" using f by (auto simp: link_cells_def)
  ultimately show ?thesis using res agree_mono [OF ag] by (simp add: n_def)
qed

lemma lseg_ends: "lseg m s xs n \<Longrightarrow> ld m n = of_nat (last (s # xs)) \<and> ld m (s + 4) = of_nat (hd (xs @ [n])) \<and>
    ld m (last (s # xs) + 4) = of_nat n"
proof (induction xs arbitrary: s)
  case (Cons x xs)
  then have "lseg m x xs n" "ld m (s + 4) = of_nat x" by simp_all
  with Cons.IH [of x] show ?case by simp
qed simp

lemma write_apart:
  assumes "sep S" "insert p (insert q (insert x (insert y (set ns)))) \<subseteq> S"
    and "p \<noteq> x" "p \<notin> set ns" "q \<noteq> y" "q \<notin> set ns"
  shows "{p + 4, q} \<inter> seg_cells x ns y = {}" "\<forall>c \<in> seg_cells x ns y. cell c"
proof -
  have ne: "\<And>a b. a \<in> S \<Longrightarrow> b \<in> S \<Longrightarrow> a + 4 \<noteq> b" and c: "\<And>a. a \<in> S \<Longrightarrow> cell a \<and> cell (a + 4)"
    using assms(1) by (simp_all add: sep_def)
  have S: "p \<in> S" "q \<in> S" "x \<in> S" "y \<in> S" "\<And>n. n \<in> set ns \<Longrightarrow> n \<in> S" using assms(2) by auto
  have "p + 4 \<notin> seg_cells x ns y"
    using ne [OF S(1)] S(4,5) assms(3,4) by (auto simp: seg_cells_def)
  moreover have "q \<notin> seg_cells x ns y"
    using ne [OF _ S(2)] S(3,5) assms(5,6) by (auto simp: seg_cells_def)
  ultimately show "{p + 4, q} \<inter> seg_cells x ns y = {}" by simp
  show "\<forall>c \<in> seg_cells x ns y. cell c" using c S by (auto simp: seg_cells_def)
qed

lemma free_list_remove_ok:
  assumes "linked m s (xs @ (a + 4) # ys)"
  shows "linked (free_list_remove (of_nat a) m) s (xs @ ys) \<and>
    agree (link_cells (insert s (set (xs @ ys)))) m (free_list_remove (of_nat a) m)"
proof -
  define n where "n = a + 4"
  define p where "p = last (s # xs)"
  define q where "q = hd (ys @ [s])"
  define m' where "m' = st (st m (p + 4) (of_nat q)) q (of_nat p)"
  have d: "distinct (s # xs @ n # ys)" and sp: "sep (insert s (set (xs @ n # ys)))"
    and seg: "lseg m s xs n" "lseg m n ys s"
    using assms by (simp_all add: linked_def lseg_append n_def)
  have pq: "p \<in> insert s (set xs)" "q \<in> insert s (set ys)"
    by (auto simp: p_def q_def hd_append)
  have res: "free_list_remove (of_nat a) m = m'"
    using lseg_ends [OF seg(1)] lseg_ends [OF seg(2)]
    by (simp add: free_list_remove_def addr_nat Let_def fold_mem m'_def p_def q_def n_def del: of_nat_add)
  have cells: "cell (p + 4)" "cell q" "p + 4 \<noteq> q" "cell (q + 4)" "cell p" "q + 4 \<noteq> p"
    using sp pq by (auto simp: sep_def)
  let ?C = "{p + 4, q}"
  have ag: "agree ?C m m'" unfolding m'_def using cells by (intro agree_st agree_refl) auto
  have front: "lseg m' s (butlast xs) p" if "xs \<noteq> []"
  proof (rule lseg_agree [OF _ ag])
    have xs: "xs = butlast xs @ [p]" using that by (simp add: p_def)
    show "lseg m s (butlast xs) p" using seg(1) by (subst (asm) xs) (simp add: lseg_append)
    have mem: "set (butlast xs) \<subseteq> set xs" "p \<in> set xs" "p \<notin> set (butlast xs)"
      using that d by (auto simp: p_def dest: in_set_butlastD distinct_last_notin_butlast)
    have "p \<noteq> s" "q \<noteq> p" "q \<notin> set (butlast xs)" using d pq(2) mem by auto
    from write_apart [OF sp _ this(1) mem(3) this(2,3)] pq mem
    show "?C \<inter> seg_cells s (butlast xs) p = {}" "\<forall>c \<in> seg_cells s (butlast xs) p. cell c" by auto
    show "\<forall>c \<in> ?C. cell c" using cells by simp
  qed
  have behind: "lseg m' q (tl ys) s" if "ys \<noteq> []"
  proof (rule lseg_agree [OF _ ag])
    have ys: "ys = q # tl ys" using that by (simp add: q_def)
    show "lseg m q (tl ys) s" using seg(2) by (subst (asm) ys) simp
    have mem: "set (tl ys) \<subseteq> set ys" "q \<in> set ys" "q \<notin> set (tl ys)"
      using that d by (auto simp: q_def neq_Nil_conv)
    have "p \<noteq> q" "p \<notin> set (tl ys)" "q \<noteq> s" using d pq(1) mem by auto
    from write_apart [OF sp _ this(1,2,3) mem(3)] pq mem
    show "?C \<inter> seg_cells q (tl ys) s = {}" "\<forall>c \<in> seg_cells q (tl ys) s. cell c" by auto
    show "\<forall>c \<in> ?C. cell c" using cells by simp
  qed
  have link: "ld m' (p + 4) = of_nat q" "ld m' q = of_nat p" using cells by (simp_all add: m'_def ld_st)
  have rest: "lseg m' p ys s"
  proof (cases ys)
    case Nil
    with link show ?thesis by (simp add: q_def)
  next
    case (Cons y ys')
    with link behind show ?thesis by (simp add: q_def)
  qed
  have "lseg m' s (xs @ ys) s"
  proof (cases "xs = []")
    case True
    with rest show ?thesis by (simp add: p_def)
  next
    case False
    then have "xs @ ys = butlast xs @ p # ys" by (simp add: p_def)
    with front [OF False] rest show ?thesis by (simp only: lseg_append)
  qed
  moreover have "sep (insert s (set (xs @ ys)))" by (rule sep_mono [OF sp]) auto
  moreover have "?C \<subseteq> link_cells (insert s (set (xs @ ys)))" using pq by (auto simp: link_cells_def)
  ultimately show ?thesis using d agree_mono [OF ag] unfolding res linked_def by auto
qed

end
