(* ===== verification/HeapOps.thy ===== *)
theory HeapOps
  imports HeapRep
begin

section \<open>The operations of the heap keep its representation\<close>

subsection \<open>Sizes and flags\<close>

lemma flag_bits_mask: "FLAG_BITS = mask 2"
  by (simp add: FLAG_BITS_def USED_BIT_def RESERVED_BIT_def mask_eq_exp_minus_1)

lemma size_bits:
  assumes "4 dvd n" "f < 4" "n + f < 2 ^ 32"
  shows "(of_nat (n + f) :: u32) AND NOT FLAG_BITS = of_nat n"
    and "(of_nat (n + f) :: u32) AND FLAG_BITS = of_nat f"
    and "(of_nat (n + f) :: u32) AND USED_BIT \<noteq> 0 \<longleftrightarrow> odd f"
proof -
  have "(of_nat (n + f) :: u32) AND FLAG_BITS = take_bit 2 (of_nat (n + f))"
    by (simp add: flag_bits_mask take_bit_eq_mask del: of_nat_add)
  also have "\<dots> = of_nat (take_bit 2 (n + f))" by (rule take_bit_of_nat)
  also have "take_bit 2 (n + f) = f" using assms(1,2) by (auto simp: take_bit_eq_mod elim!: dvdE)
  finally show flags: "(of_nat (n + f) :: u32) AND FLAG_BITS = of_nat f" .
  have "(of_nat (n + f) :: u32) = (of_nat (n + f) AND NOT FLAG_BITS) + (of_nat (n + f) AND FLAG_BITS)"
    by (subst disjunctive_add; simp add: bit_simps flag_bits_mask bit_eq_iff) auto
  with flags show "(of_nat (n + f) :: u32) AND NOT FLAG_BITS = of_nat n" by simp
  have "unat (of_nat (n + f) :: u32) = n + f" using assms(3) by (intro unat_of_nat_small) simp
  then have "(of_nat (n + f) :: u32) AND 1 \<noteq> 0 \<longleftrightarrow> odd (n + f)"
    by (simp only: word_and_1_odd)
  moreover have "even n" using assms(1) by (auto elim: dvdE)
  ultimately show "(of_nat (n + f) :: u32) AND USED_BIT \<noteq> 0 \<longleftrightarrow> odd f" by (simp add: USED_BIT_def)
qed

lemma size_or_flags:
  assumes "4 dvd n" "n < 2 ^ 32"
  shows "(of_nat n :: u32) OR of_bool u = of_nat (n + of_bool u)"
proof (cases u)
  case True
  have "even (of_nat n :: u32)" using assms(1) by (auto elim!: dvdE)
  then show ?thesis using True by (simp add: or_one_eq)
qed simp

lemma header_reads:
  assumes "ld m a = of_nat (n + of_bool u)" "4 dvd n" "n + 1 < 2 ^ 32"
  shows "get_size (of_nat a) m = of_nat n" "get_flags (of_nat a) m = of_bool u" "is_free (of_nat a) m \<longleftrightarrow> \<not> u"
  using size_bits [OF assms(2), of "of_bool u"] assms(1,3)
  by (simp_all add: get_size_def get_flags_def is_free_def ld_def del: of_nat_add split: split_of_bool)

lemma write_size_fields_ok:
  assumes "4 dvd n" "n + 1 < 2 ^ 32"
  shows "write_size_fields (of_nat a) (of_nat n) (of_bool u) m =
    Some (st (st m a (of_nat (n + of_bool u))) (a + 4 + n) (of_nat n))"
proof -
  have "(of_nat n :: u32) AND FLAG_BITS = 0" using size_bits(2) [OF assms(1), of 0] assms(2) by simp
  moreover have "(of_bool u :: u32) AND NOT FLAG_BITS = 0"
    by (cases u) (simp_all add: FLAG_BITS_def USED_BIT_def RESERVED_BIT_def)
  ultimately show ?thesis
    using size_or_flags [OF assms(1), of u] assms(2)
    by (simp add: write_size_fields_def addr_nat st_def Let_def)
qed

lemma mark_used_ok:
  "ld m a = of_nat n \<Longrightarrow> 4 dvd n \<Longrightarrow> n < 2 ^ 32 \<Longrightarrow> mark_used (of_nat a) m = st m a (of_nat (n + 1))"
  using size_or_flags [of n True] by (simp add: mark_used_def ld_def st_def USED_BIT_def)

lemma mark_free_ok:
  assumes "ld m a = of_nat (n + 1)" "4 dvd n" "n + 1 < 2 ^ 32"
  shows "mark_free (of_nat a) m = st m a (of_nat n)"
proof -
  have "(v AND NOT (b OR c)) AND NOT b = v AND NOT (b OR c)" "((v OR b) AND NOT b) = v AND NOT b" for v b c :: u32
    by (rule bit_word_eqI, auto simp: bit_simps)+
  then have bits: "(v AND NOT FLAG_BITS) AND NOT USED_BIT = v AND NOT FLAG_BITS"
    "((v OR USED_BIT) AND NOT USED_BIT) = v AND NOT USED_BIT" for v by (simp_all only: FLAG_BITS_def)
  have n: "(of_nat n :: u32) AND NOT FLAG_BITS = of_nat n" using size_bits(1) [OF assms(2), of 0] assms(3) by simp
  have "(of_nat (n + 1) :: u32) = of_nat n OR USED_BIT"
    using size_or_flags [OF assms(2), of True] assms(3) by (simp add: USED_BIT_def)
  then have "(of_nat (n + 1) :: u32) AND NOT USED_BIT = of_nat n" using bits n by metis
  with assms(1) show ?thesis by (simp add: mark_free_def ld_def st_def)
qed

subsection \<open>The place of the heap\<close>

text \<open>
  The heap lies at an aligned address that is not at the end of the memory. \<^verbatim>\<open>get_previous\<close> of
  the first block reads the sentinel's link as a size and so looks at an address in the last
  megabyte of the address space; \<open>wild\<close> says that no byte there looks like a block of that size.
\<close>

abbreviation hsize :: nat where "hsize \<equiv> 1048576"

definition geo :: "nat \<Rightarrow> blocks \<Rightarrow> bool" where
  "geo hb bs \<longleftrightarrow> 4 dvd hb \<and> 16 \<le> hb \<and> hb + 2 * hsize + 16 \<le> 2 ^ 32 \<and> shape bs \<and> span bs = hsize"

definition wild :: "mem \<Rightarrow> nat \<Rightarrow> bool" where
  "wild m hb \<longleftrightarrow> (\<forall>n. 4 dvd n \<and> (n = hb - 8 \<or> hb + 4 \<le> n \<and> n < hb + hsize) \<longrightarrow>
     get_size (of_nat hb - 4 - of_nat n - SIZEOF_MEMBLOCK) m \<noteq> of_nat n)"

definition kept :: "(nat \<times> nat) set \<Rightarrow> mem \<Rightarrow> mem \<Rightarrow> bool" where
  "kept K m m' \<longleftrightarrow> (\<forall>(p, k) \<in> K. \<forall>i < k. byte m' (p + i) = byte m (p + i))"

lemma kept_refl [simp, intro]: "kept K m m" by (auto simp: kept_def)
lemma kept_trans: "kept K m m' \<Longrightarrow> kept K m' m'' \<Longrightarrow> kept K m m''" by (fastforce simp: kept_def)
lemma kept_mono: "kept K m m' \<Longrightarrow> L \<subseteq> K \<Longrightarrow> kept L m m'" by (auto simp: kept_def)

lemma kept_agree:
  assumes "agree C m m'" "\<And>p k c. (p, k) \<in> K \<Longrightarrow> c \<in> C \<Longrightarrow> c + 4 \<le> p \<or> p + k \<le> c"
    and "\<And>p k. (p, k) \<in> K \<Longrightarrow> p + k \<le> 2 ^ 32"
  shows "kept K m m'"
  unfolding kept_def
proof clarify
  fix p k i assume pk: "(p, k) \<in> K" "i < k"
  have "p + i < 2 ^ 32" using assms(3) [OF pk(1)] pk(2) by simp
  moreover have "p + i < c \<or> c + 4 \<le> p + i" if "c \<in> C" for c using assms(2) [OF pk(1) that] pk(2) by auto
  ultimately show "byte m' (p + i) = byte m (p + i)" using assms(1) by (simp add: agree_def)
qed

lemma geo_cells:
  assumes "geo hb bs"
  shows "c \<in> marks hb bs \<Longrightarrow> cell c" "sep (insert (hb - 8) (nodes hb bs))"
    "marks hb bs \<inter> link_cells (insert (hb - 8) (nodes hb bs)) = {}"
proof -
  have hb: "4 dvd hb" "16 \<le> hb" "hb + hsize + 16 \<le> 2 ^ 32" "shape bs" "span bs = hsize" "4 dvd hb - 8"
    using assms by (auto simp: geo_def elim!: dvdE)
  show c: "cell c" if "c \<in> marks hb bs" for c
    using marks_dvd [OF hb(1,4) that] marks_range [OF that] hb(3,5) by (simp add: cell_def)
  have n: "cell x \<and> cell (x + 4) \<and> hb + 4 \<le> x" if "x \<in> nodes hb bs" for x
    using nodes_dvd [OF hb(1,4) that] nodes_range [OF hb(4) that] hb(3,5) by (auto simp: cell_def)
  have "hb - 8 + 4 = hb - 4" "4 dvd hb - 4" using hb(1,2) by (auto elim!: dvdE)
  then have s: "cell (hb - 8)" "cell (hb - 8 + 4)" using hb(2,3,6) by (auto simp: cell_def)
  have "x + 4 \<noteq> y" if "x \<in> insert (hb - 8) (nodes hb bs)" "y \<in> insert (hb - 8) (nodes hb bs)" for x y
    using nodes_apart [OF hb(4), of x hb y] n that hb(2) by fastforce
  with n s show "sep (insert (hb - 8) (nodes hb bs))" by (auto simp: sep_def)
  show "marks hb bs \<inter> link_cells (insert (hb - 8) (nodes hb bs)) = {}"
    using nodes_marks [OF hb(4)] marks_range hb(2) by (fastforce simp: link_cells_def)
qed

lemma link_cells_range:
  assumes "geo hb bs" "c \<in> link_cells (insert (hb - 8) (nodes hb bs))"
  shows "hb - 8 \<le> c \<and> c + 4 \<le> hb + hsize"
  using assms nodes_range [of bs _ hb] by (fastforce simp: link_cells_def geo_def)

lemma wild_agree:
  assumes "wild m hb" "agree C m m'" "geo hb bs" "\<forall>c \<in> C. cell c \<and> hb - 8 \<le> c \<and> c + 4 \<le> hb + hsize"
  shows "wild m' hb"
  unfolding wild_def
proof (intro allI impI)
  fix n assume n: "4 dvd n \<and> (n = hb - 8 \<or> hb + 4 \<le> n \<and> n < hb + hsize)"
  have hb: "4 dvd hb" "16 \<le> hb" "hb + 2 * hsize + 16 \<le> 2 ^ 32" using assms(3) by (auto simp: geo_def)
  define w where "w = (if n = hb - 8 then 0 else 2 ^ 32 + hb - 8 - n)"
  have "(of_nat hb - 4 - of_nat n - SIZEOF_MEMBLOCK :: u32) = of_nat w"
  proof (cases "n = hb - 8")
    case True
    with hb(2) show ?thesis by (simp add: w_def SIZEOF_MEMBLOCK_def)
  next
    case False
    then have "w + n + 8 = 2 ^ 32 + hb" using n hb(2) by (simp add: w_def)
    then have "(of_nat (w + n + 8) :: u32) = of_nat (2 ^ 32 + hb)" by simp
    then have "(of_nat w :: u32) + of_nat n + 8 = of_nat hb" by simp
    then show ?thesis by (simp add: SIZEOF_MEMBLOCK_def algebra_simps)
  qed
  moreover have "ld m' w = ld m w"
  proof (rule agree_ld [OF assms(2)])
    show "cell w" using n hb by (auto simp: w_def cell_def)
    show "\<forall>c \<in> C. cell c" using assms(4) by simp
    show "w \<notin> C" using assms(4) n hb by (auto simp: w_def)
  qed
  moreover have "get_size (of_nat hb - 4 - of_nat n - SIZEOF_MEMBLOCK) m \<noteq> of_nat n"
    using assms(1) n by (simp add: wild_def)
  ultimately show "get_size (of_nat hb - 4 - of_nat n - SIZEOF_MEMBLOCK) m' \<noteq> of_nat n"
    by (simp add: get_size_def ld_def)
qed

text \<open>What a write to links, and what a write to headers and footers leaves as it is.\<close>

lemma link_cells_frame:
  assumes "agree (link_cells S) m m'" "S \<subseteq> insert (hb - 8) (nodes hb bs)" "geo hb bs"
  shows "wild m hb \<Longrightarrow> wild m' hb" "kept (useds hb bs) m m'"
    and "tiled m a cs \<Longrightarrow> 4 dvd a \<Longrightarrow> shape cs \<Longrightarrow> a + span cs \<le> 2 ^ 32 \<Longrightarrow> marks a cs \<subseteq> marks hb bs \<Longrightarrow> tiled m' a cs"
proof -
  let ?N = "insert (hb - 8) (nodes hb bs)"
  have ag: "agree (link_cells ?N) m m'" by (rule agree_mono [OF assms(1) link_cells_mono [OF assms(2)]])
  have cells: "\<forall>c \<in> link_cells ?N. cell c" using sep_link_cells [OF geo_cells(2) [OF assms(3)]] by blast
  have sh: "shape bs" "16 \<le> hb" "hb + hsize \<le> 2 ^ 32" "span bs = hsize" using assms(3) by (auto simp: geo_def)
  show "wild m hb \<Longrightarrow> wild m' hb"
    using cells link_cells_range [OF assms(3)] by (intro wild_agree [OF _ ag assms(3)]) blast+
  show "kept (useds hb bs) m m'"
  proof (rule kept_agree [OF ag])
    fix p k c assume pk: "(p, k) \<in> useds hb bs"
    then show "p + k \<le> 2 ^ 32" using useds_range [of p k hb bs] sh by simp
    assume "c \<in> link_cells ?N"
    then show "c + 4 \<le> p \<or> p + k \<le> c"
      using useds_nodes [OF sh(1) pk] useds_range [OF pk] sh(2) by (fastforce simp: link_cells_def)
  qed
  assume t: "tiled m a cs" "4 dvd a" "shape cs" "a + span cs \<le> 2 ^ 32" "marks a cs \<subseteq> marks hb bs"
  with geo_cells(3) [OF assms(3)] show "tiled m' a cs"
    by (intro tiled_agree [OF t(1) ag t(2-4) cells]) blast
qed

lemma marks_frame:
  assumes "agree C m m'" "C \<subseteq> marks hb bs" "geo hb bs"
  shows "wild m hb \<Longrightarrow> wild m' hb" "kept (useds hb bs) m m'"
    "linked m (hb - 8) ns \<Longrightarrow> set ns \<subseteq> nodes hb bs \<Longrightarrow> linked m' (hb - 8) ns"
proof -
  have cells: "\<forall>c \<in> C. cell c" using geo_cells(1) [OF assms(3)] assms(2) by blast
  have sh: "shape bs" "16 \<le> hb" "hb + hsize \<le> 2 ^ 32" "span bs = hsize" using assms(3) by (auto simp: geo_def)
  show "wild m hb \<Longrightarrow> wild m' hb"
    using cells assms(2) marks_range sh by (intro wild_agree [OF _ assms(1,3)]) fastforce+
  show "kept (useds hb bs) m m'"
  proof (rule kept_agree [OF assms(1)])
    fix p k c assume pk: "(p, k) \<in> useds hb bs"
    then show "p + k \<le> 2 ^ 32" using useds_range [of p k hb bs] sh by simp
    assume "c \<in> C"
    then show "c + 4 \<le> p \<or> p + k \<le> c" using useds_marks [OF pk] assms(2) by auto
  qed
  assume "linked m (hb - 8) ns" "set ns \<subseteq> nodes hb bs"
  then show "linked m' (hb - 8) ns"
    using geo_cells(3) [OF assms(3)] assms(2) link_cells_mono [of "insert (hb - 8) (set ns)" "insert (hb - 8) (nodes hb bs)"]
    by (intro linked_agree [OF _ assms(1) cells]) blast+
qed

end
