(* ===== verification/HeapMerge.thy ===== *)
theory HeapMerge
  imports HeapOps
begin

section \<open>Merging and splitting of blocks\<close>

definition rep :: "mem \<Rightarrow> nat \<Rightarrow> blocks \<Rightarrow> nat list \<Rightarrow> bool" where
  "rep m hb bs ns \<longleftrightarrow> geo hb bs \<and> tiled m hb bs \<and> linked m (hb - 8) ns \<and> set ns \<subseteq> nodes hb bs \<and> wild m hb"

lemma geo_part:
  assumes "geo hb (xs @ (n, u) # ys)"
  shows "4 dvd n" "8 \<le> n" "n + 1 < 2 ^ 32" "cell (hb + span xs)" "cell (hb + span xs + 4 + n)"
    "4 dvd hb + span xs" "hb + span xs + n + 8 + span ys = hb + hsize" "16 \<le> hb" "hb + 2 * hsize + 16 \<le> 2 ^ 32"
    "shape xs" "shape ys"
  using assms shape_dvd [of xs] by (auto simp: geo_def cell_def)

lemma tiled_part:
  assumes "tiled m hb (xs @ (n, u) # ys)"
  shows "tiled m hb xs" "ld m (hb + span xs) = of_nat (n + of_bool u)" "ld m (hb + span xs + 4 + n) = of_nat n"
    "tiled m (hb + span xs + n + 8) ys"
  using assms by simp_all

lemma pointer_limits:
  "hb + hsize < 2 ^ 32 \<Longrightarrow> MAX_MEMBLOCK_POINTER (of_nat hb) = of_nat (hb + 1048560)"
  "MIN_MEMBLOCK_POINTER (of_nat hb) = of_nat hb"
  by (simp_all add: MAX_MEMBLOCK_POINTER_def MIN_MEMBLOCK_POINTER_def HEAP_SIZE_def MEMBLOCK_OVERHEAD_def
      SIZEOF_MEMBLOCK_def MIN_BLOCK_SIZE_def ALIGNMENT_def SIZEOF_FREELISTNODE_def)

lemma get_next_ok:
  assumes "geo hb (xs @ (n, u) # ys)"
    and "ld m (hb + span xs) = of_nat (n + of_bool u)" "ld m (hb + span xs + 4 + n) = of_nat n"
  shows "get_next (of_nat hb) (of_nat (hb + span xs)) m = (if ys = [] then 0 else of_nat (hb + span xs + n + 8))"
proof -
  note g = geo_part [OF assms(1)]
  let ?next = "hb + span xs + n + 8"
  have sz: "get_size (of_nat (hb + span xs)) m = of_nat n"
    by (rule header_reads(1) [OF assms(2) g(1,3)])
  have addr: "blk_mem (of_nat (hb + span xs)) + of_nat n = (of_nat (hb + span xs + 4 + n) :: u32)"
    by (simp add: blk_mem_def SIZEOF_MEMBLOCK_def)
  have fin: "get_next (of_nat hb) (of_nat (hb + span xs)) m =
      (if (of_nat (hb + 1048560) :: u32) < of_nat ?next then 0 else of_nat ?next)"
    using assms(3) g(9) unfolding get_next_def Let_def sz addr ld_def
    by (subst pointer_limits(1)) (simp_all add: algebra_simps)
  have "ys = [] \<longleftrightarrow> hb + 1048560 < ?next"
  proof (cases ys)
    case (Cons y zs)
    then have "16 \<le> span ys" using g(11) by (cases y) simp
    with Cons g(7) show ?thesis by simp
  qed (use g(7) in simp)
  moreover have "(of_nat (hb + 1048560) :: u32) < of_nat ?next \<longleftrightarrow> hb + 1048560 < ?next"
    using g(7,9) by (intro of_nat_less_word) simp_all
  ultimately show ?thesis using fin by simp
qed

lemma get_previous_ok:
  assumes "rep m hb (xs @ b # ys) ns"
  shows "get_previous (of_nat hb) (of_nat (hb + span xs)) m = (if xs = [] then 0 else of_nat (hb + span (butlast xs)))"
proof (cases xs rule: rev_cases)
  case Nil
  define f where "f = hd (ns @ [hb - 8])"
  have g: "geo hb (b # ys)" "linked m (hb - 8) ns" "set ns \<subseteq> nodes hb (b # ys)" "wild m hb"
    using assms Nil by (simp_all add: rep_def)
  have hb: "16 \<le> hb" "shape (b # ys)" "4 dvd hb" "4 dvd hb - 8" "span (b # ys) = hsize" using g(1) by (auto simp: geo_def elim!: dvdE)
  have "ld m (hb - 8 + 4) = of_nat f"
    using g(2) lseg_ends [of m "hb - 8" ns "hb - 8"] by (simp add: linked_def f_def)
  moreover have "hb - 8 + 4 = hb - 4" using hb(1) by simp
  ultimately have ld: "load32 m (of_nat hb - 4) = of_nat f" using hb(1) by (simp add: ld_def)
  have "4 dvd f \<and> (f = hb - 8 \<or> hb + 4 \<le> f \<and> f < hb + hsize)"
  proof (cases ns)
    case Nil
    then show ?thesis using hb(4) by (simp add: f_def)
  next
    case (Cons x xs)
    then have "f \<in> nodes hb (b # ys)" using g(3) by (auto simp: f_def)
    with nodes_dvd [OF hb(3,2)] nodes_range [OF hb(2)] hb(5) show ?thesis by force
  qed
  with g(4) have "get_size (of_nat hb - 4 - of_nat f - SIZEOF_MEMBLOCK) m \<noteq> of_nat f"
    unfolding wild_def by blast
  with Nil ld show ?thesis by (simp add: get_previous_def Let_def)
next
  case (snoc zs c)
  obtain k u where c: "c = (k, u)" by fastforce
  have g: "geo hb (zs @ (k, u) # b # ys)" "tiled m hb (zs @ (k, u) # b # ys)"
    using assms snoc c by (simp_all add: rep_def)
  note p = geo_part [OF g(1)] and t = tiled_part [OF g(2)]
  let ?a = "hb + span zs"
  have addr: "(of_nat (hb + span xs) :: u32) - 4 = of_nat (?a + 4 + k)" using snoc c by simp
  have prev: "(of_nat (?a + 4 + k) :: u32) - of_nat k - SIZEOF_MEMBLOCK = of_nat ?a"
    by (simp add: SIZEOF_MEMBLOCK_def)
  have sz: "get_size (of_nat ?a) m = of_nat k" by (rule header_reads(1) [OF t(2) p(1,3)])
  have ld: "load32 m (of_nat (?a + 4 + k)) = of_nat k" using t(3) by (simp only: ld_def)
  have "\<not> (of_nat ?a :: u32) < of_nat hb"
    using p(7,9) by (subst of_nat_less_word) simp_all
  with snoc show ?thesis
    unfolding get_previous_def Let_def addr ld prev sz pointer_limits(2) by (simp del: of_nat_add)
qed

subsection \<open>Unlinking a free neighbour\<close>

lemma unlink_ok:
  assumes "rep m hb bs ns" "a + 4 \<in> set ns"
  shows "rep (free_list_remove (of_nat a) m) hb bs (remove1 (a + 4) ns)"
    "kept (useds hb bs) m (free_list_remove (of_nat a) m)"
proof -
  obtain xs ys where ns: "ns = xs @ (a + 4) # ys" "a + 4 \<notin> set xs" using split_list_first [OF assms(2)] by blast
  have r: "geo hb bs" "tiled m hb bs" "linked m (hb - 8) ns" "set ns \<subseteq> nodes hb bs" "wild m hb"
    using assms(1) by (simp_all add: rep_def)
  have rem: "linked (free_list_remove (of_nat a) m) (hb - 8) (xs @ ys)"
    "agree (link_cells (insert (hb - 8) (set (xs @ ys)))) m (free_list_remove (of_nat a) m)"
    using free_list_remove_ok [of m "hb - 8" xs a ys] r(3) ns by simp_all
  have sub: "insert (hb - 8) (set (xs @ ys)) \<subseteq> insert (hb - 8) (nodes hb bs)" using r(4) ns by auto
  note f = link_cells_frame [OF rem(2) sub r(1)]
  have "4 dvd hb" "shape bs" "hb + span bs \<le> 2 ^ 32" using r(1) by (simp_all add: geo_def)
  with f(1,3) r rem(1) ns show "rep (free_list_remove (of_nat a) m) hb bs (remove1 (a + 4) ns)"
    by (auto simp: rep_def remove1_append)
  show "kept (useds hb bs) m (free_list_remove (of_nat a) m)" by (rule f(2))
qed

text \<open>A neighbour that is merged, or none.\<close>

definition gap :: "blocks \<Rightarrow> bool" where "gap pl \<longleftrightarrow> pl = [] \<or> (\<exists>k. pl = [(k, False)])"

lemma overhead_nat: "of_nat n + (of_nat k + MEMBLOCK_OVERHEAD) = (of_nat (n + k + 8) :: u32)"
  by (simp add: MEMBLOCK_OVERHEAD_def SIZEOF_MEMBLOCK_def)

lemma merge_previous_ok:
  assumes "rep m hb (xs @ pl @ (n, u) # ys) ns" "gap pl" "pl = [] \<longrightarrow> xs = [] \<or> snd (last xs)"
    and "nodes (hb + span xs) pl \<subseteq> set ns"
  shows "\<exists>m' ns'. merge_previous (of_nat hb) (of_nat (hb + span (xs @ pl))) (of_nat N) m =
      (of_nat (hb + span xs), of_nat (N + span pl), m') \<and> rep m' hb (xs @ pl @ (n, u) # ys) ns' \<and>
      set ns' = set ns - nodes (hb + span xs) pl \<and> kept (useds hb (xs @ pl @ (n, u) # ys)) m m'"
proof -
  let ?a = "hb + span (xs @ pl)"
  have r: "rep m hb ((xs @ pl) @ (n, u) # ys) ns" using assms(1) by simp
  note prev = get_previous_ok [OF r]
  have d: "distinct ns" using assms(1) by (simp add: rep_def linked_def)
  show ?thesis
  proof (cases pl)
    case Nil
    have "\<not> (get_previous (of_nat hb) (of_nat ?a) m \<noteq> 0 \<and> is_free (get_previous (of_nat hb) (of_nat ?a) m) m)"
    proof (cases xs rule: rev_cases)
      case (snoc zs c)
      then obtain k where c: "c = (k, True)" using assms(3) Nil by (cases c) auto
      have g: "geo hb (zs @ (k, True) # (n, u) # ys)" "tiled m hb (zs @ (k, True) # (n, u) # ys)"
        using assms(1) snoc c Nil by (simp_all add: rep_def)
      from header_reads(3) [OF tiled_part(2) [OF g(2)] geo_part(1,3) [OF g(1)]]
      show ?thesis using prev snoc Nil by simp
    qed (use prev Nil in simp)
    with Nil assms(1) show ?thesis by (auto simp: merge_previous_def Let_def)
  next
    case Cons
    then obtain k where pl: "pl = [(k, False)]" using assms(2) by (auto simp: gap_def)
    let ?p = "hb + span xs"
    have g: "geo hb (xs @ (k, False) # (n, u) # ys)" "tiled m hb (xs @ (k, False) # (n, u) # ys)"
      using assms(1) pl by (simp_all add: rep_def)
    have "unat (of_nat ?p :: u32) = ?p" using geo_part(7,9) [OF g(1)] by (intro unat_of_nat_small) simp
    then have "of_nat ?p \<noteq> (0 :: u32)" using geo_part(8) [OF g(1)] by (metis add_is_0 not_numeral_le_zero unsigned_0)
    moreover have "is_free (of_nat ?p) m"
      using header_reads(3) [OF tiled_part(2) [OF g(2)] geo_part(1,3) [OF g(1)]] by simp
    moreover have pr: "get_previous (of_nat hb) (of_nat ?a) m = of_nat ?p" using prev pl by simp
    moreover have "?p + 4 \<in> set ns" using assms(4) pl by simp
    note un = unlink_ok [OF assms(1) this]
    have "tiled (free_list_remove (of_nat ?p) m) hb (xs @ (k, False) # (n, u) # ys)"
      using un(1) pl by (simp add: rep_def)
    from header_reads(1) [OF tiled_part(2) [OF this] geo_part(1,3) [OF g(1)]]
    have "get_size (of_nat ?p) (free_list_remove (of_nat ?p) m) = of_nat k" .
    ultimately have "merge_previous (of_nat hb) (of_nat ?a) (of_nat N) m =
        (of_nat ?p, of_nat (N + span pl), free_list_remove (of_nat ?p) m)"
      unfolding merge_previous_def Let_def pr using pl by (simp add: overhead_nat del: of_nat_add) (simp add: add.assoc)
    with un d pl show ?thesis by (auto intro!: exI)
  qed
qed

lemma merge_next_ok:
  assumes "rep m hb (xs @ (n, u) # ql @ ys) ns" "gap ql" "ql = [] \<longrightarrow> ys = [] \<or> snd (hd ys)"
    and "nodes (hb + span xs + n + 8) ql \<subseteq> set ns"
  shows "\<exists>m' ns'. merge_next (of_nat hb) (of_nat (hb + span xs)) (of_nat N) m = (of_nat (N + span ql), m') \<and>
      rep m' hb (xs @ (n, u) # ql @ ys) ns' \<and>
      set ns' = set ns - nodes (hb + span xs + n + 8) ql \<and> kept (useds hb (xs @ (n, u) # ql @ ys)) m m'"
proof -
  let ?a = "hb + span xs" and ?q = "hb + span xs + n + 8"
  have g: "geo hb (xs @ (n, u) # ql @ ys)" "tiled m hb (xs @ (n, u) # ql @ ys)" using assms(1) by (simp_all add: rep_def)
  note nxt = get_next_ok [OF g(1) tiled_part(2,3) [OF g(2)]]
  have d: "distinct ns" using assms(1) by (simp add: rep_def linked_def)
  have q: "?q = hb + span (xs @ [(n, u)])" by simp
  show ?thesis
  proof (cases ql)
    case Nil
    have "\<not> (get_next (of_nat hb) (of_nat ?a) m \<noteq> 0 \<and> is_free (get_next (of_nat hb) (of_nat ?a) m) m)"
    proof (cases ys)
      case (Cons c zs)
      then obtain k where c: "c = (k, True)" using assms(3) Nil by (cases c) auto
      have h: "geo hb ((xs @ [(n, u)]) @ (k, True) # zs)" "tiled m hb ((xs @ [(n, u)]) @ (k, True) # zs)"
        using g Cons c Nil by simp_all
      from header_reads(3) [OF tiled_part(2) [OF h(2)] geo_part(1,3) [OF h(1)]]
      show ?thesis unfolding nxt using Cons by (simp add: add.assoc)
    qed (use nxt Nil in simp)
    with Nil assms(1) show ?thesis by (auto simp: merge_next_def Let_def)
  next
    case Cons
    then obtain k where ql: "ql = [(k, False)]" using assms(2) by (auto simp: gap_def)
    have h: "geo hb ((xs @ [(n, u)]) @ (k, False) # ys)" "tiled m hb ((xs @ [(n, u)]) @ (k, False) # ys)"
      using g ql by simp_all
    have "unat (of_nat ?q :: u32) = ?q" using geo_part(7,9) [OF g(1)] by (intro unat_of_nat_small) simp
    then have "of_nat ?q \<noteq> (0 :: u32)" using geo_part(8) [OF g(1)] by (metis add_is_0 not_numeral_le_zero unsigned_0)
    moreover have "is_free (of_nat ?q) m"
      using header_reads(3) [OF tiled_part(2) [OF h(2)] geo_part(1,3) [OF h(1)]] by (simp add: q)
    moreover have nx: "get_next (of_nat hb) (of_nat ?a) m = of_nat ?q" using nxt ql by simp
    moreover have "?q + 4 \<in> set ns" using assms(4) ql by simp
    note un = unlink_ok [OF assms(1) this]
    have "tiled (free_list_remove (of_nat ?q) m) hb ((xs @ [(n, u)]) @ (k, False) # ys)"
      using un(1) ql by (simp add: rep_def)
    from header_reads(1) [OF tiled_part(2) [OF this] geo_part(1,3) [OF h(1)]]
    have "get_size (of_nat ?q) (free_list_remove (of_nat ?q) m) = of_nat k" by (simp only: q)
    ultimately have "merge_next (of_nat hb) (of_nat ?a) (of_nat N) m =
        (of_nat (N + span ql), free_list_remove (of_nat ?q) m)"
      unfolding merge_next_def Let_def nx using ql by (simp add: overhead_nat del: of_nat_add) (simp add: add.assoc)
    with un d ql show ?thesis by (auto intro!: exI)
  qed
qed

lemma is_aligned_nat: "4 dvd n \<Longrightarrow> n < 2 ^ 32 \<Longrightarrow> is_aligned (of_nat n)"
  using aligned4_unat [of "of_nat n"]
  by (simp add: is_aligned_def ALIGNMENT_def aligned4_def unat_of_nat_small dvd_eq_mod_eq_0)

text \<open>Writing the header and the footer of a block, when the blocks before it are in order.\<close>

lemma write_part_ok:
  assumes "geo hb (xs @ (n, u) # ys)" "tiled m hb xs"
    and "linked m (hb - 8) ns" "set ns \<subseteq> nodes hb (xs @ (n, u) # ys)" "wild m hb"
  shows "\<exists>m'. write_size_fields (of_nat (hb + span xs)) (of_nat n) (of_bool u) m = Some m' \<and>
    tiled m' hb (xs @ [(n, u)]) \<and> linked m' (hb - 8) ns \<and> wild m' hb \<and>
    agree {hb + span xs, hb + span xs + 4 + n} m m' \<and>
    (tiled m b zs \<longrightarrow> 4 dvd b \<longrightarrow> shape zs \<longrightarrow> hb + span xs + n + 8 \<le> b \<longrightarrow> b + span zs \<le> 2 ^ 32 \<longrightarrow> tiled m' b zs)"
proof -
  let ?a = "hb + span xs"
  let ?m = "st (st m ?a (of_nat (n + of_bool u))) (?a + 4 + n) (of_nat n)"
  let ?C = "{?a, ?a + 4 + n}"
  note p = geo_part [OF assms(1)]
  have ag: "agree ?C m ?m" using p by (intro agree_st agree_refl) auto
  have sub: "?C \<subseteq> marks hb (xs @ (n, u) # ys)" by auto
  note fr = marks_frame [OF ag sub assms(1)]
  have cells: "\<forall>c \<in> ?C. cell c" using p by simp
  have "tiled ?m hb xs"
  proof (rule tiled_agree [OF assms(2) ag _ p(10) _ cells])
    show "4 dvd hb" "hb + span xs \<le> 2 ^ 32" using assms(1) by (auto simp: geo_def)
    show "?C \<inter> marks hb xs = {}" using marks_range [of _ hb xs] by fastforce
  qed
  moreover have "ld ?m ?a = of_nat (n + of_bool u)" "ld ?m (?a + 4 + n) = of_nat n"
    using p by (simp_all add: ld_st)
  moreover have "tiled ?m b zs" if "tiled m b zs" "4 dvd b" "shape zs" "?a + n + 8 \<le> b" "b + span zs \<le> 2 ^ 32"
  proof (rule tiled_agree [OF that(1) ag that(2,3,5) cells])
    show "?C \<inter> marks b zs = {}" using that(4) marks_range [of _ b zs] by fastforce
  qed
  moreover have "write_size_fields (of_nat ?a) (of_nat n) (of_bool u) m = Some ?m"
    using p by (intro write_size_fields_ok) simp_all
  ultimately show ?thesis using fr assms(3-5) ag by auto
qed

text \<open>The same over the blocks \<open>ms\<close>, when the rest of the heap is in order.\<close>

lemma write_block_ok:
  assumes "geo hb (xs @ ms @ ys)" "span ms = n + 8" "8 \<le> n" "4 dvd n"
    and "tiled m hb xs" "tiled m (hb + span xs + n + 8) ys"
    and "linked m (hb - 8) ns" "set ns \<subseteq> nodes hb (xs @ (n, u) # ys)" "wild m hb"
  shows "\<exists>m'. write_size_fields (of_nat (hb + span xs)) (of_nat n) (of_bool u) m = Some m' \<and>
    rep m' hb (xs @ (n, u) # ys) ns \<and> agree {hb + span xs, hb + span xs + 4 + n} m m'"
proof -
  have g: "geo hb (xs @ (n, u) # ys)" using assms(1-4) by (auto simp: geo_def)
  note p = geo_part [OF g]
  have "4 dvd hb + span xs + n + 8" using p by (auto simp: dvd_add)
  with write_part_ok [OF g assms(5,7-9), of "hb + span xs + n + 8" ys] p assms(6,8) g
  show ?thesis by (auto simp: rep_def)
qed

lemma gap_nodes: "gap pl \<Longrightarrow> nodes a pl \<subseteq> nodes b ms \<Longrightarrow> useds a pl = {}"
  by (auto simp: gap_def)

lemma nodes_split:
  assumes "shape (xs @ ys)"
  shows "nodes a xs \<inter> nodes (a + span xs) ys = {}"
  using assms nodes_range [of xs _ a] nodes_range [of ys _ "a + span xs"] by fastforce

lemma try_merge_ok:
  assumes "rep m hb (xs @ pl @ (n, True) # ql @ ys) ns" "set ns = nodes hb (xs @ pl @ (n, True) # ql @ ys)"
    and "gap pl" "gap ql" "pl = [] \<longrightarrow> xs = [] \<or> snd (last xs)" "ql = [] \<longrightarrow> ys = [] \<or> snd (hd ys)"
  shows "\<exists>m' ns' N. try_merge (of_nat hb) (of_nat (hb + span (xs @ pl))) m = Some (of_nat (hb + span xs), m') \<and>
    N + 8 = span (pl @ (n, True) # ql) \<and> rep m' hb (xs @ (N, True) # ys) ns' \<and>
    set ns' = nodes hb (xs @ (N, True) # ys) \<and> kept (useds hb (xs @ pl @ (n, True) # ql @ ys)) m m'"
proof -
  let ?bs = "xs @ pl @ (n, True) # ql @ ys" and ?a = "hb + span (xs @ pl)"
  define N where "N = n + span pl + span ql"
  have g: "geo hb ?bs" "tiled m hb ?bs" using assms(1) by (simp_all add: rep_def)
  have g': "geo hb ((xs @ pl) @ (n, True) # ql @ ys)" using g by simp
  note p = geo_part [OF g']
  have sh: "shape ?bs" using g(1) by (simp add: geo_def)
  have size: "get_size (of_nat ?a) m = of_nat n"
    using g(2) by (intro header_reads(1) [OF tiled_part(2) [of m hb _ _ _ "ql @ ys"] p(1,3)]) simp
  obtain m1 ns1 where s1: "merge_previous (of_nat hb) (of_nat ?a) (of_nat n) m =
      (of_nat (hb + span xs), of_nat (n + span pl), m1)" "rep m1 hb ?bs ns1"
      "set ns1 = nodes hb ?bs - nodes (hb + span xs) pl" "kept (useds hb ?bs) m m1"
    using merge_previous_ok [OF assms(1,3,5), of n] assms(2) by fastforce
  have rep1: "rep m1 hb ((xs @ pl) @ (n, True) # ql @ ys) ns1" using s1(2) by simp
  have "nodes (hb + span (xs @ pl) + n + 8) ql \<subseteq> set ns1"
    unfolding s1(3) using sh nodes_range [of pl _ "hb + span xs"] nodes_range [of ql _ "hb + span (xs @ pl) + n + 8"]
    by (fastforce simp: add_ac)
  from merge_next_ok [OF rep1 assms(4,6) this, of "n + span pl"]
  obtain m2 ns2 where s2: "merge_next (of_nat hb) (of_nat ?a) (of_nat (n + span pl)) m1 = (of_nat N, m2)"
      "rep m2 hb ?bs ns2" "set ns2 = set ns1 - nodes (?a + n + 8) ql" "kept (useds hb ?bs) m1 m2"
    unfolding N_def by auto
  have flags: "get_flags (of_nat ?a) m2 = of_bool True"
    using s2(2) by (intro header_reads(2) [OF tiled_part(2) [of m2 hb _ _ _ "ql @ ys"] p(1,3)]) (simp add: rep_def)
  have N: "N + 8 = span (pl @ (n, True) # ql)" by (simp add: N_def)
  have big: "N + hb < 2 ^ 32" "4 dvd N" "8 \<le> N"
    using g(1) p shape_dvd [of pl] shape_dvd [of ql] N by (auto simp: geo_def N_def)
  have nodes2: "set ns2 = nodes hb (xs @ (N, True) # ys)"
  proof -
    let ?A = "nodes hb xs" and ?B = "nodes (hb + span xs) pl" and ?C = "nodes (?a + n + 8) ql"
      and ?D = "nodes (?a + n + 8 + span ql) ys"
    have new: "nodes hb (xs @ (N, True) # ys) = ?A \<union> ?D" by (simp add: N_def add_ac)
    have all: "nodes hb ?bs = ?A \<union> ?B \<union> ?C \<union> ?D" by (auto simp: add_ac)
    have disj: "?A \<inter> ?B = {}" "?C \<inter> ?D = {}" using nodes_split [of xs pl hb] nodes_split [of ql ys] sh by simp_all
    have "x + 12 \<le> ?a \<and> ?a \<le> y" if "x \<in> ?A \<union> ?B" "y \<in> ?C \<union> ?D" for x y
      using that sh nodes_range [of xs x hb] nodes_range [of pl x "hb + span xs"] nodes_range [of ql y "?a + n + 8"]
        nodes_range [of ys y "?a + n + 8 + span ql"] by auto
    then have "(?A \<union> ?B) \<inter> (?C \<union> ?D) = {}" by fastforce
    with disj have "?A \<union> ?B \<union> ?C \<union> ?D - ?B - ?C = ?A \<union> ?D" by blast
    then show ?thesis unfolding s2(3) s1(3) all new .
  qed
  have eq_iff: "(of_nat N :: u32) = of_nat n \<longleftrightarrow> N = n" using big p by (intro of_nat_eq_word) simp_all
  have kept2: "kept (useds hb ?bs) m m2" by (rule kept_trans [OF s1(4) s2(4)])
  show ?thesis
  proof (cases "N = n")
    case True
    then have "pl = []" "ql = []" using assms(3,4) by (auto simp: N_def gap_def)
    with True s1(1) s2 size N nodes2 kept2 show ?thesis
      by (intro exI [of _ m2] exI [of _ ns2] exI [of _ n]) (simp add: try_merge_def Let_def)
  next
    case False
    have t2: "tiled m2 hb xs" "tiled m2 (hb + span xs + N + 8) ys" "linked m2 (hb - 8) ns2" "wild m2 hb"
      using s2(2) by (simp_all add: rep_def N_def add_ac)
    have gm: "geo hb (xs @ (pl @ (n, True) # ql) @ ys)" using g(1) by simp
    obtain m3 where m3: "write_size_fields (of_nat (hb + span xs)) (of_nat N) (of_bool True) m2 = Some m3"
      "rep m3 hb (xs @ (N, True) # ys) ns2" "agree {hb + span xs, hb + span xs + 4 + N} m2 m3"
      using write_block_ok [OF gm N [symmetric] big(3,2) t2(1,2,3) _ t2(4)] nodes2 by blast
    have "{hb + span xs, hb + span xs + 4 + N} \<subseteq> marks hb ?bs"
      using assms(3,4) by (auto simp: gap_def N_def add_ac)
    from kept_trans [OF kept2 marks_frame(2) [OF m3(3) this g(1)]]
    have "kept (useds hb ?bs) m m3" .
    moreover have "try_merge (of_nat hb) (of_nat ?a) m = Some (of_nat (hb + span xs), m3)"
      unfolding try_merge_def Let_def size s1(1) prod.case s2(1) flags m3(1)
      using False eq_iff is_aligned_nat [OF big(2)] big(1) by simp
    ultimately show ?thesis using m3(2) nodes2 N by blast
  qed
qed

subsection \<open>Splitting\<close>

definition rounded :: "nat \<Rightarrow> nat" where "rounded sz = max (4 * ((sz + 3) div 4)) 8"

lemma rounded_bounds: "8 \<le> rounded sz" "sz \<le> rounded sz" "4 dvd rounded sz"
  by (auto simp: rounded_def max_def)

lemma rounded_le: "8 \<le> n \<Longrightarrow> 4 dvd n \<Longrightarrow> sz \<le> n \<Longrightarrow> rounded sz \<le> n"
  by (auto simp: rounded_def elim!: dvdE)

lemma align_down: "x < 2 ^ 32 \<Longrightarrow> (of_nat x :: u32) AND NOT FLAG_BITS = of_nat (4 * (x div 4))"
  using size_bits(1) [of "4 * (x div 4)" "x mod 4"] by (simp del: of_nat_add of_nat_mult)

lemma align_rounded:
  assumes "sz + 3 < 2 ^ 32"
  shows "max (heap_align (of_nat sz)) MIN_BLOCK_SIZE = of_nat (rounded sz)"
proof -
  let ?k = "4 * ((sz + 3) div 4)"
  have fb: "ALIGNMENT - 1 = FLAG_BITS" by (simp add: ALIGNMENT_def FLAG_BITS_def USED_BIT_def RESERVED_BIT_def)
  have "(of_nat (sz + 3) :: u32) AND NOT FLAG_BITS = of_nat ?k" using assms by (rule align_down)
  moreover have "of_nat sz + (ALIGNMENT - 1) = (of_nat (sz + 3) :: u32)" by (simp add: ALIGNMENT_def)
  ultimately have "heap_align (of_nat sz) = of_nat ?k" by (simp only: heap_align_def fb)
  moreover have "MIN_BLOCK_SIZE = of_nat 8"
    by (simp add: MIN_BLOCK_SIZE_def ALIGNMENT_def SIZEOF_FREELISTNODE_def)
  moreover have "(of_nat ?k :: u32) \<le> of_nat 8 \<longleftrightarrow> ?k \<le> 8" using assms by (intro of_nat_le_word) simp_all
  ultimately show ?thesis by (simp add: max_def rounded_def del: of_nat_mult)
qed

lemma split_ok:
  assumes "rep m hb (xs @ (n, True) # ys) ns" "set ns = nodes hb (xs @ (n, True) # ys)"
    and "rounded sz + 16 \<le> n"
  shows "\<exists>m'. maybe_split_block (of_nat hb) (of_nat (hb + span xs)) (of_nat sz) m =
      Some (of_nat (hb + span xs + n - rounded sz), m') \<and>
    rep m' hb (xs @ (n - rounded sz - 8, False) # (rounded sz, True) # ys) ((hb + span xs + 4) # ns) \<and>
    (\<forall>K. K \<subseteq> useds hb xs \<union> useds (hb + span xs + n + 8) ys \<longrightarrow> kept K m m') \<and>
    ld m' (hb + span xs + 4) = of_nat (hb - 8)"
proof -
  let ?a = "hb + span xs"
  define k where "k = rounded sz"
  define r where "r = n - k - 8"
  have k: "8 \<le> k" "4 dvd k" "sz \<le> k" "k + 16 \<le> n" using rounded_bounds [of sz] assms(3) by (simp_all add: k_def)
  have n: "n = r + 8 + k" "8 \<le> r" using k by (simp_all add: r_def)
  let ?bs = "xs @ (n, True) # ys" and ?bs' = "xs @ (r, False) # (k, True) # ys"
  have g: "geo hb ?bs" "tiled m hb ?bs" "linked m (hb - 8) ns" "wild m hb" using assms(1) by (simp_all add: rep_def)
  note p = geo_part [OF g(1)]
  have "4 dvd r" using p(1) k(2) n(1) by (simp add: dvd_add_left_iff dvd_add_right_iff)
  then have g': "geo hb ?bs'" using g(1) n k by (auto simp: geo_def)
  note p' = geo_part [OF g']
  have sub: "set ns \<subseteq> nodes hb ?bs'" using assms(2) n(1) by (auto simp: add_ac)
  have ys: "4 dvd ?a + n + 8" "?a + n + 8 + span ys \<le> 2 ^ 32" using p by (auto simp: dvd_add)
  have head: "get_size (of_nat ?a) m = of_nat n" "get_flags (of_nat ?a) m = of_bool True"
    using header_reads(1,2) [OF tiled_part(2) [OF g(2)] p(1,3)] by simp_all
  obtain m1 where m1: "write_size_fields (of_nat ?a) (of_nat r) (of_bool False) m = Some m1"
      "tiled m1 hb (xs @ [(r, False)])" "linked m1 (hb - 8) ns" "wild m1 hb"
      "agree {?a, ?a + 4 + r} m m1" "tiled m1 (?a + n + 8) ys"
    using write_part_ok [OF g' _ g(3) sub g(4), of "?a + n + 8" ys] g(2) ys p(11) n by auto
  have free: "is_free (of_nat ?a) m1"
    using m1(2) by (subst header_reads(3) [where n = r and u = False]) (use p' in simp_all)
  let ?S = "insert (?a + 4) (insert (hb - 8) (set ns))"
  have sub2: "?S \<subseteq> insert (hb - 8) (nodes hb ?bs')" using sub by auto
  have "?a + 4 \<notin> nodes hb xs" "?a + 4 \<notin> nodes (?a + n + 8) ys"
    using nodes_range [OF p(10), of "?a + 4" hb] nodes_range [OF p(11), of "?a + 4" "?a + n + 8"] by linarith+
  then have "?a + 4 \<notin> insert (hb - 8) (set ns)" unfolding assms(2) by simp
  then obtain m2 where m2: "free_list_insert (of_nat hb) (of_nat ?a) m1 = Some m2"
      "linked m2 (hb - 8) ((?a + 4) # ns)" "agree (link_cells ?S) m1 m2"
    using free_list_insert_ok [OF m1(3) _ free] sep_mono [OF geo_cells(2) [OF g'] sub2] p(8) by auto
  note fr = link_cells_frame [OF m2(3) sub2 g']
  have hb: "4 dvd hb" using g' by (simp add: geo_def)
  have "tiled m2 hb (xs @ [(r, False)])"
    by (rule fr(3) [OF m1(2) hb]) (use p' in auto)
  moreover have "tiled m2 (?a + n + 8) ys"
    by (rule fr(3) [OF m1(6) ys(1) p(11) ys(2)]) (use n(1) in \<open>auto simp: add_ac\<close>)
  ultimately have t2: "tiled m2 hb (xs @ [(r, False)])" "tiled m2 (?a + n + 8) ys" .
  have nxt: "get_next (of_nat hb) (of_nat ?a) m2 = of_nat (?a + r + 8)"
    using get_next_ok [OF g'] t2(1) by simp
  have g2: "geo hb ((xs @ [(r, False)]) @ [(k, True)] @ ys)" using g' by simp
  have addr: "hb + span (xs @ [(r, False)]) = ?a + r + 8" by simp
  have sub3: "set ((?a + 4) # ns) \<subseteq> nodes hb ((xs @ [(r, False)]) @ (k, True) # ys)" using sub by auto
  have t3: "tiled m2 (hb + span (xs @ [(r, False)]) + k + 8) ys" using t2(2) n by (simp add: add_ac)
  obtain m3 where m3: "write_size_fields (of_nat (?a + r + 8)) (of_nat k) (of_bool True) m2 = Some m3"
      "rep m3 hb ?bs' ((?a + 4) # ns)" "agree {?a + r + 8, ?a + r + 8 + 4 + k} m2 m3"
    using write_block_ok [OF g2 _ k(1,2) t2(1) t3 m2(2) sub3 fr(1) [OF m1(4)]] unfolding addr by auto
  have "unat (of_nat (?a + r + 8) :: u32) = ?a + r + 8" using p n(1) by (intro unat_of_nat_small) simp
  then have nz: "of_nat (?a + r + 8) \<noteq> (0 :: u32)" using p(8) by (metis add_is_0 not_numeral_le_zero unsigned_0)
  have cmp: "of_nat k + MEMBLOCK_OVERHEAD + MIN_BLOCK_SIZE \<le> (of_nat n :: u32)" "MIN_BLOCK_SIZE \<le> (of_nat r :: u32)"
  proof -
    have "(of_nat (k + 16) :: u32) \<le> of_nat n" "(of_nat 8 :: u32) \<le> of_nat r"
      using k(4) n p by (subst of_nat_le_word; simp)+
    moreover have "of_nat k + MEMBLOCK_OVERHEAD + MIN_BLOCK_SIZE = (of_nat (k + 16) :: u32)" "MIN_BLOCK_SIZE = (of_nat 8 :: u32)"
      by (simp_all add: MEMBLOCK_OVERHEAD_def MIN_BLOCK_SIZE_def SIZEOF_MEMBLOCK_def ALIGNMENT_def SIZEOF_FREELISTNODE_def)
    ultimately show "of_nat k + MEMBLOCK_OVERHEAD + MIN_BLOCK_SIZE \<le> (of_nat n :: u32)" "MIN_BLOCK_SIZE \<le> (of_nat r :: u32)"
      by (simp_all only:)
  qed
  have rest: "(of_nat n :: u32) - of_nat k - MEMBLOCK_OVERHEAD = of_nat r"
    by (simp add: n(1) MEMBLOCK_OVERHEAD_def SIZEOF_MEMBLOCK_def)
  have al: "max (heap_align (of_nat sz)) MIN_BLOCK_SIZE = of_nat k"
    unfolding k_def using k p by (intro align_rounded) simp
  have run: "maybe_split_block (of_nat hb) (of_nat ?a) (of_nat sz) m = Some (of_nat (?a + r + 8), m3)"
    unfolding maybe_split_block_def al Let_def head rest
    using cmp m1(1) m2(1) nxt nz m3(1) by (simp del: of_nat_add)
  have C: "{?a, ?a + 4 + r} \<subseteq> marks hb ?bs'" "{?a + r + 8, ?a + r + 8 + 4 + k} \<subseteq> marks hb ?bs'" by auto
  have "useds hb xs \<union> useds (?a + n + 8) ys \<subseteq> useds hb ?bs'" using n(1) by (auto simp: add_ac)
  then have "kept (useds hb xs \<union> useds (?a + n + 8) ys) m m3"
    using kept_trans [OF kept_trans [OF marks_frame(2) [OF m1(5) C(1) g'] fr(2)] marks_frame(2) [OF m3(3) C(2) g']]
    by (rule kept_mono [rotated])
  then have kept: "\<forall>K. K \<subseteq> useds hb xs \<union> useds (?a + n + 8) ys \<longrightarrow> kept K m m3" using kept_mono by blast
  have "ld m3 (?a + 4) = of_nat (hb - 8)" using m3(2) by (simp add: rep_def linked_def)
  moreover have "?a + n - k = ?a + r + 8" using n(1) by simp
  ultimately show ?thesis
    unfolding k_def [symmetric] r_def [symmetric] using run m3(2) kept by (simp only:) blast
qed

lemma no_split_ok:
  assumes "rep m hb (xs @ (n, True) # ys) ns" "sz \<le> n" "\<not> rounded sz + 16 \<le> n"
  shows "maybe_split_block (of_nat hb) (of_nat (hb + span xs)) (of_nat sz) m = Some (of_nat (hb + span xs), m)"
proof -
  have g: "geo hb (xs @ (n, True) # ys)" "tiled m hb (xs @ (n, True) # ys)" using assms(1) by (simp_all add: rep_def)
  note p = geo_part [OF g(1)]
  have "rounded sz \<le> n" using rounded_le p assms(2) by blast
  then have "\<not> (of_nat (rounded sz + 16) :: u32) \<le> of_nat n" using assms(3) p by (subst of_nat_le_word) simp_all
  moreover have "of_nat k + MEMBLOCK_OVERHEAD + MIN_BLOCK_SIZE = (of_nat (k + 16) :: u32)" for k
    by (simp add: MEMBLOCK_OVERHEAD_def MIN_BLOCK_SIZE_def SIZEOF_MEMBLOCK_def ALIGNMENT_def SIZEOF_FREELISTNODE_def)
  moreover have "max (heap_align (of_nat sz)) MIN_BLOCK_SIZE = of_nat (rounded sz)"
    using assms(2) p by (intro align_rounded) simp
  moreover have "get_size (of_nat (hb + span xs)) m = of_nat n"
    using header_reads(1) [OF tiled_part(2) [OF g(2)] p(1,3)] .
  ultimately show ?thesis by (simp only: maybe_split_block_def Let_def if_False)
qed

end
