(* ===== verification/HeapProps.thy ===== *)
theory HeapProps
  imports HeapMerge
begin

section \<open>What the heap promises\<close>

text \<open>No two free blocks are neighbours, and exactly the free blocks are in the free list.\<close>

definition coalesced :: "blocks \<Rightarrow> bool" where "coalesced bs \<longleftrightarrow> successively (\<lambda>x y. snd x \<or> snd y) bs"

definition heap_ok :: "mem \<Rightarrow> nat \<Rightarrow> blocks \<Rightarrow> bool" where
  "heap_ok m hb bs \<longleftrightarrow> (\<exists>ns. rep m hb bs ns \<and> set ns = nodes hb bs) \<and> coalesced bs"

lemmas coalesced_simps = coalesced_def successively_append_iff successively_Cons

lemma node_block: "x \<in> nodes a bs \<Longrightarrow> \<exists>xs n ys. bs = xs @ (n, False) # ys \<and> x = a + span xs + 4"
proof (induction a bs rule: nodes.induct)
  case (2 a n u bs)
  show ?case
  proof (cases "\<not> u \<and> x = a + 4")
    case True
    then show ?thesis by (intro exI [of _ "[]"]) auto
  next
    case False
    with 2 obtain xs k ys where "bs = xs @ (k, False) # ys" "x = a + n + 8 + span xs + 4" by (auto split: if_splits)
    then show ?thesis by (intro exI [of _ "(n, u) # xs"] exI [of _ k] exI [of _ ys]) simp
  qed
qed simp

lemma used_block: "(p, n) \<in> useds a bs \<Longrightarrow> \<exists>xs ys. bs = xs @ (n, True) # ys \<and> p = a + span xs + 4"
proof (induction a bs rule: useds.induct)
  case (2 a k u bs)
  show ?case
  proof (cases "u \<and> p = a + 4 \<and> n = k")
    case True
    then show ?thesis by (intro exI [of _ "[]"] exI [of _ bs]) simp
  next
    case False
    with 2 obtain xs ys where "bs = xs @ (n, True) # ys" "p = a + k + 8 + span xs + 4" by (auto split: if_splits)
    then show ?thesis by (intro exI [of _ "(k, u) # xs"] exI [of _ ys]) simp
  qed
qed simp

lemma useds_apart:
  "(p, n) \<in> useds a bs \<Longrightarrow> (q, k) \<in> useds a bs \<Longrightarrow> (p, n) \<noteq> (q, k) \<Longrightarrow> p + n + 8 \<le> q \<or> q + k + 8 \<le> p"
proof (induction a bs rule: useds.induct)
  case (2 a l u bs)
  then show ?case
    using useds_range [of p n "a + l + 8" bs] useds_range [of q k "a + l + 8" bs] by (auto split: if_splits)
qed simp

lemma geo_flag: "geo hb (xs @ (n, u) # ys) \<longleftrightarrow> geo hb (xs @ (n, v) # ys)"
  by (simp add: geo_def)

lemma marks_flag: "marks hb (xs @ (n, u) # ys) = marks hb (xs @ (n, v) # ys)"
  by simp

text \<open>The flag of a block is changed in its header.\<close>

lemma set_flag_ok:
  assumes "geo hb (xs @ (n, u) # ys)" "tiled m hb (xs @ (n, v) # ys)"
    and "m' = st m (hb + span xs) (of_nat (n + of_bool u))"
  shows "tiled m' hb (xs @ (n, u) # ys)" "agree {hb + span xs} m m'"
proof -
  let ?a = "hb + span xs"
  note p = geo_part [OF assms(1)] and t = tiled_part [OF assms(2)]
  show ag: "agree {?a} m m'" unfolding assms(3) using p by (intro agree_st agree_refl) auto
  have c: "\<forall>c \<in> {?a}. cell c" using p by simp
  have "tiled m' hb xs"
  proof (rule tiled_agree [OF t(1) ag _ p(10) _ c])
    show "4 dvd hb" "hb + span xs \<le> 2 ^ 32" using assms(1) by (auto simp: geo_def)
    show "{?a} \<inter> marks hb xs = {}" using marks_range [of _ hb xs] by fastforce
  qed
  moreover have "tiled m' (?a + n + 8) ys"
  proof (rule tiled_agree [OF t(4) ag _ p(11) _ c])
    show "4 dvd ?a + n + 8" "?a + n + 8 + span ys \<le> 2 ^ 32" using p by (auto simp: dvd_add)
    show "{?a} \<inter> marks (?a + n + 8) ys = {}" using marks_range [of _ "?a + n + 8" ys] by fastforce
  qed
  ultimately show "tiled m' hb (xs @ (n, u) # ys)" using t p assms(3) by (simp add: ld_st)
qed

lemma insert_ok:
  assumes "rep m hb (xs @ (n, False) # ys) ns" "hb + span xs + 4 \<notin> set ns"
  shows "\<exists>m'. free_list_insert (of_nat hb) (of_nat (hb + span xs)) m = Some m' \<and>
    rep m' hb (xs @ (n, False) # ys) ((hb + span xs + 4) # ns) \<and> kept (useds hb (xs @ (n, False) # ys)) m m'"
proof -
  let ?a = "hb + span xs" and ?bs = "xs @ (n, False) # ys"
  have r: "geo hb ?bs" "tiled m hb ?bs" "linked m (hb - 8) ns" "set ns \<subseteq> nodes hb ?bs" "wild m hb"
    using assms(1) by (simp_all add: rep_def)
  note p = geo_part [OF r(1)]
  let ?S = "insert (?a + 4) (insert (hb - 8) (set ns))"
  have sub: "?S \<subseteq> insert (hb - 8) (nodes hb ?bs)" using r(4) by auto
  have free: "is_free (of_nat ?a) m" using header_reads(3) [OF tiled_part(2) [OF r(2)] p(1,3)] by simp
  have new: "?a + 4 \<notin> insert (hb - 8) (set ns)" using assms(2) by auto
  have "hb = hb - 8 + 8" using p(8) by simp
  from free_list_insert_ok [OF r(3) this free new sep_mono [OF geo_cells(2) [OF r(1)] sub]]
  obtain m' where m': "free_list_insert (of_nat hb) (of_nat ?a) m = Some m'"
    "linked m' (hb - 8) ((?a + 4) # ns)" "agree (link_cells ?S) m m'" by blast
  note f = link_cells_frame [OF m'(3) sub r(1)]
  have "4 dvd hb" "shape ?bs" "hb + span ?bs \<le> 2 ^ 32" using r(1) by (auto simp: geo_def)
  then have "tiled m' hb ?bs" by (intro f(3) [OF r(2)]) simp_all
  then have "rep m' hb ?bs ((?a + 4) # ns)" unfolding rep_def using f(1) r m'(2) by simp
  with m'(1) f(2) show ?thesis by blast
qed

subsection \<open>malloc\<close>

lemma find_loop_ok:
  assumes "\<forall>x \<in> set ns. cell x \<and> 4 \<le> x \<and> x \<noteq> s" "cell s" "s + 8 = hb"
  shows "lseg m x ns s \<Longrightarrow> find_loop (of_nat hb) sz (of_nat (hd (ns @ [s]))) m =
    Some (case find (\<lambda>x. sz \<le> get_size (of_nat (x - 4)) m) ns of None \<Rightarrow> 0 | Some x \<Rightarrow> of_nat (x - 4))"
  using assms(1)
proof (induction ns arbitrary: x)
  case Nil
  have "sentinel (of_nat hb) = of_nat s" using sentinel_nat [of hb] assms(3) by auto
  then show ?case by (subst find_loop.simps) simp
next
  case (Cons n ns)
  have "sentinel (of_nat hb) = of_nat s" using sentinel_nat [of hb] assms(3) by auto
  moreover have "of_nat n \<noteq> (of_nat s :: u32)" using Cons.prems(2) assms(2) by (simp add: cell_inj)
  moreover have "get_block (of_nat n) = of_nat (n - 4)"
    using Cons.prems(2) by (simp add: get_block_def SIZEOF_MEMBLOCK_def)
  moreover have seg: "lseg m n ns s" using Cons.prems(1) by simp
  moreover have "load32 m (node_next (of_nat n)) = of_nat (hd (ns @ [s]))"
    using lseg_ends [OF seg] by (simp only: addr_nat ld_def)
  ultimately show ?case
    using Cons.IH [OF seg] Cons.prems(2) by (subst find_loop.simps) (simp add: Let_def)
qed

lemma find_free_ok:
  assumes "rep m hb bs ns" "set ns = nodes hb bs" "sz < 2 ^ 32"
  shows "(\<exists>xs n ys. bs = xs @ (n, False) # ys \<and> sz \<le> n \<and>
      find_free_block (of_nat hb) (of_nat sz) m = Some (of_nat (hb + span xs))) \<or>
    (\<forall>(n, u) \<in> set bs. u \<or> n < sz) \<and> find_free_block (of_nat hb) (of_nat sz) m = Some 0"
proof -
  let ?s = "hb - 8"
  have r: "geo hb bs" "tiled m hb bs" "linked m ?s ns" using assms(1) by (simp_all add: rep_def)
  have hb: "16 \<le> hb" "?s + 8 = hb" "8 \<le> hb" using r(1) by (auto simp: geo_def)
  have sh: "shape bs" using r(1) by (simp add: geo_def)
  have cells: "\<forall>x \<in> set ns. cell x \<and> 4 \<le> x \<and> x \<noteq> ?s" "cell ?s"
    using geo_cells(2) [OF r(1)] r(3) hb(1) nodes_range [OF sh, of _ hb] unfolding assms(2) linked_def by (fastforce simp: sep_def assms(2))+
  let ?f = "find (\<lambda>x. of_nat sz \<le> get_size (of_nat (x - 4)) m) ns"
  have seg: "lseg m ?s ns ?s" using r(3) by (simp add: linked_def)
  have "find_free_block (of_nat hb) (of_nat sz) m =
      find_loop (of_nat hb) (of_nat sz) (of_nat (hd (ns @ [?s]))) m"
    using lseg_ends [OF seg] hb(1) by (simp only: find_free_block_def sentinel_nat [OF hb(3)] addr_nat fold_mem)
  then have ff: "find_free_block (of_nat hb) (of_nat sz) m = Some (case ?f of None \<Rightarrow> 0 | Some x \<Rightarrow> of_nat (x - 4))"
    using find_loop_ok [OF cells hb(2) seg] by simp
  have size: "of_nat sz \<le> get_size (of_nat (hb + span xs)) m \<longleftrightarrow> sz \<le> n" if "bs = xs @ (n, u) # ys" for xs n u ys
  proof -
    note p = geo_part [OF r(1) [unfolded that]]
    have "get_size (of_nat (hb + span xs)) m = of_nat n"
      by (rule header_reads(1) [OF tiled_part(2) [OF r(2) [unfolded that]] p(1,3)])
    then show ?thesis using assms(3) p by (simp add: of_nat_le_word)
  qed
  show ?thesis
  proof (cases ?f)
    case None
    have "n < sz" if nb: "(n, False) \<in> set bs" for n
    proof -
      obtain xs ys where bs: "bs = xs @ (n, False) # ys" using split_list [OF nb] by blast
      then have "hb + span xs + 4 \<in> set ns" using assms(2) by simp
      with None have "\<not> of_nat sz \<le> get_size (of_nat (hb + span xs)) m" by (fastforce simp: find_None_iff)
      with size [OF bs] show ?thesis by simp
    qed
    with None ff show ?thesis by (auto split: prod.splits)
  next
    case (Some x)
    then have x: "x \<in> nodes hb bs" "of_nat sz \<le> get_size (of_nat (x - 4)) m"
      using assms(2) by (auto simp: find_Some_iff)
    obtain xs n ys where bs: "bs = xs @ (n, False) # ys" "x = hb + span xs + 4" using node_block [OF x(1)] by blast
    with x(2) size [OF bs(1)] have "sz \<le> n" by simp
    with bs ff Some show ?thesis by auto
  qed
qed

lemma malloc_block_ok:
  assumes "heap_ok m hb bs" "0 < sz" "sz < 2 ^ 32" "\<exists>(n, u) \<in> set bs. \<not> u \<and> sz \<le> n"
  shows "\<exists>a m' bs' k. malloc_block (of_nat hb) (of_nat sz) m = Some (of_nat a, m') \<and> hb \<le> a \<and> heap_ok m' hb bs' \<and>
    sz \<le> k \<and> useds hb bs' = insert (a + 4, k) (useds hb bs) \<and> (a + 4, k) \<notin> useds hb bs \<and> kept (useds hb bs) m m'"
proof -
  obtain ns where ns: "rep m hb bs ns" "set ns = nodes hb bs" and co: "coalesced bs"
    using assms(1) by (auto simp: heap_ok_def)
  from find_free_ok [OF ns assms(3)] assms(4) obtain xs n ys where
    bs: "bs = xs @ (n, False) # ys" "sz \<le> n" and ff: "find_free_block (of_nat hb) (of_nat sz) m = Some (of_nat (hb + span xs))"
    by fastforce
  let ?a = "hb + span xs" and ?bs = "xs @ (n, True) # ys"
  have r: "geo hb bs" "tiled m hb bs" "linked m (hb - 8) ns" "wild m hb" using ns(1) by (simp_all add: rep_def)
  have g: "geo hb ?bs" using r(1) unfolding bs(1) by (simp add: geo_def)
  note p = geo_part [OF g] and t = tiled_part [OF r(2) [unfolded bs(1)]]
  define m1 where "m1 = st m ?a (of_nat (n + of_bool True))"
  have used: "mark_used (of_nat ?a) m = m1"
    unfolding m1_def using mark_used_ok [of m ?a n] t(2) p by simp
  have f1: "tiled m1 hb ?bs" "agree {?a} m m1"
    using set_flag_ok [OF g r(2) [unfolded bs(1)] m1_def] by simp_all
  have sub1: "{?a} \<subseteq> marks hb bs" using bs(1) by simp
  note fr1 = marks_frame [OF f1(2) sub1 r(1)]
  have l1: "linked m1 (hb - 8) ns" "wild m1 hb" "kept (useds hb bs) m m1"
    using fr1 r ns(2) by simp_all
  have "?a + 4 \<in> set ns" using ns(2) bs(1) by simp
  from split_list_first [OF this] obtain as cs where asc: "ns = as @ (?a + 4) # cs" "?a + 4 \<notin> set as" by blast
  define m2 where "m2 = free_list_remove (of_nat ?a) m1"
  have rm: "linked m2 (hb - 8) (as @ cs)" "agree (link_cells (insert (hb - 8) (set (as @ cs)))) m1 m2"
    using free_list_remove_ok [of m1 "hb - 8" as ?a cs] l1(1) asc by (simp_all add: m2_def)
  have sub2: "insert (hb - 8) (set (as @ cs)) \<subseteq> insert (hb - 8) (nodes hb bs)" using ns(2) asc by auto
  note fr2 = link_cells_frame [OF rm(2) sub2 r(1)]
  have "tiled m2 hb ?bs"
  proof (rule fr2(3) [OF f1(1)])
    show "4 dvd hb" "shape ?bs" "hb + span ?bs \<le> 2 ^ 32" using g by (auto simp: geo_def)
    show "marks hb ?bs \<subseteq> marks hb bs" using bs(1) by simp
  qed
  moreover have nds: "set (as @ cs) = nodes hb ?bs"
  proof -
    have "distinct ns" using r(3) by (simp add: linked_def)
    then have "set (as @ cs) = set ns - {?a + 4}" using asc by auto
    moreover have "?a + 4 \<notin> nodes hb xs" "?a + 4 \<notin> nodes (?a + n + 8) ys"
      using nodes_range [OF p(10), of "?a + 4" hb] nodes_range [OF p(11), of "?a + 4" "?a + n + 8"] by linarith+
    ultimately show ?thesis using ns(2) bs(1) by auto
  qed
  ultimately have rep2: "rep m2 hb ?bs (as @ cs)" using rm(1) g fr2(1) [OF l1(2)] by (simp add: rep_def)
  have kept2: "kept (useds hb bs) m m2" by (rule kept_trans [OF l1(3) fr2(2)])
  have "unat (of_nat ?a :: u32) = ?a" using p by (intro unat_of_nat_small) simp
  then have "of_nat ?a \<noteq> (0 :: u32)" using p(8) by (metis add_is_0 not_numeral_le_zero unsigned_0)
  moreover have "is_free (of_nat ?a) m" using header_reads(3) [OF t(2) p(1,3)] by simp
  ultimately have run: "malloc_block (of_nat hb) (of_nat sz) m = maybe_split_block (of_nat hb) (of_nat ?a) (of_nat sz) m2"
    using ff by (simp add: malloc_block_def used m2_def Let_def del: of_nat_add)
  have U: "useds hb bs = useds hb xs \<union> useds (?a + n + 8) ys" using bs(1) by simp
  have new: "(q, k) \<notin> useds hb bs" if "?a + 4 \<le> q" "q + k + 4 \<le> ?a + n + 8" "q + k \<noteq> ?a" for q k
    unfolding U using that useds_range [of q k hb xs] useds_range [of q k "?a + n + 8" ys] by auto
  show ?thesis
  proof (cases "rounded sz + 16 \<le> n")
    case True
    let ?k = "rounded sz"
    have kb: "8 \<le> ?k" "sz \<le> ?k" using rounded_bounds by simp_all
    obtain m3 where m3: "maybe_split_block (of_nat hb) (of_nat ?a) (of_nat sz) m2 = Some (of_nat (?a + n - ?k), m3)"
      "rep m3 hb (xs @ (n - ?k - 8, False) # (?k, True) # ys) ((?a + 4) # as @ cs)" "kept (useds hb bs) m2 m3"
      using split_ok [OF rep2 nds True] U by blast
    let ?bs' = "xs @ (n - ?k - 8, False) # (?k, True) # ys"
    have geq: "?a + (n - ?k - 8) + 8 = ?a + n - ?k" "?a + n - ?k + ?k + 8 = ?a + n + 8" using True by simp_all
    have "set ((?a + 4) # as @ cs) = nodes hb ?bs'" using nds geq by (simp add: add_ac)
    moreover have "coalesced ?bs'" using co bs(1) by (auto simp: coalesced_simps)
    ultimately have "heap_ok m3 hb ?bs'" using m3(2) by (auto simp: heap_ok_def)
    moreover have "useds hb ?bs' = insert (?a + n - ?k + 4, ?k) (useds hb bs)" unfolding U using geq by (simp add: add_ac)
    moreover have "(?a + n - ?k + 4, ?k) \<notin> useds hb bs" using True kb by (intro new) simp_all
    moreover have "kept (useds hb bs) m m3" by (rule kept_trans [OF kept2 m3(3)])
    moreover have "hb \<le> ?a + n - ?k" using True by simp
    moreover note trans [OF run m3(1)]
    ultimately show ?thesis using kb(2) by blast
  next
    case False
    note trans [OF run no_split_ok [OF rep2 bs(2) False]]
    moreover have "coalesced ?bs" using co bs(1) by (auto simp: coalesced_simps)
    then have "heap_ok m2 hb ?bs" using rep2 nds by (auto simp: heap_ok_def)
    moreover have "useds hb ?bs = insert (?a + 4, n) (useds hb bs)" unfolding U by simp
    moreover have "(?a + 4, n) \<notin> useds hb bs" using p by (intro new) simp_all
    moreover have "hb \<le> ?a" by simp
    ultimately show ?thesis using kept2 bs(2) by blast
  qed
qed

lemma used_pointer:
  assumes "geo hb bs" "(p, k) \<in> useds hb bs"
  shows "is_heap_pointer (of_nat hb) (of_nat p)" "p < 2 ^ 32" "8 \<le> k"
proof -
  have g: "hb + 2 * hsize + 16 \<le> 2 ^ 32" "span bs = hsize" "shape bs" using assms(1) by (simp_all add: geo_def)
  obtain xs ys where "bs = xs @ (k, True) # ys" using used_block [OF assms(2)] by blast
  then show k: "8 \<le> k" using g(3) by simp
  have r: "hb + 4 \<le> p" "p + k + 4 \<le> hb + hsize" using useds_range [OF assms(2)] g by auto
  then show "p < 2 ^ 32" using g by simp
  have "(of_nat p :: u32) \<le> of_nat (hb + 1048572)" "(of_nat (hb + 4) :: u32) \<le> of_nat p"
    using r g k by (subst of_nat_le_word; simp)+
  then show "is_heap_pointer (of_nat hb) (of_nat p)"
    by (simp add: is_heap_pointer_def MAX_HEAP_PTR_def MIN_HEAP_PTR_def HEAP_SIZE_def SIZEOF_MEMBLOCK_def add.commute)
qed

lemma heap_ok_geo: "heap_ok m hb bs \<Longrightarrow> geo hb bs"
  by (auto simp: heap_ok_def rep_def)

subsection \<open>free\<close>

text \<open>The free neighbours of a block.\<close>

lemma split_last_free: "\<exists>xs' pl. xs = xs' @ pl \<and> gap pl \<and> (pl = [] \<longrightarrow> xs' = [] \<or> snd (last xs'))"
proof (cases xs rule: rev_cases)
  case (snoc zs c)
  show ?thesis
  proof (cases "snd c")
    case True
    with snoc show ?thesis by (intro exI [of _ xs] exI [of _ "[]"]) (simp add: gap_def)
  next
    case False
    with snoc show ?thesis by (intro exI [of _ zs] exI [of _ "[c]"]) (cases c; simp add: gap_def)
  qed
qed (auto simp: gap_def)

lemma split_hd_free: "\<exists>ql ys'. ys = ql @ ys' \<and> gap ql \<and> (ql = [] \<longrightarrow> ys' = [] \<or> snd (hd ys'))"
proof (cases ys)
  case (Cons c zs)
  show ?thesis
  proof (cases "snd c")
    case True
    with Cons show ?thesis by (intro exI [of _ "[]"] exI [of _ ys]) (simp add: gap_def)
  next
    case False
    with Cons show ?thesis by (intro exI [of _ "[c]"] exI [of _ zs]) (cases c; simp add: gap_def)
  qed
qed (auto simp: gap_def)

lemma coalesced_decomp:
  assumes "coalesced (xs0 @ (n, True) # ys0)"
  shows "\<exists>xs pl ql ys. xs0 = xs @ pl \<and> ys0 = ql @ ys \<and> gap pl \<and> gap ql \<and>
    (xs = [] \<or> snd (last xs)) \<and> (ys = [] \<or> snd (hd ys)) \<and> coalesced xs \<and> coalesced ys"
proof -
  obtain xs pl where x: "xs0 = xs @ pl" "gap pl" "pl = [] \<longrightarrow> xs = [] \<or> snd (last xs)" using split_last_free by blast
  obtain ql ys where y: "ys0 = ql @ ys" "gap ql" "ql = [] \<longrightarrow> ys = [] \<or> snd (hd ys)" using split_hd_free by blast
  have "xs = [] \<or> snd (last xs)" using x assms by (auto simp: gap_def coalesced_simps)
  moreover have "ys = [] \<or> snd (hd ys)" using y assms by (auto simp: gap_def coalesced_simps)
  moreover have "coalesced xs" "coalesced ys" using x(1) y(1) assms by (auto simp: coalesced_simps)
  ultimately show ?thesis using x(1,2) y(1,2) by blast
qed

lemma gap_useds: "gap pl \<Longrightarrow> useds a pl = {}"
  by (auto simp: gap_def)

lemma free_block_ok:
  assumes "heap_ok m hb (xs0 @ (n, True) # ys0)"
  shows "\<exists>m' bs'. free_block (of_nat hb) (of_nat (hb + span xs0)) m = Some m' \<and> heap_ok m' hb bs' \<and>
    useds hb bs' = useds hb (xs0 @ (n, True) # ys0) - {(hb + span xs0 + 4, n)} \<and> kept (useds hb bs') m m'"
proof -
  let ?bs = "xs0 @ (n, True) # ys0"
  obtain ns where ns: "rep m hb ?bs ns" "set ns = nodes hb ?bs" and co: "coalesced ?bs"
    using assms by (auto simp: heap_ok_def)
  obtain xs pl ql ys where d: "xs0 = xs @ pl" "ys0 = ql @ ys" "gap pl" "gap ql"
    "xs = [] \<or> snd (last xs)" "ys = [] \<or> snd (hd ys)" "coalesced xs" "coalesced ys"
    using coalesced_decomp [OF co] by blast
  have bs: "?bs = xs @ pl @ (n, True) # ql @ ys" using d(1,2) by simp
  obtain m1 ns1 N where m1: "try_merge (of_nat hb) (of_nat (hb + span xs0)) m = Some (of_nat (hb + span xs), m1)"
    "N + 8 = span (pl @ (n, True) # ql)" "rep m1 hb (xs @ (N, True) # ys) ns1"
    "set ns1 = nodes hb (xs @ (N, True) # ys)" "kept (useds hb ?bs) m m1"
    using try_merge_ok [OF ns(1) [unfolded bs] ns(2) [unfolded bs] d(3,4), folded bs d(1)] d(5,6) by blast
  let ?a = "hb + span xs" and ?bs' = "xs @ (N, False) # ys"
  have r: "geo hb (xs @ (N, True) # ys)" "tiled m1 hb (xs @ (N, True) # ys)" "linked m1 (hb - 8) ns1" "wild m1 hb"
    using m1(3) by (simp_all add: rep_def)
  have g: "geo hb ?bs'" using r(1) by (simp add: geo_def)
  note p = geo_part [OF g]
  define m2 where "m2 = st m1 ?a (of_nat (N + of_bool False))"
  have mark: "mark_free (of_nat ?a) m1 = m2"
    unfolding m2_def using mark_free_ok [of m1 ?a N] r(2) p by simp
  have f2: "tiled m2 hb ?bs'" "agree {?a} m1 m2" using set_flag_ok [OF g r(2) m2_def] by simp_all
  have nds: "set ns1 = nodes hb xs \<union> nodes (?a + N + 8) ys" using m1(4) by simp
  have sub: "{?a} \<subseteq> marks hb ?bs'" "set ns1 \<subseteq> nodes hb ?bs'" unfolding nds by auto
  note fr = marks_frame [OF f2(2) sub(1) g]
  have rep2: "rep m2 hb ?bs' ns1" using f2(1) fr(1) [OF r(4)] fr(3) [OF r(3) sub(2)] g sub(2) by (simp add: rep_def)
  have "?a + 4 \<notin> set ns1"
    unfolding nds using nodes_range [OF p(10), of "?a + 4" hb] nodes_range [OF p(11), of "?a + 4" "?a + N + 8"] by auto
  then obtain m3 where m3: "free_list_insert (of_nat hb) (of_nat ?a) m2 = Some m3"
    "rep m3 hb ?bs' ((?a + 4) # ns1)" "kept (useds hb ?bs') m2 m3" using insert_ok [OF rep2] by blast
  have "coalesced ?bs'" using d(5-8) by (auto simp: coalesced_simps)
  moreover have "set ((?a + 4) # ns1) = nodes hb ?bs'" unfolding nds by (auto simp: nds)
  ultimately have ok: "heap_ok m3 hb ?bs'" using m3(2) by (auto simp: heap_ok_def)
  have geq: "?a + N + 8 = hb + span xs0 + n + 8 + span ql" using m1(2) d(1) by simp
  have U: "useds hb ?bs' = useds hb xs \<union> useds (?a + N + 8) ys" by simp
  have V: "useds hb ?bs = insert (hb + span xs0 + 4, n) (useds hb xs \<union> useds (?a + N + 8) ys)"
    unfolding geq using d gap_useds by (auto simp: add_ac)
  have "(hb + span xs0 + 4, n) \<notin> useds hb xs \<union> useds (?a + N + 8) ys"
    using useds_range [of "hb + span xs0 + 4" n hb xs] useds_range [of "hb + span xs0 + 4" n "?a + N + 8" ys]
    unfolding geq d(1) span_simps(3) by fastforce
  then have W: "useds hb ?bs' = useds hb ?bs - {(hb + span xs0 + 4, n)}" unfolding U V by blast
  then have "kept (useds hb ?bs') m m1" by (intro kept_mono [OF m1(5)]) blast
  from kept_trans [OF kept_trans [OF this fr(2)] m3(3)] have "kept (useds hb ?bs') m m3" .
  moreover have "free_block (of_nat hb) (of_nat (hb + span xs0)) m = Some m3"
    by (simp only: free_block_def m1(1) Option.bind.bind_lunit prod.case mark m3(1))
  ultimately show ?thesis using ok W by blast
qed

subsection \<open>The constructor and the statistics\<close>

lemma heap_init_ok:
  assumes "4 dvd hb" "16 \<le> hb" "hb + 2 * hsize + 16 \<le> 2 ^ 32" "wild m hb"
  shows "\<exists>m'. heap_init (of_nat hb) m = Some m' \<and> heap_ok m' hb [(hsize - 8, False)]"
proof -
  let ?s = "hb - 8" and ?bs = "[(hsize - 8, False)]"
  have "4 dvd (hsize - 8)" by simp
  then have g: "geo hb ?bs" using assms(1-3) by (simp add: geo_def)
  define m1 where "m1 = st (st m ?s (of_nat ?s)) (?s + 4) (of_nat ?s)"
  have sp: "sep {?s}" by (rule sep_mono [OF geo_cells(2) [OF g]]) simp
  then have cells: "cell ?s" "cell (?s + 4)" by (simp_all add: sep_def)
  have ag: "agree (link_cells {?s}) m m1"
    unfolding m1_def using cells by (intro agree_st agree_refl) (simp_all add: link_cells_def)
  have link: "linked m1 ?s []" using sp cells by (simp add: linked_def m1_def ld_st)
  have w1: "wild m1 hb" using link_cells_frame(1) [OF ag _ g assms(4)] by simp
  from write_part_ok [of hb "[]" "hsize - 8" False "[]" m1 "[]"] g link w1 obtain m2 where
    m2: "write_size_fields (of_nat hb) (of_nat (hsize - 8)) (of_bool False) m1 = Some m2" "tiled m2 hb ?bs"
      "linked m2 ?s []" "wild m2 hb" by auto
  have rep2: "rep m2 hb ([] @ (hsize - 8, False) # []) []" using m2 g by (simp add: rep_def)
  obtain m3 where m3: "free_list_insert (of_nat hb) (of_nat hb) m2 = Some m3" "rep m3 hb ?bs [hb + 4]"
    using insert_ok [OF rep2] by auto
  have "HEAP_SIZE - MEMBLOCK_OVERHEAD = of_nat (hsize - 8)"
    by (simp add: HEAP_SIZE_def MEMBLOCK_OVERHEAD_def SIZEOF_MEMBLOCK_def)
  moreover have "8 \<le> hb" using assms(2) by simp
  ultimately have "heap_init (of_nat hb) m = Some m3"
    using m2(1) m3(1) by (simp add: heap_init_def sentinel_nat addr_nat m1_def st_def Let_def del: of_nat_diff)
  moreover have "heap_ok m3 hb ?bs" using m3(2) by (auto simp: heap_ok_def coalesced_def)
  ultimately show ?thesis by blast
qed

lemma block_valid:
  assumes "geo hb (xs @ (n, u) # ys)"
  shows "memblock_valid (of_nat hb) (of_nat (hb + span xs))"
proof -
  note p = geo_part [OF assms]
  have "(of_nat hb :: u32) \<le> of_nat (hb + span xs)" "(of_nat (hb + span xs) :: u32) \<le> of_nat (hb + 1048560)"
    using p by (subst of_nat_le_word; simp)+
  then show ?thesis using p(9) by (simp add: memblock_valid_def pointer_limits del: of_nat_add)
qed

lemma pointer_block: "of_nat (a + 4) - SIZEOF_MEMBLOCK = (of_nat a :: u32)"
  by (simp add: SIZEOF_MEMBLOCK_def)

lemma heap_free_ok:
  assumes "heap_ok m hb bs" "(p, n) \<in> useds hb bs"
  shows "\<exists>m' bs'. heap_free (of_nat hb) (of_nat p) m = Some m' \<and> heap_ok m' hb bs' \<and>
    useds hb bs' = useds hb bs - {(p, n)} \<and> kept (useds hb bs') m m'"
proof -
  obtain xs ys where bs: "bs = xs @ (n, True) # ys" "p = hb + span xs + 4" using used_block [OF assms(2)] by blast
  obtain ns where "rep m hb bs ns" using assms(1) by (auto simp: heap_ok_def)
  then have g: "geo hb (xs @ (n, True) # ys)" "tiled m hb (xs @ (n, True) # ys)" using bs(1) by (simp_all add: rep_def)
  have "\<not> is_free (of_nat (hb + span xs)) m"
    using header_reads(3) [OF tiled_part(2) [OF g(2)] geo_part(1,3) [OF g(1)]] by simp
  then have "heap_free (of_nat hb) (of_nat p) m = free_block (of_nat hb) (of_nat (hb + span xs)) m"
    using block_valid [OF g(1)] by (simp only: heap_free_def bs(2) pointer_block Let_def) simp
  with free_block_ok [of m hb xs n ys] assms(1) bs show ?thesis by simp
qed

definition total :: "bool \<Rightarrow> blocks \<Rightarrow> nat" where "total v bs = (\<Sum>(n, u) \<leftarrow> bs. if u = v then n else 0)"
definition number :: "bool \<Rightarrow> blocks \<Rightarrow> nat" where "number v bs = length (filter (\<lambda>(n, u). u = v) bs)"

lemma stats_loop_ok:
  assumes "geo hb (xs @ ys)" "tiled m hb (xs @ ys)"
  shows "stats_loop (of_nat hb) (if ys = [] then 0 else of_nat (hb + span xs)) r m =
    Some (r\<lparr>h_free := h_free r + of_nat (total False ys), h_free_blocks := h_free_blocks r + of_nat (number False ys),
      h_used := h_used r + of_nat (total True ys), h_used_blocks := h_used_blocks r + of_nat (number True ys)\<rparr>)"
  using assms
proof (induction ys arbitrary: xs r)
  case Nil
  then show ?case by (subst stats_loop.simps) (simp add: total_def number_def)
next
  case (Cons y ys)
  obtain n u where y: "y = (n, u)" by fastforce
  let ?a = "hb + span xs"
  have g: "geo hb (xs @ (n, u) # ys)" "tiled m hb (xs @ (n, u) # ys)" using Cons.prems y by simp_all
  note p = geo_part [OF g(1)] and t = tiled_part [OF g(2)]
  have "unat (of_nat ?a :: u32) = ?a" using p by (intro unat_of_nat_small) simp
  then have nz: "of_nat ?a \<noteq> (0 :: u32)" using p(8) by (metis add_is_0 not_numeral_le_zero unsigned_0)
  have g': "geo hb ((xs @ [(n, u)]) @ ys)" "tiled m hb ((xs @ [(n, u)]) @ ys)" using g by simp_all
  note head = header_reads(1,3) [OF t(2) p(1,3)] and nxt = get_next_ok [OF g(1) t(2,3)]
  define r' where "r' = (if u then r\<lparr>h_used := h_used r + of_nat n, h_used_blocks := h_used_blocks r + 1\<rparr>
    else r\<lparr>h_free := h_free r + of_nat n, h_free_blocks := h_free_blocks r + 1\<rparr>)"
  have a: "?a + n + 8 = hb + span (xs @ [(n, u)])" by simp
  have "stats_loop (of_nat hb) (of_nat ?a) r m =
      stats_loop (of_nat hb) (if ys = [] then 0 else of_nat (hb + span (xs @ [(n, u)]))) r' m"
    using nz by (subst stats_loop.simps) (simp only: head nxt a r'_def if_True if_not_P not_False_eq_True simp_thms if_cancel cong: if_cong, simp)
  also note Cons.IH [OF g', of r']
  finally show ?case
    using y by (cases u) (simp_all add: r'_def total_def number_def add_ac)
qed

subsection \<open>Properties\<close>

text \<open>Property C24. From a well-formed heap, \<^verbatim>\<open>malloc\<close> returns a block of at least the size asked for
  that overlaps no used block, if some free block is large enough; the heap stays well-formed, its
  used blocks are those before and the new one, and no byte of a used block changes. If no free
  block is large enough, an assertion fails.\<close>

theorem malloc_correct:
  assumes "heap_ok m hb bs" "0 < sz"
  shows "if \<exists>(n, u) \<in> set bs. \<not> u \<and> unat sz \<le> n
    then \<exists>p m' bs' k. malloc (of_nat hb) sz m = Some (of_nat p, m') \<and> heap_ok m' hb bs' \<and> unat sz \<le> k \<and>
      useds hb bs' = insert (p, k) (useds hb bs) \<and> (\<forall>(q, l) \<in> useds hb bs. p + k \<le> q \<or> q + l \<le> p) \<and>
      kept (useds hb bs) m m'
    else malloc (of_nat hb) sz m = None"
proof (cases "\<exists>(n, u) \<in> set bs. \<not> u \<and> unat sz \<le> n")
  case True
  have "0 < unat sz" using assms(2) by (simp add: word_less_nat_alt)
  from malloc_block_ok [OF assms(1) this _ True] obtain a m' bs' k where
    r: "malloc_block (of_nat hb) sz m = Some (of_nat a, m')" "heap_ok m' hb bs'" "unat sz \<le> k"
      "useds hb bs' = insert (a + 4, k) (useds hb bs)" "(a + 4, k) \<notin> useds hb bs" "kept (useds hb bs) m m'"
    using unat_lt2p_32 [of sz] by auto
  have new: "(a + 4, k) \<in> useds hb bs'" using r(4) by simp
  have "malloc (of_nat hb) sz m = Some (of_nat (a + 4), m')"
    using assms(2) r(1) used_pointer(1) [OF heap_ok_geo [OF r(2)] new]
    by (simp add: malloc_def addr_nat del: of_nat_add)
  moreover have apart: "a + 4 + k \<le> q \<or> q + l \<le> a + 4" if "(q, l) \<in> useds hb bs" for q l
  proof -
    have "(q, l) \<in> useds hb bs'" "(a + 4, k) \<noteq> (q, l)" using that r(4,5) by auto
    from useds_apart [OF new this] show ?thesis by auto
  qed
  moreover have "\<forall>(q, l) \<in> useds hb bs. a + 4 + k \<le> q \<or> q + l \<le> a + 4" using apart by blast
  ultimately show ?thesis unfolding if_P [OF True] using r(2-4,6) by blast
next
  case False
  obtain ns where ns: "rep m hb bs ns" "set ns = nodes hb bs" using assms(1) by (auto simp: heap_ok_def)
  have "find_free_block (of_nat hb) sz m = Some 0"
    using find_free_ok [OF ns, of "unat sz"] False unat_lt2p_32 [of sz] by fastforce
  moreover have g: "16 \<le> hb" "hb + 2 * hsize + 16 \<le> 2 ^ 32" using heap_ok_geo [OF assms(1)] by (simp_all add: geo_def)
  have "\<not> (of_nat (hb + 4) :: u32) \<le> of_nat 4" using g by (subst of_nat_le_word) simp_all
  then have "\<not> is_heap_pointer (of_nat hb) (blk_mem 0)"
    by (simp add: is_heap_pointer_def MIN_HEAP_PTR_def blk_mem_def SIZEOF_MEMBLOCK_def)
  ultimately show ?thesis using False by (auto simp: malloc_def malloc_block_def)
qed

lemma wild_zero:
  assumes "16 \<le> hb" "hb + 2 * hsize + 16 \<le> 2 ^ 32"
  shows "wild (\<lambda>_. 0) hb"
  unfolding wild_def
proof (intro allI impI)
  fix n assume n: "4 dvd n \<and> (n = hb - 8 \<or> hb + 4 \<le> n \<and> n < hb + hsize)"
  have "unat (of_nat n :: u32) = n" using n assms by (intro unat_of_nat_small) auto
  moreover have "8 \<le> n" using n assms by auto
  ultimately have "of_nat n \<noteq> (0 :: u32)" by (metis not_numeral_le_zero unsigned_0)
  then show "get_size (of_nat hb - 4 - of_nat n - SIZEOF_MEMBLOCK) (\<lambda>_. 0) \<noteq> of_nat n"
    by (simp add: get_size_def load32_def)
qed

definition demo_base :: nat where "demo_base = 0x100000"

lemma demo_heap: "\<exists>m. heap_init 0x100000 (\<lambda>_. 0) = Some m \<and> heap_ok m demo_base [(hsize - 8, False)]"
  using heap_init_ok [of demo_base "\<lambda>_. 0"] wild_zero [of demo_base] by (simp add: demo_base_def)

theorem malloc_correct_witness:
  "\<exists>m p m' bs' k. heap_init 0x100000 (\<lambda>_. 0) = Some m \<and> malloc 0x100000 20 m = Some (of_nat p, m') \<and>
     heap_ok m' demo_base bs' \<and> 20 \<le> k \<and> useds demo_base bs' = {(p, k)}"
proof -
  obtain m where m: "heap_init 0x100000 (\<lambda>_. 0) = Some m" "heap_ok m demo_base [(hsize - 8, False)]" using demo_heap by blast
  have "of_nat demo_base = (0x100000 :: u32)" by (simp add: demo_base_def)
  with malloc_correct [OF m(2), of 20] m(1) show ?thesis by auto
qed

text \<open>Property C25. Freeing a used block succeeds and leaves a well-formed heap whose used blocks are
  the other ones, with all their bytes; free neighbours were merged, so that no two free blocks
  are neighbours. Freeing a pointer whose block is free, for example a second time, stops at the
  assertion.\<close>

theorem free_correct:
  assumes "heap_ok m hb bs"
  shows "((p, n) \<in> useds hb bs \<longrightarrow> (\<exists>m' bs'. heap_free (of_nat hb) (of_nat p) m = Some m' \<and> heap_ok m' hb bs' \<and>
      useds hb bs' = useds hb bs - {(p, n)} \<and> kept (useds hb bs') m m')) \<and>
    (p \<in> nodes hb bs \<longrightarrow> heap_free (of_nat hb) (of_nat p) m = None)"
proof (intro conjI impI)
  assume "(p, n) \<in> useds hb bs"
  then show "\<exists>m' bs'. heap_free (of_nat hb) (of_nat p) m = Some m' \<and> heap_ok m' hb bs' \<and>
      useds hb bs' = useds hb bs - {(p, n)} \<and> kept (useds hb bs') m m'"
    by (rule heap_free_ok [OF assms])
next
  assume "p \<in> nodes hb bs"
  then obtain xs k ys where bs: "bs = xs @ (k, False) # ys" "p = hb + span xs + 4" using node_block by blast
  obtain ns where "rep m hb bs ns" using assms by (auto simp: heap_ok_def)
  then have g: "geo hb (xs @ (k, False) # ys)" "tiled m hb (xs @ (k, False) # ys)" using bs(1) by (simp_all add: rep_def)
  have "is_free (of_nat (hb + span xs)) m"
    using header_reads(3) [OF tiled_part(2) [OF g(2)] geo_part(1,3) [OF g(1)]] by simp
  then show "heap_free (of_nat hb) (of_nat p) m = None"
    by (simp only: heap_free_def bs(2) pointer_block Let_def) simp
qed

theorem free_correct_witness:
  "\<exists>m p m' m''. heap_init 0x100000 (\<lambda>_. 0) = Some m \<and> malloc 0x100000 20 m = Some (of_nat p, m') \<and>
     heap_free 0x100000 (of_nat p) m' = Some m'' \<and> (\<exists>bs. heap_ok m'' demo_base bs \<and> useds demo_base bs = {})"
proof -
  obtain m where m: "heap_init 0x100000 (\<lambda>_. 0) = Some m" "heap_ok m demo_base [(hsize - 8, False)]" using demo_heap by blast
  obtain a m' bs' k where r: "malloc_block (of_nat demo_base) (of_nat 20) m = Some (of_nat a, m')"
    "heap_ok m' demo_base bs'" "useds demo_base bs' = {(a + 4, k)}"
    using malloc_block_ok [OF m(2), of 20] by auto
  have b: "of_nat demo_base = (0x100000 :: u32)" by (simp add: demo_base_def)
  have "malloc 0x100000 20 m = Some (of_nat (a + 4), m')"
    using r(1) used_pointer(1) [OF heap_ok_geo [OF r(2)], of "a + 4" k] r(3) b
    by (simp add: malloc_def addr_nat del: of_nat_add)
  with m(1) free_correct [OF r(2), of "a + 4" k] r(3) b show ?thesis by fastforce
qed

text \<open>Property C26. The statistics end for every well-formed heap, and give the number and the sizes
  of its free and its used blocks; these and the overhead of eight bytes for each block make up the
  whole heap.\<close>

theorem heap_stats_correct:
  assumes "heap_ok m hb bs"
  shows "\<exists>r. get_heap_stats (of_nat hb) m = Some r \<and>
    unat (h_free r) = total False bs \<and> unat (h_free_blocks r) = number False bs \<and>
    unat (h_used r) = total True bs \<and> unat (h_used_blocks r) = number True bs \<and>
    unat (h_total r) = total False bs + total True bs + 8 * (number False bs + number True bs)"
proof -
  obtain ns where ns: "rep m hb bs ns" using assms by (auto simp: heap_ok_def)
  then have g: "geo hb ([] @ bs)" "tiled m hb ([] @ bs)" by (simp_all add: rep_def)
  then have ne: "bs \<noteq> []" by (auto simp: geo_def)
  have sum: "total False bs + total True bs + 8 * (number False bs + number True bs) = span bs"
    by (induction bs) (auto simp: total_def number_def)
  also have "span bs = hsize" using g(1) by (simp add: geo_def)
  finally have all: "total False bs + total True bs + 8 * (number False bs + number True bs) = hsize" .
  then have "unat (of_nat x :: u32) = x" if "x \<in> {total False bs, total True bs, number False bs, number True bs}" for x
    using that by (intro unat_of_nat_small) auto
  with stats_loop_ok [OF g] ne all show ?thesis
    by (simp add: get_heap_stats_def HEAP_SIZE_def)
qed

theorem heap_stats_correct_witness:
  "\<exists>m r. heap_init 0x100000 (\<lambda>_. 0) = Some m \<and> get_heap_stats 0x100000 m = Some r \<and> unat (h_free r) = 1048568 \<and>
     unat (h_used_blocks r) = 0"
proof -
  obtain m where m: "heap_init 0x100000 (\<lambda>_. 0) = Some m" "heap_ok m demo_base [(hsize - 8, False)]" using demo_heap by blast
  from heap_stats_correct [OF m(2)] m(1) show ?thesis by (auto simp: total_def number_def demo_base_def)
qed

subsection \<open>realloc\<close>

lemma mem_copy_ld:
  assumes "4 \<le> n" "d + n \<le> 2 ^ 32" "s + n \<le> 2 ^ 32"
  shows "ld (mem_copy m d s n) d = ld m s"
proof -
  have "byte (mem_copy m d s n) (d + j) = byte m (s + j)" if "j < 4" for j
  proof -
    have "unat (of_nat (d + j) :: u32) = d + j" using assms that by (intro unat_of_nat_small) simp
    then show ?thesis using assms that by (simp add: mem_copy_def byte_def del: of_nat_add) 
  qed
  from this [of 0] this [of 1] this [of 2] this [of 3] show ?thesis
    by (simp add: ld_def load32_def byte_def add.commute)
qed

text \<open>The bytes that a block gains when a free block follows it.\<close>

definition room_behind :: "blocks \<Rightarrow> nat" where
  "room_behind ys = (case ys of (k, False) # _ \<Rightarrow> k + 8 | _ \<Rightarrow> 0)"

lemma room_behind_gap:
  assumes "gap ql" "ql = [] \<longrightarrow> zs = [] \<or> snd (hd zs)"
  shows "room_behind (ql @ zs) = span ql"
proof (cases "ql = []")
  case True
  with assms(2) show ?thesis by (cases zs) (auto simp: room_behind_def)
next
  case False
  with assms(1) show ?thesis by (auto simp: gap_def room_behind_def)
qed

lemma realloc_split_ok:
  assumes "heap_ok m hb (xs @ (n, True) # ys)" "xs = [] \<or> snd (last xs)"
    and "4 \<le> sz" "rounded sz + 16 \<le> n + room_behind ys"
  shows "\<exists>q m'. realloc_block (of_nat hb) (of_nat (hb + span xs)) (of_nat sz) m = Some (of_nat q, m') \<and>
    hb + span xs < q \<and> is_heap_pointer (of_nat hb) (of_nat (q + 4)) \<and> ld m' (q + 4) = of_nat (hb - 8)"
proof -
  let ?bs = "xs @ (n, True) # ys" and ?a = "hb + span xs"
  obtain ns where ns: "rep m hb ?bs ns" "set ns = nodes hb ?bs" and co: "coalesced ?bs"
    using assms(1) by (auto simp: heap_ok_def)
  obtain ql zs where d: "ys = ql @ zs" "gap ql" "ql = [] \<longrightarrow> zs = [] \<or> snd (hd zs)" using split_hd_free by blast
  have bs: "?bs = xs @ [] @ (n, True) # ql @ zs" using d(1) by simp
  have gap: "gap []" by (simp add: gap_def)
  obtain m1 ns1 N where m1: "try_merge (of_nat hb) (of_nat (hb + span (xs @ []))) m = Some (of_nat ?a, m1)"
    "N + 8 = span ([] @ (n, True) # ql)" "rep m1 hb (xs @ (N, True) # zs) ns1"
    "set ns1 = nodes hb (xs @ (N, True) # zs)"
    using try_merge_ok [OF ns(1) [unfolded bs] ns(2) [unfolded bs] gap d(2)] assms(2) d(3) by blast
  have N: "N = n + room_behind ys" using m1(2) d by (simp add: room_behind_gap)
  have g: "geo hb (xs @ (N, True) # zs)" "tiled m1 hb (xs @ (N, True) # zs)" using m1(3) by (simp_all add: rep_def)
  note p = geo_part [OF g(1)]
  define k where "k = rounded sz"
  have k: "sz \<le> k" "k + 16 \<le> N" "8 \<le> k" using rounded_bounds [of sz] assms(4) N by (simp_all add: k_def)
  define q where "q = ?a + N - k"
  have q: "q + k = ?a + N" "?a < q" using k(2) by (simp_all add: q_def)
  obtain m2 where m2: "maybe_split_block (of_nat hb) (of_nat ?a) (of_nat sz) m1 = Some (of_nat q, m2)"
    "rep m2 hb (xs @ (N - k - 8, False) # (k, True) # zs) ((?a + 4) # ns1)" "ld m2 (?a + 4) = of_nat (hb - 8)"
    using split_ok [OF m1(3,4), of sz] k(2) unfolding k_def q_def by blast
  have "(q + 4, k) \<in> useds hb (xs @ (N - k - 8, False) # (k, True) # zs)" using k q by (simp add: q_def)
  with m2(2) have ptr: "is_heap_pointer (of_nat hb) (of_nat (q + 4))"
    using used_pointer(1) by (simp only: rep_def) blast
  have "get_size (of_nat ?a) m1 = of_nat N" by (rule header_reads(1) [OF tiled_part(2) [OF g(2)] p(1,3)])
  moreover have "\<not> (of_nat N :: u32) < of_nat sz" using k p by (subst of_nat_less_word) simp_all
  moreover have "(of_nat q :: u32) \<noteq> of_nat ?a" using k p q by (subst of_nat_eq_word) simp_all
  ultimately have run: "realloc_block (of_nat hb) (of_nat ?a) (of_nat sz) m =
      Some (of_nat q, memmove m2 (of_nat (q + 4)) (of_nat (?a + 4)) (of_nat sz))"
    using m1(1) m2(1) by (simp add: realloc_block_def addr_nat del: of_nat_add of_nat_diff)
  have u: "unat (of_nat (q + 4) :: u32) = q + 4" "unat (of_nat (?a + 4) :: u32) = ?a + 4" "unat (of_nat sz :: u32) = sz"
    using k p q by (simp_all add: unat_of_nat_small del: of_nat_add of_nat_diff)
  have "memmove m2 (of_nat (q + 4)) (of_nat (?a + 4)) (of_nat sz) =
      memmove_down m2 (of_nat (q + 4)) (of_nat (?a + 4)) (of_nat sz)"
    using u q by (simp add: memmove_def word_less_nat_alt del: of_nat_add of_nat_diff)
  also have "\<dots> = mem_copy m2 (q + 4) (?a + 4) sz"
    using memmove_down_copy [of "of_nat (q + 4)" "of_nat sz" "of_nat (?a + 4)" sz m2] u k p q
    by (simp add: no_wrap_def del: of_nat_add of_nat_diff)
  finally have "ld (memmove m2 (of_nat (q + 4)) (of_nat (?a + 4)) (of_nat sz)) (q + 4) = of_nat (hb - 8)"
    using mem_copy_ld [of sz "q + 4" "?a + 4" m2] assms(3) k p q m2(3) by simp
  then show ?thesis using run ptr q(2) by blast
qed

text \<open>\<^verbatim>\<open>realloc\<close> loses the beginning of the user data when it shrinks a block, or
  enlarges it into a free successor, without a free block before it: the block is split before its
  data is moved, and the links of the new free block are written over the first eight bytes. The
  data that is returned begins with the address of the free list's sentinel.\<close>

theorem realloc_overwrites:
  assumes "heap_ok m hb (xs @ (n, True) # ys)" "xs = [] \<or> snd (last xs)"
    and "4 \<le> unat sz" "rounded (unat sz) + 16 \<le> n + room_behind ys"
  shows "\<exists>q m'. realloc (of_nat hb) (of_nat (hb + span xs + 4)) sz m = Some (of_nat q, m') \<and>
    hb + span xs + 4 < q \<and> load32 m' (of_nat q) = of_nat (hb - 8)"
proof -
  obtain q m' where r: "realloc_block (of_nat hb) (of_nat (hb + span xs)) sz m = Some (of_nat q, m')"
    "hb + span xs < q" "is_heap_pointer (of_nat hb) (of_nat (q + 4))" "ld m' (q + 4) = of_nat (hb - 8)"
    using realloc_split_ok [OF assms] by auto
  obtain ns where "rep m hb (xs @ (n, True) # ys) ns" using assms(1) by (auto simp: heap_ok_def)
  then have g: "geo hb (xs @ (n, True) # ys)" "tiled m hb (xs @ (n, True) # ys)" by (simp_all add: rep_def)
  note p = geo_part [OF g(1)]
  have "\<not> is_free (of_nat (hb + span xs)) m" using header_reads(3) [OF tiled_part(2) [OF g(2)] p(1,3)] by simp
  moreover have "of_nat (hb + span xs + 4) \<noteq> (0 :: u32)"
  proof -
    have "unat (of_nat (hb + span xs + 4) :: u32) = hb + span xs + 4" using p by (intro unat_of_nat_small) simp
    then show ?thesis using p(8) by (metis add_is_0 not_numeral_le_zero unsigned_0)
  qed
  moreover have "sz \<noteq> 0" using assms(3) by auto
  ultimately have "realloc (of_nat hb) (of_nat (hb + span xs + 4)) sz m = Some (of_nat (q + 4), m')"
    using block_valid [OF g(1)] r(1,3) by (simp only: realloc_def pointer_block Let_def) (simp add: addr_nat del: of_nat_add)
  with r(2,4) show ?thesis by (intro exI [of _ "q + 4"] exI [of _ m']) (simp add: ld_def)
qed

theorem realloc_overwrites_witness:
  "\<exists>m p m1 q m2. heap_init 0x100000 (\<lambda>_. 0) = Some m \<and> malloc 0x100000 1048568 m = Some (p, m1) \<and>
     realloc 0x100000 p 20 m1 = Some (q, m2) \<and> load32 m2 q = 0xffff8"
proof -
  obtain m where m: "heap_init 0x100000 (\<lambda>_. 0) = Some m" "heap_ok m demo_base [(hsize - 8, False)]" using demo_heap by blast
  obtain a m1 bs k where r: "malloc_block (of_nat demo_base) (of_nat 1048568) m = Some (of_nat a, m1)"
    "heap_ok m1 demo_base bs" "useds demo_base bs = {(a + 4, k)}" "1048568 \<le> k"
    using malloc_block_ok [OF m(2), of 1048568] by auto
  have b: "of_nat demo_base = (0x100000 :: u32)" by (simp add: demo_base_def)
  obtain xs ys where bs: "bs = xs @ (k, True) # ys" "a + 4 = demo_base + span xs + 4"
    using used_block [of "a + 4" k demo_base bs] r(3) by blast
  have "span bs = hsize" using heap_ok_geo [OF r(2)] by (simp add: geo_def)
  with bs r(4) have "span xs = 0" by simp
  then have xs: "xs = []" by (cases xs) auto
  then have a: "a + 4 = demo_base + 4" using bs(2) by simp
  have p: "is_heap_pointer (of_nat demo_base) (of_nat (a + 4))"
    using used_pointer(1) [OF heap_ok_geo [OF r(2)], of "a + 4" k] r(3) by simp
  have mal: "malloc 0x100000 1048568 m = Some (of_nat (a + 4), m1)"
    using r(1) p b by (simp add: malloc_def addr_nat del: of_nat_add)
  have "rounded 20 + 16 \<le> k + room_behind ys" using r(4) by (simp add: rounded_def)
  with realloc_overwrites [OF r(2) [unfolded bs(1) xs], of 20] a b
  obtain q m2 where "realloc 0x100000 (of_nat (a + 4)) 20 m1 = Some (of_nat q, m2)" "load32 m2 (of_nat q) = of_nat (demo_base - 8)"
    by auto
  then show ?thesis using m(1) mal by (auto simp: demo_base_def)
qed

end
