(* ===== verification/LinkQueue.thy ===== *)
theory LinkQueue
  imports Prelude
begin

section \<open>object/queue.h, object/queuelink.h: the intrusive queue\<close>

text \<open>
  A \<^verbatim>\<open>Queue<T>\<close> is a head pointer and a pointer \<^verbatim>\<open>T **tail\<close> to the slot the next element
  is written to: the head field itself while the queue is empty, else the \<^verbatim>\<open>next\<close> field of
  the last element. The \<^verbatim>\<open>next\<close> fields live in the elements, so all queues of one link
  member share them: the state of an operation is a queue together with the map \<open>links\<close>
  of all \<^verbatim>\<open>next\<close> fields. Elements are identified by a value of type \<open>'a\<close> (their address),
  a null pointer is \<open>None\<close>.

  \<open>queue_rep s xs\<close> says that the pointers of \<open>s\<close> represent the list \<open>xs\<close>; each operation is
  shown to be the list operation on it, and to leave every queue alone whose elements are
  not concerned. The locale \<open>link_queue\<close> is the contract the kernel's clients rely on.
\<close>

subsection \<open>State and operations\<close>

datatype 'a slot = HeadSlot | NextSlot 'a

record 'a queue =
  q_head :: "'a option"
  q_tail :: "'a slot"

type_synonym 'a links = "'a \<Rightarrow> 'a option"
type_synonym 'a qstate = "'a queue \<times> 'a links"

definition queue_new :: "'a queue" where
  "queue_new = \<lparr>q_head = None, q_tail = HeadSlot\<rparr>"

fun slot_write :: "'a slot \<Rightarrow> 'a option \<Rightarrow> 'a qstate \<Rightarrow> 'a qstate" where
  "slot_write HeadSlot v (q, l) = (q\<lparr>q_head := v\<rparr>, l)"
| "slot_write (NextSlot n) v (q, l) = (q, l(n := v))"

fun slot_read :: "'a slot \<Rightarrow> 'a qstate \<Rightarrow> 'a option" where
  "slot_read HeadSlot (q, l) = q_head q"
| "slot_read (NextSlot n) (q, l) = l n"

fun enqueue :: "'a \<Rightarrow> 'a qstate \<Rightarrow> 'a qstate" where
  "enqueue item (q, l) =
     (let l1 = l(item := None);
          (q2, l2) = slot_write (q_tail q) (Some item) (q, l1)
      in (q2\<lparr>q_tail := NextSlot item\<rparr>, l2))"

fun dequeue :: "'a qstate \<Rightarrow> 'a option \<times> 'a qstate" where
  "dequeue (q, l) =
     (case q_head q of
        None \<Rightarrow> (None, (q, l))
      | Some out \<Rightarrow>
          (let q1 = q\<lparr>q_head := l out\<rparr>;
               q2 = (if q_head q1 = None then q1\<lparr>q_tail := HeadSlot\<rparr> else q1)
           in (Some out, (q2, l(out := None)))))"

partial_function (option) remove_loop ::
  "('a \<Rightarrow> 'a \<Rightarrow> bool) \<Rightarrow> 'a \<Rightarrow> 'a slot \<Rightarrow> 'a option \<Rightarrow> 'a qstate \<Rightarrow> ('a option \<times> 'a qstate) option"
where
  "remove_loop cmp item prev current s =
     (case current of
        None \<Rightarrow> Some (None, s)
      | Some cur \<Rightarrow>
          if cmp item cur
          then let (q1, l1) = slot_write prev (snd s cur) s;
                   q2 = (if q_tail q1 = NextSlot cur then q1\<lparr>q_tail := prev\<rparr> else q1)
               in Some (Some cur, (q2, l1))
          else remove_loop cmp item (NextSlot cur) (snd s cur) s)"

definition remove_item :: "('a \<Rightarrow> 'a \<Rightarrow> bool) \<Rightarrow> 'a \<Rightarrow> 'a qstate \<Rightarrow> ('a option \<times> 'a qstate) option" where
  "remove_item cmp item s = remove_loop cmp item HeadSlot (q_head (fst s)) s"

text \<open>The default comparison is pointer equality.\<close>

definition remove_eq :: "'a \<Rightarrow> 'a qstate \<Rightarrow> ('a option \<times> 'a qstate) option" where
  "remove_eq item s = remove_item (=) item s"

fun insert_first :: "'a \<Rightarrow> 'a qstate \<Rightarrow> 'a qstate" where
  "insert_first item (q, l) =
     (let l1 = l(item := q_head q);
          q1 = q\<lparr>q_head := Some item\<rparr>
      in (if q_tail q1 = HeadSlot then q1\<lparr>q_tail := NextSlot item\<rparr> else q1, l1))"

fun insert_after :: "'a \<Rightarrow> 'a \<Rightarrow> 'a qstate \<Rightarrow> 'a qstate" where
  "insert_after old_item new_item (q, l) =
     (let l1 = l(new_item := l old_item);
          l2 = l1(old_item := Some new_item)
      in (if slot_read (q_tail q) (q, l2) = Some new_item
          then q\<lparr>q_tail := NextSlot new_item\<rparr> else q, l2))"

definition queue_first :: "'a qstate \<Rightarrow> 'a option" where
  "queue_first s = q_head (fst s)"

definition queue_next :: "'a \<Rightarrow> 'a qstate \<Rightarrow> 'a option" where
  "queue_next item s = snd s item"

subsection \<open>The represented list\<close>

fun chain :: "'a links \<Rightarrow> 'a option \<Rightarrow> 'a list \<Rightarrow> bool" where
  "chain l p [] \<longleftrightarrow> p = None"
| "chain l p (x # xs) \<longleftrightarrow> p = Some x \<and> chain l (l x) xs"

definition tail_slot :: "'a list \<Rightarrow> 'a slot" where
  "tail_slot xs = (if xs = [] then HeadSlot else NextSlot (last xs))"

definition queue_rep :: "'a qstate \<Rightarrow> 'a list \<Rightarrow> bool" where
  "queue_rep s xs \<longleftrightarrow> chain (snd s) (q_head (fst s)) xs \<and> q_tail (fst s) = tail_slot xs"

lemma chain_None [simp]: "chain l None xs \<longleftrightarrow> xs = []"
  by (cases xs) auto

lemma chain_Some: "chain l (Some x) xs \<longleftrightarrow> (\<exists>ys. xs = x # ys \<and> chain l (l x) ys)"
  by (cases xs) auto

lemma chain_unique: "chain l p xs \<Longrightarrow> chain l p ys \<Longrightarrow> xs = ys"
  by (induction xs arbitrary: p ys) (auto simp: chain_Some)

lemma chain_upd [simp]: "y \<notin> set xs \<Longrightarrow> chain (l(y := v)) p xs = chain l p xs"
  by (induction xs arbitrary: p) auto

lemma chain_suffix: "chain l p (xs @ y # ys) \<Longrightarrow> chain l (l y) ys"
  by (induction xs arbitrary: p) auto

lemma chain_distinct: "chain l p xs \<Longrightarrow> distinct xs"
proof (induction xs arbitrary: p)
  case (Cons x xs)
  have "x \<notin> set xs"
  proof
    assume "x \<in> set xs"
    then obtain ys zs where xs: "xs = ys @ x # zs" by (auto dest: split_list)
    with Cons.prems have "chain l (l x) zs" "chain l (l x) xs"
      by (auto dest: chain_suffix)
    then have "zs = xs" by (rule chain_unique)
    with xs show False by (metis length_append length_Cons less_add_Suc2 less_irrefl add_Suc_right)
  qed
  with Cons show ?case by auto
qed simp

lemma chain_last: "chain l p xs \<Longrightarrow> xs \<noteq> [] \<Longrightarrow> l (last xs) = None"
  by (induction xs arbitrary: p) auto

lemma chain_prefix_upd:
  "chain l p (xs @ [y] @ ys) \<Longrightarrow> distinct (xs @ [y] @ ys) \<Longrightarrow>
     chain (l(y := v)) p (xs @ [y] @ zs) \<longleftrightarrow> chain (l(y := v)) v zs"
  by (induction xs arbitrary: p) auto

lemma queue_rep_distinct: "queue_rep s xs \<Longrightarrow> distinct xs"
  by (auto simp: queue_rep_def dest: chain_distinct)

lemma queue_rep_unique: "queue_rep s xs \<Longrightarrow> queue_rep s ys \<Longrightarrow> xs = ys"
  by (auto simp: queue_rep_def dest: chain_unique)

lemma queue_rep_new [rep_simps]: "queue_rep (queue_new, l) []"
  by (simp add: queue_rep_def queue_new_def tail_slot_def)

lemma queue_first_rep [rep_simps]:
  "queue_rep s xs \<Longrightarrow> queue_first s = (case xs of [] \<Rightarrow> None | x # _ \<Rightarrow> Some x)"
  by (cases xs) (auto simp: queue_rep_def queue_first_def)

lemma queue_next_rep [rep_simps]:
  "queue_rep s (xs @ x # ys) \<Longrightarrow> queue_next x s = (case ys of [] \<Rightarrow> None | y # _ \<Rightarrow> Some y)"
  by (cases ys) (auto simp: queue_rep_def queue_next_def dest!: chain_suffix)

subsection \<open>The operations on the represented list\<close>

lemma enqueue_rep:
  assumes "queue_rep s xs" "x \<notin> set xs"
  shows "queue_rep (enqueue x s) (xs @ [x])"
proof (cases s)
  case [simp]: (Pair q l)
  show ?thesis
  proof (cases xs rule: rev_cases)
    case Nil
    with assms show ?thesis
      by (simp add: queue_rep_def tail_slot_def)
  next
    case (snoc ys y)
    have d: "distinct (ys @ [y])" using assms(1) snoc by (auto dest: queue_rep_distinct)
    have c: "chain l (q_head q) (ys @ [y] @ [])" using assms(1) snoc by (simp add: queue_rep_def)
    then have c': "chain (l(x := None)) (q_head q) (ys @ [y] @ [])"
      using assms(2) snoc by (subst chain_upd) auto
    have "chain (l(x := None, y := Some x)) (q_head q) (ys @ [y] @ [x])"
      using assms(2) snoc d by (subst chain_prefix_upd [OF c']) auto
    then show ?thesis
      using assms snoc by (simp add: queue_rep_def tail_slot_def)
  qed
qed

lemma enqueue_frame:
  "queue_rep s xs \<Longrightarrow> y \<notin> set xs \<Longrightarrow> y \<noteq> x \<Longrightarrow> snd (enqueue x s) y = snd s y"
  by (cases s) (auto simp: queue_rep_def tail_slot_def Let_def split: if_splits)

lemma dequeue_rep_Nil: "queue_rep s [] \<Longrightarrow> dequeue s = (None, s)"
  by (cases s) (simp add: queue_rep_def)

lemma dequeue_rep_Cons:
  assumes "queue_rep s (x # xs)"
  obtains s' where "dequeue s = (Some x, s')" "queue_rep s' xs"
    and "\<And>y. y \<noteq> x \<Longrightarrow> snd s' y = snd s y"
proof (cases s)
  case [simp]: (Pair q l)
  let ?q1 = "q\<lparr>q_head := l x\<rparr>"
  let ?q2 = "if q_head ?q1 = None then ?q1\<lparr>q_tail := HeadSlot\<rparr> else ?q1"
  have c: "q_head q = Some x" "chain l (l x) xs" "x \<notin> set xs"
    using assms queue_rep_distinct [OF assms] by (auto simp: queue_rep_def)
  have "dequeue s = (Some x, (?q2, l(x := None)))"
    using c by (simp add: Let_def)
  moreover have "queue_rep (?q2, l(x := None)) xs"
    using c assms by (cases xs) (auto simp: queue_rep_def tail_slot_def)
  ultimately show ?thesis by (rule that) simp
qed

lemma remove_loop_skip:
  assumes "chain l p (ys @ zs)" "\<forall>y \<in> set ys. \<not> cmp item y"
  shows "remove_loop cmp item prev p (q, l) =
           remove_loop cmp item (if ys = [] then prev else NextSlot (last ys))
             (case zs of [] \<Rightarrow> None | z # _ \<Rightarrow> Some z) (q, l)"
  using assms
proof (induction ys arbitrary: p prev)
  case Nil
  then show ?case by (cases zs) auto
next
  case (Cons y ys)
  then have "remove_loop cmp item prev p (q, l) = remove_loop cmp item (NextSlot y) (l y) (q, l)"
    by (subst remove_loop.simps) simp
  with Cons show ?case by simp
qed

lemma remove_item_absent:
  assumes "queue_rep s xs" "\<forall>y \<in> set xs. \<not> cmp item y"
  shows "remove_item cmp item s = Some (None, s)"
proof (cases s)
  case [simp]: (Pair q l)
  have "chain l (q_head q) (xs @ [])" using assms(1) by (simp add: queue_rep_def)
  from remove_loop_skip [where ys = xs and zs = "[]" and cmp = cmp and item = item, OF this assms(2)] show ?thesis
    by (simp add: remove_item_def remove_loop.simps)
qed

lemma remove_item_present:
  assumes "queue_rep s (ys @ x # zs)" "\<forall>y \<in> set ys. \<not> cmp item y" "cmp item x"
  obtains s' where "remove_item cmp item s = Some (Some x, s')" "queue_rep s' (ys @ zs)"
    and "\<And>y. y \<notin> set ys \<Longrightarrow> snd s' y = snd s y"
proof (cases s)
  case [simp]: (Pair q l)
  let ?prev = "if ys = [] then HeadSlot else NextSlot (last ys)"
  let ?s1 = "slot_write ?prev (l x) (q, l)"
  let ?q2 = "if q_tail (fst ?s1) = NextSlot x then (fst ?s1)\<lparr>q_tail := ?prev\<rparr> else fst ?s1"
  have c: "chain l (q_head q) (ys @ x # zs)" using assms(1) by (simp add: queue_rep_def)
  have d: "distinct (ys @ x # zs)" using assms(1) by (rule queue_rep_distinct)
  have tl: "q_tail q = tail_slot (ys @ x # zs)" using assms(1) by (simp add: queue_rep_def)
  have c_zs: "chain l (l x) zs" using c by (rule chain_suffix)
  have "remove_item cmp item s = remove_loop cmp item ?prev (Some x) (q, l)"
    using remove_loop_skip [where ys = ys and zs = "x # zs" and cmp = cmp and item = item, OF c assms(2)] by (simp add: remove_item_def)
  also have "\<dots> = Some (Some x, (?q2, snd ?s1))"
    using assms(3) by (subst remove_loop.simps) (auto simp: Let_def split: prod.splits)
  finally have res: "remove_item cmp item s = Some (Some x, (?q2, snd ?s1))" .
  have "q_tail q = NextSlot x \<longleftrightarrow> zs = []"
    using tl d by (auto simp: tail_slot_def split: if_splits)
  moreover have "queue_rep (?q2, snd ?s1) (ys @ zs)"
  proof (cases ys rule: rev_cases)
    case Nil
    with c_zs tl d show ?thesis
      by (auto simp: queue_rep_def tail_slot_def split: if_splits)
  next
    case (snoc ws w)
    have c': "chain l (q_head q) (ws @ [w] @ x # zs)" using c snoc by simp
    have "chain (l(w := l x)) (q_head q) (ws @ [w] @ zs)"
      using d snoc c_zs by (subst chain_prefix_upd [OF c']) auto
    with snoc tl d show ?thesis
      by (auto simp: queue_rep_def tail_slot_def split: if_splits)
  qed
  moreover have "snd (?q2, snd ?s1) y = snd s y" if "y \<notin> set ys" for y
    using that by auto
  ultimately show ?thesis using res by (intro that)
qed

lemma remove1_split: "x \<notin> set ys \<Longrightarrow> remove1 x (ys @ x # zs) = ys @ zs"
  by (simp add: remove1_append)

lemma insert_first_rep:
  assumes "queue_rep s xs" "x \<notin> set xs"
  shows "queue_rep (insert_first x s) (x # xs)"
  using assms by (cases s) (auto simp: queue_rep_def tail_slot_def Let_def)

lemma insert_after_rep:
  assumes "queue_rep s (ys @ old # zs)" "x \<notin> set (ys @ old # zs)"
  shows "queue_rep (insert_after old x s) (ys @ old # x # zs)"
proof (cases s)
  case [simp]: (Pair q l)
  have c: "chain l (q_head q) (ys @ [old] @ zs)" using assms(1) by (simp add: queue_rep_def)
  have d: "distinct (ys @ [old] @ zs)" using queue_rep_distinct [OF assms(1)] by simp
  have c_zs: "chain l (l old) zs" using c by (auto dest: chain_suffix)
  let ?l2 = "l(x := l old, old := Some x)"
  have c1: "chain (l(x := l old)) (q_head q) (ys @ [old] @ zs)"
    using c assms(2) by (subst chain_upd) auto
  have "chain ?l2 (q_head q) (ys @ [old] @ x # zs)"
    using c_zs d assms(2) by (subst chain_prefix_upd [OF c1]) auto
  moreover have "slot_read (q_tail q) (q, ?l2) = Some x \<longleftrightarrow> zs = []"
  proof (cases "zs = []")
    case True
    with assms(1) show ?thesis by (simp add: queue_rep_def tail_slot_def)
  next
    case False
    then have "last zs \<in> set zs" by simp
    then have "last zs \<noteq> old" "last zs \<noteq> x" using d assms(2) by auto
    moreover have "l (last zs) = None" using c_zs False by (rule chain_last)
    ultimately show ?thesis using False assms(1) by (simp add: queue_rep_def tail_slot_def)
  qed
  ultimately show ?thesis
    using assms(1) by (auto simp: queue_rep_def tail_slot_def Let_def)
qed

subsection \<open>The contract of the clients\<close>

locale link_queue =
  fixes enq :: "'a \<Rightarrow> 's \<Rightarrow> 's"
    and deq :: "'s \<Rightarrow> 'a option \<times> 's"
    and rm :: "'a \<Rightarrow> 's \<Rightarrow> ('a option \<times> 's) option"
    and rep :: "'s \<Rightarrow> 'a list \<Rightarrow> bool"
  assumes rep_distinct: "rep s xs \<Longrightarrow> distinct xs"
    and enq_law: "rep s xs \<Longrightarrow> x \<notin> set xs \<Longrightarrow> rep (enq x s) (xs @ [x])"
    and deq_Nil_law: "rep s [] \<Longrightarrow> deq s = (None, s)"
    and deq_Cons_law: "rep s (x # xs) \<Longrightarrow> \<exists>s'. deq s = (Some x, s') \<and> rep s' xs"
    and rm_law: "rep s xs \<Longrightarrow>
      \<exists>s'. rm x s = Some (if x \<in> set xs then Some x else None, s') \<and> rep s' (remove1 x xs)"
begin

lemma enq_all_rep:
  "rep s xs \<Longrightarrow> distinct (xs @ ys) \<Longrightarrow> rep (fold enq ys s) (xs @ ys)"
proof (induction ys arbitrary: s xs)
  case (Cons y ys)
  then have "rep (enq y s) (xs @ [y])" by (intro enq_law) auto
  from Cons.IH [OF this] Cons.prems show ?case by simp
qed simp

lemma drain_rep:
  "rep s xs \<Longrightarrow> \<exists>s'. drain deq s = Some (xs, s') \<and> rep s' []"
proof (induction xs arbitrary: s)
  case Nil
  then show ?case by (subst drain.simps) (simp add: deq_Nil_law)
next
  case (Cons x xs)
  obtain s1 where s1: "deq s = (Some x, s1)" "rep s1 xs"
    using deq_Cons_law [OF Cons.prems] by blast
  with Cons.IH [OF s1(2)] show ?case by (subst drain.simps) auto
qed

lemma fifo:
  assumes "rep s []" "distinct ys"
  shows "\<exists>s'. drain deq (fold enq ys s) = Some (ys, s') \<and> rep s' []"
  using enq_all_rep [OF assms(1), of ys] assms(2) by (auto dest: drain_rep)

lemma enq_then_drain:
  assumes "rep s xs" "distinct ys" "set xs \<inter> set ys = {}"
  shows "\<exists>s'. drain deq (fold enq ys s) = Some (xs @ ys, s') \<and> rep s' []"
proof -
  have "distinct (xs @ ys)" using rep_distinct [OF assms(1)] assms(2,3) by simp
  from drain_rep [OF enq_all_rep [OF assms(1) this]] show ?thesis .
qed

end

lemma remove_eq_frame:
  assumes "queue_rep s xs"
  shows "\<exists>s'. remove_eq x s = Some (if x \<in> set xs then Some x else None, s') \<and>
              queue_rep s' (remove1 x xs) \<and> (\<forall>y. y \<notin> set xs \<longrightarrow> snd s' y = snd s y)"
proof (cases "x \<in> set xs")
  case True
  then obtain ys zs where xs: "xs = ys @ x # zs" "x \<notin> set ys" by (auto dest: split_list_first)
  obtain s' where "remove_item (=) x s = Some (Some x, s')" "queue_rep s' (ys @ zs)"
      "\<And>y. y \<notin> set ys \<Longrightarrow> snd s' y = snd s y"
  proof (rule remove_item_present [of s ys x zs "(=)" x])
    show "queue_rep s (ys @ x # zs)" using assms xs(1) by simp
    show "\<forall>y\<in>set ys. x \<noteq> y" using xs(2) by auto
  qed auto
  with xs True show ?thesis by (auto simp: remove_eq_def remove1_split)
next
  case False
  then show ?thesis
    using assms remove_item_absent [OF assms, of "(=)" x]
    by (cases s) (auto simp: remove_eq_def remove1_idem)
qed

lemma remove_eq_rep:
  "queue_rep s xs \<Longrightarrow> \<exists>s'. remove_eq x s = Some (if x \<in> set xs then Some x else None, s') \<and>
     queue_rep s' (remove1 x xs)"
  by (drule remove_eq_frame [where x = x]) blast

interpretation lq: link_queue enqueue dequeue remove_eq queue_rep
proof unfold_locales
  show "queue_rep s xs \<Longrightarrow> distinct xs" for s :: "'a qstate" and xs
    by (rule queue_rep_distinct)
  show "queue_rep s xs \<Longrightarrow> x \<notin> set xs \<Longrightarrow> queue_rep (enqueue x s) (xs @ [x])"
    for s :: "'a qstate" and xs x by (rule enqueue_rep)
  show "queue_rep s [] \<Longrightarrow> dequeue s = (None, s)" for s :: "'a qstate"
    by (rule dequeue_rep_Nil)
  show "queue_rep s (x # xs) \<Longrightarrow> \<exists>s'. dequeue s = (Some x, s') \<and> queue_rep s' xs"
    for s :: "'a qstate" and x xs by (elim dequeue_rep_Cons) auto
  show "queue_rep s xs \<Longrightarrow> \<exists>s'. remove_eq x s = Some (if x \<in> set xs then Some x else None, s') \<and>
      queue_rep s' (remove1 x xs)" for s :: "'a qstate" and x xs
    by (rule remove_eq_rep)
qed

subsection \<open>Properties\<close>

text \<open>Property C8. The intrusive queue is first-in first-out: after enqueueing distinct
  elements on a new queue, the dequeue loop of the clients ends, visits exactly these
  elements in that order, and leaves an empty queue.\<close>

theorem queue_fifo:
  assumes "distinct ys"
  shows "\<exists>s'. drain dequeue (fold enqueue ys (queue_new, l)) = Some (ys, s') \<and> queue_rep s' []"
  by (rule lq.fifo [OF queue_rep_new assms])

theorem queue_fifo_witness:
  "\<exists>s'. drain dequeue (fold enqueue [3, 1, 2 :: nat] (queue_new, Map.empty)) = Some ([3, 1, 2], s')
        \<and> queue_rep s' []"
  by (rule queue_fifo) simp

text \<open>Property C9. \<open>remove\<close> takes the element out wherever it stands in the queue and
  reports whether it was there. Head, links and tail are then those of the remaining elements: the
  tail names the last link, and elements that are enqueued afterwards (the removed one may be among
  them) come out of the dequeue loop behind the remaining ones, which keep their order.\<close>

theorem queue_remove_then_drain:
  assumes "queue_rep s xs" "distinct ys" "set (remove1 x xs) \<inter> set ys = {}"
  shows "\<exists>s' s''. remove_eq x s = Some (if x \<in> set xs then Some x else None, s') \<and>
           q_tail (fst s') = tail_slot (remove1 x xs) \<and>
           drain dequeue (fold enqueue ys s') = Some (remove1 x xs @ ys, s'') \<and> queue_rep s'' []"
proof -
  obtain s' where s': "remove_eq x s = Some (if x \<in> set xs then Some x else None, s')" "queue_rep s' (remove1 x xs)"
    using lq.rm_law [OF assms(1), of x] by blast
  have "q_tail (fst s') = tail_slot (remove1 x xs)" using s'(2) by (simp add: queue_rep_def)
  with s' lq.enq_then_drain [OF s'(2) assms(2,3)] show ?thesis by blast
qed

theorem queue_remove_then_drain_witness:
  "\<exists>s' s''. remove_eq 2 (fold enqueue [1, 2 :: nat] (queue_new, Map.empty)) = Some (Some 2, s') \<and>
     q_tail (fst s') = NextSlot 1 \<and> drain dequeue (fold enqueue [3, 2] s') = Some ([1, 3, 2], s'') \<and> queue_rep s'' []"
proof -
  have "queue_rep (fold enqueue [1, 2 :: nat] (queue_new, Map.empty)) [1, 2]"
    using lq.enq_all_rep [OF queue_rep_new, of "[1, 2 :: nat]" Map.empty] by simp
  from queue_remove_then_drain [OF this, of "[3, 2]" 2] show ?thesis by (simp add: tail_slot_def)
qed

end
