(* ===== verification/BBuffer.thy ===== *)
theory BBuffer
  imports Prelude
begin

section \<open>object/bbuffer.h: the bounded buffer\<close>

text \<open>
  A ring of \<^verbatim>\<open>CAP\<close> slots with the two indices \<^verbatim>\<open>in\<close> and \<^verbatim>\<open>out\<close>, both \<^verbatim>\<open>unsigned\<close>. The
  template parameter is the argument \<open>cap\<close>, the array a list of \<open>cap\<close> elements. The buffer
  is full when advancing \<^verbatim>\<open>in\<close> would meet \<^verbatim>\<open>out\<close>, so it holds at most \<^verbatim>\<open>CAP - 1\<close> elements.
  \<open>bb_inv\<close> keeps both indices inside the array, hence no access is out of range;
  \<open>bb_list\<close> is the sequence of elements the buffer stands for. The locale
  \<open>bounded_fifo\<close> is the contract the keyboard and console drivers use.
\<close>

subsection \<open>State and operations\<close>

record 'a bbuffer =
  bb_data :: "'a list"
  bb_in :: u32
  bb_out :: u32

definition bb_new :: "'a list \<Rightarrow> 'a bbuffer" where
  "bb_new junk = \<lparr>bb_data = junk, bb_in = 0, bb_out = 0\<rparr>"

definition bb_produce :: "u32 \<Rightarrow> 'a \<Rightarrow> 'a bbuffer \<Rightarrow> bool \<times> 'a bbuffer" where
  "bb_produce cap val b =
     (let nextin = (bb_in b + 1) mod cap
      in if nextin \<noteq> bb_out b
         then (True, b\<lparr>bb_data := (bb_data b)[unat (bb_in b) := val], bb_in := nextin\<rparr>)
         else (False, b))"

text \<open>\<^verbatim>\<open>consume\<close> writes its reference parameter only when it returns true: \<open>Some\<close> of the
  element, or \<open>None\<close> for the result false.\<close>

definition bb_consume :: "u32 \<Rightarrow> 'a bbuffer \<Rightarrow> 'a option \<times> 'a bbuffer" where
  "bb_consume cap b =
     (if bb_in b \<noteq> bb_out b
      then (Some (bb_data b ! unat (bb_out b)), b\<lparr>bb_out := (bb_out b + 1) mod cap\<rparr>)
      else (None, b))"

subsection \<open>Invariant and contents\<close>

definition bb_inv :: "u32 \<Rightarrow> 'a bbuffer \<Rightarrow> bool" where
  "bb_inv cap b \<longleftrightarrow> 0 < cap \<and> length (bb_data b) = unat cap \<and> bb_in b < cap \<and> bb_out b < cap"

definition ring_count :: "nat \<Rightarrow> nat \<Rightarrow> nat \<Rightarrow> nat" where
  "ring_count c i out = (if out \<le> i then i - out else i + c - out)"

definition ring_slot :: "nat \<Rightarrow> nat \<Rightarrow> nat \<Rightarrow> nat" where
  "ring_slot c out k = (if out + k < c then out + k else out + k - c)"

definition bb_list :: "u32 \<Rightarrow> 'a bbuffer \<Rightarrow> 'a list" where
  "bb_list cap b =
     map (\<lambda>k. bb_data b ! ring_slot (unat cap) (unat (bb_out b)) k)
       [0..<ring_count (unat cap) (unat (bb_in b)) (unat (bb_out b))]"

lemma unat_next_index:
  "i < cap \<Longrightarrow> unat ((i + 1) mod (cap :: u32)) = (if unat i + 1 = unat cap then 0 else unat i + 1)"
proof -
  assume "i < cap"
  then have lt: "unat i + 1 \<le> unat cap" "unat i + 1 < 2 ^ 32"
    using unat_lt2p_32 [of cap] by (simp_all add: word_less_nat_alt)
  then have "unat (i + 1) = unat i + 1" by (simp add: unat_simps)
  with lt show ?thesis by (simp add: unat_mod)
qed

lemma ring_slot_count: "i < c \<Longrightarrow> out < c \<Longrightarrow> ring_slot c out (ring_count c i out) = i"
  by (auto simp: ring_slot_def ring_count_def)

lemma ring_slot_ne:
  "i < c \<Longrightarrow> out < c \<Longrightarrow> k < ring_count c i out \<Longrightarrow> ring_slot c out k \<noteq> i"
  by (auto simp: ring_slot_def ring_count_def split: if_splits)

lemma ring_slot_less: "out < c \<Longrightarrow> k \<le> c \<Longrightarrow> ring_slot c out k < c \<or> k = c \<and> ring_slot c out k = out"
  by (auto simp: ring_slot_def)

lemma ring_slot_0: "out < c \<Longrightarrow> ring_slot c out 0 = out"
  by (simp add: ring_slot_def)

lemma ring_count_bound: "i < c \<Longrightarrow> out < c \<Longrightarrow> ring_count c i out < c"
  by (auto simp: ring_count_def)

lemma ring_count_next_in:
  "i < c \<Longrightarrow> out < c \<Longrightarrow> (if i + 1 = c then 0 else i + 1) \<noteq> out \<Longrightarrow>
     ring_count c (if i + 1 = c then 0 else i + 1) out = Suc (ring_count c i out)"
  by (auto simp: ring_count_def split: if_splits)

lemma ring_full_iff:
  "i < c \<Longrightarrow> out < c \<Longrightarrow> (if i + 1 = c then 0 else i + 1) = out \<longleftrightarrow> ring_count c i out = c - 1"
  by (auto simp: ring_count_def split: if_splits)

lemma ring_count_next_out:
  "i < c \<Longrightarrow> out < c \<Longrightarrow> i \<noteq> out \<Longrightarrow>
     ring_count c i out = Suc (ring_count c i (if out + 1 = c then 0 else out + 1))"
  by (auto simp: ring_count_def split: if_splits)

lemma ring_slot_next_out:
  "out < c \<Longrightarrow> k < c \<Longrightarrow> ring_slot c (if out + 1 = c then 0 else out + 1) k = ring_slot c out (Suc k) \<or> Suc k = c"
  by (auto simp: ring_slot_def split: if_splits)

lemma bb_inv_nat:
  "bb_inv cap b \<Longrightarrow> unat (bb_in b) < unat cap \<and> unat (bb_out b) < unat cap \<and>
     length (bb_data b) = unat cap"
  by (simp add: bb_inv_def word_less_nat_alt)

lemma bb_inv_new: "0 < cap \<Longrightarrow> length junk = unat cap \<Longrightarrow> bb_inv cap (bb_new junk)"
  by (simp add: bb_inv_def bb_new_def)

lemma bb_list_new [rep_simps]: "bb_list cap (bb_new junk) = []"
  by (simp add: bb_list_def bb_new_def ring_count_def)

lemma next_index_less: "0 < cap \<Longrightarrow> x mod (cap :: u32) < cap"
  by (simp add: word_mod_less_divisor)

lemma bb_inv_produce: "bb_inv cap b \<Longrightarrow> bb_inv cap (snd (bb_produce cap v b))"
  by (auto simp: bb_inv_def bb_produce_def Let_def next_index_less)

lemma bb_inv_consume: "bb_inv cap b \<Longrightarrow> bb_inv cap (snd (bb_consume cap b))"
  by (auto simp: bb_inv_def bb_consume_def next_index_less)

lemma bb_list_bound: "bb_inv cap b \<Longrightarrow> length (bb_list cap b) < unat cap"
  by (auto simp: bb_list_def ring_count_bound dest!: bb_inv_nat)

lemma bb_produce_full:
  assumes "bb_inv cap b"
  shows "fst (bb_produce cap v b) \<longleftrightarrow> length (bb_list cap b) < unat cap - 1"
proof -
  from bb_inv_nat [OF assms] have nat: "unat (bb_in b) < unat cap" "unat (bb_out b) < unat cap"
    by auto
  have in_less: "bb_in b < cap" using assms by (simp add: bb_inv_def)
  have "(bb_in b + 1) mod cap = bb_out b \<longleftrightarrow>
      ring_count (unat cap) (unat (bb_in b)) (unat (bb_out b)) = unat cap - 1"
    unfolding word_unat_eq_iff unat_next_index [OF in_less] by (rule ring_full_iff [OF nat])
  with ring_count_bound [OF nat] show ?thesis
    by (auto simp: bb_produce_def bb_list_def Let_def)
qed

lemma bb_list_produce:
  assumes "bb_inv cap b"
  shows "bb_list cap (snd (bb_produce cap v b)) =
           (if fst (bb_produce cap v b) then bb_list cap b @ [v] else bb_list cap b)"
proof (cases "(bb_in b + 1) mod cap = bb_out b")
  case True
  then show ?thesis by (simp add: bb_produce_def)
next
  case False
  let ?c = "unat cap" and ?i = "unat (bb_in b)" and ?o = "unat (bb_out b)"
  from bb_inv_nat [OF assms] have nat: "?i < ?c" "?o < ?c" and len: "length (bb_data b) = ?c"
    by auto
  have nxt: "unat ((bb_in b + 1) mod cap) = (if ?i + 1 = ?c then 0 else ?i + 1)"
    using assms by (intro unat_next_index) (simp add: bb_inv_def)
  have ne: "(if ?i + 1 = ?c then 0 else ?i + 1) \<noteq> ?o"
    using False unfolding word_unat_eq_iff nxt .
  have "ring_count ?c (unat ((bb_in b + 1) mod cap)) ?o = Suc (ring_count ?c ?i ?o)"
    unfolding nxt by (rule ring_count_next_in [OF nat ne])
  moreover have "(bb_data b)[?i := v] ! ring_slot ?c ?o k = bb_data b ! ring_slot ?c ?o k"
    if "k < ring_count ?c ?i ?o" for k
    using ring_slot_ne [OF nat that] by (metis nth_list_update_neq)
  ultimately show ?thesis
    using False len nat
    by (auto simp: bb_produce_def bb_list_def Let_def ring_slot_count)
qed

lemma bb_consume_list:
  assumes "bb_inv cap b"
  shows "case bb_list cap b of
           [] \<Rightarrow> bb_consume cap b = (None, b)
         | x # xs \<Rightarrow> fst (bb_consume cap b) = Some x \<and> bb_list cap (snd (bb_consume cap b)) = xs"
proof (cases "bb_in b = bb_out b")
  case True
  then show ?thesis by (simp add: bb_list_def bb_consume_def ring_count_def)
next
  case False
  let ?c = "unat cap" and ?i = "unat (bb_in b)" and ?o = "unat (bb_out b)"
  let ?o' = "if ?o + 1 = ?c then 0 else ?o + 1"
  from bb_inv_nat [OF assms] have nat: "?i < ?c" "?o < ?c"
    by auto
  have nxt: "unat ((bb_out b + 1) mod cap) = ?o'"
    using assms by (intro unat_next_index) (simp add: bb_inv_def)
  have ne: "?i \<noteq> ?o" using False by (simp add: word_unat_eq_iff)
  have cnt: "ring_count ?c ?i ?o = Suc (ring_count ?c ?i ?o')"
    by (rule ring_count_next_out [OF nat ne])
  have o'_less: "?o' < ?c" using nat by auto
  have slot: "ring_slot ?c ?o' k = ring_slot ?c ?o (Suc k)" if "k < ring_count ?c ?i ?o'" for k
  proof -
    have "k < ?c" "Suc k < ?c" using that cnt ring_count_bound [OF nat] by linarith+
    from ring_slot_next_out [OF nat(2) this(1)] this(2) show ?thesis by (elim disjE) simp_all
  qed
  have "bb_list cap b = bb_data b ! ?o #
      map (\<lambda>k. bb_data b ! ring_slot ?c ?o (Suc k)) [0..<ring_count ?c ?i ?o']"
    unfolding bb_list_def cnt map_upt_Suc ring_slot_0 [OF nat(2)] ..
  moreover have "bb_list cap (snd (bb_consume cap b)) =
      map (\<lambda>k. bb_data b ! ring_slot ?c ?o (Suc k)) [0..<ring_count ?c ?i ?o']"
    using False slot by (auto simp: bb_consume_def bb_list_def nxt)
  ultimately show ?thesis using False by (simp add: bb_consume_def)
qed

subsection \<open>The contract of the clients\<close>

locale bounded_fifo =
  fixes put :: "'a \<Rightarrow> 's \<Rightarrow> bool \<times> 's"
    and get :: "'s \<Rightarrow> 'a option \<times> 's"
    and inv :: "'s \<Rightarrow> bool"
    and contents :: "'s \<Rightarrow> 'a list"
    and bound :: nat
  assumes put_inv: "inv s \<Longrightarrow> inv (snd (put x s))"
    and get_inv: "inv s \<Longrightarrow> inv (snd (get s))"
    and put_result: "inv s \<Longrightarrow> fst (put x s) \<longleftrightarrow> length (contents s) < bound"
    and put_contents: "inv s \<Longrightarrow>
      contents (snd (put x s)) = (if fst (put x s) then contents s @ [x] else contents s)"
    and get_Nil: "inv s \<Longrightarrow> contents s = [] \<Longrightarrow> get s = (None, s)"
    and get_Cons: "inv s \<Longrightarrow> contents s = x # xs \<Longrightarrow> fst (get s) = Some x \<and> contents (snd (get s)) = xs"
    and contents_bound: "inv s \<Longrightarrow> length (contents s) \<le> bound"
begin

lemma put_all:
  "inv s \<Longrightarrow> inv (fold (\<lambda>x s. snd (put x s)) xs s) \<and>
     contents (fold (\<lambda>x s. snd (put x s)) xs s) = take bound (contents s @ xs)"
proof (induction xs arbitrary: s)
  case Nil
  then show ?case by (simp add: contents_bound)
next
  case (Cons x xs)
  have "contents (snd (put x s)) @ xs = contents s @ x # xs \<and> length (contents s) < bound \<or>
      contents (snd (put x s)) @ xs = contents s @ xs \<and> length (contents s) = bound"
    using put_result [OF Cons.prems, of x] put_contents [OF Cons.prems, of x]
      contents_bound [OF Cons.prems] by auto
  with Cons.IH [OF put_inv [OF Cons.prems, of x]] show ?case
    by (elim disjE) (simp_all add: take_append)
qed

lemma drain_contents:
  "inv s \<Longrightarrow> \<exists>s'. drain get s = Some (contents s, s') \<and> inv s' \<and> contents s' = []"
proof (induction "contents s" arbitrary: s)
  case Nil
  then show ?case using get_Nil [OF Nil.prems] by (auto intro: drain_None)
next
  case (Cons x xs)
  then have c: "contents s = x # xs" by simp
  from get_Cons [OF Cons.prems c] obtain s1 where s1: "get s = (Some x, s1)" "contents s1 = xs"
    by (cases "get s") auto
  then have "inv s1" using get_inv [OF Cons.prems] by simp
  with Cons.hyps(1) [of s1] s1 obtain s' where "drain get s1 = Some (xs, s')" "inv s'" "contents s' = []"
    by auto
  with s1 c show ?case by (auto intro: drain_Some)
qed

lemma put_all_drain:
  assumes "inv s" "contents s = []"
  shows "\<exists>s'. drain get (fold (\<lambda>x s. snd (put x s)) xs s) = Some (take bound xs, s') \<and>
              inv s' \<and> contents s' = []"
  using put_all [OF assms(1), of xs] drain_contents assms(2) by force

end

interpretation bb: bounded_fifo "bb_produce cap" "bb_consume cap" "bb_inv cap" "bb_list cap" "unat cap - 1"
  for cap
proof unfold_locales
  fix s :: "'a bbuffer" and x :: 'a and xs
  assume inv: "bb_inv cap s"
  show "bb_inv cap (snd (bb_produce cap x s))" using inv by (rule bb_inv_produce)
  show "bb_inv cap (snd (bb_consume cap s))" using inv by (rule bb_inv_consume)
  show "fst (bb_produce cap x s) \<longleftrightarrow> length (bb_list cap s) < unat cap - 1"
    using inv by (rule bb_produce_full)
  show "bb_list cap (snd (bb_produce cap x s)) =
      (if fst (bb_produce cap x s) then bb_list cap s @ [x] else bb_list cap s)"
    using inv by (rule bb_list_produce)
  show "length (bb_list cap s) \<le> unat cap - 1"
    using bb_list_bound [OF inv] by simp
  show "bb_list cap s = [] \<Longrightarrow> bb_consume cap s = (None, s)"
    using bb_consume_list [OF inv] by simp
  show "bb_list cap s = x # xs \<Longrightarrow>
      fst (bb_consume cap s) = Some x \<and> bb_list cap (snd (bb_consume cap s)) = xs"
    using bb_consume_list [OF inv] by simp
qed

subsection \<open>Properties\<close>

text \<open>Property C10. A bounded buffer of \<open>cap\<close> slots keeps the first \<open>cap - 1\<close> elements that
  are produced into it, drops the later ones, and gives the kept ones back in the order
  they were produced; the loop that consumes them ends with an empty buffer.\<close>

theorem bbuffer_fifo:
  assumes "0 < cap" "length junk = unat cap"
  shows "\<exists>b'. drain (bb_consume cap) (fold (\<lambda>x b. snd (bb_produce cap x b)) xs (bb_new junk)) =
                Some (take (unat cap - 1) xs, b') \<and> bb_inv cap b' \<and> bb_list cap b' = []"
  by (rule bb.put_all_drain [OF bb_inv_new [OF assms] bb_list_new])

theorem bbuffer_fifo_witness:
  "\<exists>b'. drain (bb_consume 3) (fold (\<lambda>x b. snd (bb_produce 3 x b)) [7, 8, 9] (bb_new [0, 0, 0 :: nat])) =
          Some ([7, 8], b') \<and> bb_inv 3 b' \<and> bb_list 3 b' = []"
  using bbuffer_fifo [of 3 "[0, 0, 0 :: nat]" "[7, 8, 9]"] by simp

end
