(* ===== verification/QueueSet.thy ===== *)
theory QueueSet
  imports LinkQueue
begin

section \<open>Several queues over one set of links\<close>

text \<open>
  A thread has one link member and is, at any time, an element of at most one queue: the
  ready list or one of the waiting rooms. This theory lifts the operations of \<open>LinkQueue\<close>
  to a family of queues that share their links: \<open>on_queue i f\<close> runs the operation \<open>f\<close> on the
  queue with the index \<open>i\<close>, and \<open>mq_rep s L\<close> says that every queue \<open>i\<close> represents the list
  \<open>L i\<close> and that no element is in two of them. The lemmas \<open>mq_enqueue\<close>, \<open>mq_dequeue\<close> and
  \<open>mq_remove\<close> are the functional behaviour with its frame: an operation on one queue leaves
  all the others as they were.
\<close>

type_synonym ('i, 'a) mqueues = "('i \<Rightarrow> 'a queue) \<times> 'a links"

definition on_queue :: "'i \<Rightarrow> ('a qstate \<Rightarrow> 'a qstate) \<Rightarrow> ('i, 'a) mqueues \<Rightarrow> ('i, 'a) mqueues" where
  "on_queue i f s = (let (q, l) = f (fst s i, snd s) in ((fst s)(i := q), l))"

definition mq_rep :: "('i, 'a) mqueues \<Rightarrow> ('i \<Rightarrow> 'a list) \<Rightarrow> bool" where
  "mq_rep s L \<longleftrightarrow> (\<forall>i. queue_rep (fst s i, snd s) (L i)) \<and>
     (\<forall>i j. i \<noteq> j \<longrightarrow> set (L i) \<inter> set (L j) = {})"

lemma chain_cong: "(\<And>y. y \<in> set xs \<Longrightarrow> l y = l' y) \<Longrightarrow> chain l p xs = chain l' p xs"
  by (induction xs arbitrary: p) auto

lemma queue_rep_frame:
  "queue_rep (q, l) xs \<Longrightarrow> (\<And>y. y \<in> set xs \<Longrightarrow> l' y = l y) \<Longrightarrow> queue_rep (q, l') xs"
  using chain_cong [of xs l l' "q_head q"] by (simp add: queue_rep_def)

lemma mq_rep_queue: "mq_rep s L \<Longrightarrow> queue_rep (fst s i, snd s) (L i)"
  by (simp add: mq_rep_def)

lemma mq_rep_distinct: "mq_rep s L \<Longrightarrow> distinct (L i)"
  by (blast dest: mq_rep_queue queue_rep_distinct)

lemma mq_rep_disjoint: "mq_rep s L \<Longrightarrow> x \<in> set (L i) \<Longrightarrow> x \<in> set (L j) \<Longrightarrow> i = j"
  unfolding mq_rep_def by blast

lemma mq_rep_unique:
  assumes "mq_rep qs L" "mq_rep qs L'"
  shows "L = L'"
proof
  fix i show "L i = L' i"
    using queue_rep_unique [OF mq_rep_queue [OF assms(1), of i] mq_rep_queue [OF assms(2), of i]] .
qed

lemma mq_rep_update:
  assumes rep: "mq_rep s L"
    and new: "queue_rep (q, l) ys"
    and frame: "\<And>j y. j \<noteq> i \<Longrightarrow> y \<in> set (L j) \<Longrightarrow> l y = snd s y"
    and fresh: "\<And>j. j \<noteq> i \<Longrightarrow> set ys \<inter> set (L j) = {}"
  shows "mq_rep ((fst s)(i := q), l) (L(i := ys))"
  unfolding mq_rep_def
proof (intro conjI allI impI)
  fix j
  show "queue_rep (fst ((fst s)(i := q), l) j, snd ((fst s)(i := q), l)) ((L(i := ys)) j)"
  proof (cases "j = i")
    case False
    with queue_rep_frame [OF mq_rep_queue [OF rep, of j] frame [OF False]] show ?thesis by simp
  qed (simp add: new)
next
  fix j k :: 'a
  assume "j \<noteq> k"
  then show "set ((L(i := ys)) j) \<inter> set ((L(i := ys)) k) = {}"
    using rep fresh unfolding mq_rep_def by (auto simp: fun_upd_def split: if_splits)
qed

lemma mq_enqueue:
  assumes rep: "mq_rep s L" and fresh: "\<And>j. x \<notin> set (L j)"
  shows "mq_rep (on_queue i (enqueue x) s) (L(i := L i @ [x]))"
proof -
  obtain q l where e: "enqueue x (fst s i, snd s) = (q, l)" by (cases "enqueue x (fst s i, snd s)")
  have q: "queue_rep (q, l) (L i @ [x])"
    using enqueue_rep [OF mq_rep_queue [OF rep, of i] fresh] e by simp
  have "l y = snd s y" if "j \<noteq> i" "y \<in> set (L j)" for j y
  proof -
    have "y \<notin> set (L i)" "y \<noteq> x" using that rep fresh mq_rep_disjoint by metis+
    with enqueue_frame [OF mq_rep_queue [OF rep, of i], of y x] e show ?thesis by simp
  qed
  moreover have "set (L i @ [x]) \<inter> set (L j) = {}" if "j \<noteq> i" for j
    using that rep fresh [of j] unfolding mq_rep_def by auto
  ultimately show ?thesis
    using mq_rep_update [OF rep q, of i] e by (simp add: on_queue_def)
qed

definition mq_dequeue :: "'i \<Rightarrow> ('i, 'a) mqueues \<Rightarrow> 'a option \<times> ('i, 'a) mqueues" where
  "mq_dequeue i s = (let (x, q, l) = dequeue (fst s i, snd s) in (x, (fst s)(i := q), l))"

definition mq_remove :: "'i \<Rightarrow> 'a \<Rightarrow> ('i, 'a) mqueues \<Rightarrow> ('a option \<times> ('i, 'a) mqueues) option" where
  "mq_remove i x s =
     map_option (\<lambda>(r, q, l). (r, (fst s)(i := q), l)) (remove_eq x (fst s i, snd s))"

definition mq_first :: "'i \<Rightarrow> ('i, 'a) mqueues \<Rightarrow> 'a option" where
  "mq_first i s = queue_first (fst s i, snd s)"

lemma mq_first_rep: "mq_rep s L \<Longrightarrow> mq_first i s = (case L i of [] \<Rightarrow> None | x # _ \<Rightarrow> Some x)"
  by (simp add: mq_first_def queue_first_rep [OF mq_rep_queue])

lemma mq_dequeue_Nil:
  assumes "mq_rep s L" "L i = []"
  shows "mq_dequeue i s = (None, s)"
proof -
  have "dequeue (fst s i, snd s) = (None, (fst s i, snd s))"
    using mq_rep_queue [OF assms(1), of i] assms(2) by (intro dequeue_rep_Nil) simp
  then show ?thesis by (simp add: mq_dequeue_def)
qed

lemma mq_dequeue_Cons:
  assumes "mq_rep s L" "L i = x # xs"
  shows "\<exists>s'. mq_dequeue i s = (Some x, s') \<and> mq_rep s' (L(i := xs))"
proof -
  have "queue_rep (fst s i, snd s) (x # xs)" using mq_rep_queue [OF assms(1), of i] assms(2) by simp
  then obtain s' where s': "dequeue (fst s i, snd s) = (Some x, s')" "queue_rep s' xs"
    "\<And>y. y \<noteq> x \<Longrightarrow> snd s' y = snd (fst s i, snd s) y" by (elim dequeue_rep_Cons) auto
  obtain q l where [simp]: "s' = (q, l)" by (cases s')
  have other: "j \<noteq> i \<Longrightarrow> y \<in> set (L j) \<Longrightarrow> y \<noteq> x" for j y
    using mq_rep_disjoint [OF assms(1), of x i j] assms(2) by auto
  have "mq_rep ((fst s)(i := q), l) (L(i := xs))"
  proof (rule mq_rep_update [OF assms(1)])
    show "queue_rep (q, l) xs" using s'(2) by simp
    show "l y = snd s y" if "j \<noteq> i" "y \<in> set (L j)" for j y
      using s'(3) [OF other [OF that]] by simp
    show "set xs \<inter> set (L j) = {}" if "j \<noteq> i" for j
      using assms that unfolding mq_rep_def by (metis Int_insert_left_if0 list.simps(15) IntI empty_iff insertI1)
  qed
  with s'(1) show ?thesis by (simp add: mq_dequeue_def)
qed

lemma mq_remove_rep:
  assumes rep: "mq_rep s L"
  shows "\<exists>s'. mq_remove i x s = Some (if x \<in> set (L i) then Some x else None, s') \<and>
              mq_rep s' (L(i := remove1 x (L i)))"
proof -
  from remove_eq_frame [OF mq_rep_queue [OF rep, of i], of x] obtain q l where
    r: "remove_eq x (fst s i, snd s) = Some (if x \<in> set (L i) then Some x else None, (q, l))"
      "queue_rep (q, l) (remove1 x (L i))" "\<And>y. y \<notin> set (L i) \<Longrightarrow> l y = snd s y"
    by auto
  have "mq_rep ((fst s)(i := q), l) (L(i := remove1 x (L i)))"
  proof (rule mq_rep_update [OF rep r(2)])
    show "l y = snd s y" if "j \<noteq> i" "y \<in> set (L j)" for j y
      using that rep by (intro r(3)) (auto dest: mq_rep_disjoint)
    show "set (remove1 x (L i)) \<inter> set (L j) = {}" if "j \<noteq> i" for j
      using rep that set_remove1_subset [of x "L i"] unfolding mq_rep_def by blast
  qed
  with r(1) show ?thesis by (simp add: mq_remove_def)
qed

lemma mq_remove_absent:
  assumes rep: "mq_rep s L" and x: "x \<notin> set (L i)"
  shows "mq_remove i x s = Some (None, s)"
proof -
  have "remove_item (=) x (fst s i, snd s) = Some (None, (fst s i, snd s))"
    by (rule remove_item_absent [OF mq_rep_queue [OF rep, of i]]) (use x in auto)
  then show ?thesis by (simp add: mq_remove_def remove_eq_def)
qed

lemma mq_remove_hd:
  assumes rep: "mq_rep s L" and L: "L i = x # xs"
  shows "\<exists>s'. mq_remove i x s = Some (Some x, s') \<and> mq_rep s' (L(i := xs)) \<and> snd s' = snd s"
proof -
  have "queue_rep (fst s i, snd s) ([] @ x # xs)" using mq_rep_queue [OF rep, of i] L by simp
  then obtain s' where s': "remove_item (=) x (fst s i, snd s) = Some (Some x, s')" "queue_rep s' ([] @ xs)"
      "\<And>y. y \<notin> set [] \<Longrightarrow> snd s' y = snd (fst s i, snd s) y"
    by (rule remove_item_present [where cmp = "(=)" and item = x]) auto
  from s'(3) have "snd s' = snd s" by auto
  moreover from mq_remove_rep [OF rep, of i x] L obtain s2 where
    "mq_remove i x s = Some (Some x, s2)" "mq_rep s2 (L(i := xs))" by auto
  moreover have "mq_remove i x s = Some (Some x, (fst s)(i := fst s'), snd s')"
    using s'(1) by (simp add: mq_remove_def remove_eq_def case_prod_unfold)
  ultimately show ?thesis by auto
qed

lemma mq_next_hd:
  "mq_rep s L \<Longrightarrow> L i = x # xs \<Longrightarrow> snd s x = (case xs of [] \<Rightarrow> None | y # _ \<Rightarrow> Some y)"
  using queue_next_rep [of "(fst s i, snd s)" "[]" x xs] mq_rep_queue [of s L i]
  by (simp add: queue_next_def)

lemma mq_rep_new: "mq_rep (\<lambda>_. queue_new, l) (\<lambda>_. [])"
  by (simp add: mq_rep_def queue_rep_new)

lemma mq_rep_reset:
  assumes "mq_rep s L"
  shows "mq_rep ((fst s)(i := queue_new), snd s) (L(i := []))"
  by (rule mq_rep_update [OF assms queue_rep_new]) auto

end
