(* ===== verification/Bellringer.thy ===== *)
theory Bellringer
  imports LinkQueue
begin

section \<open>meeting/bellringer.cc: the alarm clock\<close>

text \<open>
  The \<^verbatim>\<open>Bellringer\<close> keeps the pending bells in a delta list: \<^verbatim>\<open>Bell::ms\<close> is the number of
  milliseconds after the bell before it. \<open>bellringer\<close> is that list on the pointer level of
  \<open>LinkQueue\<close> (the link member is \<^verbatim>\<open>bellringer_link\<close>) with the \<^verbatim>\<open>ms\<close> members as a map.
  \<^verbatim>\<open>Bell::ring\<close> acts on the scheduler; here it is an argument \<open>ring\<close> on a state \<open>'k\<close>
  that theory \<open>Kernel\<close> instantiates.

  The specification is a list of pairs of a bell and its remaining time, ordered by time:
  \<open>clock_job\<close>, \<open>clock_cancel\<close> and \<open>clock_check\<close>. \<open>br_rep\<close> relates the two, and the lemmas
  \<open>job_rep\<close>, \<open>cancel_rep\<close> and \<open>check_rep\<close> are the simulation of each operation.
\<close>

subsection \<open>State and operations\<close>

record 'b bellringer =
  br_list :: "'b qstate"
  br_ms :: "'b \<Rightarrow> u32"

definition bell_pending :: "'b bellringer \<Rightarrow> bool" where
  "bell_pending s \<longleftrightarrow> queue_first (br_list s) \<noteq> None"

partial_function (option) job_loop ::
  "'b option \<Rightarrow> 'b option \<Rightarrow> u32 \<Rightarrow> 'b bellringer \<Rightarrow> ('b option \<times> u32 \<times> 'b bellringer) option"
where
  "job_loop prev current ms s =
     (case current of
        None \<Rightarrow> Some (prev, ms, s)
      | Some b \<Rightarrow>
          if br_ms s b > ms
          then Some (prev, ms, s\<lparr>br_ms := (br_ms s)(b := br_ms s b - ms)\<rparr>)
          else job_loop (Some b) (queue_next b (br_list s)) (ms - br_ms s b) s)"

definition bell_job :: "'b \<Rightarrow> u32 \<Rightarrow> 'b bellringer \<Rightarrow> 'b bellringer option" where
  "bell_job bell ms s =
     Option.bind (job_loop None (queue_first (br_list s)) ms s) (\<lambda>(prev, ms, s).
       let s = s\<lparr>br_ms := (br_ms s)(bell := ms)\<rparr>
       in case prev of
            None \<Rightarrow> Some (s\<lparr>br_list := insert_first bell (br_list s)\<rparr>)
          | Some p \<Rightarrow> Some (s\<lparr>br_list := insert_after p bell (br_list s)\<rparr>))"

definition bell_cancel :: "'b \<Rightarrow> 'b bellringer \<Rightarrow> 'b bellringer option" where
  "bell_cancel bell s =
     (let s = (case queue_next bell (br_list s) of
                 Some next \<Rightarrow> s\<lparr>br_ms := (br_ms s)(next := br_ms s next + br_ms s bell)\<rparr>
               | None \<Rightarrow> s)
      in map_option (\<lambda>(r, q). s\<lparr>br_list := q\<rparr>) (remove_eq bell (br_list s)))"

partial_function (option) check_loop ::
  "('b \<Rightarrow> 'k \<Rightarrow> 'k option) \<Rightarrow> 'b \<Rightarrow> 'b bellringer \<Rightarrow> 'k \<Rightarrow> ('b bellringer \<times> 'k) option"
where
  "check_loop ring first s k =
     Option.bind (ring first k) (\<lambda>k.
     Option.bind (bell_cancel first s) (\<lambda>s.
       case queue_first (br_list s) of
         None \<Rightarrow> Some (s, k)
       | Some f \<Rightarrow> if br_ms s f = 0 then check_loop ring f s k else Some (s, k)))"

definition bell_check ::
  "('b \<Rightarrow> 'k \<Rightarrow> 'k option) \<Rightarrow> 'b bellringer \<Rightarrow> 'k \<Rightarrow> ('b bellringer \<times> 'k) option"
where
  "bell_check ring s k =
     (case queue_first (br_list s) of
        None \<Rightarrow> Some (s, k)
      | Some first \<Rightarrow>
          let ms = br_ms s first - 1;
              s = s\<lparr>br_ms := (br_ms s)(first := ms)\<rparr>
          in if ms = 0 then check_loop ring first s k else Some (s, k))"

definition bellringer_new :: "'b links \<Rightarrow> ('b \<Rightarrow> u32) \<Rightarrow> 'b bellringer" where
  "bellringer_new l ms = \<lparr>br_list = (queue_new, l), br_ms = ms\<rparr>"

subsection \<open>The specification\<close>

type_synonym 'b alarms = "('b \<times> nat) list"

definition clock_job :: "'b \<Rightarrow> nat \<Rightarrow> 'b alarms \<Rightarrow> 'b alarms" where
  "clock_job b t A = takeWhile (\<lambda>(_, u). u \<le> t) A @ (b, t) # dropWhile (\<lambda>(_, u). u \<le> t) A"

definition clock_cancel :: "'b \<Rightarrow> 'b alarms \<Rightarrow> 'b alarms" where
  "clock_cancel b A = filter (\<lambda>(c, _). c \<noteq> b) A"

definition clock_rung :: "'b alarms \<Rightarrow> 'b list" where
  "clock_rung A = map fst (takeWhile (\<lambda>(_, t). t = 1) A)"

definition clock_check :: "'b alarms \<Rightarrow> 'b alarms" where
  "clock_check A = map (\<lambda>(b, t). (b, t - 1)) (dropWhile (\<lambda>(_, t). t = 1) A)"

text \<open>\<open>delta_ok m base A\<close>: the \<^verbatim>\<open>ms\<close> members \<open>m\<close> are the differences of the times in \<open>A\<close>, the
  first one counted from \<open>base\<close>.\<close>

fun delta_ok :: "('b \<Rightarrow> u32) \<Rightarrow> nat \<Rightarrow> 'b alarms \<Rightarrow> bool" where
  "delta_ok m base [] \<longleftrightarrow> True"
| "delta_ok m base ((b, t) # A) \<longleftrightarrow>
     base \<le> t \<and> t < 2 ^ 32 \<and> unat (m b) = t - base \<and> delta_ok m t A"

definition br_rep :: "'b bellringer \<Rightarrow> 'b alarms \<Rightarrow> bool" where
  "br_rep s A \<longleftrightarrow> queue_rep (br_list s) (map fst A) \<and> delta_ok (br_ms s) 0 A \<and>
     (\<forall>(b, t) \<in> set A. 0 < t)"

definition last_time :: "nat \<Rightarrow> 'b alarms \<Rightarrow> nat" where
  "last_time base A = (if A = [] then base else snd (last A))"

lemma last_time_simps [simp]:
  "last_time base [] = base" "last_time base ((b, t) # A) = last_time t A"
  by (auto simp: last_time_def)

lemma delta_ok_append: "delta_ok m base (A @ B) \<longleftrightarrow> delta_ok m base A \<and> delta_ok m (last_time base A) B"
  by (induction A arbitrary: base) auto

lemma delta_ok_cong:
  "(\<And>b. b \<in> fst ` set A \<Longrightarrow> m b = m' b) \<Longrightarrow> delta_ok m base A \<longleftrightarrow> delta_ok m' base A"
  by (induction A arbitrary: base) force+

lemma delta_ok_upd [simp]: "b \<notin> fst ` set A \<Longrightarrow> delta_ok (m(b := v)) base A \<longleftrightarrow> delta_ok m base A"
  by (rule delta_ok_cong) auto

lemma delta_ok_lower: "delta_ok m base A \<Longrightarrow> (b, t) \<in> set A \<Longrightarrow> base \<le> t"
proof (induction A arbitrary: base)
  case (Cons a A)
  then show ?case by (cases a) force
qed simp

lemma delta_ok_sorted: "delta_ok m base A \<Longrightarrow> sorted (map snd A)"
proof (induction A arbitrary: base)
  case (Cons a A)
  then show ?case using delta_ok_lower [of m _ A] by (cases a) auto
qed simp

lemma delta_ok_shift:
  "delta_ok m (Suc base) A \<Longrightarrow> delta_ok m base (map (\<lambda>(b, t). (b, t - 1)) A)"
proof (induction A arbitrary: base)
  case (Cons a A)
  obtain b t where [simp]: "a = (b, t)" by (cases a)
  from Cons.prems have "Suc base \<le> t" by simp
  then obtain u where "t = Suc u" by (cases t) auto
  with Cons show ?case by auto
qed simp

lemma delta_ok_hd:
  "A \<noteq> [] \<Longrightarrow> delta_ok m base A \<longleftrightarrow> base \<le> snd (hd A) \<and> snd (hd A) < 2 ^ 32 \<and>
     unat (m (fst (hd A))) = snd (hd A) - base \<and> delta_ok m (snd (hd A)) (tl A)"
  by (cases A) auto

lemma br_rep_new: "br_rep (bellringer_new l ms) []"
  by (simp add: br_rep_def bellringer_new_def queue_rep_new)

lemma br_rep_queue: "br_rep s A \<Longrightarrow> queue_rep (br_list s) (map fst A)"
  by (simp add: br_rep_def)

lemma bell_pending_rep: "br_rep s A \<Longrightarrow> bell_pending s \<longleftrightarrow> A \<noteq> []"
  by (cases A) (auto simp: bell_pending_def queue_first_rep [OF br_rep_queue])

subsection \<open>The simulation\<close>

lemma job_loop_rep:
  assumes "chain (snd (br_list s)) p (map fst A)" "delta_ok (br_ms s) base A"
    and "base \<le> t" "t < 2 ^ 32" "unat ms = t - base"
  defines "pre \<equiv> takeWhile (\<lambda>(_, u). u \<le> t) A"
  shows "\<exists>ms'. unat ms' = t - last_time base pre \<and>
    job_loop prev p ms s =
      Some (if pre = [] then prev else Some (fst (last pre)), ms',
            case dropWhile (\<lambda>(_, u). u \<le> t) A of
              [] \<Rightarrow> s
            | (b, u) # _ \<Rightarrow> s\<lparr>br_ms := (br_ms s)(b := br_ms s b - ms')\<rparr>)"
  using assms(1-5) unfolding pre_def
proof (induction A arbitrary: prev p base ms)
  case Nil
  then show ?case by (subst job_loop.simps) auto
next
  case (Cons a A)
  obtain b u where a [simp]: "a = (b, u)" by (cases a)
  from Cons.prems have p: "p = Some b" and base: "base \<le> u" "u < 2 ^ 32" "unat (br_ms s b) = u - base"
    and tl: "chain (snd (br_list s)) (snd (br_list s) b) (map fst A)" "delta_ok (br_ms s) u A"
    by auto
  have cmp: "ms < br_ms s b \<longleftrightarrow> t < u"
    using Cons.prems(3,5) base by (simp add: word_less_nat_alt) linarith
  show ?case
  proof (cases "t < u")
    case True
    with cmp p Cons.prems show ?thesis by (subst job_loop.simps) auto
  next
    case False
    have "unat (ms - br_ms s b) = t - u"
      using cmp False Cons.prems(3,5) base by (simp add: unat_minus_le)
    with Cons.IH [OF tl, of "ms - br_ms s b" "Some b"] False Cons.prems(4) obtain ms' where
      "unat ms' = t - last_time u (takeWhile (\<lambda>(_, u). u \<le> t) A)"
      "job_loop (Some b) (snd (br_list s) b) (ms - br_ms s b) s =
        Some (if takeWhile (\<lambda>(_, u). u \<le> t) A = [] then Some b
              else Some (fst (last (takeWhile (\<lambda>(_, u). u \<le> t) A))), ms',
            case dropWhile (\<lambda>(_, u). u \<le> t) A of
              [] \<Rightarrow> s
            | (b, u) # _ \<Rightarrow> s\<lparr>br_ms := (br_ms s)(b := br_ms s b - ms')\<rparr>)"
      by auto
    moreover have "job_loop prev p ms s = job_loop (Some b) (snd (br_list s) b) (ms - br_ms s b) s"
      using cmp False p by (subst job_loop.simps) (simp add: queue_next_def)
    ultimately show ?thesis using False by (intro exI [of _ ms']) auto
  qed
qed

lemma takeWhile_time: "a \<in> set (takeWhile (\<lambda>(_, u). u \<le> t) A) \<Longrightarrow> snd a \<le> t"
  by (auto dest: set_takeWhileD)

lemma job_rep:
  assumes rep: "br_rep s A" and fresh: "b \<notin> fst ` set A" and t: "0 < t" "t < 2 ^ 32"
  shows "\<exists>s'. bell_job b (of_nat t) s = Some s' \<and> br_rep s' (clock_job b t A)"
proof -
  define pre where "pre = takeWhile (\<lambda>(_, u). u \<le> t) A"
  define post where "post = dropWhile (\<lambda>(_, u). u \<le> t) A"
  have A: "A = pre @ post" by (simp add: pre_def post_def)
  have dist: "distinct (map fst A)" by (rule queue_rep_distinct [OF br_rep_queue [OF rep]])
  have q: "queue_rep (br_list s) (map fst pre @ map fst post)"
    using br_rep_queue [OF rep] A by simp
  have first: "chain (snd (br_list s)) (queue_first (br_list s)) (map fst A)"
    using q A by (simp add: queue_rep_def queue_first_def)
  have ok: "delta_ok (br_ms s) 0 A" using rep by (simp add: br_rep_def)
  have unat_t: "unat (of_nat t :: u32) = t - 0" using t by (simp add: unat_of_nat_small)
  obtain ms' where ms': "unat ms' = t - last_time 0 pre"
    and loop: "job_loop None (queue_first (br_list s)) (of_nat t) s =
      Some (if pre = [] then None else Some (fst (last pre)), ms',
            case post of [] \<Rightarrow> s | (b, u) # _ \<Rightarrow> s\<lparr>br_ms := (br_ms s)(b := br_ms s b - ms')\<rparr>)"
    using job_loop_rep [OF first ok le0 t(2) unat_t, of None] unfolding pre_def post_def by blast
  define m1 where "m1 = (case post of [] \<Rightarrow> br_ms s | (c, u) # _ \<Rightarrow> (br_ms s)(c := br_ms s c - ms'))"
  define m2 where "m2 = m1(b := ms')"
  define l2 where "l2 = (if pre = [] then insert_first b (br_list s)
                         else insert_after (fst (last pre)) b (br_list s))"
  have job: "bell_job b (of_nat t) s = Some (s\<lparr>br_list := l2, br_ms := m2\<rparr>)"
    unfolding bell_job_def loop
    by (cases post) (auto simp: m1_def m2_def l2_def Let_def)
  have le_t: "last_time 0 pre \<le> t"
    using takeWhile_time [of "last pre" t A] by (auto simp: last_time_def pre_def)
  have fresh': "b \<notin> fst ` set pre" "b \<notin> fst ` set post" using fresh A by auto
  have pre_ok: "delta_ok (br_ms s) 0 pre" and post_ok: "delta_ok (br_ms s) (last_time 0 pre) post"
    using ok A by (auto simp: delta_ok_append)
  have m1_pre: "delta_ok m1 0 pre"
    using pre_ok dist A by (cases post) (auto simp: m1_def)
  have m1_post: "delta_ok m1 t post"
  proof (cases post)
    case (Cons a post')
    obtain c u where [simp]: "a = (c, u)" by (cases a)
    have u: "t < u" using takeWhile_dropWhile_hd [of "\<lambda>(_, u). u \<le> t" A a post'] Cons
      by (simp add: post_def)
    have m: "unat (br_ms s c) = u - last_time 0 pre" "u < 2 ^ 32" "delta_ok (br_ms s) u post'"
      using post_ok Cons by auto
    then have "ms' \<le> br_ms s c" using ms' u by (simp add: word_le_nat_alt)
    then have "unat (br_ms s c - ms') = u - t" using m ms' u le_t by (simp add: unat_minus_le)
    moreover have "c \<notin> fst ` set post'" using dist A Cons by auto
    ultimately show ?thesis using m u Cons by (simp add: m1_def)
  qed simp
  have "delta_ok m2 0 (pre @ (b, t) # post)"
    using m1_pre m1_post fresh' ms' le_t t by (simp add: m2_def delta_ok_append)
  moreover have "queue_rep l2 (map fst (pre @ (b, t) # post))"
  proof (cases pre rule: rev_cases)
    case Nil
    with q fresh' show ?thesis by (auto simp: l2_def intro!: insert_first_rep)
  next
    case (snoc ys y)
    have "queue_rep (br_list s) (map fst ys @ fst y # map fst post)" using q snoc by simp
    from insert_after_rep [OF this, of b] fresh' snoc show ?thesis by (auto simp: l2_def)
  qed
  moreover have "\<forall>(c, u) \<in> set (pre @ (b, t) # post). 0 < u"
    using rep t unfolding br_rep_def A by auto
  ultimately have "br_rep (s\<lparr>br_list := l2, br_ms := m2\<rparr>) (clock_job b t A)"
    by (simp add: br_rep_def clock_job_def pre_def post_def)
  with job show ?thesis by blast
qed

fun ring_all :: "('b \<Rightarrow> 'k \<Rightarrow> 'k option) \<Rightarrow> 'b list \<Rightarrow> 'k \<Rightarrow> 'k option" where
  "ring_all ring [] k = Some k"
| "ring_all ring (b # bs) k = Option.bind (ring b k) (ring_all ring bs)"

lemma cancel_delta:
  assumes q: "queue_rep (br_list s) (map fst (A @ (b, t) # B))"
    and ok: "delta_ok (br_ms s) base (A @ (b, t) # B)"
  shows "\<exists>s'. bell_cancel b s = Some s' \<and> queue_rep (br_list s') (map fst (A @ B)) \<and>
              delta_ok (br_ms s') base (A @ B)"
proof -
  have dist: "distinct (map fst (A @ (b, t) # B))" by (rule queue_rep_distinct [OF q])
  have nxt: "queue_next b (br_list s) = (case map fst B of [] \<Rightarrow> None | c # _ \<Rightarrow> Some c)"
    using q by (intro queue_next_rep [of _ "map fst A"]) simp
  have rm: "remove1 b (map fst (A @ (b, t) # B)) = map fst (A @ B)"
    using dist by (simp add: remove1_append)
  obtain l where l: "remove_eq b (br_list s) = Some (Some b, l)" "queue_rep l (map fst (A @ B))"
    using remove_eq_rep [OF q, of b] rm by auto
  show ?thesis
  proof (cases B)
    case Nil
    with nxt l ok show ?thesis by (simp add: bell_cancel_def delta_ok_append)
  next
    case (Cons a B')
    obtain c u where a [simp]: "a = (c, u)" by (cases a)
    define m where "m = (br_ms s)(c := br_ms s c + br_ms s b)"
    have cA: "c \<notin> fst ` set A" "c \<notin> fst ` set B'" using dist Cons by auto
    have m: "unat (br_ms s b) = t - last_time base A" "unat (br_ms s c) = u - t"
      "last_time base A \<le> t" "t \<le> u" "u < 2 ^ 32"
      using ok Cons by (auto simp: delta_ok_append)
    have "unat (br_ms s c + br_ms s b) = u - last_time base A"
      using m by (simp add: unat_plus_small)
    then have "delta_ok m base (A @ B)"
      using ok Cons cA m by (simp add: m_def delta_ok_append)
    moreover have "bell_cancel b s = Some (s\<lparr>br_ms := m, br_list := l\<rparr>)"
      using nxt l Cons by (simp add: bell_cancel_def m_def)
    ultimately show ?thesis using l by simp
  qed
qed

lemma clock_cancel_split:
  "distinct (map fst (A @ (b, t) # B)) \<Longrightarrow> clock_cancel b (A @ (b, t) # B) = A @ B"
proof -
  assume "distinct (map fst (A @ (b, t) # B))"
  then have "\<forall>x \<in> set A. (\<lambda>(c, _). c \<noteq> b) x" "\<forall>x \<in> set B. (\<lambda>(c, _). c \<noteq> b) x" by force+
  then show ?thesis unfolding clock_cancel_def by simp
qed

lemma cancel_rep:
  assumes rep: "br_rep s A" and b: "b \<in> fst ` set A"
  shows "\<exists>s'. bell_cancel b s = Some s' \<and> br_rep s' (clock_cancel b A)"
proof -
  from b obtain t where "(b, t) \<in> set A" by auto
  then obtain A1 A2 where A: "A = A1 @ (b, t) # A2" by (auto dest: split_list)
  have "clock_cancel b A = A1 @ A2"
    unfolding A using queue_rep_distinct [OF br_rep_queue [OF rep]]
    by (intro clock_cancel_split) (simp add: A)
  with cancel_delta [of s A1 b t A2 0] rep show ?thesis
    unfolding br_rep_def A by auto
qed

lemma check_loop_rep:
  assumes "queue_rep (br_list s) (map fst A)" "delta_ok (br_ms s) 1 A" "A = (b, 1) # A'"
  shows "\<exists>s'. (\<forall>k. check_loop ring b s k = map_option (Pair s') (ring_all ring (clock_rung A) k)) \<and>
              queue_rep (br_list s') (map fst (dropWhile (\<lambda>(_, t). t = 1) A)) \<and>
              delta_ok (br_ms s') 1 (dropWhile (\<lambda>(_, t). t = 1) A)"
  using assms
proof (induction A arbitrary: s b A')
  case (Cons a A)
  then have a: "a = (b, 1)" "A' = A" by auto
  obtain s1 where s1: "bell_cancel b s = Some s1" "queue_rep (br_list s1) (map fst A)"
      "delta_ok (br_ms s1) 1 A"
    using cancel_delta [of s "[]" b 1 A 1] Cons.prems a by auto
  show ?case
  proof (cases A)
    case Nil
    have "check_loop ring b s k = map_option (Pair s1) (ring b k)" for k
      using s1 Nil by (subst check_loop.simps) (cases "ring b k"; simp add: queue_first_rep)
    moreover have "Option.bind (ring b k) (ring_all ring []) = ring b k" for k
      by (cases "ring b k"; simp)
    ultimately show ?thesis using s1 Nil a by (intro exI [of _ s1]) (simp add: clock_rung_def)
  next
    case (Cons c A2)
    obtain d u where c [simp]: "c = (d, u)" by (cases c)
    have f: "queue_first (br_list s1) = Some d" using s1(2) Cons by (simp add: queue_first_rep)
    have u: "1 \<le> u" "unat (br_ms s1 d) = u - 1" using s1(3) Cons by auto
    then have z: "br_ms s1 d = 0 \<longleftrightarrow> u = 1" by (simp add: unat_eq_zero [symmetric])
    show ?thesis
    proof (cases "u = 1")
      case True
      have "A = (d, 1) # A2" using Cons True by simp
      from Cons.IH [OF s1(2,3) this] obtain s' where s':
        "\<And>k. check_loop ring d s1 k = map_option (Pair s') (ring_all ring (clock_rung A) k)"
        "queue_rep (br_list s') (map fst (dropWhile (\<lambda>(_, t). t = 1) A))"
        "delta_ok (br_ms s') 1 (dropWhile (\<lambda>(_, t). t = 1) A)" by auto
      have "check_loop ring b s k = map_option (Pair s') (ring_all ring (b # clock_rung A) k)" for k
        using s1 f z True s'(1) by (subst check_loop.simps) (cases "ring b k"; simp)
      with s' a show ?thesis by (intro exI [of _ s']) (simp add: clock_rung_def)
    next
      case False
      have "check_loop ring b s k = map_option (Pair s1) (ring b k)" for k
        using s1 f z False by (subst check_loop.simps) (cases "ring b k"; simp)
      moreover have "Option.bind (ring b k) (ring_all ring []) = ring b k" for k
        by (cases "ring b k"; simp)
      ultimately show ?thesis using s1 Cons a False
        by (intro exI [of _ s1]) (simp add: clock_rung_def)
    qed
  qed
qed simp

lemma check_rep:
  assumes rep: "br_rep s A"
  shows "\<exists>s'. (\<forall>k. bell_check ring s k = map_option (Pair s') (ring_all ring (clock_rung A) k)) \<and>
              br_rep s' (clock_check A)"
proof (cases A)
  case Nil
  with rep show ?thesis
    by (intro exI [of _ s])
      (simp add: bell_check_def queue_first_rep [OF br_rep_queue [OF rep]] clock_rung_def clock_check_def)
next
  case (Cons a A')
  obtain b t where a [simp]: "a = (b, t)" by (cases a)
  define s1 where "s1 = s\<lparr>br_ms := (br_ms s)(b := br_ms s b - 1)\<rparr>"
  have q: "queue_rep (br_list s1) (map fst A)" using br_rep_queue [OF rep] by (simp add: s1_def)
  have t: "0 < t" "t < 2 ^ 32" "unat (br_ms s b) = t" "delta_ok (br_ms s) t A'"
    and pos: "\<forall>(c, u) \<in> set A. 0 < u"
    using rep Cons by (auto simp: br_rep_def)
  have "1 \<le> br_ms s b" using t by (simp add: word_le_nat_alt)
  then have m: "unat (br_ms s b - 1) = t - 1" using t by (simp add: unat_minus_le)
  have z: "br_ms s b - 1 = 0 \<longleftrightarrow> t = 1" using m t by (simp add: unat_eq_zero [symmetric]) linarith
  have "b \<notin> fst ` set A'" using queue_rep_distinct [OF q] Cons by simp
  with t m have ok: "delta_ok (br_ms s1) 1 A" using Cons by (simp add: s1_def)
  have first: "queue_first (br_list s) = Some b"
    using Cons by (simp add: queue_first_rep [OF br_rep_queue [OF rep]])
  have lift: "br_rep s' (clock_check A)"
    if "queue_rep (br_list s') (map fst (dropWhile (\<lambda>(_, t). t = 1) A))"
      "delta_ok (br_ms s') 1 (dropWhile (\<lambda>(_, t). t = 1) A)" for s'
  proof -
    let ?D = "dropWhile (\<lambda>(_, t). t = 1) A"
    have "1 < u" if cu: "(c, u) \<in> set ?D" for c u
    proof (cases ?D)
      case (Cons e E)
      have "snd e \<noteq> 1" using takeWhile_dropWhile_hd [OF Cons] by auto
      moreover have "0 < snd e" using pos set_dropWhileD [of e "\<lambda>(_, t). t = 1" A] Cons by auto
      moreover have "sorted (map snd ?D)" using that delta_ok_sorted \<open>delta_ok (br_ms s') 1 ?D\<close> by blast
      ultimately show ?thesis using cu Cons by auto
    next
      case Nil
      with cu show ?thesis by (simp only: list.set empty_iff)
    qed
    then have "\<forall>(c, u) \<in> set (clock_check A). 0 < u" by (force simp: clock_check_def)
    moreover have "delta_ok (br_ms s') 0 (clock_check A)"
      unfolding clock_check_def using that by (intro delta_ok_shift) simp
    moreover have "map fst (clock_check A) = map fst ?D"
      by (simp add: clock_check_def case_prod_unfold)
    ultimately show ?thesis using that by (simp add: br_rep_def)
  qed
  show ?thesis
  proof (cases "t = 1")
    case True
    have "bell_check ring s k = check_loop ring b s1 k" for k
      using first z True by (simp add: bell_check_def s1_def Let_def)
    moreover have "A = (b, 1) # A'" using Cons True by simp
    ultimately show ?thesis using check_loop_rep [OF q ok, of b A' ring] lift by auto
  next
    case False
    have "bell_check ring s k = Some (s1, k)" for k
      using first z False by (simp add: bell_check_def s1_def Let_def)
    then show ?thesis using lift [of s1] q ok Cons False
      by (intro exI [of _ s1]) (simp add: clock_rung_def)
  qed
qed

subsection \<open>The contract of the clients\<close>

text \<open>The log of a clock: the number of ticks so far and the bells rung, each with its tick.\<close>

type_synonym 'b ring_log = "nat \<times> (nat \<times> 'b) list"

definition log_ring :: "'b \<Rightarrow> 'b ring_log \<Rightarrow> 'b ring_log option" where
  "log_ring b k = Some (fst k, snd k @ [(fst k, b)])"

fun run_ticks ::
  "('s \<Rightarrow> 'b ring_log \<Rightarrow> ('s \<times> 'b ring_log) option) \<Rightarrow> nat \<Rightarrow> 's \<Rightarrow> 'b ring_log \<Rightarrow> ('s \<times> 'b ring_log) option"
where
  "run_ticks chk 0 s k = Some (s, k)"
| "run_ticks chk (Suc n) s k =
     Option.bind (chk s (Suc (fst k), snd k)) (\<lambda>(s, k). run_ticks chk n s k)"

lemma ring_all_log: "ring_all log_ring bs (n, log) = Some (n, log @ map (Pair n) bs)"
  by (induction bs arbitrary: log) (simp_all add: log_ring_def)

definition due :: "nat \<Rightarrow> nat \<Rightarrow> 'b alarms \<Rightarrow> (nat \<times> 'b) list" where
  "due now n A = map (\<lambda>(b, t). (now + t, b)) (takeWhile (\<lambda>(_, t). t \<le> n) A)"

lemma due_decrement:
  "\<forall>(b, t) \<in> set A. 0 < t \<Longrightarrow> due (Suc now) n (map (\<lambda>(b, t). (b, t - 1)) A) = due now (Suc n) A"
  by (induction A) (auto simp: due_def)

lemma later_decrement:
  "\<forall>(b, t) \<in> set A. 0 < t \<Longrightarrow>
     map (\<lambda>(b, t). (b, t - n)) (dropWhile (\<lambda>(_, t). t \<le> n) (map (\<lambda>(b, t). (b, t - 1)) A)) =
     map (\<lambda>(b, t). (b, t - Suc n)) (dropWhile (\<lambda>(_, t). t \<le> Suc n) A)"
  by (induction A) auto

lemma clock_step_Cons:
  "clock_rung ((b, t) # A) = (if t = 1 then b # clock_rung A else [])"
  "clock_check ((b, t) # A) = (if t = 1 then clock_check A else map (\<lambda>(b, t). (b, t - 1)) ((b, t) # A))"
  by (simp_all add: clock_rung_def clock_check_def)

lemma due_Suc:
  assumes "\<forall>(b, t) \<in> set A. 0 < t"
  shows "due now (Suc n) A = map (Pair (Suc now)) (clock_rung A) @ due (Suc now) n (clock_check A)"
  using assms
proof (induction A)
  case (Cons a A)
  obtain b t where [simp]: "a = (b, t)" by (cases a)
  show ?case
  proof (cases "t = 1")
    case True
    with Cons show ?thesis by (simp add: clock_step_Cons) (simp add: due_def)
  next
    case False
    with due_decrement [OF Cons.prems, of now n] show ?thesis by (simp add: clock_step_Cons)
  qed
qed (simp add: due_def clock_rung_def clock_check_def)

lemma clock_check_later:
  assumes "\<forall>(b, t) \<in> set A. 0 < t"
  shows "map (\<lambda>(b, t). (b, t - n)) (dropWhile (\<lambda>(_, t). t \<le> n) (clock_check A)) =
         map (\<lambda>(b, t). (b, t - Suc n)) (dropWhile (\<lambda>(_, t). t \<le> Suc n) A)"
  using assms
proof (induction A)
  case (Cons a A)
  obtain b t where [simp]: "a = (b, t)" by (cases a)
  show ?case
  proof (cases "t = 1")
    case True
    with Cons show ?thesis by (simp add: clock_step_Cons)
  next
    case False
    with later_decrement [OF Cons.prems, of n] show ?thesis by (simp add: clock_step_Cons)
  qed
qed (simp add: clock_check_def)

locale alarm_clock =
  fixes job :: "'b \<Rightarrow> u32 \<Rightarrow> 's \<Rightarrow> 's option"
    and cancel :: "'b \<Rightarrow> 's \<Rightarrow> 's option"
    and check :: "('b \<Rightarrow> 'b ring_log \<Rightarrow> 'b ring_log option) \<Rightarrow> 's \<Rightarrow> 'b ring_log \<Rightarrow> ('s \<times> 'b ring_log) option"
    and rep :: "'s \<Rightarrow> 'b alarms \<Rightarrow> bool"
  assumes rep_sorted: "rep s A \<Longrightarrow> sorted (map snd A)"
    and rep_pos: "rep s A \<Longrightarrow> \<forall>(b, t) \<in> set A. 0 < t"
    and job_law: "rep s A \<Longrightarrow> b \<notin> fst ` set A \<Longrightarrow> 0 < t \<Longrightarrow> t < 2 ^ 32 \<Longrightarrow>
      \<exists>s'. job b (of_nat t) s = Some s' \<and> rep s' (clock_job b t A)"
    and cancel_law: "rep s A \<Longrightarrow> b \<in> fst ` set A \<Longrightarrow>
      \<exists>s'. cancel b s = Some s' \<and> rep s' (clock_cancel b A)"
    and check_law: "rep s A \<Longrightarrow>
      \<exists>s'. (\<forall>k. check ring s k = map_option (Pair s') (ring_all ring (clock_rung A) k)) \<and>
           rep s' (clock_check A)"
begin

lemma ticks:
  "rep s A \<Longrightarrow> \<exists>s'. run_ticks (check log_ring) n s (now, log) = Some (s', now + n, log @ due now n A) \<and>
     rep s' (map (\<lambda>(b, t). (b, t - n)) (dropWhile (\<lambda>(_, t). t \<le> n) A))"
proof (induction n arbitrary: s A now log)
  case 0
  have "takeWhile (\<lambda>(_, t). t = 0) A = [] \<and> dropWhile (\<lambda>(_, t). t = 0) A = A"
    using rep_pos [OF 0] by (cases A) auto
  then have "due now 0 A = []" "map (\<lambda>(b, t). (b, t - 0)) (dropWhile (\<lambda>(_, t). t \<le> 0) A) = A"
    by (simp_all add: due_def)
  with 0 show ?case by auto
next
  case (Suc n)
  obtain s1 where s1: "\<And>k. check log_ring s k = map_option (Pair s1) (ring_all log_ring (clock_rung A) k)"
      "rep s1 (clock_check A)"
    using check_law [OF Suc.prems, of log_ring] by blast
  have "run_ticks (check log_ring) (Suc n) s (now, log) =
      run_ticks (check log_ring) n s1 (Suc now, log @ map (Pair (Suc now)) (clock_rung A))"
    by (simp add: s1(1) ring_all_log)
  with Suc.IH [OF s1(2), of "Suc now" "log @ map (Pair (Suc now)) (clock_rung A)"]
  show ?case
    using due_Suc [OF rep_pos [OF Suc.prems]] clock_check_later [OF rep_pos [OF Suc.prems]] by simp
qed

lemma job_then_ticks:
  assumes "rep s A" "b \<notin> fst ` set A" "0 < t" "t < 2 ^ 32"
  shows "\<exists>s1 s2. job b (of_nat t) s = Some s1 \<and>
    run_ticks (check log_ring) n s1 (0, []) = Some (s2, n, due 0 n (clock_job b t A))"
proof -
  obtain s1 where "job b (of_nat t) s = Some s1" "rep s1 (clock_job b t A)"
    using job_law [OF assms] by blast
  with ticks [of s1 _ n 0 "[]"] show ?thesis by force
qed

lemma cancel_then_ticks:
  assumes "rep s A" "b \<in> fst ` set A"
  shows "\<exists>s1 s2. cancel b s = Some s1 \<and>
    run_ticks (check log_ring) n s1 (0, []) = Some (s2, n, due 0 n (clock_cancel b A))"
proof -
  obtain s1 where "cancel b s = Some s1" "rep s1 (clock_cancel b A)"
    using cancel_law [OF assms] by blast
  with ticks [of s1 _ n 0 "[]"] show ?thesis by force
qed

end

interpretation clk: alarm_clock bell_job bell_cancel bell_check br_rep
proof unfold_locales
  show "br_rep s A \<Longrightarrow> sorted (map snd A)" for s :: "'b bellringer" and A
    by (auto simp: br_rep_def intro: delta_ok_sorted)
  show "br_rep s A \<Longrightarrow> \<forall>(b, t) \<in> set A. 0 < t" for s :: "'b bellringer" and A
    by (simp add: br_rep_def)
  show "br_rep s A \<Longrightarrow> b \<notin> fst ` set A \<Longrightarrow> 0 < t \<Longrightarrow> t < 2 ^ 32 \<Longrightarrow>
      \<exists>s'. bell_job b (of_nat t) s = Some s' \<and> br_rep s' (clock_job b t A)"
    for s :: "'b bellringer" and A b t by (rule job_rep)
  show "br_rep s A \<Longrightarrow> b \<in> fst ` set A \<Longrightarrow>
      \<exists>s'. bell_cancel b s = Some s' \<and> br_rep s' (clock_cancel b A)"
    for s :: "'b bellringer" and A b by (rule cancel_rep)
  show "br_rep s A \<Longrightarrow>
      \<exists>s'. (\<forall>k. bell_check ring s k = map_option (Pair s') (ring_all ring (clock_rung A) k)) \<and>
           br_rep s' (clock_check A)"
    for s :: "'b bellringer" and A ring by (rule check_rep)
qed

lemma set_clock_job: "set (clock_job b t A) = insert (b, t) (set A)"
  unfolding clock_job_def
  by (metis Un_insert_right list.simps(15) set_append takeWhile_dropWhile_id)

lemma sorted_clock_job: "sorted (map snd A) \<Longrightarrow> sorted (map snd (clock_job b t A))"
  by (induction A) (auto simp: clock_job_def dest: set_takeWhileD set_dropWhileD)

lemma due_set:
  "sorted (map snd A) \<Longrightarrow> (k, b) \<in> set (due 0 n A) \<longleftrightarrow> k \<le> n \<and> (b, k) \<in> set A"
proof (induction A)
  case (Cons a A)
  obtain c t where [simp]: "a = (c, t)" by (cases a)
  show ?case
  proof (cases "t \<le> n")
    case True
    then have "due 0 n (a # A) = (t, c) # due 0 n A" by (simp add: due_def)
    with Cons True show ?thesis by auto
  next
    case False
    then have "due 0 n (a # A) = []" by (simp add: due_def)
    with Cons.prems False show ?thesis by auto
  qed
qed (simp add: due_def)

subsection \<open>Properties\<close>

text \<open>Property C6. A bell that is set for \<open>t\<close> milliseconds rings at the \<open>t\<close>-th call of
  \<^verbatim>\<open>check\<close>, not earlier and not later, and setting it does not move the other bells: the
  bells rung in \<open>n\<close> calls are exactly those whose time is at most \<open>n\<close>, each in its own tick
  and in the order of their times.\<close>

theorem bell_rings_on_time:
  assumes "br_rep s A" "b \<notin> fst ` set A" "0 < t" "t < 2 ^ 32"
  shows "\<exists>s1 s2 log. bell_job b (of_nat t) s = Some s1 \<and>
    run_ticks (bell_check log_ring) n s1 (0, []) = Some (s2, n, log) \<and>
    (\<forall>k c. (k, c) \<in> set log \<longleftrightarrow> k \<le> n \<and> ((c, k) = (b, t) \<or> (c, k) \<in> set A)) \<and>
    sorted (map fst log)"
proof -
  have srt: "sorted (map snd (clock_job b t A))"
    using clk.rep_sorted [OF assms(1)] by (rule sorted_clock_job)
  then have "sorted (map fst (due 0 n (clock_job b t A)))"
    by (simp add: due_def case_prod_unfold comp_def sorted_takeWhile takeWhile_map
        sorted_wrt_map sorted_wrt_takeWhile sorted_map)
  with clk.job_then_ticks [OF assms, of n] show ?thesis
    by (metis due_set [OF srt] insert_iff set_clock_job)
qed

theorem bell_rings_on_time_witness:
  "\<exists>s1 s2 log. bell_job 7 2 (bellringer_new Map.empty (\<lambda>_. 0 :: u32)) = Some s1 \<and>
    run_ticks (bell_check log_ring) 3 s1 (0, []) = Some (s2, 3, log) \<and>
    (\<forall>k c. (k, c) \<in> set log \<longleftrightarrow> k \<le> 3 \<and> ((c, k) = (7 :: nat, 2) \<or> (c, k) \<in> set [])) \<and>
    sorted (map fst log)"
  using bell_rings_on_time [OF br_rep_new, where b = "7 :: nat" and t = 2 and n = 3] by simp

text \<open>Property C7. Cancelling a pending bell takes exactly that bell out: the others still
  ring at their own time (the delta of the cancelled bell goes to its successor).\<close>

theorem bell_cancel_keeps_others:
  assumes "br_rep s A" "b \<in> fst ` set A"
  shows "\<exists>s1 s2 log. bell_cancel b s = Some s1 \<and>
    run_ticks (bell_check log_ring) n s1 (0, []) = Some (s2, n, log) \<and>
    (\<forall>k c. (k, c) \<in> set log \<longleftrightarrow> k \<le> n \<and> (c, k) \<in> set A \<and> c \<noteq> b)"
proof -
  have srt: "sorted (map snd (clock_cancel b A))"
    using clk.rep_sorted [OF assms(1)] unfolding clock_cancel_def by (rule sorted_filter)
  have "(k, c) \<in> set (due 0 n (clock_cancel b A)) \<longleftrightarrow> k \<le> n \<and> (c, k) \<in> set A \<and> c \<noteq> b" for k c
    unfolding due_set [OF srt] by (auto simp: clock_cancel_def)
  with clk.cancel_then_ticks [OF assms, of n] show ?thesis by metis
qed

theorem bell_cancel_keeps_others_witness:
  "\<exists>s0 s1 s2 log. bell_job 7 2 (bellringer_new Map.empty (\<lambda>_. 0 :: u32)) = Some s0 \<and>
    bell_cancel 7 s0 = Some s1 \<and>
    run_ticks (bell_check log_ring) 3 s1 (0, []) = Some (s2, 3, log) \<and>
    (\<forall>k c. (k, c) \<in> set log \<longleftrightarrow> k \<le> 3 \<and> (c, k) \<in> set [(7 :: nat, 2)] \<and> c \<noteq> 7)"
proof -
  obtain s0 where "bell_job (7 :: nat) (of_nat 2) (bellringer_new Map.empty (\<lambda>_. 0 :: u32)) = Some s0"
      "br_rep s0 (clock_job 7 2 [])"
    using job_rep [OF br_rep_new, of "7 :: nat" 2 Map.empty "\<lambda>_. 0"] by auto
  with bell_cancel_keeps_others [of s0 "[(7, 2)]" 7 3] show ?thesis
    by (simp add: clock_job_def)
qed

end
