(* ===== verification/Kernel.thy ===== *)
theory Kernel
  imports QueueSet Bellringer
begin

section \<open>thread/, meeting/, user/mutex, user/status: threads and what they wait for\<close>

text \<open>
  The state \<open>kstate\<close> collects the members of the global \<^verbatim>\<open>scheduler\<close>, \<^verbatim>\<open>bellringer\<close> and
  \<^verbatim>\<open>status\<close> objects, of the \<^verbatim>\<open>Thread\<close> objects and of the waiting rooms. Threads and waiting
  rooms are identified by numbers (their addresses). Semaphores, mutexes and bells are
  waiting rooms; a mutex or bell is identified with its room. The ready list and all
  waiting rooms share the threads' link member, so they form one \<open>QueueSet\<close>, as do the lists
  of held mutexes. Every operation has the number of the executing CPU
  (\<^verbatim>\<open>system.getCPUID()\<close>) as an argument.

  The operations run under the guard of theory \<open>Guard\<close>, so each is one atomic step. A
  context switch is the update of \<open>k_life\<close>: the code behind \<^verbatim>\<open>dispatch\<close> belongs to the next
  thread. Where code follows a blocking call (\<^verbatim>\<open>Mutex::lock\<close> after \<^verbatim>\<open>p\<close>), \<open>k_resume\<close> of the
  thread, its saved program counter, says so, and the rest is an operation of its own.
  A \<^verbatim>\<open>Bell\<close> is a local variable of \<^verbatim>\<open>Bell::sleep\<close>, so it lies on the stack of the thread that sleeps:
  \<open>k_bell_on\<close> is that thread and \<open>k_lost\<close> says that the stack has been freed since.
  \<open>None\<close> is the result of a null pointer dereference, a destructor run twice, an access to a bell
  in freed memory or a signed overflow; \<open>k_ipi\<close> records the interprocessor interrupts sent.
\<close>

subsection \<open>State\<close>

type_synonym tid = nat
type_synonym room = nat

definition CPU_MAX :: nat where
  "CPU_MAX = 8"

datatype tq = ReadyList | Room room
datatype ipi_vector = IpiWakeup | IpiAssassin

record kstate =
  k_queues :: "(tq, tid) mqueues"
  k_waiting :: "tid \<Rightarrow> room option"
  k_killed :: "tid \<Rightarrow> bool"
  k_stack :: "tid \<Rightarrow> bool"
  k_gone :: "tid \<Rightarrow> bool"
  k_resume :: "tid \<Rightarrow> room option"
  k_mutexes :: "(tid, room) mqueues"
  k_owner :: "room \<Rightarrow> tid option"
  k_counter :: "room \<Rightarrow> u32"
  k_life :: "nat \<Rightarrow> tid option"
  k_idle :: "nat \<Rightarrow> tid option"
  k_bells :: "room bellringer"
  k_online :: nat
  k_lapic :: "u8 \<Rightarrow> u8"
  k_ipi :: "(u8 \<times> ipi_vector) list"
  k_cpu_idle :: "nat \<Rightarrow> bool"
  k_threads :: u32
  k_bell_on :: "room \<Rightarrow> tid option"
  k_lost :: "room \<Rightarrow> bool"

subsection \<open>user/status\<close>

definition set_idle :: "nat \<Rightarrow> bool \<Rightarrow> kstate \<Rightarrow> kstate" where
  "set_idle cpu b s = s\<lparr>k_cpu_idle := (k_cpu_idle s)(cpu := b)\<rparr>"

definition thread_inc :: "kstate \<Rightarrow> kstate" where
  "thread_inc s = s\<lparr>k_threads := k_threads s + 1\<rparr>"

definition thread_dec :: "kstate \<Rightarrow> kstate" where
  "thread_dec s = s\<lparr>k_threads := k_threads s - 1\<rparr>"

subsection \<open>thread/dispatcher\<close>

definition active :: "nat \<Rightarrow> kstate \<Rightarrow> tid option" where
  "active cpu s = k_life s cpu"

definition set_active :: "nat \<Rightarrow> tid option \<Rightarrow> kstate \<Rightarrow> kstate" where
  "set_active cpu c s = s\<lparr>k_life := (k_life s)(cpu := c)\<rparr>"

definition dispatcher_go :: "nat \<Rightarrow> tid option \<Rightarrow> kstate \<Rightarrow> kstate option" where
  "dispatcher_go cpu first s = (if first = None then None else Some (set_active cpu first s))"

definition dispatch :: "nat \<Rightarrow> tid option \<Rightarrow> kstate \<Rightarrow> kstate option" where
  "dispatch cpu next s =
     (if active cpu s = None \<or> next = None then None else Some (set_active cpu next s))"

subsection \<open>The members of a thread\<close>

definition thread_new :: "tid \<Rightarrow> bool \<Rightarrow> kstate \<Rightarrow> kstate" where
  "thread_new t own_stack s = s\<lparr>
     k_queues := (fst (k_queues s), (snd (k_queues s))(t := None)),
     k_waiting := (k_waiting s)(t := None),
     k_killed := (k_killed s)(t := False),
     k_stack := (k_stack s)(t := own_stack),
     k_gone := (k_gone s)(t := False),
     k_resume := (k_resume s)(t := None),
     k_mutexes := ((fst (k_mutexes s))(t := queue_new), snd (k_mutexes s))\<rparr>"

definition set_waiting :: "tid \<Rightarrow> room option \<Rightarrow> kstate \<Rightarrow> kstate" where
  "set_waiting t w s = s\<lparr>k_waiting := (k_waiting s)(t := w)\<rparr>"

definition set_kill_flag :: "tid \<Rightarrow> kstate \<Rightarrow> kstate" where
  "set_kill_flag t s = s\<lparr>k_killed := (k_killed s)(t := True)\<rparr>"

definition reset_kill_flag :: "tid \<Rightarrow> kstate \<Rightarrow> kstate" where
  "reset_kill_flag t s = s\<lparr>k_killed := (k_killed s)(t := False)\<rparr>"

definition mutex_hold :: "tid \<Rightarrow> room \<Rightarrow> kstate \<Rightarrow> kstate" where
  "mutex_hold t m s = s\<lparr>k_mutexes := on_queue t (enqueue m) (k_mutexes s)\<rparr>"

definition mutex_release :: "tid \<Rightarrow> room \<Rightarrow> kstate \<Rightarrow> (bool \<times> kstate) option" where
  "mutex_release t m s =
     map_option (\<lambda>(r, q). (r \<noteq> None, s\<lparr>k_mutexes := q\<rparr>)) (mq_remove t m (k_mutexes s))"

subsection \<open>The ready list and waking up\<close>

definition is_empty :: "kstate \<Rightarrow> bool" where
  "is_empty s \<longleftrightarrow> mq_first ReadyList (k_queues s) = None"

definition next_thread :: "nat \<Rightarrow> kstate \<Rightarrow> tid option \<times> kstate" where
  "next_thread cpu s =
     (if is_empty s then (k_idle s cpu, s)
      else let (t, q) = mq_dequeue ReadyList (k_queues s) in (t, s\<lparr>k_queues := q\<rparr>))"

definition dispatch_next :: "nat \<Rightarrow> kstate \<Rightarrow> kstate option" where
  "dispatch_next cpu s = (let (t, s) = next_thread cpu s in dispatch cpu t s)"

definition schedule :: "nat \<Rightarrow> kstate \<Rightarrow> kstate option" where
  "schedule cpu s = (let (t, s) = next_thread cpu s in dispatcher_go cpu t s)"

definition send_ipi :: "u8 \<Rightarrow> ipi_vector \<Rightarrow> kstate \<Rightarrow> kstate" where
  "send_ipi dest v s = s\<lparr>k_ipi := k_ipi s @ [(dest, v)]\<rparr>"

definition ready_enqueue :: "tid \<Rightarrow> kstate \<Rightarrow> kstate" where
  "ready_enqueue t s = s\<lparr>k_queues := on_queue ReadyList (enqueue t) (k_queues s)\<rparr>"

definition ready :: "tid \<Rightarrow> kstate \<Rightarrow> kstate" where
  "ready that s =
     send_ipi (of_nat (2 ^ k_online s - 1)) IpiWakeup (ready_enqueue that s)"

text \<open>\<^verbatim>\<open>Waitingroom::remove\<close>, then \<^verbatim>\<open>Scheduler::wakeup\<close>.\<close>

definition room_remove :: "room \<Rightarrow> tid \<Rightarrow> kstate \<Rightarrow> kstate option" where
  "room_remove r t s = map_option (\<lambda>(_, q). s\<lparr>k_queues := q\<rparr>) (mq_remove (Room r) t (k_queues s))"

definition wakeup :: "tid \<Rightarrow> kstate \<Rightarrow> kstate option" where
  "wakeup customer s =
     Option.bind (k_waiting s customer) (\<lambda>w.
     Option.bind (room_remove w customer s) (\<lambda>s.
       Some (ready customer (set_waiting customer None s))))"

definition block :: "nat \<Rightarrow> room \<Rightarrow> kstate \<Rightarrow> kstate option" where
  "block cpu w s =
     Option.bind (active cpu s) (\<lambda>t.
       dispatch_next cpu
         (set_waiting t (Some w) (s\<lparr>k_queues := on_queue (Room w) (enqueue t) (k_queues s)\<rparr>)))"

subsection \<open>meeting/semaphore, user/mutex\<close>

definition INT_MAX :: int where
  "INT_MAX = 2147483647"

text \<open>The first component of \<open>p\<close> and of \<open>mutex_lock\<close> says whether the caller was blocked.\<close>

definition semaphore_p :: "nat \<Rightarrow> room \<Rightarrow> kstate \<Rightarrow> (bool \<times> kstate) option" where
  "semaphore_p cpu r s =
     (if 0 < sint (k_counter s r)
      then Some (False, s\<lparr>k_counter := (k_counter s)(r := k_counter s r - 1)\<rparr>)
      else map_option (Pair True) (block cpu r s))"

definition semaphore_v :: "room \<Rightarrow> kstate \<Rightarrow> kstate option" where
  "semaphore_v r s =
     (let (t, q) = mq_dequeue (Room r) (k_queues s); s = s\<lparr>k_queues := q\<rparr>
      in case t of
           Some t \<Rightarrow> wakeup t s
         | None \<Rightarrow> if sint (k_counter s r) = INT_MAX then None
                    else Some (s\<lparr>k_counter := (k_counter s)(r := k_counter s r + 1)\<rparr>))"

definition mutex_acquire :: "nat \<Rightarrow> room \<Rightarrow> kstate \<Rightarrow> kstate option" where
  "mutex_acquire cpu m s =
     Option.bind (active cpu s) (\<lambda>t.
       Some (mutex_hold t m (s\<lparr>k_owner := (k_owner s)(m := Some t), k_resume := (k_resume s)(t := None)\<rparr>)))"

definition mutex_lock :: "nat \<Rightarrow> room \<Rightarrow> kstate \<Rightarrow> (bool \<times> kstate) option" where
  "mutex_lock cpu m s =
     Option.bind (active cpu s) (\<lambda>t.
     Option.bind (semaphore_p cpu m (s\<lparr>k_resume := (k_resume s)(t := Some m)\<rparr>)) (\<lambda>(blocked, s).
       if blocked then Some (True, s)
       else map_option (Pair False) (mutex_acquire cpu m s)))"

definition mutex_unlock :: "room \<Rightarrow> kstate \<Rightarrow> (bool \<times> kstate) option" where
  "mutex_unlock m s =
     Option.bind (k_owner s m) (\<lambda>t.
     Option.bind (mutex_release t m s) (\<lambda>(ret, s).
       map_option (Pair ret) (semaphore_v m (s\<lparr>k_owner := (k_owner s)(m := None)\<rparr>))))"

text \<open>The loop over the held mutexes reads the link of a mutex after it was unlocked.\<close>

partial_function (option) release_loop :: "room option \<Rightarrow> bool \<Rightarrow> kstate \<Rightarrow> (bool \<times> kstate) option" where
  "release_loop current ret s =
     (case current of
        None \<Rightarrow> Some (ret, s)
      | Some m \<Rightarrow> Option.bind (mutex_unlock m s) (\<lambda>(r, s).
                    release_loop (snd (k_mutexes s) m) (ret \<and> r) s))"

definition mutex_release_all :: "tid \<Rightarrow> kstate \<Rightarrow> (bool \<times> kstate) option" where
  "mutex_release_all t s = release_loop (mq_first t (k_mutexes s)) True s"

text \<open>\<^verbatim>\<open>delete[] stack\<close> frees the bells on the stack.\<close>

definition delete_stack :: "tid \<Rightarrow> kstate \<Rightarrow> kstate" where
  "delete_stack t s = s\<lparr>k_stack := (k_stack s)(t := False),
     k_lost := (\<lambda>b. k_lost s b \<or> (k_stack s t \<and> k_bell_on s b = Some t))\<rparr>"

definition thread_destruct :: "tid \<Rightarrow> kstate \<Rightarrow> kstate option" where
  "thread_destruct t s =
     (if k_gone s t then None
      else map_option snd (mutex_release_all t (delete_stack t (s\<lparr>k_gone := (k_gone s)(t := True)\<rparr>))))"

subsection \<open>thread/scheduler, thread/assassin\<close>

definition sched_exit :: "nat \<Rightarrow> kstate \<Rightarrow> kstate option" where
  "sched_exit cpu s =
     Option.bind (active cpu s) (\<lambda>t. Option.bind (thread_destruct t s) (dispatch_next cpu))"

definition executing_cpu :: "tid \<Rightarrow> kstate \<Rightarrow> nat option" where
  "executing_cpu t s = find (\<lambda>i. k_life s i = Some t) [0..<CPU_MAX]"

definition sched_kill :: "nat \<Rightarrow> tid \<Rightarrow> kstate \<Rightarrow> kstate option" where
  "sched_kill cpu that s =
     Option.bind (mq_remove ReadyList that (k_queues s)) (\<lambda>(r, q).
       let s = s\<lparr>k_queues := q\<rparr> in
       if r \<noteq> None then thread_destruct that s
       else case k_waiting s that of
              Some w \<Rightarrow> Option.bind (room_remove w that s) (thread_destruct that)
            | None \<Rightarrow>
                let s = set_kill_flag that s in
                case executing_cpu that s of
                  None \<Rightarrow> Some s
                | Some dest \<Rightarrow>
                    if dest = cpu
                    then Option.bind (thread_destruct that s) (dispatch_next cpu)
                    else Some (send_ipi (k_lapic s (of_nat dest)) IpiAssassin s))"

definition sched_resume :: "nat \<Rightarrow> kstate \<Rightarrow> kstate option" where
  "sched_resume cpu s =
     Option.bind (active cpu s) (\<lambda>prev.
     Option.bind
       (if k_killed s prev then thread_destruct prev s
        else if k_idle s cpu \<noteq> Some prev then Some (ready_enqueue prev s)
        else Some (set_idle cpu False s))
       (dispatch_next cpu))"

definition set_idle_thread :: "nat \<Rightarrow> tid \<Rightarrow> kstate \<Rightarrow> kstate" where
  "set_idle_thread cpu t s = s\<lparr>k_idle := (k_idle s)(cpu := Some t)\<rparr>"

definition assassin_epilogue :: "nat \<Rightarrow> kstate \<Rightarrow> kstate option" where
  "assassin_epilogue cpu s =
     Option.bind (active cpu s) (\<lambda>t. if k_killed s t then sched_exit cpu s else Some s)"

text \<open>One round of \<^verbatim>\<open>IdleThread::action\<close>; the first component says whether the timer
  interrupt is blocked while the CPU waits (\<open>None\<close>: it does not wait).\<close>

definition idle_round :: "nat \<Rightarrow> kstate \<Rightarrow> (bool option \<times> kstate) option" where
  "idle_round cpu s =
     (if is_empty s
      then Some (Some (\<not> bell_pending (k_bells s) \<or> cpu \<noteq> 0), set_idle cpu True s)
      else map_option (Pair None) (sched_resume cpu s))"

subsection \<open>meeting/bell\<close>

partial_function (option) bell_ring :: "room \<Rightarrow> kstate \<Rightarrow> kstate option" where
  "bell_ring b s =
     (let (t, q) = mq_dequeue (Room b) (k_queues s); s = s\<lparr>k_queues := q\<rparr>
      in case t of
           None \<Rightarrow> Some s
         | Some t \<Rightarrow> Option.bind (wakeup t s) (bell_ring b))"

text \<open>The constructor; the bell lies on the stack of the thread that the CPU executes.\<close>

definition bell_new :: "nat \<Rightarrow> room \<Rightarrow> kstate \<Rightarrow> kstate" where
  "bell_new cpu b s = s\<lparr>
     k_bell_on := (k_bell_on s)(b := active cpu s), k_lost := (k_lost s)(b := False),
     k_queues := ((fst (k_queues s))(Room b := queue_new), snd (k_queues s)),
     k_bells := (k_bells s)\<lparr>br_ms := (br_ms (k_bells s))(b := 0),
       br_list := (fst (br_list (k_bells s)), (snd (br_list (k_bells s)))(b := None))\<rparr>\<rparr>"

text \<open>A pointer that the bellringer is about to follow, but the bell behind it has been freed.\<close>

definition dangling :: "room option \<Rightarrow> kstate \<Rightarrow> bool" where
  "dangling p s \<longleftrightarrow> (case p of None \<Rightarrow> False | Some b \<Rightarrow> k_lost s b)"

text \<open>The bells that the loop of \<^verbatim>\<open>Bellringer::job\<close> looks at must be there.\<close>

partial_function (option) job_visits :: "room option \<Rightarrow> u32 \<Rightarrow> kstate \<Rightarrow> unit option" where
  "job_visits current ms s =
     (case current of
        None \<Rightarrow> Some ()
      | Some b \<Rightarrow>
          if k_lost s b then None
          else if br_ms (k_bells s) b > ms then Some ()
          else job_visits (queue_next b (br_list (k_bells s))) (ms - br_ms (k_bells s) b) s)"

definition bell_sleep :: "nat \<Rightarrow> room \<Rightarrow> u32 \<Rightarrow> kstate \<Rightarrow> kstate option" where
  "bell_sleep cpu bell ms s =
     (if ms = 0 then Some s
      else let s = bell_new cpu bell s
           in Option.bind (job_visits (queue_first (br_list (k_bells s))) ms s) (\<lambda>_.
              Option.bind (bell_job bell ms (k_bells s)) (\<lambda>br. block cpu bell (s\<lparr>k_bells := br\<rparr>))))"

text \<open>\<^verbatim>\<open>check\<close> counts down the first bell; when a bell rings, it is read and so is the next one
  (\<^verbatim>\<open>cancel\<close> and the condition of the loop). The list that \<^verbatim>\<open>check\<close> started with still has the
  links of the bells that it reaches.\<close>

definition ring_there :: "room \<Rightarrow> kstate \<Rightarrow> kstate option" where
  "ring_there b s =
     (if dangling (Some b) s \<or> dangling (queue_next b (br_list (k_bells s))) s then None else bell_ring b s)"

definition bellringer_check :: "kstate \<Rightarrow> kstate option" where
  "bellringer_check s =
     (if dangling (queue_first (br_list (k_bells s))) s then None
      else map_option (\<lambda>(br, s). s\<lparr>k_bells := br\<rparr>) (bell_check ring_there (k_bells s) s))"

text \<open>The epilogue of the timer interrupt, \<^verbatim>\<open>Watch::epilogue\<close>.\<close>

definition watch_epilogue :: "nat \<Rightarrow> kstate \<Rightarrow> kstate option" where
  "watch_epilogue cpu s = Option.bind (if cpu = 0 then bellringer_check s else Some s) (sched_resume cpu)"

subsection \<open>syscall/: the guarded operations\<close>

definition guarded_exit :: "nat \<Rightarrow> kstate \<Rightarrow> kstate option" where
  "guarded_exit cpu s = sched_exit cpu (thread_dec s)"

definition guarded_kill :: "nat \<Rightarrow> tid \<Rightarrow> kstate \<Rightarrow> kstate option" where
  "guarded_kill cpu that s = sched_kill cpu that (thread_dec s)"

definition guarded_ready :: "tid \<Rightarrow> kstate \<Rightarrow> kstate" where
  "guarded_ready that s = ready that (thread_inc s)"

text \<open>
  What a thread, a device or another CPU can ask of the kernel. A thread that is inside
  \<^verbatim>\<open>Mutex::lock\<close> when a step makes it the active one finishes that call in the same step,
  since it holds the guard until then.
\<close>

definition finish_lock :: "nat \<Rightarrow> kstate \<Rightarrow> kstate option" where
  "finish_lock cpu s =
     (case active cpu s of
        None \<Rightarrow> Some s
      | Some t \<Rightarrow> (case k_resume s t of None \<Rightarrow> Some s | Some m \<Rightarrow> mutex_acquire cpu m s))"

datatype kop =
    Ready tid
  | Exit
  | Kill tid
  | Resume
  | SemP room
  | SemV room
  | Lock room
  | Unlock room
  | Sleep room u32
  | Check
  | Assassin

fun kop_body :: "nat \<Rightarrow> kop \<Rightarrow> kstate \<Rightarrow> kstate option" where
  "kop_body cpu (Ready t) s = Some (guarded_ready t s)"
| "kop_body cpu Exit s = guarded_exit cpu s"
| "kop_body cpu (Kill t) s = guarded_kill cpu t s"
| "kop_body cpu Resume s = sched_resume cpu s"
| "kop_body cpu (SemP r) s = map_option snd (semaphore_p cpu r s)"
| "kop_body cpu (SemV r) s = semaphore_v r s"
| "kop_body cpu (Lock m) s = map_option snd (mutex_lock cpu m s)"
| "kop_body cpu (Unlock m) s = map_option snd (mutex_unlock m s)"
| "kop_body cpu (Sleep b ms) s = bell_sleep cpu b ms s"
| "kop_body cpu Check s = bellringer_check s"
| "kop_body cpu Assassin s = assassin_epilogue cpu s"

definition kstep :: "nat \<Rightarrow> kop \<Rightarrow> kstate \<Rightarrow> kstate option" where
  "kstep cpu op s = Option.bind (kop_body cpu op s) (finish_lock cpu)"

end
