(* ===== verification/KernelInv.thy ===== *)
theory KernelInv
  imports Kernel
begin

section \<open>The invariant of the kernel state\<close>

text \<open>
  \<open>kinv cur mx L M s\<close> says that \<open>s\<close> is a consistent kernel state whose ready list and waiting
  rooms represent the lists \<open>L\<close> and whose threads hold the mutexes \<open>M\<close>; \<open>mx\<close> are the rooms
  that are mutexes. \<open>cur\<close> is \<open>None\<close> between two steps, and \<open>Some cpu\<close> while that CPU is about
  to switch to another thread, so that its entry of \<^verbatim>\<open>life\<close> does not count any more.
\<close>

definition queues_ok :: "(tq \<Rightarrow> tid list) \<Rightarrow> kstate \<Rightarrow> bool" where
  "queues_ok L s \<longleftrightarrow> mq_rep (k_queues s) L \<and>
     (\<forall>t r. \<not> k_gone s t \<longrightarrow> k_waiting s t = Some r \<longleftrightarrow> t \<in> set (L (Room r))) \<and>
     (\<forall>t q. t \<in> set (L q) \<longrightarrow> \<not> k_gone s t)"

text \<open>A thread that some CPU executes, or the idle thread of a CPU, is in no queue.\<close>

definition runs :: "nat option \<Rightarrow> kstate \<Rightarrow> nat \<Rightarrow> tid \<Rightarrow> bool" where
  "runs cur s c t \<longleftrightarrow> Some c \<noteq> cur \<and> k_life s c = Some t"

definition life_ok :: "nat option \<Rightarrow> (tq \<Rightarrow> tid list) \<Rightarrow> kstate \<Rightarrow> bool" where
  "life_ok cur L s \<longleftrightarrow> (\<forall>c t. runs cur s c t \<longrightarrow>
     \<not> k_gone s t \<and> (\<forall>q. t \<notin> set (L q)) \<and> k_resume s t = None \<and>
     (\<forall>c'. runs cur s c' t \<longrightarrow> c' = c))"

definition idle_ok :: "nat option \<Rightarrow> (tq \<Rightarrow> tid list) \<Rightarrow> kstate \<Rightarrow> bool" where
  "idle_ok cur L s \<longleftrightarrow> (\<forall>c < CPU_MAX. k_idle s c \<noteq> None) \<and> (\<forall>c t. k_idle s c = Some t \<longrightarrow>
     \<not> k_gone s t \<and> \<not> k_killed s t \<and> (\<forall>q. t \<notin> set (L q)) \<and> k_resume s t = None \<and>
     (\<forall>c'. runs cur s c' t \<longrightarrow> c' = c) \<and> (\<forall>c'. k_idle s c' = Some t \<longrightarrow> c' = c))"

definition locks_ok :: "room set \<Rightarrow> (tq \<Rightarrow> tid list) \<Rightarrow> kstate \<Rightarrow> bool" where
  "locks_ok mx L s \<longleftrightarrow>
     (\<forall>m t. m \<in> mx \<longrightarrow> t \<in> set (L (Room m)) \<longrightarrow> k_resume s t = Some m) \<and>
     (\<forall>t m. \<not> k_gone s t \<longrightarrow> k_resume s t = Some m \<longrightarrow> m \<in> mx) \<and>
     (\<forall>t m. \<not> k_gone s t \<longrightarrow> k_resume s t = Some m \<longrightarrow> t \<notin> set (L ReadyList) \<longrightarrow> t \<in> set (L (Room m))) \<and>
     (\<forall>t t' m. t \<in> set (L ReadyList) \<longrightarrow> t' \<in> set (L ReadyList) \<longrightarrow>
        k_resume s t = Some m \<longrightarrow> k_resume s t' = Some m \<longrightarrow> t = t') \<and>
     (\<forall>t m. t \<in> set (L ReadyList) \<longrightarrow> k_resume s t = Some m \<longrightarrow>
        k_counter s m = 0 \<and> k_owner s m = None) \<and>
     (\<forall>m t. k_owner s m = Some t \<longrightarrow> m \<in> mx \<and> k_counter s m = 0) \<and>
     (\<forall>m. m \<in> mx \<longrightarrow> k_counter s m \<noteq> 0 \<longrightarrow> k_counter s m = 1)"

definition mutexes_ok :: "(tid \<Rightarrow> room list) \<Rightarrow> kstate \<Rightarrow> bool" where
  "mutexes_ok M s \<longleftrightarrow> mq_rep (k_mutexes s) M \<and> (\<forall>t m. m \<in> set (M t) \<longleftrightarrow> k_owner s m = Some t)"

definition counters_ok :: "(tq \<Rightarrow> tid list) \<Rightarrow> kstate \<Rightarrow> bool" where
  "counters_ok L s \<longleftrightarrow> (\<forall>r. 0 < sint (k_counter s r) \<longrightarrow> L (Room r) = [])"

definition bells_ok :: "room set \<Rightarrow> kstate \<Rightarrow> bool" where
  "bells_ok mx s \<longleftrightarrow> (\<exists>A. br_rep (k_bells s) A \<and> fst ` set A \<inter> mx = {})"

definition kinv :: "nat option \<Rightarrow> room set \<Rightarrow> (tq \<Rightarrow> tid list) \<Rightarrow> (tid \<Rightarrow> room list) \<Rightarrow> kstate \<Rightarrow> bool" where
  "kinv cur mx L M s \<longleftrightarrow> queues_ok L s \<and> life_ok cur L s \<and> idle_ok cur L s \<and> locks_ok mx L s \<and>
     mutexes_ok M s \<and> counters_ok L s \<and> bells_ok mx s"

lemmas kinv_defs = queues_ok_def life_ok_def idle_ok_def locks_ok_def mutexes_ok_def
  counters_ok_def bells_ok_def runs_def

lemma kinv_parts:
  assumes "kinv cur mx L M s"
  shows "queues_ok L s" "life_ok cur L s" "idle_ok cur L s" "locks_ok mx L s" "mutexes_ok M s"
    "counters_ok L s" "bells_ok mx s"
  using assms by (simp_all add: kinv_def)

lemma kinvI:
  "queues_ok L s \<Longrightarrow> life_ok cur L s \<Longrightarrow> idle_ok cur L s \<Longrightarrow> locks_ok mx L s \<Longrightarrow>
     mutexes_ok M s \<Longrightarrow> counters_ok L s \<Longrightarrow> bells_ok mx s \<Longrightarrow> kinv cur mx L M s"
  by (simp add: kinv_def)

lemma kinv_queues: "kinv cur mx L M s \<Longrightarrow> mq_rep (k_queues s) L"
  by (simp add: kinv_def queues_ok_def)

text \<open>The log of interrupts and the status counters are not part of it.\<close>

lemma kinv_send_ipi [simp]: "kinv cur mx L M (send_ipi d v s) = kinv cur mx L M s"
  by (simp add: kinv_def kinv_defs send_ipi_def)

lemma send_ipi_fields [simp]:
  "k_queues (send_ipi d v s) = k_queues s" "k_life (send_ipi d v s) = k_life s"
  "k_idle (send_ipi d v s) = k_idle s" "k_gone (send_ipi d v s) = k_gone s"
  "k_killed (send_ipi d v s) = k_killed s" "k_resume (send_ipi d v s) = k_resume s"
  "k_bells (send_ipi d v s) = k_bells s" "k_stack (send_ipi d v s) = k_stack s"
  "k_counter (send_ipi d v s) = k_counter s" "k_mutexes (send_ipi d v s) = k_mutexes s"
  "k_owner (send_ipi d v s) = k_owner s" "k_waiting (send_ipi d v s) = k_waiting s"
  "k_bell_on (send_ipi d v s) = k_bell_on s" "k_lost (send_ipi d v s) = k_lost s"
  by (simp_all add: send_ipi_def)

lemma delete_stack_fields [simp]:
  "k_queues (delete_stack t s) = k_queues s" "k_life (delete_stack t s) = k_life s"
  "k_idle (delete_stack t s) = k_idle s" "k_gone (delete_stack t s) = k_gone s"
  "k_killed (delete_stack t s) = k_killed s" "k_resume (delete_stack t s) = k_resume s"
  "k_bells (delete_stack t s) = k_bells s" "k_counter (delete_stack t s) = k_counter s"
  "k_mutexes (delete_stack t s) = k_mutexes s" "k_owner (delete_stack t s) = k_owner s"
  "k_waiting (delete_stack t s) = k_waiting s" "k_bell_on (delete_stack t s) = k_bell_on s"
  "k_stack (delete_stack t s) = (k_stack s)(t := False)"
  by (simp_all add: delete_stack_def)

lemma kinv_set_idle [simp]: "kinv cur mx L M (set_idle c b s) = kinv cur mx L M s"
  by (simp add: kinv_def kinv_defs set_idle_def)

lemma kinv_thread_count [simp]:
  "kinv cur mx L M (thread_inc s) = kinv cur mx L M s"
  "kinv cur mx L M (thread_dec s) = kinv cur mx L M s"
  by (simp_all add: kinv_def kinv_defs thread_inc_def thread_dec_def)

lemma kinv_detach: "kinv None mx L M s \<Longrightarrow> kinv (Some c) mx L M s"
  unfolding kinv_def life_ok_def idle_ok_def runs_def by blast

lemma life_okD:
  assumes "life_ok cur L s" "runs cur s c t"
  shows "\<not> k_gone s t" "t \<notin> set (L q)" "k_resume s t = None" "runs cur s c' t \<Longrightarrow> c' = c"
  using assms unfolding life_ok_def by blast+

lemma idle_okD:
  assumes "idle_ok cur L s" "k_idle s c = Some t"
  shows "\<not> k_gone s t" "\<not> k_killed s t" "t \<notin> set (L q)" "k_resume s t = None"
    "runs cur s c' t \<Longrightarrow> c' = c" "k_idle s c' = Some t \<Longrightarrow> c' = c"
  using assms unfolding idle_ok_def by blast+

lemma queues_okD:
  assumes "queues_ok L s"
  shows "\<not> k_gone s t \<Longrightarrow> k_waiting s t = Some r \<longleftrightarrow> t \<in> set (L (Room r))"
    "t \<in> set (L q) \<Longrightarrow> \<not> k_gone s t" "mq_rep (k_queues s) L"
  using assms unfolding queues_ok_def by blast+

lemma locks_ok_life [simp]: "locks_ok mx L (s\<lparr>k_life := x\<rparr>) = locks_ok mx L s"
  by (simp add: locks_ok_def)

text \<open>A thread outside all queues, not executed by any CPU and not idle: it can be put
  into a queue.\<close>

definition loose :: "nat option \<Rightarrow> (tq \<Rightarrow> tid list) \<Rightarrow> tid \<Rightarrow> kstate \<Rightarrow> bool" where
  "loose cur L t s \<longleftrightarrow> \<not> k_gone s t \<and> (\<forall>q. t \<notin> set (L q)) \<and> (\<forall>c. \<not> runs cur s c t) \<and>
     (\<forall>c. k_idle s c \<noteq> Some t)"

text \<open>\<open>t\<close> may be handed the lock it is waiting for: the lock is free and nobody else is
  on the way to it.\<close>

definition may_take :: "room set \<Rightarrow> (tq \<Rightarrow> tid list) \<Rightarrow> tid \<Rightarrow> kstate \<Rightarrow> bool" where
  "may_take mx L t s \<longleftrightarrow> (\<forall>m. k_resume s t = Some m \<longrightarrow> m \<in> mx \<and> k_counter s m = 0 \<and>
     k_owner s m = None \<and> (\<forall>u \<in> set (L ReadyList). k_resume s u \<noteq> Some m))"

lemma locks_okI:
  assumes "\<And>m t. m \<in> mx \<Longrightarrow> t \<in> set (L (Room m)) \<Longrightarrow> k_resume s t = Some m"
    and "\<And>t m. \<not> k_gone s t \<Longrightarrow> k_resume s t = Some m \<Longrightarrow> m \<in> mx"
    and "\<And>t m. \<not> k_gone s t \<Longrightarrow> k_resume s t = Some m \<Longrightarrow> t \<notin> set (L ReadyList) \<Longrightarrow> t \<in> set (L (Room m))"
    and "\<And>t t' m. t \<in> set (L ReadyList) \<Longrightarrow> t' \<in> set (L ReadyList) \<Longrightarrow>
       k_resume s t = Some m \<Longrightarrow> k_resume s t' = Some m \<Longrightarrow> t = t'"
    and "\<And>t m. t \<in> set (L ReadyList) \<Longrightarrow> k_resume s t = Some m \<Longrightarrow>
       k_counter s m = 0 \<and> k_owner s m = None"
    and "\<And>m t. k_owner s m = Some t \<Longrightarrow> m \<in> mx \<and> k_counter s m = 0"
    and "\<And>m. m \<in> mx \<Longrightarrow> k_counter s m \<noteq> 0 \<Longrightarrow> k_counter s m = 1"
  shows "locks_ok mx L s"
  unfolding locks_ok_def
proof (intro conjI, goal_cases)
  case 1 then show ?case by (intro allI impI) (rule assms(1)) next
  case 2 then show ?case by (intro allI impI) (rule assms(2)) next
  case 3 then show ?case by (intro allI impI) (rule assms(3)) next
  case 4 then show ?case by (intro allI impI) (rule assms(4)) next
  case 5 then show ?case by (intro allI impI) (rule assms(5)) next
  case 6 then show ?case by (intro allI impI) (rule assms(6)) next
  case 7 then show ?case by (intro allI impI) (rule assms(7))
qed

lemma locks_okD:
  assumes "locks_ok mx L s"
  shows "m \<in> mx \<Longrightarrow> t \<in> set (L (Room m)) \<Longrightarrow> k_resume s t = Some m"
    and "\<not> k_gone s t \<Longrightarrow> k_resume s t = Some m \<Longrightarrow> m \<in> mx"
    and "\<not> k_gone s t \<Longrightarrow> k_resume s t = Some m \<Longrightarrow> t \<notin> set (L ReadyList) \<Longrightarrow> t \<in> set (L (Room m))"
    and "t \<in> set (L ReadyList) \<Longrightarrow> t' \<in> set (L ReadyList) \<Longrightarrow>
       k_resume s t = Some m \<Longrightarrow> k_resume s t' = Some m \<Longrightarrow> t = t'"
    and "t \<in> set (L ReadyList) \<Longrightarrow> k_resume s t = Some m \<Longrightarrow> k_counter s m = 0 \<and> k_owner s m = None"
    and "k_owner s m = Some u \<Longrightarrow> m \<in> mx \<and> k_counter s m = 0"
    and "m \<in> mx \<Longrightarrow> k_counter s m \<noteq> 0 \<Longrightarrow> k_counter s m = 1"
proof -
  note ok = assms [unfolded locks_ok_def]
  note r2 = ok [THEN conjunct2] note r3 = r2 [THEN conjunct2] note r4 = r3 [THEN conjunct2]
  note r5 = r4 [THEN conjunct2] note r6 = r5 [THEN conjunct2]
  show "m \<in> mx \<Longrightarrow> t \<in> set (L (Room m)) \<Longrightarrow> k_resume s t = Some m"
    by (rule ok [THEN conjunct1, rule_format])
  show "\<not> k_gone s t \<Longrightarrow> k_resume s t = Some m \<Longrightarrow> m \<in> mx"
    by (rule r2 [THEN conjunct1, rule_format])
  show "\<not> k_gone s t \<Longrightarrow> k_resume s t = Some m \<Longrightarrow> t \<notin> set (L ReadyList) \<Longrightarrow> t \<in> set (L (Room m))"
    by (rule r3 [THEN conjunct1, rule_format])
  show "t \<in> set (L ReadyList) \<Longrightarrow> t' \<in> set (L ReadyList) \<Longrightarrow>
       k_resume s t = Some m \<Longrightarrow> k_resume s t' = Some m \<Longrightarrow> t = t'"
    by (rule r4 [THEN conjunct1, rule_format])
  show "t \<in> set (L ReadyList) \<Longrightarrow> k_resume s t = Some m \<Longrightarrow> k_counter s m = 0 \<and> k_owner s m = None"
    by (rule r5 [THEN conjunct1, THEN spec, THEN spec, THEN mp, THEN mp])
  show "k_owner s m = Some u \<Longrightarrow> m \<in> mx \<and> k_counter s m = 0"
    by (rule r6 [THEN conjunct1, THEN spec, THEN spec, THEN mp])
  show "m \<in> mx \<Longrightarrow> k_counter s m \<noteq> 0 \<Longrightarrow> k_counter s m = 1"
    by (rule r6 [THEN conjunct2, rule_format])
qed

subsection \<open>Moving one thread\<close>

definition taken :: "tid \<Rightarrow> ('q \<Rightarrow> tid list) \<Rightarrow> 'q \<Rightarrow> tid list" where
  "taken t L = (\<lambda>q. remove1 t (L q))"

lemma set_taken: "mq_rep qs L \<Longrightarrow> set (taken t L q) = set (L q) - {t}"
  by (simp add: taken_def set_remove1_eq mq_rep_distinct)

lemma taken_absent: "(\<And>q. t \<notin> set (L q)) \<Longrightarrow> taken t L = L"
  by (simp add: taken_def remove1_idem)

lemma taken_single:
  assumes "mq_rep qs L" "t \<in> set (L q)"
  shows "taken t L = L(q := remove1 t (L q))"
proof
  fix p
  show "taken t L p = (L(q := remove1 t (L q))) p"
    using mq_rep_disjoint [OF assms(1), of t p q] assms(2)
    by (cases "p = q"; cases "t \<in> set (L p)") (auto simp: taken_def remove1_idem)
qed

definition appended :: "tid \<Rightarrow> 'q \<Rightarrow> ('q \<Rightarrow> tid list) \<Rightarrow> 'q \<Rightarrow> tid list" where
  "appended t q L = (taken t L)(q := taken t L q @ [t])"

lemma set_appended:
  "mq_rep qs L \<Longrightarrow> set (appended t q L p) = (if p = q then insert t (set (L p)) else set (L p) - {t})"
  by (auto simp: appended_def set_taken)

lemma kinv_make_ready:
  assumes inv: "kinv cur mx L M s"
    and t: "\<not> k_gone s t" "\<forall>c. \<not> runs cur s c t" "\<forall>c. k_idle s c \<noteq> Some t"
    and take: "may_take mx L t s"
    and q': "mq_rep q' (appended t ReadyList L)"
  shows "kinv cur mx (appended t ReadyList L) M (s\<lparr>k_queues := q', k_waiting := (k_waiting s)(t := None)\<rparr>)"
    (is "kinv cur mx ?L M ?s")
proof (rule kinvI)
  note set = set_appended [OF kinv_queues [OF inv]]
  note parts = kinv_parts [OF inv]
  note D = locks_okD [OF parts(4)]
  show "queues_ok ?L ?s"
    using parts(1) q' t(1) by (auto simp: queues_ok_def set)
  show "life_ok cur ?L ?s"
    using parts(2) t by (auto simp: life_ok_def set runs_def)
  show "idle_ok cur ?L ?s"
    using parts(3) t by (auto simp: idle_ok_def set runs_def)
  show "locks_ok mx ?L ?s"
  proof (rule locks_okI, goal_cases)
    case (1 m u) then show ?case by (auto simp: set dest: D(1)) next
    case (2 u m) then show ?case by (auto dest: D(2)) next
    case (3 u m) then show ?case using D(3) [of u m] by (auto simp: set) next
    case (4 u v m)
    then show ?case using take D(4) [of u v m] unfolding may_take_def by (auto simp: set)
  next
    case (5 u m)
    then show ?case using take D(5) [of u m] unfolding may_take_def by (auto simp: set)
  next
    case (6 m u) then show ?case using D(6) [of m u] by simp next
    case (7 m) then show ?case using D(7) [of m] by simp
  qed
  show "mutexes_ok M ?s" using parts(5) by (simp add: mutexes_ok_def)
  show "counters_ok ?L ?s"
    using parts(6) by (auto simp: counters_ok_def appended_def taken_def)
  show "bells_ok mx ?s" using parts(7) by (simp add: bells_ok_def)
qed

lemma kinv_bury:
  assumes inv: "kinv cur mx L M s"
    and t: "\<forall>c. \<not> runs cur s c t" "\<forall>c. k_idle s c \<noteq> Some t"
    and q': "mq_rep q' (taken t L)"
  shows "kinv cur mx (taken t L) M (delete_stack t (s\<lparr>k_queues := q', k_gone := (k_gone s)(t := True)\<rparr>))"
    (is "kinv cur mx ?L M ?s")
proof (rule kinvI)
  note set = set_taken [OF kinv_queues [OF inv]]
  note parts = kinv_parts [OF inv]
  note D = locks_okD [OF parts(4)]
  show "queues_ok ?L ?s"
    using parts(1) q' by (auto simp: queues_ok_def set)
  show "life_ok cur ?L ?s"
    using parts(2) t by (auto simp: life_ok_def runs_def set)
  show "idle_ok cur ?L ?s"
    using parts(3) t by (auto simp: idle_ok_def runs_def set)
  show "locks_ok mx ?L ?s"
  proof (rule locks_okI, goal_cases)
    case (1 m u) then show ?case by (auto simp: set dest: D(1)) next
    case (2 u m) then show ?case by (auto dest: D(2) split: if_splits) next
    case (3 u m) then show ?case using D(3) [of u m] by (auto simp: set split: if_splits) next
    case (4 u v m) then show ?case using D(4) [of u v m] by (auto simp: set) next
    case (5 u m) then show ?case using D(5) [of u m] by (auto simp: set) next
    case (6 m u) then show ?case using D(6) [of m u] by simp next
    case (7 m) then show ?case using D(7) [of m] by simp
  qed
  show "mutexes_ok M ?s" using parts(5) by (simp add: mutexes_ok_def)
  show "counters_ok ?L ?s"
    using parts(6) by (auto simp: counters_ok_def taken_def)
  show "bells_ok mx ?s" using parts(7) by (simp add: bells_ok_def)
qed

lemma kinv_put_room:
  assumes inv: "kinv cur mx L M s" and t: "loose cur L t s"
    and free: "\<not> 0 < sint (k_counter s w)"
    and r: "r = (if w \<in> mx then Some w else None)"
    and q': "mq_rep q' (L(Room w := L (Room w) @ [t]))"
  shows "kinv cur mx (L(Room w := L (Room w) @ [t])) M
    (s\<lparr>k_queues := q', k_waiting := (k_waiting s)(t := Some w), k_resume := (k_resume s)(t := r)\<rparr>)"
    (is "kinv cur mx ?L M ?s")
proof (rule kinvI)
  note parts = kinv_parts [OF inv]
  note t' = t [unfolded loose_def]
  note D = locks_okD [OF parts(4)]
  show "queues_ok ?L ?s"
    using parts(1) q' t' by (auto simp: queues_ok_def)
  show "life_ok cur ?L ?s"
    using parts(2) t' by (auto simp: life_ok_def runs_def)
  show "idle_ok cur ?L ?s"
    using parts(3) t' by (auto simp: idle_ok_def runs_def)
  show "locks_ok mx ?L ?s"
  proof (rule locks_okI, goal_cases)
    case (1 m u) then show ?case using t' r D(1) [of m u] by (auto split: if_splits) next
    case (2 u m) then show ?case using r D(2) [of u m] by (auto split: if_splits) next
    case (3 u m) then show ?case using t' r D(3) [of u m] by (auto split: if_splits) next
    case (4 u v m) then show ?case using t' D(4) [of u v m] by (auto split: if_splits) next
    case (5 u m) then show ?case using t' D(5) [of u m] by (auto split: if_splits) next
    case (6 m u) then show ?case using D(6) [of m u] by simp next
    case (7 m) then show ?case using D(7) [of m] by simp
  qed
  show "mutexes_ok M ?s" using parts(5) by (simp add: mutexes_ok_def)
  show "counters_ok ?L ?s"
    using parts(6) free by (auto simp: counters_ok_def)
  show "bells_ok mx ?s" using parts(7) by (simp add: bells_ok_def)
qed

subsection \<open>What an operation leaves alone\<close>

text \<open>A mutex that nobody holds, nobody is on the way to, and no \<^verbatim>\<open>v\<close> will open.\<close>

definition stuck :: "room \<Rightarrow> kstate \<Rightarrow> bool" where
  "stuck m s \<longleftrightarrow> k_counter s m = 0 \<and> k_owner s m = None \<and>
     (\<forall>t. \<not> k_gone s t \<longrightarrow> k_resume s t = Some m \<longrightarrow> k_waiting s t = Some m)"

text \<open>\<open>evolves S X D s s'\<close>: the list of bells is as before, only threads that wait in rooms of \<open>X\<close> have
  been woken, only threads of \<open>D\<close> destroyed, and a mutex of \<open>S\<close> that was stuck still is, with
  all the threads that wait for it.\<close>

definition evolves :: "room set \<Rightarrow> room set \<Rightarrow> tid set \<Rightarrow> kstate \<Rightarrow> kstate \<Rightarrow> bool" where
  "evolves S X D s s' \<longleftrightarrow> k_bells s' = k_bells s \<and> k_bell_on s' = k_bell_on s \<and>
     (\<forall>b. k_lost s' b \<longrightarrow> k_lost s b \<or> (\<exists>t \<in> D. k_bell_on s b = Some t)) \<and>
     (\<forall>t. k_gone s' t \<longrightarrow> k_gone s t \<or> t \<in> D) \<and>
     (\<forall>t r. k_waiting s t = Some r \<longrightarrow> r \<notin> X \<longrightarrow> k_waiting s' t = Some r) \<and>
     (\<forall>m \<in> S. stuck m s \<longrightarrow> stuck m s' \<and> (\<forall>t. k_waiting s t = Some m \<longrightarrow> k_waiting s' t = Some m))"

lemma evolves_refl [simp, intro]: "evolves S X D s s"
  by (simp add: evolves_def)

lemma evolves_trans:
  assumes "evolves S X D s s'" "evolves S X D s' s''"
  shows "evolves S X D s s''"
  unfolding evolves_def
proof (intro conjI allI impI ballI, goal_cases)
  case (3 b) then show ?case using assms unfolding evolves_def by metis next
  case (4 t) then show ?case using assms unfolding evolves_def by blast next
  case (5 t r) then show ?case using assms unfolding evolves_def by blast
qed (use assms in \<open>simp_all add: evolves_def\<close>)

lemma evolves_mono: "evolves S X D s s' \<Longrightarrow> S' \<subseteq> S \<Longrightarrow> X \<subseteq> X' \<Longrightarrow> D \<subseteq> D' \<Longrightarrow> evolves S' X' D' s s'"
  unfolding evolves_def by blast

lemma evolves_then:
  assumes "evolves S X D s s'" "evolves UNIV {} {} s' s''"
  shows "evolves S X D s s''"
  by (rule evolves_trans [OF assms(1) evolves_mono [OF assms(2)]]) auto

lemma stuck_cong:
  "k_counter s' = k_counter s \<Longrightarrow> k_owner s' = k_owner s \<Longrightarrow> k_gone s' = k_gone s \<Longrightarrow> k_resume s' = k_resume s \<Longrightarrow>
     k_waiting s' = k_waiting s \<Longrightarrow> stuck m s' = stuck m s"
  by (simp add: stuck_def)

text \<open>Changes of other members.\<close>

lemma evolves_other:
  assumes "k_counter s' = k_counter s" "k_owner s' = k_owner s" "k_gone s' = k_gone s" "k_resume s' = k_resume s"
    and "k_waiting s' = k_waiting s" "k_bells s' = k_bells s" "k_bell_on s' = k_bell_on s" "k_lost s' = k_lost s"
  shows "evolves S X D s s'"
  using stuck_cong [OF assms(1-5)] assms by (simp add: evolves_def)

lemma evolves_bury: "evolves UNIV {} {t} s (delete_stack t (s\<lparr>k_queues := q, k_gone := (k_gone s)(t := True)\<rparr>))"
  by (auto simp: evolves_def stuck_def delete_stack_def)

lemma not_waiting:
  assumes "kinv cur mx L M s" "\<not> k_gone s t" "\<And>r. t \<notin> set (L (Room r))"
  shows "k_waiting s t = None"
  using queues_okD(1) [OF kinv_parts(1) [OF assms(1)] assms(2)] assms(3) by (auto simp: not_Some_eq [symmetric])

subsection \<open>Switching to the next thread\<close>

lemma kinv_run_idle:
  assumes inv: "kinv (Some cpu) mx L M s" and t: "k_idle s cpu = Some t"
  shows "kinv None mx L M (s\<lparr>k_life := (k_life s)(cpu := Some t)\<rparr>)" (is "kinv None mx L M ?s")
proof (rule kinvI)
  note parts = kinv_parts [OF inv]
  note I = idle_okD [OF parts(3)]
  have notrun: "\<not> runs (Some cpu) s c t" for c
    using I(5) [OF t, of c] by (auto simp: runs_def)
  show "queues_ok L ?s" using parts(1) by (simp add: queues_ok_def)
  show "life_ok None L ?s"
    using parts(2) notrun I(1,3,4) [OF t] by (auto simp: life_ok_def runs_def split: if_splits)
  show "idle_ok None L ?s"
    unfolding idle_ok_def runs_def
  proof (intro conjI allI impI, goal_cases)
    case (1 c) then show ?case using parts(3) by (simp add: idle_ok_def) next
    case (6 c u c')
    then have idle: "k_idle s c = Some u" and run: "k_life ?s c' = Some u" by auto
    show ?case
    proof (cases "c' = cpu")
      case True
      with run have "k_idle s cpu = Some u" using t by simp
      with I(6) [OF idle] True show ?thesis by simp
    next
      case False
      with run have "runs (Some cpu) s c' u" by (simp add: runs_def)
      with I(5) [OF idle] show ?thesis by blast
    qed
  next
    case (2 c u) then show ?case by (simp add: I(1)) next
    case (3 c u) then show ?case by (simp add: I(2)) next
    case (4 c u q) then show ?case by (simp add: I(3)) next
    case (5 c u) then show ?case by (simp add: I(4)) next
    case (7 c u c')
    then have "k_idle s c = Some u" "k_idle s c' = Some u" by simp_all
    then show ?case by (rule I(6))
  qed
  show "locks_ok mx L ?s" using parts(4) by simp
  show "mutexes_ok M ?s" using parts(5) by (simp add: mutexes_ok_def)
  show "counters_ok L ?s" using parts(6) by (simp add: counters_ok_def)
  show "bells_ok mx ?s" using parts(7) by (simp add: bells_ok_def)
qed

lemma kinv_run_next:
  assumes inv: "kinv (Some cpu) mx L M s" and L: "L ReadyList = t # xs" and free: "k_resume s t = None"
    and q': "mq_rep q' (L(ReadyList := xs))"
  shows "kinv None mx (L(ReadyList := xs)) M
    (s\<lparr>k_queues := q', k_life := (k_life s)(cpu := Some t)\<rparr>)" (is "kinv None mx ?L M ?s")
proof (rule kinvI)
  note parts = kinv_parts [OF inv]
  note D = locks_okD [OF parts(4)]
  note Q = queues_okD [OF parts(1)]
  have d: "t \<notin> set xs" using mq_rep_distinct [OF Q(3), of ReadyList] L by simp
  have out: "t \<notin> set (?L q)" for q
    using mq_rep_disjoint [OF Q(3), of t ReadyList q] L d by auto
  have sub: "\<forall>u \<in> set xs. u \<in> set (L ReadyList)" using L by simp
  have inL: "t \<in> set (L ReadyList)" using L by simp
  have gone: "\<not> k_gone s t" using Q(2) [OF inL] .
  have notrun: "\<not> runs (Some cpu) s c t" for c
    using life_okD(2) [OF parts(2), of c t ReadyList] inL by blast
  have notidle: "k_idle s c \<noteq> Some t" for c
    using idle_okD(3) [OF parts(3), of c t ReadyList] inL by blast
  show "queues_ok ?L ?s"
    using parts(1) q' L Q(2) [of _ ReadyList] by (auto simp: queues_ok_def)
  show "life_ok None ?L ?s"
    using parts(2) notrun gone out free sub
    unfolding life_ok_def runs_def by (auto split: if_splits)
  show "idle_ok None ?L ?s"
    using parts(3) notidle sub unfolding idle_ok_def runs_def by (auto split: if_splits)
  show "locks_ok mx ?L ?s"
  proof (rule locks_okI, goal_cases)
    case (1 m u) then show ?case using D(1) [of m u] by simp next
    case (2 u m) then show ?case using D(2) [of u m] by simp next
    case (3 u m) then show ?case using D(3) [of u m] free L by (cases "u = t") auto next
    case (4 u v m) then show ?case using D(4) [of u v m] L by auto next
    case (5 u m) then show ?case using D(5) [of u m] L by auto next
    case (6 m u) then show ?case using D(6) [of m u] by simp next
    case (7 m) then show ?case using D(7) [of m] by simp
  qed
  show "mutexes_ok M ?s" using parts(5) by (simp add: mutexes_ok_def)
  show "counters_ok ?L ?s" using parts(6) by (simp add: counters_ok_def)
  show "bells_ok mx ?s" using parts(7) by (simp add: bells_ok_def)
qed

lemma kinv_run_locked:
  assumes inv: "kinv (Some cpu) mx L M s" and L: "L ReadyList = t # xs" and res: "k_resume s t = Some m"
    and q': "mq_rep q' (L(ReadyList := xs))"
  shows "kinv None mx (L(ReadyList := xs)) (M(t := M t @ [m]))
    (mutex_hold t m (s\<lparr>k_queues := q', k_life := (k_life s)(cpu := Some t),
       k_owner := (k_owner s)(m := Some t), k_resume := (k_resume s)(t := None)\<rparr>))"
    (is "kinv None mx ?L ?M ?s")
proof (rule kinvI)
  note parts = kinv_parts [OF inv]
  note D = locks_okD [OF parts(4)]
  note Q = queues_okD [OF parts(1)]
  have d: "t \<notin> set xs" using mq_rep_distinct [OF Q(3), of ReadyList] L by simp
  have out: "t \<notin> set (?L q)" for q
    using mq_rep_disjoint [OF Q(3), of t ReadyList q] L d by auto
  have sub: "\<forall>u \<in> set xs. u \<in> set (L ReadyList)" using L by simp
  have inL: "t \<in> set (L ReadyList)" using L by simp
  have gone: "\<not> k_gone s t" using Q(2) [OF inL] .
  have m: "m \<in> mx" "k_counter s m = 0" "k_owner s m = None"
    using D(2) [OF gone res] D(5) [OF inL res] by auto
  have notrun: "\<not> runs (Some cpu) s c t" for c
    using life_okD(2) [OF parts(2), of c t ReadyList] inL by blast
  have notidle: "k_idle s c \<noteq> Some t" for c
    using idle_okD(3) [OF parts(3), of c t ReadyList] inL by blast
  have others: "u \<in> set xs \<Longrightarrow> k_resume s u \<noteq> Some m" for u
    using D(4) [of t u m] inL L res d by auto
  show "queues_ok ?L ?s"
    using parts(1) q' L Q(2) [of _ ReadyList] by (auto simp: queues_ok_def mutex_hold_def)
  show "life_ok None ?L ?s"
    using parts(2) notrun gone out sub
    unfolding life_ok_def runs_def mutex_hold_def by (auto split: if_splits)
  show "idle_ok None ?L ?s"
    using parts(3) notidle sub
    unfolding idle_ok_def runs_def mutex_hold_def by (auto split: if_splits)
  show "locks_ok mx ?L ?s"
    unfolding mutex_hold_def
  proof (rule locks_okI, goal_cases)
    case (1 n u) then show ?case using D(1) [of n u] out [of "Room n"] by auto next
    case (2 u n) then show ?case using D(2) [of u n] by (auto split: if_splits) next
    case (3 u n) then show ?case using D(3) [of u n] L by (auto split: if_splits) next
    case (4 u v n) then show ?case using D(4) [of u v n] L by (auto split: if_splits) next
    case (5 u n) then show ?case using D(5) [of u n] L others [of u] by (auto split: if_splits) next
    case (6 n u) then show ?case using D(6) [of n] m by (auto split: if_splits) next
    case (7 n) then show ?case using D(7) [of n] by simp
  qed
  have "m \<notin> set (M u)" for u
    using parts(5) m(3) by (simp add: mutexes_ok_def)
  then have "mq_rep (on_queue t (enqueue m) (k_mutexes s)) ?M"
    using parts(5) by (intro mq_enqueue) (simp_all add: mutexes_ok_def)
  then show "mutexes_ok ?M ?s"
    using parts(5) m(3) by (auto simp: mutexes_ok_def mutex_hold_def)
  show "counters_ok ?L ?s" using parts(6) by (simp add: counters_ok_def mutex_hold_def)
  show "bells_ok mx ?s" using parts(7) by (simp add: bells_ok_def mutex_hold_def)
qed

text \<open>What \<^verbatim>\<open>dispatch_next\<close> chooses: the head of the ready list, else the idle thread.\<close>

definition next_choice :: "nat \<Rightarrow> (tq \<Rightarrow> tid list) \<Rightarrow> kstate \<Rightarrow> tid option" where
  "next_choice cpu L s = (case L ReadyList of [] \<Rightarrow> k_idle s cpu | t # _ \<Rightarrow> Some t)"

lemma dispatch_next_choice:
  assumes inv: "kinv (Some cpu) mx L M s" and cpu: "cpu < CPU_MAX" and prev: "k_life s cpu \<noteq> None"
  shows "\<exists>s1 s' M'. dispatch_next cpu s = Some s1 \<and> finish_lock cpu s1 = Some s' \<and>
    kinv None mx (L(ReadyList := tl (L ReadyList))) M' s' \<and>
    k_life s' = (k_life s)(cpu := next_choice cpu L s) \<and> next_choice cpu L s \<noteq> None \<and>
    k_killed s' = k_killed s \<and> k_idle s' = k_idle s \<and> evolves UNIV {} {} s s'"
proof (cases "L ReadyList")
  case Nil
  have empty: "is_empty s" using Nil by (simp add: is_empty_def mq_first_rep [OF kinv_queues [OF inv]])
  obtain t where t: "k_idle s cpu = Some t"
    using kinv_parts(3) [OF inv] cpu by (auto simp: idle_ok_def)
  let ?s1 = "s\<lparr>k_life := (k_life s)(cpu := Some t)\<rparr>"
  have "k_resume s t = None" using idle_okD(4) [OF kinv_parts(3) [OF inv] t] .
  then have "dispatch_next cpu s = Some ?s1 \<and> finish_lock cpu ?s1 = Some ?s1"
    using t prev empty
    by (simp add: dispatch_next_def next_thread_def dispatch_def active_def set_active_def finish_lock_def)
  moreover have "L(ReadyList := tl (L ReadyList)) = L" using Nil by (simp add: fun_upd_idem)
  ultimately show ?thesis using kinv_run_idle [OF inv t] Nil t
    by (intro exI [of _ ?s1] exI [of _ M]) (simp add: next_choice_def evolves_other)
next
  case (Cons t xs)
  have nonempty: "\<not> is_empty s" using Cons by (simp add: is_empty_def mq_first_rep [OF kinv_queues [OF inv]])
  obtain q' where q': "mq_dequeue ReadyList (k_queues s) = (Some t, q')" "mq_rep q' (L(ReadyList := xs))"
    using mq_dequeue_Cons [OF kinv_queues [OF inv] Cons] by auto
  let ?s1 = "s\<lparr>k_queues := q', k_life := (k_life s)(cpu := Some t)\<rparr>"
  have d: "dispatch_next cpu s = Some ?s1"
    using q'(1) nonempty prev
    by (simp add: dispatch_next_def next_thread_def dispatch_def active_def set_active_def)
  have choice: "next_choice cpu L s = Some t" "tl (L ReadyList) = xs"
    using Cons by (simp_all add: next_choice_def)
  show ?thesis
  proof (cases "k_resume s t")
    case None
    then have "finish_lock cpu ?s1 = Some ?s1" by (simp add: finish_lock_def active_def)
    with d kinv_run_next [OF inv Cons None q'(2)] choice show ?thesis
      by (intro exI [of _ ?s1] exI [of _ M]) (simp add: evolves_other)
  next
    case (Some m)
    let ?s2 = "mutex_hold t m (s\<lparr>k_queues := q', k_life := (k_life s)(cpu := Some t),
       k_owner := (k_owner s)(m := Some t), k_resume := (k_resume s)(t := None)\<rparr>)"
    have "finish_lock cpu ?s1 = Some ?s2"
      using Some by (simp add: finish_lock_def active_def mutex_acquire_def)
    moreover have "k_life ?s2 = (k_life s)(cpu := Some t)" "k_killed ?s2 = k_killed s" "k_idle ?s2 = k_idle s"
      by (simp_all add: mutex_hold_def)
    moreover have "evolves UNIV {} {} s ?s2"
    proof -
      have inL: "t \<in> set (L ReadyList)" using Cons by simp
      have "\<not> k_gone s t" using queues_okD(2) [OF kinv_parts(1) [OF inv] inL] .
      moreover have "t \<notin> set (L (Room r))" for r
        using mq_rep_disjoint [OF kinv_queues [OF inv] inL, of "Room r"] by auto
      ultimately have "\<not> stuck m s" using not_waiting [OF inv] Some by (auto simp: stuck_def)
      then show ?thesis by (auto simp: evolves_def stuck_def mutex_hold_def)
    qed
    ultimately show ?thesis using d kinv_run_locked [OF inv Cons Some q'(2)] choice
      by (intro exI [of _ ?s1] exI [of _ ?s2] exI) (intro conjI, simp_all)
  qed
qed

lemma dispatch_next_kinv:
  assumes "kinv (Some cpu) mx L M s" "cpu < CPU_MAX" "k_life s cpu \<noteq> None"
  shows "\<exists>s1 s' L' M' t. dispatch_next cpu s = Some s1 \<and> finish_lock cpu s1 = Some s' \<and>
    kinv None mx L' M' s' \<and> k_life s' = (k_life s)(cpu := Some t) \<and> evolves UNIV {} {} s s'"
  using dispatch_next_choice [OF assms] by fastforce

subsection \<open>Waking up, unlocking, ending a thread\<close>

text \<open>What the operations that wake threads leave alone.\<close>

definition wake_frame :: "kstate \<Rightarrow> kstate \<Rightarrow> bool" where
  "wake_frame s s' \<longleftrightarrow> k_life s' = k_life s \<and> k_idle s' = k_idle s \<and> k_gone s' = k_gone s \<and>
     k_killed s' = k_killed s \<and> k_resume s' = k_resume s \<and> k_bells s' = k_bells s \<and>
     k_stack s' = k_stack s"

lemma wake_frame_refl [simp]: "wake_frame s s"
  by (simp add: wake_frame_def)

lemma wake_frame_trans: "wake_frame s s' \<Longrightarrow> wake_frame s' s'' \<Longrightarrow> wake_frame s s''"
  by (simp add: wake_frame_def)

definition same_threads :: "('q \<Rightarrow> tid list) \<Rightarrow> ('q \<Rightarrow> tid list) \<Rightarrow> bool" where
  "same_threads L L' \<longleftrightarrow> (\<forall>t. (\<exists>q. t \<in> set (L q)) \<longleftrightarrow> (\<exists>q. t \<in> set (L' q)))"

lemma same_threads_refl [simp]: "same_threads L L"
  by (simp add: same_threads_def)

lemma same_threads_trans: "same_threads L L' \<Longrightarrow> same_threads L' L'' \<Longrightarrow> same_threads L L''"
  by (simp add: same_threads_def)

lemma same_threads_appended:
  assumes "mq_rep qs L" "t \<in> set (L p)"
  shows "same_threads L (appended t q L)"
proof -
  have "u \<in> set (appended t q L x) \<longleftrightarrow> u \<in> set (L x)" if "u \<noteq> t" for u x
    using that by (simp add: set_appended [OF assms(1)])
  moreover have "t \<in> set (appended t q L q)" by (simp add: set_appended [OF assms(1)])
  ultimately show ?thesis using assms(2) unfolding same_threads_def by metis
qed

lemma queued_thread:
  assumes "kinv cur mx L M s" "t \<in> set (L q)"
  shows "\<not> k_gone s t" "\<forall>c. \<not> runs cur s c t" "\<forall>c. k_idle s c \<noteq> Some t"
proof -
  show "\<not> k_gone s t" by (rule queues_okD(2) [OF kinv_parts(1) [OF assms(1)] assms(2)])
  show "\<forall>c. \<not> runs cur s c t"
    using life_okD(2) [OF kinv_parts(2) [OF assms(1)]] assms(2) by (intro allI notI) blast
  show "\<forall>c. k_idle s c \<noteq> Some t"
    using idle_okD(3) [OF kinv_parts(3) [OF assms(1)]] assms(2) by (intro allI notI) blast
qed

lemma wakeup_kinv:
  assumes inv: "kinv cur mx L M s" and t: "t \<in> set (L (Room r))" and take: "may_take mx L t s"
    and qs: "mq_rep qs (taken t L)"
  shows "\<exists>s'. wakeup t (s\<lparr>k_queues := qs\<rparr>) = Some s' \<and> kinv cur mx (appended t ReadyList L) M s' \<and>
    wake_frame s s' \<and> k_counter s' = k_counter s \<and> k_mutexes s' = k_mutexes s \<and> k_owner s' = k_owner s \<and>
    evolves (- {r}) {r} {} s s'"
proof -
  note set = set_taken [OF kinv_queues [OF inv]]
  have w: "k_waiting s t = Some r"
    using queues_okD(1) [OF kinv_parts(1) [OF inv] queued_thread(1) [OF inv t]] t by simp
  obtain q1 where q1: "mq_remove (Room r) t qs = Some (None, q1)" "mq_rep q1 (taken t L)"
    using mq_remove_rep [OF qs, of "Room r" t] by (auto simp: set fun_upd_idem remove1_idem)
  have q2: "mq_rep (on_queue ReadyList (enqueue t) q1) (appended t ReadyList L)"
    using mq_enqueue [OF q1(2), of t ReadyList] by (simp add: set appended_def)
  have "wakeup t (s\<lparr>k_queues := qs\<rparr>) = Some (send_ipi (of_nat (2 ^ k_online s - 1)) IpiWakeup
      (s\<lparr>k_queues := on_queue ReadyList (enqueue t) q1, k_waiting := (k_waiting s)(t := None)\<rparr>))"
    using w q1(1)
    by (cases s) (simp add: wakeup_def room_remove_def ready_def ready_enqueue_def set_waiting_def send_ipi_def)
  then show ?thesis
    using kinv_make_ready [OF inv queued_thread [OF inv t] take q2] w
    by (simp add: wake_frame_def) (auto simp: evolves_def stuck_def)
qed

lemma taken_hd:
  assumes "mq_rep qs L" "L q = t # xs"
  shows "taken t L = L(q := xs)"
  using taken_single [OF assms(1), of t q] assms(2) by simp

definition lock_free :: "room set \<Rightarrow> (tq \<Rightarrow> tid list) \<Rightarrow> room \<Rightarrow> kstate \<Rightarrow> bool" where
  "lock_free mx L r s \<longleftrightarrow> (r \<in> mx \<longrightarrow> k_counter s r = 0 \<and> k_owner s r = None \<and>
     (\<forall>u \<in> set (L ReadyList). k_resume s u \<noteq> Some r))"

lemma lock_free_may_take:
  assumes inv: "kinv cur mx L M s" and t: "t \<in> set (L (Room r))" and free: "lock_free mx L r s"
  shows "may_take mx L t s"
  unfolding may_take_def
proof (intro allI impI)
  fix m
  assume m: "k_resume s t = Some m"
  note D = locks_okD [OF kinv_parts(4) [OF inv]]
  have "t \<notin> set (L ReadyList)"
    using mq_rep_disjoint [OF kinv_queues [OF inv] t, of ReadyList] by auto
  then have "m \<in> mx" "t \<in> set (L (Room m))"
    using D(2,3) [OF queued_thread(1) [OF inv t] m] by auto
  then have "m = r" using mq_rep_disjoint [OF kinv_queues [OF inv] t, of "Room m"] by auto
  then show "m \<in> mx \<and> k_counter s m = 0 \<and> k_owner s m = None \<and> (\<forall>u\<in>set (L ReadyList). k_resume s u \<noteq> Some m)"
    using free \<open>m \<in> mx\<close> by (simp add: lock_free_def)
qed

lemma kinv_count_up:
  assumes inv: "kinv cur mx L M s" and free: "lock_free mx L r s" and empty: "L (Room r) = []"
  shows "kinv cur mx L M (s\<lparr>k_counter := (k_counter s)(r := k_counter s r + 1)\<rparr>)" (is "kinv cur mx L M ?s")
proof (rule kinvI)
  note parts = kinv_parts [OF inv]
  note D = locks_okD [OF parts(4)]
  note F = free [unfolded lock_free_def]
  show "queues_ok L ?s" using parts(1) by (simp add: queues_ok_def)
  show "life_ok cur L ?s" using parts(2) by (simp add: life_ok_def runs_def)
  show "idle_ok cur L ?s" using parts(3) by (simp add: idle_ok_def runs_def)
  show "locks_ok mx L ?s"
  proof (rule locks_okI, goal_cases)
    case (1 m u) then show ?case using D(1) [of m u] by simp next
    case (2 u m) then show ?case using D(2) [of u m] by simp next
    case (3 u m) then show ?case using D(3) [of u m] by simp next
    case (4 u v m) then show ?case using D(4) [of u v m] by simp next
    case (5 u m)
    have "m \<noteq> r"
      using F 5 D(2) [of u m] queued_thread(1) [OF inv, of u ReadyList] by auto
    with 5 show ?case using D(5) [of u m] by simp
  next
    case (6 m u) then show ?case using D(6) [of m u] F by auto next
    case (7 m) then show ?case using D(7) [of m] F by auto
  qed
  show "mutexes_ok M ?s" using parts(5) by (simp add: mutexes_ok_def)
  show "counters_ok L ?s" using parts(6) empty by (auto simp: counters_ok_def)
  show "bells_ok mx ?s" using parts(7) by (simp add: bells_ok_def)
qed

lemma semaphore_v_kinv:
  assumes inv: "kinv cur mx L M s" and free: "lock_free mx L r s"
    and max: "sint (k_counter s r) \<noteq> INT_MAX"
  shows "\<exists>s' L'. semaphore_v r s = Some s' \<and> kinv cur mx L' M s' \<and> wake_frame s s' \<and>
    same_threads L L' \<and> k_mutexes s' = k_mutexes s \<and> k_owner s' = k_owner s \<and>
    (\<forall>x. x \<noteq> r \<longrightarrow> k_counter s' x = k_counter s x) \<and> evolves (- {r}) {r} {} s s'"
proof (cases "L (Room r)")
  case Nil
  have "semaphore_v r s = Some (s\<lparr>k_counter := (k_counter s)(r := k_counter s r + 1)\<rparr>)"
    using mq_dequeue_Nil [OF kinv_queues [OF inv] Nil] max by (simp add: semaphore_v_def)
  with kinv_count_up [OF inv free Nil] show ?thesis
    by (intro exI [of _ "s\<lparr>k_counter := (k_counter s)(r := k_counter s r + 1)\<rparr>"] exI [of _ L])
      (auto simp: wake_frame_def evolves_def stuck_def)
next
  case (Cons t xs)
  then have t: "t \<in> set (L (Room r))" by simp
  obtain qs where qs: "mq_dequeue (Room r) (k_queues s) = (Some t, qs)" "mq_rep qs (taken t L)"
    using mq_dequeue_Cons [OF kinv_queues [OF inv] Cons] taken_hd [OF kinv_queues [OF inv] Cons] by auto
  have "semaphore_v r s = wakeup t (s\<lparr>k_queues := qs\<rparr>)" using qs(1) by (simp add: semaphore_v_def)
  with wakeup_kinv [OF inv t lock_free_may_take [OF inv t free] qs(2)]
    same_threads_appended [OF kinv_queues [OF inv] t, of ReadyList]
  show ?thesis by auto
qed

lemma kinv_free_lock:
  assumes inv: "kinv cur mx L M s" and own: "k_owner s m = Some t"
    and q': "mq_rep q' (M(t := remove1 m (M t)))"
  shows "kinv cur mx L (M(t := remove1 m (M t)))
      (s\<lparr>k_mutexes := q', k_owner := (k_owner s)(m := None)\<rparr>)" (is "kinv cur mx L ?M ?s")
    and "lock_free mx L m (s\<lparr>k_mutexes := q', k_owner := (k_owner s)(m := None)\<rparr>)"
proof -
  note parts = kinv_parts [OF inv]
  note D = locks_okD [OF parts(4)]
  have pend: "k_resume s u \<noteq> Some m" if "u \<in> set (L ReadyList)" for u
    using D(5) [OF that, of m] own by auto
  show "kinv cur mx L ?M ?s"
  proof (rule kinvI)
    show "queues_ok L ?s" using parts(1) by (simp add: queues_ok_def)
    show "life_ok cur L ?s" using parts(2) by (simp add: life_ok_def runs_def)
    show "idle_ok cur L ?s" using parts(3) by (simp add: idle_ok_def runs_def)
    show "locks_ok mx L ?s"
    proof (rule locks_okI, goal_cases)
      case (1 n u) then show ?case using D(1) [of n u] by simp next
      case (2 u n) then show ?case using D(2) [of u n] by simp next
      case (3 u n) then show ?case using D(3) [of u n] by simp next
      case (4 u v n) then show ?case using D(4) [of u v n] by simp next
      case (5 u n) then show ?case using D(5) [of u n] by simp next
      case (6 n u) then show ?case using D(6) [of n u] by (simp split: if_splits) next
      case (7 n) then show ?case using D(7) [of n] by simp
    qed
    have "distinct (M t)" "\<And>u. m \<in> set (M u) \<longleftrightarrow> u = t"
      using parts(5) own by (auto simp: mutexes_ok_def mq_rep_distinct)
    then show "mutexes_ok ?M ?s"
      using parts(5) q' by (auto simp: mutexes_ok_def)
    show "counters_ok L ?s" using parts(6) by (simp add: counters_ok_def)
    show "bells_ok mx ?s" using parts(7) by (simp add: bells_ok_def)
  qed
  show "lock_free mx L m (s\<lparr>k_mutexes := q', k_owner := (k_owner s)(m := None)\<rparr>)"
    using D(6) [OF own] pend by (simp add: lock_free_def)
qed

lemma mutex_unlock_kinv:
  assumes inv: "kinv cur mx L M s" and own: "k_owner s m = Some t"
  shows "\<exists>s' L'. mutex_unlock m s = Some (True, s') \<and> kinv cur mx L' (M(t := remove1 m (M t))) s' \<and>
    wake_frame s s' \<and> same_threads L L' \<and>
    (\<forall>ms. M t = m # ms \<longrightarrow> snd (k_mutexes s') = snd (k_mutexes s)) \<and> evolves UNIV {m} {} s s'"
proof -
  have rep: "mq_rep (k_mutexes s) M" and m: "m \<in> set (M t)"
    using kinv_parts(5) [OF inv] own by (auto simp: mutexes_ok_def)
  from mq_remove_rep [OF rep, of t m] m obtain q' where
    q': "mq_remove t m (k_mutexes s) = Some (Some m, q')" "mq_rep q' (M(t := remove1 m (M t)))" by auto
  let ?s1 = "s\<lparr>k_mutexes := q', k_owner := (k_owner s)(m := None)\<rparr>"
  note free = kinv_free_lock [OF inv own q'(2)]
  have "m \<in> mx" "k_counter s m = 0"
    using locks_okD(6) [OF kinv_parts(4) [OF inv] own] by auto
  then have "sint (k_counter ?s1 m) \<noteq> INT_MAX" by (simp add: INT_MAX_def)
  from semaphore_v_kinv [OF free this] obtain s' L' where s':
    "semaphore_v m ?s1 = Some s'" "kinv cur mx L' (M(t := remove1 m (M t))) s'" "wake_frame ?s1 s'"
    "same_threads L L'" "k_mutexes s' = q'" "evolves (- {m}) {m} {} ?s1 s'" by auto
  have ev: "evolves UNIV {m} {} s s'"
    using s'(6) own unfolding evolves_def stuck_def by auto
  have "mutex_unlock m s = Some (True, s')"
    using own q'(1) s'(1) by (simp add: mutex_unlock_def mutex_release_def)
  moreover have "wake_frame s s'" using s'(3) by (simp add: wake_frame_def)
  moreover have "snd q' = snd (k_mutexes s)" if "M t = m # ms" for ms
    using mq_remove_hd [OF rep that] q'(1) by auto
  ultimately show ?thesis using s' ev by auto
qed

lemma release_loop_kinv:
  "kinv cur mx L M s \<Longrightarrow> M t = ms \<Longrightarrow> p = (case ms of [] \<Rightarrow> None | m # _ \<Rightarrow> Some m) \<Longrightarrow>
     \<exists>s' L'. release_loop p ret s = Some (ret, s') \<and> kinv cur mx L' (M(t := [])) s' \<and>
       wake_frame s s' \<and> same_threads L L' \<and> evolves UNIV mx {} s s'"
proof (induction ms arbitrary: p L M s)
  case Nil
  then have "M(t := []) = M" by (simp add: fun_upd_idem)
  with Nil show ?case
    by (intro exI [of _ s] exI [of _ L]) (simp add: release_loop.simps)
next
  case (Cons m ms)
  note inv = Cons.prems(1)
  have rep: "mq_rep (k_mutexes s) M" and own: "k_owner s m = Some t"
    using kinv_parts(5) [OF inv] Cons.prems(2) unfolding mutexes_ok_def
    by (simp, metis list.set_intros(1))
  obtain s1 L1 where s1: "mutex_unlock m s = Some (True, s1)" "kinv cur mx L1 (M(t := ms)) s1"
      "wake_frame s s1" "same_threads L L1" "snd (k_mutexes s1) = snd (k_mutexes s)" "evolves UNIV {m} {} s s1"
    using mutex_unlock_kinv [OF inv own] Cons.prems(2) by auto
  have "m \<in> mx" using locks_okD(6) [OF kinv_parts(4) [OF inv] own] by simp
  then have ev: "evolves UNIV mx {} s s1" using evolves_mono [OF s1(6)] by auto
  have nxt: "snd (k_mutexes s1) m = (case ms of [] \<Rightarrow> None | m # _ \<Rightarrow> Some m)"
    using mq_next_hd [OF rep, of t m ms] Cons.prems(2) s1(5) by simp
  obtain s' L' where "release_loop (snd (k_mutexes s1) m) ret s1 = Some (ret, s')"
      "kinv cur mx L' (M(t := [])) s'" "wake_frame s1 s'" "same_threads L1 L'" "evolves UNIV mx {} s1 s'"
    using Cons.IH [OF s1(2) fun_upd_same nxt] unfolding fun_upd_upd by blast
  with s1 ev Cons.prems(3) show ?case
    by (subst release_loop.simps) (auto dest: wake_frame_trans same_threads_trans evolves_trans)
qed

lemma thread_destruct_kinv:
  assumes alive: "\<not> k_gone s t"
    and inv: "kinv cur mx L M (delete_stack t (s\<lparr>k_gone := (k_gone s)(t := True)\<rparr>))"
  shows "\<exists>s' L'. thread_destruct t s = Some s' \<and> kinv cur mx L' (M(t := [])) s' \<and>
    k_life s' = k_life s \<and> k_gone s' t \<and> \<not> k_stack s' t \<and> k_bells s' = k_bells s \<and> evolves UNIV mx {t} s s' \<and>
    evolves UNIV mx {} (delete_stack t (s\<lparr>k_gone := (k_gone s)(t := True)\<rparr>)) s'"
proof -
  let ?s = "delete_stack t (s\<lparr>k_gone := (k_gone s)(t := True)\<rparr>)"
  have rep: "mq_rep (k_mutexes ?s) M" using kinv_parts(5) [OF inv] by (simp add: mutexes_ok_def)
  obtain s' L' where "release_loop (mq_first t (k_mutexes ?s)) True ?s = Some (True, s')"
      "kinv cur mx L' (M(t := [])) s'" "wake_frame ?s s'" "evolves UNIV mx {} ?s s'"
    using release_loop_kinv [OF inv refl mq_first_rep [OF rep, of t], of True] by blast
  moreover from this(4) have "evolves UNIV mx {t} s s' \<and> evolves UNIV mx {} ?s s'"
    using evolves_bury [of t s "k_queues s"] evolves_trans [OF evolves_mono evolves_mono] by simp
  moreover have "k_life ?s = k_life s" "k_gone ?s t" "\<not> k_stack ?s t" "k_bells ?s = k_bells s"
    by (simp_all add: delete_stack_def)
  ultimately show ?thesis
    using alive by (auto simp: thread_destruct_def mutex_release_all_def wake_frame_def)
qed

end
