(* ===== verification/KernelOps.thy ===== *)
theory KernelOps
  imports KernelInv
begin

section \<open>The kernel operations keep the invariant\<close>

text \<open>
  Every operation of \<open>kop\<close>, called in a consistent state by a CPU that executes a thread,
  succeeds (no null pointer is followed, no destructor runs twice, no bell in freed memory is
  touched, no counter overflows) and leaves a consistent state. \<open>op_ok\<close> says what each caller has
  to respect.
\<close>

definition op_pre :: "room set \<Rightarrow> (tq \<Rightarrow> tid list) \<Rightarrow> nat \<Rightarrow> kop \<Rightarrow> kstate \<Rightarrow> bool" where
  "op_pre mx L cpu op s \<longleftrightarrow> cpu < CPU_MAX \<and> k_life s cpu \<noteq> None \<and>
     (case op of
        Ready t \<Rightarrow> loose None L t s \<and> k_resume s t = None
      | Exit \<Rightarrow> k_idle s cpu \<noteq> k_life s cpu
      | Kill t \<Rightarrow> \<not> k_gone s t \<and> (\<forall>c. k_idle s c \<noteq> Some t)
      | SemP r \<Rightarrow> r \<notin> mx \<and> k_idle s cpu \<noteq> k_life s cpu
      | SemV r \<Rightarrow> r \<notin> mx \<and> sint (k_counter s r) \<noteq> INT_MAX
      | Lock m \<Rightarrow> m \<in> mx \<and> k_idle s cpu \<noteq> k_life s cpu
      | Unlock m \<Rightarrow> k_owner s m \<noteq> None
      | Sleep b ms \<Rightarrow> b \<notin> mx \<and> L (Room b) = [] \<and> sint (k_counter s b) \<le> 0 \<and>
          (\<forall>A. br_rep (k_bells s) A \<longrightarrow> b \<notin> fst ` set A) \<and> k_idle s cpu \<noteq> k_life s cpu
      | _ \<Rightarrow> True)"

text \<open>A bell that is in the list of the bellringer.\<close>

definition pending :: "room \<Rightarrow> kstate \<Rightarrow> bool" where
  "pending b s \<longleftrightarrow> (\<exists>A. br_rep (k_bells s) A \<and> b \<in> fst ` set A)"

text \<open>No one may destroy a thread that sleeps, since that would free its bell, and only the
  bellringer wakes it.\<close>

definition op_ok :: "room set \<Rightarrow> (tq \<Rightarrow> tid list) \<Rightarrow> nat \<Rightarrow> kop \<Rightarrow> kstate \<Rightarrow> bool" where
  "op_ok mx L cpu op s \<longleftrightarrow> op_pre mx L cpu op s \<and>
     (case op of
        Kill t \<Rightarrow> (\<forall>b. pending b s \<longrightarrow> k_waiting s t \<noteq> Some b)
      | SemV r \<Rightarrow> \<not> pending r s
      | _ \<Rightarrow> True)"

lemmas op_defs = op_ok_def op_pre_def

text \<open>Every pending bell lies on the stack of a thread that waits for it and has not been destroyed.\<close>

definition bells_alive :: "kstate \<Rightarrow> bool" where
  "bells_alive s \<longleftrightarrow> (\<forall>b. pending b s \<longrightarrow> \<not> k_lost s b \<and>
     (\<exists>t. k_bell_on s b = Some t \<and> k_waiting s t = Some b \<and> \<not> k_gone s t))"

lemma pending_iff:
  assumes "br_rep (k_bells s) A"
  shows "pending b s \<longleftrightarrow> b \<in> fst ` set A"
proof -
  have "fst ` set A' = fst ` set A" if "br_rep (k_bells s) A'" for A'
    using queue_rep_unique [OF br_rep_queue [OF that] br_rep_queue [OF assms]] by (metis set_map)
  with assms show ?thesis unfolding pending_def by blast
qed

lemma bells_alive_evolves:
  assumes alive: "bells_alive s" and ev: "evolves S X D s s'"
    and X: "\<And>b. pending b s \<Longrightarrow> b \<notin> X" and D: "\<And>t b. t \<in> D \<Longrightarrow> pending b s \<Longrightarrow> k_waiting s t \<noteq> Some b"
  shows "bells_alive s'"
  unfolding bells_alive_def
proof (intro allI impI)
  fix b
  assume "pending b s'"
  then have b: "pending b s" using ev by (simp add: pending_def evolves_def)
  then obtain t where t: "\<not> k_lost s b" "k_bell_on s b = Some t" "k_waiting s t = Some b" "\<not> k_gone s t"
    using alive by (auto simp: bells_alive_def)
  have "t \<notin> D" using D b t(3) by blast
  with t X [OF b] ev show "\<not> k_lost s' b \<and> (\<exists>t. k_bell_on s' b = Some t \<and> k_waiting s' t = Some b \<and> \<not> k_gone s' t)"
    unfolding evolves_def by force
qed

text \<open>Which threads an operation may wake or destroy: any in the mutexes, and those it names.\<close>

fun wakes :: "room set \<Rightarrow> kop \<Rightarrow> room set" where
  "wakes mx (SemV r) = insert r mx"
| "wakes mx _ = mx"

definition ends :: "kop \<Rightarrow> kstate \<Rightarrow> tid set" where
  "ends op s = {t. op = Kill t \<or> k_waiting s t = None}"

definition step_evolves :: "room set \<Rightarrow> kop \<Rightarrow> kstate \<Rightarrow> kstate \<Rightarrow> bool" where
  "step_evolves mx op s s' \<longleftrightarrow> evolves mx (wakes mx op) (ends op s) s s'"

lemma step_evolvesI:
  "evolves UNIV X D s s' \<Longrightarrow> X \<subseteq> mx \<Longrightarrow> D \<subseteq> ends op s \<Longrightarrow> step_evolves mx op s s'"
  unfolding step_evolves_def by (erule evolves_mono) (cases op; auto)+

lemma step_evolves_then:
  "step_evolves mx op s s' \<Longrightarrow> evolves UNIV {} {} s' s'' \<Longrightarrow> step_evolves mx op s s''"
  unfolding step_evolves_def by (rule evolves_then)

text \<open>The result of a step: consistent, and no CPU lost its thread.\<close>

definition step_good :: "room set \<Rightarrow> kstate \<Rightarrow> kstate \<Rightarrow> bool" where
  "step_good mx s s' \<longleftrightarrow> (\<exists>L M. kinv None mx L M s') \<and> (\<forall>c. k_life s c \<noteq> None \<longrightarrow> k_life s' c \<noteq> None)"

lemma finish_lock_idle:
  assumes "kinv None mx L M s"
  shows "finish_lock cpu s = Some s"
proof (cases "k_life s cpu")
  case (Some t)
  then have "runs None s cpu t" by (simp add: runs_def)
  from life_okD(3) [OF kinv_parts(2) [OF assms] this] Some show ?thesis
    by (simp add: finish_lock_def active_def)
qed (simp add: finish_lock_def active_def)

lemma kstep_simple:
  assumes "kop_body cpu op s = Some s'" "kinv None mx L M s'" "k_life s' = k_life s" "step_evolves mx op s s'"
  shows "\<exists>s'. kstep cpu op s = Some s' \<and> step_good mx s s' \<and> step_evolves mx op s s'"
  using assms finish_lock_idle [OF assms(2), of cpu] by (auto simp: kstep_def step_good_def)

lemma kstep_switch:
  assumes "kop_body cpu op s = dispatch_next cpu s1" "kinv (Some cpu) mx L M s1" "k_life s1 = k_life s"
    and "cpu < CPU_MAX" "k_life s cpu \<noteq> None"
  shows "\<exists>s'. kstep cpu op s = Some s' \<and> step_good mx s s' \<and> evolves UNIV {} {} s1 s'"
proof -
  have "k_life s1 cpu \<noteq> None" using assms(3,5) by simp
  from dispatch_next_kinv [OF assms(2,4) this] obtain s2 s' L' M' t where
    "dispatch_next cpu s1 = Some s2" "finish_lock cpu s2 = Some s'"
    "kinv None mx L' M' s'" "k_life s' = (k_life s1)(cpu := Some t)" "evolves UNIV {} {} s1 s'" by blast
  with assms show ?thesis by (intro exI [of _ s']) (auto simp: kstep_def step_good_def)
qed

lemma kstep_switch_evolves:
  assumes "kop_body cpu op s = dispatch_next cpu s1" "kinv (Some cpu) mx L M s1" "k_life s1 = k_life s"
    and "cpu < CPU_MAX" "k_life s cpu \<noteq> None" "step_evolves mx op s s1"
  shows "\<exists>s'. kstep cpu op s = Some s' \<and> step_good mx s s' \<and> step_evolves mx op s s'"
  using kstep_switch [OF assms(1-5)] step_evolves_then [OF assms(6)] by blast

lemma active_loose:
  assumes inv: "kinv None mx L M s" and t: "k_life s cpu = Some t" and idle: "k_idle s cpu \<noteq> Some t"
  shows "loose (Some cpu) L t s" "k_resume s t = None"
proof -
  have run: "runs None s cpu t" using t by (simp add: runs_def)
  note D = life_okD [OF kinv_parts(2) [OF inv] run]
  have "k_idle s c \<noteq> Some t" for c
    using idle_okD(5) [OF kinv_parts(3) [OF inv], of c t cpu] run idle by auto
  moreover have "\<not> runs (Some cpu) s c t" for c
    using D(4) [of c] by (auto simp: runs_def)
  ultimately show "loose (Some cpu) L t s" using D(1,2) by (simp add: loose_def)
  show "k_resume s t = None" by (rule D(3))
qed

lemma active_ends:
  assumes "kinv None mx L M s" "k_life s cpu = Some t"
  shows "t \<in> ends op s"
proof -
  have "runs None s cpu t" using assms(2) by (simp add: runs_def)
  from life_okD(1,2) [OF kinv_parts(2) [OF assms(1)] this] have "k_waiting s t = None"
    by (intro not_waiting [OF assms(1)]) auto
  then show ?thesis by (simp add: ends_def)
qed

lemma loose_taken: "loose cur L t s \<Longrightarrow> taken t L = L"
  by (simp add: loose_def taken_absent)

lemma kinv_ready_loose:
  assumes inv: "kinv cur mx L M s" and t: "loose cur L t s" and res: "k_resume s t = None"
  shows "kinv cur mx (appended t ReadyList L) M (ready_enqueue t s)"
proof -
  have w: "k_waiting s t = None"
    using queues_okD(1) [OF kinv_parts(1) [OF inv], of t] t by (auto simp: loose_def not_Some_eq [symmetric])
  have "mq_rep (on_queue ReadyList (enqueue t) (k_queues s)) (appended t ReadyList L)"
    using mq_enqueue [OF kinv_queues [OF inv], of t ReadyList] t
    by (simp add: appended_def loose_taken [OF t]) (simp add: loose_def)
  from kinv_make_ready [OF inv _ _ _ _ this] t res w
  have "kinv cur mx (appended t ReadyList L) M
      (s\<lparr>k_queues := on_queue ReadyList (enqueue t) (k_queues s), k_waiting := (k_waiting s)(t := None)\<rparr>)"
    by (simp add: loose_def may_take_def)
  moreover have "(k_waiting s)(t := None) = k_waiting s" using w by (simp add: fun_upd_idem)
  ultimately show ?thesis by (simp add: ready_enqueue_def)
qed

text \<open>Blocking, with \<open>k_resume\<close> set by the caller if the room is a mutex.\<close>

lemma block_kinv:
  assumes inv: "kinv None mx L M s" and t: "k_life s cpu = Some t" and idle: "k_idle s cpu \<noteq> Some t"
    and free: "\<not> 0 < sint (k_counter s w)"
  shows "\<exists>s1 L'. block cpu w (s\<lparr>k_resume := (k_resume s)(t := if w \<in> mx then Some w else None)\<rparr>) =
    dispatch_next cpu s1 \<and> kinv (Some cpu) mx L' M s1 \<and> k_life s1 = k_life s \<and> evolves UNIV {} {} s s1 \<and>
    k_waiting s1 t = Some w"
proof -
  note loose = active_loose [OF inv t idle]
  let ?r = "(k_resume s)(t := if w \<in> mx then Some w else None)"
  let ?q = "on_queue (Room w) (enqueue t) (k_queues s)"
  let ?s1 = "s\<lparr>k_queues := ?q, k_waiting := (k_waiting s)(t := Some w), k_resume := ?r\<rparr>"
  have "mq_rep ?q (L(Room w := L (Room w) @ [t]))"
    using loose(1) by (intro mq_enqueue [OF kinv_queues [OF inv]]) (simp add: loose_def)
  from kinv_put_room [OF kinv_detach [OF inv] loose(1) free refl this]
  have "kinv (Some cpu) mx (L(Room w := L (Room w) @ [t])) M ?s1" .
  moreover have "block cpu w (s\<lparr>k_resume := ?r\<rparr>) = dispatch_next cpu ?s1"
    using t by (cases s) (simp add: block_def active_def set_waiting_def)
  moreover have "k_waiting s t = None" using not_waiting [OF inv, of t] loose(1) by (simp add: loose_def)
  then have "evolves UNIV {} {} s ?s1" by (auto simp: evolves_def stuck_def)
  ultimately show ?thesis by force
qed

lemma block_plain:
  assumes inv: "kinv None mx L M s" and t: "k_life s cpu = Some t" and idle: "k_idle s cpu \<noteq> Some t"
    and free: "\<not> 0 < sint (k_counter s w)" and w: "w \<notin> mx"
  shows "\<exists>s1 L'. block cpu w s = dispatch_next cpu s1 \<and> kinv (Some cpu) mx L' M s1 \<and> k_life s1 = k_life s \<and>
    evolves UNIV {} {} s s1 \<and> k_waiting s1 t = Some w"
proof -
  have "(k_resume s)(t := None) = k_resume s"
    using active_loose(2) [OF inv t idle] by (simp add: fun_upd_idem)
  then show ?thesis using block_kinv [OF inv t idle free] w by simp
qed

subsection \<open>The operations\<close>

lemma step_Ready:
  assumes inv: "kinv None mx L M s" and ok: "op_pre mx L cpu (Ready t) s"
  shows "\<exists>s'. kstep cpu (Ready t) s = Some s' \<and> step_good mx s s' \<and> step_evolves mx (Ready t) s s'"
proof (rule kstep_simple)
  show "kop_body cpu (Ready t) s = Some (guarded_ready t s)" by simp
  have "loose None L t (thread_inc s)" "k_resume (thread_inc s) t = None"
    using ok by (simp_all add: op_pre_def loose_def thread_inc_def runs_def)
  then show "kinv None mx (appended t ReadyList L) M (guarded_ready t s)"
    using inv by (simp add: guarded_ready_def ready_def kinv_ready_loose)
  show "k_life (guarded_ready t s) = k_life s"
    by (simp add: guarded_ready_def ready_def ready_enqueue_def thread_inc_def)
  have "evolves UNIV {} {} s (guarded_ready t s)"
    by (rule evolves_other) (simp_all add: guarded_ready_def ready_def ready_enqueue_def thread_inc_def)
  then show "step_evolves mx (Ready t) s (guarded_ready t s)" by (rule step_evolvesI) simp_all
qed

lemma bury_loose:
  assumes inv: "kinv cur mx L M s" and t: "loose cur L t s"
  shows "\<exists>s' L'. thread_destruct t s = Some s' \<and> kinv cur mx L' (M(t := [])) s' \<and> k_life s' = k_life s \<and>
    k_gone s' t \<and> \<not> k_stack s' t \<and> k_bells s' = k_bells s \<and> evolves UNIV mx {t} s s' \<and>
    evolves UNIV mx {} (delete_stack t (s\<lparr>k_gone := (k_gone s)(t := True)\<rparr>)) s'"
proof (rule thread_destruct_kinv)
  show "\<not> k_gone s t" using t by (simp add: loose_def)
  have "mq_rep (k_queues s) (taken t L)" using kinv_queues [OF inv] loose_taken [OF t] by simp
  from kinv_bury [OF inv _ _ this] t
  show "kinv cur mx L M (delete_stack t (s\<lparr>k_gone := (k_gone s)(t := True)\<rparr>))"
    by (simp add: loose_def loose_taken [OF t])
qed

lemma bury_active:
  assumes inv: "kinv None mx L M s" and t: "k_life s cpu = Some t" and idle: "k_idle s cpu \<noteq> Some t"
  shows "\<exists>s' L'. thread_destruct t s = Some s' \<and> kinv (Some cpu) mx L' (M(t := [])) s' \<and>
    k_life s' = k_life s \<and> evolves UNIV mx {t} s s'"
  using bury_loose [OF kinv_detach [OF inv] active_loose(1) [OF inv t idle]] by blast

lemma step_exit:
  assumes inv: "kinv None mx L M s" and cpu: "cpu < CPU_MAX"
    and t: "k_life s cpu = Some t" and idle: "k_idle s cpu \<noteq> Some t"
    and body: "kop_body cpu op s0 = sched_exit cpu s" and life: "k_life s0 = k_life s"
    and ev: "evolves UNIV {} {} s0 s" "t \<in> ends op s0"
  shows "\<exists>s'. kstep cpu op s0 = Some s' \<and> step_good mx s0 s' \<and> step_evolves mx op s0 s'"
proof -
  obtain s1 L1 where s1: "thread_destruct t s = Some s1" "kinv (Some cpu) mx L1 (M(t := [])) s1"
      "k_life s1 = k_life s" "evolves UNIV mx {t} s s1"
    using bury_active [OF inv t idle] by blast
  have "evolves UNIV mx {t} s0 s1"
    by (rule evolves_trans [OF evolves_mono [OF ev(1)] s1(4)]) auto
  then have "step_evolves mx op s0 s1" using ev(2) by (intro step_evolvesI) auto
  note ev1 = this
  have "kop_body cpu op s0 = dispatch_next cpu s1"
    using body t s1(1) by (simp add: sched_exit_def active_def)
  from kstep_switch_evolves [OF this s1(2) _ _ _ ev1] s1(3) life cpu t show ?thesis by simp
qed

lemma step_Exit:
  assumes inv: "kinv None mx L M s" and ok: "op_pre mx L cpu Exit s"
  shows "\<exists>s'. kstep cpu Exit s = Some s' \<and> step_good mx s s' \<and> step_evolves mx Exit s s'"
proof -
  obtain t where t: "k_life s cpu = Some t" "k_idle s cpu \<noteq> Some t" "cpu < CPU_MAX"
    using ok by (auto simp: op_pre_def)
  have "evolves UNIV {} {} s (thread_dec s)" by (rule evolves_other) (simp_all add: thread_dec_def)
  then show ?thesis
    by (intro step_exit [of mx L M "thread_dec s" cpu t] active_ends [OF inv t(1)])
      (use inv t in \<open>simp_all add: guarded_exit_def, simp_all add: thread_dec_def\<close>)
qed

lemma step_Assassin:
  assumes inv: "kinv None mx L M s" and ok: "op_pre mx L cpu Assassin s"
  shows "\<exists>s'. kstep cpu Assassin s = Some s' \<and> step_good mx s s' \<and> step_evolves mx Assassin s s'"
proof -
  obtain t where t: "k_life s cpu = Some t" "cpu < CPU_MAX"
    using ok by (auto simp: op_pre_def)
  show ?thesis
  proof (cases "k_killed s t")
    case True
    then have "k_idle s cpu \<noteq> Some t" using idle_okD(2) [OF kinv_parts(3) [OF inv]] by blast
    with True t active_ends [OF inv t(1)] show ?thesis
      by (intro step_exit [OF inv, of cpu t]) (simp_all add: assassin_epilogue_def active_def)
  next
    case False
    with t show ?thesis
      by (intro kstep_simple [OF _ inv]) (simp_all add: assassin_epilogue_def active_def step_evolves_def)
  qed
qed

lemma step_Resume:
  assumes inv: "kinv None mx L M s" and ok: "op_pre mx L cpu Resume s"
  shows "\<exists>s'. kstep cpu Resume s = Some s' \<and> step_good mx s s' \<and> step_evolves mx Resume s s'"
proof -
  obtain t where t: "k_life s cpu = Some t" "cpu < CPU_MAX"
    using ok by (auto simp: op_pre_def)
  consider (killed) "k_killed s t" | (queued) "\<not> k_killed s t" "k_idle s cpu \<noteq> Some t"
    | (idle) "\<not> k_killed s t" "k_idle s cpu = Some t" by blast
  then show ?thesis
  proof cases
    case killed
    then have "k_idle s cpu \<noteq> Some t" using idle_okD(2) [OF kinv_parts(3) [OF inv]] by blast
    then obtain s1 L1 where s1: "thread_destruct t s = Some s1" "kinv (Some cpu) mx L1 (M(t := [])) s1"
        "k_life s1 = k_life s" "evolves UNIV mx {t} s s1"
      using bury_active [OF inv t(1)] by blast
    have "step_evolves mx Resume s s1" using active_ends [OF inv t(1)] by (intro step_evolvesI [OF s1(4)]) auto
    then show ?thesis
      using killed t s1 by (intro kstep_switch_evolves [OF _ s1(2)]) (simp_all add: sched_resume_def active_def)
  next
    case queued
    note loose = active_loose [OF inv t(1) queued(2)]
    have "evolves UNIV {} {} s (ready_enqueue t s)" by (rule evolves_other) (simp_all add: ready_enqueue_def)
    then have "step_evolves mx Resume s (ready_enqueue t s)" by (rule step_evolvesI) simp_all
    then show ?thesis
      using queued t
      by (intro kstep_switch_evolves [OF _ kinv_ready_loose [OF kinv_detach [OF inv] loose]])
        (simp_all add: sched_resume_def active_def, simp_all add: ready_enqueue_def)
  next
    case idle
    have "kinv (Some cpu) mx L M (set_idle cpu False s)" using kinv_detach [OF inv] by simp
    moreover have "evolves UNIV {} {} s (set_idle cpu False s)" by (rule evolves_other) (simp_all add: set_idle_def)
    then have "step_evolves mx Resume s (set_idle cpu False s)" by (rule step_evolvesI) simp_all
    ultimately show ?thesis
      by (intro kstep_switch_evolves) (use idle t in \<open>simp_all add: sched_resume_def active_def, simp_all add: set_idle_def\<close>)
  qed
qed

lemma counter_down_kinv:
  assumes inv: "kinv cur mx L M s" and pos: "0 < sint (k_counter s r)" and r: "r \<notin> mx"
  shows "kinv cur mx L M (s\<lparr>k_counter := (k_counter s)(r := k_counter s r - 1)\<rparr>)" (is "kinv cur mx L M ?s")
proof (rule kinvI)
  note parts = kinv_parts [OF inv]
  note D = locks_okD [OF parts(4)]
  show "queues_ok L ?s" using parts(1) by (simp add: queues_ok_def)
  show "life_ok cur L ?s" using parts(2) by (simp add: life_ok_def runs_def)
  show "idle_ok cur L ?s" using parts(3) by (simp add: idle_ok_def runs_def)
  show "locks_ok mx L ?s"
  proof (rule locks_okI, goal_cases)
    case (1 m u) then show ?case using D(1) [of m u] by simp next
    case (2 u m) then show ?case using D(2) [of u m] by simp next
    case (3 u m) then show ?case using D(3) [of u m] by simp next
    case (4 u v m) then show ?case using D(4) [of u v m] by simp next
    case (5 u m)
    then have "m \<in> mx" using D(2) [of u m] queued_thread(1) [OF inv, of u ReadyList] by simp
    with 5 r show ?case using D(5) [of u m] by auto
  next
    case (6 m u) then show ?case using D(6) [of m u] r by auto next
    case (7 m) then show ?case using D(7) [of m] r by auto
  qed
  show "mutexes_ok M ?s" using parts(5) by (simp add: mutexes_ok_def)
  show "counters_ok L ?s" using parts(6) pos by (auto simp: counters_ok_def)
  show "bells_ok mx ?s" using parts(7) by (simp add: bells_ok_def)
qed

lemma step_P:
  assumes inv: "kinv None mx L M s" and ok: "op_pre mx L cpu (SemP r) s"
  shows "\<exists>s'. kstep cpu (SemP r) s = Some s' \<and> step_good mx s s' \<and> step_evolves mx (SemP r) s s'"
proof -
  obtain t where t: "k_life s cpu = Some t" "k_idle s cpu \<noteq> Some t" "cpu < CPU_MAX" "r \<notin> mx"
    using ok by (auto simp: op_pre_def)
  show ?thesis
  proof (cases "0 < sint (k_counter s r)")
    case True
    let ?s1 = "s\<lparr>k_counter := (k_counter s)(r := k_counter s r - 1)\<rparr>"
    have "evolves mx {} {} s ?s1" using t(4) by (auto simp: evolves_def stuck_def)
    then have "step_evolves mx (SemP r) s ?s1" unfolding step_evolves_def by (rule evolves_mono) auto
    then show ?thesis
      by (intro kstep_simple [OF _ counter_down_kinv [OF inv True t(4)]])
        (use True in \<open>simp_all add: semaphore_p_def\<close>)
  next
    case False
    obtain s1 L1 where s1: "block cpu r s = dispatch_next cpu s1" "kinv (Some cpu) mx L1 M s1"
        "k_life s1 = k_life s" "evolves UNIV {} {} s s1"
      using block_plain [OF inv t(1,2) False t(4)] by blast
    have "step_evolves mx (SemP r) s s1" by (rule step_evolvesI [OF s1(4)]) simp_all
    note ev = this
    have "kop_body cpu (SemP r) s = dispatch_next cpu s1"
      using False s1(1) by (simp add: semaphore_p_def option.map_comp comp_def option.map_ident)
    from kstep_switch_evolves [OF this s1(2,3) _ _ ev] t show ?thesis by simp
  qed
qed

lemma step_V:
  assumes inv: "kinv None mx L M s" and ok: "op_pre mx L cpu (SemV r) s"
  shows "\<exists>s'. kstep cpu (SemV r) s = Some s' \<and> step_good mx s s' \<and> step_evolves mx (SemV r) s s'"
proof -
  have r: "r \<notin> mx" "sint (k_counter s r) \<noteq> INT_MAX" using ok by (auto simp: op_pre_def)
  then have "lock_free mx L r s" by (simp add: lock_free_def)
  from semaphore_v_kinv [OF inv this r(2)] obtain s' L' where
    s': "semaphore_v r s = Some s'" "kinv None mx L' M s'" "wake_frame s s'" "evolves (- {r}) {r} {} s s'" by blast
  have "step_evolves mx (SemV r) s s'"
    unfolding step_evolves_def by (rule evolves_mono [OF s'(4)]) (use r in auto)
  then show ?thesis
    by (intro kstep_simple [OF _ s'(2)]) (use s' in \<open>simp_all add: wake_frame_def\<close>)
qed

lemma step_Unlock:
  assumes inv: "kinv None mx L M s" and ok: "op_pre mx L cpu (Unlock m) s"
  shows "\<exists>s'. kstep cpu (Unlock m) s = Some s' \<and> step_good mx s s' \<and> step_evolves mx (Unlock m) s s'"
proof -
  obtain t where own: "k_owner s m = Some t" using ok by (auto simp: op_pre_def)
  from mutex_unlock_kinv [OF inv this] obtain s' L' where
    s': "mutex_unlock m s = Some (True, s')" "kinv None mx L' (M(t := remove1 m (M t))) s'"
      "wake_frame s s'" "evolves UNIV {m} {} s s'" by blast
  have "m \<in> mx" using locks_okD(6) [OF kinv_parts(4) [OF inv] own] by simp
  then have "step_evolves mx (Unlock m) s s'" by (intro step_evolvesI [OF s'(4)]) auto
  then show ?thesis
    by (intro kstep_simple [OF _ s'(2)]) (use s' in \<open>simp_all add: wake_frame_def\<close>)
qed

lemma kinv_kill_flag:
  assumes inv: "kinv cur mx L M s" and t: "\<forall>c. k_idle s c \<noteq> Some t"
  shows "kinv cur mx L M (set_kill_flag t s)"
proof (rule kinvI)
  note parts = kinv_parts [OF inv]
  show "queues_ok L (set_kill_flag t s)" using parts(1) by (simp add: queues_ok_def set_kill_flag_def)
  show "life_ok cur L (set_kill_flag t s)" using parts(2) by (simp add: life_ok_def runs_def set_kill_flag_def)
  show "idle_ok cur L (set_kill_flag t s)"
    using parts(3) t by (auto simp: idle_ok_def runs_def set_kill_flag_def)
  have "locks_ok mx L (set_kill_flag t s) = locks_ok mx L s" by (simp add: locks_ok_def set_kill_flag_def)
  with parts(4) show "locks_ok mx L (set_kill_flag t s)" by simp
  show "mutexes_ok M (set_kill_flag t s)" using parts(5) by (simp add: mutexes_ok_def set_kill_flag_def)
  show "counters_ok L (set_kill_flag t s)" using parts(6) by (simp add: counters_ok_def set_kill_flag_def)
  show "bells_ok mx (set_kill_flag t s)" using parts(7) by (simp add: bells_ok_def set_kill_flag_def)
qed

lemma bury_queued:
  assumes inv: "kinv cur mx L M s" and t: "t \<in> set (L q)" and qs: "mq_rep qs (taken t L)"
  shows "\<exists>s' L'. thread_destruct t (s\<lparr>k_queues := qs\<rparr>) = Some s' \<and> kinv cur mx L' (M(t := [])) s' \<and>
    k_life s' = k_life s \<and> k_gone s' t \<and> \<not> k_stack s' t \<and> k_bells s' = k_bells s \<and> evolves UNIV mx {t} s s' \<and>
    evolves UNIV mx {} (delete_stack t (s\<lparr>k_queues := qs, k_gone := (k_gone s)(t := True)\<rparr>)) s'"
proof -
  obtain s' L' where s': "thread_destruct t (s\<lparr>k_queues := qs\<rparr>) = Some s'" "kinv cur mx L' (M(t := [])) s'"
      "k_life s' = k_life s" "k_gone s' t" "\<not> k_stack s' t" "k_bells s' = k_bells s"
      "evolves UNIV mx {t} (s\<lparr>k_queues := qs\<rparr>) s'"
      "evolves UNIV mx {} (delete_stack t (s\<lparr>k_queues := qs, k_gone := (k_gone s)(t := True)\<rparr>)) s'"
    using thread_destruct_kinv [of "s\<lparr>k_queues := qs\<rparr>" t cur mx "taken t L" M]
      kinv_bury [OF inv queued_thread(2,3) [OF inv t] qs] queued_thread(1) [OF inv t] by auto
  have "evolves UNIV mx {t} s (s\<lparr>k_queues := qs\<rparr>)" by (rule evolves_other) simp_all
  from evolves_trans [OF this s'(7)] s' show ?thesis by blast
qed

lemma find_SomeD: "find P xs = Some x \<Longrightarrow> P x \<and> x \<in> set xs"
  by (induction xs) (auto split: if_splits)

lemma step_Kill:
  assumes inv0: "kinv None mx L M s0" and ok: "op_pre mx L cpu (Kill t) s0"
  shows "\<exists>s'. kstep cpu (Kill t) s0 = Some s' \<and> step_good mx s0 s' \<and> step_evolves mx (Kill t) s0 s'"
proof -
  define s where "s = thread_dec s0"
  have inv: "kinv None mx L M s" and life: "k_life s0 = k_life s" using inv0 by (simp_all add: s_def)
    (simp add: thread_dec_def)
  have t: "\<not> k_gone s t" "\<forall>c. k_idle s c \<noteq> Some t" "cpu < CPU_MAX" "k_life s cpu \<noteq> None"
    using ok by (simp_all add: op_pre_def s_def thread_dec_def)
  note rep = kinv_queues [OF inv]
  have dec: "evolves UNIV X D s0 s" for X D by (rule evolves_other) (simp_all add: s_def thread_dec_def)
  have ev: "step_evolves mx (Kill t) s0 s'" if "evolves UNIV mx {t} s s'" for s'
    by (rule step_evolvesI [OF evolves_trans [OF dec that]]) (auto simp: ends_def)
  have body: "kop_body cpu (Kill t) s0 = sched_kill cpu t s" by (simp add: guarded_kill_def s_def)
  obtain q where q: "mq_remove ReadyList t (k_queues s) = Some (if t \<in> set (L ReadyList) then Some t else None, q)"
      "mq_rep q (L(ReadyList := remove1 t (L ReadyList)))"
    using mq_remove_rep [OF rep, of ReadyList t] by blast
  consider (queued) "t \<in> set (L ReadyList)"
    | (waiting) r where "t \<notin> set (L ReadyList)" "k_waiting s t = Some r"
    | (other) "t \<notin> set (L ReadyList)" "k_waiting s t = None" by fastforce
  then show ?thesis
  proof cases
    case queued
    have "mq_rep q (taken t L)" using q(2) taken_single [OF rep queued] by simp
    from bury_queued [OF inv queued this] obtain s' L' where
      s': "thread_destruct t (s\<lparr>k_queues := q\<rparr>) = Some s'" "kinv None mx L' (M(t := [])) s'"
        "k_life s' = k_life s" "evolves UNIV mx {t} s s'" by blast
    show ?thesis
      by (rule kstep_simple [OF _ s'(2) _ ev [OF s'(4)]]) (use body q(1) queued s' life in \<open>simp_all add: sched_kill_def\<close>)
  next
    case (waiting r)
    then have r: "t \<in> set (L (Room r))"
      using queues_okD(1) [OF kinv_parts(1) [OF inv] t(1)] by simp
    have q_L: "mq_rep q L" using q(2) waiting(1) by (simp add: remove1_idem fun_upd_idem)
    from mq_remove_rep [OF q_L, of "Room r" t] r obtain q2 where
      q2: "mq_remove (Room r) t q = Some (Some t, q2)" "mq_rep q2 (taken t L)"
      using taken_single [OF rep r] by auto
    from bury_queued [OF inv r q2(2)] obtain s' L' where
      s': "thread_destruct t (s\<lparr>k_queues := q2\<rparr>) = Some s'" "kinv None mx L' (M(t := [])) s'"
        "k_life s' = k_life s" "evolves UNIV mx {t} s s'" by blast
    show ?thesis
      by (rule kstep_simple [OF _ s'(2) _ ev [OF s'(4)]])
        (use body q(1) q2(1) waiting s' life in \<open>simp_all add: sched_kill_def room_remove_def\<close>)
  next
    case other
    have "q = k_queues s"
      using q(1) other(1) mq_remove_absent [OF rep, of t ReadyList] by simp
    then have killed: "sched_kill cpu t s = (case executing_cpu t (set_kill_flag t s) of
          None \<Rightarrow> Some (set_kill_flag t s)
        | Some dest \<Rightarrow> if dest = cpu
            then Option.bind (thread_destruct t (set_kill_flag t s)) (dispatch_next cpu)
            else Some (send_ipi (k_lapic s (of_nat dest)) IpiAssassin (set_kill_flag t s)))"
      using q(1) other
      by (auto simp: sched_kill_def Let_def set_kill_flag_def split: option.split)
    note inv1 = kinv_kill_flag [OF inv t(2)]
    have life1: "k_life (set_kill_flag t s) = k_life s" "k_idle (set_kill_flag t s) = k_idle s"
      by (simp_all add: set_kill_flag_def)
    have flag: "evolves UNIV mx {t} s (set_kill_flag t s)" by (rule evolves_other) (simp_all add: set_kill_flag_def)
    show ?thesis
    proof (cases "executing_cpu t (set_kill_flag t s) = Some cpu")
      case True
      then have "k_life (set_kill_flag t s) cpu = Some t"
        unfolding executing_cpu_def by (auto dest: find_SomeD)
      from bury_active [OF inv1 this] t(2) life1 obtain s1 L1 where s1:
        "thread_destruct t (set_kill_flag t s) = Some s1" "kinv (Some cpu) mx L1 (M(t := [])) s1"
        "k_life s1 = k_life s" "evolves UNIV mx {t} (set_kill_flag t s) s1" by auto
      show ?thesis
        by (rule kstep_switch_evolves [OF _ s1(2) _ _ _ ev [OF evolves_trans [OF flag s1(4)]]])
          (use body killed True s1 life t in simp_all)
    next
      case False
      then have "sched_kill cpu t s = Some (set_kill_flag t s) \<or>
          (\<exists>d v. sched_kill cpu t s = Some (send_ipi d v (set_kill_flag t s)))"
        using killed by (auto split: option.splits)
      moreover have "evolves UNIV mx {t} s (send_ipi d v (set_kill_flag t s))" for d v
        by (rule evolves_other) (simp_all, simp_all add: set_kill_flag_def)
      ultimately obtain s' where s': "sched_kill cpu t s = Some s'" "kinv None mx L M s'" "k_life s' = k_life s"
          "evolves UNIV mx {t} s s'"
        using inv1 life1 flag by auto
      show ?thesis by (rule kstep_simple [OF _ s'(2) _ ev [OF s'(4)]]) (use body s' life in simp_all)
    qed
  qed
qed

lemma acquire_kinv:
  assumes inv: "kinv None mx L M s" and t: "k_life s cpu = Some t" and idle: "k_idle s cpu \<noteq> Some t"
    and m: "m \<in> mx" and pos: "0 < sint (k_counter s m)"
  shows "\<exists>M'. kinv None mx L M' (mutex_hold t m (s\<lparr>k_counter := (k_counter s)(m := k_counter s m - 1),
      k_owner := (k_owner s)(m := Some t)\<rparr>))" (is "\<exists>M'. kinv None mx L M' ?s")
proof
  let ?M = "M(t := M t @ [m])"
  note parts = kinv_parts [OF inv]
  note D = locks_okD [OF parts(4)]
  have "k_counter s m \<noteq> 0" using pos by (metis signed_0 less_irrefl)
  then have one: "k_counter s m = 1" by (rule D(7) [OF m])
  have free: "k_owner s m = None" using D(6) [of m] one by (cases "k_owner s m") auto
  have pend: "k_resume s u \<noteq> Some m" if "u \<in> set (L ReadyList)" for u
    using D(5) [OF that, of m] one by auto
  show "kinv None mx L ?M ?s"
  proof (rule kinvI)
    show "queues_ok L ?s" using parts(1) by (simp add: queues_ok_def mutex_hold_def)
    show "life_ok None L ?s" using parts(2) by (simp add: life_ok_def runs_def mutex_hold_def)
    show "idle_ok None L ?s" using parts(3) by (simp add: idle_ok_def runs_def mutex_hold_def)
    show "locks_ok mx L ?s"
      unfolding mutex_hold_def
    proof (rule locks_okI, goal_cases)
      case (1 n u) then show ?case using D(1) [of n u] by simp next
      case (2 u n) then show ?case using D(2) [of u n] by simp next
      case (3 u n) then show ?case using D(3) [of u n] by simp next
      case (4 u v n) then show ?case using D(4) [of u v n] by simp next
      case (5 u n) then show ?case using D(5) [of u n] pend [of u] by auto next
      case (6 n u) then show ?case using D(6) [of n u] m one by (auto split: if_splits) next
      case (7 n) then show ?case using D(7) [of n] one by (auto split: if_splits)
    qed
    have "mq_rep (on_queue t (enqueue m) (k_mutexes s)) ?M"
      using parts(5) free by (intro mq_enqueue) (auto simp: mutexes_ok_def)
    then show "mutexes_ok ?M ?s" using parts(5) free by (auto simp: mutexes_ok_def mutex_hold_def)
    show "counters_ok L ?s" using parts(6) one by (auto simp: counters_ok_def mutex_hold_def)
    show "bells_ok mx ?s" using parts(7) by (simp add: bells_ok_def mutex_hold_def)
  qed
qed

lemma step_Lock:
  assumes inv: "kinv None mx L M s" and ok: "op_pre mx L cpu (Lock m) s"
  shows "\<exists>s'. kstep cpu (Lock m) s = Some s' \<and> step_good mx s s' \<and> step_evolves mx (Lock m) s s'"
proof -
  obtain t where t: "k_life s cpu = Some t" "k_idle s cpu \<noteq> Some t" "cpu < CPU_MAX" "m \<in> mx"
    using ok by (auto simp: op_pre_def)
  note res = active_loose(2) [OF inv t(1,2)]
  show ?thesis
  proof (cases "0 < sint (k_counter s m)")
    case True
    let ?s1 = "mutex_hold t m (s\<lparr>k_counter := (k_counter s)(m := k_counter s m - 1),
      k_owner := (k_owner s)(m := Some t)\<rparr>)"
    obtain M' where M': "kinv None mx L M' ?s1" using acquire_kinv [OF inv t(1,2,4) True] by blast
    have "(k_resume s)(t := None) = k_resume s" using res by (simp add: fun_upd_idem)
    then have "kop_body cpu (Lock m) s = Some ?s1"
      using True t(1)
      by (cases s) (simp add: mutex_lock_def active_def semaphore_p_def mutex_acquire_def mutex_hold_def)
    moreover have "k_counter s m \<noteq> 0" using True by (metis signed_0 less_irrefl)
    then have "evolves UNIV {} {} s ?s1" by (auto simp: evolves_def stuck_def mutex_hold_def)
    then have "step_evolves mx (Lock m) s ?s1" by (rule step_evolvesI) simp_all
    ultimately show ?thesis by (intro kstep_simple [OF _ M']) (simp_all add: mutex_hold_def)
  next
    case False
    obtain s1 L1 where s1: "block cpu m (s\<lparr>k_resume := (k_resume s)(t := Some m)\<rparr>) = dispatch_next cpu s1"
        "kinv (Some cpu) mx L1 M s1" "k_life s1 = k_life s" "evolves UNIV {} {} s s1"
      using block_kinv [OF inv t(1,2) False] t(4) by auto
    have ev: "step_evolves mx (Lock m) s s1" by (rule step_evolvesI [OF s1(4)]) simp_all
    have "kop_body cpu (Lock m) s = dispatch_next cpu s1"
      using False t(1) s1(1)
      by (cases "dispatch_next cpu s1") (simp_all add: mutex_lock_def active_def semaphore_p_def)
    from kstep_switch_evolves [OF this s1(2,3) _ _ ev] t show ?thesis by simp
  qed
qed

text \<open>No CPU executes a thread that waits.\<close>

lemma waiting_not_executed:
  assumes "kinv None mx L M s" "k_waiting s t = Some r"
  shows "k_life s c \<noteq> Some t"
proof
  assume "k_life s c = Some t"
  then have "runs None s c t" by (simp add: runs_def)
  from life_okD(1,2) [OF kinv_parts(2) [OF assms(1)] this] assms(2) not_waiting [OF assms(1)] show False by auto
qed

text \<open>Whoever locks a mutex that is not free waits for it.\<close>

lemma lock_blocks:
  assumes inv: "kinv None mx L M s" and ok: "op_pre mx L cpu (Lock m) s" and t: "k_life s cpu = Some t"
    and closed: "k_counter s m = 0" and step: "kstep cpu (Lock m) s = Some s'"
  shows "k_waiting s' t = Some m"
proof -
  have p: "k_idle s cpu \<noteq> Some t" "cpu < CPU_MAX" "m \<in> mx" using ok t by (auto simp: op_pre_def)
  have f: "\<not> 0 < sint (k_counter s m)" using closed by simp
  obtain s1 L1 where s1: "block cpu m (s\<lparr>k_resume := (k_resume s)(t := Some m)\<rparr>) = dispatch_next cpu s1"
      "kinv (Some cpu) mx L1 M s1" "k_life s1 = k_life s" "k_waiting s1 t = Some m"
    using block_kinv [OF inv t p(1) f] p(3) by auto
  have "kop_body cpu (Lock m) s = dispatch_next cpu s1"
    using f t s1(1) by (cases "dispatch_next cpu s1") (simp_all add: mutex_lock_def active_def semaphore_p_def)
  from kstep_switch [OF this s1(2,3) p(2)] t step have "evolves UNIV {} {} s1 s'" by auto
  with s1(4) show ?thesis by (auto simp: evolves_def)
qed

subsection \<open>Bells\<close>

lemma bells_okE:
  assumes "kinv cur mx L M s"
  obtains A where "br_rep (k_bells s) A" "fst ` set A \<inter> mx = {}"
  using assms unfolding kinv_def bells_ok_def by blast

lemma kinv_set_bells:
  assumes "kinv cur mx L M s" "br_rep br A" "fst ` set A \<inter> mx = {}"
  shows "kinv cur mx L M (s\<lparr>k_bells := br\<rparr>)"
proof -
  note parts = kinv_parts [OF assms(1)]
  have "locks_ok mx L (s\<lparr>k_bells := br\<rparr>) = locks_ok mx L s" by (simp add: locks_ok_def)
  moreover have "bells_ok mx (s\<lparr>k_bells := br\<rparr>)" using assms(2,3) by (auto simp: bells_ok_def)
  ultimately show ?thesis
    using parts by (intro kinvI)
      (simp_all add: queues_ok_def life_ok_def idle_ok_def mutexes_ok_def counters_ok_def runs_def)
qed

lemma bell_ring_kinv:
  "kinv cur mx L M s \<Longrightarrow> b \<notin> mx \<Longrightarrow> L (Room b) = ts \<Longrightarrow>
     \<exists>s' L'. bell_ring b s = Some s' \<and> kinv cur mx L' M s' \<and> wake_frame s s' \<and> evolves (- {b}) {b} {} s s'"
proof (induction ts arbitrary: L s)
  case Nil
  have "mq_dequeue (Room b) (k_queues s) = (None, k_queues s)"
    using mq_dequeue_Nil [OF kinv_queues [OF Nil.prems(1)] Nil.prems(3)] .
  then have "bell_ring b s = Some s" by (subst bell_ring.simps) simp
  with Nil.prems(1) show ?case by (metis wake_frame_refl evolves_refl)
next
  case (Cons t ts)
  note inv = Cons.prems(1)
  have t: "t \<in> set (L (Room b))" using Cons.prems(3) by simp
  obtain qs where qs: "mq_dequeue (Room b) (k_queues s) = (Some t, qs)" "mq_rep qs (taken t L)"
    using mq_dequeue_Cons [OF kinv_queues [OF inv] Cons.prems(3)]
      taken_hd [OF kinv_queues [OF inv] Cons.prems(3)] by auto
  have free: "lock_free mx L b s" using Cons.prems(2) by (simp add: lock_free_def)
  obtain s1 where s1: "wakeup t (s\<lparr>k_queues := qs\<rparr>) = Some s1"
      "kinv cur mx (appended t ReadyList L) M s1" "wake_frame s s1" "evolves (- {b}) {b} {} s s1"
    using wakeup_kinv [OF inv t lock_free_may_take [OF inv t free] qs(2)] by blast
  have "appended t ReadyList L (Room b) = ts"
    using Cons.prems(3) by (simp add: appended_def taken_def)
  from Cons.IH [OF s1(2) Cons.prems(2) this] obtain s' L' where
    s': "bell_ring b s1 = Some s'" "kinv cur mx L' M s'" "wake_frame s1 s'" "evolves (- {b}) {b} {} s1 s'" by blast
  have "bell_ring b s = Some s'" using qs(1) s1(1) s'(1) by (subst bell_ring.simps) simp
  with s'(2) wake_frame_trans [OF s1(3) s'(3)] evolves_trans [OF s1(4) s'(4)] show ?case by blast
qed

lemma ring_all_kinv:
  "kinv cur mx L M s \<Longrightarrow> set bs \<inter> mx = {} \<Longrightarrow>
     \<exists>s' L'. ring_all bell_ring bs s = Some s' \<and> kinv cur mx L' M s' \<and> wake_frame s s' \<and>
       evolves (- set bs) (set bs) {} s s'"
proof (induction bs arbitrary: L s)
  case Nil
  then show ?case by (auto intro: exI [of _ L])
next
  case (Cons b bs)
  obtain s1 L1 where s1: "bell_ring b s = Some s1" "kinv cur mx L1 M s1" "wake_frame s s1"
      "evolves (- {b}) {b} {} s s1"
    using bell_ring_kinv [OF Cons.prems(1) _ refl, of b] Cons.prems(2) by auto
  from Cons.IH [OF s1(2)] Cons.prems(2) obtain s' L' where
    s': "ring_all bell_ring bs s1 = Some s'" "kinv cur mx L' M s'" "wake_frame s1 s'"
      "evolves (- set bs) (set bs) {} s1 s'" by auto
  have "evolves (- set (b # bs)) (set (b # bs)) {} s s'"
    by (rule evolves_trans [OF evolves_mono [OF s1(4)] evolves_mono [OF s'(4)]]) auto
  with s1 s' wake_frame_trans show ?case by auto
qed

text \<open>If no bell that rings and none behind it has been freed, all pointers may be followed.\<close>

lemma dangling_evolves: "evolves S X {} s s' \<Longrightarrow> dangling p s' \<Longrightarrow> dangling p s"
  by (auto simp: dangling_def evolves_def split: option.splits)

lemma ring_all_there:
  "kinv cur mx L M s \<Longrightarrow> set bs \<inter> mx = {} \<Longrightarrow>
     (\<And>b. b \<in> set bs \<Longrightarrow> \<not> dangling (Some b) s \<and> \<not> dangling (queue_next b (br_list (k_bells s))) s) \<Longrightarrow>
     ring_all ring_there bs s = ring_all bell_ring bs s"
proof (induction bs arbitrary: L s)
  case (Cons b bs)
  obtain s1 L1 where s1: "bell_ring b s = Some s1" "kinv cur mx L1 M s1" "evolves (- {b}) {b} {} s s1"
    using bell_ring_kinv [OF Cons.prems(1) _ refl, of b] Cons.prems(2) by auto
  have bells: "k_bells s1 = k_bells s" using s1(3) by (simp add: evolves_def)
  have "ring_all ring_there bs s1 = ring_all bell_ring bs s1"
  proof (rule Cons.IH [OF s1(2)])
    show "set bs \<inter> mx = {}" using Cons.prems(2) by auto
    show "\<not> dangling (Some c) s1 \<and> \<not> dangling (queue_next c (br_list (k_bells s1))) s1" if "c \<in> set bs" for c
      using Cons.prems(3) [of c] that dangling_evolves [OF s1(3)] by (auto simp: bells)
  qed
  moreover have "ring_there b s = Some s1" using Cons.prems(3) [of b] s1(1) by (simp add: ring_there_def)
  ultimately show ?case using s1(1) by simp
qed simp

text \<open>The pointers in the list of the bellringer lead to pending bells.\<close>

lemma bells_there:
  assumes alive: "bells_alive s" and A: "br_rep (k_bells s) A"
  shows "\<not> dangling (queue_first (br_list (k_bells s))) s"
    and "b \<in> fst ` set A \<Longrightarrow> \<not> dangling (Some b) s \<and> \<not> dangling (queue_next b (br_list (k_bells s))) s"
proof -
  note rep = br_rep_queue [OF A]
  have there: "\<not> k_lost s b" if "b \<in> set (map fst A)" for b
    using alive that by (simp add: bells_alive_def pending_iff [OF A])
  show "\<not> dangling (queue_first (br_list (k_bells s))) s"
    using there by (cases A) (auto simp: dangling_def queue_first_rep [OF rep])
  assume b: "b \<in> fst ` set A"
  then obtain xs ys where l: "map fst A = xs @ b # ys" by (metis set_map split_list)
  have "queue_next b (br_list (k_bells s)) = (case ys of [] \<Rightarrow> None | y # _ \<Rightarrow> Some y)"
    using queue_next_rep [of _ xs b ys] rep l by simp
  then show "\<not> dangling (Some b) s \<and> \<not> dangling (queue_next b (br_list (k_bells s))) s"
    using there l by (auto simp: dangling_def split: list.splits)
qed

text \<open>What \<open>kernel_step_safe\<close> needs beyond \<open>step_good\<close>.\<close>

definition stuck_kept :: "room set \<Rightarrow> kstate \<Rightarrow> kstate \<Rightarrow> bool" where
  "stuck_kept mx s s' \<longleftrightarrow>
     (\<forall>m \<in> mx. stuck m s \<longrightarrow> stuck m s' \<and> (\<forall>t. k_waiting s t = Some m \<longrightarrow> k_waiting s' t = Some m))"

lemma evolves_stuck: "evolves S X D s s' \<Longrightarrow> mx \<subseteq> S \<Longrightarrow> stuck_kept mx s s'"
  by (auto simp: evolves_def stuck_kept_def)

lemma step_evolves_kept:
  assumes inv: "kinv None mx L M s" and alive: "bells_alive s" and ok: "op_ok mx L cpu op s"
    and ev: "step_evolves mx op s s'"
  shows "bells_alive s'" "stuck_kept mx s s'"
proof -
  note ev = ev [unfolded step_evolves_def]
  obtain A where A: "br_rep (k_bells s) A" "fst ` set A \<inter> mx = {}" using bells_okE [OF inv] .
  show "stuck_kept mx s s'" by (rule evolves_stuck [OF ev]) simp
  show "bells_alive s'"
  proof (rule bells_alive_evolves [OF alive ev])
    show "b \<notin> wakes mx op" if "pending b s" for b
      using that A(2) ok by (cases op) (auto simp: pending_iff [OF A(1)] op_ok_def)
    show "k_waiting s t \<noteq> Some b" if "t \<in> ends op s" "pending b s" for t b
      using that ok by (auto simp: ends_def op_ok_def)
  qed
qed

lemma clock_check_bells: "fst ` set (clock_check A) \<subseteq> fst ` set A"
  by (force simp: clock_check_def dest: set_dropWhileD)

lemma clock_rung_bells: "set (clock_rung A) \<subseteq> fst ` set A"
  by (auto simp: clock_rung_def dest: set_takeWhileD)

lemma clock_check_silent:
  assumes "br_rep s A" "b \<in> fst ` set (clock_check A)"
  shows "b \<notin> set (clock_rung A)"
proof -
  let ?P = "\<lambda>(_, t). t = (1 :: nat)"
  have "distinct (map fst (takeWhile ?P A @ dropWhile ?P A))"
    using queue_rep_distinct [OF br_rep_queue [OF assms(1)]] by simp
  moreover have "map fst (clock_check A) = map fst (dropWhile ?P A)"
    by (simp add: clock_check_def case_prod_unfold)
  then have "b \<in> set (map fst (dropWhile ?P A))" using assms(2) by (metis set_map)
  ultimately show ?thesis unfolding clock_rung_def map_append distinct_append by blast
qed

lemma step_Check:
  assumes inv: "kinv None mx L M s" and alive: "bells_alive s"
  shows "\<exists>s'. kstep cpu Check s = Some s' \<and> step_good mx s s' \<and> bells_alive s' \<and> stuck_kept mx s s'"
proof -
  obtain A where A: "br_rep (k_bells s) A" "fst ` set A \<inter> mx = {}" using bells_okE [OF inv] .
  obtain br where br: "\<And>k. bell_check ring_there (k_bells s) k =
      map_option (Pair br) (ring_all ring_there (clock_rung A) k)" "br_rep br (clock_check A)"
    using check_rep [OF A(1), of ring_there] by blast
  note there = bells_there [OF alive A(1)]
  have rung: "set (clock_rung A) \<inter> mx = {}" using A(2) clock_rung_bells [of A] by blast
  from ring_all_kinv [OF inv this] obtain s1 L1 where
    s1: "ring_all bell_ring (clock_rung A) s = Some s1" "kinv None mx L1 M s1" "wake_frame s s1"
      "evolves (- set (clock_rung A)) (set (clock_rung A)) {} s s1" by blast
  have "ring_all ring_there (clock_rung A) s = Some s1"
    using ring_all_there [OF inv rung there(2)] clock_rung_bells [of A] s1(1) by (simp add: subset_iff)
  then have check: "bellringer_check s = Some (s1\<lparr>k_bells := br\<rparr>)"
    using br(1) there(1) by (simp add: bellringer_check_def)
  have "fst ` set (clock_check A) \<inter> mx = {}" using A(2) clock_check_bells [of A] by blast
  note inv' = kinv_set_bells [OF s1(2) br(2) this]
  have step: "kstep cpu Check s = Some (s1\<lparr>k_bells := br\<rparr>)"
    using check finish_lock_idle [OF inv'] by (simp add: kstep_def)
  moreover have "step_good mx s (s1\<lparr>k_bells := br\<rparr>)"
    using inv' s1(3) unfolding step_good_def wake_frame_def by auto
  moreover have "bells_alive (s1\<lparr>k_bells := br\<rparr>)"
    unfolding bells_alive_def
  proof (intro allI impI)
    fix b
    assume "pending b (s1\<lparr>k_bells := br\<rparr>)"
    then have b: "b \<in> fst ` set (clock_check A)" using pending_iff [of "s1\<lparr>k_bells := br\<rparr>"] br(2) by simp
    then have "pending b s" using clock_check_bells [of A] by (auto simp: pending_iff [OF A(1)])
    then obtain t where t: "\<not> k_lost s b" "k_bell_on s b = Some t" "k_waiting s t = Some b" "\<not> k_gone s t"
      using alive by (auto simp: bells_alive_def)
    have "b \<notin> set (clock_rung A)" using clock_check_silent [OF A(1) b] .
    with t s1(4) show "\<not> k_lost (s1\<lparr>k_bells := br\<rparr>) b \<and> (\<exists>t. k_bell_on (s1\<lparr>k_bells := br\<rparr>) b = Some t \<and>
        k_waiting (s1\<lparr>k_bells := br\<rparr>) t = Some b \<and> \<not> k_gone (s1\<lparr>k_bells := br\<rparr>) t)"
      unfolding evolves_def by auto
  qed
  moreover have "stuck_kept mx s (s1\<lparr>k_bells := br\<rparr>)"
    using evolves_stuck [OF s1(4), of mx] rung by (auto simp: stuck_kept_def stuck_def)
  ultimately show ?thesis by blast
qed

text \<open>The loop of \<^verbatim>\<open>job\<close> stays within the list.\<close>

lemma job_visits_there:
  "chain (snd (br_list (k_bells s))) p xs \<Longrightarrow> \<forall>b \<in> set xs. \<not> k_lost s b \<Longrightarrow> job_visits p ms s = Some ()"
proof (induction xs arbitrary: p ms)
  case Nil
  then show ?case by (subst job_visits.simps) simp
next
  case (Cons b xs)
  then show ?case by (subst job_visits.simps) (auto simp: queue_next_def)
qed

lemma br_rep_forget:
  assumes "br_rep br A" "b \<notin> fst ` set A"
  shows "br_rep (br\<lparr>br_ms := (br_ms br)(b := v),
    br_list := (fst (br_list br), (snd (br_list br))(b := w))\<rparr>) A"
proof -
  have "queue_rep (fst (br_list br), (snd (br_list br))(b := w)) (map fst A)"
    by (rule queue_rep_frame [of _ "snd (br_list br)"]) (use assms in \<open>auto simp: br_rep_def\<close>)
  with assms show ?thesis by (simp add: br_rep_def)
qed

lemma kinv_bell_new:
  assumes inv: "kinv cur mx L M s" and b: "L (Room b) = []" and A: "br_rep (k_bells s) A"
    and fresh: "b \<notin> fst ` set A" "fst ` set A \<inter> mx = {}"
  shows "kinv cur mx L M (bell_new cpu b s)" "br_rep (k_bells (bell_new cpu b s)) A"
proof -
  show br: "br_rep (k_bells (bell_new cpu b s)) A"
    using br_rep_forget [OF A fresh(1)] by (simp add: bell_new_def)
  let ?s = "s\<lparr>k_bell_on := (k_bell_on s)(b := active cpu s), k_lost := (k_lost s)(b := False),
    k_queues := ((fst (k_queues s))(Room b := queue_new), snd (k_queues s))\<rparr>"
  note parts = kinv_parts [OF inv]
  have L: "L(Room b := []) = L" using b by (simp add: fun_upd_idem)
  have "locks_ok mx L ?s = locks_ok mx L s" by (simp add: locks_ok_def)
  then have "kinv cur mx L M ?s"
    using parts mq_rep_reset [OF kinv_queues [OF inv], of "Room b"] L by (intro kinvI)
      (simp_all add: queues_ok_def life_ok_def idle_ok_def mutexes_ok_def counters_ok_def runs_def bells_ok_def)
  from kinv_set_bells [OF this br fresh(2)] show "kinv cur mx L M (bell_new cpu b s)"
    by (simp add: bell_new_def)
qed

lemma bell_new_fields [simp]:
  "k_life (bell_new cpu b s) = k_life s" "k_idle (bell_new cpu b s) = k_idle s"
  "k_counter (bell_new cpu b s) = k_counter s" "k_waiting (bell_new cpu b s) = k_waiting s"
  "k_gone (bell_new cpu b s) = k_gone s" "k_owner (bell_new cpu b s) = k_owner s"
  "k_resume (bell_new cpu b s) = k_resume s" "k_lost (bell_new cpu b s) = (k_lost s)(b := False)"
  "k_bell_on (bell_new cpu b s) = (k_bell_on s)(b := k_life s cpu)"
  by (simp_all add: bell_new_def active_def)

lemma step_Sleep:
  assumes inv: "kinv None mx L M s" and ok: "op_pre mx L cpu (Sleep b ms) s" and alive: "bells_alive s"
  shows "\<exists>s'. kstep cpu (Sleep b ms) s = Some s' \<and> step_good mx s s' \<and> bells_alive s' \<and> stuck_kept mx s s'"
proof (cases "ms = 0")
  case True
  then have "kstep cpu (Sleep b ms) s = Some s" using finish_lock_idle [OF inv] by (simp add: kstep_def bell_sleep_def)
  with inv alive show ?thesis by (auto simp: step_good_def stuck_kept_def)
next
  case False
  obtain t where t: "k_life s cpu = Some t" "k_idle s cpu \<noteq> Some t" "cpu < CPU_MAX"
    using ok by (auto simp: op_pre_def)
  obtain A where A: "br_rep (k_bells s) A" "fst ` set A \<inter> mx = {}" using bells_okE [OF inv] .
  have b: "b \<notin> mx" "L (Room b) = []" "\<not> 0 < sint (k_counter s b)" "b \<notin> fst ` set A"
    using ok A(1) by (auto simp: op_pre_def)
  let ?s1 = "bell_new cpu b s"
  note new = kinv_bell_new [OF inv b(2) A(1) b(4) A(2), of cpu]
  have "0 < unat ms" "unat ms < 2 ^ 32" using False by (simp_all add: unat_gt_0 unat_lt2p_32)
  from job_rep [OF new(2) b(4) this] obtain br where
    br: "bell_job b ms (k_bells ?s1) = Some br" "br_rep br (clock_job b (unat ms) A)" by auto
  have bells: "fst ` set (clock_job b (unat ms) A) = insert b (fst ` set A)" by (simp add: set_clock_job)
  then have "fst ` set (clock_job b (unat ms) A) \<inter> mx = {}" using A(2) b(1) by simp
  note inv2 = kinv_set_bells [OF new(1) br(2) this]
  let ?s2 = "?s1\<lparr>k_bells := br\<rparr>"
  obtain s3 L3 where s3: "block cpu b ?s2 = dispatch_next cpu s3" "kinv (Some cpu) mx L3 M s3"
      "k_life s3 = k_life s" "evolves UNIV {} {} ?s2 s3" "k_waiting s3 t = Some b"
    using block_plain [OF inv2, of cpu t b] t b by auto
  have there: "\<forall>c \<in> fst ` set A. \<not> k_lost ?s1 c"
    using alive by (auto simp: bells_alive_def pending_iff [OF A(1)])
  have "chain (snd (br_list (k_bells ?s1))) (queue_first (br_list (k_bells ?s1))) (map fst A)"
    using br_rep_queue [OF new(2)] by (cases "br_list (k_bells ?s1)") (simp add: queue_rep_def queue_first_def)
  from job_visits_there [OF this] there
  have "job_visits (queue_first (br_list (k_bells ?s1))) ms ?s1 = Some ()" by simp
  then have "kop_body cpu (Sleep b ms) s = dispatch_next cpu s3"
    using False br(1) s3(1) by (simp add: bell_sleep_def Let_def)
  from kstep_switch [OF this s3(2,3)] t obtain s' where
    s': "kstep cpu (Sleep b ms) s = Some s'" "step_good mx s s'" "evolves UNIV {} {} s3 s'" by auto
  note ev = evolves_trans [OF s3(4) s'(3)]
  have "bells_alive s'"
    unfolding bells_alive_def
  proof (intro allI impI)
    fix c
    assume "pending c s'"
    moreover have "br_rep (k_bells s') (clock_job b (unat ms) A)" using ev br(2) by (simp add: evolves_def)
    ultimately have c: "c = b \<or> c \<noteq> b \<and> pending c s" using bells by (auto simp: pending_iff pending_iff [OF A(1)])
    have "runs None s cpu t" using t(1) by (simp add: runs_def)
    then have gone: "\<not> k_gone s t" by (rule life_okD(1) [OF kinv_parts(2) [OF inv]])
    have "k_waiting s' t = Some b" using s3(5) s'(3) by (simp add: evolves_def)
    with c gone ev t(1) alive show "\<not> k_lost s' c \<and> (\<exists>t. k_bell_on s' c = Some t \<and> k_waiting s' t = Some c \<and> \<not> k_gone s' t)"
      unfolding evolves_def bells_alive_def by fastforce
  qed
  moreover have "stuck_kept mx s ?s2" by (simp add: stuck_kept_def stuck_def)
  then have "stuck_kept mx s s'" using evolves_stuck [OF ev, of mx] by (auto simp: stuck_kept_def)
  ultimately show ?thesis using s'(1,2) by blast
qed

lemma kstep_total:
  assumes inv: "kinv None mx L M s" and alive: "bells_alive s" and ok: "op_ok mx L cpu op s"
  shows "\<exists>s'. kstep cpu op s = Some s' \<and> step_good mx s s' \<and> bells_alive s' \<and> stuck_kept mx s s'"
proof -
  have pre: "op_pre mx L cpu op s" using ok by (simp add: op_ok_def)
  consider (bell) b ms where "op = Sleep b ms" | (check) "op = Check"
    | (other) "\<exists>s'. kstep cpu op s = Some s' \<and> step_good mx s s' \<and> step_evolves mx op s s'"
    using step_Ready [OF inv] step_Exit [OF inv] step_Kill [OF inv] step_Resume [OF inv] step_P [OF inv]
      step_V [OF inv] step_Lock [OF inv] step_Unlock [OF inv] step_Assassin [OF inv] pre
    by (cases op) blast+
  then show ?thesis
  proof cases
    case bell
    then show ?thesis using step_Sleep [OF inv _ alive] pre by simp
  next
    case check
    then show ?thesis using step_Check [OF inv alive] by simp
  next
    case other
    then show ?thesis using step_evolves_kept [OF inv alive ok] by blast
  qed
qed

end
