(* ===== verification/KernelProps.thy ===== *)
theory KernelProps
  imports KernelOps
begin

section \<open>Properties of the kernel\<close>

text \<open>
  The initial state, the states reachable from it by operations that respect \<open>op_ok\<close>, and
  the properties of the scheduler, the semaphores and the mutexes.
\<close>

text \<open>After the constructors, with the idle threads \<open>0\<close> to \<open>7\<close> set and the CPUs executing
  the threads \<open>life\<close>; a mutex starts with the counter 1.\<close>

definition kernel_init :: "(nat \<Rightarrow> tid option) \<Rightarrow> room set \<Rightarrow> (room \<Rightarrow> u32) \<Rightarrow> nat \<Rightarrow> kstate" where
  "kernel_init life mx count online = \<lparr>
     k_queues = (\<lambda>_. queue_new, Map.empty), k_waiting = Map.empty, k_killed = (\<lambda>_. False),
     k_stack = (\<lambda>_. True), k_gone = (\<lambda>_. False), k_resume = Map.empty,
     k_mutexes = (\<lambda>_. queue_new, Map.empty), k_owner = Map.empty,
     k_counter = (\<lambda>r. if r \<in> mx then 1 else count r), k_life = life,
     k_idle = (\<lambda>c. if c < CPU_MAX then Some c else None),
     k_bells = bellringer_new Map.empty (\<lambda>_. 0), k_online = online, k_lapic = id, k_ipi = [],
     k_cpu_idle = (\<lambda>_. False), k_threads = 0, k_bell_on = Map.empty, k_lost = (\<lambda>_. False)\<rparr>"

definition boot_life :: "(nat \<Rightarrow> tid option) \<Rightarrow> bool" where
  "boot_life life \<longleftrightarrow> (\<forall>c c' t. life c = Some t \<longrightarrow> life c' = Some t \<longrightarrow> c' = c) \<and>
     (\<forall>c t. life c = Some t \<longrightarrow> t < CPU_MAX \<longrightarrow> t = c)"

lemma kernel_init_kinv:
  assumes "boot_life life"
  shows "kinv None mx (\<lambda>_. []) (\<lambda>_. []) (kernel_init life mx count online)" (is "kinv _ _ _ _ ?s")
proof (rule kinvI)
  show "queues_ok (\<lambda>_. []) ?s" by (simp add: queues_ok_def kernel_init_def mq_rep_new)
  show "life_ok None (\<lambda>_. []) ?s"
    using assms by (auto simp: life_ok_def runs_def kernel_init_def boot_life_def)
  show "idle_ok None (\<lambda>_. []) ?s"
    using assms by (auto simp: idle_ok_def runs_def kernel_init_def boot_life_def split: if_splits)
  show "locks_ok mx (\<lambda>_. []) ?s" by (rule locks_okI) (simp_all add: kernel_init_def)
  show "mutexes_ok (\<lambda>_. []) ?s" by (simp add: mutexes_ok_def kernel_init_def mq_rep_new)
  show "counters_ok (\<lambda>_. []) ?s" by (simp add: counters_ok_def)
  show "bells_ok mx ?s"
    unfolding bells_ok_def kernel_init_def
    by (rule exI [of _ "[]"]) (simp add: br_rep_new)
qed

inductive kreach :: "room set \<Rightarrow> kstate \<Rightarrow> bool" for mx where
  init: "boot_life life \<Longrightarrow> kreach mx (kernel_init life mx count online)"
| step: "kreach mx s \<Longrightarrow> mq_rep (k_queues s) L \<Longrightarrow> op_ok mx L cpu op s \<Longrightarrow> kstep cpu op s = Some s' \<Longrightarrow>
    kreach mx s'"

lemma kernel_init_alive: "bells_alive (kernel_init life mx count online)"
  using pending_iff [of "kernel_init life mx count online" "[]"]
  by (simp add: bells_alive_def kernel_init_def br_rep_new)

lemma kreach_inv: "kreach mx s \<Longrightarrow> (\<exists>L M. kinv None mx L M s) \<and> bells_alive s"
proof (induction rule: kreach.induct)
  case (init life count online)
  then show ?case using kernel_init_kinv kernel_init_alive by blast
next
  case (step s L cpu op s')
  then obtain L' M where inv: "kinv None mx L' M s" by blast
  then have "L' = L" using mq_rep_unique [OF kinv_queues [OF inv] step.hyps(2)] by simp
  with kstep_total [of mx L M s cpu op] inv step show ?case by (auto simp: step_good_def)
qed

lemmas kreach_kinv = kreach_inv [THEN conjunct1] and kreach_alive = kreach_inv [THEN conjunct2]

text \<open>A state for the witnesses: CPU 0 executes thread 8, CPU 1 thread 9, room 1 is a mutex,
  room 2 a semaphore with counter 0.\<close>

definition two_cpus :: kstate where
  "two_cpus = kernel_init [0 \<mapsto> 8, 1 \<mapsto> 9] {1} (\<lambda>_. 0) 2"

lemma two_cpus_boot: "boot_life [0 \<mapsto> 8, 1 \<mapsto> 9]"
  by (auto simp: boot_life_def CPU_MAX_def split: if_splits)

lemma two_cpus_kinv: "kinv None {1} (\<lambda>_. []) (\<lambda>_. []) two_cpus"
  unfolding two_cpus_def by (rule kernel_init_kinv [OF two_cpus_boot])

lemma two_cpus_life:
  "k_life two_cpus 0 = Some 8" "k_life two_cpus 1 = Some 9" "k_life two_cpus (Suc 0) = Some 9"
  "k_idle two_cpus 0 = Some 0" "k_idle two_cpus 1 = Some 1" "k_idle two_cpus (Suc 0) = Some 1"
  "k_killed two_cpus t = False" "k_resume two_cpus t = None" "k_counter two_cpus 2 = 0" "k_counter two_cpus 3 = 0"
  "k_owner two_cpus m = None" "k_gone two_cpus t = False"
  by (simp_all add: two_cpus_def kernel_init_def CPU_MAX_def)

lemma two_cpus_alive: "bells_alive two_cpus"
  unfolding two_cpus_def by (rule kernel_init_alive)

lemma two_cpus_silent [simp]: "\<not> pending b two_cpus"
  using pending_iff [of two_cpus "[]"] by (simp add: two_cpus_def kernel_init_def br_rep_new)

subsection \<open>Safety of every operation\<close>

text \<open>Property C1. Every kernel operation that a CPU executes in a consistent state, within
  the obligations \<open>op_ok\<close> of its caller, runs to its end: it follows no null pointer, runs no
  destructor twice, touches no bell whose memory has been freed and overflows no counter. It leaves
  a consistent state, in which each thread is in at most one queue, executed by at most one CPU and
  not destroyed while it is queued or executed, and in which every pending bell lies on the stack of
  a thread that still exists and waits for it; and no CPU is left without a thread. Among the
  obligations is that nobody kills a thread while it sleeps (see \<open>kill_leaves_bell\<close>).\<close>

theorem kernel_step_safe:
  assumes "kinv None mx L M s" "bells_alive s" "op_ok mx L cpu op s"
  shows "\<exists>s' L' M'. kstep cpu op s = Some s' \<and> kinv None mx L' M' s' \<and> bells_alive s' \<and>
    (\<forall>c. k_life s c \<noteq> None \<longrightarrow> k_life s' c \<noteq> None)"
  using kstep_total [OF assms] by (auto simp: step_good_def)

theorem kernel_step_safe_witness:
  "\<exists>s' L' M'. kstep 0 (Lock 1) two_cpus = Some s' \<and> kinv None {1} L' M' s' \<and> bells_alive s' \<and>
    (\<forall>c. k_life two_cpus c \<noteq> None \<longrightarrow> k_life s' c \<noteq> None)"
  by (rule kernel_step_safe [OF two_cpus_kinv two_cpus_alive]) (simp add: op_defs two_cpus_life CPU_MAX_def)

subsection \<open>Mutual exclusion\<close>

definition holds_mutex :: "kstate \<Rightarrow> tid \<Rightarrow> room \<Rightarrow> bool" where
  "holds_mutex s t m \<longleftrightarrow> (\<exists>ms. queue_rep (fst (k_mutexes s) t, snd (k_mutexes s)) ms \<and> m \<in> set ms)"

lemma holds_mutex_iff:
  assumes "kinv None mx L M s"
  shows "holds_mutex s t m \<longleftrightarrow> k_owner s m = Some t"
proof -
  have ok: "mq_rep (k_mutexes s) M" "\<And>t. m \<in> set (M t) \<longleftrightarrow> k_owner s m = Some t"
    using kinv_parts(5) [OF assms] by (auto simp: mutexes_ok_def)
  have "holds_mutex s t m \<longleftrightarrow> m \<in> set (M t)"
    unfolding holds_mutex_def using mq_rep_queue [OF ok(1), of t] queue_rep_unique by metis
  with ok(2) show ?thesis by simp
qed

text \<open>Property C2. In every state that operations can reach from the initial one, whatever
  the order in which the CPUs call them, at most one thread holds a mutex; while it is held,
  its counter is 0, its owner is that thread, and no thread that was woken from its waiting
  room is on the way to take it.\<close>

theorem mutex_exclusion:
  assumes "kreach mx s" "holds_mutex s t m"
  shows "(\<forall>u. holds_mutex s u m \<longrightarrow> u = t) \<and> m \<in> mx \<and> k_owner s m = Some t \<and> k_counter s m = 0 \<and>
    (\<forall>u L. mq_rep (k_queues s) L \<longrightarrow> u \<in> set (L ReadyList) \<longrightarrow> k_resume s u \<noteq> Some m)"
proof -
  obtain L M where inv: "kinv None mx L M s" using kreach_kinv [OF assms(1)] by blast
  have own: "k_owner s m = Some t" using assms(2) by (simp add: holds_mutex_iff [OF inv])
  note D = locks_okD [OF kinv_parts(4) [OF inv]]
  have "k_resume s u \<noteq> Some m" if "mq_rep (k_queues s) L'" "u \<in> set (L' ReadyList)" for u L'
    using D(5) [of u m] own that mq_rep_unique [OF that(1) kinv_queues [OF inv]] by auto
  with D(6) [OF own] own show ?thesis by (auto simp: holds_mutex_iff [OF inv])
qed

lemma two_cpus_locked:
  "\<exists>s. kreach {1} s \<and> kstep 0 (Lock 1) two_cpus = Some s \<and> holds_mutex s 8 1"
proof -
  have reach: "kreach {1} two_cpus" unfolding two_cpus_def by (rule kreach.init [OF two_cpus_boot])
  have ok: "op_ok {1} (\<lambda>_. []) 0 (Lock 1) two_cpus" by (simp add: op_defs two_cpus_life CPU_MAX_def)
  obtain s where s: "kstep 0 (Lock 1) two_cpus = Some s"
    using kstep_total [OF two_cpus_kinv two_cpus_alive ok] by blast
  have r: "kreach {1} s" by (rule kreach.step [OF reach kinv_queues [OF two_cpus_kinv] ok s])
  then obtain L M where inv: "kinv None {1} L M s" using kreach_kinv by blast
  have "k_owner s 1 = Some 8"
    using s by (simp add: kstep_def mutex_lock_def active_def semaphore_p_def mutex_acquire_def
        mutex_hold_def finish_lock_def two_cpus_def kernel_init_def CPU_MAX_def)
      (auto)
  with inv r s show ?thesis by (auto simp: holds_mutex_iff)
qed

theorem mutex_exclusion_witness:
  "\<exists>s. kstep 0 (Lock 1) two_cpus = Some s \<and> (\<forall>u. holds_mutex s u 1 \<longrightarrow> u = 8) \<and> k_counter s 1 = 0"
proof -
  obtain s where "kreach {1} s" "kstep 0 (Lock 1) two_cpus = Some s" "holds_mutex s 8 1"
    using two_cpus_locked by blast
  with mutex_exclusion [of "{1}" s 8 1] show ?thesis by blast
qed

subsection \<open>Round robin\<close>

lemma appended_loose: "loose cur L t s \<Longrightarrow> appended t q L = L(q := L q @ [t])"
  by (simp add: appended_def loose_taken)

lemma resume_rotates:
  assumes inv: "kinv None mx L M s" and cpu: "cpu < CPU_MAX" and t: "k_life s cpu = Some t"
    and idle: "k_idle s cpu \<noteq> Some t" and alive: "\<not> k_killed s t"
  shows "\<exists>s' M'. kstep cpu Resume s = Some s' \<and>
    kinv None mx (L(ReadyList := tl (L ReadyList @ [t]))) M' s' \<and>
    k_life s' = (k_life s)(cpu := Some (hd (L ReadyList @ [t]))) \<and>
    k_killed s' = k_killed s \<and> k_idle s' = k_idle s"
proof -
  note loose = active_loose [OF inv t idle]
  let ?s1 = "ready_enqueue t s" and ?L1 = "appended t ReadyList L"
  have L1: "?L1 = L(ReadyList := L ReadyList @ [t])" by (rule appended_loose [OF loose(1)])
  note inv1 = kinv_ready_loose [OF kinv_detach [OF inv] loose]
  have same: "k_life ?s1 = k_life s" "k_killed ?s1 = k_killed s" "k_idle ?s1 = k_idle s"
    by (simp_all add: ready_enqueue_def)
  have "k_life ?s1 cpu \<noteq> None" using t same by simp
  from dispatch_next_choice [OF inv1 cpu this] obtain s2 s' M' where
    s': "dispatch_next cpu ?s1 = Some s2" "finish_lock cpu s2 = Some s'"
      "kinv None mx (?L1(ReadyList := tl (?L1 ReadyList))) M' s'"
      "k_life s' = (k_life ?s1)(cpu := next_choice cpu ?L1 ?s1)"
      "k_killed s' = k_killed ?s1" "k_idle s' = k_idle ?s1" by blast
  have "next_choice cpu ?L1 ?s1 = Some (hd (L ReadyList @ [t]))"
    by (cases "L ReadyList") (simp_all add: next_choice_def L1)
  moreover have "kstep cpu Resume s = Some s'"
    using s'(1,2) t idle alive by (simp add: kstep_def sched_resume_def active_def)
  ultimately show ?thesis using s' same by (auto simp: L1)
qed

fun run_resumes :: "nat \<Rightarrow> nat \<Rightarrow> kstate \<Rightarrow> kstate option" where
  "run_resumes cpu 0 s = Some s"
| "run_resumes cpu (Suc n) s = Option.bind (kstep cpu Resume s) (run_resumes cpu n)"

text \<open>Property C4. The scheduler is fair: a thread with \<open>n\<close> threads before it in the ready list
  is executed after \<open>n + 1\<close> time slices of a CPU, because each slice takes the head of the
  list and puts the preempted thread behind all the others.\<close>

theorem round_robin:
  assumes "kinv None mx L M s" "cpu < CPU_MAX" "k_life s cpu = Some t" "k_idle s cpu \<noteq> Some t"
    and "L ReadyList = us @ x # vs" "\<forall>u \<in> set (t # us). \<not> k_killed s u"
  shows "\<exists>s'. run_resumes cpu (Suc (length us)) s = Some s' \<and> k_life s' cpu = Some x"
  using assms
proof (induction us arbitrary: L M s t vs)
  case Nil
  from resume_rotates [OF Nil.prems(1-4)] Nil.prems(5,6) show ?case by auto
next
  case (Cons u us)
  from resume_rotates [OF Cons.prems(1-4)] Cons.prems(5,6) obtain s1 M1 where
    s1: "kstep cpu Resume s = Some s1" "kinv None mx (L(ReadyList := us @ x # vs @ [t])) M1 s1"
      "k_life s1 cpu = Some u" "k_killed s1 = k_killed s" "k_idle s1 = k_idle s" by auto
  have "u \<in> set (L ReadyList)" using Cons.prems(5) by simp
  then have "k_idle s1 cpu \<noteq> Some u" using queued_thread(3) [OF Cons.prems(1)] s1(5) by simp
  moreover have "\<forall>v \<in> set (u # us). \<not> k_killed s1 v" using Cons.prems(6) s1(4) by auto
  ultimately obtain s' where "run_resumes cpu (Suc (length us)) s1 = Some s'" "k_life s' cpu = Some x"
    using Cons.IH [OF s1(2) Cons.prems(2) s1(3), of "vs @ [t]"] by auto
  with s1(1) show ?case by auto
qed

lemma two_cpus_ready:
  "kinv None {1} (appended 10 ReadyList (\<lambda>_. [])) (\<lambda>_. []) (ready_enqueue 10 two_cpus)"
  by (rule kinv_ready_loose [OF two_cpus_kinv])
    (auto simp: loose_def two_cpus_def kernel_init_def runs_def CPU_MAX_def split: if_splits)

theorem round_robin_witness:
  "\<exists>s'. run_resumes 0 (Suc (length ([] :: tid list))) (ready_enqueue 10 two_cpus) = Some s' \<and>
     k_life s' 0 = Some 10"
proof (rule round_robin [OF two_cpus_ready])
  show "0 < CPU_MAX" by (simp add: CPU_MAX_def)
  show "k_life (ready_enqueue 10 two_cpus) 0 = Some 8" "k_idle (ready_enqueue 10 two_cpus) 0 \<noteq> Some 8"
    "\<forall>u \<in> set [8]. \<not> k_killed (ready_enqueue 10 two_cpus) u"
    by (simp_all add: ready_enqueue_def two_cpus_life)
  show "appended 10 ReadyList (\<lambda>_. []) ReadyList = [] @ 10 # []"
    by (simp add: appended_def taken_def)
qed

subsection \<open>Semaphores\<close>

lemma v_wakes_first:
  assumes inv: "kinv cur mx L M s" and free: "lock_free mx L r s" and L: "L (Room r) = t # ts"
  shows "\<exists>s'. semaphore_v r s = Some s' \<and>
    kinv cur mx (L(Room r := ts, ReadyList := L ReadyList @ [t])) M s' \<and> k_counter s' = k_counter s"
proof -
  note rep = kinv_queues [OF inv]
  have t: "t \<in> set (L (Room r))" using L by simp
  obtain qs where qs: "mq_dequeue (Room r) (k_queues s) = (Some t, qs)" "mq_rep qs (taken t L)"
    using mq_dequeue_Cons [OF rep L] taken_hd [OF rep L] by auto
  have "appended t ReadyList L = L(Room r := ts, ReadyList := L ReadyList @ [t])"
    unfolding appended_def taken_hd [OF rep L] by simp
  moreover have "semaphore_v r s = wakeup t (s\<lparr>k_queues := qs\<rparr>)" using qs(1) by (simp add: semaphore_v_def)
  ultimately show ?thesis
    using wakeup_kinv [OF inv t lock_free_may_take [OF inv t free] qs(2)] by auto
qed

fun v_times :: "nat \<Rightarrow> room \<Rightarrow> kstate \<Rightarrow> kstate option" where
  "v_times 0 r s = Some s"
| "v_times (Suc n) r s = Option.bind (semaphore_v r s) (v_times n r)"

lemma v_wakes_all:
  "kinv cur mx L M s \<Longrightarrow> r \<notin> mx \<Longrightarrow> L (Room r) = ts @ us \<Longrightarrow> L' = L(Room r := us, ReadyList := L ReadyList @ ts) \<Longrightarrow>
     \<exists>s'. v_times (length ts) r s = Some s' \<and> kinv cur mx L' M s' \<and> k_counter s' = k_counter s"
proof (induction ts arbitrary: L s)
  case Nil
  have "L' = L" using Nil.prems(3,4) by (simp add: fun_upd_idem)
  with Nil.prems(1) show ?case by simp
next
  case (Cons t ts)
  have "lock_free mx L r s" using Cons.prems(2) by (simp add: lock_free_def)
  from v_wakes_first [OF Cons.prems(1) this] Cons.prems(3) obtain s1 where
    s1: "semaphore_v r s = Some s1" "k_counter s1 = k_counter s"
      "kinv cur mx (L(Room r := ts @ us, ReadyList := L ReadyList @ [t])) M s1"
    unfolding append_Cons by blast
  have room: "(L(Room r := ts @ us, ReadyList := L ReadyList @ [t])) (Room r) = ts @ us" by simp
  have "L' = (L(Room r := ts @ us, ReadyList := L ReadyList @ [t]))
      (Room r := us, ReadyList := (L(Room r := ts @ us, ReadyList := L ReadyList @ [t])) ReadyList @ ts)"
    unfolding Cons.prems(4) by (auto simp: fun_upd_def)
  from Cons.IH [OF s1(3) Cons.prems(2) room this] obtain s' where
    "v_times (length ts) r s1 = Some s'" "kinv cur mx L' M s'" "k_counter s' = k_counter s1" by blast
  with s1(1,2) show ?case by (intro exI [of _ s']) simp
qed

text \<open>Property C5. A semaphore passes its tokens on in the order of arrival: \<open>n\<close> calls of
  \<^verbatim>\<open>v\<close> make the \<open>n\<close> threads that wait longest ready, in that order, and change the counter only
  when nobody waits; so no wake-up is lost and none is stored while a thread waits.\<close>

theorem semaphore_v_fifo:
  assumes "kinv None mx L M s" "r \<notin> mx" "L (Room r) = ts @ us"
  shows "\<exists>s' L'. v_times (length ts) r s = Some s' \<and> mq_rep (k_queues s') L' \<and>
    L' (Room r) = us \<and> L' ReadyList = L ReadyList @ ts \<and> k_counter s' r = k_counter s r \<and>
    (0 < sint (k_counter s' r) \<longrightarrow> us = [])"
proof -
  let ?L = "L(Room r := us, ReadyList := L ReadyList @ ts)"
  obtain s' where s': "v_times (length ts) r s = Some s'" "kinv None mx ?L M s'" "k_counter s' = k_counter s"
    using v_wakes_all [OF assms refl] by blast
  have "0 < sint (k_counter s' r) \<longrightarrow> ?L (Room r) = []"
    using kinv_parts(6) [OF s'(2)] unfolding counters_ok_def by blast
  then show ?thesis
    using s' kinv_queues [OF s'(2)] by (intro exI [of _ s'] exI [of _ ?L]) simp
qed

text \<open>A thread that waits at the semaphore 2.\<close>

lemma two_cpus_blocked:
  "\<exists>s L M. kstep 0 (SemP 2) two_cpus = Some s \<and> kinv None {1} L M s \<and> L (Room 2) = [8]"
proof -
  have loose: "loose (Some 0) (\<lambda>_. []) 8 two_cpus"
    using active_loose(1) [OF two_cpus_kinv, of 0 8] two_cpus_life by simp
  let ?q = "on_queue (Room 2) (enqueue 8) (k_queues two_cpus)"
  let ?L = "(\<lambda>_. [])(Room 2 := [8])"
  have "mq_rep ?q ((\<lambda>_. [])(Room 2 := [] @ [8]))"
    by (rule mq_enqueue [OF kinv_queues [OF two_cpus_kinv]]) simp
  from kinv_put_room [OF kinv_detach [OF two_cpus_kinv] loose _ refl, of 2 ?q] this
  have inv: "kinv (Some 0) {1} ?L (\<lambda>_. []) (two_cpus\<lparr>k_queues := ?q,
      k_waiting := (k_waiting two_cpus)(8 := Some 2), k_resume := (k_resume two_cpus)(8 := None)\<rparr>)"
    (is "kinv _ _ _ _ ?s1")
    by (simp add: two_cpus_life)
  have "k_life ?s1 0 \<noteq> None" by (simp add: two_cpus_life)
  from dispatch_next_choice [OF inv _ this] obtain s2 s' M' where
    s': "dispatch_next 0 ?s1 = Some s2" "finish_lock 0 s2 = Some s'"
      "kinv None {1} (?L(ReadyList := tl (?L ReadyList))) M' s'"
    by (auto simp: CPU_MAX_def simp del: fun_upd_apply)
  have "(k_resume two_cpus)(8 := None) = k_resume two_cpus" by (simp add: fun_upd_idem two_cpus_life)
  then have "semaphore_p 0 2 two_cpus = map_option (Pair True) (dispatch_next 0 ?s1)"
    by (simp add: semaphore_p_def two_cpus_life block_def active_def set_waiting_def)
  with s' show ?thesis
    by (intro exI [of _ s'] exI [of _ "?L(ReadyList := tl (?L ReadyList))"] exI [of _ M'])
      (simp add: kstep_def)
qed

theorem semaphore_v_fifo_witness:
  "\<exists>s s' L'. kstep 0 (SemP 2) two_cpus = Some s \<and> v_times (length [8 :: tid]) 2 s = Some s' \<and>
     mq_rep (k_queues s') L' \<and> L' (Room 2) = []"
proof -
  obtain s L M where s: "kstep 0 (SemP 2) two_cpus = Some s" "kinv None {1} L M s" "L (Room 2) = [8] @ []"
    using two_cpus_blocked by auto
  from semaphore_v_fifo [OF s(2) _ s(3)] s(1) show ?thesis by auto
qed

subsection \<open>Killing a thread that waits\<close>

text \<open>For a thread that holds no mutex the destructor only gives up the stack.\<close>

definition buried :: "tid \<Rightarrow> (tq, tid) mqueues \<Rightarrow> kstate \<Rightarrow> kstate" where
  "buried t q s = delete_stack t (s\<lparr>k_queues := q, k_gone := (k_gone s)(t := True)\<rparr>)"

lemma destruct_plain:
  assumes "kinv cur mx L M s" "\<not> k_gone s t" "M t = []"
  shows "thread_destruct t (s\<lparr>k_queues := q\<rparr>) = Some (buried t q s)"
proof -
  have "mq_first t (k_mutexes s) = None"
    using mq_first_rep [of "k_mutexes s" M t] kinv_parts(5) [OF assms(1)] assms(3)
    by (simp add: mutexes_ok_def)
  with assms(2) show ?thesis
    by (simp add: thread_destruct_def mutex_release_all_def release_loop.simps buried_def)
qed

lemma kill_queued:
  assumes inv: "kinv None mx L M s" and ok: "op_pre mx L cpu (Kill t) s" and M: "M t = []"
    and t: "t \<in> set (L q)"
  shows "\<exists>qs. kop_body cpu (Kill t) s = Some (buried t qs (thread_dec s)) \<and> mq_rep qs (taken t L) \<and>
    kstep cpu (Kill t) s = Some (buried t qs (thread_dec s))"
proof -
  let ?s = "thread_dec s"
  have inv1: "kinv None mx L M ?s" using inv by simp
  note rep = kinv_queues [OF inv1]
  have gone: "\<not> k_gone ?s t" by (rule queued_thread(1) [OF inv1 t])
  have body: "\<exists>qs. sched_kill cpu t ?s = Some (buried t qs ?s) \<and> mq_rep qs (taken t L)"
  proof (cases q)
    case ReadyList
    with mq_remove_rep [OF rep, of ReadyList t] t taken_single [OF rep t] obtain qs where
      "mq_remove ReadyList t (k_queues ?s) = Some (Some t, qs)" "mq_rep qs (taken t L)" by auto
    with destruct_plain [OF inv1 gone M, of qs] show ?thesis
      by (intro exI [of _ qs]) (simp add: sched_kill_def)
  next
    case (Room r)
    have out: "t \<notin> set (L ReadyList)" using mq_rep_disjoint [OF rep t, of ReadyList] Room by auto
    have w: "k_waiting ?s t = Some r"
      using queues_okD(1) [OF kinv_parts(1) [OF inv1] gone, of r] t Room by simp
    from mq_remove_rep [OF rep, of "Room r" t] t Room taken_single [OF rep t] obtain qs where
      qs: "mq_remove (Room r) t (k_queues ?s) = Some (Some t, qs)" "mq_rep qs (taken t L)" by auto
    with w mq_remove_absent [OF rep out] destruct_plain [OF inv1 gone M, of qs] show ?thesis
      by (intro exI [of _ qs]) (simp add: sched_kill_def room_remove_def)
  qed
  then obtain qs where qs: "sched_kill cpu t ?s = Some (buried t qs ?s)" "mq_rep qs (taken t L)" by blast
  have "kinv None mx (taken t L) M (buried t qs ?s)"
    unfolding buried_def by (rule kinv_bury [OF inv1 queued_thread(2,3) [OF inv1 t] qs(2)])
  from finish_lock_idle [OF this, of cpu] qs show ?thesis
    by (intro exI [of _ qs]) (simp add: kstep_def guarded_kill_def)
qed

text \<open>Sequences of operations, each by a CPU; and what evaluates them on a concrete state.\<close>

fun run_ops :: "(nat \<times> kop) list \<Rightarrow> kstate \<Rightarrow> kstate option" where
  "run_ops [] s = Some s"
| "run_ops ((cpu, op) # ops) s = Option.bind (kstep cpu op s) (run_ops ops)"

lemmas kernel_eval = kstep_def finish_lock_def mutex_lock_def mutex_unlock_def mutex_release_def
  semaphore_p_def semaphore_v_def mutex_acquire_def mutex_hold_def active_def block_def
  dispatch_next_def next_thread_def dispatch_def set_active_def set_waiting_def is_empty_def
  mq_first_def mq_dequeue_def mq_remove_def on_queue_def queue_first_def queue_new_def
  remove_eq_def remove_item_def remove_loop.simps wakeup_def room_remove_def ready_def
  ready_enqueue_def send_ipi_def two_cpus_def kernel_init_def CPU_MAX_def INT_MAX_def

text \<open>Thread 8 waits at semaphore 2, with CPU 1 still executing thread 9.\<close>

lemma two_cpus_blocked_kill:
  obtains s L M where "kstep 0 (SemP 2) two_cpus = Some s" "kinv None {1} L M s"
    "op_pre {1} L 1 (Kill 8) s" "M 8 = []" "8 \<in> set (L (Room 2))"
proof -
  obtain s L M where s: "kstep 0 (SemP 2) two_cpus = Some s" "kinv None {1} L M s" "L (Room 2) = [8]"
    using two_cpus_blocked by blast
  have "k_owner s = Map.empty" "k_life s 1 = Some 9"
    using s(1) by (auto simp: kernel_eval)
  moreover have "set (M 8) = {}"
    using kinv_parts(5) [OF s(2)] calculation(1) by (auto simp: mutexes_ok_def)
  moreover have in2: "8 \<in> set (L (Room 2))" using s(3) by simp
  ultimately have "op_pre {1} L 1 (Kill 8) s" "M 8 = []"
    using queued_thread [OF s(2) in2] by (simp_all add: op_defs CPU_MAX_def)
  with s in2 show ?thesis by (intro that)
qed

text \<open>Thread 9 has been woken by the unlock of thread 8 and waits in the ready list.\<close>

lemma two_cpus_handed:
  obtains s L M where "run_ops [(0, Lock 1), (1, Lock 1), (0, Unlock 1)] two_cpus = Some s"
    "kinv None {1} L M s" "bells_alive s" "op_pre {1} L 0 (Kill 9) s" "9 \<in> set (L ReadyList)"
    "k_resume s 9 = Some 1"
proof -
  let ?ops = "[(0, Lock 1), (1, Lock 1), (0, Unlock 1)]"
  have reach: "kreach {1} two_cpus" unfolding two_cpus_def by (rule kreach.init [OF two_cpus_boot])
  obtain s1 where s1: "kstep 0 (Lock 1) two_cpus = Some s1" "kreach {1} s1"
    using two_cpus_locked by blast
  obtain L1 M1 where inv1: "kinv None {1} L1 M1 s1" using kreach_kinv [OF s1(2)] by blast
  have "k_life s1 1 = Some 9 \<and> k_idle s1 1 = Some 1" using s1(1) by (auto simp: kernel_eval)
  then have ok1: "op_ok {1} L1 1 (Lock 1) s1" by (simp add: op_defs CPU_MAX_def)
  obtain s2 where s2: "kstep 1 (Lock 1) s1 = Some s2" using kstep_total [OF inv1 kreach_alive [OF s1(2)] ok1] by blast
  have r2: "kreach {1} s2" by (rule kreach.step [OF s1(2) kinv_queues [OF inv1] ok1 s2])
  obtain L2 M2 where inv2: "kinv None {1} L2 M2 s2" using kreach_kinv [OF r2] by blast
  have "k_life s2 0 = Some 8 \<and> k_owner s2 1 = Some 8" using s1(1) s2 by (auto simp: kernel_eval)
  then have ok2: "op_ok {1} L2 0 (Unlock 1) s2" by (simp add: op_defs CPU_MAX_def)
  obtain s3 where s3: "kstep 0 (Unlock 1) s2 = Some s3" using kstep_total [OF inv2 kreach_alive [OF r2] ok2] by blast
  have r3: "kreach {1} s3" by (rule kreach.step [OF r2 kinv_queues [OF inv2] ok2 s3])
  obtain L M where inv: "kinv None {1} L M s3" using kreach_kinv [OF r3] by blast
  have run: "run_ops ?ops two_cpus = Some s3" using s1(1) s2 s3 by simp
  then have st: "k_owner s3 = Map.empty" "k_life s3 0 = Some 8" "k_resume s3 9 = Some 1"
    "queue_rep (fst (k_queues s3) ReadyList, snd (k_queues s3)) [9]"
    by (auto simp: kernel_eval queue_rep_def tail_slot_def)
  have "L ReadyList = [9]"
    using queue_rep_unique [OF mq_rep_queue [OF kinv_queues [OF inv], of ReadyList] st(4)] .
  then have in_ready: "9 \<in> set (L ReadyList)" by simp
  have "op_pre {1} L 0 (Kill 9) s3"
    using queued_thread [OF inv in_ready] st by (simp add: op_defs CPU_MAX_def)
  then show ?thesis by (intro that [OF run inv kreach_alive [OF r3]]) (use in_ready st(3) in simp_all)
qed

text \<open>\<^verbatim>\<open>kill\<close> leaves the \<^verbatim>\<open>waitingroom\<close> member of a thread that it takes out of a
  waiting room as it was, so a second \<^verbatim>\<open>kill\<close> of that thread runs its destructor again
  (which frees the freed stack): it has no defined result.\<close>

theorem kill_twice_undefined:
  assumes "kinv None mx L M s" "op_pre mx L cpu (Kill t) s" "M t = []" "t \<in> set (L (Room r))"
  shows "\<exists>s'. kstep cpu (Kill t) s = Some s' \<and> k_gone s' t \<and> kstep cpu (Kill t) s' = None"
proof -
  obtain qs where qs: "kstep cpu (Kill t) s = Some (buried t qs (thread_dec s))" "mq_rep qs (taken t L)"
    using kill_queued [OF assms] by blast
  let ?s' = "thread_dec (buried t qs (thread_dec s))"
  have w: "k_waiting ?s' t = Some r"
    using queues_okD(1) [OF kinv_parts(1) [OF assms(1)] queued_thread(1) [OF assms(1,4)], of r] assms(4)
    by (simp add: buried_def thread_dec_def)
  have out: "t \<notin> set (taken t L p)" for p
    using kinv_queues [OF assms(1)] by (simp add: set_taken)
  have "k_queues ?s' = qs" "k_gone ?s' t" by (simp_all add: buried_def thread_dec_def)
  with w mq_remove_absent [OF qs(2) out] have "sched_kill cpu t ?s' = None"
    by (simp add: sched_kill_def room_remove_def thread_destruct_def)
  then show ?thesis using qs(1)
    by (intro exI [of _ "buried t qs (thread_dec s)"]) (simp add: kstep_def guarded_kill_def, simp add: buried_def)
qed

theorem kill_twice_undefined_witness:
  "\<exists>s s'. kstep 0 (SemP 2) two_cpus = Some s \<and> kstep 1 (Kill 8) s = Some s' \<and> kstep 1 (Kill 8) s' = None"
proof -
  obtain s L M where s: "kstep 0 (SemP 2) two_cpus = Some s" "kinv None {1} L M s"
    "op_pre {1} L 1 (Kill 8) s" "M 8 = []" "8 \<in> set (L (Room 2))" using two_cpus_blocked_kill .
  from kill_twice_undefined [OF s(2-5)] s(1) show ?thesis by blast
qed

text \<open>Everything that can happen from a state on.\<close>

inductive ksteps :: "room set \<Rightarrow> kstate \<Rightarrow> kstate \<Rightarrow> bool" for mx s where
  now: "ksteps mx s s"
| later: "ksteps mx s s' \<Longrightarrow> mq_rep (k_queues s') L \<Longrightarrow> op_ok mx L cpu op s' \<Longrightarrow> kstep cpu op s' = Some s'' \<Longrightarrow>
    ksteps mx s s''"

lemma ksteps_inv:
  assumes "ksteps mx s s'" "kinv None mx L M s" "bells_alive s"
  shows "(\<exists>L M. kinv None mx L M s') \<and> bells_alive s' \<and> stuck_kept mx s s'"
  using assms
proof (induction rule: ksteps.induct)
  case now
  then show ?case by (auto simp: stuck_kept_def)
next
  case (later s1 L1 cpu op s2)
  then obtain L' M' where inv: "kinv None mx L' M' s1" and alive: "bells_alive s1" and kept: "stuck_kept mx s s1" by blast
  have "L' = L1" using mq_rep_unique [OF kinv_queues [OF inv] later.hyps(2)] by simp
  with kstep_total [OF inv alive, of cpu op] later.hyps(3,4) kept show ?case
    by (auto simp: step_good_def stuck_kept_def)
qed

lemma kill_ready:
  assumes inv: "kinv None mx L M s" and ok: "op_pre mx L cpu (Kill t) s" and t: "t \<in> set (L ReadyList)"
  shows "\<exists>s' L' M' q. kstep cpu (Kill t) s = Some s' \<and> kinv None mx L' M' s' \<and>
    evolves UNIV mx {} (buried t q (thread_dec s)) s'"
proof -
  have inv1: "kinv None mx L M (thread_dec s)" using inv by simp
  note rep = kinv_queues [OF inv1]
  obtain q where q: "mq_remove ReadyList t (k_queues (thread_dec s)) = Some (Some t, q)" "mq_rep q (taken t L)"
    using mq_remove_rep [OF rep, of ReadyList t] t taken_single [OF rep t] by auto
  from bury_queued [OF inv1 t q(2)] obtain s' L' where s':
    "thread_destruct t ((thread_dec s)\<lparr>k_queues := q\<rparr>) = Some s'" "kinv None mx L' (M(t := [])) s'"
    "evolves UNIV mx {} (buried t q (thread_dec s)) s'" unfolding buried_def by blast
  have "kop_body cpu (Kill t) s = Some s'" using q(1) s'(1) by (simp add: guarded_kill_def sched_kill_def)
  then have "kstep cpu (Kill t) s = Some s'" using finish_lock_idle [OF s'(2)] by (simp add: kstep_def)
  with s'(2,3) show ?thesis by blast
qed

text \<open>The only thread on the way to a mutex is destroyed.\<close>

lemma buried_stuck:
  assumes inv: "kinv None mx L M s" and t: "t \<in> set (L ReadyList)" "k_resume s t = Some m"
  shows "stuck m (buried t q (thread_dec s))"
proof -
  note D = locks_okD [OF kinv_parts(4) [OF inv]]
  have "k_waiting s u = Some m" if "u \<noteq> t" "\<not> k_gone s u" "k_resume s u = Some m" for u
    using D(3) [OF that(2,3)] D(4) [OF _ t(1) that(3) t(2)] that(1)
      queues_okD(1) [OF kinv_parts(1) [OF inv] that(2)] by blast
  then show ?thesis using D(5) [OF t] by (auto simp: stuck_def buried_def thread_dec_def)
qed

text \<open>Property C13. Killing a thread that \<^verbatim>\<open>unlock\<close> has already woken from \<^verbatim>\<open>lock\<close>, but that has
  not run since, loses the mutex for ever: whatever the CPUs do afterwards, no thread holds it, and a
  thread that calls \<^verbatim>\<open>lock\<close> on it is never executed again by any CPU.\<close>

theorem kill_loses_mutex:
  assumes "kinv None mx L M s" "bells_alive s" "op_pre mx L cpu (Kill t) s"
    and "t \<in> set (L ReadyList)" "k_resume s t = Some m"
  shows "\<exists>s'. kstep cpu (Kill t) s = Some s' \<and> (\<forall>s1. ksteps mx s' s1 \<longrightarrow> (\<forall>u. \<not> holds_mutex s1 u m) \<and>
    (\<forall>c u L1. k_life s1 c = Some u \<and> mq_rep (k_queues s1) L1 \<and> op_ok mx L1 c (Lock m) s1 \<longrightarrow>
      (\<exists>s2. kstep c (Lock m) s1 = Some s2 \<and> (\<forall>s3. ksteps mx s2 s3 \<longrightarrow> (\<forall>d. k_life s3 d \<noteq> Some u)))))"
proof -
  have gone: "\<not> k_gone s t" by (rule queued_thread(1) [OF assms(1,4)])
  have m: "m \<in> mx" using locks_okD(2) [OF kinv_parts(4) [OF assms(1)] gone assms(5)] .
  have "t \<notin> set (L (Room r))" for r using mq_rep_disjoint [OF kinv_queues [OF assms(1)] assms(4), of "Room r"] by auto
  then have ok: "op_ok mx L cpu (Kill t) s"
    using not_waiting [OF assms(1) gone] assms(3) by (simp add: op_ok_def)
  obtain s' L' M' q where s': "kstep cpu (Kill t) s = Some s'" "kinv None mx L' M' s'"
      "evolves UNIV mx {} (buried t q (thread_dec s)) s'" using kill_ready [OF assms(1,3,4)] by blast
  have alive: "bells_alive s'" using kstep_total [OF assms(1,2) ok] s'(1) by auto
  have stuck: "stuck m s'" using s'(3) buried_stuck [OF assms(1,4,5)] by (simp add: evolves_def)
  have later: "(\<exists>L M. kinv None mx L M s1) \<and> bells_alive s1 \<and> stuck m s1" if "ksteps mx s' s1" for s1
    using ksteps_inv [OF that s'(2) alive] stuck m by (auto simp: stuck_kept_def)
  have "\<exists>s2. kstep c (Lock m) s1 = Some s2 \<and> (\<forall>s3. ksteps mx s2 s3 \<longrightarrow> (\<forall>d. k_life s3 d \<noteq> Some u))"
    if s1: "ksteps mx s' s1" and u: "k_life s1 c = Some u" "mq_rep (k_queues s1) L1" "op_ok mx L1 c (Lock m) s1" for s1 c u L1
  proof -
    obtain L2 M2 where inv: "kinv None mx L2 M2 s1" "bells_alive s1" "stuck m s1" using later [OF s1] by blast
    have ok1: "op_ok mx L2 c (Lock m) s1" using u(2,3) mq_rep_unique [OF kinv_queues [OF inv(1)]] by blast
    obtain s2 where s2: "kstep c (Lock m) s1 = Some s2" "step_good mx s1 s2" "bells_alive s2" "stuck_kept mx s1 s2"
      using kstep_total [OF inv(1,2) ok1] by blast
    have "k_waiting s2 u = Some m"
      by (rule lock_blocks [OF inv(1) _ u(1) _ s2(1)]) (use ok1 inv(3) in \<open>simp_all add: op_ok_def stuck_def\<close>)
    moreover have "stuck m s2" using s2(4) inv(3) m by (auto simp: stuck_kept_def)
    ultimately have "\<forall>s3. ksteps mx s2 s3 \<longrightarrow> (\<forall>d. k_life s3 d \<noteq> Some u)"
      using s2(2,3) ksteps_inv m waiting_not_executed unfolding step_good_def stuck_kept_def by blast
    with s2(1) show ?thesis by blast
  qed
  moreover have "\<not> holds_mutex s1 u m" if "ksteps mx s' s1" for s1 u
    using later [OF that] holds_mutex_iff by (auto simp: stuck_def)
  ultimately show ?thesis using s'(1) by blast
qed

theorem kill_loses_mutex_witness:
  "\<exists>s s'. run_ops [(0, Lock 1), (1, Lock 1), (0, Unlock 1)] two_cpus = Some s \<and>
     kstep 0 (Kill 9) s = Some s' \<and> (\<forall>u. \<not> holds_mutex s' u 1)"
proof -
  obtain s L M where s: "run_ops [(0, Lock 1), (1, Lock 1), (0, Unlock 1)] two_cpus = Some s"
    "kinv None {1} L M s" "bells_alive s" "op_pre {1} L 0 (Kill 9) s" "9 \<in> set (L ReadyList)"
    "k_resume s 9 = Some 1" using two_cpus_handed .
  from kill_loses_mutex [OF s(2-6)] s(1) ksteps.now show ?thesis by blast
qed

subsection \<open>Killing a thread that sleeps\<close>

text \<open>Killing a sleeping thread frees the stack its bell lies on and leaves the bell in the list
  of the bellringer: if it is the first one, the next timer interrupt writes to freed memory.\<close>

theorem kill_leaves_bell:
  assumes "kinv None mx L M s" "op_pre mx L cpu (Kill t) s" "M t = []"
    and "t \<in> set (L (Room b))" "pending b s" "k_bell_on s b = Some t" "k_stack s t"
  shows "\<exists>s'. kstep cpu (Kill t) s = Some s' \<and> pending b s' \<and> k_lost s' b \<and>
    (queue_first (br_list (k_bells s)) = Some b \<longrightarrow> kstep 0 Check s' = None)"
proof -
  obtain qs where s': "kstep cpu (Kill t) s = Some (buried t qs (thread_dec s))"
    using kill_queued [OF assms(1-4)] by blast
  let ?s = "buried t qs (thread_dec s)"
  have "k_bells ?s = k_bells s" "k_lost ?s b"
    using assms(6,7) by (simp_all add: buried_def, simp_all add: thread_dec_def delete_stack_def)
  then show ?thesis using s' assms(5)
    by (intro exI [of _ ?s]) (simp add: pending_def kstep_def bellringer_check_def dangling_def)
qed

theorem kill_leaves_bell_witness:
  "\<exists>s s'. kstep 0 (Sleep 3 5) two_cpus = Some s \<and> kstep 1 (Kill 8) s = Some s' \<and>
     pending 3 s' \<and> kstep 0 Check s' = None"
proof -
  have ok: "op_pre {1} (\<lambda>_. []) 0 (Sleep 3 5) two_cpus"
    using two_cpus_silent by (auto simp: op_pre_def pending_def CPU_MAX_def two_cpus_life)
  obtain s where s: "kstep 0 (Sleep 3 5) two_cpus = Some s" "step_good {1} two_cpus s"
    using step_Sleep [OF two_cpus_kinv ok two_cpus_alive] by blast
  then obtain L M where inv: "kinv None {1} L M s" by (auto simp: step_good_def)
  have st: "k_owner s = Map.empty" "k_life s 1 = Some 9" "k_bell_on s 3 = Some 8" "k_stack s 8"
    "queue_rep (fst (k_queues s) (Room 3), snd (k_queues s)) [8]"
    "br_list (k_bells s) = insert_first 3 (queue_new, Map.empty)"
    using s(1) by (auto simp: kernel_eval queue_rep_def tail_slot_def bell_sleep_def bell_new_def
        bellringer_new_def bell_job_def job_loop.simps job_visits.simps)
  have "L (Room 3) = [8]"
    using queue_rep_unique [OF mq_rep_queue [OF kinv_queues [OF inv], of "Room 3"] st(5)] .
  then have in3: "8 \<in> set (L (Room 3))" by simp
  have "set (M 8) = {}" using kinv_parts(5) [OF inv] st(1) by (auto simp: mutexes_ok_def)
  moreover have "op_pre {1} L 1 (Kill 8) s"
    using queued_thread [OF inv in3] st by (simp add: op_pre_def CPU_MAX_def)
  moreover obtain A where A: "br_rep (k_bells s) A" using bells_okE [OF inv] .
  moreover have list: "queue_rep (br_list (k_bells s)) [3]"
    unfolding st(6) by (rule insert_first_rep [OF queue_rep_new]) simp
  then have "map fst A = [3]" using queue_rep_unique [OF br_rep_queue [OF A]] by blast
  then have "3 \<in> fst ` set A" by (metis image_set list.set_intros(1))
  then have "pending 3 s" by (simp add: pending_iff [OF A])
  moreover have "queue_first (br_list (k_bells s)) = Some 3" using queue_first_rep [OF list] by simp
  ultimately show ?thesis
    using kill_leaves_bell [OF inv, of 1 8 3] in3 st(3,4) s(1) by auto
qed

end
