(* ===== verification/Guard.thy ===== *)
theory Guard
  imports QueueSet
begin

section \<open>machine/ticketlock.h, machine/spinlock.h, guard/: synchronisation of the CPUs\<close>

text \<open>
  The big kernel lock \<^verbatim>\<open>bkl\<close> is a ticket lock with 8 bit tickets. The guard makes critical
  sections and epilogues exclude each other: \<^verbatim>\<open>enter\<close> and \<^verbatim>\<open>leave\<close> bracket a critical section
  of a thread, \<^verbatim>\<open>relay\<close> is called by the interrupt handler of a device that wants its epilogue
  to run. \<open>gexec cpu a s\<close> is one atomic action of one CPU; the CPUs interleave freely, so the
  reachable states are those of all sequences of actions. The program counter \<open>gpc\<close> of a CPU
  names the place in \<^verbatim>\<open>enter\<close>, \<^verbatim>\<open>leave\<close> or \<^verbatim>\<open>relay\<close> it has reached; interrupts are possible
  exactly at those places where the code has them enabled. Each gate has one link member, so
  the per-CPU queues are one \<open>QueueSet\<close>.
\<close>

subsection \<open>The ticket lock\<close>

record ticketlock =
  tl_l :: u8
  tl_t :: u8

definition tl_new :: ticketlock where
  "tl_new = \<lparr>tl_l = 0, tl_t = 0\<rparr>"

text \<open>\<^verbatim>\<open>lock\<close> is the atomic fetch-and-add and then the loop that ends when \<open>tl_passes\<close>.\<close>

definition tl_take :: "ticketlock \<Rightarrow> u8 \<times> ticketlock" where
  "tl_take k = (tl_t k, k\<lparr>tl_t := tl_t k + 1\<rparr>)"

definition tl_passes :: "u8 \<Rightarrow> ticketlock \<Rightarrow> bool" where
  "tl_passes old k \<longleftrightarrow> tl_l k = old"

definition tl_unlock :: "ticketlock \<Rightarrow> ticketlock" where
  "tl_unlock k = k\<lparr>tl_l := tl_l k + 1\<rparr>"

text \<open>\<open>tl_rep k old ws\<close>: the CPUs \<open>ws\<close> hold tickets, in this order, the first one the lock;
  \<open>old c\<close> is the local variable \<^verbatim>\<open>old\<close> of CPU \<open>c\<close>.\<close>

definition tl_rep :: "ticketlock \<Rightarrow> (nat \<Rightarrow> u8) \<Rightarrow> nat list \<Rightarrow> bool" where
  "tl_rep k old ws \<longleftrightarrow> distinct ws \<and> length ws < 256 \<and> tl_t k = tl_l k + of_nat (length ws) \<and>
     (\<forall>i < length ws. old (ws ! i) = tl_l k + of_nat i)"

lemma tl_rep_new: "tl_rep tl_new old []"
  by (simp add: tl_rep_def tl_new_def)

lemma tl_take_rep:
  assumes "tl_rep k old ws" "c \<notin> set ws" "length ws < 255" "tl_take k = (v, k')"
  shows "tl_rep k' (old(c := v)) (ws @ [c])"
proof -
  have "(old(c := v)) ((ws @ [c]) ! i) = tl_l k' + of_nat i" if "i < Suc (length ws)" for i
  proof (cases "i < length ws")
    case True
    then have "ws ! i \<noteq> c" using assms(2) nth_mem by metis
    with True assms(1,4) show ?thesis by (auto simp: tl_rep_def tl_take_def nth_append)
  next
    case False
    with that have "i = length ws" by simp
    with assms(1,4) show ?thesis by (auto simp: tl_rep_def tl_take_def)
  qed
  with assms show ?thesis by (auto simp: tl_rep_def tl_take_def algebra_simps)
qed

lemma tl_passes_rep:
  assumes "tl_rep k old ws" "c \<in> set ws"
  shows "tl_passes (old c) k \<longleftrightarrow> hd ws = c"
proof -
  obtain i where i: "i < length ws" "ws ! i = c" using assms(2) by (auto simp: in_set_conv_nth)
  have d: "distinct ws" "length ws < 256" and old: "old c = tl_l k + of_nat i"
    using assms(1) i by (auto simp: tl_rep_def)
  have "tl_passes (old c) k \<longleftrightarrow> (of_nat i :: u8) = of_nat 0"
    unfolding tl_passes_def old by auto
  also have "\<dots> \<longleftrightarrow> i = 0" using i d by (subst of_nat_eq_word) auto
  also have "\<dots> \<longleftrightarrow> hd ws = c"
    using i d nth_eq_iff_index_eq [of ws 0 i] by (cases ws) auto
  finally show ?thesis .
qed

lemma tl_unlock_rep:
  assumes "tl_rep k old (c # ws)"
  shows "tl_rep (tl_unlock k) old ws"
  unfolding tl_rep_def
proof (intro conjI allI impI)
  show "distinct ws" "length ws < 256" using assms by (simp_all add: tl_rep_def)
  show "tl_t (tl_unlock k) = tl_l (tl_unlock k) + of_nat (length ws)"
    using assms by (simp add: tl_rep_def tl_unlock_def algebra_simps)
  fix i
  assume "i < length ws"
  then have "old ((c # ws) ! Suc i) = tl_l k + of_nat (Suc i)"
    using assms unfolding tl_rep_def by auto
  then show "old (ws ! i) = tl_l (tl_unlock k) + of_nat i"
    by (simp add: tl_unlock_def algebra_simps)
qed

subsection \<open>The spin lock\<close>

text \<open>One round of the loop in \<^verbatim>\<open>lock\<close>: whether the lock was obtained, and the new value.\<close>

definition spin_try :: "u8 \<Rightarrow> bool \<times> u8" where
  "spin_try l = (l \<noteq> 1, 1)"

definition spin_unlock :: "u8 \<Rightarrow> u8" where
  "spin_unlock l = 0"

subsection \<open>Gates and the plugbox\<close>

definition set_queued :: "'g \<Rightarrow> ('g \<Rightarrow> bool) \<Rightarrow> bool \<times> ('g \<Rightarrow> bool)" where
  "set_queued g flags = (flags g, flags(g := True))"

definition set_dequeued :: "'g \<Rightarrow> ('g \<Rightarrow> bool) \<Rightarrow> ('g \<Rightarrow> bool)" where
  "set_dequeued g flags = flags(g := False)"

definition plugbox_new :: "'g \<Rightarrow> 'g list" where
  "plugbox_new panic = replicate 256 panic"

definition plugbox_assign :: "nat \<Rightarrow> 'g \<Rightarrow> 'g list \<Rightarrow> 'g list option" where
  "plugbox_assign vector gate table = (if vector < length table then Some (table[vector := gate]) else None)"

definition plugbox_report :: "nat \<Rightarrow> 'g list \<Rightarrow> 'g option" where
  "plugbox_report vector table = (if vector < length table then Some (table ! vector) else None)"

subsection \<open>The guard\<close>

type_synonym gate = nat

datatype gwork = ThreadWork | ItemWork gate

datatype gpc =
    Normal
  | WantLock gwork
  | Spinning gwork
  | Inside
  | ItemRuns gate
  | LeaveLoop
  | Dequeued gate
  | QueuedRuns gate
  | LeaveUnlock
  | LeaveClear
  | Relaying gate gpc

record gstate =
  g_in_epilogue :: "nat \<Rightarrow> bool"
  g_queued :: "gate \<Rightarrow> bool"
  g_queues :: "(nat, gate) mqueues"
  g_bkl :: ticketlock
  g_old :: "nat \<Rightarrow> u8"
  g_pc :: "nat \<Rightarrow> gpc"

datatype gact =
    Enter
  | Irq gate
  | Enqueue
  | TakeTicket
  | GotLock
  | Leave
  | Dequeue
  | ClearFlag
  | EpilogueEnds
  | Unlock
  | ClearEpilogue

definition set_pc :: "nat \<Rightarrow> gpc \<Rightarrow> gstate \<Rightarrow> gstate" where
  "set_pc cpu p s = s\<lparr>g_pc := (g_pc s)(cpu := p)\<rparr>"

text \<open>Where interrupts are enabled.\<close>

fun ints_on :: "gpc \<Rightarrow> bool" where
  "ints_on Normal = True"
| "ints_on (WantLock w) = True"
| "ints_on (Spinning w) = True"
| "ints_on Inside = True"
| "ints_on (ItemRuns g) = True"
| "ints_on (QueuedRuns g) = True"
| "ints_on _ = False"

text \<open>\<^verbatim>\<open>Guard::enter\<close> up to the lock.\<close>

definition guard_enter :: "nat \<Rightarrow> gstate \<Rightarrow> gstate" where
  "guard_enter cpu s =
     set_pc cpu (WantLock ThreadWork) (s\<lparr>g_in_epilogue := (g_in_epilogue s)(cpu := True)\<rparr>)"

text \<open>\<^verbatim>\<open>Guard::relay\<close>: the test of \<^verbatim>\<open>in_epilogue\<close> and, on the queueing branch, the atomic
  \<^verbatim>\<open>set_queued\<close>.\<close>

definition guard_relay :: "nat \<Rightarrow> gate \<Rightarrow> gstate \<Rightarrow> gstate" where
  "guard_relay cpu item s =
     (if g_in_epilogue s cpu
      then let (was, flags) = set_queued item (g_queued s); s' = s\<lparr>g_queued := flags\<rparr>
           in if \<not> was then set_pc cpu (Relaying item (g_pc s cpu)) s' else s'
      else set_pc cpu (WantLock (ItemWork item)) (s\<lparr>g_in_epilogue := (g_in_epilogue s)(cpu := True)\<rparr>))"

text \<open>The test of the loop in \<^verbatim>\<open>Guard::leave\<close>.\<close>

definition guard_dequeue :: "nat \<Rightarrow> gstate \<Rightarrow> gstate" where
  "guard_dequeue cpu s =
     (let (g, q) = mq_dequeue cpu (g_queues s); s = s\<lparr>g_queues := q\<rparr>
      in case g of Some g \<Rightarrow> set_pc cpu (Dequeued g) s | None \<Rightarrow> set_pc cpu LeaveUnlock s)"

fun gexec :: "nat \<Rightarrow> gact \<Rightarrow> gstate \<Rightarrow> gstate option" where
  "gexec cpu Enter s = (if g_pc s cpu = Normal then Some (guard_enter cpu s) else None)"
| "gexec cpu (Irq g) s = (if ints_on (g_pc s cpu) then Some (guard_relay cpu g s) else None)"
| "gexec cpu Enqueue s =
     (case g_pc s cpu of
        Relaying g p \<Rightarrow> Some (set_pc cpu p (s\<lparr>g_queues := on_queue cpu (enqueue g) (g_queues s)\<rparr>))
      | _ \<Rightarrow> None)"
| "gexec cpu TakeTicket s =
     (case g_pc s cpu of
        WantLock w \<Rightarrow> let (v, k) = tl_take (g_bkl s)
                      in Some (set_pc cpu (Spinning w) (s\<lparr>g_bkl := k, g_old := (g_old s)(cpu := v)\<rparr>))
      | _ \<Rightarrow> None)"
| "gexec cpu GotLock s =
     (case g_pc s cpu of
        Spinning w \<Rightarrow> if tl_passes (g_old s cpu) (g_bkl s)
                      then Some (set_pc cpu (case w of ThreadWork \<Rightarrow> Inside | ItemWork g \<Rightarrow> ItemRuns g) s)
                      else None
      | _ \<Rightarrow> None)"
| "gexec cpu Leave s =
     (case g_pc s cpu of
        Inside \<Rightarrow> Some (set_pc cpu LeaveLoop s)
      | ItemRuns g \<Rightarrow> Some (set_pc cpu LeaveLoop s)
      | _ \<Rightarrow> None)"
| "gexec cpu Dequeue s = (if g_pc s cpu = LeaveLoop then Some (guard_dequeue cpu s) else None)"
| "gexec cpu ClearFlag s =
     (case g_pc s cpu of
        Dequeued g \<Rightarrow> Some (set_pc cpu (QueuedRuns g) (s\<lparr>g_queued := set_dequeued g (g_queued s)\<rparr>))
      | _ \<Rightarrow> None)"
| "gexec cpu EpilogueEnds s =
     (case g_pc s cpu of QueuedRuns g \<Rightarrow> Some (set_pc cpu LeaveLoop s) | _ \<Rightarrow> None)"
| "gexec cpu Unlock s =
     (if g_pc s cpu = LeaveUnlock
      then Some (set_pc cpu LeaveClear (s\<lparr>g_bkl := tl_unlock (g_bkl s)\<rparr>)) else None)"
| "gexec cpu ClearEpilogue s =
     (if g_pc s cpu = LeaveClear
      then Some (set_pc cpu Normal (s\<lparr>g_in_epilogue := (g_in_epilogue s)(cpu := False)\<rparr>)) else None)"

definition guard_init :: gstate where
  "guard_init = \<lparr>g_in_epilogue = (\<lambda>_. False), g_queued = (\<lambda>_. False),
     g_queues = (\<lambda>_. queue_new, Map.empty), g_bkl = tl_new, g_old = (\<lambda>_. 0), g_pc = (\<lambda>_. Normal)\<rparr>"

text \<open>At most 255 CPUs; the kernel supports 8.\<close>

inductive greach :: "nat \<Rightarrow> gstate \<Rightarrow> bool" for ncpu where
  init: "greach ncpu guard_init"
| step: "greach ncpu s \<Longrightarrow> cpu < ncpu \<Longrightarrow> gexec cpu a s = Some s' \<Longrightarrow> greach ncpu s'"

subsection \<open>The invariant\<close>

fun core :: "gpc \<Rightarrow> gpc" where
  "core (Relaying g p) = p"
| "core p = p"

fun owns_lock :: "gpc \<Rightarrow> bool" where
  "owns_lock Inside = True"
| "owns_lock (ItemRuns g) = True"
| "owns_lock LeaveLoop = True"
| "owns_lock (Dequeued g) = True"
| "owns_lock (QueuedRuns g) = True"
| "owns_lock LeaveUnlock = True"
| "owns_lock _ = False"

fun ticketed :: "gpc \<Rightarrow> bool" where
  "ticketed (Spinning w) = True"
| "ticketed p = owns_lock p"

text \<open>A gate that is marked as queued but not in a queue: it is about to be enqueued, or has
  just been dequeued.\<close>

fun transit :: "gpc \<Rightarrow> gate \<Rightarrow> bool" where
  "transit (Relaying h p) g \<longleftrightarrow> h = g"
| "transit (Dequeued h) g \<longleftrightarrow> h = g"
| "transit _ g \<longleftrightarrow> False"

definition lock_inv :: "nat \<Rightarrow> nat list \<Rightarrow> gstate \<Rightarrow> bool" where
  "lock_inv n ws s \<longleftrightarrow> tl_rep (g_bkl s) (g_old s) ws \<and>
     (\<forall>c. c \<in> set ws \<longleftrightarrow> c < n \<and> ticketed (core (g_pc s c))) \<and>
     (\<forall>c < n. owns_lock (core (g_pc s c)) \<longrightarrow> hd ws = c)"

definition flag_inv :: "(nat \<Rightarrow> gate list) \<Rightarrow> gstate \<Rightarrow> bool" where
  "flag_inv L s \<longleftrightarrow> mq_rep (g_queues s) L \<and>
     (\<forall>g. g_queued s g \<longleftrightarrow> (\<exists>c. g \<in> set (L c)) \<or> (\<exists>c. transit (g_pc s c) g)) \<and>
     (\<forall>c g. transit (g_pc s c) g \<longrightarrow> (\<forall>d. g \<notin> set (L d)) \<and> (\<forall>d. transit (g_pc s d) g \<longrightarrow> d = c))"

definition level_inv :: "(nat \<Rightarrow> gate list) \<Rightarrow> gstate \<Rightarrow> bool" where
  "level_inv L s \<longleftrightarrow> (\<forall>c. g_in_epilogue s c \<longleftrightarrow> g_pc s c \<noteq> Normal) \<and>
     (\<forall>c. L c \<noteq> [] \<longrightarrow> core (g_pc s c) \<notin> {Normal, LeaveUnlock, LeaveClear}) \<and>
     (\<forall>c g p. g_pc s c = Relaying g p \<longrightarrow> ints_on p \<and> p \<noteq> Normal)"

definition ginv :: "nat \<Rightarrow> (nat \<Rightarrow> gate list) \<Rightarrow> nat list \<Rightarrow> gstate \<Rightarrow> bool" where
  "ginv n L ws s \<longleftrightarrow> lock_inv n ws s \<and> flag_inv L s \<and> level_inv L s"

lemma guard_init_ginv: "ginv n (\<lambda>_. []) [] guard_init"
  by (simp add: ginv_def lock_inv_def flag_inv_def level_inv_def guard_init_def tl_rep_new mq_rep_new)

text \<open>An action that changes only the program counter, within the same lock phase.\<close>

lemma lock_inv_pc:
  assumes "lock_inv n ws s" "ticketed (core p) \<longleftrightarrow> ticketed (core (g_pc s c))"
    and "owns_lock (core p) \<longrightarrow> owns_lock (core (g_pc s c)) \<or> hd ws = c"
    and "g_bkl s' = g_bkl s" "g_old s' = g_old s" "g_pc s' = (g_pc s)(c := p)"
  shows "lock_inv n ws s'"
  using assms unfolding lock_inv_def by auto

lemma flag_inv_pc:
  assumes "flag_inv L s" "transit p = transit (g_pc s c)"
    and "g_queues s' = g_queues s" "g_queued s' = g_queued s" "g_pc s' = (g_pc s)(c := p)"
  shows "flag_inv L s'"
proof -
  have "transit (g_pc s' d) = transit (g_pc s d)" for d using assms by simp
  with assms show ?thesis by (simp add: flag_inv_def)
qed

lemma level_inv_pc:
  assumes "level_inv L s" "p \<noteq> Normal" "g_pc s c \<noteq> Normal" "L c \<noteq> [] \<longrightarrow> core p \<notin> {Normal, LeaveUnlock, LeaveClear}"
    and "\<And>g q. p = Relaying g q \<Longrightarrow> ints_on q \<and> q \<noteq> Normal"
    and "g_in_epilogue s' = g_in_epilogue s" "g_pc s' = (g_pc s)(c := p)"
  shows "level_inv L s'"
  using assms unfolding level_inv_def by auto

lemma ginv_pc:
  assumes "ginv n L ws s" "p \<noteq> Normal" "g_pc s c \<noteq> Normal"
    and "ticketed (core p) \<longleftrightarrow> ticketed (core (g_pc s c))"
    and "owns_lock (core p) \<longrightarrow> owns_lock (core (g_pc s c)) \<or> hd ws = c"
    and "transit p = transit (g_pc s c)"
    and "L c \<noteq> [] \<longrightarrow> core p \<notin> {Normal, LeaveUnlock, LeaveClear}"
    and "\<And>g q. p = Relaying g q \<Longrightarrow> ints_on q \<and> q \<noteq> Normal"
  shows "ginv n L ws (set_pc c p s)"
  using assms lock_inv_pc [of n ws s p c "set_pc c p s"] flag_inv_pc [of L s p c "set_pc c p s"]
    level_inv_pc [of L s p c "set_pc c p s"]
  by (simp add: ginv_def set_pc_def)

lemma ints_on_plain: "ints_on p \<Longrightarrow> \<not> transit p g \<and> core p = p"
  by (cases p) auto

lemma level_invD:
  assumes "level_inv L s"
  shows "g_in_epilogue s c \<longleftrightarrow> g_pc s c \<noteq> Normal"
    and "L c \<noteq> [] \<Longrightarrow> core (g_pc s c) \<notin> {Normal, LeaveUnlock, LeaveClear}"
    and "g_pc s c = Relaying g p \<Longrightarrow> ints_on p \<and> p \<noteq> Normal"
  using assms unfolding level_inv_def by blast+

lemma flag_invD:
  assumes "flag_inv L s"
  shows "mq_rep (g_queues s) L"
    and "g_queued s g \<longleftrightarrow> (\<exists>c. g \<in> set (L c)) \<or> (\<exists>c. transit (g_pc s c) g)"
    and "transit (g_pc s c) g \<Longrightarrow> g \<notin> set (L d)"
    and "transit (g_pc s c) g \<Longrightarrow> transit (g_pc s d) g \<Longrightarrow> d = c"
  using assms unfolding flag_inv_def by blast+

text \<open>A CPU starts waiting for the lock.\<close>

lemma ginv_want:
  assumes inv: "ginv n L ws s" and pc: "g_pc s c = Normal"
  shows "ginv n L ws (set_pc c (WantLock w) (s\<lparr>g_in_epilogue := (g_in_epilogue s)(c := True)\<rparr>))"
    (is "ginv n L ws ?s")
proof -
  have "lock_inv n ws ?s"
    by (rule lock_inv_pc [of n ws s "WantLock w" c]) (use inv pc in \<open>simp_all add: ginv_def set_pc_def\<close>)
  moreover have "flag_inv L ?s"
    by (rule flag_inv_pc [of L s "WantLock w" c]) (use inv pc in \<open>simp_all add: ginv_def set_pc_def fun_eq_iff\<close>)
  moreover have "level_inv L ?s"
    using inv pc by (auto simp: ginv_def level_inv_def set_pc_def)
  ultimately show ?thesis by (simp add: ginv_def)
qed

lemma ginv_relay:
  assumes inv: "ginv n L ws s" and on: "ints_on (g_pc s c)"
  shows "ginv n L ws (guard_relay c g s)"
proof (cases "g_in_epilogue s c")
  case False
  then have "g_pc s c = Normal" using inv level_invD(1) [of L s c] by (simp add: ginv_def)
  with False ginv_want [OF inv] show ?thesis by (simp add: guard_relay_def)
next
  case True
  note plain = ints_on_plain [OF on]
  have parts: "lock_inv n ws s" "flag_inv L s" "level_inv L s" using inv by (simp_all add: ginv_def)
  have nn: "g_pc s c \<noteq> Normal" using level_invD(1) [OF parts(3)] True by simp
  show ?thesis
  proof (cases "g_queued s g")
    case queued: True
    then have "(g_queued s)(g := True) = g_queued s" by (simp add: fun_upd_idem)
    with True queued inv show ?thesis by (simp add: guard_relay_def set_queued_def)
  next
    case False
    let ?p = "Relaying g (g_pc s c)"
    let ?s = "set_pc c ?p (s\<lparr>g_queued := (g_queued s)(g := True)\<rparr>)"
    have eq: "guard_relay c g s = ?s"
      using True False by (simp add: guard_relay_def set_queued_def)
    have "lock_inv n ws ?s"
      by (rule lock_inv_pc [of n ws s ?p c]) (use parts(1) plain in \<open>simp_all add: set_pc_def\<close>)
    moreover have "level_inv L ?s"
      using parts(3) plain on nn unfolding level_inv_def set_pc_def by auto
    moreover have "flag_inv L ?s"
    proof -
      have fresh: "g \<notin> set (L d)" "\<not> transit (g_pc s d) g" for d
        using flag_invD(2) [OF parts(2), of g] False by auto
      have tr: "transit (g_pc ?s d) h \<longleftrightarrow> (if d = c then h = g else transit (g_pc s d) h)" for d h
        by (auto simp: set_pc_def)
      have no: "\<not> transit (g_pc s c) h" for h using plain by simp
      show ?thesis
        unfolding flag_inv_def tr
      proof (intro conjI allI impI, goal_cases)
        case 1 show ?case using flag_invD(1) [OF parts(2)] by (simp add: set_pc_def)
      next
        case (2 h)
        have "g_queued ?s h \<longleftrightarrow> h = g \<or> g_queued s h" by (simp add: set_pc_def)
        then show ?case using flag_invD(2) [OF parts(2), of h] no by metis
      next
        case (3 d h e) then show ?case using fresh flag_invD(3) [OF parts(2)] by (auto split: if_splits)
      next
        case (4 d h e) then show ?case
          using fresh flag_invD(4) [OF parts(2), of d h e] by (auto split: if_splits)
      qed
    qed
    ultimately show ?thesis unfolding eq by (simp add: ginv_def)
  qed
qed

lemma ginv_enqueue:
  assumes inv: "ginv n L ws s" and pc: "g_pc s c = Relaying g p"
  shows "ginv n (L(c := L c @ [g])) ws (set_pc c p (s\<lparr>g_queues := on_queue c (enqueue g) (g_queues s)\<rparr>))"
    (is "ginv n ?L ws ?s")
proof -
  have parts: "lock_inv n ws s" "flag_inv L s" "level_inv L s" using inv by (simp_all add: ginv_def)
  have p: "ints_on p" "p \<noteq> Normal" using level_invD(3) [OF parts(3) pc] by auto
  note plain = ints_on_plain [OF p(1)]
  have off: "p \<noteq> LeaveUnlock" "p \<noteq> LeaveClear" using p(1) by auto
  have t: "transit (g_pc s c) g" by (simp add: pc)
  have "lock_inv n ws ?s"
    by (rule lock_inv_pc [of n ws s p c]) (use parts(1) plain pc in \<open>simp_all add: set_pc_def\<close>)
  moreover have "level_inv ?L ?s"
    using parts(3) plain p off pc unfolding level_inv_def set_pc_def by auto
  moreover have "flag_inv ?L ?s"
  proof -
    have tr: "transit (g_pc ?s d) h \<longleftrightarrow> d \<noteq> c \<and> transit (g_pc s d) h" for d h
      using plain by (auto simp: set_pc_def)
    have q: "mq_rep (g_queues ?s) ?L"
      using mq_enqueue [OF flag_invD(1) [OF parts(2)] flag_invD(3) [OF parts(2) t]]
      by (simp add: set_pc_def)
    show ?thesis
      unfolding flag_inv_def tr
    proof (intro conjI allI impI, goal_cases)
      case 1 show ?case by (rule q)
    next
      case (2 h)
      have "(\<exists>d. h \<in> set (?L d)) \<longleftrightarrow> h = g \<or> (\<exists>d. h \<in> set (L d))" by auto
      moreover have "transit (g_pc s c) h \<longleftrightarrow> h = g" using pc by auto
      ultimately show ?case using flag_invD(2) [OF parts(2), of h] by (auto simp: set_pc_def)
    next
      case (3 d h e) then show ?case
        using flag_invD(3) [OF parts(2), of d h e] flag_invD(4) [OF parts(2) t, of d] by auto
    next
      case (4 d h e) then show ?case using flag_invD(4) [OF parts(2), of d h e] by auto
    qed
  qed
  ultimately show ?thesis by (simp add: ginv_def)
qed

lemma ginv_ticket:
  assumes inv: "ginv n L ws s" and pc: "g_pc s c = WantLock w" and c: "c < n" "n \<le> 255"
    and take: "tl_take (g_bkl s) = (v, k)"
  shows "ginv n L (ws @ [c]) (set_pc c (Spinning w) (s\<lparr>g_bkl := k, g_old := (g_old s)(c := v)\<rparr>))"
    (is "ginv n L ?ws ?s")
proof -
  have parts: "lock_inv n ws s" "flag_inv L s" "level_inv L s" using inv by (simp_all add: ginv_def)
  have rep: "tl_rep (g_bkl s) (g_old s) ws" and mem: "\<And>d. d \<in> set ws \<longleftrightarrow> d < n \<and> ticketed (core (g_pc s d))"
    and hd: "\<And>d. d < n \<Longrightarrow> owns_lock (core (g_pc s d)) \<Longrightarrow> hd ws = d"
    using parts(1) by (auto simp: lock_inv_def)
  have out: "c \<notin> set ws" using mem pc by simp
  have "insert c (set ws) \<subseteq> {..<n}" using mem c by auto
  then have "card (insert c (set ws)) \<le> n" using card_mono [of "{..<n}"] by fastforce
  then have "length ws < 255" using out rep c distinct_card [of ws] by (simp add: tl_rep_def)
  from tl_take_rep [OF rep out this take] have rep': "tl_rep k ((g_old s)(c := v)) ?ws" .
  have own: "owns_lock p \<Longrightarrow> ticketed p" for p by (cases p) auto
  have "hd ?ws = d" if "d < n" "owns_lock (core (g_pc s d))" for d
  proof -
    have "d \<in> set ws" using mem that own by simp
    then show ?thesis using hd [OF that] by (cases ws) auto
  qed
  then have "lock_inv n ?ws ?s"
    using rep' mem c pc by (auto simp: lock_inv_def set_pc_def)
  moreover have "flag_inv L ?s"
    by (rule flag_inv_pc [of L s "Spinning w" c]) (use parts(2) pc in \<open>simp_all add: set_pc_def fun_eq_iff\<close>)
  moreover have "level_inv L ?s"
    by (rule level_inv_pc [of L s "Spinning w" c]) (use parts(3) pc in \<open>simp_all add: set_pc_def\<close>)
  ultimately show ?thesis by (simp add: ginv_def)
qed

lemma ginv_unlock:
  assumes inv: "ginv n L ws s" and pc: "g_pc s c = LeaveUnlock" and c: "c < n"
  shows "ginv n L (tl ws) (set_pc c LeaveClear (s\<lparr>g_bkl := tl_unlock (g_bkl s)\<rparr>))" (is "ginv n L _ ?s")
proof -
  have parts: "lock_inv n ws s" "flag_inv L s" "level_inv L s" using inv by (simp_all add: ginv_def)
  have rep: "tl_rep (g_bkl s) (g_old s) ws" and mem: "\<And>d. d \<in> set ws \<longleftrightarrow> d < n \<and> ticketed (core (g_pc s d))"
    and hd: "\<And>d. d < n \<Longrightarrow> owns_lock (core (g_pc s d)) \<Longrightarrow> hd ws = d"
    using parts(1) by (auto simp: lock_inv_def)
  have "c \<in> set ws" "hd ws = c" using mem [of c] hd [of c] pc c by auto
  then obtain ws' where ws: "ws = c # ws'" by (cases ws) auto
  have d: "c \<notin> set ws'" using rep ws by (simp add: tl_rep_def)
  have none: "\<not> owns_lock (core (g_pc s d))" if "d < n" "d \<noteq> c" for d
    using hd [OF that(1)] that(2) \<open>hd ws = c\<close> by auto
  have "lock_inv n ws' ?s"
    unfolding lock_inv_def
  proof (intro conjI allI impI, goal_cases)
    case 1 show ?case using tl_unlock_rep rep ws by (simp add: set_pc_def)
  next
    case (2 e) show ?case using mem [of e] ws d by (auto simp: set_pc_def)
  next
    case (3 e) then show ?case using none [of e] by (auto simp: set_pc_def split: if_splits)
  qed
  moreover have "flag_inv L ?s"
    by (rule flag_inv_pc [of L s LeaveClear c]) (use parts(2) pc in \<open>simp_all add: set_pc_def fun_eq_iff\<close>)
  moreover have "level_inv L ?s"
    by (rule level_inv_pc [of L s LeaveClear c]) (use parts(3) pc level_invD(2) [OF parts(3), of c] in \<open>auto simp: set_pc_def\<close>)
  ultimately show ?thesis using ws by (simp add: ginv_def)
qed

lemma ginv_dequeue:
  assumes inv: "ginv n L ws s" and pc: "g_pc s c = LeaveLoop"
  shows "\<exists>L'. ginv n L' ws (guard_dequeue c s)"
proof -
  have parts: "lock_inv n ws s" "flag_inv L s" "level_inv L s" using inv by (simp_all add: ginv_def)
  note rep = flag_invD(1) [OF parts(2)]
  show ?thesis
  proof (cases "L c")
    case Nil
    have "guard_dequeue c s = set_pc c LeaveUnlock s"
      using mq_dequeue_Nil [OF rep Nil] by (simp add: guard_dequeue_def)
    moreover have "ginv n L ws (set_pc c LeaveUnlock s)"
      by (rule ginv_pc [OF inv]) (use pc Nil in \<open>simp_all add: fun_eq_iff\<close>)
    ultimately show ?thesis by auto
  next
    case (Cons g gs)
    obtain q where q: "mq_dequeue c (g_queues s) = (Some g, q)" "mq_rep q (L(c := gs))"
      using mq_dequeue_Cons [OF rep Cons] by auto
    let ?s = "set_pc c (Dequeued g) (s\<lparr>g_queues := q\<rparr>)" and ?L = "L(c := gs)"
    have eq: "guard_dequeue c s = ?s" using q(1) by (simp add: guard_dequeue_def)
    have g: "g \<in> set (L c)" "g \<notin> set gs" using Cons mq_rep_distinct [OF rep, of c] by auto
    have only: "g \<notin> set (L d)" if "d \<noteq> c" for d
      using mq_rep_disjoint [OF rep g(1), of d] that by auto
    have not_tr: "\<not> transit (g_pc s d) g" for d using flag_invD(3) [OF parts(2), of d g c] g by auto
    have "lock_inv n ws ?s"
      by (rule lock_inv_pc [of n ws s "Dequeued g" c]) (use parts(1) pc in \<open>simp_all add: set_pc_def\<close>)
    moreover have "level_inv ?L ?s"
      using parts(3) pc by (auto simp: level_inv_def set_pc_def)
    moreover have "flag_inv ?L ?s"
    proof -
      have tr: "transit (g_pc ?s d) h \<longleftrightarrow> (if d = c then h = g else transit (g_pc s d) h)" for d h
        by (auto simp: set_pc_def)
      have no: "\<not> transit (g_pc s c) h" for h using pc by simp
      have mem: "h \<in> set (?L d) \<longleftrightarrow> h \<in> set (L d) \<and> h \<noteq> g" for d h
        using Cons g only [of d] by auto
      show ?thesis
        unfolding flag_inv_def tr mem
      proof (intro conjI allI impI, goal_cases)
        case 1 show ?case using q(2) by (simp add: set_pc_def)
      next
        case (2 h)
        have "(\<exists>d. if d = c then h = g else transit (g_pc s d) h) \<longleftrightarrow> h = g \<or> (\<exists>d. transit (g_pc s d) h)"
          using no by metis
        then show ?case
          using flag_invD(2) [OF parts(2), of h] g by (auto simp: set_pc_def)
      next
        case (3 d h e) then show ?case
          using flag_invD(3) [OF parts(2), of d h e] by (auto split: if_splits)
      next
        case (4 d h e) then show ?case
          using flag_invD(4) [OF parts(2), of d h e] not_tr by (auto split: if_splits)
      qed
    qed
    ultimately show ?thesis unfolding eq by (auto simp: ginv_def)
  qed
qed

lemma ginv_clear_flag:
  assumes inv: "ginv n L ws s" and pc: "g_pc s c = Dequeued g"
  shows "ginv n L ws (set_pc c (QueuedRuns g) (s\<lparr>g_queued := set_dequeued g (g_queued s)\<rparr>))" (is "ginv n L ws ?s")
proof -
  have parts: "lock_inv n ws s" "flag_inv L s" "level_inv L s" using inv by (simp_all add: ginv_def)
  have t: "transit (g_pc s c) g" by (simp add: pc)
  have "lock_inv n ws ?s"
    by (rule lock_inv_pc [of n ws s "QueuedRuns g" c]) (use parts(1) pc in \<open>simp_all add: set_pc_def\<close>)
  moreover have "level_inv L ?s"
    using parts(3) pc by (auto simp: level_inv_def set_pc_def)
  moreover have "flag_inv L ?s"
  proof -
    have tr: "transit (g_pc ?s d) h \<longleftrightarrow> d \<noteq> c \<and> transit (g_pc s d) h" for d h
      by (auto simp: set_pc_def)
    show ?thesis
      unfolding flag_inv_def tr
    proof (intro conjI allI impI, goal_cases)
      case 1 show ?case using flag_invD(1) [OF parts(2)] by (simp add: set_pc_def)
    next
      case (2 h)
      have "transit (g_pc s c) h \<longleftrightarrow> h = g" using pc by auto
      then have "(\<exists>d. d \<noteq> c \<and> transit (g_pc s d) h) \<longleftrightarrow> h \<noteq> g \<and> (\<exists>d. transit (g_pc s d) h)"
        using flag_invD(4) [OF parts(2) t] by metis
      moreover have "g_queued ?s h \<longleftrightarrow> h \<noteq> g \<and> g_queued s h"
        by (auto simp: set_pc_def set_dequeued_def)
      moreover have "\<not> (\<exists>d. g \<in> set (L d))" using flag_invD(3) [OF parts(2) t] by blast
      ultimately show ?case using flag_invD(2) [OF parts(2), of h] by metis
    next
      case (3 d h e) then show ?case using flag_invD(3) [OF parts(2), of d h e] by auto
    next
      case (4 d h e) then show ?case using flag_invD(4) [OF parts(2), of d h e] by auto
    qed
  qed
  ultimately show ?thesis by (simp add: ginv_def)
qed

lemma ginv_clear_level:
  assumes inv: "ginv n L ws s" and pc: "g_pc s c = LeaveClear"
  shows "ginv n L ws (set_pc c Normal (s\<lparr>g_in_epilogue := (g_in_epilogue s)(c := False)\<rparr>))" (is "ginv n L ws ?s")
proof -
  have parts: "lock_inv n ws s" "flag_inv L s" "level_inv L s" using inv by (simp_all add: ginv_def)
  have "L c = []" using level_invD(2) [OF parts(3), of c] pc by auto
  then have "level_inv L ?s"
    using parts(3) by (auto simp: level_inv_def set_pc_def)
  moreover have "lock_inv n ws ?s"
    by (rule lock_inv_pc [of n ws s Normal c]) (use parts(1) pc in \<open>simp_all add: set_pc_def\<close>)
  moreover have "flag_inv L ?s"
    by (rule flag_inv_pc [of L s Normal c]) (use parts(2) pc in \<open>simp_all add: set_pc_def fun_eq_iff\<close>)
  ultimately show ?thesis by (simp add: ginv_def)
qed

lemma ginv_got:
  assumes inv: "ginv n L ws s" and pc: "g_pc s c = Spinning w" and c: "c < n"
    and pass: "tl_passes (g_old s c) (g_bkl s)"
  shows "ginv n L ws (set_pc c (case w of ThreadWork \<Rightarrow> Inside | ItemWork g \<Rightarrow> ItemRuns g) s)"
proof -
  have rep: "tl_rep (g_bkl s) (g_old s) ws" and mem: "c \<in> set ws"
    using inv pc c by (auto simp: ginv_def lock_inv_def)
  have "hd ws = c" using tl_passes_rep [OF rep mem] pass by simp
  then show ?thesis
    by (intro ginv_pc [OF inv]) (use pc in \<open>auto simp: fun_eq_iff split: gwork.splits\<close>)
qed

lemma gexec_ginv:
  assumes inv: "ginv n L ws s" and c: "c < n" "n \<le> 255" and step: "gexec c a s = Some s'"
  shows "\<exists>L ws. ginv n L ws s'"
proof (cases a)
  case Enter
  with step inv show ?thesis
    by (auto simp: guard_enter_def intro: ginv_want split: if_splits)
next
  case (Irq g)
  with step inv show ?thesis by (auto intro: ginv_relay split: if_splits)
next
  case Enqueue
  with step inv show ?thesis by (auto dest: ginv_enqueue split: gpc.splits)
next
  case TakeTicket
  with step inv c show ?thesis
    by (auto dest: ginv_ticket split: gpc.splits prod.splits)
next
  case GotLock
  with step inv c show ?thesis
    by (auto dest: ginv_got split: gpc.splits if_splits)
next
  case Leave
  have "ginv n L ws (set_pc c LeaveLoop s)" if "g_pc s c = Inside \<or> (\<exists>g. g_pc s c = ItemRuns g)"
    by (rule ginv_pc [OF inv]) (use that in \<open>auto simp: fun_eq_iff\<close>)
  with step Leave show ?thesis by (auto split: gpc.splits)
next
  case Dequeue
  with step have "g_pc s c = LeaveLoop" "s' = guard_dequeue c s" by (auto split: if_splits)
  with ginv_dequeue [OF inv] show ?thesis by blast
next
  case ClearFlag
  with step inv show ?thesis by (auto dest: ginv_clear_flag split: gpc.splits)
next
  case EpilogueEnds
  have "ginv n L ws (set_pc c LeaveLoop s)" if "g_pc s c = QueuedRuns g" for g
    by (rule ginv_pc [OF inv]) (use that in \<open>auto simp: fun_eq_iff\<close>)
  with step EpilogueEnds show ?thesis by (auto split: gpc.splits)
next
  case Unlock
  with step inv c show ?thesis by (auto dest: ginv_unlock split: if_splits)
next
  case ClearEpilogue
  with step inv show ?thesis by (auto dest: ginv_clear_level split: if_splits)
qed

lemma greach_ginv: "greach n s \<Longrightarrow> n \<le> 255 \<Longrightarrow> \<exists>L ws. ginv n L ws s"
proof (induction rule: greach.induct)
  case init
  then show ?case using guard_init_ginv by blast
next
  case (step s cpu a s')
  then show ?case using gexec_ginv by blast
qed

subsection \<open>Properties\<close>

lemma owns_lock_unique:
  "greach n s \<Longrightarrow> n \<le> 255 \<Longrightarrow> c < n \<Longrightarrow> d < n \<Longrightarrow> owns_lock (core (g_pc s c)) \<Longrightarrow> owns_lock (core (g_pc s d)) \<Longrightarrow> c = d"
  using greach_ginv unfolding ginv_def lock_inv_def by metis

text \<open>Property C14. At most one CPU is at the epilogue level (inside a critical section of a
  thread, running an epilogue, or leaving), whatever the interleaving of the CPUs and of their
  interrupts, and although the tickets wrap around at 256.\<close>

theorem guard_mutual_exclusion:
  assumes "greach n s" "n \<le> 255" "c < n" "d < n"
    and "owns_lock (core (g_pc s c))" "owns_lock (core (g_pc s d))"
  shows "c = d"
  by (rule owns_lock_unique [OF assms])

fun run_gacts :: "(nat \<times> gact) list \<Rightarrow> gstate \<Rightarrow> gstate option" where
  "run_gacts [] s = Some s"
| "run_gacts ((c, a) # as) s = Option.bind (gexec c a s) (run_gacts as)"

lemma run_gacts_reach:
  "greach n s \<Longrightarrow> \<forall>(c, a) \<in> set as. c < n \<Longrightarrow> run_gacts as s = Some s' \<Longrightarrow> greach n s'"
proof (induction as arbitrary: s)
  case (Cons ca as)
  obtain c a where [simp]: "ca = (c, a)" by (cases ca)
  from Cons.prems(3) obtain s1 where "gexec c a s = Some s1" "run_gacts as s1 = Some s'"
    by (auto split: Option.bind_splits)
  moreover from this have "greach n s1" using Cons.prems(1,2) by (auto intro: greach.step)
  ultimately show ?case using Cons.IH Cons.prems(2) by simp
qed simp

definition guard_demo :: "(nat \<times> gact) list" where
  "guard_demo = [(0, Enter), (1, Enter), (1, TakeTicket), (0, TakeTicket), (1, GotLock), (1, Irq 7), (1, Enqueue)]"

lemmas guard_eval = guard_demo_def guard_init_def guard_enter_def set_pc_def tl_take_def tl_new_def
  tl_passes_def guard_relay_def set_queued_def on_queue_def queue_new_def

lemma guard_demo_runs:
  "\<exists>s. run_gacts guard_demo guard_init = Some s \<and> g_pc s 1 = Inside \<and> g_pc s 0 = Spinning ThreadWork \<and>
     g_queued s 7"
  by (simp add: guard_eval)

theorem guard_mutual_exclusion_witness:
  "\<exists>s. run_gacts guard_demo guard_init = Some s \<and> owns_lock (core (g_pc s 1)) \<and>
     (\<forall>d. d < 2 \<and> owns_lock (core (g_pc s d)) \<longrightarrow> 1 = d)"
proof -
  obtain s where s: "run_gacts guard_demo guard_init = Some s" "g_pc s 1 = Inside"
    using guard_demo_runs by blast
  have "greach 2 s"
    by (rule run_gacts_reach [OF greach.init _ s(1)]) (auto simp: guard_demo_def)
  from guard_mutual_exclusion [OF this, of 1] s show ?thesis by auto
qed

text \<open>A gate marked as queued is in the queue of exactly one CPU, or on its way in or out; and a CPU
  with a gate in its queue has not yet passed the last test of \<^verbatim>\<open>leave\<close>.\<close>

lemma guard_queues_consistent:
  assumes "greach n s" "n \<le> 255"
  shows "\<exists>L. mq_rep (g_queues s) L \<and>
    (\<forall>g. g_queued s g \<longleftrightarrow> (\<exists>c. g \<in> set (L c)) \<or> (\<exists>c. transit (g_pc s c) g)) \<and>
    (\<forall>c d g. g \<in> set (L c) \<longrightarrow> g \<in> set (L d) \<longrightarrow> c = d) \<and>
    (\<forall>c. L c \<noteq> [] \<longrightarrow> g_in_epilogue s c \<and> core (g_pc s c) \<notin> {Normal, LeaveUnlock, LeaveClear})"
proof -
  obtain L ws where inv: "flag_inv L s" "level_inv L s"
    using greach_ginv [OF assms] by (auto simp: ginv_def)
  have "g_in_epilogue s c \<and> core (g_pc s c) \<notin> {Normal, LeaveUnlock, LeaveClear}" if "L c \<noteq> []" for c
    using level_invD(1,2) [OF inv(2), of c] that by (cases "g_pc s c") auto
  then show ?thesis
    using flag_invD(1,2) [OF inv(1)] mq_rep_disjoint [OF flag_invD(1) [OF inv(1)]]
    by (intro exI [of _ L]) blast
qed

end
