(* ===== verification/GuardLive.thy ===== *)
theory GuardLive
  imports Guard
begin

section \<open>Requested epilogues are run\<close>

text \<open>
  \<open>Guard\<close> shows what never happens; here is what does happen. Once a device has requested an
  epilogue, it is started before all CPUs are at the normal level again (\<open>awaits_step\<close>); without
  further requests there is no deadlock (\<open>some_cpu_acts\<close>), and the CPUs get there within a number of
  actions that \<open>load\<close> bounds (\<open>load_decreases\<close>).
\<close>

subsection \<open>Requests and starts\<close>

text \<open>The epilogue of \<open>g\<close> is executed: directly by \<^verbatim>\<open>relay\<close>, or from the queue by \<^verbatim>\<open>leave\<close>.\<close>

fun runs_epilogue :: "gate \<Rightarrow> gpc \<Rightarrow> bool" where
  "runs_epilogue g (ItemRuns h) \<longleftrightarrow> h = g"
| "runs_epilogue g (QueuedRuns h) \<longleftrightarrow> h = g"
| "runs_epilogue g _ \<longleftrightarrow> False"

definition starts_epilogue :: "gate \<Rightarrow> nat \<Rightarrow> gstate \<Rightarrow> gstate \<Rightarrow> bool" where
  "starts_epilogue g c s s' \<longleftrightarrow> runs_epilogue g (core (g_pc s' c)) \<and> \<not> runs_epilogue g (core (g_pc s c))"

text \<open>One of the actions \<open>as\<close> from \<open>s\<close> on starts the epilogue.\<close>

fun epilogue_starts :: "gate \<Rightarrow> (nat \<times> gact) list \<Rightarrow> gstate \<Rightarrow> bool" where
  "epilogue_starts g [] s \<longleftrightarrow> False"
| "epilogue_starts g ((c, a) # as) s \<longleftrightarrow>
     (case gexec c a s of
        None \<Rightarrow> False
      | Some s' \<Rightarrow> starts_epilogue g c s s' \<or> epilogue_starts g as s')"

definition quiet :: "nat \<Rightarrow> gstate \<Rightarrow> bool" where
  "quiet n s \<longleftrightarrow> (\<forall>c < n. g_pc s c = Normal)"

fun requests :: "gact \<Rightarrow> bool" where
  "requests Enter \<longleftrightarrow> True"
| "requests (Irq g) \<longleftrightarrow> True"
| "requests _ \<longleftrightarrow> False"

text \<open>A request that has not been served: the gate is marked, or a CPU waits for the lock to run it.\<close>

definition awaits :: "gate \<Rightarrow> gstate \<Rightarrow> bool" where
  "awaits g s \<longleftrightarrow> g_queued s g \<or> (\<exists>c. core (g_pc s c) \<in> {WantLock (ItemWork g), Spinning (ItemWork g)})"

lemma request_awaits: "gexec c (Irq g) s = Some s' \<Longrightarrow> awaits g s'"
  by (auto simp: awaits_def guard_relay_def set_queued_def set_pc_def Let_def split: if_splits)

lemma gexec_others: "gexec c a s = Some s' \<Longrightarrow> d \<noteq> c \<Longrightarrow> g_pc s' d = g_pc s d"
  by (cases a) (auto simp: guard_enter_def guard_relay_def guard_dequeue_def set_pc_def Let_def
      split: gpc.splits gwork.splits if_splits prod.splits option.splits)

lemma queued_step:
  assumes "g_queued s g" "gexec c a s = Some s'"
  shows "g_queued s' g \<or> starts_epilogue g c s s'"
  using assms by (cases a) (auto simp: starts_epilogue_def guard_enter_def guard_relay_def guard_dequeue_def set_pc_def
      set_queued_def set_dequeued_def Let_def split: gpc.splits gwork.splits if_splits prod.splits option.splits)

lemma waiting_step:
  assumes "ginv n L ws s" "core (g_pc s c) \<in> {WantLock (ItemWork g), Spinning (ItemWork g)}" "gexec c a s = Some s'"
  shows "core (g_pc s' c) \<in> {WantLock (ItemWork g), Spinning (ItemWork g)} \<or> starts_epilogue g c s s'"
proof -
  have level: "g_in_epilogue s c \<longleftrightarrow> g_pc s c \<noteq> Normal" using assms(1) by (simp add: ginv_def level_inv_def)
  show ?thesis
    using assms(2,3) level
    by (cases a; cases "g_pc s c") (auto simp: starts_epilogue_def guard_relay_def set_pc_def set_queued_def Let_def
        split: gwork.splits if_splits prod.splits)
qed

lemma awaits_step:
  assumes "ginv n L ws s" "awaits g s" "gexec c a s = Some s'"
  shows "awaits g s' \<or> starts_epilogue g c s s'"
proof (cases "g_queued s g")
  case True
  then show ?thesis using queued_step [OF True assms(3)] by (auto simp: awaits_def)
next
  case False
  then obtain d where d: "core (g_pc s d) \<in> {WantLock (ItemWork g), Spinning (ItemWork g)}"
    using assms(2) by (auto simp: awaits_def)
  show ?thesis
  proof (cases "d = c")
    case True
    then show ?thesis using waiting_step [OF assms(1) _ assms(3), of g] d unfolding awaits_def by blast
  next
    case False
    then have "core (g_pc s' d) \<in> {WantLock (ItemWork g), Spinning (ItemWork g)}"
      using d gexec_others [OF assms(3) False] by simp
    then show ?thesis unfolding awaits_def by blast
  qed
qed

lemma greach_beyond: "greach n s \<Longrightarrow> n \<le> c \<Longrightarrow> g_pc s c = Normal"
proof (induction rule: greach.induct)
  case (step s d a s')
  then show ?case using gexec_others [OF step.hyps(3), of c] by simp
qed (simp add: guard_init_def)

lemma quiet_awaits:
  assumes "greach n s" "n \<le> 255" "quiet n s"
  shows "\<not> awaits g s"
proof
  assume await: "awaits g s"
  have normal: "g_pc s c = Normal" for c using assms(3) greach_beyond [OF assms(1)] by (cases "c < n") (auto simp: quiet_def)
  obtain L ws where inv: "ginv n L ws s" using greach_ginv [OF assms(1,2)] by blast
  have L: "g_queued s g \<longleftrightarrow> (\<exists>c. g \<in> set (L c)) \<or> (\<exists>c. transit (g_pc s c) g)"
      "\<And>c. L c \<noteq> [] \<Longrightarrow> core (g_pc s c) \<noteq> Normal"
    using inv by (auto simp: ginv_def flag_inv_def level_inv_def)
  have "L c = []" for c using L(2) [of c] by (auto simp: normal)
  then have "\<not> g_queued s g" using L(1) by (simp add: normal)
  with await show False by (simp add: awaits_def normal)
qed

lemma awaited_starts:
  "greach n s \<Longrightarrow> n \<le> 255 \<Longrightarrow> awaits g s \<Longrightarrow> \<forall>(c, a) \<in> set as. c < n \<Longrightarrow> run_gacts as s = Some s' \<Longrightarrow> quiet n s' \<Longrightarrow>
     epilogue_starts g as s"
proof (induction as arbitrary: s)
  case Nil
  then show ?case using quiet_awaits by auto
next
  case (Cons ca as)
  obtain c a where ca [simp]: "ca = (c, a)" by (cases ca)
  obtain s1 where s1: "gexec c a s = Some s1" "run_gacts as s1 = Some s'" using Cons.prems(5) by (auto simp: bind_eq_Some_conv)
  have reach: "greach n s1" using Cons.prems(1,4) s1(1) by (auto intro: greach.step)
  obtain L ws where "ginv n L ws s" using greach_ginv [OF Cons.prems(1,2)] by blast
  from awaits_step [OF this Cons.prems(3) s1(1)] Cons.IH [OF reach Cons.prems(2) _ _ s1(2) Cons.prems(6)] Cons.prems(4) s1(1)
  show ?case by auto
qed

subsection \<open>Progress\<close>

text \<open>The actions that a CPU still has to do, without those for the gates in its queue.\<close>

fun pc_load :: "gpc \<Rightarrow> nat" where
  "pc_load Normal = 0"
| "pc_load LeaveClear = 1"
| "pc_load LeaveUnlock = 2"
| "pc_load LeaveLoop = 3"
| "pc_load Inside = 4"
| "pc_load (ItemRuns g) = 4"
| "pc_load (QueuedRuns g) = 4"
| "pc_load (Dequeued g) = 5"
| "pc_load (Spinning w) = 5"
| "pc_load (WantLock w) = 6"
| "pc_load (Relaying g p) = pc_load p + 4"

definition load :: "nat \<Rightarrow> (nat \<Rightarrow> gate list) \<Rightarrow> gstate \<Rightarrow> nat" where
  "load n L s = (\<Sum>c<n. pc_load (g_pc s c) + 3 * length (L c))"

lemma load_one_cpu:
  assumes "c < n" "\<And>d. d \<noteq> c \<Longrightarrow> g_pc s' d = g_pc s d \<and> L' d = L d"
    and "pc_load (g_pc s' c) + 3 * length (L' c) < pc_load (g_pc s c) + 3 * length (L c)"
  shows "load n L' s' < load n L s"
  unfolding load_def
proof (rule sum_strict_mono_ex1)
  show "\<forall>d\<in>{..<n}. pc_load (g_pc s' d) + 3 * length (L' d) \<le> pc_load (g_pc s d) + 3 * length (L d)"
    using assms(2,3) by (metis less_imp_le order_refl)
qed (use assms in auto)

lemma load_decreases:
  assumes inv: "ginv n L ws s" and c: "c < n" "n \<le> 255" and step: "gexec c a s = Some s'" and own: "\<not> requests a"
  shows "\<exists>L' ws'. ginv n L' ws' s' \<and> load n L' s' < load n L s"
proof -
  obtain L' ws' where inv': "ginv n L' ws' s'" using gexec_ginv [OF inv c step] by blast
  have rep: "mq_rep (g_queues s) L" "mq_rep (g_queues s') L'" using inv inv' by (auto simp: ginv_def flag_inv_def)
  have same: "L' = L" if "g_queues s' = g_queues s" using mq_rep_unique rep that by metis
  have others: "g_pc s' d = g_pc s d" if "d \<noteq> c" for d by (rule gexec_others [OF step that])
  have less: "load n L' s' < load n L s"
    if "\<And>d. d \<noteq> c \<Longrightarrow> L' d = L d" "pc_load (g_pc s' c) + 3 * length (L' c) < pc_load (g_pc s c) + 3 * length (L c)"
    by (rule load_one_cpu [OF c(1)]) (use others that in blast)+
  have "load n L' s' < load n L s"
  proof (cases a)
    case Enqueue
    then obtain g p where gp: "g_pc s c = Relaying g p" "s' = set_pc c p (s\<lparr>g_queues := on_queue c (enqueue g) (g_queues s)\<rparr>)"
      using step by (auto split: gpc.splits)
    have "transit (g_pc s c) g" using gp(1) by simp
    then have "\<forall>d. g \<notin> set (L d)" using inv unfolding ginv_def flag_inv_def by blast
    then have "mq_rep (g_queues s') (L(c := L c @ [g]))" using mq_enqueue [OF rep(1), of g c] by (simp add: gp(2) set_pc_def)
    then have "L' = L(c := L c @ [g])" using mq_rep_unique rep(2) by blast
    then show ?thesis using less gp by (simp add: set_pc_def)
  next
    case Dequeue
    then have d: "g_pc s c = LeaveLoop" "s' = guard_dequeue c s" using step by (auto split: if_splits)
    show ?thesis
    proof (cases "L c")
      case Nil
      with mq_dequeue_Nil [OF rep(1) Nil] d same less show ?thesis by (simp add: guard_dequeue_def set_pc_def)
    next
      case (Cons g gs)
      obtain q where q: "mq_dequeue c (g_queues s) = (Some g, q)" "mq_rep q (L(c := gs))"
        using mq_dequeue_Cons [OF rep(1) Cons] by blast
      then have "L' = L(c := gs)" using mq_rep_unique rep(2) d(2) by (fastforce simp: guard_dequeue_def set_pc_def)
      then show ?thesis using less d q(1) Cons by (simp add: guard_dequeue_def set_pc_def)
    qed
  qed (use step own less same in \<open>auto simp: set_pc_def tl_take_def split: gpc.splits gwork.splits if_splits\<close>)
  with inv' show ?thesis by blast
qed

lemma own_actions_bounded:
  "ginv n L ws s \<Longrightarrow> n \<le> 255 \<Longrightarrow> \<forall>(c, a) \<in> set as. c < n \<and> \<not> requests a \<Longrightarrow> run_gacts as s = Some s' \<Longrightarrow> length as \<le> load n L s"
proof (induction as arbitrary: s L ws)
  case (Cons ca as)
  obtain c a where ca [simp]: "ca = (c, a)" by (cases ca)
  obtain s1 where s1: "gexec c a s = Some s1" "run_gacts as s1 = Some s'" using Cons.prems(4) by (auto simp: bind_eq_Some_conv)
  obtain L1 ws1 where "ginv n L1 ws1 s1" "load n L1 s1 < load n L s"
    using load_decreases [OF Cons.prems(1) _ Cons.prems(2) s1(1)] Cons.prems(3) by auto
  with Cons.IH [OF this(1) Cons.prems(2) _ s1(2)] Cons.prems(3) show ?case by auto
qed simp

text \<open>A CPU that is not at the normal level can go on, unless it waits for the lock; then the CPU
  whose turn it is can.\<close>

lemma acts_without_lock:
  assumes "p \<noteq> Normal" "\<And>w. p \<noteq> Spinning w" "g_pc s c = p"
  shows "\<exists>a. \<not> requests a \<and> gexec c a s \<noteq> None"
proof (cases p)
  case (WantLock w) with assms(3) show ?thesis by (intro exI [of _ TakeTicket]) (simp add: Let_def split_beta)
next
  case Inside with assms(3) show ?thesis by (intro exI [of _ Leave]) simp
next
  case (ItemRuns g) with assms(3) show ?thesis by (intro exI [of _ Leave]) simp
next
  case LeaveLoop with assms(3) show ?thesis by (intro exI [of _ Dequeue]) simp
next
  case (Dequeued g) with assms(3) show ?thesis by (intro exI [of _ ClearFlag]) simp
next
  case (QueuedRuns g) with assms(3) show ?thesis by (intro exI [of _ EpilogueEnds]) simp
next
  case LeaveUnlock with assms(3) show ?thesis by (intro exI [of _ Unlock]) simp
next
  case LeaveClear with assms(3) show ?thesis by (intro exI [of _ ClearEpilogue]) simp
next
  case (Relaying g q) with assms(3) show ?thesis by (intro exI [of _ Enqueue]) simp
qed (use assms in auto)

lemma some_cpu_acts:
  assumes inv: "ginv n L ws s" and busy: "\<not> quiet n s"
  shows "\<exists>c < n. \<exists>a. \<not> requests a \<and> gexec c a s \<noteq> None"
proof -
  obtain c where c: "c < n" "g_pc s c \<noteq> Normal" using busy by (auto simp: quiet_def)
  show ?thesis
  proof (cases "\<exists>d < n. g_pc s d \<noteq> Normal \<and> (\<forall>w. g_pc s d \<noteq> Spinning w)")
    case True
    then show ?thesis using acts_without_lock by blast
  next
    case False
    then obtain w where "g_pc s c = Spinning w" using c by blast
    then have "c \<in> set ws" using inv c(1) by (simp add: ginv_def lock_inv_def)
    then have d: "hd ws \<in> set ws" by (cases ws) auto
    then have "hd ws < n" "ticketed (core (g_pc s (hd ws)))" using inv by (auto simp: ginv_def lock_inv_def)
    then obtain v where "g_pc s (hd ws) = Spinning v" using False by (cases "g_pc s (hd ws)") auto
    moreover have "tl_passes (g_old s (hd ws)) (g_bkl s)"
      using tl_passes_rep [OF _ d] inv by (auto simp: ginv_def lock_inv_def)
    ultimately have "\<not> requests GotLock \<and> gexec (hd ws) GotLock s \<noteq> None" by simp
    with \<open>hd ws < n\<close> show ?thesis by blast
  qed
qed

subsection \<open>The property\<close>

text \<open>
  Property C15. No requested epilogue is lost. After a device has requested the epilogue of a gate,
  every sequence of actions of the CPUs, with any further requests and interrupts, at whose end all
  CPUs are at the normal level contains the start of this epilogue, after the request. And the CPUs
  get there: without further requests they take at most \<open>k\<close> actions, and as long as one of them is
  not at the normal level, one of them can go on.
\<close>

theorem guard_no_lost_epilogue:
  assumes "greach n s" "n \<le> 255" "c < n" "gexec c (Irq g) s = Some s0"
  shows "\<exists>k. \<forall>as s'. (\<forall>(d, a) \<in> set as. d < n) \<and> run_gacts as s0 = Some s' \<longrightarrow>
    (quiet n s' \<longrightarrow> epilogue_starts g as s0) \<and>
    ((\<forall>(d, a) \<in> set as. \<not> requests a) \<longrightarrow> length as \<le> k) \<and>
    (\<not> quiet n s' \<longrightarrow> (\<exists>d < n. \<exists>a. \<not> requests a \<and> gexec d a s' \<noteq> None))"
proof -
  have reach: "greach n s0" by (rule greach.step [OF assms(1,3,4)])
  obtain L ws where inv: "ginv n L ws s0" using greach_ginv [OF reach assms(2)] by blast
  have "\<exists>d < n. \<exists>a. \<not> requests a \<and> gexec d a s' \<noteq> None"
    if "\<forall>(d, a) \<in> set as. d < n" "run_gacts as s0 = Some s'" "\<not> quiet n s'" for as s'
    using some_cpu_acts [OF _ that(3)] greach_ginv [OF run_gacts_reach [OF reach that(1,2)] assms(2)] by blast
  moreover have "length as \<le> load n L s0"
    if "\<forall>(d, a) \<in> set as. d < n" "run_gacts as s0 = Some s'" "\<forall>(d, a) \<in> set as. \<not> requests a" for as s'
    by (rule own_actions_bounded [OF inv assms(2) _ that(2)]) (use that(1,3) in auto)
  ultimately show ?thesis
    using awaited_starts [OF reach assms(2) request_awaits [OF assms(4)]] by (intro exI [of _ "load n L s0"]) blast
qed

text \<open>CPU 1 is interrupted inside its critical section; it runs the epilogue when it leaves.\<close>

definition leave_demo :: "(nat \<times> gact) list" where
  "leave_demo = [(1, Enqueue), (1, Leave), (1, Dequeue), (1, ClearFlag), (1, EpilogueEnds), (1, Dequeue), (1, Unlock),
     (1, ClearEpilogue)]"

theorem guard_no_lost_epilogue_witness:
  "\<exists>s s0 s'. run_gacts [(1, Enter), (1, TakeTicket), (1, GotLock)] guard_init = Some s \<and> gexec 1 (Irq 7) s = Some s0 \<and>
     run_gacts leave_demo s0 = Some s' \<and> epilogue_starts 7 leave_demo s0"
proof -
  let ?as = "[(1, Enter), (1, TakeTicket), (1, GotLock)]"
  obtain s s0 s' where s: "run_gacts ?as guard_init = Some s" "gexec 1 (Irq 7) s = Some s0" "run_gacts leave_demo s0 = Some s'"
      "g_pc s' 0 = Normal" "g_pc s' 1 = Normal"
    by (simp add: guard_eval leave_demo_def guard_dequeue_def mq_dequeue_def set_dequeued_def tl_unlock_def)
  have "greach 2 s" by (rule run_gacts_reach [OF greach.init _ s(1)]) simp
  moreover have "quiet 2 s'" using s(4,5) by (simp add: quiet_def less_2_cases_iff)
  moreover have "\<forall>(d, a) \<in> set leave_demo. d < 2" by (simp add: leave_demo_def)
  ultimately show ?thesis using guard_no_lost_epilogue [of 2 s 1 7 s0] s(1-3) by fastforce
qed

end
