(* ===== verification/GuardedKernel.thy ===== *)
theory GuardedKernel
  imports KernelProps Guard
begin

section \<open>The guard and the kernel together\<close>

text \<open>
  Theory \<open>Kernel\<close> takes an operation as one step. In the program an operation takes time, and other
  CPUs run meanwhile; what makes it a step is the guard, through the \<^verbatim>\<open>Secure\<close> object of the system
  call or the epilogue level of the interrupt. Here a CPU works on the kernel in two actions: \<open>Begin\<close>
  reads the state, \<open>Commit\<close> writes the new one, which loses all that others wrote in between. The
  actions of the guard, of interrupts and of other CPUs interleave freely; the only condition is
  the place in the code: an operation is begun at the epilogue level, and its CPU does not leave
  this level before the operation has ended.
\<close>

record system =
  sy_guard :: gstate
  sy_kernel :: kstate
  sy_local :: "nat \<Rightarrow> (kop \<times> kstate) option"

datatype sact = Locking gact | Begin kop | Commit

text \<open>Where the code between \<^verbatim>\<open>enter\<close> and \<^verbatim>\<open>leave\<close>, or of an epilogue, runs.\<close>

fun at_work :: "gpc \<Rightarrow> bool" where
  "at_work Inside = True"
| "at_work (ItemRuns g) = True"
| "at_work (QueuedRuns g) = True"
| "at_work _ = False"

fun sexec :: "nat \<Rightarrow> sact \<Rightarrow> system \<Rightarrow> system option" where
  "sexec cpu (Locking a) y =
     (if (a = Leave \<or> a = EpilogueEnds) \<and> sy_local y cpu \<noteq> None then None
      else map_option (\<lambda>g. y\<lparr>sy_guard := g\<rparr>) (gexec cpu a (sy_guard y)))"
| "sexec cpu (Begin op) y =
     (if at_work (g_pc (sy_guard y) cpu) \<and> sy_local y cpu = None
      then Some (y\<lparr>sy_local := (sy_local y)(cpu := Some (op, sy_kernel y))\<rparr>) else None)"
| "sexec cpu Commit y =
     (if at_work (g_pc (sy_guard y) cpu)
      then Option.bind (sy_local y cpu) (\<lambda>(op, k). map_option
        (\<lambda>k'. y\<lparr>sy_kernel := k', sy_local := (sy_local y)(cpu := None)\<rparr>) (kstep cpu op k))
      else None)"

text \<open>The obligations of the caller of an operation, at its beginning.\<close>

definition may_begin :: "room set \<Rightarrow> nat \<Rightarrow> kop \<Rightarrow> kstate \<Rightarrow> bool" where
  "may_begin mx cpu op k \<longleftrightarrow> (\<exists>L. mq_rep (k_queues k) L \<and> op_ok mx L cpu op k)"

inductive sreach :: "room set \<Rightarrow> nat \<Rightarrow> system \<Rightarrow> bool" for mx ncpu where
  init: "boot_life life \<Longrightarrow>
    sreach mx ncpu \<lparr>sy_guard = guard_init, sy_kernel = kernel_init life mx count online, sy_local = Map.empty\<rparr>"
| step: "sreach mx ncpu y \<Longrightarrow> cpu < ncpu \<Longrightarrow> (\<And>op. a = Begin op \<Longrightarrow> may_begin mx cpu op (sy_kernel y)) \<Longrightarrow>
    sexec cpu a y = Some y' \<Longrightarrow> sreach mx ncpu y'"

subsection \<open>The invariant\<close>

text \<open>What a CPU has read is still the state of the kernel, and it is at the epilogue level.\<close>

definition current :: "room set \<Rightarrow> nat \<Rightarrow> system \<Rightarrow> bool" where
  "current mx ncpu y \<longleftrightarrow> greach ncpu (sy_guard y) \<and> kreach mx (sy_kernel y) \<and>
     (\<forall>c op k. sy_local y c = Some (op, k) \<longrightarrow>
        c < ncpu \<and> at_work (core (g_pc (sy_guard y) c)) \<and> k = sy_kernel y \<and> may_begin mx c op k)"

lemma at_work_owns: "at_work p \<Longrightarrow> owns_lock p" "at_work p \<Longrightarrow> core p = p"
  by (cases p; simp)+

text \<open>Only the end of an operation takes a CPU away from its work.\<close>

lemma gexec_at_work:
  assumes "gexec cpu a g = Some g'" "at_work (core (g_pc g c))" "c = cpu \<longrightarrow> a \<noteq> Leave \<and> a \<noteq> EpilogueEnds"
    and "g_in_epilogue g c \<longleftrightarrow> g_pc g c \<noteq> Normal"
  shows "at_work (core (g_pc g' c))"
proof (cases "c = cpu")
  case False
  then show ?thesis using assms(1,2)
    by (cases a) (auto simp: guard_enter_def guard_relay_def guard_dequeue_def set_pc_def Let_def
        split: if_splits gpc.splits option.splits prod.splits)
next
  case True
  then show ?thesis using assms at_work_owns(2)
    by (cases a; cases "g_pc g cpu") (auto simp: guard_enter_def guard_relay_def guard_dequeue_def set_pc_def Let_def
        split: if_splits option.splits prod.splits)
qed

lemma sexec_current:
  assumes cur: "current mx n y" and n: "n \<le> 255" "cpu < n" and step: "sexec cpu a y = Some y'"
    and may: "\<And>op. a = Begin op \<Longrightarrow> may_begin mx cpu op (sy_kernel y)"
  shows "current mx n y'"
proof (cases a)
  case (Locking b)
  then obtain g where g: "gexec cpu b (sy_guard y) = Some g" and y': "y' = y\<lparr>sy_guard := g\<rparr>"
    and out: "(b = Leave \<or> b = EpilogueEnds) \<longrightarrow> sy_local y cpu = None"
    using step by (cases "sy_local y cpu") (auto split: if_splits)
  have "greach n g" using greach.step [OF _ n(2) g] cur by (simp add: current_def)
  moreover have "at_work (core (g_pc g c))" if "sy_local y c = Some (op, k)" for c op k
  proof (rule gexec_at_work [OF g])
    show "at_work (core (g_pc (sy_guard y) c))" using cur that by (auto simp: current_def)
    show "c = cpu \<longrightarrow> b \<noteq> Leave \<and> b \<noteq> EpilogueEnds" using out that by auto
    obtain L ws where "ginv n L ws (sy_guard y)" using greach_ginv [OF _ n(1)] cur unfolding current_def by blast
    then show "g_in_epilogue (sy_guard y) c \<longleftrightarrow> g_pc (sy_guard y) c \<noteq> Normal" by (simp add: ginv_def level_inv_def)
  qed
  ultimately show ?thesis using cur by (auto simp: current_def y')
next
  case (Begin op)
  then have "at_work (g_pc (sy_guard y) cpu)" and y': "y' = y\<lparr>sy_local := (sy_local y)(cpu := Some (op, sy_kernel y))\<rparr>"
    using step by (auto split: if_splits)
  then show ?thesis using cur n(2) may [OF Begin] by (auto simp: current_def at_work_owns)
next
  case Commit
  then obtain op k k' where loc: "sy_local y cpu = Some (op, k)" and k': "kstep cpu op k = Some k'"
    and y': "y' = y\<lparr>sy_kernel := k', sy_local := (sy_local y)(cpu := None)\<rparr>"
    using step by (auto simp: bind_eq_Some_conv split: if_splits)
  from loc cur have k: "k = sy_kernel y" "may_begin mx cpu op k" and own: "owns_lock (core (g_pc (sy_guard y) cpu))"
    by (auto simp: current_def at_work_owns)
  have alone: "sy_local y c = None" if "c \<noteq> cpu" for c
  proof (rule ccontr)
    assume "sy_local y c \<noteq> None"
    then have "c < n" "owns_lock (core (g_pc (sy_guard y) c))" using cur by (auto simp: current_def at_work_owns)
    with owns_lock_unique [of n "sy_guard y" c cpu] n own cur that show False by (auto simp: current_def)
  qed
  have "kreach mx k'" using kreach.step [of mx k _ cpu op k'] cur k k' by (auto simp: current_def may_begin_def)
  then show ?thesis using cur alone by (auto simp: current_def y')
qed

lemma sreach_current: "sreach mx n y \<Longrightarrow> n \<le> 255 \<Longrightarrow> current mx n y"
proof (induction rule: sreach.induct)
  case (init life count online)
  then show ?case by (simp add: current_def greach.init kreach.init)
next
  case (step y cpu a y')
  then show ?case using sexec_current [of mx n y cpu a y'] by blast
qed

text \<open>
  Property C3. The guard makes the operations of the kernel atomic: whatever the interleaving of
  the CPUs, their interrupts and the lock, when an operation ends the state of the kernel is still
  the one it began with, so that no update is lost, the operation succeeds, and every state of the
  kernel is one that the operations reach when they are executed one after the other.
\<close>

theorem operations_atomic:
  assumes "sreach mx n y" "n \<le> 255"
  shows "kreach mx (sy_kernel y) \<and>
    (\<forall>c op k. sy_local y c = Some (op, k) \<longrightarrow> k = sy_kernel y \<and> (\<exists>k'. kstep c op k = Some k'))"
proof -
  have cur: "current mx n y" using sreach_current assms .
  have "\<exists>k'. kstep c op k = Some k'" if "sy_local y c = Some (op, k)" for c op k
  proof -
    have k: "kreach mx k" "may_begin mx c op k" using cur that by (auto simp: current_def)
    obtain L M where inv: "kinv None mx L M k" using kreach_kinv [OF k(1)] by blast
    then obtain L' where "mq_rep (k_queues k) L'" "op_ok mx L' c op k" using k(2) by (auto simp: may_begin_def)
    with inv have "op_ok mx L c op k" using mq_rep_unique [OF kinv_queues [OF inv]] by blast
    then show ?thesis using kstep_total [OF inv kreach_alive [OF k(1)]] by blast
  qed
  then show ?thesis using cur by (auto simp: current_def)
qed

fun run_sacts :: "(nat \<times> sact) list \<Rightarrow> system \<Rightarrow> system option" where
  "run_sacts [] y = Some y"
| "run_sacts ((c, a) # as) y = Option.bind (sexec c a y) (run_sacts as)"

lemma run_sacts_reach:
  "sreach mx n y \<Longrightarrow> \<forall>(c, a) \<in> set as. c < n \<and> (\<forall>op. a \<noteq> Begin op) \<Longrightarrow> run_sacts as y = Some y' \<Longrightarrow> sreach mx n y'"
proof (induction as arbitrary: y)
  case (Cons ca as)
  obtain c a where ca: "ca = (c, a)" by fastforce
  with Cons.prems obtain y1 where "sexec c a y = Some y1" "run_sacts as y1 = Some y'" by (auto simp: bind_eq_Some_conv)
  moreover from this have "sreach mx n y1" using sreach.step [OF Cons.prems(1), of c a y1] Cons.prems(2) ca by auto
  ultimately show ?case using Cons.IH Cons.prems(2) by auto
qed simp

text \<open>CPU 0 is inside an operation while CPU 1 has taken its ticket and a device has interrupted CPU 0.\<close>

definition system_demo :: system where
  "system_demo = \<lparr>sy_guard = guard_init, sy_kernel = two_cpus, sy_local = Map.empty\<rparr>"

lemma system_demo_runs:
  "\<exists>y. run_sacts [(0, Locking Enter), (0, Locking TakeTicket), (1, Locking Enter), (0, Locking GotLock), (1, Locking TakeTicket)]
     system_demo = Some y \<and> g_pc (sy_guard y) 0 = Inside \<and> sy_local y 0 = None \<and> sy_kernel y = two_cpus"
  by (simp add: system_demo_def guard_eval)

theorem operations_atomic_witness:
  "\<exists>y. sreach {1} 2 y \<and> sy_local y 0 = Some (SemV 2, two_cpus) \<and> (\<exists>k'. kstep 0 (SemV 2) (sy_kernel y) = Some k')"
proof -
  obtain y where run: "run_sacts [(0, Locking Enter), (0, Locking TakeTicket), (1, Locking Enter), (0, Locking GotLock),
      (1, Locking TakeTicket)] system_demo = Some y"
    and y: "g_pc (sy_guard y) 0 = Inside" "sy_local y 0 = None" "sy_kernel y = two_cpus" using system_demo_runs by blast
  have "sreach {1} 2 system_demo"
    unfolding system_demo_def two_cpus_def by (rule sreach.init [OF two_cpus_boot])
  then have r: "sreach {1} 2 y" using run_sacts_reach [OF _ _ run] by simp
  let ?y = "y\<lparr>sy_local := (sy_local y)(0 := Some (SemV 2, two_cpus))\<rparr>"
  have "may_begin {1} 0 (SemV 2) two_cpus"
    using kinv_queues [OF two_cpus_kinv] two_cpus_life by (auto simp: may_begin_def op_defs CPU_MAX_def INT_MAX_def)
  then have "sreach {1} 2 ?y" using sreach.step [OF r, of 0 "Begin (SemV 2)" ?y] y by simp
  moreover from operations_atomic [OF this, THEN conjunct2, rule_format, of 0 "SemV 2" two_cpus]
  have "\<exists>k'. kstep 0 (SemV 2) (sy_kernel ?y) = Some k'" using y(3) by simp
  ultimately show ?thesis by (intro exI [of _ ?y]) simp
qed

end
