(* ===== verification/Ports.thy ===== *)
theory Ports
  imports Prelude
begin

section \<open>machine/io\_port.h: the I/O ports\<close>

text \<open>
  The \<^verbatim>\<open>in\<close> and \<^verbatim>\<open>out\<close> instructions act on hardware that is not part of the repository. It
  is a parameter: \<open>port_ops\<close> says what reading and writing a port does to the state \<open>'w\<close> of
  the hardware, and every driver takes it as an argument. A loop that polls a status port
  until a bit changes may not end, so it is a \<open>partial_function (option)\<close>.
\<close>

record 'w port_ops =
  p_inb :: "u16 \<Rightarrow> 'w \<Rightarrow> u8 \<times> 'w"
  p_outb :: "u16 \<Rightarrow> u8 \<Rightarrow> 'w \<Rightarrow> 'w"

definition io_inb :: "'w port_ops \<Rightarrow> u16 \<Rightarrow> 'w \<Rightarrow> u8 \<times> 'w" where
  "io_inb ops address w = p_inb ops address w"

definition io_outb :: "'w port_ops \<Rightarrow> u16 \<Rightarrow> u8 \<Rightarrow> 'w \<Rightarrow> 'w" where
  "io_outb ops address val w = p_outb ops address val w"

text \<open>A hardware for examples: a script of the bytes to be read, and the log of the writes.\<close>

type_synonym script = "(u16 \<times> u8) list \<times> (u16 \<times> u8) list"

definition script_ops :: "script port_ops" where
  "script_ops = \<lparr>
     p_inb = (\<lambda>a (ins, outs). case ins of [] \<Rightarrow> (0, [], outs) | (b, v) # ins' \<Rightarrow>
        if a = b then (v, ins', outs) else (0, ins, outs)),
     p_outb = (\<lambda>a v (ins, outs). (ins, outs @ [(a, v)]))\<rparr>"

end
