(* ===== verification/KeyDecoder.thy ===== *)
theory KeyDecoder
  imports Ports
begin

section \<open>machine/key.h, machine/keydecoder.cc: from make and break codes to keys\<close>

text \<open>
  \<open>key\<close> is the class \<^verbatim>\<open>Key\<close>, \<open>decoder\<close> the members of \<^verbatim>\<open>Key_Decoder\<close>. The tables are those of
  the source; an access behind their end has the result \<open>None\<close>. \<^verbatim>\<open>decode\<close> asks the keyboard
  controller to set an LED for the lock keys; here it returns that request.
\<close>

subsection \<open>Keys\<close>

record key =
  k_asc :: u8
  k_scan :: u8
  k_modi :: u8

definition key_new :: key where
  "key_new = \<lparr>k_asc = 0, k_scan = 0, k_modi = 0\<rparr>"

definition mbit_shift :: u8 where "mbit_shift = 1"
definition mbit_alt_left :: u8 where "mbit_alt_left = 2"
definition mbit_alt_right :: u8 where "mbit_alt_right = 4"
definition mbit_ctrl_left :: u8 where "mbit_ctrl_left = 8"
definition mbit_ctrl_right :: u8 where "mbit_ctrl_right = 16"
definition mbit_caps_lock :: u8 where "mbit_caps_lock = 32"
definition mbit_num_lock :: u8 where "mbit_num_lock = 64"
definition mbit_scroll_lock :: u8 where "mbit_scroll_lock = 128"

lemmas mbit_defs = mbit_shift_def mbit_alt_left_def mbit_alt_right_def mbit_ctrl_left_def
  mbit_ctrl_right_def mbit_caps_lock_def mbit_num_lock_def mbit_scroll_lock_def

definition key_valid :: "key \<Rightarrow> bool" where
  "key_valid k \<longleftrightarrow> k_scan k \<noteq> 0"

definition key_invalidate :: "key \<Rightarrow> key" where
  "key_invalidate k = k\<lparr>k_scan := 0\<rparr>"

text \<open>The eight setters and the eight queries differ only in their mask.\<close>

definition key_set :: "u8 \<Rightarrow> bool \<Rightarrow> key \<Rightarrow> key" where
  "key_set mb pressed k = k\<lparr>k_modi := if pressed then k_modi k OR mb else k_modi k AND NOT mb\<rparr>"

definition key_has :: "u8 \<Rightarrow> key \<Rightarrow> bool" where
  "key_has mb k \<longleftrightarrow> k_modi k AND mb \<noteq> 0"

definition key_alt :: "key \<Rightarrow> bool" where
  "key_alt k \<longleftrightarrow> key_has mbit_alt_left k \<or> key_has mbit_alt_right k"

definition key_ctrl :: "key \<Rightarrow> bool" where
  "key_ctrl k \<longleftrightarrow> key_has mbit_ctrl_left k \<or> key_has mbit_ctrl_right k"

definition scan_del :: u8 where "scan_del = 0x53"
definition scan_div :: u8 where "scan_div = 8"

subsection \<open>The tables\<close>

definition normal_tab :: "u8 list" where
  "normal_tab = [
     0, 0, 49, 50, 51, 52, 53, 54, 55, 56, 57, 48, 225, 39, 8,
     0, 113, 119, 101, 114, 116, 122, 117, 105, 111, 112, 129, 43, 10,
     0, 97, 115, 100, 102, 103, 104, 106, 107, 108, 148, 132, 94, 0, 35,
     121, 120, 99, 118, 98, 110, 109, 44, 46, 45, 0,
     42, 0, 32, 0, 0, 0, 0, 0, 0, 0, 0, 0, 0, 0, 0, 0, 0, 0, 0, 45,
     0, 0, 0, 43, 0, 0, 0, 0, 0, 0, 0, 60, 0, 0]"

definition shift_tab :: "u8 list" where
  "shift_tab = [
     0, 0, 33, 34, 21, 36, 37, 38, 47, 40, 41, 61, 63, 96, 0,
     0, 81, 87, 69, 82, 84, 90, 85, 73, 79, 80, 154, 42, 0,
     0, 65, 83, 68, 70, 71, 72, 74, 75, 76, 153, 142, 248, 0, 39,
     89, 88, 67, 86, 66, 78, 77, 59, 58, 95, 0,
     0, 0, 32, 0, 0, 0, 0, 0, 0, 0, 0, 0, 0, 0, 0, 0, 0, 0, 0, 0,
     0, 0, 0, 0, 0, 0, 0, 0, 0, 0, 0, 62, 0, 0]"

definition alt_tab :: "u8 list" where
  "alt_tab = [
     0, 0, 0, 253, 0, 0, 0, 0, 123, 91, 93, 125, 92, 0, 0,
     0, 64, 0, 0, 0, 0, 0, 0, 0, 0, 0, 0, 126, 0,
     0, 0, 0, 0, 0, 0, 0, 0, 0, 0, 0, 0, 0, 0, 0,
     0, 0, 0, 0, 0, 0, 230, 0, 0, 0, 0,
     0, 0, 0, 0, 0, 0, 0, 0, 0, 0, 0, 0, 0, 0, 0, 0, 0, 0, 0, 0,
     0, 0, 0, 0, 0, 0, 0, 0, 0, 0, 0, 124, 0, 0]"

definition asc_num_tab :: "u8 list" where
  "asc_num_tab = [55, 56, 57, 45, 52, 53, 54, 43, 49, 50, 51, 48, 44]"

definition scan_num_tab :: "u8 list" where
  "scan_num_tab = [8, 9, 10, 53, 5, 6, 7, 27, 2, 3, 4, 11, 51]"

definition tab_at :: "u8 list \<Rightarrow> u8 \<Rightarrow> u8 option" where
  "tab_at tab i = (if unat i < length tab then Some (tab ! unat i) else None)"

subsection \<open>Decoding\<close>

record decoder =
  kd_prefix :: u8
  kd_gather :: key

definition break_bit :: u8 where "break_bit = 0x80"
definition prefix1 :: u8 where "prefix1 = 0xe0"
definition prefix2 :: u8 where "prefix2 = 0xe1"

definition set_key :: "u8 \<Rightarrow> u8 \<Rightarrow> decoder \<Rightarrow> decoder" where
  "set_key asc scan d = d\<lparr>kd_gather := (kd_gather d)\<lparr>k_asc := asc, k_scan := scan\<rparr>\<rparr>"

definition set_modifier :: "u8 \<Rightarrow> bool \<Rightarrow> decoder \<Rightarrow> decoder" where
  "set_modifier mb pressed d = d\<lparr>kd_gather := key_set mb pressed (kd_gather d)\<rparr>"

definition get_ascii_code :: "u8 \<Rightarrow> decoder \<Rightarrow> decoder option" where
  "get_ascii_code code d =
     (let g = kd_gather d in
      if code = 53 \<and> kd_prefix d = prefix1 then Some (set_key 47 scan_div d)
      else if key_has mbit_num_lock g \<and> kd_prefix d = 0 \<and> code \<ge> 71 \<and> code \<le> 83
      then Option.bind (tab_at asc_num_tab (code - 71)) (\<lambda>a.
           map_option (\<lambda>s. set_key a s d) (tab_at scan_num_tab (code - 71)))
      else if key_has mbit_alt_right g then map_option (\<lambda>a. set_key a code d) (tab_at alt_tab code)
      else if key_has mbit_shift g then map_option (\<lambda>a. set_key a code d) (tab_at shift_tab code)
      else if key_has mbit_caps_lock g
      then if (code \<ge> 16 \<and> code \<le> 26) \<or> (code \<ge> 30 \<and> code \<le> 40) \<or> (code \<ge> 44 \<and> code \<le> 50)
           then map_option (\<lambda>a. set_key a code d) (tab_at shift_tab code)
           else map_option (\<lambda>a. set_key a code d) (tab_at normal_tab code)
      else map_option (\<lambda>a. set_key a code d) (tab_at normal_tab code))"

datatype led = LedCapsLock | LedNumLock | LedScrollLock

definition decode_break :: "u8 \<Rightarrow> decoder \<Rightarrow> decoder" where
  "decode_break code d =
     (if code = 42 \<or> code = 54 then set_modifier mbit_shift False d
      else if code = 56
      then set_modifier (if kd_prefix d = prefix1 then mbit_alt_right else mbit_alt_left) False d
      else if code = 29
      then set_modifier (if kd_prefix d = prefix1 then mbit_ctrl_right else mbit_ctrl_left) False d
      else d)"

definition toggle_lock :: "u8 \<Rightarrow> led \<Rightarrow> decoder \<Rightarrow> (led \<times> bool) option \<times> decoder" where
  "toggle_lock mb l d =
     (let d = set_modifier mb (\<not> key_has mb (kd_gather d)) d
      in (Some (l, key_has mb (kd_gather d)), d))"

definition decode_make :: "u8 \<Rightarrow> decoder \<Rightarrow> ((led \<times> bool) option \<times> decoder) option" where
  "decode_make code d =
     (if code = 42 \<or> code = 54 then Some (None, set_modifier mbit_shift True d)
      else if code = 56
      then Some (None, set_modifier (if kd_prefix d = prefix1 then mbit_alt_right else mbit_alt_left) True d)
      else if code = 29
      then Some (None, set_modifier (if kd_prefix d = prefix1 then mbit_ctrl_right else mbit_ctrl_left) True d)
      else if code = 58 then Some (toggle_lock mbit_caps_lock LedCapsLock d)
      else if code = 70 then Some (toggle_lock mbit_scroll_lock LedScrollLock d)
      else if code = 69
      then if key_has mbit_ctrl_left (kd_gather d) then map_option (Pair None) (get_ascii_code code d)
           else Some (toggle_lock mbit_num_lock LedNumLock d)
      else if code = 91 \<or> code = 92 \<or> code = 93 then Some (None, d)
      else map_option (Pair None) (get_ascii_code code d))"

definition decode :: "u8 \<Rightarrow> decoder \<Rightarrow> ((led \<times> bool) option \<times> decoder) option" where
  "decode code d =
     (let d = d\<lparr>kd_gather := key_invalidate (kd_gather d)\<rparr> in
      if code = prefix1 \<or> code = prefix2 then Some (None, d\<lparr>kd_prefix := code\<rparr>)
      else map_option (\<lambda>(l, d). (l, d\<lparr>kd_prefix := 0\<rparr>))
             (if code AND break_bit \<noteq> 0 then Some (None, decode_break (code AND NOT break_bit) d)
              else decode_make code d))"

subsection \<open>Where a table is left\<close>

lemma tab_at_None: "length tab = 89 \<Longrightarrow> tab_at tab i = None \<longleftrightarrow> 89 \<le> i"
  by (simp add: tab_at_def word_le_nat_alt not_less)

lemma tab_lengths: "length normal_tab = 89" "length shift_tab = 89" "length alt_tab = 89"
  "length asc_num_tab = 13" "length scan_num_tab = 13"
  by (simp_all add: normal_tab_def shift_tab_def alt_tab_def asc_num_tab_def scan_num_tab_def)

lemma num_tab_some:
  assumes "71 \<le> (code :: u8)" "code \<le> 83"
  shows "tab_at asc_num_tab (code - 71) \<noteq> None" "tab_at scan_num_tab (code - 71) \<noteq> None"
proof -
  have "unat (code - 71) < 13" using assms by (simp add: unat_minus_le word_le_nat_alt)
  then show "tab_at asc_num_tab (code - 71) \<noteq> None" "tab_at scan_num_tab (code - 71) \<noteq> None"
    by (simp_all add: tab_at_def tab_lengths)
qed

lemma letter_range_small:
  "(code :: u8) \<ge> 16 \<and> code \<le> 26 \<or> code \<ge> 30 \<and> code \<le> 40 \<or> code \<ge> 44 \<and> code \<le> 50 \<Longrightarrow> \<not> 89 \<le> code"
  by (auto simp: word_le_nat_alt)

lemma get_ascii_code_None: "get_ascii_code code d = None \<longleftrightarrow> 89 \<le> code"
proof (cases "code = 53 \<and> kd_prefix d = prefix1")
  case True
  then show ?thesis by (simp add: get_ascii_code_def)
next
  case no_div: False
  show ?thesis
  proof (cases "key_has mbit_num_lock (kd_gather d) \<and> kd_prefix d = 0 \<and> code \<ge> 71 \<and> code \<le> 83")
    case True
    then obtain a b where "tab_at asc_num_tab (code - 71) = Some a" "tab_at scan_num_tab (code - 71) = Some b"
      using num_tab_some [of code] by auto
    moreover have "\<not> 89 \<le> code" using True by (simp add: word_le_nat_alt)
    ultimately show ?thesis using True no_div by (auto simp: get_ascii_code_def Let_def)
  next
    case False
    show ?thesis
      unfolding get_ascii_code_def Let_def if_not_P [OF no_div] if_not_P [OF False]
      using letter_range_small [of code] by (simp add: tab_at_None tab_lengths)
  qed
qed

lemma get_ascii_code_Some: "(\<exists>r. get_ascii_code code d = Some r) \<longleftrightarrow> \<not> 89 \<le> code"
  using get_ascii_code_None [of code d] by auto

text \<open>The decoder reads outside its tables for exactly the make codes from 89
  that no case of the code catches, whatever modifiers are set; for all other bytes from the
  keyboard it returns a key or an invalid key.\<close>

theorem decode_overrun:
  "decode code d = None \<longleftrightarrow> 89 \<le> code \<and> code < 128 \<and> code \<notin> {91, 92, 93}"
proof -
  have brk: "code AND break_bit = 0 \<longleftrightarrow> code < 128"
    by (rule u8_all [of "\<lambda>c. c AND break_bit = 0 \<longleftrightarrow> c < 128"]) code_simp
  have mk: "decode_make code d' = None \<longleftrightarrow> 89 \<le> code \<and> code \<notin> {91, 92, 93}" for d'
    by (auto simp: decode_make_def toggle_lock_def Let_def get_ascii_code_None get_ascii_code_Some)
  show ?thesis
    by (auto simp: decode_def Let_def brk mk prefix1_def prefix2_def)
qed

text \<open>Receiving a sequence of bytes.\<close>

fun decode_all :: "u8 list \<Rightarrow> decoder \<Rightarrow> decoder option" where
  "decode_all [] d = Some d"
| "decode_all (c # cs) d = Option.bind (decode c d) (\<lambda>(_, d). decode_all cs d)"

fun shift_held :: "bool \<Rightarrow> u8 list \<Rightarrow> bool" where
  "shift_held b [] = b"
| "shift_held b (c # cs) = shift_held
     (if c = 42 \<or> c = 54 then True else if c = 170 \<or> c = 182 then False else b) cs"

fun caps_on :: "bool \<Rightarrow> u8 list \<Rightarrow> bool" where
  "caps_on b [] = b"
| "caps_on b (c # cs) = caps_on (if c = 58 then \<not> b else b) cs"

text \<open>Setting one modifier changes no other.\<close>

definition modifiers :: "u8 list" where
  "modifiers = [1, 2, 4, 8, 16, 32, 64, 128]"

lemma modifiers_bits: "b \<in> set modifiers \<Longrightarrow> \<exists>i < 8. b = 2 ^ i"
proof -
  have "set modifiers = (\<lambda>i. 2 ^ i) ` set [0..<8]"
    by (simp add: modifiers_def upt_rec numeral_eq_Suc)
  then show "b \<in> set modifiers \<Longrightarrow> \<exists>i < 8. b = 2 ^ i" by auto
qed

lemma key_has_bit: "key_has (2 ^ i) k \<longleftrightarrow> bit (k_modi k) i"
  by (simp add: key_has_def and_exp_eq_0_iff_not_bit)

lemma key_set_has:
  assumes "a \<in> set modifiers" "b \<in> set modifiers"
  shows "key_has b (key_set a pressed k) \<longleftrightarrow> (if a = b then pressed else key_has b k)"
proof -
  obtain i j where ij: "a = 2 ^ i" "b = 2 ^ j" "i < 8" "j < 8" using assms modifiers_bits by metis
  have "bit (2 ^ i :: u8) j \<longleftrightarrow> i = j" "bit (2 ^ j :: u8) j"
    using ij(3,4) by (auto simp: bit_exp_iff)
  with ij(1,2) have "a = b \<longleftrightarrow> i = j" by metis
  then show ?thesis
    unfolding ij(1,2) key_has_bit using ij(3,4)
    by (auto simp: key_set_def bit_or_iff bit_and_iff bit_not_iff bit_exp_iff)
qed

lemma mbits_modifiers:
  "mbit_shift \<in> set modifiers" "mbit_alt_left \<in> set modifiers" "mbit_alt_right \<in> set modifiers"
  "mbit_ctrl_left \<in> set modifiers" "mbit_ctrl_right \<in> set modifiers" "mbit_caps_lock \<in> set modifiers"
  "mbit_num_lock \<in> set modifiers" "mbit_scroll_lock \<in> set modifiers"
  by (simp_all add: modifiers_def mbit_defs)

lemma mbits_neq:
  "mbit_alt_left \<noteq> mbit_shift" "mbit_alt_right \<noteq> mbit_shift" "mbit_ctrl_left \<noteq> mbit_shift"
  "mbit_ctrl_right \<noteq> mbit_shift" "mbit_caps_lock \<noteq> mbit_shift" "mbit_num_lock \<noteq> mbit_shift"
  "mbit_scroll_lock \<noteq> mbit_shift" "mbit_alt_left \<noteq> mbit_caps_lock" "mbit_alt_right \<noteq> mbit_caps_lock"
  "mbit_ctrl_left \<noteq> mbit_caps_lock" "mbit_ctrl_right \<noteq> mbit_caps_lock" "mbit_shift \<noteq> mbit_caps_lock"
  "mbit_num_lock \<noteq> mbit_caps_lock" "mbit_scroll_lock \<noteq> mbit_caps_lock"
  by (simp_all add: mbit_defs)

lemma set_modifier_has:
  "a \<in> set modifiers \<Longrightarrow> b \<in> set modifiers \<Longrightarrow>
     key_has b (kd_gather (set_modifier a pressed d)) \<longleftrightarrow>
     (if a = b then pressed else key_has b (kd_gather d))"
  by (simp add: set_modifier_def key_set_has)

lemma get_ascii_code_modi:
  "get_ascii_code code d = Some d' \<Longrightarrow> k_modi (kd_gather d') = k_modi (kd_gather d)"
  by (auto simp: get_ascii_code_def Let_def set_key_def split: if_splits Option.bind_splits)

lemma key_has_same_modi: "k_modi k = k_modi k' \<Longrightarrow> key_has b k = key_has b k'"
  by (simp add: key_has_def)

lemma decode_locks:
  assumes "decode code d = Some (l, d')"
  shows "key_has mbit_shift (kd_gather d') \<longleftrightarrow>
      shift_held (key_has mbit_shift (kd_gather d)) [code]"
    and "key_has mbit_caps_lock (kd_gather d') \<longleftrightarrow>
      caps_on (key_has mbit_caps_lock (kd_gather d)) [code]"
    and "code = 58 \<Longrightarrow> l = Some (LedCapsLock, key_has mbit_caps_lock (kd_gather d'))"
proof -
  let ?d = "d\<lparr>kd_gather := key_invalidate (kd_gather d)\<rparr>"
  have inv: "key_has b (key_invalidate k) = key_has b k" for b k
    by (simp add: key_has_def key_invalidate_def)
  have codes: "code AND break_bit \<noteq> 0 \<longleftrightarrow> 128 \<le> code"
    "(code AND NOT break_bit = 42 \<or> code AND NOT break_bit = 54) \<and> 128 \<le> code \<longleftrightarrow> code = 170 \<or> code = 182"
    by (rule u8_all [of "\<lambda>c. c AND break_bit \<noteq> 0 \<longleftrightarrow> 128 \<le> c"], code_simp,
      rule u8_all [of "\<lambda>c. (c AND NOT break_bit = 42 \<or> c AND NOT break_bit = 54) \<and> 128 \<le> c \<longleftrightarrow> c = 170 \<or> c = 182"],
      code_simp)
  have big: "128 \<le> code \<Longrightarrow> code \<noteq> 42 \<and> code \<noteq> 54 \<and> code \<noteq> 58" "\<not> 128 \<le> code \<Longrightarrow> code \<noteq> 170 \<and> code \<noteq> 182"
    by (auto simp: word_le_nat_alt)
  have locks: "(key_has mbit_shift (kd_gather d') \<longleftrightarrow> shift_held (key_has mbit_shift (kd_gather d)) [code]) \<and>
      (key_has mbit_caps_lock (kd_gather d') \<longleftrightarrow> caps_on (key_has mbit_caps_lock (kd_gather d)) [code]) \<and>
      (code = 58 \<longrightarrow> l = Some (LedCapsLock, key_has mbit_caps_lock (kd_gather d')))"
  proof (cases "code = prefix1 \<or> code = prefix2")
    case True
    with assms show ?thesis by (auto simp: decode_def Let_def prefix1_def prefix2_def inv)
  next
    case no_prefix: False
    show ?thesis
    proof (cases "128 \<le> code")
      case True
      have d': "d' = (decode_break (code AND NOT break_bit) ?d)\<lparr>kd_prefix := 0\<rparr>"
        using assms no_prefix True codes(1) by (auto simp: decode_def Let_def)
      show ?thesis
        using d' codes(2) True big(1)
        by (auto simp: decode_break_def set_modifier_has mbits_modifiers inv mbits_neq)
    next
      case False
      obtain d1 where d1: "decode_make code ?d = Some (l, d1)" "d' = d1\<lparr>kd_prefix := 0\<rparr>"
        using assms no_prefix False codes(1) by (auto simp: decode_def Let_def)
      show ?thesis
        using d1 big(2) [OF False]
        by (auto simp: decode_make_def toggle_lock_def Let_def set_modifier_has mbits_modifiers inv
            mbits_neq key_has_same_modi [OF get_ascii_code_modi] split: if_splits)
    qed
  qed
  then show "key_has mbit_shift (kd_gather d') \<longleftrightarrow> shift_held (key_has mbit_shift (kd_gather d)) [code]"
    "key_has mbit_caps_lock (kd_gather d') \<longleftrightarrow> caps_on (key_has mbit_caps_lock (kd_gather d)) [code]"
    "code = 58 \<Longrightarrow> l = Some (LedCapsLock, key_has mbit_caps_lock (kd_gather d'))"
    by blast+
qed

lemma decode_all_locks:
  assumes "decode_all codes d = Some d'"
  shows "key_has mbit_shift (kd_gather d') \<longleftrightarrow> shift_held (key_has mbit_shift (kd_gather d)) codes"
    and "key_has mbit_caps_lock (kd_gather d') \<longleftrightarrow> caps_on (key_has mbit_caps_lock (kd_gather d)) codes"
  using assms
proof (induction codes arbitrary: d)
  case (Cons c cs)
  {
    case 1
    then obtain l d1 where "decode c d = Some (l, d1)" "decode_all cs d1 = Some d'"
      by (auto split: Option.bind_splits)
    with Cons.IH(1) decode_locks(1) show ?case by fastforce
  next
    case 2
    then obtain l d1 where "decode c d = Some (l, d1)" "decode_all cs d1 = Some d'"
      by (auto split: Option.bind_splits)
    with Cons.IH(2) decode_locks(2) show ?case by fastforce
  }
qed simp_all

text \<open>Property C16. Whatever bytes arrive, in particular prefix bytes and the break codes of
  other keys between them, the shift modifier is set exactly if the last make or break code of
  a shift key was a make code, and the caps lock modifier has changed with every make code of
  the caps lock key.\<close>

theorem decode_tracks_locks:
  assumes "decode_all codes d = Some d'"
  shows "(key_has mbit_shift (kd_gather d') \<longleftrightarrow> shift_held (key_has mbit_shift (kd_gather d)) codes) \<and>
    (key_has mbit_caps_lock (kd_gather d') \<longleftrightarrow> caps_on (key_has mbit_caps_lock (kd_gather d)) codes)"
  using decode_all_locks [OF assms] by blast

theorem decode_tracks_locks_witness:
  "\<exists>d'. decode_all [42, 58, 30, 158] \<lparr>kd_prefix = 0, kd_gather = key_new\<rparr> = Some d' \<and>
     key_has mbit_shift (kd_gather d') \<and> key_has mbit_caps_lock (kd_gather d')"
proof -
  let ?d = "\<lparr>kd_prefix = 0, kd_gather = key_new\<rparr>" and ?cs = "[42, 58, 30, 158] :: u8 list"
  obtain d' where d': "decode_all ?cs ?d = Some d'"
    by (simp add: decode_def decode_make_def decode_break_def toggle_lock_def get_ascii_code_def
        set_modifier_def key_set_def key_has_def key_new_def mbit_defs prefix1_def prefix2_def
        break_bit_def key_invalidate_def set_key_def tab_at_def shift_tab_def)
  from decode_tracks_locks [OF d'] d' show ?thesis
    by (simp add: key_new_def key_has_def)
qed

end
