(* ===== verification/Keyboard.thy ===== *)
theory Keyboard
  imports KeyDecoder BBuffer KernelProps
begin

section \<open>machine/keyctrl.cc, device/keyboard.cc: the keyboard\<close>

text \<open>
  The keyboard controller is a decoder, the state of the LEDs and the two ports 0x64 and
  0x60 of the parameter \<open>ops\<close>. The keyboard has a buffer filled by the prologue, a buffer
  filled by the epilogue and a semaphore (the room \<open>sem\<close> of the kernel state) that counts the
  keys in the second one. \<open>epilogue_counts\<close> shows that it counts more keys than the buffer
  holds as soon as the buffer overflows.
\<close>

subsection \<open>The controller\<close>

record kbctrl =
  kc_decoder :: decoder
  kc_leds :: u8

definition ctrl_port :: u16 where "ctrl_port = 0x64"
definition data_port :: u16 where "data_port = 0x60"
definition st_outb :: u8 where "st_outb = 0x01"
definition st_inpb :: u8 where "st_inpb = 0x02"
definition st_auxb :: u8 where "st_auxb = 0x20"

partial_function (option) wait_inpb :: "'w port_ops \<Rightarrow> 'w \<Rightarrow> 'w option" where
  "wait_inpb ops w =
     (let (v, w) = io_inb ops ctrl_port w in if v AND st_inpb \<noteq> 0 then wait_inpb ops w else Some w)"

definition send_byte :: "'w port_ops \<Rightarrow> u8 \<Rightarrow> 'w \<Rightarrow> 'w option" where
  "send_byte ops byte w = map_option (io_outb ops data_port byte) (wait_inpb ops w)"

definition send_command :: "'w port_ops \<Rightarrow> u8 \<Rightarrow> u8 \<Rightarrow> 'w \<Rightarrow> 'w option" where
  "send_command ops cmd data w = Option.bind (send_byte ops cmd w) (send_byte ops data)"

fun led_bit :: "led \<Rightarrow> u8" where
  "led_bit LedCapsLock = 4"
| "led_bit LedNumLock = 2"
| "led_bit LedScrollLock = 1"

definition set_led :: "'w port_ops \<Rightarrow> led \<Rightarrow> bool \<Rightarrow> kbctrl \<times> 'w \<Rightarrow> (kbctrl \<times> 'w) option" where
  "set_led ops l on s =
     (let (k, w) = s;
          leds = (if on then kc_leds k OR (led_bit l) else kc_leds k AND NOT (led_bit l))
      in map_option (Pair (k\<lparr>kc_leds := leds\<rparr>)) (send_command ops 0xed leds w))"

text \<open>The arguments are ints; \<^verbatim>\<open>config\<close> takes their low byte.\<close>

definition set_repeat_rate :: "'w port_ops \<Rightarrow> u32 \<Rightarrow> u32 \<Rightarrow> 'w \<Rightarrow> 'w option" where
  "set_repeat_rate ops speed delay w =
     send_command ops 0xf3 (ucast (speed OR push_bit 5 delay)) w"

definition kb_reboot :: "'w port_ops \<Rightarrow> 'w \<Rightarrow> 'w" where
  "kb_reboot ops w = io_outb ops 0x92 0x3 (io_outb ops 0x71 0 (io_outb ops 0x70 (0xe + 1) w))"

partial_function (option) drain_keyboard :: "'w port_ops \<Rightarrow> 'w \<Rightarrow> 'w option" where
  "drain_keyboard ops w =
     (let (v, w) = io_inb ops ctrl_port w
      in if v AND st_outb = 1 then drain_keyboard ops (snd (io_inb ops data_port w)) else Some w)"

text \<open>\<^verbatim>\<open>decode\<close> with the LED request carried out.\<close>

definition kb_decode :: "'w port_ops \<Rightarrow> u8 \<Rightarrow> kbctrl \<times> 'w \<Rightarrow> (kbctrl \<times> 'w) option" where
  "kb_decode ops code s =
     Option.bind (decode code (kc_decoder (fst s))) (\<lambda>(l, d).
       let s = ((fst s)\<lparr>kc_decoder := d\<rparr>, snd s)
       in case l of None \<Rightarrow> Some s | Some (l, on) \<Rightarrow> set_led ops l on s)"

partial_function (option) key_hit :: "'w port_ops \<Rightarrow> kbctrl \<times> 'w \<Rightarrow> (key \<times> kbctrl \<times> 'w) option" where
  "key_hit ops s =
     (let (status, w) = io_inb ops ctrl_port (snd s)
      in if status AND st_outb = 0 then Some (key_new, fst s, w)
         else let (code, w) = io_inb ops data_port w
              in if status AND st_auxb \<noteq> 0 then key_hit ops (fst s, w)
                 else Option.bind (kb_decode ops code (fst s, w)) (\<lambda>s.
                   let k = kd_gather (kc_decoder (fst s))
                   in if key_valid k then Some (k, s) else key_hit ops s))"

definition kbctrl_init :: "'w port_ops \<Rightarrow> decoder \<Rightarrow> 'w \<Rightarrow> (kbctrl \<times> 'w) option" where
  "kbctrl_init ops d w =
     Option.bind (set_led ops LedCapsLock False (\<lparr>kc_decoder = d, kc_leds = 0\<rparr>, w)) (\<lambda>s.
     Option.bind (set_led ops LedScrollLock False s) (\<lambda>s.
     Option.bind (set_led ops LedNumLock False s) (\<lambda>(k, w).
     Option.bind (set_repeat_rate ops 0 0 w) (\<lambda>w.
     map_option (Pair k) (drain_keyboard ops w)))))"

subsection \<open>The keyboard device\<close>

definition KB_CAP :: u32 where
  "KB_CAP = 64"

record keyboard =
  kb_prebuf :: "key bbuffer"
  kb_buf :: "key bbuffer"

definition keyboard_new :: "key list \<Rightarrow> key list \<Rightarrow> keyboard" where
  "keyboard_new junk junk' = \<lparr>kb_prebuf = bb_new junk, kb_buf = bb_new junk'\<rparr>"

text \<open>The loop of the prologue; the reboot on Ctrl-Alt-Del is the request to the controller.\<close>

partial_function (option) prologue_loop ::
  "'w port_ops \<Rightarrow> bool \<Rightarrow> keyboard \<Rightarrow> kbctrl \<times> 'w \<Rightarrow> (bool \<times> keyboard \<times> kbctrl \<times> 'w) option"
where
  "prologue_loop ops ret kb s =
     Option.bind (key_hit ops s) (\<lambda>(k, s).
       if \<not> key_valid k then Some (ret, kb, s)
       else let s = (if key_ctrl k \<and> key_alt k \<and> k_scan k = scan_del
                     then (fst s, kb_reboot ops (snd s)) else s);
                (ok, pre) = bb_produce KB_CAP k (kb_prebuf kb)
            in prologue_loop ops (ret \<or> ok) (kb\<lparr>kb_prebuf := pre\<rparr>) s)"

definition kb_prologue :: "'w port_ops \<Rightarrow> keyboard \<Rightarrow> kbctrl \<times> 'w \<Rightarrow> (bool \<times> keyboard \<times> kbctrl \<times> 'w) option" where
  "kb_prologue ops kb s = prologue_loop ops False kb s"

partial_function (option) kb_epilogue :: "room \<Rightarrow> keyboard \<Rightarrow> kstate \<Rightarrow> (keyboard \<times> kstate) option" where
  "kb_epilogue sem kb s =
     (let (k, pre) = bb_consume KB_CAP (kb_prebuf kb); kb = kb\<lparr>kb_prebuf := pre\<rparr>
      in case k of
           None \<Rightarrow> Some (kb, s)
         | Some k \<Rightarrow>
             Option.bind (semaphore_v sem s)
               (kb_epilogue sem (kb\<lparr>kb_buf := snd (bb_produce KB_CAP k (kb_buf kb))\<rparr>)))"

text \<open>\<^verbatim>\<open>getkey\<close> after \<^verbatim>\<open>sem.p()\<close> has returned: with an empty buffer the key stays the one of the
  default constructor.\<close>

definition kb_take :: "keyboard \<Rightarrow> key \<times> keyboard" where
  "kb_take kb =
     (let (k, b) = bb_consume KB_CAP (kb_buf kb)
      in (case k of None \<Rightarrow> key_new | Some k \<Rightarrow> k, kb\<lparr>kb_buf := b\<rparr>))"

subsection \<open>The epilogue\<close>

definition kb_ok :: "keyboard \<Rightarrow> bool" where
  "kb_ok kb \<longleftrightarrow> bb_inv KB_CAP (kb_prebuf kb) \<and> bb_inv KB_CAP (kb_buf kb)"

definition pre_keys :: "keyboard \<Rightarrow> key list" where
  "pre_keys kb = bb_list KB_CAP (kb_prebuf kb)"

definition buf_keys :: "keyboard \<Rightarrow> key list" where
  "buf_keys kb = bb_list KB_CAP (kb_buf kb)"

lemma kb_ok_new:
  "length junk = 64 \<Longrightarrow> length junk' = 64 \<Longrightarrow> kb_ok (keyboard_new junk junk')"
  by (simp add: kb_ok_def keyboard_new_def bb_inv_new KB_CAP_def)

lemma v_nobody_waits:
  assumes "kinv None mx L M s" "r \<notin> mx" "L (Room r) = []" "sint (k_counter s r) \<noteq> INT_MAX"
  shows "semaphore_v r s = Some (s\<lparr>k_counter := (k_counter s)(r := k_counter s r + 1)\<rparr>) \<and>
    kinv None mx L M (s\<lparr>k_counter := (k_counter s)(r := k_counter s r + 1)\<rparr>)"
proof
  show "semaphore_v r s = Some (s\<lparr>k_counter := (k_counter s)(r := k_counter s r + 1)\<rparr>)"
    using mq_dequeue_Nil [OF kinv_queues [OF assms(1)] assms(3)] assms(4) by (simp add: semaphore_v_def)
  show "kinv None mx L M (s\<lparr>k_counter := (k_counter s)(r := k_counter s r + 1)\<rparr>)"
    using assms by (intro kinv_count_up) (simp_all add: lock_free_def)
qed

lemma INT_MAX_unat: "unat (c :: u32) < 2147483647 \<Longrightarrow> sint c \<noteq> INT_MAX"
proof -
  assume c: "unat c < 2147483647"
  then have "sint c = int (unat c)" by (intro sint_small) simp
  with c show "sint c \<noteq> INT_MAX" unfolding INT_MAX_def by linarith
qed

lemma kb_epilogue_loop:
  "kb_ok kb \<Longrightarrow> kinv None mx L M s \<Longrightarrow> sem \<notin> mx \<Longrightarrow> L (Room sem) = [] \<Longrightarrow> pre_keys kb = ks \<Longrightarrow>
     unat (k_counter s sem) + length ks < 2147483647 \<Longrightarrow>
     \<exists>kb' s'. kb_epilogue sem kb s = Some (kb', s') \<and> kb_ok kb' \<and> pre_keys kb' = [] \<and>
       buf_keys kb' = take 63 (buf_keys kb @ ks) \<and>
       k_counter s' sem = k_counter s sem + of_nat (length ks) \<and> kinv None mx L M s'"
proof (induction ks arbitrary: kb s)
  case Nil
  have pre: "bb_inv KB_CAP (kb_prebuf kb)" "bb_inv KB_CAP (kb_buf kb)" using Nil.prems(1) by (simp_all add: kb_ok_def)
  have "bb_consume KB_CAP (kb_prebuf kb) = (None, kb_prebuf kb)"
    using bb.get_Nil [OF pre(1)] Nil.prems(5) by (simp add: pre_keys_def)
  then have "kb_epilogue sem kb s = Some (kb, s)" by (subst kb_epilogue.simps) simp
  moreover have "length (buf_keys kb) \<le> 63"
    using bb.contents_bound [OF pre(2)] by (simp add: buf_keys_def KB_CAP_def)
  ultimately show ?case using Nil.prems by simp
next
  case (Cons k ks)
  have pre: "bb_inv KB_CAP (kb_prebuf kb)" "bb_inv KB_CAP (kb_buf kb)" using Cons.prems(1) by (simp_all add: kb_ok_def)
  obtain p where p: "bb_consume KB_CAP (kb_prebuf kb) = (Some k, p)" "bb_list KB_CAP p = ks"
    using bb.get_Cons [OF pre(1), of k ks] Cons.prems(5) by (cases "bb_consume KB_CAP (kb_prebuf kb)")
      (auto simp: pre_keys_def)
  have p_inv: "bb_inv KB_CAP p" using bb.get_inv [OF pre(1)] p(1) by simp
  let ?b = "snd (bb_produce KB_CAP k (kb_buf kb))"
  let ?kb = "kb\<lparr>kb_prebuf := p, kb_buf := ?b\<rparr>"
  let ?s = "s\<lparr>k_counter := (k_counter s)(sem := k_counter s sem + 1)\<rparr>"
  have v: "semaphore_v sem s = Some ?s" "kinv None mx L M ?s"
    using v_nobody_waits [OF Cons.prems(2-4) INT_MAX_unat] Cons.prems(6) by simp_all
  have step: "kb_epilogue sem kb s = kb_epilogue sem ?kb ?s"
    using p(1) v(1) by (subst kb_epilogue.simps) simp
  have ok: "kb_ok ?kb" using p_inv bb.put_inv [OF pre(2)] by (simp add: kb_ok_def)
  have buf: "buf_keys ?kb = (if length (buf_keys kb) < 63 then buf_keys kb @ [k] else buf_keys kb)"
    using bb.put_contents [OF pre(2), of k] bb.put_result [OF pre(2), of k]
    by (simp add: buf_keys_def KB_CAP_def)
  have bound: "length (buf_keys kb) \<le> 63"
    using bb.contents_bound [OF pre(2)] by (simp add: buf_keys_def KB_CAP_def)
  have count: "unat (k_counter ?s sem) = unat (k_counter s sem) + 1"
    using Cons.prems(6) by (simp add: unat_plus_small)
  obtain kb' s' where r: "kb_epilogue sem ?kb ?s = Some (kb', s')" "kb_ok kb'" "pre_keys kb' = []"
      "buf_keys kb' = take 63 (buf_keys ?kb @ ks)"
      "k_counter s' sem = k_counter ?s sem + of_nat (length ks)" "kinv None mx L M s'"
    using Cons.IH [OF ok v(2) Cons.prems(3,4)] p(2) count Cons.prems(6) by (auto simp: pre_keys_def)
  have "take 63 (buf_keys ?kb @ ks) = take 63 (buf_keys kb @ k # ks)"
    using buf bound by (auto simp: take_append take_Cons')
  with r step show ?case by auto
qed

text \<open>The epilogue moves all keys of the first buffer and counts every one of them
  in the semaphore, but the second buffer keeps only the first 63: whenever more keys are
  pending, the semaphore lets a later \<^verbatim>\<open>getkey\<close> pass although the buffer is empty.\<close>

theorem epilogue_counts:
  assumes "kb_ok kb" "kinv None mx L M s" "sem \<notin> mx" "L (Room sem) = []"
    and "unat (k_counter s sem) + length (pre_keys kb) < 2147483647"
  shows "\<exists>kb' s'. kb_epilogue sem kb s = Some (kb', s') \<and> pre_keys kb' = [] \<and>
    buf_keys kb' = take 63 (buf_keys kb @ pre_keys kb) \<and>
    k_counter s' sem = k_counter s sem + of_nat (length (pre_keys kb))"
  using kb_epilogue_loop [OF assms(1-4) refl assms(5)] by blast

text \<open>64 keys in two runs of the epilogue, with nobody reading them.\<close>

definition full_keyboard :: "nat \<Rightarrow> keyboard" where
  "full_keyboard n = (keyboard_new (replicate 64 key_new) (replicate 64 key_new))
     \<lparr>kb_prebuf := fold (\<lambda>k b. snd (bb_produce KB_CAP k b)) (replicate n key_new) (bb_new (replicate 64 key_new))\<rparr>"

lemma full_keyboard_ok: "kb_ok (full_keyboard n) \<and> pre_keys (full_keyboard n) = replicate (min 63 n) key_new \<and>
  buf_keys (full_keyboard n) = []"
proof -
  have i: "bb_inv KB_CAP (bb_new (replicate 64 key_new))" by (rule bb_inv_new) (simp_all add: KB_CAP_def)
  then show ?thesis
    using bb.put_all [OF i, of "replicate n key_new"]
    by (simp add: full_keyboard_def kb_ok_def pre_keys_def buf_keys_def keyboard_new_def KB_CAP_def bb_list_new)
qed

theorem epilogue_counts_witness:
  "\<exists>kb' s'. kb_epilogue 2 (full_keyboard 3) two_cpus = Some (kb', s') \<and>
     length (buf_keys kb') = 3 \<and> k_counter s' 2 = 3"
  using epilogue_counts [OF _ two_cpus_kinv, of "full_keyboard 3" 2] full_keyboard_ok [of 3]
  by (auto simp: two_cpus_life)

end
