(* ===== verification/Syscalls.thy ===== *)
theory Syscalls
  imports KernelProps Keyboard
begin

section \<open>syscall/, meeting/waitingroom.cc: the calls of threads and the end of a waiting room\<close>

text \<open>
  The classes of \<^verbatim>\<open>syscall/\<close> wrap an operation of the kernel in a \<^verbatim>\<open>Secure\<close> object, which enters the
  guard and leaves it; theory \<open>GuardedKernel\<close> shows that this makes the operations atomic. Here the
  remaining wrappers are named, and the destructor of a waiting room is built on one of them.
  \<^verbatim>\<open>exit\<close>, \<^verbatim>\<open>kill\<close> and \<^verbatim>\<open>ready\<close> are in theory \<open>Kernel\<close>.
\<close>

definition guarded_resume :: "nat \<Rightarrow> kstate \<Rightarrow> kstate option" where "guarded_resume cpu s = sched_resume cpu s"
definition guarded_wakeup :: "tid \<Rightarrow> kstate \<Rightarrow> kstate option" where "guarded_wakeup customer s = wakeup customer s"
definition guarded_sleep :: "nat \<Rightarrow> room \<Rightarrow> u32 \<Rightarrow> kstate \<Rightarrow> kstate option" where
  "guarded_sleep cpu bell ms s = bell_sleep cpu bell ms s"
definition guarded_p :: "nat \<Rightarrow> room \<Rightarrow> kstate \<Rightarrow> (bool \<times> kstate) option" where "guarded_p cpu r s = semaphore_p cpu r s"
definition guarded_v :: "room \<Rightarrow> kstate \<Rightarrow> kstate option" where "guarded_v r s = semaphore_v r s"
definition guarded_lock :: "nat \<Rightarrow> room \<Rightarrow> kstate \<Rightarrow> (bool \<times> kstate) option" where "guarded_lock cpu m s = mutex_lock cpu m s"
definition guarded_unlock :: "room \<Rightarrow> kstate \<Rightarrow> (bool \<times> kstate) option" where "guarded_unlock m s = mutex_unlock m s"

text \<open>The destructor wakes the threads that still wait.\<close>

partial_function (option) room_destroy :: "room \<Rightarrow> kstate \<Rightarrow> kstate option" where
  "room_destroy r s =
     (let (t, q) = mq_dequeue (Room r) (k_queues s); s = s\<lparr>k_queues := q\<rparr>
      in case t of
           None \<Rightarrow> Some s
         | Some t \<Rightarrow> Option.bind (guarded_wakeup t s) (room_destroy r))"

text \<open>It is the loop of \<^verbatim>\<open>Bell::ring\<close>.\<close>

lemma room_destroy_ring: "room_destroy r s = bell_ring r s"
proof -
  have 1: "bell_ring r s = Some s'" if "room_destroy r s = Some s'" for s'
    by (rule room_destroy.raw_induct [where P = "\<lambda>r s s'. bell_ring r s = Some s'", OF _ that], subst bell_ring.simps)
      (auto simp: Let_def guarded_wakeup_def bind_eq_Some_conv split: prod.splits option.splits)
  have 2: "room_destroy r s = Some s'" if "bell_ring r s = Some s'" for s'
    by (rule bell_ring.raw_induct [where P = "\<lambda>r s s'. room_destroy r s = Some s'", OF _ that], subst room_destroy.simps)
      (auto simp: Let_def guarded_wakeup_def bind_eq_Some_conv split: prod.splits option.splits)
  show ?thesis using 1 2 by (metis not_Some_eq)
qed

lemma room_destroy_total:
  "kinv None mx L M s \<Longrightarrow> r \<notin> mx \<Longrightarrow> \<exists>s' L'. room_destroy r s = Some s' \<and> kinv None mx L' M s'"
  unfolding room_destroy_ring using bell_ring_kinv by blast

end
