(* ===== verification/Loops.thy ===== *)
theory Loops
  imports Prelude "HOL-Library.Monad_Syntax"
begin

section \<open>Counting loops\<close>

text \<open>
  The loop \<^verbatim>\<open>for (size_t i = a; i < n; i++) body\<close>, with a body that may stop the CPU
  (\<open>for_loop\<close>), and with a test that ends it early (\<open>for_find\<close>; the result is the index
  the loop stopped at, \<open>n\<close> or larger if it ran to its end). The rules reduce both to
  natural numbers, so that a proof about a loop gives an invariant and nothing about words.
\<close>

lemma unat_Suc_less [unat_simps]:
  assumes "i < (n :: 'a::len word)"
  shows "unat (i + 1) = Suc (unat i)"
proof -
  have "Suc (unat i) \<le> unat n" using assms by (simp add: word_less_nat_alt)
  also have "unat n < 2 ^ LENGTH('a)" by (rule unsigned_less)
  finally have "unat i + unat (1 :: 'a word) < 2 ^ LENGTH('a)" by simp
  then show ?thesis by (simp add: unat_plus_small)
qed

function for_loop :: "u32 \<Rightarrow> u32 \<Rightarrow> (u32 \<Rightarrow> 's \<Rightarrow> 's option) \<Rightarrow> 's \<Rightarrow> 's option" where
  "for_loop i n body s =
     (if i < n then Option.bind (body i s) (for_loop (i + 1) n body) else Some s)"
  by pat_completeness auto
termination
  by (relation "measure (\<lambda>(i, n, _). unat n - unat i)") (auto simp: word_less_nat_alt unat_Suc_less)

declare for_loop.simps [simp del]

function for_find :: "u32 \<Rightarrow> u32 \<Rightarrow> (u32 \<Rightarrow> bool option) \<Rightarrow> u32 option" where
  "for_find i n test =
     (if i < n then Option.bind (test i) (\<lambda>b. if b then Some i else for_find (i + 1) n test)
      else Some i)"
  by pat_completeness auto
termination
  by (relation "measure (\<lambda>(i, n, _). unat n - unat i)") (auto simp: word_less_nat_alt unat_Suc_less)

declare for_find.simps [simp del]

lemma for_loop_end: "\<not> i < n \<Longrightarrow> for_loop i n body s = Some s"
  by (simp add: for_loop.simps)

lemma for_loop_step: "i < n \<Longrightarrow> for_loop i n body s = Option.bind (body i s) (for_loop (i + 1) n body)"
  by (simp add: for_loop.simps)

text \<open>A loop succeeds if its body does in every state that the invariant allows.\<close>

lemma for_loop_rule:
  assumes "I (unat i) s" "unat i \<le> unat n"
    and "\<And>k s. unat i \<le> k \<Longrightarrow> k < unat n \<Longrightarrow> I k s \<Longrightarrow> \<exists>s'. body (of_nat k) s = Some s' \<and> I (Suc k) s'"
  shows "\<exists>s'. for_loop i n body s = Some s' \<and> I (unat n) s'"
  using assms
proof (induction i n body s rule: for_loop.induct)
  case (1 i n body s)
  show ?case
  proof (cases "i < n")
    case True
    then have less: "unat i < unat n" by (simp add: word_less_nat_alt)
    obtain s1 where s1: "body i s = Some s1" "I (Suc (unat i)) s1"
      using "1.prems"(3) [OF order_refl less "1.prems"(1)] by auto
    have next_i: "unat (i + 1) = Suc (unat i)" by (rule unat_Suc_less [OF True])
    have "\<exists>s'. for_loop (i + 1) n body s1 = Some s' \<and> I (unat n) s'"
      using s1 less "1.prems"(3) by (intro "1.IH" [OF True, of s1]) (auto simp: next_i)
    with True s1(1) show ?thesis by (simp add: for_loop_step)
  next
    case False
    then have "unat i = unat n" using "1.prems"(2) by (simp add: word_less_nat_alt)
    with False "1.prems"(1) show ?thesis by (simp add: for_loop_end)
  qed
qed

text \<open>A search with a test that is defined on the whole range.\<close>

lemma for_find_rule:
  assumes "\<And>k. unat i \<le> k \<Longrightarrow> k < unat n \<Longrightarrow> test (of_nat k) = Some (Q k)"
  shows "for_find i n test = Some
    (case find Q [unat i..<unat n] of Some k \<Rightarrow> of_nat k | None \<Rightarrow> if i < n then n else i)"
  using assms
proof (induction i n test rule: for_find.induct)
  case (1 i n test)
  show ?case
  proof (cases "i < n")
    case True
    then have less: "unat i < unat n" by (simp add: word_less_nat_alt)
    have next_i: "unat (i + 1) = Suc (unat i)" by (rule unat_Suc_less [OF True])
    have test: "test i = Some (Q (unat i))" using "1.prems" [of "unat i"] less by simp
    have range: "[unat i..<unat n] = unat i # [Suc (unat i)..<unat n]" using less by (simp add: upt_rec)
    show ?thesis
    proof (cases "Q (unat i)")
      case True
      with \<open>i < n\<close> test range show ?thesis by (simp add: for_find.simps)
    next
      case False
      have "for_find (i + 1) n test = Some (case find Q [unat (i + 1)..<unat n] of Some k \<Rightarrow> of_nat k
          | None \<Rightarrow> if i + 1 < n then n else i + 1)"
        using test False "1.prems" by (intro "1.IH" [OF True]) (auto simp: next_i)
      moreover have "(if i + 1 < n then n else i + 1) = n"
        using less next_i by (auto simp: word_less_nat_alt word_unat_eq_iff)
      ultimately show ?thesis using True test False range
        by (simp add: for_find.simps [of i] next_i split: if_splits option.splits)
    qed
  next
    case False
    then show ?thesis by (simp add: for_find.simps word_less_nat_alt)
  qed
qed

lemma find_upt_SomeD:
  "find Q [a..<b] = Some k \<Longrightarrow> a \<le> k \<and> k < b \<and> Q k \<and> (\<forall>j. a \<le> j \<and> j < k \<longrightarrow> \<not> Q j)"
  by (auto simp: find_Some_iff) (metis add_diff_cancel_left' le_iff_add nat_add_left_cancel_less less_trans)

lemma find_upt_NoneD: "find Q [a..<b] = None \<Longrightarrow> a \<le> j \<Longrightarrow> j < b \<Longrightarrow> \<not> Q j"
  by (auto simp: find_None_iff)

lemma find_upt_eqI:
  assumes "a \<le> k" "k < b" "Q k" "\<And>j. a \<le> j \<Longrightarrow> j < k \<Longrightarrow> \<not> Q j"
  shows "find Q [a..<b] = Some k"
proof (cases "find Q [a..<b]")
  case None
  with assms find_upt_NoneD show ?thesis by metis
next
  case (Some m)
  with assms find_upt_SomeD [OF Some] show ?thesis by (metis linorder_neqE_nat)
qed

text \<open>The three ways the result of a search is used.\<close>

lemma for_find_index:
  assumes "\<And>k. unat i \<le> k \<Longrightarrow> k < unat n \<Longrightarrow> test (of_nat k) = Some (Q k)"
  shows "Option.bind (for_find i n test) (\<lambda>j. Some (if j < n then j else z)) =
    Some (case find Q [unat i..<unat n] of Some k \<Rightarrow> of_nat k | None \<Rightarrow> z)"
proof -
  have "for_find i n test = Some
      (case find Q [unat i..<unat n] of Some k \<Rightarrow> of_nat k | None \<Rightarrow> if i < n then n else i)"
    using assms by (rule for_find_rule)
  moreover have "(of_nat k :: u32) < n" if "find Q [unat i..<unat n] = Some k" for k
  proof -
    have "k < unat n" using find_upt_SomeD [OF that] by simp
    moreover from this have "unat (of_nat k :: u32) = k" using unat_lt2p_32 [of n] by (simp add: unat_of_nat_small)
    ultimately show ?thesis by (simp add: word_less_nat_alt)
  qed
  ultimately show ?thesis by (auto split: option.splits)
qed

lemma for_find_any:
  assumes "\<And>k. unat i \<le> k \<Longrightarrow> k < unat n \<Longrightarrow> test (of_nat k) = Some (Q k)"
  shows "Option.bind (for_find i n test) (\<lambda>j. Some (j < n)) = Some (\<exists>k. unat i \<le> k \<and> k < unat n \<and> Q k)"
proof -
  have "Option.bind (for_find i n test) (\<lambda>j. Some (if j < n then j else n)) =
      Some (case find Q [unat i..<unat n] of Some k \<Rightarrow> of_nat k | None \<Rightarrow> n)"
    using assms by (rule for_find_index)
  then obtain j where j: "for_find i n test = Some j"
    "(if j < n then j else n) = (case find Q [unat i..<unat n] of Some k \<Rightarrow> of_nat k | None \<Rightarrow> n)"
    by (auto split: Option.bind_splits)
  have "j < n \<longleftrightarrow> (\<exists>k. unat i \<le> k \<and> k < unat n \<and> Q k)"
  proof (cases "find Q [unat i..<unat n]")
    case None
    with j(2) find_upt_NoneD [OF None] show ?thesis by (auto split: if_splits)
  next
    case (Some k)
    note k = find_upt_SomeD [OF Some]
    then have "unat (of_nat k :: u32) = k" using unat_lt2p_32 [of n] by (simp add: unat_of_nat_small)
    then have "(of_nat k :: u32) < n" using k by (simp add: word_less_nat_alt)
    with j(2) Some k show ?thesis by (auto split: if_splits)
  qed
  with j(1) show ?thesis by simp
qed

end
