(* ===== verification/Screen.thy ===== *)
theory Screen
  imports Ports Loops
begin

section \<open>machine/cgascr: windows on the text screen\<close>

text \<open>
  \<open>window\<close> holds the constant members of \<^verbatim>\<open>CGA_Screen\<close>; \<open>cga\<close> its own cursor position, the
  video memory, indexed by cells of two bytes from \<^verbatim>\<open>CGA_BASE\<close>, and the hardware behind the
  ports. \<open>term_print\<close> is a reference text terminal: the rows of the window as lists, a
  newline at the last row drops the first one. \<open>print_refines\<close> shows that \<^verbatim>\<open>print\<close> on the
  video memory implements it.
\<close>

type_synonym attribute = u8
type_synonym pixel = "u8 \<times> attribute"

definition COLUMNS :: int where "COLUMNS = 80"
definition ROWS :: int where "ROWS = 25"

record window =
  w_from_col :: int
  w_to_col :: int
  w_from_row :: int
  w_to_row :: int
  w_cursor :: bool

record 'w cga =
  c_x :: int
  c_y :: int
  c_mem :: "int \<Rightarrow> pixel"
  c_hw :: 'w

datatype color = BLACK | BLUE | GREEN | CYAN | RED | MAGENTA | BROWN | LIGHT_GREY | DARK_GREY
  | LIGHT_BLUE | LIGHT_GREEN | LIGHT_CYAN | LIGHT_RED | LIGHT_MAGENTA | YELLOW | WHITE

fun color_value :: "color \<Rightarrow> u8" where
  "color_value BLACK = 0" | "color_value BLUE = 1" | "color_value GREEN = 2" | "color_value CYAN = 3"
| "color_value RED = 4" | "color_value MAGENTA = 5" | "color_value BROWN = 6" | "color_value LIGHT_GREY = 7"
| "color_value DARK_GREY = 8" | "color_value LIGHT_BLUE = 9" | "color_value LIGHT_GREEN = 10"
| "color_value LIGHT_CYAN = 11" | "color_value LIGHT_RED = 12" | "color_value LIGHT_MAGENTA = 13"
| "color_value YELLOW = 14" | "color_value WHITE = 15"

definition attribute_new :: "color \<Rightarrow> color \<Rightarrow> bool \<Rightarrow> attribute" where
  "attribute_new fg bg blink =
     (color_value fg AND 0xf) OR push_bit 4 (color_value bg AND 7) OR push_bit 7 (if blink then 1 else 0)"

definition in_window :: "window \<Rightarrow> int \<Rightarrow> int \<Rightarrow> bool" where
  "in_window w x y \<longleftrightarrow> w_from_col w \<le> x \<and> x \<le> w_to_col w \<and> w_from_row w \<le> y \<and> y \<le> w_to_row w"

definition cga_new :: "window \<Rightarrow> (int \<Rightarrow> pixel) \<Rightarrow> 'w \<Rightarrow> 'w cga" where
  "cga_new w mem hw = \<lparr>c_x = w_from_col w, c_y = w_from_row w, c_mem = mem, c_hw = hw\<rparr>"

definition crt_index :: u16 where "crt_index = 0x3d4"
definition crt_data :: u16 where "crt_data = 0x3d5"

definition setpos :: "'w port_ops \<Rightarrow> window \<Rightarrow> int \<Rightarrow> int \<Rightarrow> 'w cga \<Rightarrow> 'w cga" where
  "setpos ops w x y s =
     (let x = (if x < 0 then x + (w_to_col w + 1) else x);
          y = (if y < 0 then y + (w_to_row w + 1) else y)
      in if \<not> in_window w x y then s
         else if w_cursor w
         then let new_cursor = word_of_int (y * COLUMNS + x) :: u32;
                  hw = io_outb ops crt_index 15 (c_hw s);
                  hw = io_outb ops crt_data (ucast (new_cursor AND 0xff)) hw;
                  hw = io_outb ops crt_index 14 hw;
                  hw = io_outb ops crt_data (ucast (drop_bit 8 new_cursor AND 0xff)) hw
              in s\<lparr>c_hw := hw\<rparr>
         else s\<lparr>c_x := x, c_y := y\<rparr>)"

definition getpos :: "'w port_ops \<Rightarrow> window \<Rightarrow> 'w cga \<Rightarrow> (int \<times> int) \<times> 'w cga" where
  "getpos ops w s =
     (if w_cursor w
      then let hw = io_outb ops crt_index 15 (c_hw s);
               (low, hw) = io_inb ops crt_data hw;
               hw = io_outb ops crt_index 14 hw;
               (high, hw) = io_inb ops crt_data hw;
               cursor = (ucast low :: u16) OR push_bit 8 (ucast high);
               x = uint cursor mod COLUMNS;
               y = uint cursor div COLUMNS
           in ((if in_window w x y then (x, y) else (0, 0)), s\<lparr>c_hw := hw\<rparr>)
      else ((c_x s, c_y s), s))"

definition move_up_one_line :: "window \<Rightarrow> attribute \<Rightarrow> (int \<Rightarrow> pixel) \<Rightarrow> (int \<Rightarrow> pixel)" where
  "move_up_one_line w a mem =
     fold (\<lambda>x mem.
       (fold (\<lambda>y mem. mem(y * COLUMNS + x := mem ((y + 1) * COLUMNS + x)))
          [w_from_row w..w_to_row w - 1] mem) (w_to_row w * COLUMNS + x := (32, a)))
       [w_from_col w..w_to_col w] mem"

definition LF :: "window \<Rightarrow> attribute \<Rightarrow> int \<times> int \<Rightarrow> (int \<Rightarrow> pixel) \<Rightarrow> (int \<times> int) \<times> (int \<Rightarrow> pixel)" where
  "LF w a p mem =
     (let y = snd p + 1 in
      if w_to_row w < y then ((w_from_col w, y - 1), move_up_one_line w a mem)
      else ((w_from_col w, y), mem))"

definition show_char :: "int \<Rightarrow> int \<Rightarrow> u8 \<Rightarrow> attribute \<Rightarrow> (int \<Rightarrow> pixel) \<Rightarrow> (int \<Rightarrow> pixel)" where
  "show_char x y c a mem =
     (let x = (if x < 0 then x + COLUMNS else x); y = (if y < 0 then y + ROWS else y) in
      if x < 0 \<or> COLUMNS \<le> x \<or> y < 0 \<or> ROWS \<le> y then mem else mem(y * COLUMNS + x := (c, a)))"

fun print_loop :: "window \<Rightarrow> attribute \<Rightarrow> u8 list \<Rightarrow> int \<times> int \<Rightarrow> (int \<Rightarrow> pixel) \<Rightarrow> (int \<times> int) \<times> (int \<Rightarrow> pixel)" where
  "print_loop w a [] p mem = (p, mem)"
| "print_loop w a (c # cs) p mem =
     (if c = 10 then let (p, mem) = LF w a p mem in print_loop w a cs p mem
      else let (x, y) = p; mem = show_char x y c a mem in
           if w_to_col w < x + 1 then let (p, mem) = LF w a (x + 1, y) mem in print_loop w a cs p mem
           else print_loop w a cs (x + 1, y) mem)"

definition cga_print :: "'w port_ops \<Rightarrow> window \<Rightarrow> u8 list \<Rightarrow> attribute \<Rightarrow> 'w cga \<Rightarrow> 'w cga" where
  "cga_print ops w cs a s =
     (let ((x, y), s) = getpos ops w s in
      if \<not> in_window w x y then s
      else let ((x, y), mem) = print_loop w a cs (x, y) (c_mem s) in
           setpos ops w x y (s\<lparr>c_mem := mem\<rparr>))"

definition cga_reset :: "'w port_ops \<Rightarrow> window \<Rightarrow> u8 \<Rightarrow> attribute \<Rightarrow> 'w cga \<Rightarrow> 'w cga" where
  "cga_reset ops w c a s =
     (let s = setpos ops w (w_from_col w) (w_from_row w) s in
      s\<lparr>c_mem := fold (\<lambda>x mem. fold (\<lambda>y. show_char x y c a) [w_from_row w..w_to_row w] mem)
        [w_from_col w..w_to_col w] (c_mem s)\<rparr>)"

subsection \<open>Cells of a window\<close>

definition window_ok :: "window \<Rightarrow> bool" where
  "window_ok w \<longleftrightarrow> 0 \<le> w_from_col w \<and> w_from_col w \<le> w_to_col w \<and> w_to_col w < COLUMNS \<and>
     0 \<le> w_from_row w \<and> w_from_row w \<le> w_to_row w \<and> w_to_row w < ROWS"

definition cell_in :: "window \<Rightarrow> int \<Rightarrow> bool" where
  "cell_in w k \<longleftrightarrow> in_window w (k mod COLUMNS) (k div COLUMNS)"

lemma cell_div_mod:
  assumes "0 \<le> x" "x < COLUMNS"
  shows "(y * COLUMNS + x) div COLUMNS = y" "(y * COLUMNS + x) mod COLUMNS = x"
    "(x + y * COLUMNS) div COLUMNS = y" "(x + y * COLUMNS) mod COLUMNS = x"
  using assms by (simp_all add: COLUMNS_def)

lemma cell_eq:
  assumes "0 \<le> x" "x < COLUMNS"
  shows "k = y * COLUMNS + x \<longleftrightarrow> k div COLUMNS = y \<and> k mod COLUMNS = x"
  using cell_div_mod [OF assms, of y] by (metis div_mult_mod_eq)

lemma cell_next: "(k + COLUMNS) div COLUMNS = k div COLUMNS + 1" "(k + COLUMNS) mod COLUMNS = k mod COLUMNS"
  by (simp_all add: COLUMNS_def)

lemma move_up_column:
  assumes "0 \<le> x" "x < COLUMNS"
  shows "fold (\<lambda>y mem. mem(y * COLUMNS + x := mem ((y + 1) * COLUMNS + x))) [a..b] mem k =
    (if k mod COLUMNS = x \<and> a \<le> k div COLUMNS \<and> k div COLUMNS \<le> b then mem (k + COLUMNS) else mem k)"
proof (induction "nat (b - a + 1)" arbitrary: a mem)
  case 0
  then show ?case by auto
next
  case (Suc n)
  then have ab: "a \<le> b" by simp
  let ?m = "mem(a * COLUMNS + x := mem ((a + 1) * COLUMNS + x))"
  have step: "[a..b] = a # [a + 1..b]" using ab by (rule upto_rec1)
  have "k = a * COLUMNS + x \<longleftrightarrow> k div COLUMNS = a \<and> k mod COLUMNS = x"
    "k + COLUMNS = a * COLUMNS + x \<longleftrightarrow> k div COLUMNS + 1 = a \<and> k mod COLUMNS = x"
    using cell_eq [OF assms] by (simp_all add: cell_next)
  moreover have "(a + 1) * COLUMNS + x = k + COLUMNS" if "k = a * COLUMNS + x"
    using that by (simp add: algebra_simps)
  ultimately show ?case
    using Suc.hyps(1) [of "a + 1" ?m] Suc.hyps(2) ab unfolding step by (auto simp: fun_upd_apply)
qed

lemma move_up_columns:
  assumes "0 \<le> c" "d < COLUMNS" "w_from_row w \<le> w_to_row w"
  shows "fold (\<lambda>x mem.
       (fold (\<lambda>y mem. mem(y * COLUMNS + x := mem ((y + 1) * COLUMNS + x)))
          [w_from_row w..w_to_row w - 1] mem) (w_to_row w * COLUMNS + x := (32, a))) [c..d] mem k =
    (if c \<le> k mod COLUMNS \<and> k mod COLUMNS \<le> d \<and> w_from_row w \<le> k div COLUMNS \<and> k div COLUMNS \<le> w_to_row w
     then if k div COLUMNS = w_to_row w then (32, a) else mem (k + COLUMNS)
     else mem k)"
  using assms(1)
proof (induction "nat (d - c + 1)" arbitrary: c mem)
  case 0
  then show ?case by auto
next
  case (Suc n)
  then have cd: "c \<le> d" by simp
  have step: "[c..d] = c # [c + 1..d]" using cd by (rule upto_rec1)
  have c: "0 \<le> c" "c < COLUMNS" using Suc.prems cd assms(2) by simp_all
  let ?m = "(fold (\<lambda>y mem. mem(y * COLUMNS + c := mem ((y + 1) * COLUMNS + c)))
          [w_from_row w..w_to_row w - 1] mem) (w_to_row w * COLUMNS + c := (32, a))"
  have m: "?m j = (if j mod COLUMNS = c \<and> w_from_row w \<le> j div COLUMNS \<and> j div COLUMNS \<le> w_to_row w
      then if j div COLUMNS = w_to_row w then (32, a) else mem (j + COLUMNS) else mem j)" for j
    using cell_eq [OF c, of j "w_to_row w"] assms(3) by (auto simp: move_up_column [OF c] fun_upd_apply)
  define m1 where "m1 = ?m"
  have m1: "m1 j = (if j mod COLUMNS = c \<and> w_from_row w \<le> j div COLUMNS \<and> j div COLUMNS \<le> w_to_row w
      then if j div COLUMNS = w_to_row w then (32, a) else mem (j + COLUMNS) else mem j)" for j
    unfolding m1_def by (rule m)
  have n: "n = nat (d - (c + 1) + 1)" "0 \<le> c + 1" using Suc.hyps(2) Suc.prems by simp_all
  show ?case
    unfolding step fold.simps comp_apply m1_def [symmetric] Suc.hyps(1) [OF n]
    using cd by (auto simp: m1 cell_next)
qed

lemma move_up_cell:
  assumes "window_ok w"
  shows "move_up_one_line w a mem k =
    (if cell_in w k then if k div COLUMNS = w_to_row w then (32, a) else mem (k + COLUMNS) else mem k)"
  using assms move_up_columns [of "w_from_col w" "w_to_col w" w a mem k]
  by (auto simp: move_up_one_line_def cell_in_def in_window_def window_ok_def)

lemma show_char_cell:
  assumes "window_ok w" "in_window w x y"
  shows "show_char x y c a mem = mem(y * COLUMNS + x := (c, a))"
  using assms by (auto simp: show_char_def in_window_def window_ok_def)

subsection \<open>The reference terminal\<close>

record terminal =
  t_rows :: "pixel list list"
  t_col :: nat
  t_row :: nat

definition term_newline :: "nat \<Rightarrow> attribute \<Rightarrow> terminal \<Rightarrow> terminal" where
  "term_newline width a t =
     (if Suc (t_row t) < length (t_rows t) then t\<lparr>t_col := 0, t_row := Suc (t_row t)\<rparr>
      else t\<lparr>t_rows := tl (t_rows t) @ [replicate width (32, a)], t_col := 0\<rparr>)"

definition term_char :: "nat \<Rightarrow> attribute \<Rightarrow> u8 \<Rightarrow> terminal \<Rightarrow> terminal" where
  "term_char width a c t =
     (if c = 10 then term_newline width a t
      else let t = t\<lparr>t_rows := (t_rows t)[t_row t := (t_rows t ! t_row t)[t_col t := (c, a)]],
                     t_col := Suc (t_col t)\<rparr>
           in if t_col t < width then t else term_newline width a t)"

definition term_print :: "nat \<Rightarrow> attribute \<Rightarrow> u8 list \<Rightarrow> terminal \<Rightarrow> terminal" where
  "term_print width a cs t = fold (term_char width a) cs t"

definition w_width :: "window \<Rightarrow> nat" where
  "w_width w = nat (w_to_col w - w_from_col w + 1)"

definition terminal_of :: "window \<Rightarrow> int \<times> int \<Rightarrow> (int \<Rightarrow> pixel) \<Rightarrow> terminal" where
  "terminal_of w p mem = \<lparr>
     t_rows = map (\<lambda>y. map (\<lambda>x. mem (y * COLUMNS + x)) [w_from_col w..w_to_col w]) [w_from_row w..w_to_row w],
     t_col = nat (fst p - w_from_col w), t_row = nat (snd p - w_from_row w)\<rparr>"

text \<open>What \<^verbatim>\<open>print\<close> may change: cells of the window.\<close>

definition same_outside :: "window \<Rightarrow> (int \<Rightarrow> pixel) \<Rightarrow> (int \<Rightarrow> pixel) \<Rightarrow> bool" where
  "same_outside w mem mem' \<longleftrightarrow> (\<forall>k. \<not> cell_in w k \<longrightarrow> mem' k = mem k)"

lemma same_outside_refl [simp]: "same_outside w mem mem"
  by (simp add: same_outside_def)

lemma same_outside_trans: "same_outside w a b \<Longrightarrow> same_outside w b c \<Longrightarrow> same_outside w a c"
  by (simp add: same_outside_def)

lemma window_cell:
  assumes "window_ok w" "x \<in> set [w_from_col w..w_to_col w]" "y \<in> set [w_from_row w..w_to_row w]"
  shows "cell_in w (y * COLUMNS + x)" "(y * COLUMNS + x) div COLUMNS = y" "(y * COLUMNS + x) mod COLUMNS = x"
  using assms cell_div_mod [of x y] by (auto simp: window_ok_def cell_in_def in_window_def)

lemma map_upto_shift: "map (\<lambda>y. f (y + 1)) [a..b] = map f [a + 1..b + (1 :: int)]"
proof (induction a b rule: upto.induct)
  case (1 a b)
  then show ?case by (cases "a \<le> b") (simp_all add: upto_rec1)
qed

lemma LF_refines:
  assumes "window_ok w" "w_from_row w \<le> y" "y \<le> w_to_row w"
  shows "case LF w a (x, y) mem of (p', mem') \<Rightarrow>
    terminal_of w p' mem' = term_newline (w_width w) a (terminal_of w (x, y) mem) \<and>
    in_window w (fst p') (snd p') \<and> same_outside w mem mem'"
proof (cases "w_to_row w < y + 1")
  case True
  then have y: "y = w_to_row w" using assms(3) by simp
  let ?row = "\<lambda>mem y. map (\<lambda>x. mem (y * COLUMNS + x)) [w_from_col w..w_to_col w]"
  let ?mem = "move_up_one_line w a mem"
  have rows: "[w_from_row w..w_to_row w] = [w_from_row w..w_to_row w - 1] @ [w_to_row w]"
    using assms(1) by (intro upto_rec2) (simp add: window_ok_def)
  have up: "?row ?mem y = ?row mem (y + 1)" if "y \<in> set [w_from_row w..w_to_row w - 1]" for y
    using that window_cell [OF assms(1), of _ y]
    by (auto simp: move_up_cell [OF assms(1)] algebra_simps)
  have last: "?row ?mem (w_to_row w) = replicate (w_width w) (32, a)"
    using window_cell [OF assms(1), of _ "w_to_row w"] assms(1)
    by (intro replicate_eqI) (auto simp: move_up_cell [OF assms(1)] w_width_def window_ok_def)
  have "map (?row ?mem) [w_from_row w..w_to_row w] =
      map (\<lambda>y. ?row mem (y + 1)) [w_from_row w..w_to_row w - 1] @ [replicate (w_width w) (32, a)]"
    unfolding rows map_append using up last by (simp cong: map_cong)
  also have "map (\<lambda>y. ?row mem (y + 1)) [w_from_row w..w_to_row w - 1] = map (?row mem) [w_from_row w + 1..w_to_row w]"
    using map_upto_shift [of "?row mem" "w_from_row w" "w_to_row w - 1"] by simp
  also have "\<dots> = tl (map (?row mem) [w_from_row w..w_to_row w])"
    using assms(1) by (simp add: window_ok_def upto_rec1)
  finally have rows': "map (?row ?mem) [w_from_row w..w_to_row w] =
      tl (map (?row mem) [w_from_row w..w_to_row w]) @ [replicate (w_width w) (32, a)]" .
  have last_row: "\<not> Suc (nat (w_to_row w - w_from_row w)) < length [w_from_row w..w_to_row w]"
    using assms(1) by (simp add: window_ok_def)
  have "same_outside w mem ?mem" by (simp add: same_outside_def move_up_cell [OF assms(1)])
  then show ?thesis
    using True rows' last_row y assms(1)
    by (simp add: LF_def terminal_of_def term_newline_def in_window_def window_ok_def)
next
  case False
  then have "Suc (nat (y - w_from_row w)) = nat (y + 1 - w_from_row w)" using assms(2) by simp
  with False assms show ?thesis
    by (simp add: LF_def terminal_of_def term_newline_def in_window_def window_ok_def)
qed

lemma show_refines:
  assumes "window_ok w" "in_window w x y"
  shows "t_rows (terminal_of w p (show_char x y c a mem)) =
    (t_rows (terminal_of w (x, y) mem))[t_row (terminal_of w (x, y) mem) :=
      (t_rows (terminal_of w (x, y) mem) ! t_row (terminal_of w (x, y) mem))[t_col (terminal_of w (x, y) mem) := (c, a)]]"
    (is "?l = ?r")
proof (rule nth_equalityI)
  show "length ?l = length ?r" by (simp add: terminal_of_def)
  fix i assume "i < length ?l"
  then have i: "w_from_row w + int i \<le> w_to_row w" by (simp add: terminal_of_def)
  show "?l ! i = ?r ! i"
  proof (rule nth_equalityI)
    show "length (?l ! i) = length (?r ! i)"
      using i assms by (auto simp: terminal_of_def nth_list_update in_window_def)
    fix j assume "j < length (?l ! i)"
    then have j: "w_from_col w + int j \<le> w_to_col w" using i by (simp add: terminal_of_def)
    have "(w_from_row w + int i) * COLUMNS + (w_from_col w + int j) = y * COLUMNS + x \<longleftrightarrow>
        w_from_row w + int i = y \<and> w_from_col w + int j = x"
      using cell_eq [of x "(w_from_row w + int i) * COLUMNS + (w_from_col w + int j)" y]
        cell_div_mod [of "w_from_col w + int j" "w_from_row w + int i"] assms i j
      by (auto simp: window_ok_def in_window_def)
    moreover have "nat (y - w_from_row w) = i \<longleftrightarrow> w_from_row w + int i = y"
      "nat (x - w_from_col w) = j \<longleftrightarrow> w_from_col w + int j = x"
      using assms(2) by (auto simp: in_window_def)
    ultimately show "?l ! i ! j = ?r ! i ! j"
      using i j assms by (auto simp: terminal_of_def show_char_cell [OF assms] nth_list_update in_window_def)
  qed
qed

lemma show_outside:
  assumes "window_ok w" "in_window w x y"
  shows "same_outside w mem (show_char x y c a mem)"
proof -
  have "cell_in w (y * COLUMNS + x)"
    using window_cell(1) [OF assms(1), of x y] assms(2) by (simp add: in_window_def)
  then show ?thesis by (auto simp: same_outside_def show_char_cell [OF assms])
qed

lemma print_refines:
  assumes "window_ok w" "in_window w (fst p) (snd p)"
  shows "case print_loop w a cs p mem of (p', mem') \<Rightarrow>
    terminal_of w p' mem' = term_print (w_width w) a cs (terminal_of w p mem) \<and>
    in_window w (fst p') (snd p') \<and> same_outside w mem mem'"
  using assms(2)
proof (induction cs arbitrary: p mem)
  case Nil
  then show ?case by (simp add: term_print_def)
next
  case (Cons c cs)
  obtain x y where p: "p = (x, y)" by fastforce
  then have y: "w_from_row w \<le> y" "y \<le> w_to_row w" and x: "w_from_col w \<le> x" "x \<le> w_to_col w"
    using Cons.prems by (simp_all add: in_window_def)
  have go: ?case if "print_loop w a (c # cs) p mem = print_loop w a cs p1 mem1"
    and "terminal_of w p1 mem1 = term_char (w_width w) a c (terminal_of w p mem)"
    and "in_window w (fst p1) (snd p1)" "same_outside w mem mem1" for p1 mem1
    using Cons.IH [OF that(3), of mem1] that(1,2) same_outside_trans [OF that(4)]
    by (auto simp: term_print_def)
  show ?case
  proof (cases "c = 10")
    case True
    obtain p1 mem1 where lf: "LF w a (x, y) mem = (p1, mem1)" by fastforce
    show ?thesis
      using LF_refines [OF assms(1) y, of a x mem] lf True p by (intro go [of p1 mem1]) (auto simp: term_char_def)
  next
    case no_lf: False
    let ?mem = "show_char x y c a mem"
    have inw: "in_window w x y" using Cons.prems p by simp
    note rows = show_refines [OF assms(1) inw, of _ c a mem]
    have sh: "terminal_of w (x + 1, y) ?mem = (terminal_of w p mem)\<lparr>
        t_rows := (t_rows (terminal_of w p mem))[t_row (terminal_of w p mem) :=
          (t_rows (terminal_of w p mem) ! t_row (terminal_of w p mem))[t_col (terminal_of w p mem) := (c, a)]],
        t_col := Suc (t_col (terminal_of w p mem))\<rparr>"
      using rows [of "(x + 1, y)"] x p by (auto simp: terminal_of_def nat_add_distrib Suc_nat_eq_nat_zadd1 algebra_simps)
    have col: "t_col (terminal_of w (x + 1, y) ?mem) < w_width w \<longleftrightarrow> \<not> w_to_col w < x + 1"
      using x by (auto simp: terminal_of_def w_width_def)
    note out = show_outside [OF assms(1) inw, of mem c a]
    show ?thesis
    proof (cases "w_to_col w < x + 1")
      case True
      obtain p1 mem1 where lf: "LF w a (x + 1, y) ?mem = (p1, mem1)" by fastforce
      from LF_refines [OF assms(1) y, of a "x + 1" ?mem] lf
      have "terminal_of w p1 mem1 = term_newline (w_width w) a (terminal_of w (x + 1, y) ?mem)"
        "in_window w (fst p1) (snd p1)" "same_outside w ?mem mem1" by simp_all
      with lf True no_lf p col out sh show ?thesis
        by (intro go [of p1 mem1]) (auto simp: term_char_def Let_def intro: same_outside_trans)
    next
      case False
      with no_lf p col out sh x y show ?thesis
        by (intro go [of "(x + 1, y)" ?mem]) (auto simp: term_char_def Let_def in_window_def)
    qed
  qed
qed

subsection \<open>The cursor registers\<close>

text \<open>
  What is relied on of the CRT controller: \<^verbatim>\<open>0x3d4\<close> selects a register, \<^verbatim>\<open>0x3d5\<close> reads and
  writes the selected one. \<open>sel\<close> and \<open>reg\<close> give the selected register and the contents.
\<close>

definition crt_ok :: "'w port_ops \<Rightarrow> ('w \<Rightarrow> u8) \<Rightarrow> ('w \<Rightarrow> u8 \<Rightarrow> u8) \<Rightarrow> bool" where
  "crt_ok ops sel reg \<longleftrightarrow>
     (\<forall>v w. sel (p_outb ops crt_index v w) = v \<and> reg (p_outb ops crt_index v w) = reg w) \<and>
     (\<forall>v w. sel (p_outb ops crt_data v w) = sel w \<and> reg (p_outb ops crt_data v w) = (reg w)(sel w := v)) \<and>
     (\<forall>w. fst (p_inb ops crt_data w) = reg w (sel w) \<and> sel (snd (p_inb ops crt_data w)) = sel w \<and>
       reg (snd (p_inb ops crt_data w)) = reg w)"

lemma cursor_bytes:
  "(ucast (ucast (n AND 0xff :: u32) :: u8) :: u16) OR push_bit 8 (ucast (ucast (drop_bit 8 n AND 0xff) :: u8)) = ucast n"
proof -
  have m: "(0xff :: u32) = mask 8" by (simp add: mask_eq_exp_minus_1)
  show ?thesis
    unfolding m by (rule bit_word_eqI) (auto simp: bit_simps)
qed

lemma getpos_cursor:
  assumes "crt_ok ops sel reg" "w_cursor w"
  shows "getpos ops w s =
    (let n = (ucast (reg (c_hw s) 15) :: u16) OR push_bit 8 (ucast (reg (c_hw s) 14));
         x = uint n mod COLUMNS; y = uint n div COLUMNS
     in if in_window w x y then (x, y) else (0, 0), snd (getpos ops w s))"
    and "c_mem (snd (getpos ops w s)) = c_mem s" "reg (c_hw (snd (getpos ops w s))) = reg (c_hw s)"
  using assms by (simp_all add: getpos_def Let_def io_outb_def io_inb_def crt_ok_def case_prod_beta)

lemma getpos_mem: "c_mem (snd (getpos ops w s)) = c_mem s"
  by (simp add: getpos_def Let_def case_prod_beta)

lemma setpos_mem: "c_mem (setpos ops w x y s) = c_mem s"
  by (simp add: setpos_def Let_def)

definition cursor_ok :: "'w port_ops \<Rightarrow> ('w \<Rightarrow> u8) \<Rightarrow> ('w \<Rightarrow> u8 \<Rightarrow> u8) \<Rightarrow> window \<Rightarrow> bool" where
  "cursor_ok ops sel reg w \<longleftrightarrow> (w_cursor w \<longrightarrow> crt_ok ops sel reg)"

lemma getpos_setpos:
  assumes "cursor_ok ops sel reg w" "window_ok w" "in_window w x y"
  shows "fst (getpos ops w (setpos ops w x y s)) = (x, y)"
proof (cases "w_cursor w")
  case False
  with assms show ?thesis by (auto simp: setpos_def getpos_def Let_def window_ok_def in_window_def)
next
  case True
  define n :: u32 where "n = word_of_int (y * COLUMNS + x)"
  have xy: "0 \<le> x" "x < COLUMNS" "0 \<le> y" "y < ROWS" using assms(2,3) by (auto simp: window_ok_def in_window_def)
  then have "0 \<le> y * COLUMNS + x" "y * COLUMNS + x < 65536" by (simp_all add: COLUMNS_def ROWS_def)
  moreover have "uint (ucast (word_of_int z :: u32) :: u16) = z" if "0 \<le> z" "z < 65536" for z
    using that by (simp add: unsigned_ucast_eq uint_word_of_int take_bit_int_eq_self)
  ultimately have n: "uint (ucast n :: u16) = y * COLUMNS + x" unfolding n_def by blast
  have crt: "crt_ok ops sel reg" using assms(1) True by (simp add: cursor_ok_def)
  have "reg (c_hw (setpos ops w x y s)) 15 = ucast (n AND 0xff)"
    "reg (c_hw (setpos ops w x y s)) 14 = ucast (drop_bit 8 n AND 0xff)"
    using crt True assms(3) xy by (simp_all add: setpos_def Let_def io_outb_def crt_ok_def n_def)
  then have "getpos ops w (setpos ops w x y s) = ((x, y), snd (getpos ops w (setpos ops w x y s)))"
    using cell_div_mod [OF xy(1,2), of y] assms(3)
    by (subst getpos_cursor(1) [OF crt True]) (simp add: cursor_bytes n Let_def)
  then show ?thesis by (metis fst_conv)
qed

lemma getpos_again: "cursor_ok ops sel reg w \<Longrightarrow> fst (getpos ops w (snd (getpos ops w s))) = fst (getpos ops w s)"
proof (cases "w_cursor w")
  case True
  assume "cursor_ok ops sel reg w"
  then have crt: "crt_ok ops sel reg" using True by (simp add: cursor_ok_def)
  show ?thesis
    by (subst getpos_cursor(1) [OF crt True], subst (3) getpos_cursor(1) [OF crt True])
      (simp add: getpos_cursor(3) [OF crt True])
qed (simp add: getpos_def)

definition cursor_at :: "'w port_ops \<Rightarrow> window \<Rightarrow> 'w cga \<Rightarrow> int \<times> int" where
  "cursor_at ops w s = fst (getpos ops w s)"

text \<open>The window as a terminal, with the cursor where \<^verbatim>\<open>getpos\<close> finds it.\<close>

definition screen_view :: "'w port_ops \<Rightarrow> window \<Rightarrow> 'w cga \<Rightarrow> terminal" where
  "screen_view ops w s = terminal_of w (cursor_at ops w s) (c_mem s)"

definition cursor_inside :: "'w port_ops \<Rightarrow> window \<Rightarrow> 'w cga \<Rightarrow> bool" where
  "cursor_inside ops w s \<longleftrightarrow> in_window w (fst (cursor_at ops w s)) (snd (cursor_at ops w s))"

lemma cga_print_view:
  assumes "cursor_ok ops sel reg w" "window_ok w" "cursor_inside ops w s"
  shows "screen_view ops w (cga_print ops w cs a s) = term_print (w_width w) a cs (screen_view ops w s) \<and>
    cursor_inside ops w (cga_print ops w cs a s) \<and> same_outside w (c_mem s) (c_mem (cga_print ops w cs a s))"
proof -
  obtain x y s1 where g: "getpos ops w s = ((x, y), s1)" by (metis prod.exhaust)
  then have at: "cursor_at ops w s = (x, y)" by (simp add: cursor_at_def)
  then have xy: "in_window w x y" using assms(3) by (simp add: cursor_inside_def)
  have mem: "c_mem s1 = c_mem s" using getpos_mem [of ops w s] g by simp
  obtain x' y' mem' where p: "print_loop w a cs (x, y) (c_mem s) = ((x', y'), mem')" by (metis prod.exhaust)
  from print_refines [OF assms(2), of "(x, y)" a cs "c_mem s"] xy p have
    r: "terminal_of w (x', y') mem' = term_print (w_width w) a cs (terminal_of w (x, y) (c_mem s))"
      "in_window w x' y'" "same_outside w (c_mem s) mem'" by simp_all
  have out: "cga_print ops w cs a s = setpos ops w x' y' (s1\<lparr>c_mem := mem'\<rparr>)"
    using g xy p mem by (simp add: cga_print_def)
  have "cursor_at ops w (cga_print ops w cs a s) = (x', y')"
    unfolding out cursor_at_def by (rule getpos_setpos [OF assms(1,2) r(2)])
  with out at r show ?thesis by (simp add: screen_view_def cursor_inside_def setpos_mem)
qed

subsection \<open>Properties\<close>

text \<open>Property C19. Whatever text is printed, the window shows what a text terminal of its size
  shows: characters fill a row from the cursor on, a newline or a full row starts the next one,
  at the last row the contents move up by one row; the cursor stays in the window and no cell
  outside it changes.\<close>

theorem print_is_terminal:
  assumes "cursor_ok ops sel reg w" "window_ok w" "cursor_inside ops w s"
  shows "screen_view ops w (cga_print ops w cs a s) = term_print (w_width w) a cs (screen_view ops w s) \<and>
    cursor_inside ops w (cga_print ops w cs a s) \<and> same_outside w (c_mem s) (c_mem (cga_print ops w cs a s))"
  by (rule cga_print_view [OF assms])

text \<open>A controller with all its registers, for the examples.\<close>

definition crt_demo :: "(u8 \<times> (u8 \<Rightarrow> u8)) port_ops" where
  "crt_demo = \<lparr>
     p_inb = (\<lambda>a (i, r). (if a = crt_data then r i else 0, (i, r))),
     p_outb = (\<lambda>a v (i, r). if a = crt_index then (v, r) else if a = crt_data then (i, r(i := v)) else (i, r))\<rparr>"

lemma crt_demo_ok: "crt_ok crt_demo fst snd"
  by (auto simp: crt_ok_def crt_demo_def crt_index_def crt_data_def)

definition demo_window :: window where
  "demo_window = \<lparr>w_from_col = 3, w_to_col = 4, w_from_row = 2, w_to_row = 3, w_cursor = False\<rparr>"

lemma demo_window_ok: "window_ok demo_window"
  by (simp add: window_ok_def demo_window_def COLUMNS_def ROWS_def)

theorem print_is_terminal_witness:
  "t_rows (screen_view crt_demo demo_window
     (cga_print crt_demo demo_window [97, 98, 99, 10, 100] 7 (cga_new demo_window (\<lambda>_. (32, 7)) (0, \<lambda>_. 0)))) =
     [[(99, 7), (32, 7)], [(100, 7), (32, 7)]]"
proof -
  let ?s = "cga_new demo_window (\<lambda>_. (32, 7)) (0, \<lambda>_. 0)"
  have inside: "cursor_inside crt_demo demo_window ?s"
    by (simp add: cursor_inside_def cursor_at_def getpos_def demo_window_def cga_new_def in_window_def)
  have rows: "t_rows (term_print (w_width demo_window) 7 [97, 98, 99, 10, 100] (screen_view crt_demo demo_window ?s)) =
      [[(99, 7), (32, 7)], [(100, 7), (32, 7)]]"
    by code_simp
  have "cursor_ok crt_demo fst snd demo_window" by (simp add: cursor_ok_def crt_demo_ok)
  from print_is_terminal [OF this demo_window_ok inside, of "[97, 98, 99, 10, 100]" 7] rows
  show ?thesis by simp
qed

text \<open>\<^verbatim>\<open>getpos\<close> finds the cursor where \<^verbatim>\<open>setpos\<close> put it, whether the position is
  kept in the object or, split into two bytes, in the registers of the CRT controller; and a
  position outside the window is ignored.\<close>

theorem cursor_roundtrip:
  assumes "cursor_ok ops sel reg w" "window_ok w" "0 \<le> x" "0 \<le> y"
  shows "if in_window w x y then fst (getpos ops w (setpos ops w x y s)) = (x, y)
    else setpos ops w x y s = s"
proof (cases "in_window w x y")
  case True
  with getpos_setpos [OF assms(1,2)] show ?thesis by simp
next
  case False
  with assms(3,4) show ?thesis by (simp add: setpos_def Let_def)
qed

theorem cursor_roundtrip_witness:
  "fst (getpos crt_demo (demo_window\<lparr>w_cursor := True\<rparr>)
     (setpos crt_demo (demo_window\<lparr>w_cursor := True\<rparr>) 4 3 (cga_new demo_window (\<lambda>_. (32, 7)) (0, \<lambda>_. 0)))) = (4, 3)"
proof -
  have "cursor_ok crt_demo fst snd (demo_window\<lparr>w_cursor := True\<rparr>)" by (simp add: cursor_ok_def crt_demo_ok)
  moreover have "window_ok (demo_window\<lparr>w_cursor := True\<rparr>)"
    by (simp add: window_ok_def demo_window_def COLUMNS_def ROWS_def)
  ultimately show ?thesis
    using cursor_roundtrip [of crt_demo fst snd "demo_window\<lparr>w_cursor := True\<rparr>" 4 3]
    by (simp add: in_window_def demo_window_def)
qed

end
