(* ===== verification/KString.thy ===== *)
theory KString
  imports Loops
begin

section \<open>user/string: the buffer of a String and the operations that change it\<close>

text \<open>
  A \<open>str\<close> has the members of \<^verbatim>\<open>String\<close>: \<open>s_buf\<close> is \<^verbatim>\<open>used_data\<close>, the 20 bytes of
  \<^verbatim>\<open>short_data\<close> or the block on the heap, with \<open>None\<close> for a byte that nobody wrote;
  \<open>s_cap\<close> only counts when \<open>s_heap\<close> is set. An access outside the buffer, the use of an
  uninitialised byte and a failed assertion are the result \<open>None\<close>.

  Every operation takes the heap as the parameter \<open>alloc\<close>, a \<open>str_heap\<close>: \<open>h_serves\<close> tells
  whether a request of a size is served, and \<open>h_moved n buf\<close> what the block of \<open>n\<close> bytes holds
  that \<^verbatim>\<open>realloc\<close> gives back for a block with the bytes \<open>buf\<close>. The \<^verbatim>\<open>realloc\<close> of
  \<^verbatim>\<open>utils/heap.cc\<close> does not always keep these bytes (theory \<open>HeapProps\<close>, theorem
  \<open>realloc_overwrites\<close>), so nothing is built into the model here: the lemmas say with
  \<open>mem_ok alloc n\<close> what they need, and it is only about \<^verbatim>\<open>realloc\<close> where a string outgrows
  the 40 bytes of its first block.
\<close>

record str_heap =
  h_serves :: "u32 \<Rightarrow> bool"
  h_moved :: "u32 \<Rightarrow> u8 option list \<Rightarrow> u8 option list"

record str =
  s_heap :: bool
  s_cap :: u32
  s_buf :: "u8 option list"
  s_len :: u32
  s_save :: u32

definition SHORT_STRING_LENGTH :: u32 where "SHORT_STRING_LENGTH = 20"
definition npos :: u32 where "npos = - 1"

definition str_new :: str where
  "str_new = \<lparr>s_heap = False, s_cap = 0, s_buf = replicate 20 None, s_len = 0, s_save = 0\<rparr>"

definition str_capacity :: "str \<Rightarrow> u32" where
  "str_capacity s = (if s_heap s then s_cap s else SHORT_STRING_LENGTH)"

definition str_clear :: "str \<Rightarrow> str" where
  "str_clear s = s\<lparr>s_len := 0, s_save := 0\<rparr>"

definition str_empty :: "str \<Rightarrow> bool" where
  "str_empty s \<longleftrightarrow> s_len s = 0"

subsection \<open>Bytes of a block\<close>

definition byte_read :: "u32 \<Rightarrow> u8 option list \<Rightarrow> u8 option" where
  "byte_read i buf = (if unat i < length buf then buf ! unat i else None)"

definition byte_write :: "u32 \<Rightarrow> u8 \<Rightarrow> u8 option list \<Rightarrow> u8 option list option" where
  "byte_write i c buf = (if unat i < length buf then Some (buf[unat i := Some c]) else None)"

text \<open>A block of \<open>n\<close> bytes that starts with the given ones.\<close>

definition resized :: "nat \<Rightarrow> u8 option list \<Rightarrow> u8 option list" where
  "resized n buf = take n buf @ replicate (n - length buf) None"

text \<open>\<^verbatim>\<open>strlen\<close>, \<^verbatim>\<open>strcpy\<close> and \<^verbatim>\<open>strncpy\<close>; the copy does not include the terminating 0.\<close>

fun c_strlen :: "u8 option list \<Rightarrow> nat option" where
  "c_strlen [] = None"
| "c_strlen (None # cs) = None"
| "c_strlen (Some c # cs) = (if c = 0 then Some 0 else map_option Suc (c_strlen cs))"

definition c_strncpy :: "u8 option list \<Rightarrow> u8 option list \<Rightarrow> nat \<Rightarrow> u8 option list option" where
  "c_strncpy dest src n =
     (if n \<le> length dest \<and> n \<le> length src then Some (take n src @ drop n dest) else None)"

definition c_strcpy :: "u8 option list \<Rightarrow> u8 option list \<Rightarrow> u8 option list option" where
  "c_strcpy dest src = do { n \<leftarrow> c_strlen src; c_strncpy dest src n }"

subsection \<open>Element access and capacity\<close>

text \<open>\<^verbatim>\<open>at\<close> of a constant string; the index is an \<^verbatim>\<open>int\<close>.\<close>

definition str_get :: "str \<Rightarrow> u32 \<Rightarrow> u8 option" where
  "str_get s i = (if 0 \<le> sint i \<and> i < s_len s then byte_read i (s_buf s) else None)"

definition str_copy :: "u8 option list \<Rightarrow> u32 \<Rightarrow> u32 \<Rightarrow> str \<Rightarrow> (u32 \<times> u8 option list) option" where
  "str_copy dest n pos s =
     (if s_len s \<le> pos then Some (0, dest)
      else let limit = min n (s_len s - pos) in
        map_option (Pair limit)
          (for_loop 0 limit (\<lambda>i dest. do { c \<leftarrow> str_get s (pos + i); byte_write i c dest }) dest))"

partial_function (option) grow_loop ::
  "str_heap \<Rightarrow> u32 \<Rightarrow> u32 \<Rightarrow> u8 option list \<Rightarrow> (u32 \<times> u8 option list) option" where
  "grow_loop alloc n cap buf =
     (if cap < n
      then let cap = cap * 2 in
           if h_serves alloc cap
           then grow_loop alloc n cap (resized (unat cap) (h_moved alloc cap buf)) else None
      else Some (cap, buf))"

definition str_reserve :: "str_heap \<Rightarrow> u32 \<Rightarrow> str \<Rightarrow> str option" where
  "str_reserve alloc n s =
     (if n \<le> str_capacity s then Some s
      else do {
        s \<leftarrow> (if s_heap s then Some s
              else let new_cap = 2 * SHORT_STRING_LENGTH in
                   if h_serves alloc new_cap
                   then do {
                     (_, tmp) \<leftarrow> str_copy (replicate (unat new_cap) None) new_cap 0 s;
                     Some (s\<lparr>s_heap := True, s_cap := new_cap, s_buf := tmp\<rparr>) }
                   else None);
        (cap, buf) \<leftarrow> grow_loop alloc n (s_cap s) (s_buf s);
        Some (s\<lparr>s_cap := cap, s_buf := buf\<rparr>) })"

definition append_nullbyte :: "str_heap \<Rightarrow> str \<Rightarrow> str option" where
  "append_nullbyte alloc s = do {
     s \<leftarrow> str_reserve alloc (s_len s + 1) s;
     buf \<leftarrow> byte_write (s_len s) 0 (s_buf s);
     Some (s\<lparr>s_buf := buf\<rparr>) }"

text \<open>\<^verbatim>\<open>at\<close> of a string that may be changed: its checks, and the place it refers to is then
  read or written.\<close>

definition str_at :: "str_heap \<Rightarrow> u32 \<Rightarrow> str \<Rightarrow> str option" where
  "str_at alloc i s =
     (if 0 \<le> sint i \<and> i \<le> s_len s
      then if i = s_len s then append_nullbyte alloc s else Some s
      else None)"

definition str_append1 :: "str_heap \<Rightarrow> u8 \<Rightarrow> str \<Rightarrow> str option" where
  "str_append1 alloc c s = do {
     s' \<leftarrow> str_at alloc (s_len s) (s\<lparr>s_len := s_len s + 1\<rparr>);
     buf \<leftarrow> byte_write (s_len s) c (s_buf s');
     Some (s'\<lparr>s_buf := buf\<rparr>) }"

definition append_char :: "str_heap \<Rightarrow> u8 \<Rightarrow> str \<Rightarrow> str option" where
  "append_char alloc c s = do { s \<leftarrow> str_reserve alloc (s_len s + 1) s; str_append1 alloc c s }"

definition str_append :: "str_heap \<Rightarrow> str \<Rightarrow> str \<Rightarrow> str option" where
  "str_append alloc t s = do {
     s \<leftarrow> str_reserve alloc (s_len s + s_len t) s;
     for_loop 0 (s_len t) (\<lambda>i s. do { c \<leftarrow> str_get t i; str_append1 alloc c s }) s }"

definition str_resize :: "str_heap \<Rightarrow> u32 \<Rightarrow> u8 \<Rightarrow> str \<Rightarrow> str option" where
  "str_resize alloc n c s =
     (if n \<le> s_len s then Some (s\<lparr>s_len := n\<rparr>)
      else do {
        s \<leftarrow> str_reserve alloc n s;
        for_loop (s_len s) n (\<lambda>_. append_char alloc c) s })"

definition shrink_to_fit :: "str_heap \<Rightarrow> str \<Rightarrow> str option" where
  "shrink_to_fit alloc s =
     (if \<not> s_heap s then Some s
      else if s_len s \<le> SHORT_STRING_LENGTH
      then do {
        short \<leftarrow> c_strcpy (replicate (unat SHORT_STRING_LENGTH) None) (s_buf s);
        Some (s\<lparr>s_heap := False, s_buf := short\<rparr>) }
      else if h_serves alloc (s_len s)
      then Some (s\<lparr>s_cap := s_len s, s_buf := resized (unat (s_len s)) (h_moved alloc (s_len s) (s_buf s))\<rparr>)
      else None)"

text \<open>The constructors and the assignment; the characters of a C string without its 0.\<close>

fun str_from_loop :: "str_heap \<Rightarrow> u8 list \<Rightarrow> str \<Rightarrow> str option" where
  "str_from_loop alloc [] s = Some s"
| "str_from_loop alloc (c # cs) s = Option.bind (append_char alloc c s) (str_from_loop alloc cs)"

definition str_from :: "str_heap \<Rightarrow> u8 list \<Rightarrow> str option" where
  "str_from alloc cs = str_from_loop alloc cs str_new"

definition str_dup :: "str_heap \<Rightarrow> str \<Rightarrow> str option" where
  "str_dup alloc t = str_append alloc t str_new"

definition str_assign :: "str_heap \<Rightarrow> str \<Rightarrow> str \<Rightarrow> str option" where
  "str_assign alloc t s = map_option (\<lambda>s. s\<lparr>s_save := 0\<rparr>) (str_append alloc t (str_clear s))"

definition c_str :: "str_heap \<Rightarrow> str \<Rightarrow> (u8 option list \<times> str) option" where
  "c_str alloc s = map_option (\<lambda>s. (s_buf s, s)) (append_nullbyte alloc s)"

subsection \<open>Editing\<close>

definition substr :: "str_heap \<Rightarrow> u32 \<Rightarrow> u32 \<Rightarrow> str \<Rightarrow> str option" where
  "substr alloc pos n s =
     (if pos = 0 \<and> s_len s \<le> n then str_dup alloc s
      else if s_len s \<le> pos then Some str_new
      else let limit = (if pos + n < pos then s_len s else min (pos + n) (s_len s)) in
        for_loop pos limit (\<lambda>i new. do { c \<leftarrow> str_get s i; append_char alloc c new }) str_new)"

definition insert_char :: "str_heap \<Rightarrow> u32 \<Rightarrow> u8 \<Rightarrow> str \<Rightarrow> str option" where
  "insert_char alloc pos c s =
     (if s_len s < pos then Some s
      else do {
        end \<leftarrow> substr alloc pos npos s;
        s \<leftarrow> str_resize alloc pos 32 s;
        s \<leftarrow> append_char alloc c s;
        str_append alloc end s })"

definition str_insert :: "str_heap \<Rightarrow> u32 \<Rightarrow> str \<Rightarrow> str \<Rightarrow> str option" where
  "str_insert alloc pos t s =
     (if s_len s < pos then Some s
      else do {
        end \<leftarrow> substr alloc pos npos s;
        s \<leftarrow> str_resize alloc pos 32 s;
        s \<leftarrow> str_append alloc t s;
        str_append alloc end s })"

definition str_erase :: "str_heap \<Rightarrow> u32 \<Rightarrow> u32 \<Rightarrow> str \<Rightarrow> str option" where
  "str_erase alloc pos n s =
     (if s_len s \<le> pos then Some s
      else if n = npos then do { t \<leftarrow> substr alloc 0 pos s; str_assign alloc t s }
      else if pos + n < pos then Some s
      else do {
        new_str \<leftarrow> substr alloc 0 pos s;
        rest \<leftarrow> substr alloc (pos + n) npos s;
        new_str \<leftarrow> str_append alloc rest new_str;
        str_assign alloc new_str s })"

definition pop_back :: "str_heap \<Rightarrow> str \<Rightarrow> str option" where
  "pop_back alloc s = (if 0 < s_len s then str_resize alloc (s_len s - 1) 32 s else Some s)"

text \<open>\<^verbatim>\<open>without_lf\<close> and \<^verbatim>\<open>remove_lf\<close>, which look at the character before the end.\<close>

definition remove_lf :: "str_heap \<Rightarrow> str \<Rightarrow> str option" where
  "remove_lf alloc s = do {
     s \<leftarrow> str_at alloc (s_len s - 1) s;
     c \<leftarrow> byte_read (s_len s - 1) (s_buf s);
     if c = 10 then pop_back alloc s else Some s }"

definition without_lf :: "str_heap \<Rightarrow> str \<Rightarrow> str option" where
  "without_lf alloc s = do { new_str \<leftarrow> str_dup alloc s; remove_lf alloc new_str }"

subsection \<open>The characters of a string\<close>

text \<open>\<open>str_rep s xs\<close>: the string holds the characters \<open>xs\<close>. The index of \<^verbatim>\<open>at\<close> is an
  \<^verbatim>\<open>int\<close>, so a string is shorter than \<open>2 ^ 31\<close>. A block on the heap starts with 40 bytes and
  only grows; \<^verbatim>\<open>shrink_to_fit\<close>, which the system never calls, is the exception.\<close>

definition str_rep :: "str \<Rightarrow> u8 list \<Rightarrow> bool" where
  "str_rep s xs \<longleftrightarrow> length xs < 2147483648 \<and> s_len s = of_nat (length xs) \<and>
     length (s_buf s) = unat (str_capacity s) \<and> length xs \<le> length (s_buf s) \<and>
     take (length xs) (s_buf s) = map Some xs \<and> (s_heap s \<longrightarrow> 40 \<le> s_cap s)"

text \<open>The heap serves every request that a string of \<open>n\<close> characters makes, and \<^verbatim>\<open>realloc\<close>
  keeps the bytes of a block that such a string outgrows. With \<open>n \<le> 40\<close> there is no such block
  and the second part says nothing.\<close>

definition mem_ok :: "str_heap \<Rightarrow> nat \<Rightarrow> bool" where
  "mem_ok alloc n \<longleftrightarrow> (\<forall>m. unat m \<le> max 40 (2 * n) \<longrightarrow> h_serves alloc m) \<and>
     (\<forall>m buf. 80 \<le> unat m \<and> unat m < 2 * n \<longrightarrow> h_moved alloc m buf = buf)"

lemma mem_ok_mono: "mem_ok alloc n \<Longrightarrow> m \<le> n \<Longrightarrow> mem_ok alloc m"
  by (auto simp: mem_ok_def)

lemma str_rep_len: "str_rep s xs \<Longrightarrow> unat (s_len s) = length xs"
  and str_rep_lt: "str_rep s xs \<Longrightarrow> length xs < 2147483648"
  and str_rep_of_nat: "str_rep s xs \<Longrightarrow> s_len s = of_nat (length xs)"
  by (auto simp: str_rep_def unat_of_nat_small)

lemma str_rep_unique: "str_rep s xs \<Longrightarrow> str_rep s ys \<Longrightarrow> xs = ys"
  by (metis str_rep_def str_rep_len inj_map_eq_map inj_Some)

lemma str_new_rep: "str_rep str_new []"
  by (simp add: str_rep_def str_new_def str_capacity_def SHORT_STRING_LENGTH_def)

lemma str_rep_save [simp]: "str_rep (s\<lparr>s_save := v\<rparr>) xs \<longleftrightarrow> str_rep s xs"
  by (simp add: str_rep_def str_capacity_def)

lemma str_capacity_save [simp]: "str_capacity (s\<lparr>s_save := v\<rparr>) = str_capacity s"
  and str_capacity_len [simp]: "str_capacity (s\<lparr>s_len := n\<rparr>) = str_capacity s"
  and str_capacity_buf [simp]: "str_capacity (s\<lparr>s_buf := b\<rparr>) = str_capacity s"
  by (simp_all add: str_capacity_def)

lemma str_clear_rep: "str_rep s xs \<Longrightarrow> str_rep (str_clear s) []"
  by (simp add: str_rep_def str_clear_def str_capacity_def)

lemma str_rep_take:
  "str_rep s xs \<Longrightarrow> n \<le> length xs \<Longrightarrow> str_rep (s\<lparr>s_len := of_nat n\<rparr>) (take n xs)"
  by (auto simp: str_rep_def str_capacity_def min_def take_map [symmetric])
    (metis min.absorb1 take_take)+

lemma sint_of_nat_nonneg: "i < 2147483648 \<Longrightarrow> 0 \<le> sint (of_nat i :: u32)"
  by (simp add: sint_ge_0_iff unat_of_nat_small)

lemma str_rep_byte:
  assumes "str_rep s xs" "i < length xs"
  shows "s_buf s ! i = Some (xs ! i)" "i < length (s_buf s)"
proof -
  have "take (length xs) (s_buf s) ! i = map Some xs ! i" using assms(1) by (simp add: str_rep_def)
  then show "s_buf s ! i = Some (xs ! i)" using assms(2) by simp
  show "i < length (s_buf s)" using assms by (simp add: str_rep_def)
qed

lemma str_get_rep:
  assumes "str_rep s xs" "i < length xs"
  shows "str_get s (of_nat i) = Some (xs ! i)"
proof -
  have i: "i < 2147483648" using assms str_rep_lt by fastforce
  then have "unat (of_nat i :: u32) = i" by (simp add: unat_of_nat_small)
  with i assms show ?thesis
    by (simp add: str_get_def byte_read_def sint_of_nat_nonneg str_rep_byte word_less_nat_alt str_rep_len)
qed

lemma str_get_none: "str_rep s xs \<Longrightarrow> length xs \<le> unat i \<Longrightarrow> str_get s i = None"
  by (simp add: str_get_def word_less_nat_alt str_rep_len)

subsubsection \<open>Copying and growing\<close>

text \<open>\<open>prefix_is buf xs\<close>: the block starts with the characters \<open>xs\<close>.\<close>

lemma take_update_Suc:
  "i < length buf \<Longrightarrow> take i buf = map Some (take i xs) \<Longrightarrow> i < length xs \<Longrightarrow>
     take (Suc i) (buf[i := Some (xs ! i)]) = map Some (take (Suc i) xs)"
  by (simp add: take_Suc_conv_app_nth)

lemma str_copy_rep:
  assumes "str_rep s xs" "length xs \<le> length dest" "length dest < 4294967296" "xs \<noteq> []"
    and "unat n = length dest"
  shows "\<exists>dest'. str_copy dest n 0 s = Some (s_len s, dest') \<and> length dest' = length dest \<and>
    take (length xs) dest' = map Some xs"
proof -
  have lim: "min n (s_len s - 0) = s_len s"
    using assms str_rep_len [OF assms(1)] by (simp add: min_def word_le_nat_alt word_unat_eq_iff)
  let ?body = "\<lambda>i dest. do { c \<leftarrow> str_get s (0 + i); byte_write i c dest }"
  let ?I = "\<lambda>k d. length d = length dest \<and> take k d = map Some (take k xs)"
  have "\<exists>d. for_loop 0 (s_len s) ?body dest = Some d \<and> ?I (unat (s_len s)) d"
  proof (rule for_loop_rule [where I = ?I])
    fix k d assume "k < unat (s_len s)" and I: "?I k d"
    then have k: "k < length xs" "unat (of_nat k :: u32) = k"
      using str_rep_len [OF assms(1)] str_rep_lt [OF assms(1)] by (simp_all add: unat_of_nat_small)
    with I assms(1,2) show "\<exists>d'. ?body (of_nat k) d = Some d' \<and> ?I (Suc k) d'"
      by (auto simp: str_get_rep byte_write_def take_update_Suc)
  qed simp_all
  with lim assms(4) str_rep_len [OF assms(1)] show ?thesis
    by (auto simp: str_copy_def word_le_nat_alt)
qed

lemma str_copy_empty: "str_rep s [] \<Longrightarrow> str_copy dest n 0 s = Some (0, dest)"
  by (simp add: str_copy_def str_rep_def)

lemma take_resized: "n \<le> length buf \<Longrightarrow> n \<le> m \<Longrightarrow> take n (resized m buf) = take n buf"
  by (simp add: resized_def min_def)

lemma length_resized [simp]: "length (resized m buf) = m"
  by (simp add: resized_def)

lemma grow_loop_ok:
  assumes "unat n \<le> 2147483648" "40 \<le> cap" "length buf = unat cap"
    and "\<And>m. unat m < 2 * unat n \<Longrightarrow> h_serves alloc m"
    and "\<And>m buf. 80 \<le> unat m \<Longrightarrow> unat m < 2 * unat n \<Longrightarrow> h_moved alloc m buf = buf"
  shows "\<exists>cap' buf'. grow_loop alloc n cap buf = Some (cap', buf') \<and> cap \<le> cap' \<and> n \<le> cap' \<and>
    length buf' = unat cap' \<and> take (unat cap) buf' = buf"
  using assms
proof (induction "unat n - unat cap" arbitrary: cap buf rule: less_induct)
  case less
  show ?case
  proof (cases "cap < n")
    case True
    then have cap: "unat cap < unat n" by (simp add: word_less_nat_alt)
    then have dbl: "unat (cap * 2) = 2 * unat cap"
      using less.prems(1) by (simp add: unat_word_ariths take_bit_nat_eq_self_iff)
    have pos: "40 \<le> unat cap" using less.prems(2) by (simp add: word_le_nat_alt)
    have "\<exists>cap' buf'. grow_loop alloc n (cap * 2) (resized (unat (cap * 2)) buf) = Some (cap', buf') \<and>
        cap * 2 \<le> cap' \<and> n \<le> cap' \<and> length buf' = unat cap' \<and>
        take (unat (cap * 2)) buf' = resized (unat (cap * 2)) buf"
      using less.prems cap dbl pos by (intro less.hyps) (auto simp: word_less_nat_alt word_le_nat_alt)
    then obtain cap' buf' where IH: "grow_loop alloc n (cap * 2) (resized (unat (cap * 2)) buf) = Some (cap', buf')"
      "cap * 2 \<le> cap'" "n \<le> cap'" "length buf' = unat cap'"
      "take (unat (cap * 2)) buf' = resized (unat (cap * 2)) buf" by blast
    have al: "h_serves alloc (cap * 2)" using less.prems(4) cap dbl by simp
    have keep: "h_moved alloc (cap * 2) buf = buf" using less.prems(5) [of "cap * 2"] cap dbl pos by simp
    have "take (unat cap) buf' = take (unat cap) (take (unat (cap * 2)) buf')"
      using dbl by (simp add: min_def)
    also have "\<dots> = buf" using IH(5) dbl less.prems(3) by (simp add: take_resized)
    finally have "take (unat cap) buf' = buf" .
    moreover have "cap \<le> cap'" using IH(2) dbl by (simp add: word_le_nat_alt)
    ultimately show ?thesis
      using IH True al keep by (subst grow_loop.simps) (auto simp: Let_def)
  next
    case False
    with less.prems show ?thesis by (subst grow_loop.simps) auto
  qed
qed

text \<open>\<^verbatim>\<open>reserve\<close> gives the capacity asked for and keeps the characters.\<close>

lemma reserve_rep:
  assumes "str_rep s xs" "unat n \<le> 2147483648" "mem_ok alloc (unat n)"
  shows "\<exists>s'. str_reserve alloc n s = Some s' \<and> str_rep s' xs \<and> unat n \<le> unat (str_capacity s') \<and>
    s_save s' = s_save s \<and> s_len s' = s_len s"
proof (cases "n \<le> str_capacity s")
  case True
  with assms show ?thesis by (simp add: str_reserve_def word_le_nat_alt)
next
  case False
  have al: "h_serves alloc m" if "unat m < 2 * unat n \<or> unat m \<le> 40" for m
    using assms(3) that by (auto simp: mem_ok_def)
  have keep: "h_moved alloc m b = b" if "80 \<le> unat m" "unat m < 2 * unat n" for m b
    using assms(3) that by (auto simp: mem_ok_def)
  define s1 where "s1 = (if s_heap s then Some s else do {
      (_, tmp) \<leftarrow> str_copy (replicate 40 None) 40 0 s;
      Some (s\<lparr>s_heap := True, s_cap := 40, s_buf := tmp\<rparr>) })"
  have "\<exists>t. s1 = Some t \<and> str_rep t xs \<and> s_heap t \<and> s_save t = s_save s \<and> s_len t = s_len s"
  proof (cases "s_heap s")
    case False
    then have small: "length xs \<le> 20" "length (s_buf s) = 20"
      using assms(1) by (auto simp: str_rep_def str_capacity_def SHORT_STRING_LENGTH_def)
    have "\<exists>l tmp. str_copy (replicate 40 None) 40 0 s = Some (l, tmp) \<and> length tmp = 40 \<and>
        take (length xs) tmp = map Some xs"
    proof (cases "xs = []")
      case True
      with assms(1) show ?thesis by (simp add: str_copy_empty)
    next
      case False
      with assms(1) small(1) show ?thesis
        using str_copy_rep [of s xs "replicate 40 None" 40] by auto
    qed
    then obtain l tmp where "str_copy (replicate 40 None) 40 0 s = Some (l, tmp)" "length tmp = 40"
      "take (length xs) tmp = map Some xs" by blast
    with False assms(1) small(1) show ?thesis by (simp add: s1_def str_rep_def str_capacity_def)
  qed (use assms(1) s1_def in simp)
  then obtain t where t: "s1 = Some t" "str_rep t xs" "s_heap t" "s_save t = s_save s" "s_len t = s_len s"
    by blast
  have buf: "length (s_buf t) = unat (s_cap t)" "40 \<le> s_cap t"
    using t(2,3) by (auto simp: str_rep_def str_capacity_def)
  then obtain cap' buf' where g: "grow_loop alloc n (s_cap t) (s_buf t) = Some (cap', buf')"
    "s_cap t \<le> cap'" "n \<le> cap'" "length buf' = unat cap'" "take (unat (s_cap t)) buf' = s_buf t"
    using grow_loop_ok [of n "s_cap t" "s_buf t" alloc] assms(2) al keep
    by (auto simp: word_less_nat_alt)
  have "take (length xs) buf' = take (length xs) (take (unat (s_cap t)) buf')"
    using t(2) buf(1) by (simp add: str_rep_def min_def)
  then have "str_rep (t\<lparr>s_cap := cap', s_buf := buf'\<rparr>) xs"
    using t(2,3) g(2-5) buf by (auto simp: str_rep_def str_capacity_def word_le_nat_alt word_less_nat_alt)
  moreover have "str_reserve alloc n s = Some (t\<lparr>s_cap := cap', s_buf := buf'\<rparr>)"
    using False t(1) g(1) al
    by (auto simp: str_reserve_def s1_def Let_def SHORT_STRING_LENGTH_def split: if_splits Option.bind_splits)
  ultimately show ?thesis
    using t(3-5) g(3) by (simp add: str_capacity_def word_le_nat_alt)
qed

subsubsection \<open>Appending\<close>

text \<open>\<open>yields r xs v\<close>: the operation succeeds with a string of the characters \<open>xs\<close> and with
  \<^verbatim>\<open>save_index\<close> \<open>v\<close>.\<close>

definition yields :: "str option \<Rightarrow> u8 list \<Rightarrow> u32 \<Rightarrow> bool" where
  "yields r xs v \<longleftrightarrow> (\<exists>s. r = Some s \<and> str_rep s xs \<and> s_save s = v)"

lemma yields_Some [simp]: "yields (Some s) xs v \<longleftrightarrow> str_rep s xs \<and> s_save s = v"
  by (simp add: yields_def)

lemma yields_bind:
  "yields m xs v \<Longrightarrow> (\<And>s. str_rep s xs \<Longrightarrow> s_save s = v \<Longrightarrow> yields (f s) ys w) \<Longrightarrow>
     yields (Option.bind m f) ys w"
  by (auto simp: yields_def)

lemma yieldsE:
  assumes "yields m xs v"
  obtains s where "m = Some s" "str_rep s xs" "s_save s = v"
  using assms by (auto simp: yields_def)

lemma str_append1_rep:
  assumes "str_rep s xs" "length xs < unat (str_capacity s)" "length xs < 2147483647"
  shows "\<exists>s'. str_append1 alloc c s = Some s' \<and> str_rep s' (xs @ [c]) \<and> s_save s' = s_save s \<and>
    str_capacity s' = str_capacity s"
proof -
  have len: "unat (s_len s) = length xs" "s_len s = of_nat (length xs)"
    using assms(1) by (simp_all add: str_rep_len str_rep_of_nat [symmetric])
  have len1: "unat (s_len s + 1) = Suc (length xs)"
    using len(1) assms(3) by (simp add: unat_plus_small)
  have "s_len s \<noteq> s_len s + 1" "s_len s \<le> s_len s + 1" "0 \<le> sint (s_len s)"
    using len len1 assms(3) by (auto simp: word_le_nat_alt sint_of_nat_nonneg)
  then have at: "str_at alloc (s_len s) (s\<lparr>s_len := s_len s + 1\<rparr>) = Some (s\<lparr>s_len := s_len s + 1\<rparr>)"
    by (simp add: str_at_def)
  have buf: "length xs < length (s_buf s)" using assms(1,2) by (simp add: str_rep_def)
  have tk: "take (length xs) (s_buf s) = map Some (take (length xs) (xs @ [c]))"
    using assms(1) by (simp add: str_rep_def)
  have "take (Suc (length xs)) ((s_buf s)[length xs := Some c]) = map Some (xs @ [c])"
    using take_update_Suc [OF buf tk] by simp
  then have "str_rep (s\<lparr>s_len := s_len s + 1, s_buf := (s_buf s)[length xs := Some c]\<rparr>) (xs @ [c])"
    using assms(1,3) buf by (simp add: str_rep_def str_capacity_def)
  then show ?thesis
    using at buf len(1) by (simp add: str_append1_def byte_write_def)
qed

lemma append_char_rep:
  assumes "str_rep s xs" "length xs < 2147483647" "mem_ok alloc (Suc (length xs))"
  shows "yields (append_char alloc c s) (xs @ [c]) (s_save s)"
proof -
  have n: "unat (s_len s + 1) = Suc (length xs)"
    using assms(1,2) by (simp add: str_rep_len unat_plus_small)
  obtain s1 where s1: "str_reserve alloc (s_len s + 1) s = Some s1" "str_rep s1 xs"
    "Suc (length xs) \<le> unat (str_capacity s1)" "s_save s1 = s_save s"
    using reserve_rep [of s xs "s_len s + 1" alloc] assms n by auto
  then show ?thesis
    using str_append1_rep [of s1 xs alloc c] assms(2) by (auto simp: append_char_def yields_def)
qed

lemma str_append_rep:
  assumes "str_rep s xs" "str_rep t ys" "length xs + length ys < 2147483648"
    and "mem_ok alloc (length xs + length ys)"
  shows "yields (str_append alloc t s) (xs @ ys) (s_save s)"
proof -
  have n: "unat (s_len s + s_len t) = length xs + length ys"
    using assms(1-3) by (simp add: str_rep_len unat_plus_small)
  obtain s1 where s1: "str_reserve alloc (s_len s + s_len t) s = Some s1" "str_rep s1 xs"
    "length xs + length ys \<le> unat (str_capacity s1)" "s_save s1 = s_save s"
    using reserve_rep [of s xs "s_len s + s_len t" alloc] assms n by auto
  let ?body = "\<lambda>i s. do { c \<leftarrow> str_get t i; str_append1 alloc c s }"
  let ?I = "\<lambda>k u. str_rep u (xs @ take k ys) \<and> s_save u = s_save s \<and>
    length xs + length ys \<le> unat (str_capacity u)"
  have "\<exists>u. for_loop 0 (s_len t) ?body s1 = Some u \<and> ?I (unat (s_len t)) u"
  proof (rule for_loop_rule [where I = ?I])
    fix k u assume "k < unat (s_len t)" and I: "?I k u"
    then have k: "k < length ys" using assms(2) by (simp add: str_rep_len)
    then have "str_get t (of_nat k) = Some (ys ! k)" using assms(2) by (rule str_get_rep [rotated])
    moreover obtain u' where "str_append1 alloc (ys ! k) u = Some u'" "str_rep u' ((xs @ take k ys) @ [ys ! k])"
      "s_save u' = s_save u" "str_capacity u' = str_capacity u"
      using str_append1_rep [of u "xs @ take k ys" alloc "ys ! k"] I k assms(3) by auto
    ultimately show "\<exists>u'. ?body (of_nat k) u = Some u' \<and> ?I (Suc k) u'"
      using I k by (simp add: take_Suc_conv_app_nth)
  qed (use s1 in auto)
  with s1 assms(2) show ?thesis by (auto simp: str_append_def yields_def str_rep_len)
qed

lemma str_dup_rep: "str_rep t ys \<Longrightarrow> mem_ok alloc (length ys) \<Longrightarrow> yields (str_dup alloc t) ys 0"
  using str_append_rep [OF str_new_rep, of t ys alloc] str_rep_lt
  by (simp add: str_dup_def str_new_def)

lemma str_assign_rep:
  assumes "str_rep s xs" "str_rep t ys" "mem_ok alloc (length ys)"
  shows "yields (str_assign alloc t s) ys 0"
proof -
  have "yields (str_append alloc t (str_clear s)) ([] @ ys) (s_save (str_clear s))"
    using assms str_rep_lt by (intro str_append_rep [OF str_clear_rep]) auto
  then show ?thesis by (auto simp: str_assign_def yields_def)
qed

lemma str_from_loop_rep:
  "str_rep s xs \<Longrightarrow> length xs + length cs < 2147483648 \<Longrightarrow> mem_ok alloc (length xs + length cs) \<Longrightarrow>
     yields (str_from_loop alloc cs s) (xs @ cs) (s_save s)"
proof (induction cs arbitrary: s xs)
  case (Cons c cs)
  obtain s1 where s1: "append_char alloc c s = Some s1" "str_rep s1 (xs @ [c])" "s_save s1 = s_save s"
    using append_char_rep [of s xs alloc c] Cons.prems mem_ok_mono [of alloc _ "Suc (length xs)"]
    by (auto simp: yields_def)
  then show ?case using Cons.IH [OF s1(2)] Cons.prems by simp
qed simp

lemma str_from_rep:
  "length cs < 2147483648 \<Longrightarrow> mem_ok alloc (length cs) \<Longrightarrow> yields (str_from alloc cs) cs 0"
  using str_from_loop_rep [OF str_new_rep, of cs alloc] by (simp add: str_from_def str_new_def)

lemma str_resize_rep:
  assumes "str_rep s xs" "unat n < 2147483648" "mem_ok alloc (unat n)"
  shows "yields (str_resize alloc n c s) (take (unat n) xs @ replicate (unat n - length xs) c) (s_save s)"
proof (cases "n \<le> s_len s")
  case True
  then have "unat n \<le> length xs" using assms(1) by (simp add: str_rep_len word_le_nat_alt)
  with True assms(1) show ?thesis
    using str_rep_take [of s xs "unat n"] by (simp add: str_resize_def)
next
  case False
  then have less: "length xs < unat n" using assms(1) by (simp add: str_rep_len word_le_nat_alt)
  obtain s1 where s1: "str_reserve alloc n s = Some s1" "str_rep s1 xs" "s_save s1 = s_save s" "s_len s1 = s_len s"
    using reserve_rep [of s xs n alloc] assms by auto
  let ?I = "\<lambda>k u. str_rep u (xs @ replicate (k - length xs) c) \<and> s_save u = s_save s"
  have "\<exists>u. for_loop (s_len s1) n (\<lambda>_. append_char alloc c) s1 = Some u \<and> ?I (unat n) u"
  proof (rule for_loop_rule [where I = ?I])
    fix k u assume k: "unat (s_len s1) \<le> k" "k < unat n" and I: "?I k u"
    have "length xs \<le> k" using k s1(2) by (simp add: str_rep_len)
    then show "\<exists>u'. append_char alloc c u = Some u' \<and> ?I (Suc k) u'"
      using append_char_rep [of u "xs @ replicate (k - length xs) c" alloc c] I k(2) assms(2)
        mem_ok_mono [OF assms(3), of "Suc k"]
      by (auto simp: yields_def Suc_diff_le replicate_append_same)
  qed (use s1 less assms(1) in \<open>auto simp: str_rep_len\<close>)
  with s1 False less show ?thesis by (auto simp: str_resize_def yields_def)
qed

subsubsection \<open>Editing\<close>

lemma substr_limit:
  assumes "pos < (len :: u32)"
  shows "unat (if pos + n < pos then len else min (pos + n) len) = min (unat pos + unat n) (unat len)"
proof (cases "unat pos + unat n < 4294967296")
  case True
  then have "unat (pos + n) = unat pos + unat n" by (simp add: unat_plus_small)
  then show ?thesis by (simp add: word_less_nat_alt word_le_nat_alt min_def)
next
  case False
  then have "unat (pos + n) = unat pos + unat n - 4294967296"
    using unat_lt2p_32 [of pos] unat_lt2p_32 [of n]
    by (simp add: unat_word_ariths take_bit_eq_mod mod_if)
  moreover have "\<dots> < unat pos" using unat_lt2p_32 [of n] False by simp
  ultimately show ?thesis using unat_lt2p_32 [of len] False by (simp add: word_less_nat_alt)
qed

lemma substr_rep:
  assumes "str_rep s xs" "mem_ok alloc (length xs)"
  shows "yields (substr alloc pos n s) (take (unat n) (drop (unat pos) xs)) 0"
proof -
  have len: "unat (s_len s) = length xs" "length xs < 2147483648"
    using assms(1) str_rep_len str_rep_lt by blast+
  consider "pos = 0 \<and> s_len s \<le> n" | "\<not> (pos = 0 \<and> s_len s \<le> n)" "s_len s \<le> pos"
    | "\<not> (pos = 0 \<and> s_len s \<le> n)" "pos < s_len s" by fastforce
  then show ?thesis
  proof cases
    case 1
    then show ?thesis using str_dup_rep [OF assms] len by (simp add: substr_def word_le_nat_alt)
  next
    case 2
    then have "length xs \<le> unat pos" using len by (simp add: word_le_nat_alt)
    with 2 show ?thesis using str_new_rep by (auto simp: substr_def str_new_def)
  next
    case 3
    define limit where "limit = (if pos + n < pos then s_len s else min (pos + n) (s_len s))"
    have lim: "unat limit = min (unat pos + unat n) (length xs)"
      using substr_limit [OF 3(2), of n] len(1) by (simp add: limit_def)
    have pos: "unat pos < length xs" using 3(2) len(1) by (simp add: word_less_nat_alt)
    let ?body = "\<lambda>i new. do { c \<leftarrow> str_get s i; append_char alloc c new }"
    let ?I = "\<lambda>k u. str_rep u (take (k - unat pos) (drop (unat pos) xs)) \<and> s_save u = 0"
    have "\<exists>u. for_loop pos limit ?body str_new = Some u \<and> ?I (unat limit) u"
    proof (rule for_loop_rule [where I = ?I])
      fix k u assume k: "unat pos \<le> k" "k < unat limit" and I: "?I k u"
      then have k': "k < length xs" using lim by simp
      have "yields (append_char alloc (xs ! k) u) (take (k - unat pos) (drop (unat pos) xs) @ [xs ! k]) (s_save u)"
        using I k k' len(2) assms(2) by (intro append_char_rep) (auto elim: mem_ok_mono simp: min_def)
      moreover have "take (k - unat pos) (drop (unat pos) xs) @ [xs ! k] = take (Suc k - unat pos) (drop (unat pos) xs)"
        using k(1) k' by (simp add: Suc_diff_le take_Suc_conv_app_nth)
      ultimately show "\<exists>u'. ?body (of_nat k) u = Some u' \<and> ?I (Suc k) u'"
        using str_get_rep [OF assms(1) k'] I by (auto simp: yields_def)
    qed (use str_new_rep pos lim in \<open>auto simp: str_new_def\<close>)
    moreover have "take (unat limit - unat pos) (drop (unat pos) xs) = take (unat n) (drop (unat pos) xs)"
      using lim pos by (auto simp: min_def)
    ultimately show ?thesis
      using 3 by (auto simp: substr_def limit_def [symmetric] Let_def yields_def)
  qed
qed

lemma unat_npos: "unat npos = 4294967295"
  by (simp add: npos_def unsigned_minus_1_eq_mask mask_eq_exp_minus_1)

lemma substr_from_rep:
  "str_rep s xs \<Longrightarrow> mem_ok alloc (length xs) \<Longrightarrow> yields (substr alloc pos npos s) (drop (unat pos) xs) 0"
  using substr_rep [of s xs alloc pos npos] str_rep_lt [of s xs] by (simp add: unat_npos)

lemma str_insert_rep:
  assumes "str_rep s xs" "str_rep t ys" "length xs + length ys < 2147483648"
    and "mem_ok alloc (length xs + length ys)"
  shows "yields (str_insert alloc pos t s)
    (if unat pos \<le> length xs then take (unat pos) xs @ ys @ drop (unat pos) xs else xs) (s_save s)"
proof (cases "s_len s < pos")
  case True
  with assms(1) show ?thesis by (simp add: str_insert_def word_less_nat_alt str_rep_len)
next
  case False
  then have pos: "unat pos \<le> length xs" using assms(1) by (simp add: word_less_nat_alt str_rep_len)
  have "mem_ok alloc (length xs)" using assms(4) by (rule mem_ok_mono) simp
  then obtain e where e: "substr alloc pos npos s = Some e" "str_rep e (drop (unat pos) xs)"
    using substr_from_rep [OF assms(1), of alloc pos] by (auto elim: yieldsE)
  have "mem_ok alloc (unat pos)" using assms(4) by (rule mem_ok_mono) (use pos in simp)
  then obtain s1 where s1: "str_resize alloc pos 32 s = Some s1" "str_rep s1 (take (unat pos) xs)"
    "s_save s1 = s_save s"
    using str_resize_rep [OF assms(1), of pos alloc 32] pos str_rep_lt [OF assms(1)] by (auto elim: yieldsE)
  obtain s2 where s2: "str_append alloc t s1 = Some s2" "str_rep s2 (take (unat pos) xs @ ys)"
    "s_save s2 = s_save s"
    using str_append_rep [OF s1(2) assms(2), of alloc] s1(3) assms(3) mem_ok_mono [OF assms(4)] pos
    by (auto elim: yieldsE)
  have "yields (str_append alloc e s2) ((take (unat pos) xs @ ys) @ drop (unat pos) xs) (s_save s2)"
    using s2(2) e(2) assms(3) mem_ok_mono [OF assms(4)] pos by (intro str_append_rep) auto
  with False pos e s1 s2 show ?thesis by (simp add: str_insert_def)
qed

lemma insert_char_rep:
  assumes "str_rep s xs" "unat pos \<le> length xs" "length xs < 2147483647" "mem_ok alloc (Suc (length xs))"
  shows "yields (insert_char alloc pos c s) (take (unat pos) xs @ c # drop (unat pos) xs) (s_save s)"
proof -
  have le: "\<not> s_len s < pos" using assms(1,2) by (simp add: word_less_nat_alt str_rep_len)
  have al: "mem_ok alloc (length xs)" using assms(4) by (rule mem_ok_mono) simp
  have "yields (substr alloc pos npos s) (drop (unat pos) xs) 0"
    using substr_rep [OF assms(1) al, of pos npos] assms(3) by (simp add: unat_npos)
  then obtain e where e: "substr alloc pos npos s = Some e" "str_rep e (drop (unat pos) xs)" by (rule yieldsE)
  have "yields (str_resize alloc pos 32 s) (take (unat pos) xs) (s_save s)"
    using str_resize_rep [OF assms(1), of pos alloc 32] mem_ok_mono [OF al assms(2)] assms(2,3) by simp
  then obtain s1 where s1: "str_resize alloc pos 32 s = Some s1" "str_rep s1 (take (unat pos) xs)" "s_save s1 = s_save s"
    by (rule yieldsE)
  have "yields (append_char alloc c s1) (take (unat pos) xs @ [c]) (s_save s)"
    using append_char_rep [OF s1(2), of alloc c] mem_ok_mono [OF assms(4)] assms(2,3) s1(3) by simp
  then obtain s2 where s2: "append_char alloc c s1 = Some s2" "str_rep s2 (take (unat pos) xs @ [c])" "s_save s2 = s_save s"
    by (rule yieldsE)
  have "yields (str_append alloc e s2) ((take (unat pos) xs @ [c]) @ drop (unat pos) xs) (s_save s)"
    using str_append_rep [OF s2(2) e(2), of alloc] assms(2,3,4) s2(3) by simp
  with e(1) s1(1) s2(1) le show ?thesis by (simp add: insert_char_def)
qed

lemma str_erase_rep:
  assumes "str_rep s xs" "mem_ok alloc (length xs)" "unat pos + unat n < 4294967296 \<or> n = npos"
  shows "\<exists>v. yields (str_erase alloc pos n s) (take (unat pos) xs @ drop (unat pos + unat n) xs) v"
proof -
  have first: "yields (substr alloc 0 pos s) (take (unat pos) xs) 0"
    using substr_rep [OF assms(1,2), of 0 pos] by simp
  then obtain f where f: "substr alloc 0 pos s = Some f" "str_rep f (take (unat pos) xs)"
    by (auto elim: yieldsE)
  consider "s_len s \<le> pos" | "pos < s_len s" "n = npos" | "pos < s_len s" "n \<noteq> npos" by fastforce
  then show ?thesis
  proof cases
    case 1
    with assms(1) show ?thesis by (auto simp: str_erase_def word_le_nat_alt str_rep_len)
  next
    case 2
    have "yields (str_assign alloc f s) (take (unat pos) xs) 0"
      using f(2) mem_ok_mono [OF assms(2)] by (intro str_assign_rep [OF assms(1)]) auto
    with 2 f show ?thesis
      using str_rep_lt [OF assms(1)] by (auto simp: str_erase_def unat_npos linorder_not_le [symmetric])
  next
    case 3
    then have sum: "unat (pos + n) = unat pos + unat n" using assms(3) by (simp add: unat_plus_small)
    obtain r where r: "substr alloc (pos + n) npos s = Some r" "str_rep r (drop (unat pos + unat n) xs)"
      using substr_from_rep [OF assms(1,2), of "pos + n"] sum by (auto elim: yieldsE)
    let ?ys = "take (unat pos) xs @ drop (unat pos + unat n) xs"
    have short: "length ?ys \<le> length xs" by simp
    obtain g where g: "str_append alloc r f = Some g" "str_rep g ?ys"
      using str_append_rep [OF f(2) r(2), of alloc] short mem_ok_mono [OF assms(2)] str_rep_lt [OF assms(1)]
      by (force elim: yieldsE)
    have "yields (str_assign alloc g s) ?ys 0"
      using g(2) mem_ok_mono [OF assms(2) short] by (rule str_assign_rep [OF assms(1)])
    with 3 f r g sum show ?thesis
      by (auto simp: str_erase_def word_le_nat_alt word_less_nat_alt)
  qed
qed

lemma pop_back_rep:
  assumes "str_rep s xs" "mem_ok alloc (length xs)"
  shows "yields (pop_back alloc s) (butlast xs) (s_save s)"
proof (cases "xs = []")
  case True
  with assms(1) show ?thesis by (simp add: pop_back_def str_rep_of_nat)
next
  case False
  then have pos: "0 < s_len s" "1 \<le> s_len s"
    using str_rep_len [OF assms(1)] by (auto simp: word_less_nat_alt word_le_nat_alt Suc_le_eq)
  then have "unat (s_len s - 1) = length xs - 1"
    using str_rep_len [OF assms(1)] by (simp add: unat_minus_le)
  with pos show ?thesis
    using str_resize_rep [OF assms(1), of "s_len s - 1" alloc 32] str_rep_lt [OF assms(1)]
      mem_ok_mono [OF assms(2), of "length xs - 1"] False
    by (simp add: pop_back_def butlast_conv_take)
qed

lemma remove_lf_rep:
  assumes "str_rep s xs" "mem_ok alloc (length xs)" "xs \<noteq> []"
  shows "yields (remove_lf alloc s) (if last xs = 10 then butlast xs else xs) (s_save s)"
proof -
  have pos: "1 \<le> s_len s"
    using str_rep_len [OF assms(1)] assms(3) by (simp add: word_le_nat_alt Suc_le_eq)
  then have n: "unat (s_len s - 1) = length xs - 1"
    using str_rep_len [OF assms(1)] by (simp add: unat_minus_le)
  have "s_len s - 1 = of_nat (length xs - 1)" using n by (metis unat_of_nat_self)
  moreover have "s_len s - 1 \<noteq> s_len s" "s_len s - 1 \<le> s_len s"
    using n assms(3) str_rep_len [OF assms(1)] by (auto simp: word_le_nat_alt)
  moreover have "length xs - 1 < 2147483648" using str_rep_lt [OF assms(1)] by simp
  ultimately have "str_at alloc (s_len s - 1) s = Some s"
    by (simp add: str_at_def sint_of_nat_nonneg)
  moreover have "byte_read (s_len s - 1) (s_buf s) = Some (last xs)"
    using str_rep_byte [OF assms(1), of "length xs - 1"] assms(3) n by (simp add: byte_read_def last_conv_nth)
  ultimately show ?thesis
    using pop_back_rep [OF assms(1,2)] assms(1) by (simp add: remove_lf_def)
qed

text \<open>Of an empty string the character at index \<open>- 1\<close> is asked for.\<close>

lemma remove_lf_empty: "str_rep s [] \<Longrightarrow> remove_lf alloc s = None"
  by (simp add: remove_lf_def str_at_def str_rep_of_nat)

subsection \<open>Properties\<close>

text \<open>Property C21. What \<^verbatim>\<open>insert\<close> puts into a string, \<^verbatim>\<open>erase\<close> takes out again: \<^verbatim>\<open>insert\<close>
  places the characters at the position and moves the rest behind them, and erasing as many
  characters there gives the old characters back; also where the string moves from its short
  buffer to its first block on the heap. The heap has to serve the requests, and a result of
  more than 40 characters also needs a \<^verbatim>\<open>realloc\<close> that keeps the bytes of a block (\<open>mem_ok\<close>;
  the one of \<^verbatim>\<open>utils/heap.cc\<close> may not, see \<open>growth_loses_characters\<close> below).\<close>

theorem insert_erase_roundtrip:
  assumes "str_rep s xs" "str_rep t ys" "unat pos \<le> length xs"
    and "length xs + length ys < 2147483648" "mem_ok alloc (length xs + length ys)"
  shows "\<exists>s1 s2. str_insert alloc pos t s = Some s1 \<and>
    str_rep s1 (take (unat pos) xs @ ys @ drop (unat pos) xs) \<and>
    str_erase alloc pos (s_len t) s1 = Some s2 \<and> str_rep s2 xs"
proof -
  let ?zs = "take (unat pos) xs @ ys @ drop (unat pos) xs"
  obtain s1 where s1: "str_insert alloc pos t s = Some s1" "str_rep s1 ?zs"
    using str_insert_rep [OF assms(1,2,4,5), of pos] assms(3) by (auto elim: yieldsE)
  have len: "length ?zs = length xs + length ys" using assms(3) by simp
  have "\<exists>v. yields (str_erase alloc pos (s_len t) s1)
      (take (unat pos) ?zs @ drop (unat pos + unat (s_len t)) ?zs) v"
    using assms(3-5) str_rep_len [OF assms(2)]
    by (intro str_erase_rep [OF s1(2)]) (auto simp: len add.commute)
  moreover have "take (unat pos) ?zs @ drop (unat pos + unat (s_len t)) ?zs = xs"
    using assms(3) str_rep_len [OF assms(2)] by simp
  ultimately show ?thesis using s1 by (auto elim: yieldsE)
qed

definition plain_heap :: str_heap where
  "plain_heap = \<lparr>h_serves = \<lambda>_. True, h_moved = \<lambda>_ buf. buf\<rparr>"

lemma plain_heap_simps [simp]: "h_serves plain_heap n" "h_moved plain_heap n buf = buf"
  by (simp_all add: plain_heap_def)

lemma mem_ok_always: "mem_ok plain_heap n"
  by (simp add: mem_ok_def)

theorem insert_erase_roundtrip_witness:
  "\<exists>s t s1 s2. str_rep s [97, 98] \<and> str_rep t [99] \<and> str_insert plain_heap 1 t s = Some s1 \<and>
     str_rep s1 [97, 99, 98] \<and> str_erase plain_heap 1 (s_len t) s1 = Some s2 \<and> str_rep s2 [97, 98]"
proof -
  obtain s t where st: "str_rep s [97, 98]" "str_rep t [99]"
    using str_from_rep [OF _ mem_ok_always, of "[97, 98]"] str_from_rep [OF _ mem_ok_always, of "[99]"]
    by (auto elim!: yieldsE)
  from insert_erase_roundtrip [OF st _ _ mem_ok_always, of 1] st show ?thesis by auto
qed

text \<open>Without that assumption the text is lost: \<^verbatim>\<open>append\<close> to a string that fills its block
  takes whatever \<^verbatim>\<open>realloc\<close> left in the new block for the characters of the string. The
  \<^verbatim>\<open>realloc\<close> of \<^verbatim>\<open>utils/heap.cc\<close> puts the two links of its free list over the first eight bytes
  when it has to split (\<open>realloc_overwrites\<close> in \<open>HeapProps\<close>).\<close>

theorem growth_loses_characters:
  assumes "str_rep s xs" "s_heap s" "length xs = unat (s_cap s)" "length xs < 1073741824"
    and "h_serves alloc (s_cap s * 2)"
    and "byte_read 0 (h_moved alloc (s_cap s * 2) (s_buf s)) \<noteq> Some (xs ! 0)"
  shows "\<exists>s'. append_char alloc c s = Some s' \<and> s_len s' = s_len s + 1 \<and> \<not> str_rep s' (xs @ [c])"
proof -
  let ?cap = "s_cap s * 2"
  let ?buf = "resized (unat ?cap) (h_moved alloc ?cap (s_buf s))"
  have cap: "40 \<le> unat (s_cap s)" using assms(1,2) by (simp add: str_rep_def word_le_nat_alt)
  have len: "unat (s_len s) = unat (s_cap s)" using str_rep_len [OF assms(1)] assms(3) by simp
  then have full: "s_len s = s_cap s" by (simp add: word_unat_eq_iff)
  have suc: "unat (s_len s + 1) = Suc (unat (s_cap s))"
    using len assms(3,4) unat_plus_small [of "s_len s" 1] by simp
  have dbl: "unat ?cap = 2 * unat (s_cap s)"
    using assms(3,4) by (simp add: unat_word_ariths take_bit_nat_eq_self_iff)
  have less: "s_cap s < s_len s + 1" "\<not> ?cap < s_len s + 1"
    using suc dbl cap by (simp_all add: word_less_nat_alt)
  have "grow_loop alloc (s_len s + 1) (s_cap s) (s_buf s) = Some (?cap, ?buf)"
    using less assms(5) by (subst grow_loop.simps, subst grow_loop.simps) (simp add: Let_def)
  then have r: "str_reserve alloc (s_len s + 1) s = Some (s\<lparr>s_cap := ?cap, s_buf := ?buf\<rparr>)"
    using less(1) assms(2) by (simp add: str_reserve_def str_capacity_def)
  have ix: "0 \<le> sint (s_len s)" "s_len s \<noteq> s_len s + 1" "s_len s \<le> s_len s + 1"
    using len suc assms(3,4) by (simp_all add: sint_ge_0_iff word_le_nat_alt)
  have fit: "unat (s_len s) < length ?buf" using len dbl cap by simp
  define s' where "s' = s\<lparr>s_cap := ?cap, s_buf := ?buf[unat (s_len s) := Some c], s_len := s_len s + 1\<rparr>"
  have run: "append_char alloc c s = Some s'"
    using r ix fit by (simp add: append_char_def str_append1_def str_at_def byte_write_def s'_def)
  have "s_buf s' ! 0 = ?buf ! 0" using len cap by (simp add: s'_def)
  moreover have "?buf ! 0 = byte_read 0 (h_moved alloc ?cap (s_buf s))"
    using dbl cap by (auto simp: resized_def nth_append byte_read_def)
  moreover have "s_buf s' ! 0 = Some (xs ! 0)" if "str_rep s' (xs @ [c])"
    using str_rep_byte(1) [OF that, of 0] cap assms(3) by (simp add: nth_append)
  ultimately have "\<not> str_rep s' (xs @ [c])" using assms(6) by auto
  with run show ?thesis by (simp add: s'_def)
qed

definition splitting_heap :: str_heap where
  "splitting_heap = \<lparr>h_serves = \<lambda>_. True, h_moved = \<lambda>_ buf. replicate 8 (Some 0) @ drop 8 buf\<rparr>"

theorem growth_loses_characters_witness:
  "\<exists>s s'. str_rep s (replicate 40 97) \<and> append_char splitting_heap 98 s = Some s' \<and>
     \<not> str_rep s' (replicate 40 97 @ [98])"
proof -
  let ?s = "\<lparr>s_heap = True, s_cap = 40, s_buf = replicate 40 (Some 97), s_len = 40, s_save = 0\<rparr>"
  have rep: "str_rep ?s (replicate 40 97)" by (simp add: str_rep_def str_capacity_def)
  have "h_serves splitting_heap m" "byte_read 0 (h_moved splitting_heap m (replicate 40 (Some 97))) \<noteq> Some (97 :: u8)" for m
    by (simp_all add: splitting_heap_def byte_read_def nth_append)
  then have "\<exists>s'. append_char splitting_heap 98 ?s = Some s' \<and> s_len s' = s_len ?s + 1 \<and>
      \<not> str_rep s' (replicate 40 97 @ [98])"
    by (intro growth_loses_characters [OF rep]) simp_all
  with rep show ?thesis by blast
qed

text \<open>\<^verbatim>\<open>shrink_to_fit\<close> looks for the terminating 0 of the characters on the heap,
  which nobody wrote: for a string of at most 20 characters, none of them 0, that was moved to
  the heap, it reads uninitialised bytes.\<close>

lemma c_strlen_uninit:
  "0 \<notin> set xs \<Longrightarrow> take (length xs) buf = map Some xs \<Longrightarrow> length xs < length buf \<longrightarrow> buf ! length xs = None \<Longrightarrow>
     c_strlen buf = None"
proof (induction xs arbitrary: buf)
  case Nil
  then show ?case by (cases buf) auto
next
  case (Cons x xs)
  then show ?case by (cases buf) auto
qed

theorem shrink_to_fit_uninit:
  assumes "str_rep s xs" "s_heap s" "length xs \<le> 20" "0 \<notin> set xs"
    and "s_buf s ! length xs = None"
  shows "shrink_to_fit alloc s = None"
proof -
  have "c_strlen (s_buf s) = None"
    using assms by (intro c_strlen_uninit [of xs]) (auto simp: str_rep_def)
  moreover have "s_len s \<le> SHORT_STRING_LENGTH"
    using assms(1,3) by (simp add: word_le_nat_alt str_rep_len SHORT_STRING_LENGTH_def)
  ultimately show ?thesis using assms(2) by (simp add: shrink_to_fit_def c_strcpy_def)
qed

definition reserved_string :: "str option" where
  "reserved_string = do { s \<leftarrow> str_reserve plain_heap 30 str_new; append_char plain_heap 97 s }"

theorem shrink_to_fit_uninit_witness:
  "\<exists>s. reserved_string = Some s \<and> shrink_to_fit plain_heap s = None"
proof -
  let ?s = "\<lparr>s_heap = True, s_cap = 40, s_buf = Some 97 # replicate 39 None, s_len = 1, s_save = 0\<rparr>"
  have grow: "grow_loop plain_heap n 40 b = Some (40, b)" if "n = 30 \<or> n = 1" for n b
    using that by (subst grow_loop.simps) auto
  have first: "replicate 40 x = x # replicate 39 x" for x :: "u8 option" by (simp add: numeral_eq_Suc)
  have s: "reserved_string = Some ?s"
    by (simp add: reserved_string_def str_reserve_def str_new_def str_capacity_def append_char_def
        SHORT_STRING_LENGTH_def str_copy_def grow str_append1_def str_at_def byte_write_def first)
  have "str_rep ?s [97]" by (simp add: str_rep_def str_capacity_def)
  then have "shrink_to_fit plain_heap ?s = None" by (rule shrink_to_fit_uninit) simp_all
  with s show ?thesis by blast
qed

end
