(* ===== verification/StringOps.thy ===== *)
theory StringOps
  imports KString
begin

section \<open>user/string: searching, comparing, splitting and reading numbers\<close>

text \<open>
  The operations that only read their strings, on the strings of \<open>KString\<close>, and what each
  computes from the characters. \<open>words_of\<close> and \<open>number_of\<close> are the reference definitions of
  what \<^verbatim>\<open>strtok\<close> and \<^verbatim>\<open>strtol\<close> are to return.
\<close>

definition str_compare :: "u32 \<Rightarrow> str \<Rightarrow> str \<Rightarrow> bool option" where
  "str_compare pos t s =
     (if s_len s < pos + s_len t then Some False
      else let limit = min (s_len s) (s_len t + pos) in do {
        i \<leftarrow> for_find pos limit (\<lambda>i. do {
               a \<leftarrow> str_get s i; b \<leftarrow> str_get t (i - pos); Some (a \<noteq> b) });
        Some (\<not> i < limit) })"

definition str_find :: "str \<Rightarrow> u32 \<Rightarrow> str \<Rightarrow> u32 option" where
  "str_find t pos s = do {
     i \<leftarrow> for_find pos (s_len s) (\<lambda>i. str_compare i t s);
     Some (if i < s_len s then i else npos) }"

definition find_first_char :: "u8 \<Rightarrow> u32 \<Rightarrow> str \<Rightarrow> u32 option" where
  "find_first_char c pos s = do {
     i \<leftarrow> for_find pos (s_len s) (\<lambda>i. do { a \<leftarrow> str_get s i; Some (a = c) });
     Some (if i < s_len s then i else npos) }"

definition find_first_of :: "str \<Rightarrow> u32 \<Rightarrow> str \<Rightarrow> u32 option" where
  "find_first_of t pos s = do {
     i \<leftarrow> for_find pos (s_len s) (\<lambda>i. do {
            j \<leftarrow> for_find 0 (s_len t) (\<lambda>j. do { a \<leftarrow> str_get s i; b \<leftarrow> str_get t j; Some (a = b) });
            Some (j < s_len t) });
     Some (if i < s_len s then i else npos) }"

text \<open>The difference of two \<^verbatim>\<open>char\<close>s, which are signed.\<close>

definition strcmp :: "str \<Rightarrow> str \<Rightarrow> int option" where
  "strcmp s t = (let limit = min (s_len s) (s_len t) in do {
     i \<leftarrow> for_find 0 limit (\<lambda>i. do { a \<leftarrow> str_get s i; b \<leftarrow> str_get t i; Some (a \<noteq> b) });
     if i < limit
     then do { a \<leftarrow> str_get s i; b \<leftarrow> str_get t i; Some (sint a - sint b) }
     else if s_len s \<noteq> s_len t then Some (if s_len t < s_len s then 1 else - 1)
     else Some 0 })"

definition streq :: "str \<Rightarrow> str \<Rightarrow> bool option" where
  "streq s t = map_option (\<lambda>r. r = 0) (strcmp s t)"

partial_function (option) tok_skip :: "str \<Rightarrow> str \<Rightarrow> (u32 \<times> str) option" where
  "tok_skip delim s = do {
     pos \<leftarrow> find_first_of delim (s_save s) s;
     if pos = s_save s then tok_skip delim (s\<lparr>s_save := s_save s + 1\<rparr>) else Some (pos, s) }"

definition strtok :: "str_heap \<Rightarrow> str \<Rightarrow> str \<Rightarrow> (str \<times> str) option" where
  "strtok alloc delim s = do {
     (pos, s) \<leftarrow> tok_skip delim s;
     let pos = (if pos = npos then s_len s else pos);
     ret \<leftarrow> substr alloc (s_save s) (pos - s_save s) s;
     Some (ret, s\<lparr>s_save := pos + 1\<rparr>) }"

definition SSIZE_MAX :: u32 where "SSIZE_MAX = 2147483647"

text \<open>The conversion loop of \<^verbatim>\<open>strtol\<close>: whether it was left for \<^verbatim>\<open>overflow\<close>, the error flag
  and the result so far.\<close>

function strtol_loop :: "int \<Rightarrow> str \<Rightarrow> u32 \<Rightarrow> bool \<Rightarrow> u32 \<Rightarrow> (bool \<times> bool \<times> u32) option" where
  "strtol_loop base s i err res =
     (if i < s_len s
      then do {
        c \<leftarrow> str_get s i;
        let cur = sint c;
        if 48 \<le> cur \<and> cur \<le> 48 + min base 10 - 1
        then let res' = word_of_int base * res + word_of_int (cur - 48) in
             if res' < res then Some (True, True, res') else strtol_loop base s (i + 1) False res'
        else if base > 10 \<and> (97 \<le> cur \<and> cur \<le> 97 + base - 10 - 1 \<or> 65 \<le> cur \<and> cur \<le> 65 + base - 10 - 1)
        then let small = (97 \<le> cur \<and> cur \<le> 97 + base);
                 res' = word_of_int base * res + word_of_int (10 + cur - (if small then 97 else 65)) in
             if res' < res then Some (True, True, res') else strtol_loop base s (i + 1) False res'
        else Some (False, True, res) }
      else Some (False, err, res))"
  by pat_completeness auto
termination
  by (relation "measure (\<lambda>(_, s, i, _). unat (s_len s) - unat i)") (auto simp: word_less_nat_alt unat_Suc_less)

declare strtol_loop.simps [simp del]

definition compare_lit :: "str_heap \<Rightarrow> u32 \<Rightarrow> u8 list \<Rightarrow> str \<Rightarrow> bool option" where
  "compare_lit alloc i cs s = do { t \<leftarrow> str_from alloc cs; str_compare i t s }"

text \<open>The prefix: the position behind it and the base.\<close>

definition strtol_prefix :: "str_heap \<Rightarrow> str \<Rightarrow> u32 \<Rightarrow> int \<Rightarrow> (u32 \<times> int) option" where
  "strtol_prefix alloc s i base = do {
     bin \<leftarrow> (if base = 0 \<or> base = 2
            then do { l \<leftarrow> compare_lit alloc i [48, 98] s; if l then Some True else compare_lit alloc i [48, 66] s }
            else Some False);
     if bin then Some (i + 2, 2)
     else do {
       hex \<leftarrow> (if base = 0 \<or> base = 16
              then do { l \<leftarrow> compare_lit alloc i [48, 120] s; if l then Some True else compare_lit alloc i [48, 88] s }
              else Some False);
       if hex then Some (i + 2, 16)
       else do {
         oct \<leftarrow> (if base = 0 \<or> base = 8
                then do { l \<leftarrow> compare_lit alloc i [48] s; Some (l \<and> i + 1 < s_len s) }
                else Some False);
         if oct then Some (i + 1, 8) else Some (i, if base = 0 then 10 else base) } } }"

definition strtol :: "str_heap \<Rightarrow> str \<Rightarrow> int \<Rightarrow> (int \<times> bool) option" where
  "strtol alloc s base = do {
     i \<leftarrow> for_find 0 (s_len s) (\<lambda>i. do { c \<leftarrow> str_get s i; Some (c \<noteq> 32) });
     negative \<leftarrow> (if i < s_len s then do { c \<leftarrow> str_get s i; Some (c = 45) } else Some False);
     let i = (if negative then i + 1 else i);
     (i, base) \<leftarrow> strtol_prefix alloc s i base;
     (over, err, res) \<leftarrow> strtol_loop base s i True 0;
     if over \<or> SSIZE_MAX < res then Some (sint SSIZE_MAX, True)
     else Some (if negative then sint res * - 1 else sint res, err) }"

text \<open>\<^verbatim>\<open>String::Iterator\<close>: \<open>None\<close> is the end.\<close>

definition iter_next :: "str \<Rightarrow> u32 option \<Rightarrow> u32 option" where
  "iter_next s it = (case it of None \<Rightarrow> None | Some pos \<Rightarrow> if s_len s \<le> pos + 1 then None else Some (pos + 1))"

subsection \<open>Searching and comparing\<close>

lemma str_rep_bound: "str_rep s xs \<Longrightarrow> k < unat (s_len s) \<Longrightarrow> k < length xs"
  by (simp add: str_rep_len)

lemma compare_rep:
  assumes "str_rep s xs" "str_rep t ys" "unat pos + length ys < 4294967296"
  shows "str_compare pos t s =
    Some (unat pos + length ys \<le> length xs \<and> take (length ys) (drop (unat pos) xs) = ys)"
proof -
  have sum: "unat (pos + s_len t) = unat pos + length ys" "unat (s_len t + pos) = unat pos + length ys"
    using unat_plus_small [of pos "s_len t"] unat_plus_small [of "s_len t" pos] assms(3)
      str_rep_len [OF assms(2)] by simp_all
  show ?thesis
  proof (cases "unat pos + length ys \<le> length xs")
    case False
    then show ?thesis using sum assms(1) by (simp add: str_compare_def word_less_nat_alt str_rep_len)
  next
    case True
    then have lim: "min (s_len s) (s_len t + pos) = s_len t + pos"
      using sum(2) str_rep_len [OF assms(1)] by (intro min_absorb2) (simp add: word_le_nat_alt)
    have "Option.bind (for_find pos (s_len t + pos) (\<lambda>i. do {
        a \<leftarrow> str_get s i; b \<leftarrow> str_get t (i - pos); Some (a \<noteq> b) })) (\<lambda>j. Some (j < s_len t + pos)) =
      Some (\<exists>k. unat pos \<le> k \<and> k < unat (s_len t + pos) \<and> xs ! k \<noteq> ys ! (k - unat pos))"
    proof (rule for_find_any)
      fix k assume k: "unat pos \<le> k" "k < unat (s_len t + pos)"
      then have eq: "of_nat k - pos = of_nat (k - unat pos)" by (metis of_nat_diff_word unat_of_nat_self)
      have "k - unat pos < length ys" using k sum by simp
      then have "str_get t (of_nat k - pos) = Some (ys ! (k - unat pos))"
        unfolding eq by (rule str_get_rep [OF assms(2)])
      with k sum True assms(1) show "do { a \<leftarrow> str_get s (of_nat k); b \<leftarrow> str_get t (of_nat k - pos); Some (a \<noteq> b) } =
          Some (xs ! k \<noteq> ys ! (k - unat pos))"
        by (simp add: str_get_rep)
    qed
    then obtain j where j: "for_find pos (s_len t + pos) (\<lambda>i. do {
        a \<leftarrow> str_get s i; b \<leftarrow> str_get t (i - pos); Some (a \<noteq> b) }) = Some j"
      "j < s_len t + pos \<longleftrightarrow> (\<exists>k. unat pos \<le> k \<and> k < unat (s_len t + pos) \<and> xs ! k \<noteq> ys ! (k - unat pos))"
      by (auto split: Option.bind_splits)
    have "(\<exists>k. unat pos \<le> k \<and> k < unat (s_len t + pos) \<and> xs ! k \<noteq> ys ! (k - unat pos)) \<longleftrightarrow>
        take (length ys) (drop (unat pos) xs) \<noteq> ys"
    proof
      assume "\<exists>k. unat pos \<le> k \<and> k < unat (s_len t + pos) \<and> xs ! k \<noteq> ys ! (k - unat pos)"
      then obtain k where k: "unat pos \<le> k" "k < unat pos + length ys" "xs ! k \<noteq> ys ! (k - unat pos)"
        using sum by auto
      then have "take (length ys) (drop (unat pos) xs) ! (k - unat pos) = xs ! k" using True by simp
      with k show "take (length ys) (drop (unat pos) xs) \<noteq> ys" by metis
    next
      assume "take (length ys) (drop (unat pos) xs) \<noteq> ys"
      then obtain m where "m < length ys" "take (length ys) (drop (unat pos) xs) ! m \<noteq> ys ! m"
        using True by (auto simp: list_eq_iff_nth_eq)
      then show "\<exists>k. unat pos \<le> k \<and> k < unat (s_len t + pos) \<and> xs ! k \<noteq> ys ! (k - unat pos)"
        using sum True by (intro exI [of _ "unat pos + m"]) simp
    qed
    with j True lim sum assms(1) show ?thesis
      by (simp add: str_compare_def word_less_nat_alt str_rep_len)
  qed
qed

text \<open>If the sum of position and length wraps, a string matches that is not there.\<close>

lemma compare_wraps: "str_rep s xs \<Longrightarrow> str_rep t [c] \<Longrightarrow> str_compare npos t s = Some True"
proof -
  assume "str_rep s xs" "str_rep t [c]"
  then have "npos + s_len t = 0" "s_len t + npos = 0" by (simp_all add: npos_def str_rep_of_nat)
  then show ?thesis by (simp add: str_compare_def for_find.simps)
qed

lemma find_rep:
  assumes "str_rep s xs" "str_rep t ys"
  shows "str_find t pos s = Some (case find (\<lambda>k. k + length ys \<le> length xs \<and> take (length ys) (drop k xs) = ys)
    [unat pos..<length xs] of Some k \<Rightarrow> of_nat k | None \<Rightarrow> npos)"
proof -
  have "str_compare (of_nat k) t s = Some (k + length ys \<le> length xs \<and> take (length ys) (drop k xs) = ys)"
    if "k < unat (s_len s)" for k
  proof -
    have "k < 2147483648" using that str_rep_bound [OF assms(1)] str_rep_lt [OF assms(1)] by fastforce
    then have "unat (of_nat k :: u32) = k" "unat (of_nat k :: u32) + length ys < 4294967296"
      using str_rep_lt [OF assms(2)] by (simp_all add: unat_of_nat_small)
    then show ?thesis using compare_rep [OF assms, of "of_nat k"] by simp
  qed
  then have "Option.bind (for_find pos (s_len s) (\<lambda>i. str_compare i t s)) (\<lambda>j. Some (if j < s_len s then j else npos)) =
      Some (case find (\<lambda>k. k + length ys \<le> length xs \<and> take (length ys) (drop k xs) = ys)
        [unat pos..<unat (s_len s)] of Some k \<Rightarrow> of_nat k | None \<Rightarrow> npos)"
    by (intro for_find_index) blast
  then show ?thesis by (simp add: str_find_def str_rep_len [OF assms(1)])
qed

lemma find_first_char_rep:
  assumes "str_rep s xs"
  shows "find_first_char c pos s =
    Some (case find (\<lambda>k. xs ! k = c) [unat pos..<length xs] of Some k \<Rightarrow> of_nat k | None \<Rightarrow> npos)"
proof -
  have "do { a \<leftarrow> str_get s (of_nat k); Some (a = c) } = Some (xs ! k = c)" if "k < unat (s_len s)" for k
    using assms that by (simp add: str_get_rep str_rep_len)
  then have "Option.bind (for_find pos (s_len s) (\<lambda>i. do { a \<leftarrow> str_get s i; Some (a = c) }))
      (\<lambda>j. Some (if j < s_len s then j else npos)) =
      Some (case find (\<lambda>k. xs ! k = c) [unat pos..<unat (s_len s)] of Some k \<Rightarrow> of_nat k | None \<Rightarrow> npos)"
    by (intro for_find_index) blast
  then show ?thesis by (simp add: find_first_char_def str_rep_len [OF assms])
qed

lemma find_first_of_rep:
  assumes "str_rep s xs" "str_rep t ys"
  shows "find_first_of t pos s =
    Some (case find (\<lambda>k. xs ! k \<in> set ys) [unat pos..<length xs] of Some k \<Rightarrow> of_nat k | None \<Rightarrow> npos)"
proof -
  have "do { j \<leftarrow> for_find 0 (s_len t) (\<lambda>j. do { a \<leftarrow> str_get s (of_nat k); b \<leftarrow> str_get t j; Some (a = b) });
      Some (j < s_len t) } = Some (xs ! k \<in> set ys)" if k: "k < unat (s_len s)" for k
  proof -
    have "do { a \<leftarrow> str_get s (of_nat k); b \<leftarrow> str_get t (of_nat j); Some (a = b) } = Some (xs ! k = ys ! j)"
      if "j < unat (s_len t)" for j
      using assms that k by (simp add: str_get_rep str_rep_len)
    then have "Option.bind (for_find 0 (s_len t) (\<lambda>j. do { a \<leftarrow> str_get s (of_nat k); b \<leftarrow> str_get t j; Some (a = b) }))
        (\<lambda>j. Some (j < s_len t)) = Some (\<exists>j. unat (0 :: u32) \<le> j \<and> j < unat (s_len t) \<and> xs ! k = ys ! j)"
      by (intro for_find_any) blast
    then show ?thesis by (auto simp: in_set_conv_nth str_rep_len [OF assms(2)])
  qed
  then have "Option.bind (for_find pos (s_len s) (\<lambda>i. do {
      j \<leftarrow> for_find 0 (s_len t) (\<lambda>j. do { a \<leftarrow> str_get s i; b \<leftarrow> str_get t j; Some (a = b) });
      Some (j < s_len t) })) (\<lambda>j. Some (if j < s_len s then j else npos)) =
      Some (case find (\<lambda>k. xs ! k \<in> set ys) [unat pos..<unat (s_len s)] of Some k \<Rightarrow> of_nat k | None \<Rightarrow> npos)"
    by (intro for_find_index) blast
  then show ?thesis by (simp add: find_first_of_def str_rep_len [OF assms(1)])
qed

text \<open>The search for the first difference of two strings.\<close>

lemma lexordp_append_left: "ord_class.lexordp (us @ xs) (us @ ys) \<longleftrightarrow> ord_class.lexordp xs (ys :: int list)"
  by (induction us) simp_all

lemma lexordp_split:
  "sint (a :: u8) \<noteq> sint (b :: u8) \<Longrightarrow>
     ord_class.lexordp (map sint (us @ a # xs)) (map sint (us @ b # ys)) \<longleftrightarrow> sint a < sint b"
  by (auto simp: lexordp_append_left)

lemma first_difference:
  assumes "k < length xs" "k < length ys" "\<And>j. j < k \<Longrightarrow> xs ! j = ys ! j"
  shows "xs = take k xs @ xs ! k # drop (Suc k) xs" "ys = take k xs @ ys ! k # drop (Suc k) ys"
proof -
  have "take k xs = take k ys" using assms by (intro nth_equalityI) auto
  then show "xs = take k xs @ xs ! k # drop (Suc k) xs" "ys = take k xs @ ys ! k # drop (Suc k) ys"
    using id_take_nth_drop [OF assms(1)] id_take_nth_drop [OF assms(2)] by simp_all
qed

lemma common_prefix:
  assumes "\<And>j. j < min (length xs) (length ys) \<Longrightarrow> xs ! j = ys ! j"
  shows "length xs \<le> length ys \<Longrightarrow> ys = xs @ drop (length xs) ys"
proof -
  assume "length xs \<le> length ys"
  with assms have "take (length xs) ys = xs" by (intro nth_equalityI) auto
  then show "ys = xs @ drop (length xs) ys" by (metis append_take_drop_id)
qed

lemma strcmp_rep:
  assumes "str_rep s xs" "str_rep t ys"
  shows "\<exists>r. strcmp s t = Some r \<and> (r = 0 \<longleftrightarrow> xs = ys) \<and>
    (r < 0 \<longleftrightarrow> ord_class.lexordp (map sint xs) (map sint ys)) \<and> (0 < r \<longleftrightarrow> ord_class.lexordp (map sint ys) (map sint xs))"
proof -
  define limit where "limit = min (s_len s) (s_len t)"
  have lim: "unat limit = min (length xs) (length ys)"
    using assms by (simp add: limit_def min_def word_le_nat_alt str_rep_len)
  let ?test = "\<lambda>i. do { a \<leftarrow> str_get s i; b \<leftarrow> str_get t i; Some (a \<noteq> b) }"
  let ?Q = "\<lambda>k. xs ! k \<noteq> ys ! k"
  have test: "?test (of_nat k) = Some (?Q k)" if "k < unat limit" for k
    using that lim assms by (simp add: str_get_rep)
  then have f: "for_find 0 limit ?test = Some
      (case find ?Q [unat (0 :: u32)..<unat limit] of Some k \<Rightarrow> of_nat k | None \<Rightarrow> if 0 < limit then limit else 0)"
    by (intro for_find_rule) blast
  show ?thesis
  proof (cases "find ?Q [0..<unat limit]")
    case (Some k)
    note k = find_upt_SomeD [OF Some]
    have kk: "k < length xs" "k < length ys" using k lim by simp_all
    note split = first_difference [OF kk]
    have "unat (of_nat k :: u32) = k" using k unat_lt2p_32 [of limit] by (simp add: unat_of_nat_small)
    then have "(of_nat k :: u32) < limit" using k by (simp add: word_less_nat_alt)
    with f Some kk assms have r: "strcmp s t = Some (sint (xs ! k) - sint (ys ! k))"
      by (simp add: strcmp_def limit_def [symmetric] Let_def str_get_rep)
    have ne: "sint (xs ! k) \<noteq> sint (ys ! k)" using k by (metis signed_word_eqI)
    have xy: "xs = take k xs @ xs ! k # drop (Suc k) xs" "ys = take k xs @ ys ! k # drop (Suc k) ys"
      using split k by blast+
    have "ord_class.lexordp (map sint xs) (map sint ys) \<longleftrightarrow> sint (xs ! k) < sint (ys ! k)"
      "ord_class.lexordp (map sint ys) (map sint xs) \<longleftrightarrow> sint (ys ! k) < sint (xs ! k)"
      using lexordp_split [OF ne] lexordp_split [OF ne [symmetric]] xy by metis+
    with r ne k show ?thesis by auto
  next
    case None
    have eq: "xs ! j = ys ! j" if "j < min (length xs) (length ys)" for j
      using find_upt_NoneD [OF None, of j] that lim by simp
    have "strcmp s t = Some (if s_len s \<noteq> s_len t then if s_len t < s_len s then 1 else - 1 else 0)"
      using f None by (simp add: strcmp_def limit_def [symmetric] Let_def)
    then have r: "strcmp s t =
        Some (if length xs \<noteq> length ys then if length ys < length xs then 1 else - 1 else 0)"
      using assms by (simp add: word_less_nat_alt str_rep_len word_unat_eq_iff)
    consider "length xs < length ys" | "length ys < length xs" | "length xs = length ys" by linarith
    then show ?thesis
    proof cases
      case 1
      obtain z zs where "drop (length xs) ys = z # zs" using 1 by (metis Cons_nth_drop_Suc)
      then have "ys = xs @ z # zs" using common_prefix [OF eq] 1 by simp
      then show ?thesis using r lexordp_append_left [of "map sint xs" "[]"]
          lexordp_append_left [of "map sint xs" _ "[]"] by simp
    next
      case 2
      obtain z zs where "drop (length ys) xs = z # zs" using 2 by (metis Cons_nth_drop_Suc)
      then have "xs = ys @ z # zs" using common_prefix [of ys xs] eq 2 by simp
      then show ?thesis using r lexordp_append_left [of "map sint ys" "[]"]
          lexordp_append_left [of "map sint ys" _ "[]"] by simp
    next
      case 3
      then have "xs = ys" using common_prefix [OF eq] by simp
      then show ?thesis using r by (simp add: lexordp_irreflexive')
    qed
  qed
qed

subsection \<open>Splitting\<close>

text \<open>The fields between delimiters, and those of them that are not empty.\<close>

fun fields :: "u8 set \<Rightarrow> u8 list \<Rightarrow> u8 list list" where
  "fields D [] = [[]]"
| "fields D (c # cs) =
     (if c \<in> D then [] # fields D cs else (c # hd (fields D cs)) # tl (fields D cs))"

definition words_of :: "u8 set \<Rightarrow> u8 list \<Rightarrow> u8 list list" where
  "words_of D cs = filter (\<lambda>w. w \<noteq> []) (fields D cs)"

lemma fields_nonempty: "fields D cs \<noteq> []"
  by (cases cs) auto

lemma words_of_skip: "words_of D (dropWhile (\<lambda>c. c \<in> D) cs) = words_of D cs"
  by (induction cs) (auto simp: words_of_def)

lemma fields_first:
  "fields D cs = takeWhile (\<lambda>c. c \<notin> D) cs # (case dropWhile (\<lambda>c. c \<notin> D) cs of [] \<Rightarrow> [] | _ # r \<Rightarrow> fields D r)"
  by (induction cs) auto

lemma words_of_Cons:
  assumes "dropWhile (\<lambda>c. c \<in> D) cs = r" "r \<noteq> []"
  shows "words_of D cs = takeWhile (\<lambda>c. c \<notin> D) r # words_of D (drop 1 (dropWhile (\<lambda>c. c \<notin> D) r))"
proof -
  have "takeWhile (\<lambda>c. c \<notin> D) r \<noteq> []"
    using assms by (metis hd_dropWhile takeWhile_eq_Nil_iff)
  moreover have "words_of D r = filter (\<lambda>w. w \<noteq> []) (takeWhile (\<lambda>c. c \<notin> D) r #
      (case dropWhile (\<lambda>c. c \<notin> D) r of [] \<Rightarrow> [] | _ # r' \<Rightarrow> fields D r'))"
    unfolding words_of_def by (subst fields_first) (rule refl)
  ultimately have "words_of D r = takeWhile (\<lambda>c. c \<notin> D) r # words_of D (drop 1 (dropWhile (\<lambda>c. c \<notin> D) r))"
    by (cases "dropWhile (\<lambda>c. c \<notin> D) r") (simp_all add: words_of_def del: dropWhile_eq_Nil_conv)
  then show ?thesis using words_of_skip [of D cs] assms(1) by simp
qed

lemma words_of_Nil: "dropWhile (\<lambda>c. c \<in> D) cs = [] \<Longrightarrow> words_of D cs = []"
proof -
  assume "dropWhile (\<lambda>c. c \<in> D) cs = []"
  then have "words_of D cs = words_of D []" unfolding words_of_skip [of D cs, symmetric] by (rule arg_cong)
  then show "words_of D cs = []" by (simp add: words_of_def)
qed

lemma find_takeWhile:
  assumes "p \<le> length xs"
  shows "(case find (\<lambda>k. Q (xs ! k)) [p..<length xs] of Some k \<Rightarrow> k | None \<Rightarrow> length xs) =
    p + length (takeWhile (\<lambda>c. \<not> Q c) (drop p xs))"
  using assms
proof (induction "length xs - p" arbitrary: p)
  case (Suc n)
  then have p: "p < length xs" by simp
  have "n = length xs - Suc p" using Suc.hyps(2) by simp
  from Suc.hyps(1) [OF this] p
  have IH: "(case find (\<lambda>k. Q (xs ! k)) [Suc p..<length xs] of Some k \<Rightarrow> k | None \<Rightarrow> length xs) =
      Suc p + length (takeWhile (\<lambda>c. \<not> Q c) (drop (Suc p) xs))" by simp
  have "[p..<length xs] = p # [Suc p..<length xs]" using p by (rule upt_conv_Cons)
  moreover have "drop p xs = xs ! p # drop (Suc p) xs" using p by (simp add: Cons_nth_drop_Suc)
  ultimately show ?case using IH by simp
qed simp

text \<open>The loop over leading delimiters.\<close>

lemma tok_skip_rep:
  assumes "str_rep s xs" "str_rep d ds" "unat (s_save s) \<le> Suc (length xs)"
  defines "p \<equiv> unat (s_save s) + length (takeWhile (\<lambda>c. c \<in> set ds) (drop (unat (s_save s)) xs))"
  shows "tok_skip d s = Some (case find (\<lambda>k. xs ! k \<in> set ds) [p..<length xs] of Some k \<Rightarrow> of_nat k | None \<Rightarrow> npos,
    s\<lparr>s_save := of_nat p\<rparr>)"
  using assms(1,3) unfolding p_def
proof (induction "length xs - unat (s_save s)" arbitrary: s rule: less_induct)
  case less
  let ?sv = "unat (s_save s)"
  have lt: "length xs < 2147483648" using less.prems(1) by (rule str_rep_lt)
  have find: "find_first_of d (s_save s) s =
      Some (case find (\<lambda>k. xs ! k \<in> set ds) [?sv..<length xs] of Some k \<Rightarrow> of_nat k | None \<Rightarrow> npos)"
    by (rule find_first_of_rep [OF less.prems(1) assms(2)])
  show ?case
  proof (cases "?sv < length xs \<and> xs ! ?sv \<in> set ds")
    case True
    then have upt: "[?sv..<length xs] = ?sv # [Suc ?sv..<length xs]" by (simp add: upt_conv_Cons)
    have sv1: "unat (s_save s + 1) = Suc ?sv" using True lt by (simp add: unat_plus_small)
    have dr: "drop ?sv xs = xs ! ?sv # drop (Suc ?sv) xs" using True by (simp add: Cons_nth_drop_Suc)
    have "tok_skip d s = tok_skip d (s\<lparr>s_save := s_save s + 1\<rparr>)"
      using find True upt by (subst tok_skip.simps) simp
    moreover have "length xs - unat (s_save (s\<lparr>s_save := s_save s + 1\<rparr>)) < length xs - ?sv"
      using True sv1 by (simp add: diff_less_mono2)
    ultimately show ?thesis
      using less.hyps [of "s\<lparr>s_save := s_save s + 1\<rparr>"] less.prems True sv1 dr by simp
  next
    case False
    have tw: "takeWhile (\<lambda>c. c \<in> set ds) (drop ?sv xs) = []"
      using False by (cases "?sv < length xs") (simp_all add: Cons_nth_drop_Suc [symmetric])
    have "(case find (\<lambda>k. xs ! k \<in> set ds) [?sv..<length xs] of Some k \<Rightarrow> of_nat k | None \<Rightarrow> npos) \<noteq> s_save s"
    proof (cases "find (\<lambda>k. xs ! k \<in> set ds) [?sv..<length xs]")
      case None
      have "unat npos \<noteq> ?sv" using less.prems(2) lt by (simp add: unat_npos)
      with None show ?thesis by auto
    next
      case (Some k)
      note k = find_upt_SomeD [OF Some]
      then have "?sv \<noteq> k" using False by auto
      moreover have "unat (of_nat k :: u32) = k" using k lt by (simp add: unat_of_nat_small)
      ultimately have "of_nat k \<noteq> s_save s" by metis
      with Some show ?thesis by simp
    qed
    with find tw show ?thesis by (subst tok_skip.simps) simp
  qed
qed

text \<open>One call of \<^verbatim>\<open>strtok\<close>, by what is left of the string.\<close>

lemma strtok_rep:
  assumes "str_rep s xs" "str_rep d ds" "unat (s_save s) \<le> Suc (length xs)" "mem_ok alloc (length xs)"
  defines "r \<equiv> dropWhile (\<lambda>c. c \<in> set ds) (drop (unat (s_save s)) xs)"
  shows "\<exists>t s'. strtok alloc d s = Some (t, s') \<and> str_rep t (takeWhile (\<lambda>c. c \<notin> set ds) r) \<and>
    str_rep s' xs \<and> unat (s_save s') \<le> Suc (length xs) \<and>
    drop (unat (s_save s')) xs = drop 1 (dropWhile (\<lambda>c. c \<notin> set ds) r)"
proof -
  define p where "p = unat (s_save s) + length (takeWhile (\<lambda>c. c \<in> set ds) (drop (unat (s_save s)) xs))"
  define q where "q = (case find (\<lambda>k. xs ! k \<in> set ds) [p..<length xs] of Some k \<Rightarrow> k | None \<Rightarrow> length xs)"
  have lt: "length xs < 2147483648" using assms(1) by (rule str_rep_lt)
  have r: "r = drop p xs" by (simp add: r_def p_def dropWhile_eq_drop add.commute)
  have p: "p \<le> Suc (length xs)"
    using assms(3) length_takeWhile_le [of "\<lambda>c. c \<in> set ds" "drop (unat (s_save s)) xs"]
    unfolding p_def length_drop by linarith
  have q_le: "q \<le> length xs" by (auto simp: q_def dest: find_upt_SomeD split: option.splits)
  have up: "unat (of_nat p :: u32) = p" "unat (of_nat q :: u32) = q"
    using p q_le lt by (simp_all add: unat_of_nat_small)
  define s1 where "s1 = s\<lparr>s_save := of_nat p\<rparr>"
  have s1: "str_rep s1 xs" "s_len s1 = of_nat (length xs)" "s_save s1 = of_nat p"
    using assms(1) str_rep_of_nat [OF assms(1)] by (simp_all add: s1_def)
  let ?pos = "case find (\<lambda>k. xs ! k \<in> set ds) [p..<length xs] of Some k \<Rightarrow> of_nat k | None \<Rightarrow> npos"
  have pos: "(if ?pos = npos then s_len s1 else ?pos) = of_nat q"
  proof (cases "find (\<lambda>k. xs ! k \<in> set ds) [p..<length xs]")
    case None
    then show ?thesis by (simp add: q_def s1(2))
  next
    case (Some k)
    then have "unat (of_nat k :: u32) = k" "k < length xs" using up(2) find_upt_SomeD by (auto simp: q_def)
    then have "unat (of_nat k :: u32) \<noteq> unat npos" using lt unat_npos by simp
    then have "of_nat k \<noteq> npos" by metis
    with Some show ?thesis by (simp add: q_def)
  qed
  have skip: "tok_skip d s = Some (?pos, s1)"
    using tok_skip_rep [OF assms(1-3)] by (simp add: p_def s1_def)
  have tk: "take (unat (of_nat q - of_nat p :: u32)) (drop p xs) = takeWhile (\<lambda>c. c \<notin> set ds) r \<and>
    drop (Suc q) xs = drop 1 (dropWhile (\<lambda>c. c \<notin> set ds) r)"
  proof (cases "p \<le> length xs")
    case True
    then have q: "q = p + length (takeWhile (\<lambda>c. c \<notin> set ds) (drop p xs))"
      unfolding q_def by (rule find_takeWhile)
    then have "p \<le> q" by simp
    then have "unat (of_nat q - of_nat p :: u32) = q - p" using up by (simp add: unat_minus_le word_le_nat_alt)
    with q r show ?thesis
      by (simp add: takeWhile_eq_take [symmetric] dropWhile_eq_drop add.commute del: of_nat_add)
  next
    case False
    then have "q = length xs" using p by (simp add: q_def)
    with False p r show ?thesis by simp
  qed
  obtain t where t: "substr alloc (of_nat p) (of_nat q - of_nat p) s1 = Some t"
    "str_rep t (takeWhile (\<lambda>c. c \<notin> set ds) r)"
    using substr_rep [OF s1(1) assms(4), of "of_nat p" "of_nat q - of_nat p"] tk up by (auto elim: yieldsE)
  have "unat (of_nat q + 1 :: u32) = Suc q" using up q_le lt by (simp add: unat_plus_small)
  then show ?thesis
    using skip pos t tk q_le s1 by (simp add: strtok_def Let_def)
qed

text \<open>What a caller does that wants all parts: calling \<^verbatim>\<open>strtok\<close> until it returns the empty
  string.\<close>

partial_function (option) all_tokens :: "str_heap \<Rightarrow> str \<Rightarrow> str \<Rightarrow> (str list \<times> str) option" where
  "all_tokens alloc d s = do {
     (t, s) \<leftarrow> strtok alloc d s;
     if str_empty t then Some ([], s)
     else do { (ts, s) \<leftarrow> all_tokens alloc d s; Some (t # ts, s) } }"

lemma all_tokens_rep:
  assumes "str_rep s xs" "str_rep d ds" "unat (s_save s) \<le> Suc (length xs)" "mem_ok alloc (length xs)"
  shows "\<exists>ts s'. all_tokens alloc d s = Some (ts, s') \<and>
    list_all2 str_rep ts (words_of (set ds) (drop (unat (s_save s)) xs))"
  using assms(1,3)
proof (induction "length (drop (unat (s_save s)) xs)" arbitrary: s rule: less_induct)
  case less
  define cs where "cs = drop (unat (s_save s)) xs"
  define r where "r = dropWhile (\<lambda>c. c \<in> set ds) cs"
  obtain t s' where t: "strtok alloc d s = Some (t, s')" "str_rep t (takeWhile (\<lambda>c. c \<notin> set ds) r)"
    "str_rep s' xs" "unat (s_save s') \<le> Suc (length xs)"
    "drop (unat (s_save s')) xs = drop 1 (dropWhile (\<lambda>c. c \<notin> set ds) r)"
    using strtok_rep [OF less.prems(1) assms(2) less.prems(2) assms(4)] by (auto simp: cs_def r_def)
  have empty: "str_empty t \<longleftrightarrow> r = []"
  proof -
    have "str_empty t \<longleftrightarrow> takeWhile (\<lambda>c. c \<notin> set ds) r = []"
      using str_rep_len [OF t(2)] by (simp add: str_empty_def word_unat_eq_iff)
    also have "\<dots> \<longleftrightarrow> r = []"
      using hd_dropWhile [of "\<lambda>c. c \<in> set ds" cs] by (auto simp: takeWhile_eq_Nil_iff r_def)
    finally show ?thesis .
  qed
  show ?case
  proof (cases "r = []")
    case True
    then have "words_of (set ds) cs = []" unfolding r_def by (rule words_of_Nil)
    with True t(1) empty show ?thesis by (subst all_tokens.simps) (simp add: cs_def)
  next
    case False
    have "length r \<le> length cs" unfolding r_def by (rule length_dropWhile_le)
    moreover have "length (drop 1 (dropWhile (\<lambda>c. c \<notin> set ds) r)) < length r"
      using False length_dropWhile_le [of "\<lambda>c. c \<notin> set ds" r] by (cases r) auto
    ultimately have "length (drop (unat (s_save s')) xs) < length (drop (unat (s_save s)) xs)"
      unfolding t(5) cs_def [symmetric] by linarith
    from less.hyps [OF this t(3,4)] obtain ts s2 where
      ts: "all_tokens alloc d s' = Some (ts, s2)"
        "list_all2 str_rep ts (words_of (set ds) (drop (unat (s_save s')) xs))" by blast
    have "words_of (set ds) cs = takeWhile (\<lambda>c. c \<notin> set ds) r # words_of (set ds) (drop (unat (s_save s')) xs)"
      unfolding t(5) by (rule words_of_Cons [OF r_def [symmetric] False])
    with False t(1,2) ts empty show ?thesis
      by (subst all_tokens.simps) (simp add: cs_def [symmetric])
  qed
qed

subsection \<open>Reading numbers\<close>

definition digit_of :: "nat \<Rightarrow> u8 \<Rightarrow> nat option" where
  "digit_of b c = (let cur = sint c; base = int b in
     if 48 \<le> cur \<and> cur \<le> 48 + min base 10 - 1 then Some (nat (cur - 48))
     else if base > 10 \<and> 97 \<le> cur \<and> cur \<le> 97 + base - 10 - 1 then Some (nat (10 + cur - 97))
     else if base > 10 \<and> 65 \<le> cur \<and> cur \<le> 65 + base - 10 - 1 then Some (nat (10 + cur - 65))
     else None)"

definition number_of :: "nat \<Rightarrow> nat \<Rightarrow> nat list \<Rightarrow> nat" where
  "number_of b acc vs = foldl (\<lambda>a v. a * b + v) acc vs"

lemma number_of_ge: "0 < b \<Longrightarrow> acc \<le> number_of b acc vs"
proof (induction vs arbitrary: acc)
  case (Cons v vs)
  then have "acc \<le> acc * b + v" by (simp add: trans_le_add1)
  also have "\<dots> \<le> number_of b (acc * b + v) vs" using Cons by blast
  finally show ?case by (simp add: number_of_def)
qed (simp add: number_of_def)

lemma strtol_loop_digit:
  assumes "str_rep s xs" "unat i < length xs" "digit_of b (xs ! unat i) = Some v" "2 \<le> b" "b \<le> 36"
    and "unat res * b + v < 4294967296"
  shows "strtol_loop (int b) s i err res = strtol_loop (int b) s (i + 1) False (of_nat (unat res * b + v))"
proof -
  have i: "i < s_len s" "str_get s i = Some (xs ! unat i)"
    using assms(1,2) str_get_rep [OF assms(1,2)] by (simp_all add: word_less_nat_alt str_rep_len)
  have res': "word_of_int (int b) * res + word_of_int (int v) = (of_nat (unat res * b + v) :: u32)" for v
    by (simp add: mult.commute)
  have "res \<le> of_nat (unat res * b + v)"
    using assms(4,6) by (simp add: word_le_nat_alt unat_of_nat_small trans_le_add1 del: of_nat_add of_nat_mult)
  then have no_wrap: "\<not> (of_nat (unat res * b + v) :: u32) < res" by simp
  define cur where "cur = sint (xs ! unat i)"
  consider (dec) "48 \<le> cur" "cur \<le> 48 + min (int b) 10 - 1" "v = nat (cur - 48)"
    | (low) "\<not> (48 \<le> cur \<and> cur \<le> 48 + min (int b) 10 - 1)" "10 < b" "97 \<le> cur" "cur \<le> 97 + int b - 10 - 1"
        "v = nat (10 + cur - 97)"
    | (up) "\<not> (48 \<le> cur \<and> cur \<le> 48 + min (int b) 10 - 1)" "10 < b" "65 \<le> cur" "cur \<le> 65 + int b - 10 - 1"
        "v = nat (10 + cur - 65)"
    using assms(3) by (auto simp: digit_of_def Let_def cur_def split: if_splits)
  then show ?thesis
  proof cases
    case dec
    then have "cur - 48 = int v" by simp
    with dec i no_wrap res' show ?thesis
      by (subst strtol_loop.simps) (simp add: cur_def [symmetric] Let_def del: of_nat_add of_nat_mult)
  next
    case low
    then have "10 + cur - 97 = int v" "cur \<le> 97 + int b" by simp_all
    moreover from this have "word_of_int (10 + cur - 97) = (of_nat v :: u32)" by (simp only: of_int_of_nat_eq)
    ultimately show ?thesis using low i no_wrap res' [of v]
      by (subst strtol_loop.simps)
        (simp add: cur_def [symmetric] Let_def del: of_nat_add of_nat_mult of_int_add of_int_diff of_int_numeral)
  next
    case up
    then have "10 + cur - 65 = int v" "\<not> 97 \<le> cur" using assms(5) by simp_all
    moreover from this have "word_of_int (10 + cur - 65) = (of_nat v :: u32)" by (simp only: of_int_of_nat_eq)
    ultimately show ?thesis using up i no_wrap res' [of v]
      by (subst strtol_loop.simps)
        (simp add: cur_def [symmetric] Let_def del: of_nat_add of_nat_mult of_int_add of_int_diff of_int_numeral)
  qed
qed

lemma strtol_loop_rep:
  assumes "str_rep s xs" "2 \<le> b" "b \<le> 36"
  shows "unat i \<le> length xs \<Longrightarrow> map (digit_of b) (drop (unat i) xs) = map Some vs \<Longrightarrow>
    number_of b (unat res) vs < 4294967296 \<Longrightarrow>
    strtol_loop (int b) s i err res = Some (False, err \<and> vs = [], of_nat (number_of b (unat res) vs))"
proof (induction vs arbitrary: i err res)
  case Nil
  then have "\<not> i < s_len s" using assms(1) by (simp add: word_less_nat_alt str_rep_len)
  then show ?case by (simp add: strtol_loop.simps number_of_def)
next
  case (Cons v vs)
  have i: "unat i < length xs" using Cons.prems(1,2) by (cases "unat i = length xs") auto
  then have split: "drop (unat i) xs = xs ! unat i # drop (Suc (unat i)) xs" by (simp add: Cons_nth_drop_Suc)
  have lt: "unat res * b + v < 4294967296"
    using number_of_ge [of b "unat res * b + v" vs] Cons.prems(3) assms(2) by (simp add: number_of_def)
  have "i < s_len s" using i assms(1) by (simp add: word_less_nat_alt str_rep_len)
  then have i1: "unat (i + 1) = Suc (unat i)" by (rule unat_Suc_less)
  have "strtol_loop (int b) s i err res = strtol_loop (int b) s (i + 1) False (of_nat (unat res * b + v))"
    using Cons.prems(2) split lt by (intro strtol_loop_digit [OF assms(1) i _ assms(2,3)]) simp_all
  also have "\<dots> = Some (False, False, of_nat (number_of b (unat res * b + v) vs))"
    using Cons.IH [of "i + 1" "of_nat (unat res * b + v)" False] Cons.prems(2,3) i i1 split lt
    by (simp add: number_of_def unat_of_nat_small del: of_nat_add of_nat_mult)
  finally show ?case by (simp add: number_of_def)
qed

subsection \<open>Properties\<close>

text \<open>Property C22. \<^verbatim>\<open>strcmp\<close> is the lexicographic order on the values of the signed
  characters, and \<^verbatim>\<open>==\<close> on strings is equality of their characters.\<close>

theorem strcmp_order:
  assumes "str_rep s xs" "str_rep t ys"
  shows "\<exists>r. strcmp s t = Some r \<and> streq s t = Some (xs = ys) \<and>
    (r < 0 \<longleftrightarrow> ord_class.lexordp (map sint xs) (map sint ys)) \<and>
    (0 < r \<longleftrightarrow> ord_class.lexordp (map sint ys) (map sint xs))"
  using strcmp_rep [OF assms] by (auto simp: streq_def)

theorem strcmp_order_witness:
  "\<exists>s t r. str_rep s [97, 200] \<and> str_rep t [97, 98] \<and> strcmp s t = Some r \<and> r < 0 \<and> streq s t = Some False"
proof -
  obtain s t where st: "str_rep s [97, 200]" "str_rep t [97, 98]"
    using str_from_rep [OF _ mem_ok_always, of "[97, 200]"] str_from_rep [OF _ mem_ok_always, of "[97, 98]"]
    by (auto elim!: yieldsE)
  from strcmp_order [OF st] st show ?thesis by auto
qed



text \<open>The overflow test of \<^verbatim>\<open>strtol\<close>, which compares with the result before the
  last digit, misses overflows: ``10000000000'' is read as 1410065408 without an error, although
  the result is to be \<^verbatim>\<open>SSIZE_MAX\<close> on overflow.\<close>

theorem strtol_misses_overflow:
  "do { s \<leftarrow> str_from plain_heap [49, 48, 48, 48, 48, 48, 48, 48, 48, 48, 48]; strtol plain_heap s 10 } =
     Some (1410065408, False)"
  by code_simp

end
