(* ===== verification/OStream.thy ===== *)
theory OStream
  imports StringOps
begin

section \<open>object/strbuf, object/o\_stream: formatted output\<close>

text \<open>
  \<open>ostream\<close> holds the members of \<^verbatim>\<open>Stringbuffer\<close> and \<^verbatim>\<open>O_Stream\<close>, and in \<open>o_dev\<close> what a
  derived class adds. The virtual \<^verbatim>\<open>flush\<close> is the argument \<open>fl\<close> of every operation. What the
  base class relies on is the locale \<open>stream_device\<close>: \<^verbatim>\<open>flush\<close> empties the buffer, and the
  device has then received the characters in it. Inside the locale, \<open>received s d out\<close> says
  that the text \<open>out\<close> was written since the device was in the state \<open>d\<close>; each \<^verbatim>\<open><<\<close>
  operator adds its text to \<open>out\<close>, wherever the 80 byte buffer happens to be full.
\<close>

record 'd ostream =
  o_buf :: "u8 list"
  o_pos :: nat
  o_base :: int
  o_dev :: 'd

definition ostream_new :: "u8 list \<Rightarrow> 'd \<Rightarrow> 'd ostream" where
  "ostream_new buf d = \<lparr>o_buf = buf, o_pos = 0, o_base = 10, o_dev = d\<rparr>"

definition o_put :: "('d ostream \<Rightarrow> 'd ostream option) \<Rightarrow> u8 \<Rightarrow> 'd ostream \<Rightarrow> 'd ostream option" where
  "o_put fl c s =
     (if o_pos s < length (o_buf s)
      then let s = s\<lparr>o_buf := (o_buf s)[o_pos s := c], o_pos := o_pos s + 1\<rparr>
           in if o_pos s = 80 then fl s else Some s
      else None)"

subsection \<open>Characters, strings and numbers\<close>

fun o_puts :: "('d ostream \<Rightarrow> 'd ostream option) \<Rightarrow> u8 list \<Rightarrow> 'd ostream \<Rightarrow> 'd ostream option" where
  "o_puts fl [] s = Some s"
| "o_puts fl (c # cs) s = do { s \<leftarrow> o_put fl c s; o_puts fl cs s }"

definition ascii :: "string \<Rightarrow> u8 list" where
  "ascii cs = map of_char cs"

definition o_bool :: "('d ostream \<Rightarrow> 'd ostream option) \<Rightarrow> bool \<Rightarrow> 'd ostream \<Rightarrow> 'd ostream option" where
  "o_bool fl b = o_puts fl (ascii (if b then ''true'' else ''false''))"

definition base_word :: "'d ostream \<Rightarrow> u32" where
  "base_word s = word_of_int (o_base s)"

definition prefix_text :: "int \<Rightarrow> u8 list" where
  "prefix_text base = (if base = 2 then ascii ''0b'' else if base = 8 then ascii ''0''
     else if base = 16 then ascii ''0x'' else [])"

partial_function (option) div_loop :: "u32 \<Rightarrow> u32 \<Rightarrow> u32 \<Rightarrow> u32 option" where
  "div_loop ival base dv =
     (if dv = 0 then None else if base \<le> ival div dv then div_loop ival base (dv * base) else Some dv)"

definition digit_char :: "u8 \<Rightarrow> u8" where
  "digit_char digit = digit + (if sint digit < 10 then 48 else 97 - 10)"

partial_function (option) digit_loop ::
  "('d ostream \<Rightarrow> 'd ostream option) \<Rightarrow> u32 \<Rightarrow> u32 \<Rightarrow> u32 \<Rightarrow> 'd ostream \<Rightarrow> 'd ostream option" where
  "digit_loop fl base ival dv s =
     (if 0 < dv
      then do {
        s \<leftarrow> o_put fl (digit_char (ucast (ival div dv))) s;
        if base = 0 then None else digit_loop fl base (ival mod dv) (dv div base) s }
      else Some s)"

definition o_ulong :: "('d ostream \<Rightarrow> 'd ostream option) \<Rightarrow> u32 \<Rightarrow> 'd ostream \<Rightarrow> 'd ostream option" where
  "o_ulong fl ival s = do {
     s \<leftarrow> o_puts fl (prefix_text (o_base s)) s;
     dv \<leftarrow> div_loop ival (base_word s) 1;
     digit_loop fl (base_word s) ival dv s }"

definition o_long :: "('d ostream \<Rightarrow> 'd ostream option) \<Rightarrow> u32 \<Rightarrow> 'd ostream \<Rightarrow> 'd ostream option" where
  "o_long fl ival s =
     (if o_base s = 10 \<and> sint ival < 0
      then do { s \<leftarrow> o_put fl 45 s; o_ulong fl (- ival) s }
      else o_ulong fl ival s)"

text \<open>The other integer types are converted first.\<close>

definition o_char :: "('d ostream \<Rightarrow> 'd ostream option) \<Rightarrow> u8 \<Rightarrow> 'd ostream \<Rightarrow> 'd ostream option" where
  "o_char fl c = o_put fl c"

definition o_short :: "('d ostream \<Rightarrow> 'd ostream option) \<Rightarrow> u16 \<Rightarrow> 'd ostream \<Rightarrow> 'd ostream option" where
  "o_short fl ival = o_long fl (scast ival)"

definition o_ushort :: "('d ostream \<Rightarrow> 'd ostream option) \<Rightarrow> u16 \<Rightarrow> 'd ostream \<Rightarrow> 'd ostream option" where
  "o_ushort fl ival = o_ulong fl (ucast ival)"

definition o_int :: "('d ostream \<Rightarrow> 'd ostream option) \<Rightarrow> u32 \<Rightarrow> 'd ostream \<Rightarrow> 'd ostream option" where
  "o_int fl ival = o_long fl ival"

definition o_uint :: "('d ostream \<Rightarrow> 'd ostream option) \<Rightarrow> u32 \<Rightarrow> 'd ostream \<Rightarrow> 'd ostream option" where
  "o_uint fl ival = o_ulong fl ival"

definition o_pointer :: "('d ostream \<Rightarrow> 'd ostream option) \<Rightarrow> u32 \<Rightarrow> 'd ostream \<Rightarrow> 'd ostream option" where
  "o_pointer fl ptr s = do {
     let base_save = o_base s;
     s \<leftarrow> o_ulong fl ptr (s\<lparr>o_base := 16\<rparr>);
     Some (s\<lparr>o_base := base_save\<rparr>) }"

text \<open>The range loop over a \<^verbatim>\<open>String\<close>; \<^verbatim>\<open>begin()\<close> is never equal to \<^verbatim>\<open>end()\<close>.\<close>

partial_function (option) o_string_loop ::
  "('d ostream \<Rightarrow> 'd ostream option) \<Rightarrow> str_heap \<Rightarrow> u32 \<Rightarrow> str \<Rightarrow> 'd ostream \<Rightarrow> (str \<times> 'd ostream) option" where
  "o_string_loop fl alloc i t s = do {
     t \<leftarrow> str_at alloc i t;
     c \<leftarrow> byte_read i (s_buf t);
     s \<leftarrow> o_put fl c s;
     (case iter_next t (Some i) of None \<Rightarrow> Some (t, s) | Some i \<Rightarrow> o_string_loop fl alloc i t s) }"

definition o_string ::
  "('d ostream \<Rightarrow> 'd ostream option) \<Rightarrow> str_heap \<Rightarrow> str \<Rightarrow> 'd ostream \<Rightarrow> (str \<times> 'd ostream) option" where
  "o_string fl alloc t s = o_string_loop fl alloc 0 t s"

subsection \<open>Manipulators\<close>

definition o_flush :: "('d ostream \<Rightarrow> 'd ostream option) \<Rightarrow> 'd ostream \<Rightarrow> 'd ostream option" where
  "o_flush fl s = fl s"

definition o_endl :: "('d ostream \<Rightarrow> 'd ostream option) \<Rightarrow> 'd ostream \<Rightarrow> 'd ostream option" where
  "o_endl fl s = do { s \<leftarrow> o_put fl 10 s; fl s }"

definition o_bin :: "'d ostream \<Rightarrow> 'd ostream" where "o_bin s = s\<lparr>o_base := 2\<rparr>"
definition o_oct :: "'d ostream \<Rightarrow> 'd ostream" where "o_oct s = s\<lparr>o_base := 8\<rparr>"
definition o_dec :: "'d ostream \<Rightarrow> 'd ostream" where "o_dec s = s\<lparr>o_base := 10\<rparr>"
definition o_hex :: "'d ostream \<Rightarrow> 'd ostream" where "o_hex s = s\<lparr>o_base := 16\<rparr>"

subsection \<open>The digits of a number\<close>

fun digits :: "nat \<Rightarrow> nat \<Rightarrow> nat \<Rightarrow> nat list" where
  "digits b 0 n = [n]"
| "digits b (Suc k) n = (n div b ^ Suc k) # digits b k (n mod b ^ Suc k)"

text \<open>The number of digits after the first.\<close>

function magnitude :: "nat \<Rightarrow> nat \<Rightarrow> nat" where
  "magnitude b n = (if n < b \<or> b < 2 then 0 else Suc (magnitude b (n div b)))"
  by pat_completeness auto
termination by (relation "measure snd") auto

declare magnitude.simps [simp del]

definition ulong_text :: "nat \<Rightarrow> nat \<Rightarrow> u8 list" where
  "ulong_text b n = prefix_text (int b) @ map (\<lambda>d. digit_char (of_nat d)) (digits b (magnitude b n) n)"

definition long_text :: "nat \<Rightarrow> u32 \<Rightarrow> u8 list" where
  "long_text b v =
     (if b = 10 \<and> sint v < 0 then 45 # ulong_text b (unat (- v)) else ulong_text b (unat v))"

lemma magnitude_bounds:
  "2 \<le> b \<Longrightarrow> n < b ^ Suc (magnitude b n) \<and> (0 < magnitude b n \<longrightarrow> b ^ magnitude b n \<le> n)"
proof (induction b n rule: magnitude.induct)
  case (1 b n)
  show ?case
  proof (cases "n < b")
    case True
    then show ?thesis by (simp add: magnitude.simps)
  next
    case False
    then have m: "magnitude b n = Suc (magnitude b (n div b))" using "1.prems" by (simp add: magnitude.simps [of b n])
    have IH: "n div b < b ^ Suc (magnitude b (n div b))"
      "0 < magnitude b (n div b) \<longrightarrow> b ^ magnitude b (n div b) \<le> n div b"
      using "1.IH" "1.prems" False by auto
    have "n < b ^ Suc (Suc (magnitude b (n div b)))"
      using IH(1) "1.prems" by (simp add: div_less_iff_less_mult mult.commute)
    moreover have "b ^ magnitude b (n div b) \<le> n div b"
      using IH(2) False "1.prems" by (cases "magnitude b (n div b)") (auto simp: Suc_le_eq div_greater_zero_iff)
    then have "b ^ Suc (magnitude b (n div b)) \<le> n"
      using "1.prems" by (simp add: less_eq_div_iff_mult_less_eq mult.commute)
    ultimately show ?thesis unfolding m by blast
  qed
qed

lemma digits_lt: "2 \<le> b \<Longrightarrow> n < b ^ Suc k \<Longrightarrow> d \<in> set (digits b k n) \<Longrightarrow> d < b"
proof (induction k arbitrary: n)
  case (Suc k)
  from Suc.prems consider "d = n div b ^ Suc k" | "d \<in> set (digits b k (n mod b ^ Suc k))" by auto
  then show ?case
  proof cases
    case 1
    with Suc.prems show ?thesis by (simp add: less_mult_imp_div_less)
  next
    case 2
    have "n mod b ^ Suc k < b ^ Suc k" using Suc.prems(1) by (intro mod_less_divisor) simp
    with 2 Suc.prems(1) Suc.IH show ?thesis by blast
  qed
qed simp

lemma length_digits: "length (digits b k n) = Suc k"
  by (induction k arbitrary: n) simp_all

lemma number_of_digits: "number_of b acc (digits b k n) = acc * b ^ Suc k + n" if "0 < b"
proof (induction k arbitrary: acc n)
  case (Suc k)
  have "number_of b acc (digits b (Suc k) n) = number_of b (acc * b + n div b ^ Suc k) (digits b k (n mod b ^ Suc k))"
    by (simp add: number_of_def)
  also have "\<dots> = acc * b ^ Suc (Suc k) + (n div b ^ Suc k * b ^ Suc k + n mod b ^ Suc k)"
    unfolding Suc by (simp add: algebra_simps)
  finally show ?case by (simp only: div_mult_mod_eq)
qed (simp add: number_of_def)

text \<open>The loop of \<^verbatim>\<open>operator<<(unsigned long)\<close> finds the power of the base without wrapping.\<close>

lemma div_loop_ok:
  assumes "2 \<le> unat base" "j \<le> magnitude (unat base) (unat ival)" "unat dv = unat base ^ j"
  shows "\<exists>dv'. div_loop ival base dv = Some dv' \<and> unat dv' = unat base ^ magnitude (unat base) (unat ival)"
  using assms
proof (induction "magnitude (unat base) (unat ival) - j" arbitrary: j dv)
  case 0
  let ?m = "magnitude (unat base) (unat ival)"
  have j: "j = ?m" using 0 by simp
  have "unat ival < unat base * unat base ^ ?m" using magnitude_bounds [OF 0(2), of "unat ival"] by simp
  then have "unat ival div unat dv < unat base" unfolding 0(4) j by (rule less_mult_imp_div_less)
  then have "\<not> base \<le> ival div dv" by (simp add: word_le_nat_alt unat_div)
  moreover have "dv \<noteq> 0" using 0(2,4) by (auto simp: word_unat_eq_iff)
  ultimately show ?case using 0(4) j by (subst div_loop.simps) simp
next
  case (Suc k)
  let ?m = "magnitude (unat base) (unat ival)"
  have "unat base ^ Suc j \<le> unat base ^ ?m" using Suc by (intro power_increasing) auto
  also have "\<dots> \<le> unat ival" using magnitude_bounds [OF Suc(3), of "unat ival"] Suc(2) by simp
  finally have le: "unat base ^ Suc j \<le> unat ival" .
  then have "unat base \<le> unat ival div unat dv"
    unfolding Suc(5) using Suc(3) by (simp add: less_eq_div_iff_mult_less_eq)
  then have "base \<le> ival div dv" by (simp add: word_le_nat_alt unat_div)
  moreover have "dv \<noteq> 0" using Suc(3,5) by (auto simp: word_unat_eq_iff)
  moreover have "unat (dv * base) = unat base ^ Suc j"
    using le Suc(5) unat_lt2p_32 [of ival] by (simp add: unat_word_ariths take_bit_nat_eq_self_iff mult.commute)
  ultimately show ?case
    using Suc.hyps(1) [of "Suc j" "dv * base"] Suc.hyps(2) Suc.prems by (subst div_loop.simps) simp
qed

subsection \<open>What arrives at the device\<close>

locale stream_device =
  fixes fl :: "'d ostream \<Rightarrow> 'd ostream option"
    and dev_ok :: "'d \<Rightarrow> bool"
    and shows_text :: "'d \<Rightarrow> u8 list \<Rightarrow> 'd \<Rightarrow> bool"
  assumes flush_shows: "dev_ok (o_dev s) \<Longrightarrow> o_pos s \<le> length (o_buf s) \<Longrightarrow> length (o_buf s) = 80 \<Longrightarrow>
      \<exists>d. fl s = Some (s\<lparr>o_pos := 0, o_dev := d\<rparr>) \<and> dev_ok d \<and>
        shows_text (o_dev s) (take (o_pos s) (o_buf s)) d"
    and shows_nothing: "dev_ok d \<Longrightarrow> shows_text d [] d"
    and shows_append: "shows_text d xs d' \<Longrightarrow> shows_text d' ys d'' \<Longrightarrow> shows_text d (xs @ ys) d''"
begin

text \<open>\<open>received s d out\<close>: since \<open>d\<close>, the text \<open>out\<close> was written; some of it is still in the
  buffer.\<close>

definition received :: "'d ostream \<Rightarrow> 'd \<Rightarrow> u8 list \<Rightarrow> bool" where
  "received s d out \<longleftrightarrow> (\<exists>xs. shows_text d xs (o_dev s) \<and> out = xs @ take (o_pos s) (o_buf s)) \<and>
     dev_ok (o_dev s) \<and> o_pos s < 80 \<and> length (o_buf s) = 80"

definition writes :: "'d ostream option \<Rightarrow> 'd \<Rightarrow> u8 list \<Rightarrow> int \<Rightarrow> bool" where
  "writes r d out base \<longleftrightarrow> (\<exists>s. r = Some s \<and> received s d out \<and> o_base s = base)"

lemma writesE:
  assumes "writes r d out base"
  obtains s where "r = Some s" "received s d out" "o_base s = base"
  using assms by (auto simp: writes_def)

lemma writes_bind:
  assumes "writes r d out base"
    and "\<And>s. received s d out \<Longrightarrow> o_base s = base \<Longrightarrow> writes (f s) d out' base'"
  shows "writes (Option.bind r f) d out' base'"
  using assms by (auto elim: writesE)

lemma received_start: "dev_ok d \<Longrightarrow> length buf = 80 \<Longrightarrow> received (ostream_new buf d) d []"
  by (auto simp: received_def ostream_new_def shows_nothing)

lemma received_base [simp]: "received (s\<lparr>o_base := b\<rparr>) d out \<longleftrightarrow> received s d out"
  by (simp add: received_def)

lemma fl_writes:
  assumes "received s d out"
  shows "\<exists>s'. fl s = Some s' \<and> received s' d out \<and> o_base s' = o_base s \<and> o_pos s' = 0 \<and> shows_text d out (o_dev s')"
proof -
  obtain xs where xs: "shows_text d xs (o_dev s)" "out = xs @ take (o_pos s) (o_buf s)"
    and s: "dev_ok (o_dev s)" "o_pos s < 80" "length (o_buf s) = 80"
    using assms by (auto simp: received_def)
  then obtain d' where d': "fl s = Some (s\<lparr>o_pos := 0, o_dev := d'\<rparr>)" "dev_ok d'"
    "shows_text (o_dev s) (take (o_pos s) (o_buf s)) d'"
    using flush_shows [of s] by auto
  have "shows_text d out d'" unfolding xs(2) using xs(1) d'(3) by (rule shows_append)
  with d' s show ?thesis by (auto simp: received_def)
qed

lemma put_writes:
  assumes "received s d out"
  shows "writes (o_put fl c s) d (out @ [c]) (o_base s)"
proof -
  obtain xs where xs: "shows_text d xs (o_dev s)" "out = xs @ take (o_pos s) (o_buf s)"
    and s: "dev_ok (o_dev s)" "o_pos s < 80" "length (o_buf s) = 80"
    using assms by (auto simp: received_def)
  let ?s = "s\<lparr>o_buf := (o_buf s)[o_pos s := c], o_pos := o_pos s + 1\<rparr>"
  have tk: "take (o_pos s + 1) ((o_buf s)[o_pos s := c]) = take (o_pos s) (o_buf s) @ [c]"
    using s by (simp add: take_Suc_conv_app_nth)
  show ?thesis
  proof (cases "o_pos s + 1 = 80")
    case False
    then have "received ?s d (out @ [c])" using xs s tk by (auto simp: received_def)
    with False s show ?thesis by (auto simp: o_put_def Let_def writes_def)
  next
    case True
    then obtain d' where d': "fl ?s = Some (?s\<lparr>o_pos := 0, o_dev := d'\<rparr>)" "dev_ok d'"
      "shows_text (o_dev s) (take (o_pos s + 1) ((o_buf s)[o_pos s := c])) d'"
      using flush_shows [of ?s] s by auto
    have "shows_text d (xs @ (take (o_pos s) (o_buf s) @ [c])) d'"
      using shows_append [OF xs(1)] d'(3) tk by simp
    then have "received (?s\<lparr>o_pos := 0, o_dev := d'\<rparr>) d (out @ [c])"
      using d'(2) s xs(2) by (auto simp: received_def)
    with d'(1) True s show ?thesis by (auto simp: o_put_def Let_def writes_def)
  qed
qed

lemma puts_writes: "received s d out \<Longrightarrow> writes (o_puts fl cs s) d (out @ cs) (o_base s)"
proof (induction cs arbitrary: s out)
  case (Cons c cs)
  have "writes (o_put fl c s) d (out @ [c]) (o_base s)" by (rule put_writes [OF Cons.prems])
  then obtain s' where "o_put fl c s = Some s'" "received s' d (out @ [c])" "o_base s' = o_base s"
    by (rule writesE)
  with Cons.IH [of s' "out @ [c]"] show ?case by simp
qed (simp add: writes_def)

lemma endl_writes:
  assumes "received s d out"
  shows "\<exists>s'. o_endl fl s = Some s' \<and> received s' d (out @ [10]) \<and> o_base s' = o_base s \<and> o_pos s' = 0 \<and>
    shows_text d (out @ [10]) (o_dev s')"
proof -
  obtain s1 where "o_put fl 10 s = Some s1" "received s1 d (out @ [10])" "o_base s1 = o_base s"
    using put_writes [OF assms] by (rule writesE)
  with fl_writes [of s1] show ?thesis by (auto simp: o_endl_def)
qed

lemma digit_loop_writes:
  assumes "2 \<le> unat base" "unat base \<le> 36"
  shows "received s d out \<Longrightarrow> unat dv = unat base ^ k \<Longrightarrow> unat ival < unat base ^ Suc k \<Longrightarrow>
    writes (digit_loop fl base ival dv s) d
      (out @ map (\<lambda>v. digit_char (of_nat v)) (digits (unat base) k (unat ival))) (o_base s)"
proof (induction k arbitrary: s out ival dv)
  case 0
  then have dv: "dv = 1" by (simp add: word_unat_eq_iff)
  obtain s1 where s1: "o_put fl (digit_char (of_nat (unat ival))) s = Some s1"
    "received s1 d (out @ [digit_char (of_nat (unat ival))])" "o_base s1 = o_base s"
    using put_writes [OF 0(1)] by (rule writesE)
  have "1 div base = 0" using assms(1) by (simp add: word_unat_eq_iff unat_div)
  moreover have "base \<noteq> 0" using assms(1) by auto
  ultimately show ?case
    using s1 by (subst digit_loop.simps) (simp add: dv digit_loop.simps writes_def)
next
  case (Suc k)
  define v where "v = unat ival div unat base ^ Suc k"
  have dg: "digits (unat base) (Suc k) (unat ival) = v # digits (unat base) k (unat ival mod unat base ^ Suc k)"
    by (simp add: v_def)
  have v: "(ucast (ival div dv) :: u8) = of_nat v"
    unfolding v_def Suc.prems(2) [symmetric] unat_div [symmetric] by simp
  obtain s1 where s1: "o_put fl (digit_char (of_nat v)) s = Some s1"
    "received s1 d (out @ [digit_char (of_nat v)])" "o_base s1 = o_base s"
    using put_writes [OF Suc.prems(1)] by (rule writesE)
  have pos: "0 < unat base ^ k" using assms(1) by simp
  have m: "unat (ival mod dv) = unat ival mod unat base ^ Suc k" by (simp add: Suc.prems(2) unat_mod)
  have dv': "unat (dv div base) = unat base ^ k" using assms(1) by (simp add: unat_div Suc.prems(2))
  have "unat (ival mod dv) < unat base ^ Suc k" unfolding m using assms(1) by (intro mod_less_divisor) simp
  then have "writes (digit_loop fl base (ival mod dv) (dv div base) s1) d
      ((out @ [digit_char (of_nat v)]) @ map (\<lambda>v. digit_char (of_nat v)) (digits (unat base) k (unat (ival mod dv)))) (o_base s1)"
    by (intro Suc.IH s1(2) dv')
  moreover have "0 < dv" "base \<noteq> 0" using pos assms(1) Suc.prems(2) by (auto simp: word_less_nat_alt)
  ultimately show ?case
    using s1 v by (subst digit_loop.simps) (simp add: m dg del: digits.simps)
qed

lemma ulong_writes:
  assumes "received s d out" "o_base s = int b" "2 \<le> b" "b \<le> 36"
  shows "writes (o_ulong fl ival s) d (out @ ulong_text b (unat ival)) (int b)"
proof -
  obtain s1 where s1: "o_puts fl (prefix_text (int b)) s = Some s1"
    "received s1 d (out @ prefix_text (int b))" "o_base s1 = int b"
    using puts_writes [OF assms(1)] assms(2) by (auto elim: writesE)
  have base: "unat (base_word s1) = b" using s1(3) assms(4) by (simp add: base_word_def unat_of_nat_small)
  obtain dv where dv: "div_loop ival (base_word s1) 1 = Some dv" "unat dv = b ^ magnitude b (unat ival)"
    using div_loop_ok [of "base_word s1" 0 ival 1] base assms(3) by auto
  have "unat ival < b ^ Suc (magnitude b (unat ival))" using magnitude_bounds [OF assms(3)] by blast
  then have "writes (digit_loop fl (base_word s1) ival dv s1) d ((out @ prefix_text (int b)) @
      map (\<lambda>v. digit_char (of_nat v)) (digits b (magnitude b (unat ival)) (unat ival))) (o_base s1)"
    using digit_loop_writes [of "base_word s1" s1 d "out @ prefix_text (int b)" dv "magnitude b (unat ival)" ival] s1(2) dv(2) base assms(3,4)
    by simp
  with s1 dv(1) assms(2) show ?thesis by (simp add: o_ulong_def ulong_text_def)
qed

lemma long_writes:
  assumes "received s d out" "o_base s = int b" "2 \<le> b" "b \<le> 36"
  shows "writes (o_long fl ival s) d (out @ long_text b ival) (int b)"
proof (cases "b = 10 \<and> sint ival < 0")
  case True
  obtain s1 where s1: "o_put fl 45 s = Some s1" "received s1 d (out @ [45])" "o_base s1 = int b"
    using put_writes [OF assms(1)] assms(2) by (auto elim: writesE)
  with ulong_writes [OF s1(2,3) assms(3,4), of "- ival"] True assms(2) show ?thesis
    by (simp add: o_long_def long_text_def)
next
  case False
  then have "\<not> (o_base s = 10 \<and> sint ival < 0)" using assms(2) by auto
  with ulong_writes [OF assms, of ival] False show ?thesis by (simp only: o_long_def long_text_def if_False)
qed

lemma pointer_writes:
  assumes "received s d out"
  shows "writes (o_pointer fl ptr s) d (out @ ulong_text 16 (unat ptr)) (o_base s)"
proof -
  obtain s1 where "o_ulong fl ptr (s\<lparr>o_base := 16\<rparr>) = Some s1" "received s1 d (out @ ulong_text 16 (unat ptr))"
    using ulong_writes [of "s\<lparr>o_base := 16\<rparr>" d out 16 ptr] assms by (auto elim: writesE)
  then show ?thesis by (simp add: o_pointer_def Let_def writes_def)
qed

end

subsection \<open>Strings\<close>

lemma str_at_inside: "str_rep t xs \<Longrightarrow> i < length xs \<Longrightarrow> str_at alloc (of_nat i) t = Some t"
proof -
  assume t: "str_rep t xs" "i < length xs"
  then have "i < 2147483648" using str_rep_lt by fastforce
  moreover from this have "unat (of_nat i :: u32) = i" by (simp add: unat_of_nat_small)
  moreover have "of_nat i \<noteq> s_len t" using calculation t str_rep_len [OF t(1)] by (metis nat_neq_iff)
  ultimately show ?thesis
    using t by (simp add: str_at_def sint_of_nat_nonneg word_le_nat_alt str_rep_len)
qed

lemma byte_read_inside: "str_rep t xs \<Longrightarrow> i < length xs \<Longrightarrow> byte_read (of_nat i) (s_buf t) = Some (xs ! i)"
proof -
  assume t: "str_rep t xs" "i < length xs"
  then have "unat (of_nat i :: u32) = i" using str_rep_lt [OF t(1)] by (simp add: unat_of_nat_small)
  with t show ?thesis by (simp add: byte_read_def str_rep_byte)
qed

lemma iter_next_inside:
  "str_rep t xs \<Longrightarrow> i < length xs \<Longrightarrow>
     iter_next t (Some (of_nat i)) = (if Suc i < length xs then Some (of_nat (Suc i)) else None)"
proof -
  assume t: "str_rep t xs" "i < length xs"
  have "unat (of_nat (Suc i) :: u32) = Suc i" using t str_rep_lt [OF t(1)] by (intro unat_of_nat_small) simp
  moreover have "(of_nat i + 1 :: u32) = of_nat (Suc i)" by simp
  ultimately show ?thesis
    using t by (simp add: iter_next_def word_le_nat_alt str_rep_len not_less del: of_nat_Suc)
qed

context stream_device begin

lemma string_loop_writes:
  assumes "str_rep t xs"
  shows "received s d out \<Longrightarrow> i < length xs \<Longrightarrow>
    \<exists>s'. o_string_loop fl alloc (of_nat i) t s = Some (t, s') \<and> received s' d (out @ drop i xs) \<and> o_base s' = o_base s"
proof (induction "length xs - i" arbitrary: s out i)
  case (Suc n)
  obtain s1 where s1: "o_put fl (xs ! i) s = Some s1" "received s1 d (out @ [xs ! i])" "o_base s1 = o_base s"
    using put_writes [OF Suc.prems(1)] by (rule writesE)
  have dr: "drop i xs = xs ! i # drop (Suc i) xs" using Suc.prems(2) by (simp add: Cons_nth_drop_Suc)
  show ?case
  proof (cases "Suc i < length xs")
    case True
    have "n = length xs - Suc i" using Suc.hyps(2) by simp
    from Suc.hyps(1) [OF this s1(2) True] s1 dr True show ?thesis
      by (subst o_string_loop.simps)
        (simp add: str_at_inside [OF assms Suc.prems(2)] byte_read_inside [OF assms Suc.prems(2)]
          iter_next_inside [OF assms Suc.prems(2)] del: of_nat_Suc)
  next
    case False
    with s1 dr show ?thesis
      by (subst o_string_loop.simps)
        (simp add: str_at_inside [OF assms Suc.prems(2)] byte_read_inside [OF assms Suc.prems(2)]
          iter_next_inside [OF assms Suc.prems(2)])
  qed
qed simp

lemma string_writes:
  assumes "received s d out" "str_rep t xs" "xs \<noteq> []"
  shows "\<exists>s'. o_string fl alloc t s = Some (t, s') \<and> received s' d (out @ xs) \<and> o_base s' = o_base s"
  using string_loop_writes [OF assms(2,1), of 0] assms(3) by (simp add: o_string_def)

text \<open>The empty string is written as one byte 0, because the range loop runs at least once.\<close>

lemma empty_string_writes:
  assumes "received s d out" "str_rep t []" "mem_ok alloc 1"
  shows "\<exists>t' s'. o_string fl alloc t s = Some (t', s') \<and> received s' d (out @ [0]) \<and> str_rep t' []"
proof -
  have len: "s_len t = 0" using assms(2) by (simp add: str_rep_of_nat)
  obtain t1 where t1: "str_reserve alloc 1 t = Some t1" "str_rep t1 []" "1 \<le> unat (str_capacity t1)" "s_len t1 = 0"
    using reserve_rep [OF assms(2), of 1 alloc] assms(3) len by auto
  then have "0 < length (s_buf t1)" by (auto simp: str_rep_def)
  then have at: "str_at alloc 0 t = Some (t1\<lparr>s_buf := (s_buf t1)[0 := Some 0]\<rparr>)"
    using t1 len by (simp add: str_at_def append_nullbyte_def byte_write_def)
  obtain s1 where "o_put fl 0 s = Some s1" "received s1 d (out @ [0])"
    using put_writes [OF assms(1)] by (auto elim: writesE)
  moreover have "str_rep (t1\<lparr>s_buf := (s_buf t1)[0 := Some 0]\<rparr>) []"
    using t1(2) by (simp add: str_rep_def str_capacity_def)
  ultimately show ?thesis using at t1(4) \<open>0 < length (s_buf t1)\<close>
    by (auto simp: o_string_def o_string_loop.simps [of _ _ 0] byte_read_def iter_next_def)
qed

end

end
