(* ===== verification/NumberText.thy ===== *)
theory NumberText
  imports OStream
begin

section \<open>Printing a number and reading it back\<close>

text \<open>
  \<open>long_text\<close> is what \<^verbatim>\<open>operator<<(long)\<close> writes (theory \<open>OStream\<close>). Here: \<^verbatim>\<open>strtol\<close> with
  base 0 reads the number from it, for the four bases the manipulators select.
\<close>

lemma compare_lit_rep:
  assumes "str_rep s xs" "unat i + length cs < 4294967296" "length cs \<le> 20" "mem_ok alloc 20"
  shows "compare_lit alloc i cs s =
    Some (unat i + length cs \<le> length xs \<and> take (length cs) (drop (unat i) xs) = cs)"
proof -
  obtain t where "str_from alloc cs = Some t" "str_rep t cs"
    using str_from_rep [of cs alloc] mem_ok_mono [OF assms(4,3)] assms(3) by (auto elim: yieldsE)
  then show ?thesis using compare_rep [OF assms(1), of t cs i] assms(2) by (simp add: compare_lit_def)
qed

text \<open>The prefix of a string whose rest at \<open>i\<close> is known.\<close>

lemma prefix_rep:
  assumes "str_rep s xs" "drop (unat i) xs = ys" "unat i \<le> length xs" "mem_ok alloc 20"
  shows "strtol_prefix alloc s i 0 = Some
    (if take 2 ys = [48, 98] \<or> take 2 ys = [48, 66] then (i + 2, 2)
     else if take 2 ys = [48, 120] \<or> take 2 ys = [48, 88] then (i + 2, 16)
     else if take 1 ys = [48] \<and> 1 < length ys then (i + 1, 8) else (i, 10))"
proof -
  have lt: "unat i < 2147483648" using assms(3) str_rep_lt [OF assms(1)] by simp
  have len: "length ys = length xs - unat i" using assms(2) by auto
  have two: "compare_lit alloc i [a, b] s = Some (take 2 ys = [a, b])" for a b
  proof -
    have "take 2 ys = [a, b] \<Longrightarrow> unat i + 2 \<le> length xs"
      using len by (metis One_nat_def Suc_1 add_le_cancel_left assms(3) le_add_diff_inverse length_Cons length_take list.size(3) min.cobounded1)
    then show ?thesis
      using compare_lit_rep [OF assms(1), of i "[a, b]" alloc] lt assms(2,4) by (auto simp: numeral_2_eq_2)
  qed
  have one: "compare_lit alloc i [a] s = Some (take 1 ys = [a])" for a
  proof -
    have "take 1 ys = [a] \<Longrightarrow> unat i + 1 \<le> length xs"
      using len assms(3) by (cases ys) auto
    then show ?thesis
      using compare_lit_rep [OF assms(1), of i "[a]" alloc] lt assms(2,4) by auto
  qed
  have "i + 1 < s_len s \<longleftrightarrow> 1 < length ys"
    using lt len assms(1,3) by (auto simp: word_less_nat_alt unat_plus_small str_rep_len)
  then show ?thesis by (simp add: strtol_prefix_def two one)
qed

lemma first_no_space:
  assumes "str_rep s (c # cs)" "c \<noteq> 32"
  shows "for_find 0 (s_len s) (\<lambda>i. do { c \<leftarrow> str_get s i; Some (c \<noteq> 32) }) = Some 0"
    "0 < s_len s" "str_get s 0 = Some c"
proof -
  show less: "0 < s_len s" using str_rep_len [OF assms(1)] by (simp add: word_less_nat_alt)
  show get: "str_get s 0 = Some c" using str_get_rep [OF assms(1), of 0] by simp
  show "for_find 0 (s_len s) (\<lambda>i. do { c \<leftarrow> str_get s i; Some (c \<noteq> 32) }) = Some 0"
    using less get assms(2) by (simp add: for_find.simps)
qed

definition bases :: "nat set" where "bases = {2, 8, 10, 16}"

lemma digit_of_char: "b \<in> bases \<Longrightarrow> d < b \<Longrightarrow> digit_of b (digit_char (of_nat d)) = Some d"
proof -
  have all: "list_all (\<lambda>b. list_all (\<lambda>d. digit_of b (digit_char (of_nat d)) = Some d) [0..<b]) [2, 8, 10, 16]"
    by code_simp
  show "b \<in> bases \<Longrightarrow> d < b \<Longrightarrow> digit_of b (digit_char (of_nat d)) = Some d"
    using all by (auto simp: bases_def list_all_iff)
qed

lemma digit_char_values:
  "d < 16 \<Longrightarrow> digit_char (of_nat d) \<notin> {32, 45, 66, 120, 88}"
  "d < 8 \<Longrightarrow> digit_char (of_nat d) \<noteq> 98"
  "d < 16 \<Longrightarrow> digit_char (of_nat d) = 48 \<longleftrightarrow> d = 0"
proof -
  have all: "list_all (\<lambda>d. digit_char (of_nat d) \<notin> {32, 45, 66, 120, 88} \<and> (d < 8 \<longrightarrow> digit_char (of_nat d) \<noteq> 98) \<and>
      (digit_char (of_nat d) = 48 \<longleftrightarrow> d = 0)) [0..<16]" by code_simp
  have "digit_char (of_nat d) \<notin> {32, 45, 66, 120, 88} \<and> (d < 8 \<longrightarrow> digit_char (of_nat d) \<noteq> 98) \<and>
      (digit_char (of_nat d) = 48 \<longleftrightarrow> d = 0)" if "d < 16" for d
  proof -
    have "d \<in> set [0..<16]" using that by simp
    from bspec [OF all [unfolded list_all_iff] this] show ?thesis .
  qed
  then show "d < 16 \<Longrightarrow> digit_char (of_nat d) \<notin> {32, 45, 66, 120, 88}"
    "d < 8 \<Longrightarrow> digit_char (of_nat d) \<noteq> 98"
    "d < 16 \<Longrightarrow> digit_char (of_nat d) = 48 \<longleftrightarrow> d = 0" by simp_all
qed

lemma hd_digits: "2 \<le> b \<Longrightarrow> magnitude b n \<noteq> 0 \<Longrightarrow> hd (digits b (magnitude b n) n) \<noteq> 0"
  using magnitude_bounds [of b n]
  by (cases "magnitude b n") (auto simp: div_eq_0_iff simp del: power_Suc)

definition digit_text :: "nat \<Rightarrow> nat \<Rightarrow> u8 list" where
  "digit_text b n = map (\<lambda>d. digit_char (of_nat d)) (digits b (magnitude b n) n)"

lemma digit_text_Cons:
  assumes "b \<in> bases"
  obtains d ds where "digits b (magnitude b n) n = d # ds" "d < b" "d = 0 \<longrightarrow> ds = []" "set ds \<subseteq> {..<b}"
proof -
  have b: "2 \<le> b" using assms by (auto simp: bases_def)
  obtain d ds where ds: "digits b (magnitude b n) n = d # ds"
    using length_digits [of b "magnitude b n" n] by (cases "digits b (magnitude b n) n") auto
  have "n < b ^ Suc (magnitude b n)" using magnitude_bounds [OF b] by blast
  from digits_lt [OF b this] ds have lt: "d < b" "set ds \<subseteq> {..<b}" by auto
  have "ds = []" if "d = 0"
  proof -
    have "magnitude b n = 0" using hd_digits [OF b] ds that by fastforce
    with ds show ?thesis by simp
  qed
  with ds lt that show ?thesis by blast
qed

text \<open>The position behind the prefix of the printed number, and its base.\<close>

lemma prefix_ulong_text:
  assumes "b \<in> bases" "str_rep s xs" "drop (unat i) xs = ulong_text b n" "unat i \<le> length xs" "mem_ok alloc 20"
  shows "strtol_prefix alloc s i 0 = Some (i + of_nat (length (prefix_text (int b))), int b)"
proof -
  obtain d ds where ds: "digits b (magnitude b n) n = d # ds" "d < b" "d = 0 \<longrightarrow> ds = []" "set ds \<subseteq> {..<b}"
    by (rule digit_text_Cons [OF assms(1)])
  note pre = prefix_rep [OF assms(2,3,4,5)]
  have text_eq: "ulong_text b n = prefix_text (int b) @ digit_char (of_nat d) # map (\<lambda>d. digit_char (of_nat d)) ds"
    by (simp add: ulong_text_def ds(1))
  consider "b = 2" | "b = 8" | "b = 10" | "b = 16" using assms(1) by (auto simp: bases_def)
  then show ?thesis
  proof cases
    case 1
    then show ?thesis unfolding pre text_eq by (simp add: prefix_text_def ascii_def)
  next
    case 2
    then show ?thesis unfolding pre text_eq
      using digit_char_values [of d] ds(2) by (simp add: prefix_text_def ascii_def)
  next
    case 3
    show ?thesis
    proof (cases "d = 0")
      case True
      then show ?thesis unfolding pre text_eq using 3 ds(3) by (simp add: prefix_text_def)
    next
      case False
      then show ?thesis unfolding pre text_eq using 3 digit_char_values(3) [of d] ds(2) by (simp add: prefix_text_def)
    qed
  next
    case 4
    then show ?thesis unfolding pre text_eq by (simp add: prefix_text_def ascii_def)
  qed
qed

lemma strtol_ulong_loop:
  assumes "b \<in> bases" "str_rep s xs" "drop (unat i) xs = digit_text b n" "unat i \<le> length xs" "n < 4294967296"
  shows "strtol_loop (int b) s i err 0 = Some (False, False, of_nat n)"
proof -
  have b: "2 \<le> b" "b \<le> 36" using assms(1) by (auto simp: bases_def)
  obtain d ds where ds: "digits b (magnitude b n) n = d # ds" "d < b" "set ds \<subseteq> {..<b}"
    by (rule digit_text_Cons [OF assms(1)])
  have "map (digit_of b) (drop (unat i) xs) = map Some (d # ds)"
    using ds digit_of_char [OF assms(1)] by (auto simp: assms(3) digit_text_def)
  moreover have num: "number_of b (unat (0 :: u32)) (d # ds) = n"
    using number_of_digits [of b 0 "magnitude b n" n] b(1) ds(1) by simp
  ultimately show ?thesis
    using strtol_loop_rep [OF assms(2) b assms(4), of "d # ds" 0 err] assms(5) by simp
qed

lemma strtol_number:
  assumes "b \<in> bases" "str_rep s xs" "drop (unat i) xs = ulong_text b n" "unat i \<le> length xs"
    and "n < 4294967296" "mem_ok alloc 20"
  shows "do { (i, base) \<leftarrow> strtol_prefix alloc s i 0; strtol_loop base s i True 0 } = Some (False, False, of_nat n)"
proof -
  let ?k = "length (prefix_text (int b))"
  have k: "?k \<le> 2" by (simp add: prefix_text_def ascii_def)
  have "length (ulong_text b n) = length xs - unat i" using assms(3) by (metis length_drop)
  then have le: "unat i + ?k \<le> length xs" using assms(4) by (simp add: ulong_text_def)
  have "unat (of_nat ?k :: u32) = ?k" using k by (intro unat_of_nat_small) simp
  then have sum: "unat (i + of_nat ?k) = unat i + ?k"
    using unat_plus_small [of i "of_nat ?k"] str_rep_lt [OF assms(2)] le by simp
  have "drop (unat (i + of_nat ?k)) xs = drop ?k (drop (unat i) xs)"
    unfolding sum by (simp add: add.commute)
  also have "\<dots> = digit_text b n" unfolding assms(3) by (simp add: ulong_text_def digit_text_def)
  finally have "strtol_loop (int b) s (i + of_nat ?k) True 0 = Some (False, False, of_nat n)"
    using le sum assms(5) by (intro strtol_ulong_loop [OF assms(1,2)]) auto
  then show ?thesis using prefix_ulong_text [OF assms(1-4,6)] by simp
qed

text \<open>Reading back what \<^verbatim>\<open>operator<<(long)\<close> wrote. The most negative number is not read back,
  because its absolute value is above \<^verbatim>\<open>SSIZE_MAX\<close>; neither are numbers with the top bit in the
  other bases, which are printed as unsigned.\<close>

lemma ulong_text_Cons:
  assumes "b \<in> bases"
  obtains c cs where "ulong_text b n = c # cs" "c \<noteq> 32" "c \<noteq> 45"
proof -
  obtain d ds where ds: "digits b (magnitude b n) n = d # ds" "d < b"
    by (rule digit_text_Cons [OF assms])
  have "prefix_text (int b) = [] \<or> hd (prefix_text (int b)) = 48 \<and> prefix_text (int b) \<noteq> []"
    by (simp add: prefix_text_def ascii_def)
  moreover have "digit_char (of_nat d) \<noteq> 32" "digit_char (of_nat d) \<noteq> 45"
    using digit_char_values(1) [of d] ds(2) assms by (auto simp: bases_def)
  ultimately have "ulong_text b n \<noteq> [] \<and> hd (ulong_text b n) \<noteq> 32 \<and> hd (ulong_text b n) \<noteq> 45"
    using ds(1) by (auto simp: ulong_text_def hd_append)
  with that show ?thesis by (cases "ulong_text b n") auto
qed

text \<open>What \<^verbatim>\<open>strtol\<close> answers to the digits of a number, without and with a sign: above
  \<^verbatim>\<open>SSIZE_MAX\<close> it reports an error.\<close>

definition readable :: "nat \<Rightarrow> int \<Rightarrow> int \<times> bool" where
  "readable n v = (if n < 2147483648 then (v, False) else (2147483647, True))"

lemma SSIZE_MAX_less: "n < 4294967296 \<Longrightarrow> SSIZE_MAX < of_nat n \<longleftrightarrow> 2147483648 \<le> n"
  by (auto simp: SSIZE_MAX_def word_less_nat_alt unat_of_nat_small)

lemma strtol_ulong_text:
  assumes "b \<in> bases" "str_rep s (ulong_text b n)" "n < 4294967296" "mem_ok alloc 20"
  shows "strtol alloc s 0 = Some (readable n (int n))"
proof -
  obtain c cs where c: "ulong_text b n = c # cs" "c \<noteq> 32" "c \<noteq> 45" by (rule ulong_text_Cons [OF assms(1)])
  have head: "for_find 0 (s_len s) (\<lambda>i. do { c \<leftarrow> str_get s i; Some (c \<noteq> 32) }) = Some 0" "0 < s_len s"
    "str_get s 0 = Some c"
    using first_no_space [OF _ c(2)] assms(2) c(1) by simp_all
  have num: "do { (i, base) \<leftarrow> strtol_prefix alloc s 0 0; strtol_loop base s i True 0 } = Some (False, False, of_nat n)"
    using assms(2,3) by (intro strtol_number [OF assms(1,2) _ _ _ assms(4)]) simp_all
  have "sint (of_nat n :: u32) = int n" if "n < 2147483648" using that by (simp add: sint_small unat_of_nat_small)
  then show ?thesis
    using head num c(3) SSIZE_MAX_less [OF assms(3)]
    by (auto simp: strtol_def Let_def readable_def SSIZE_MAX_def split: Option.bind_splits)
qed

lemma strtol_neg_text:
  assumes "b \<in> bases" "str_rep s (45 # ulong_text b n)" "n < 4294967296" "mem_ok alloc 20"
  shows "strtol alloc s 0 = Some (readable n (- int n))"
proof -
  have head: "for_find 0 (s_len s) (\<lambda>i. do { c \<leftarrow> str_get s i; Some (c \<noteq> 32) }) = Some 0" "0 < s_len s"
    "str_get s 0 = Some 45"
    using first_no_space [OF assms(2)] by simp_all
  have num: "do { (i, base) \<leftarrow> strtol_prefix alloc s (0 + 1) 0; strtol_loop base s i True 0 } = Some (False, False, of_nat n)"
    using assms(2,3) by (intro strtol_number [OF assms(1,2) _ _ _ assms(4)]) simp_all
  have "sint (of_nat n :: u32) = int n" if "n < 2147483648" using that by (simp add: sint_small unat_of_nat_small)
  then show ?thesis
    using head num SSIZE_MAX_less [OF assms(3)]
    by (auto simp: strtol_def Let_def readable_def SSIZE_MAX_def split: Option.bind_splits)
qed

text \<open>The absolute value that is printed behind a minus sign.\<close>

lemma unat_minus_negative:
  assumes "sint (v :: u32) < 0"
  shows "unat (- v) = 4294967296 - unat v" "sint v = int (unat v) - 4294967296" "2147483648 \<le> unat v"
proof -
  show le: "2147483648 \<le> unat v" using assms sint_ge_0_iff [of v] by simp
  have "v + of_nat (4294967296 - unat v) = of_nat (unat v + (4294967296 - unat v))"
    by (simp only: of_nat_add unat_of_nat_self)
  also have "unat v + (4294967296 - unat v) = 4294967296" using unat_lt2p_32 [of v] by simp
  also have "(of_nat 4294967296 :: u32) = 0" by simp
  finally have "- v = of_nat (4294967296 - unat v)" by (rule minus_unique)
  then show "unat (- v) = 4294967296 - unat v" using le by (simp only:) (simp add: unat_of_nat_small)
  have "take_bit 32 (int (unat v) + 2147483648) = (int (unat v) - 2147483648 + 4294967296) mod 4294967296"
    by (simp add: take_bit_eq_mod add.commute)
  also have "\<dots> = (int (unat v) - 2147483648) mod 4294967296" by (rule mod_add_self2)
  also have "\<dots> = int (unat v) - 2147483648"
    using le unat_lt2p_32 [of v] by (intro mod_pos_pos_trivial) linarith+
  finally have "take_bit 32 (int (unat v) + 2147483648) = int (unat v) - 2147483648" .
  moreover have "sint v = signed_take_bit 31 (int (unat v))" by (simp add: sint_uint)
  ultimately show "sint v = int (unat v) - 4294967296" by (simp add: signed_take_bit_eq_take_bit_shift)
qed

text \<open>The number that \<^verbatim>\<open>operator<<(long)\<close> wrote: all but the least one are read back in base 10;
  in the other bases a negative number is printed as an unsigned one, which is too large.\<close>

lemma strtol_long_any:
  assumes "b \<in> bases" "str_rep s (long_text b v)" "mem_ok alloc 20"
  shows "strtol alloc s 0 =
    Some (if (if b = 10 then v \<noteq> 0x80000000 else 0 \<le> sint v) then (sint v, False) else (2147483647, True))"
proof (cases "b = 10 \<and> sint v < 0")
  case True
  note neg = unat_minus_negative [of v]
  have "v = 0x80000000 \<longleftrightarrow> unat v = 2147483648" by (simp add: word_unat_eq_iff)
  then have "unat (- v) < 2147483648 \<longleftrightarrow> v \<noteq> 0x80000000" using neg True unat_lt2p_32 [of v] by auto
  moreover have "- int (unat (- v)) = sint v" using neg True unat_lt2p_32 [of v] by simp
  moreover have "strtol alloc s 0 = Some (readable (unat (- v)) (- int (unat (- v))))"
    using assms(2) True by (intro strtol_neg_text [OF assms(1) _ _ assms(3)]) (simp_all add: long_text_def unat_lt2p_32)
  ultimately show ?thesis using True by (simp add: readable_def)
next
  case False
  have "strtol alloc s 0 = Some (readable (unat v) (int (unat v)))"
    using assms(2) False unat_lt2p_32 [of v]
    by (intro strtol_ulong_text [OF assms(1) _ _ assms(3)]) (auto simp: long_text_def split: if_splits)
  moreover have "0 \<le> sint v \<longleftrightarrow> unat v < 2147483648" by (simp add: sint_ge_0_iff)
  moreover have "sint v = int (unat v)" if "unat v < 2147483648" using that by (simp add: sint_small)
  moreover have "v \<noteq> 0x80000000" if "0 \<le> sint v" using that by auto
  ultimately show ?thesis using False by (auto simp: readable_def)
qed

lemma strtol_long_text:
  assumes "b \<in> bases" "str_rep s (long_text b v)" "mem_ok alloc 20"
    and "if b = 10 then v \<noteq> 0x80000000 else 0 \<le> sint v"
  shows "strtol alloc s 0 = Some (sint v, False)"
  using strtol_long_any [OF assms(1-3)] assms(4) by simp

end
