(* ===== verification/CGAStream.thy ===== *)
theory CGAStream
  imports Screen NumberText
begin

section \<open>device/cgastr: output streams on windows\<close>

text \<open>
  \<open>cgas\<close> holds what \<^verbatim>\<open>CGA_Stream\<close> adds to \<^verbatim>\<open>O_Stream\<close>: the attributes and the window's state.
  The interpretation \<open>cs\<close> shows that \<^verbatim>\<open>flush\<close> keeps the contract of \<open>stream_device\<close>, with
  the terminal of theory \<open>Screen\<close> as what was shown.
\<close>

record 'w cgas =
  g_orig :: attribute
  g_attr :: attribute
  g_cga :: "'w cga"

definition cga_stream_new :: "'w port_ops \<Rightarrow> window \<Rightarrow> attribute \<Rightarrow> u8 list \<Rightarrow> (int \<Rightarrow> pixel) \<Rightarrow> 'w \<Rightarrow> 'w cgas ostream" where
  "cga_stream_new ops w attr buf mem hw =
     ostream_new buf \<lparr>g_orig = attr, g_attr = attr, g_cga = cga_reset ops w 32 attr (cga_new w mem hw)\<rparr>"

definition cga_flush :: "'w port_ops \<Rightarrow> window \<Rightarrow> 'w cgas ostream \<Rightarrow> 'w cgas ostream option" where
  "cga_flush ops w s =
     (let d = o_dev s in
      Some (s\<lparr>o_pos := 0,
        o_dev := d\<lparr>g_cga := cga_print ops w (take (o_pos s) (o_buf s)) (g_attr d) (g_cga d)\<rparr>\<rparr>))"

definition cga_stream_reset :: "'w port_ops \<Rightarrow> window \<Rightarrow> u8 \<Rightarrow> 'w cgas ostream \<Rightarrow> 'w cgas ostream" where
  "cga_stream_reset ops w c s =
     (let d = o_dev s in s\<lparr>o_dev := d\<lparr>g_cga := cga_reset ops w c (g_attr d) (g_cga d)\<rparr>\<rparr>)"

definition step_back :: "window \<Rightarrow> int \<times> int \<Rightarrow> int \<times> int" where
  "step_back w p = (let (x, y) = p in
     if x = w_from_col w then (w_to_col w, if y \<noteq> w_from_row w then y - 1 else y) else (x - 1, y))"

definition cga_backspace ::
  "'w port_ops \<Rightarrow> window \<Rightarrow> str_heap \<Rightarrow> str option \<Rightarrow> u32 \<Rightarrow> 'w cgas ostream \<Rightarrow> (str option \<times> 'w cgas ostream) option"
where
  "cga_backspace ops w alloc t pos s =
     (if \<exists>t' \<in> set_option t. str_empty t' then Some (t, s)
      else do {
        t \<leftarrow> (case t of None \<Rightarrow> Some None | Some t \<Rightarrow> map_option Some (str_erase alloc pos 1 t));
        let d = o_dev s;
        let (p, c) = getpos ops w (g_cga d);
        let (x, y) = step_back w p;
        let c = c\<lparr>c_mem := show_char x y 32 (attribute_new LIGHT_GREY BLACK False) (c_mem c)\<rparr>;
        Some (t, s\<lparr>o_dev := d\<lparr>g_cga := setpos ops w x y c\<rparr>\<rparr>) })"

text \<open>\<^verbatim>\<open>operator<<(Attribute&)\<close>; \<open>None\<close> stands for the object \<^verbatim>\<open>COLOR_RESET\<close>.\<close>

definition cga_attribute :: "'w port_ops \<Rightarrow> window \<Rightarrow> attribute option \<Rightarrow> 'w cgas ostream \<Rightarrow> 'w cgas ostream option" where
  "cga_attribute ops w attr s = do {
     s \<leftarrow> cga_flush ops w s;
     let d = o_dev s;
     Some (s\<lparr>o_dev := d\<lparr>g_attr := (case attr of None \<Rightarrow> g_orig d | Some a \<Rightarrow> a)\<rparr>\<rparr>) }"

text \<open>The windows of the kernel: \<^verbatim>\<open>kout\<close>, one \<^verbatim>\<open>dout\<close> per CPU, the status line and the clock.\<close>

definition TIME_DISPLAY_LENGTH :: int where "TIME_DISPLAY_LENGTH = 25"

definition make_window :: "int \<Rightarrow> int \<Rightarrow> int \<Rightarrow> int \<Rightarrow> bool \<Rightarrow> window" where
  "make_window fc tc fr tr cur =
     \<lparr>w_from_col = fc, w_to_col = tc, w_from_row = fr, w_to_row = tr, w_cursor = cur\<rparr>"

definition kernel_windows :: "window list" where
  "kernel_windows = [
     make_window 0 79 0 14 True,
     make_window 0 39 15 19 False, make_window 40 79 15 19 False,
     make_window 0 39 20 23 False, make_window 40 79 20 23 False,
     make_window 0 (79 - TIME_DISPLAY_LENGTH - 1) 24 24 False,
     make_window (79 - TIME_DISPLAY_LENGTH) 79 24 24 False]"

text \<open>They lie on the screen and do not overlap, so that output to one never changes what another
  shows.\<close>

lemma kernel_windows_ok: "w \<in> set kernel_windows \<Longrightarrow> window_ok w"
  by (auto simp: kernel_windows_def make_window_def window_ok_def COLUMNS_def ROWS_def TIME_DISPLAY_LENGTH_def)

lemma kernel_windows_disjoint:
  assumes "v \<in> set kernel_windows" "w \<in> set kernel_windows" "in_window v x y" "in_window w x y"
  shows "v = w"
  using assms by (auto simp: kernel_windows_def make_window_def in_window_def TIME_DISPLAY_LENGTH_def)

lemma other_window_unchanged:
  assumes "v \<in> set kernel_windows" "w \<in> set kernel_windows" "v \<noteq> w" "same_outside w mem mem'"
  shows "terminal_of v p mem' = terminal_of v p mem"
proof -
  have "mem' (y * COLUMNS + x) = mem (y * COLUMNS + x)"
    if "x \<in> set [w_from_col v..w_to_col v]" "y \<in> set [w_from_row v..w_to_row v]" for x y
  proof -
    note c = window_cell [OF kernel_windows_ok [OF assms(1)] that]
    then have "\<not> cell_in w (y * COLUMNS + x)"
      using kernel_windows_disjoint [OF assms(1,2)] assms(3) unfolding cell_in_def by blast
    with assms(4) show ?thesis by (simp add: same_outside_def)
  qed
  then show ?thesis by (simp add: terminal_of_def cong: map_cong)
qed

subsection \<open>The contract of flush\<close>

definition cga_ok :: "'w port_ops \<Rightarrow> ('w \<Rightarrow> u8) \<Rightarrow> ('w \<Rightarrow> u8 \<Rightarrow> u8) \<Rightarrow> window \<Rightarrow> 'w cgas \<Rightarrow> bool" where
  "cga_ok ops sel reg w d \<longleftrightarrow> cursor_ok ops sel reg w \<and> window_ok w \<and> cursor_inside ops w (g_cga d)"

definition cga_shows :: "'w port_ops \<Rightarrow> window \<Rightarrow> 'w cgas \<Rightarrow> u8 list \<Rightarrow> 'w cgas \<Rightarrow> bool" where
  "cga_shows ops w d cs d' \<longleftrightarrow>
     screen_view ops w (g_cga d') = term_print (w_width w) (g_attr d) cs (screen_view ops w (g_cga d)) \<and>
     g_attr d' = g_attr d \<and> same_outside w (c_mem (g_cga d)) (c_mem (g_cga d'))"

lemma term_print_append: "term_print n a (xs @ ys) t = term_print n a ys (term_print n a xs t)"
  by (simp add: term_print_def)

interpretation cs: stream_device "cga_flush ops w" "cga_ok ops sel reg w" "cga_shows ops w"
  for ops :: "'w port_ops" and w sel reg
proof unfold_locales
  fix s :: "'w cgas ostream"
  assume ok: "cga_ok ops sel reg w (o_dev s)"
  let ?d = "(o_dev s)\<lparr>g_cga := cga_print ops w (take (o_pos s) (o_buf s)) (g_attr (o_dev s)) (g_cga (o_dev s))\<rparr>"
  have "cga_flush ops w s = Some (s\<lparr>o_pos := 0, o_dev := ?d\<rparr>)" by (simp add: cga_flush_def Let_def)
  moreover have "cga_ok ops sel reg w ?d" "cga_shows ops w (o_dev s) (take (o_pos s) (o_buf s)) ?d"
    using ok cga_print_view [of ops sel reg w "g_cga (o_dev s)"] by (simp_all add: cga_ok_def cga_shows_def)
  ultimately show "\<exists>d. cga_flush ops w s = Some (s\<lparr>o_pos := 0, o_dev := d\<rparr>) \<and> cga_ok ops sel reg w d \<and>
      cga_shows ops w (o_dev s) (take (o_pos s) (o_buf s)) d" by blast
next
  fix d :: "'w cgas" assume "cga_ok ops sel reg w d"
  then show "cga_shows ops w d [] d" by (simp add: cga_shows_def term_print_def)
next
  fix d d' d'' :: "'w cgas" and xs ys
  assume "cga_shows ops w d xs d'" "cga_shows ops w d' ys d''"
  then show "cga_shows ops w d (xs @ ys) d''"
    by (auto simp: cga_shows_def term_print_append intro: same_outside_trans)
qed

subsection \<open>Properties\<close>

text \<open>Property C20. A signed or an unsigned number written to a window in base 2, 8, 10 or 16 is
  shown on its terminal as the text \<open>long_text\<close> or \<open>ulong_text\<close> behind the characters that
  already were in the buffer, however full it was, and
  \<^verbatim>\<open>strtol\<close> with base 0 reads this number from that text where it can: a signed one in base 10
  unless it is the least one, and in the other bases, which print the bit pattern, and for
  unsigned numbers exactly those below \<open>2 ^ 31\<close>. For every other number \<^verbatim>\<open>strtol\<close> reports an
  error and answers \<^verbatim>\<open>SSIZE_MAX\<close>.\<close>

theorem number_roundtrip:
  assumes "cga_ok ops sel reg w (o_dev s)" "o_pos s < 80" "length (o_buf s) = 80" "o_base s = int b"
    and "b \<in> bases" "mem_ok alloc 20"
  shows "(\<exists>s1 s2. o_long (cga_flush ops w) v s = Some s1 \<and>
      cga_flush ops w s1 = Some s2 \<and> cga_shows ops w (o_dev s) (take (o_pos s) (o_buf s) @ long_text b v) (o_dev s2) \<and>
      (\<forall>t. str_rep t (long_text b v) \<longrightarrow> strtol alloc t 0 =
        Some (if (if b = 10 then v \<noteq> 0x80000000 else 0 \<le> sint v) then (sint v, False) else (2147483647, True)))) \<and>
    (\<exists>s1 s2. o_ulong (cga_flush ops w) v s = Some s1 \<and>
      cga_flush ops w s1 = Some s2 \<and> cga_shows ops w (o_dev s) (take (o_pos s) (o_buf s) @ ulong_text b (unat v)) (o_dev s2) \<and>
      (\<forall>t. str_rep t (ulong_text b (unat v)) \<longrightarrow> strtol alloc t 0 =
        Some (if unat v < 2147483648 then (int (unat v), False) else (2147483647, True))))"
    (is "?signed \<and> ?unsigned")
proof
  let ?out = "take (o_pos s) (o_buf s)"
  have b: "2 \<le> b" "b \<le> 36" using assms(5) by (auto simp: bases_def)
  have start: "cs.received ops sel reg w s (o_dev s) ?out"
    using assms(1-3) cs.shows_nothing [OF assms(1)] by (auto simp: cs.received_def)
  obtain s1 where s1: "o_long (cga_flush ops w) v s = Some s1" "cs.received ops sel reg w s1 (o_dev s) (?out @ long_text b v)"
    using cs.long_writes [OF start assms(4) b, of v] by (auto elim: cs.writesE)
  then show ?signed using cs.fl_writes [OF s1(2)] strtol_long_any [OF assms(5) _ assms(6)] by blast
  obtain s3 where s3: "o_ulong (cga_flush ops w) v s = Some s3" "cs.received ops sel reg w s3 (o_dev s) (?out @ ulong_text b (unat v))"
    using cs.ulong_writes [OF start assms(4) b, of v] by (auto elim: cs.writesE)
  have "strtol alloc t 0 = Some (if unat v < 2147483648 then (int (unat v), False) else (2147483647, True))"
    if "str_rep t (ulong_text b (unat v))" for t
    using strtol_ulong_text [OF assms(5) that _ assms(6)] unat_lt2p_32 [of v] by (simp add: readable_def)
  with s3 show ?unsigned using cs.fl_writes [OF s3(2)] by blast
qed

definition demo_dev :: "(u8 \<times> (u8 \<Rightarrow> u8)) cgas" where
  "demo_dev = \<lparr>g_orig = 7, g_attr = 7, g_cga = cga_new demo_window (\<lambda>_. (32, 7)) (0, \<lambda>_. 0)\<rparr>"

lemma demo_dev_ok: "cga_ok crt_demo fst snd demo_window demo_dev"
proof -
  have "cursor_inside crt_demo demo_window (cga_new demo_window (\<lambda>_. (32, 7)) (0, \<lambda>_. 0))"
    by (simp add: cursor_inside_def cursor_at_def getpos_def demo_window_def cga_new_def in_window_def)
  then show ?thesis by (simp add: cga_ok_def demo_dev_def demo_window_ok cursor_ok_def crt_demo_ok)
qed

theorem number_roundtrip_witness:
  "long_text 16 42 = [48, 120, 50, 97] \<and>
   (\<exists>t. str_rep t [48, 120, 50, 97] \<and> strtol plain_heap t 0 = Some (42, False))"
proof -
  have b: "16 \<in> bases" by (simp add: bases_def)
  let ?s = "(ostream_new (replicate 80 0) demo_dev)\<lparr>o_base := int 16\<rparr>"
  have "cga_ok crt_demo fst snd demo_window (o_dev ?s)" by (simp add: ostream_new_def demo_dev_ok)
  from number_roundtrip [OF this _ _ _ b mem_ok_always, of 42]
  have "\<forall>t. str_rep t (long_text 16 42) \<longrightarrow> strtol plain_heap t 0 = Some (sint (42 :: u32), False)"
    by (simp add: ostream_new_def) blast
  moreover have "long_text 16 42 = [48, 120, 50, 97]" by code_simp
  moreover obtain t where "str_rep t [48, 120, 50, 97]"
    using str_from_rep [OF _ mem_ok_always, of "[48, 120, 50, 97]"] by (auto elim!: yieldsE)
  ultimately show ?thesis by auto
qed

text \<open>Writing an empty \<^verbatim>\<open>String\<close> to a window shows one character with the code 0,
  because \<^verbatim>\<open>begin()\<close> of an empty string is not its \<^verbatim>\<open>end()\<close>; a string that is not empty is shown
  as it is.\<close>

theorem string_on_screen:
  assumes "cga_ok ops sel reg w d" "length buf = 80" "str_rep t xs" "mem_ok alloc 1"
  shows "\<exists>t' s1 s2. o_string (cga_flush ops w) alloc t (ostream_new buf d) = Some (t', s1) \<and>
    cga_flush ops w s1 = Some s2 \<and> cga_shows ops w d (if xs = [] then [0] else xs) (o_dev s2)"
proof -
  note start = cs.received_start [OF assms(1,2)]
  have "\<exists>t' s1. o_string (cga_flush ops w) alloc t (ostream_new buf d) = Some (t', s1) \<and>
      cs.received ops sel reg w s1 d (if xs = [] then [0] else xs)"
  proof (cases "xs = []")
    case True
    with cs.empty_string_writes [OF start _ assms(4), of t] assms(3) show ?thesis by auto
  next
    case False
    from cs.string_writes [OF start assms(3) False, of alloc] False show ?thesis by auto
  qed
  then obtain t' s1 where s1: "o_string (cga_flush ops w) alloc t (ostream_new buf d) = Some (t', s1)"
    "cs.received ops sel reg w s1 d (if xs = [] then [0] else xs)" by blast
  obtain s2 where "cga_flush ops w s1 = Some s2" "cga_shows ops w d (if xs = [] then [0] else xs) (o_dev s2)"
    using cs.fl_writes [OF s1(2)] by auto
  with s1(1) show ?thesis by blast
qed

theorem string_on_screen_witness:
  "\<exists>t' s1 s2. o_string (cga_flush crt_demo demo_window) plain_heap str_new (ostream_new (replicate 80 0) demo_dev) =
     Some (t', s1) \<and> cga_flush crt_demo demo_window s1 = Some s2 \<and>
     cga_shows crt_demo demo_window demo_dev [0] (o_dev s2)"
  using string_on_screen [OF demo_dev_ok _ str_new_rep mem_ok_always, of "replicate 80 0"] by simp

end
