(* ===== verification/LineInput.thy ===== *)
theory LineInput
  imports CGAStream KeyDecoder
begin

section \<open>device/keyboard.cc: reading a line\<close>

text \<open>
  \<open>read_loop\<close> is \<^verbatim>\<open>Keyboard::read\<close> on the keys that \<^verbatim>\<open>getkey\<close> delivers, in their order;
  \<open>None\<close> if they do not suffice, so that the caller waits for another key.
\<close>

fun read_loop ::
  "'w port_ops \<Rightarrow> window \<Rightarrow> str_heap \<Rightarrow> u32 \<Rightarrow> u32 \<Rightarrow> key list \<Rightarrow> str \<Rightarrow> 'w cgas ostream \<Rightarrow>
     (u32 \<times> key list \<times> str \<times> 'w cgas ostream) option"
where
  "read_loop ops w alloc count i [] t s = (if i < count then None else Some (i, [], t, s))"
| "read_loop ops w alloc count i (k # ks) t s =
     (if \<not> i < count then Some (i, k # ks, t, s)
      else if key_ctrl k \<and> (k_asc k = 100 \<or> k_asc k = 68) then Some (i, ks, t, s)
      else if k_asc k = 8
      then do {
        (t', s) \<leftarrow> cga_backspace ops w alloc (Some t) npos s;
        t \<leftarrow> t';
        read_loop ops w alloc count (i + 1) ks t s }
      else do {
        t \<leftarrow> append_char alloc (k_asc k) t;
        s \<leftarrow> o_put (cga_flush ops w) (k_asc k) s;
        s \<leftarrow> cga_flush ops w s;
        if k_asc k = 10 then Some (i, ks, t, s) else read_loop ops w alloc count (i + 1) ks t s })"

definition kb_read ::
  "'w port_ops \<Rightarrow> window \<Rightarrow> str_heap \<Rightarrow> u32 \<Rightarrow> key list \<Rightarrow> str \<Rightarrow> 'w cgas ostream \<Rightarrow>
     (u32 \<times> key list \<times> str \<times> 'w cgas ostream) option"
where
  "kb_read ops w alloc count ks t s = read_loop ops w alloc count 0 ks t s"

text \<open>The operators \<^verbatim>\<open>>>\<close>. The one for a character waits for one key; the one for a string
  reads on behind the string's old contents.\<close>

fun kb_read_char :: "key list \<Rightarrow> (u8 \<times> key list) option" where
  "kb_read_char [] = None"
| "kb_read_char (k # ks) = Some (k_asc k, ks)"

definition kb_read_string ::
  "'w port_ops \<Rightarrow> window \<Rightarrow> str_heap \<Rightarrow> key list \<Rightarrow> str \<Rightarrow> 'w cgas ostream \<Rightarrow> (key list \<times> str \<times> 'w cgas ostream) option"
where
  "kb_read_string ops w alloc ks t s = map_option snd (kb_read ops w alloc 4096 ks t s)"

definition kb_read_long ::
  "'w port_ops \<Rightarrow> window \<Rightarrow> str_heap \<Rightarrow> key list \<Rightarrow> 'w cgas ostream \<Rightarrow> (int \<times> key list \<times> 'w cgas ostream) option"
where
  "kb_read_long ops w alloc ks s = do {
     (_, ks, t, s) \<leftarrow> kb_read ops w alloc 4096 ks str_new s;
     (v, _) \<leftarrow> strtol alloc t 0;
     Some (v, ks, s) }"

text \<open>Keys that are plain characters of a line.\<close>

definition plain_key :: "key \<Rightarrow> bool" where
  "plain_key k \<longleftrightarrow> \<not> (key_ctrl k \<and> (k_asc k = 100 \<or> k_asc k = 68)) \<and> k_asc k \<noteq> 8 \<and> k_asc k \<noteq> 10"

text \<open>Keys that do not end the line.\<close>

definition line_key :: "key \<Rightarrow> bool" where
  "line_key k \<longleftrightarrow> \<not> (key_ctrl k \<and> (k_asc k = 100 \<or> k_asc k = 68)) \<and> k_asc k \<noteq> 10"

definition line_text :: "key list \<Rightarrow> u8 list" where
  "line_text ks = filter (\<lambda>c. c \<noteq> 8) (map k_asc ks)"

text \<open>\<^verbatim>\<open>backspace\<close> with the default position erases nothing, since \<^verbatim>\<open>npos\<close> is behind the end.\<close>

lemma backspace_npos:
  assumes "str_rep t xs"
  shows "\<exists>s'. cga_backspace ops w alloc (Some t) npos s = Some (Some t, s') \<and> o_pos s' = o_pos s \<and> o_buf s' = o_buf s"
proof -
  have "s_len t \<le> npos" using str_rep_lt [OF assms] by (simp add: word_le_nat_alt unat_npos str_rep_len [OF assms])
  then have "str_erase alloc npos 1 t = Some t" by (simp add: str_erase_def)
  then show ?thesis by (simp add: cga_backspace_def Let_def case_prod_beta)
qed

lemma put_flush_ok:
  "o_pos s = 0 \<Longrightarrow> length (o_buf s) = 80 \<Longrightarrow>
     \<exists>s1 s2. o_put (cga_flush ops w) c s = Some s1 \<and> cga_flush ops w s1 = Some s2 \<and>
       o_pos s2 = 0 \<and> length (o_buf s2) = 80"
  by (simp add: o_put_def cga_flush_def Let_def)

lemma read_loop_line:
  assumes "list_all line_key ks" "k_asc e = 10" "mem_ok alloc 8192"
  shows "str_rep t xs \<Longrightarrow> length xs + length ks < 8192 \<Longrightarrow> o_pos s = 0 \<Longrightarrow> length (o_buf s) = 80 \<Longrightarrow>
    unat i + length ks < unat count \<Longrightarrow>
    \<exists>t' s'. read_loop ops w alloc count i (ks @ e # rest) t s = Some (i + of_nat (length ks), rest, t', s') \<and>
      str_rep t' (xs @ line_text ks @ [10])"
  using assms(1)
proof (induction ks arbitrary: i t xs s)
  case Nil
  have "yields (append_char alloc 10 t) (xs @ [10]) (s_save t)"
    using Nil.prems(1,2) mem_ok_mono [OF assms(3)] by (intro append_char_rep) auto
  then obtain t1 where t1: "append_char alloc 10 t = Some t1" "str_rep t1 (xs @ [10])" by (auto elim: yieldsE)
  obtain s1 s2 where "o_put (cga_flush ops w) 10 s = Some s1" "cga_flush ops w s1 = Some s2"
    using put_flush_ok [OF Nil.prems(3,4)] by blast
  with t1 Nil.prems(5) assms(2) show ?case by (auto simp: word_less_nat_alt line_text_def)
next
  case (Cons k ks)
  have i: "i < count" using Cons.prems(5) by (simp add: word_less_nat_alt)
  then have i1: "unat (i + 1) = Suc (unat i)" by (rule unat_Suc_less)
  have k: "line_key k" "list_all line_key ks" using Cons.prems(6) by simp_all
  show ?case
  proof (cases "k_asc k = 8")
    case True
    obtain s1 where s1: "cga_backspace ops w alloc (Some t) npos s = Some (Some t, s1)" "o_pos s1 = 0" "length (o_buf s1) = 80"
      using backspace_npos [OF Cons.prems(1)] Cons.prems(3,4) by metis
    from Cons.IH [OF Cons.prems(1) _ s1(2,3) _ k(2), of "i + 1"] Cons.prems(2,5) i1 i s1(1) True k(1)
    show ?thesis by (auto simp: line_key_def line_text_def add.assoc)
  next
    case False
    have "yields (append_char alloc (k_asc k) t) (xs @ [k_asc k]) (s_save t)"
      using Cons.prems(1,2) mem_ok_mono [OF assms(3)] by (intro append_char_rep) auto
    then obtain t1 where t1: "append_char alloc (k_asc k) t = Some t1" "str_rep t1 (xs @ [k_asc k])"
      by (auto elim: yieldsE)
    obtain s1 s2 where s2: "o_put (cga_flush ops w) (k_asc k) s = Some s1" "cga_flush ops w s1 = Some s2"
      "o_pos s2 = 0" "length (o_buf s2) = 80"
      using put_flush_ok [OF Cons.prems(3,4)] by blast
    from Cons.IH [OF t1(2) _ s2(3,4) _ k(2), of "i + 1"] Cons.prems(2,5) i1 i t1(1) s2(1,2) False k(1)
    show ?thesis by (auto simp: line_key_def line_text_def add.assoc)
  qed
qed

text \<open>Reading a line returns the characters of all keys before the newline, and
  the newline, but a backspace key takes no character out of the line: it is erased on the screen
  only, because \<^verbatim>\<open>read\<close> calls \<^verbatim>\<open>backspace\<close> with the default position \<^verbatim>\<open>npos\<close>, at which
  \<^verbatim>\<open>erase\<close> finds nothing.\<close>

theorem read_keeps_backspaced:
  assumes "list_all line_key ks" "k_asc e = 10" "mem_ok alloc 8192"
    and "o_pos s = 0" "length (o_buf s) = 80" "length ks < unat count" "unat count \<le> 4096"
  shows "\<exists>t s'. kb_read ops w alloc count (ks @ e # rest) str_new s = Some (of_nat (length ks), rest, t, s') \<and>
    str_rep t (line_text ks @ [10])"
  using read_loop_line [OF assms(1-3) str_new_rep _ assms(4,5), of 0 count] assms(6,7)
  by (simp add: kb_read_def)

theorem read_keeps_backspaced_witness:
  "\<exists>t s'. kb_read crt_demo demo_window plain_heap 4096
     [\<lparr>k_asc = 97, k_scan = 30, k_modi = 0\<rparr>, \<lparr>k_asc = 8, k_scan = 14, k_modi = 0\<rparr>,
      \<lparr>k_asc = 98, k_scan = 48, k_modi = 0\<rparr>, \<lparr>k_asc = 10, k_scan = 28, k_modi = 0\<rparr>]
     str_new (ostream_new (replicate 80 0) demo_dev) = Some (3, [], t, s') \<and> str_rep t [97, 98, 10]"
proof -
  let ?ks = "[\<lparr>k_asc = 97, k_scan = 30, k_modi = 0\<rparr>, \<lparr>k_asc = 8, k_scan = 14, k_modi = 0\<rparr>,
      \<lparr>k_asc = 98, k_scan = 48, k_modi = 0\<rparr>]" and ?e = "\<lparr>k_asc = 10, k_scan = 28, k_modi = 0\<rparr>"
  have "list_all line_key ?ks" by (simp add: line_key_def key_ctrl_def key_has_def)
  from read_keeps_backspaced [OF this, of ?e plain_heap "ostream_new (replicate 80 0) demo_dev" 4096 crt_demo demo_window "[]"]
  show ?thesis by (simp add: mem_ok_always ostream_new_def line_text_def)
qed

end
