(* ===== verification/Clock.thy ===== *)
theory Clock
  imports OStream
begin

section \<open>user/time/time: the calendar\<close>

text \<open>
  \<open>clock\<close> holds the members of \<^verbatim>\<open>Time\<close>. They are 16 bit wide; here they are numbers, and an
  operation that could leave that range wraps with \<open>wrap16\<close>. \<open>total_seconds\<close> is the abstract
  view of a time: the seconds since the first of January of the year 0 in the Gregorian calendar.
\<close>

record clock =
  t_second :: nat
  t_minute :: nat
  t_hour :: nat
  t_day :: nat
  t_month :: nat
  t_year :: nat
  t_weekday :: nat
  t_century :: nat
  t_timezone :: int

definition wrap16 :: "nat \<Rightarrow> nat" where "wrap16 n = n mod 65536"
definition wrap32 :: "nat \<Rightarrow> nat" where "wrap32 n = n mod 4294967296"

definition weekday_string :: "string list" where
  "weekday_string = [''???'', ''Sun'', ''Mon'', ''Tue'', ''Wed'', ''Thu'', ''Fri'', ''Sat'']"

definition month_string :: "string list" where
  "month_string = [''???'', ''Jan'', ''Feb'', ''Mar'', ''Apr'', ''May'', ''Jun'',
     ''Jul'', ''Aug'', ''Sep'', ''Oct'', ''Nov'', ''Dec'']"

definition days_per_month :: "nat list" where
  "days_per_month = [0, 31, 28, 31, 30, 31, 30, 31, 31, 30, 31, 30, 31]"

definition get_weekday_string :: "nat \<Rightarrow> string" where
  "get_weekday_string weekday = weekday_string ! (if weekday < 8 then weekday else 0)"

definition get_month_string :: "nat \<Rightarrow> string" where
  "get_month_string month = month_string ! (if month < 13 then month else 0)"

definition get_days_per_month :: "nat \<Rightarrow> nat \<Rightarrow> nat \<Rightarrow> nat" where
  "get_days_per_month month year century =
     (if month = 2 \<and> year mod 4 = 0 \<and> (year \<noteq> 0 \<or> century mod 4 = 0)
      then days_per_month ! month + 1
      else days_per_month ! (if month < 13 then month else 0))"

definition set_timezone :: "int \<Rightarrow> clock \<Rightarrow> clock" where
  "set_timezone zone t = t\<lparr>t_timezone := zone\<rparr>"

text \<open>One round of the loop in \<^verbatim>\<open>increment_seconds\<close>: each \<^verbatim>\<open>continue\<close> ends it.\<close>

definition minute_up :: "clock \<Rightarrow> clock" where
  "minute_up t =
     (let t = t\<lparr>t_minute := wrap16 (t_minute t + 1) mod 60\<rparr> in if t_minute t \<noteq> 0 then t else
      let t = t\<lparr>t_hour := wrap16 (t_hour t + 1) mod 24\<rparr> in if t_hour t \<noteq> 0 then t else
      let t = t\<lparr>t_weekday := t_weekday t mod 7 + 1\<rparr>;
          t = t\<lparr>t_day := wrap16 (t_day t + 1) mod (get_days_per_month (t_month t) (t_year t) (t_century t) + 1)\<rparr>
      in if t_day t \<noteq> 0 then t else
      let t = t\<lparr>t_day := t_day t + 1\<rparr>;
          t = t\<lparr>t_month := wrap16 (t_month t + 1) mod 13\<rparr> in if t_month t \<noteq> 0 then t else
      let t = t\<lparr>t_month := t_month t + 1\<rparr>;
          t = t\<lparr>t_year := wrap16 (t_year t + 1) mod 100\<rparr> in if t_year t \<noteq> 0 then t else
      t\<lparr>t_century := wrap16 (t_century t + 1) mod 100\<rparr>)"

lemma minute_up_second [simp]: "t_second (minute_up t) = t_second t"
  by (simp add: minute_up_def Let_def)

function inc_loop :: "nat \<Rightarrow> clock \<Rightarrow> clock" where
  "inc_loop amount t =
     (if 60 \<le> wrap32 (t_second t + amount)
      then inc_loop (wrap32 (amount + 4294967236)) (minute_up t)
      else t\<lparr>t_second := wrap16 (t_second t + amount)\<rparr>)"
  by pat_completeness auto

lemma wrap32_minus_60:
  "60 \<le> wrap32 (s + amount) \<Longrightarrow> wrap32 (s + wrap32 (amount + 4294967236)) = wrap32 (s + amount) - 60"
proof -
  assume a: "60 \<le> wrap32 (s + amount)"
  have "wrap32 (s + wrap32 (amount + 4294967236)) = (s + amount + 4294967236) mod 4294967296"
    by (simp add: wrap32_def mod_add_right_eq add.assoc)
  also have "\<dots> = (wrap32 (s + amount) + 4294967236) mod 4294967296"
    unfolding wrap32_def by (rule mod_add_left_eq [symmetric])
  also have "wrap32 (s + amount) + 4294967236 = (wrap32 (s + amount) - 60) + 4294967296" using a by simp
  also have "(wrap32 (s + amount) - 60 + 4294967296) mod 4294967296 = wrap32 (s + amount) - 60"
    using mod_less_divisor [of 4294967296 "s + amount"] by (simp add: wrap32_def)
  finally show ?thesis .
qed

termination inc_loop
  by (relation "measure (\<lambda>(amount, t). wrap32 (t_second t + amount))") (auto simp: wrap32_minus_60)

declare inc_loop.simps [simp del]

definition increment_seconds :: "nat \<Rightarrow> clock \<Rightarrow> clock" where
  "increment_seconds amount t =
     (if wrap32 (t_second t + amount) < t_second t then t else inc_loop amount t)"

text \<open>One round of the loop in \<^verbatim>\<open>decrement_seconds\<close>.\<close>

definition year_down :: "clock \<Rightarrow> clock" where
  "year_down t =
     (let t = t\<lparr>t_year := (if t_year t = 0 then 99 else t_year t - 1)\<rparr>
      in if t_year t \<noteq> 99 then t else t\<lparr>t_century := wrap16 (t_century t + 65535)\<rparr>)"

definition month_down :: "clock \<Rightarrow> clock" where
  "month_down t =
     (let t = t\<lparr>t_month := (if t_month t = 1 then 12 else wrap16 (t_month t + 65535))\<rparr>;
          t = t\<lparr>t_day := get_days_per_month (t_month t) (t_year t) (t_century t)\<rparr>
      in if t_month t \<noteq> 12 then t else year_down t)"

definition day_down :: "clock \<Rightarrow> clock" where
  "day_down t =
     (let t = t\<lparr>t_weekday := (if t_weekday t = 1 then 7 else wrap16 (t_weekday t + 65535))\<rparr>
      in if t_day t \<noteq> 1 then t\<lparr>t_day := wrap16 (t_day t + 65535)\<rparr> else month_down t)"

definition minute_down :: "clock \<Rightarrow> clock" where
  "minute_down t =
     (let t = t\<lparr>t_minute := (if t_minute t = 0 then 59 else t_minute t - 1)\<rparr> in if t_minute t \<noteq> 59 then t else
      let t = t\<lparr>t_hour := (if t_hour t = 0 then 23 else t_hour t - 1)\<rparr> in if t_hour t \<noteq> 23 then t
      else day_down t)"

lemma down_second: "t_second (year_down t) = t_second t" "t_second (month_down t) = t_second t"
  "t_second (day_down t) = t_second t"
proof -
  show y: "t_second (year_down t) = t_second t" for t by (simp add: year_down_def Let_def)
  then show m: "t_second (month_down t) = t_second t" for t by (simp add: month_down_def Let_def)
  then show "t_second (day_down t) = t_second t" by (simp add: day_down_def Let_def)
qed

lemma minute_down_second [simp]: "t_second (minute_down t) = t_second t"
  by (simp add: minute_down_def Let_def down_second)

function dec_loop :: "int \<Rightarrow> int \<Rightarrow> clock \<Rightarrow> clock" where
  "dec_loop sec amount t =
     (if sec - amount < 0 then dec_loop sec (amount - 60) (minute_down t)
      else t\<lparr>t_second := nat ((int (t_second t) - amount) mod 65536)\<rparr>)"
  by pat_completeness auto
termination by (relation "measure (\<lambda>(sec, amount, t). nat (amount - sec + 60))") auto

declare dec_loop.simps [simp del]

definition decrement_seconds :: "int \<Rightarrow> clock \<Rightarrow> clock option" where
  "decrement_seconds amount t = (if 0 < amount then Some (dec_loop (int (t_second t)) amount t) else None)"

definition HOURS_TO_SECONDS :: "int \<Rightarrow> int" where
  "HOURS_TO_SECONDS x = x * 60 * 60"

definition apply_timezone :: "clock \<Rightarrow> clock option" where
  "apply_timezone t =
     (if 0 < t_timezone t then Some (increment_seconds (nat (HOURS_TO_SECONDS (t_timezone t))) t)
      else decrement_seconds (HOURS_TO_SECONDS (- t_timezone t)) t)"

text \<open>The operators. The postfix ones give back the old value.\<close>

definition time_plus :: "nat \<Rightarrow> clock \<Rightarrow> clock" where "time_plus i t = increment_seconds i t"
definition time_pre_inc :: "clock \<Rightarrow> clock" where "time_pre_inc t = increment_seconds 1 t"
definition time_post_inc :: "clock \<Rightarrow> clock \<times> clock" where "time_post_inc t = (t, increment_seconds 1 t)"
definition time_minus :: "int \<Rightarrow> clock \<Rightarrow> clock option" where "time_minus i t = decrement_seconds i t"
definition time_pre_dec :: "clock \<Rightarrow> clock option" where "time_pre_dec t = decrement_seconds 1 t"
definition time_post_dec :: "clock \<Rightarrow> (clock \<times> clock) option" where
  "time_post_dec t = map_option (Pair t) (decrement_seconds 1 t)"

subsection \<open>Times as numbers\<close>

definition time_ok :: "clock \<Rightarrow> bool" where
  "time_ok t \<longleftrightarrow> t_second t < 60 \<and> t_minute t < 60 \<and> t_hour t < 24 \<and>
     1 \<le> t_month t \<and> t_month t \<le> 12 \<and> 1 \<le> t_day t \<and>
     t_day t \<le> get_days_per_month (t_month t) (t_year t) (t_century t) \<and>
     t_year t < 100 \<and> t_century t < 100 \<and> 1 \<le> t_weekday t \<and> t_weekday t \<le> 7"

text \<open>The Gregorian calendar, with the full year.\<close>

definition leap :: "nat \<Rightarrow> bool" where
  "leap y \<longleftrightarrow> y mod 4 = 0 \<and> (y mod 100 \<noteq> 0 \<or> y mod 400 = 0)"

definition month_days :: "nat \<Rightarrow> nat \<Rightarrow> nat" where
  "month_days y m = (if m = 2 then if leap y then 29 else 28 else if m \<in> {4, 6, 9, 11} then 30 else 31)"

definition year_days :: "nat \<Rightarrow> nat" where
  "year_days y = (\<Sum>m = 1..12. month_days y m)"

definition day_number :: "nat \<Rightarrow> nat \<Rightarrow> nat \<Rightarrow> nat" where
  "day_number y m d = (\<Sum>i < y. year_days i) + (\<Sum>i = 1..<m. month_days y i) + (d - 1)"

definition full_year :: "clock \<Rightarrow> nat" where
  "full_year t = 100 * t_century t + t_year t"

definition clock_days :: "clock \<Rightarrow> nat" where
  "clock_days t = day_number (full_year t) (t_month t) (t_day t)"

definition total_minutes :: "clock \<Rightarrow> nat" where
  "total_minutes t = (clock_days t * 24 + t_hour t) * 60 + t_minute t"

definition total_seconds :: "clock \<Rightarrow> nat" where
  "total_seconds t = total_minutes t * 60 + t_second t"

text \<open>The weekday is right if it was right before: its distance to the day number stays.\<close>

definition weekday_offset :: "clock \<Rightarrow> nat" where
  "weekday_offset t = (t_weekday t + 6 * clock_days t) mod 7"

lemma get_days_per_month_eq:
  assumes "1 \<le> m" "m \<le> 12" "y < 100"
  shows "get_days_per_month m y c = month_days (100 * c + y) m"
proof -
  have "100 * c + y = y + (25 * c) * 4" by simp
  then have mods: "(100 * c + y) mod 4 = y mod 4" "(100 * c + y) mod 100 = y"
    using assms(3) by (simp_all only: mod_mult_self1) simp
  have "400 dvd 100 * c + y \<longleftrightarrow> y = 0 \<and> 4 dvd c"
  proof
    assume a: "400 dvd 100 * c + y"
    then have "100 dvd 100 * c + y" by (rule dvd_trans [rotated]) simp
    then have "y = 0" using mods(2) by (simp add: dvd_eq_mod_eq_0)
    moreover from this a have "100 * 4 dvd 100 * c" by simp
    then have "4 dvd c" by simp
    ultimately show "y = 0 \<and> 4 dvd c" by blast
  next
    assume "y = 0 \<and> 4 dvd c"
    then show "400 dvd 100 * c + y" by auto
  qed
  then have "(100 * c + y) mod 400 = 0 \<longleftrightarrow> y = 0 \<and> c mod 4 = 0" by (simp add: dvd_eq_mod_eq_0)
  with mods have leap: "leap (100 * c + y) \<longleftrightarrow> y mod 4 = 0 \<and> (y \<noteq> 0 \<or> c mod 4 = 0)" 
    using mods by (auto simp: leap_def)
  have "m = 1 \<or> m = 2 \<or> m = 3 \<or> m = 4 \<or> m = 5 \<or> m = 6 \<or> m = 7 \<or> m = 8 \<or> m = 9 \<or> m = 10 \<or> m = 11 \<or> m = 12"
    using assms(1,2) by presburger
  then show ?thesis by (auto simp: get_days_per_month_def days_per_month_def month_days_def leap)
qed

lemma month_days_bounds: "28 \<le> month_days y m" "month_days y m \<le> 31"
  by (simp_all add: month_days_def)

lemma day_number_day: "1 \<le> d \<Longrightarrow> day_number y m (d + 1) = day_number y m d + 1"
  by (simp add: day_number_def)

lemma day_number_month: "1 \<le> m \<Longrightarrow> day_number y (m + 1) 1 = day_number y m (month_days y m) + 1"
  using month_days_bounds(1) [of y m] by (simp add: day_number_def)

lemma day_number_year: "day_number (y + 1) 1 1 = day_number y 12 (month_days y 12) + 1"
proof -
  have "year_days y = (\<Sum>i = 1..<12. month_days y i) + month_days y 12"
    by (simp add: year_days_def numeral_eq_Suc)
  then show ?thesis using month_days_bounds(1) [of y 12] by (simp add: day_number_def)
qed

subsection \<open>One minute\<close>

definition last_minute :: "clock \<Rightarrow> bool" where
  "last_minute t \<longleftrightarrow> t_minute t = 59 \<and> t_hour t = 23 \<and>
     t_day t = get_days_per_month (t_month t) (t_year t) (t_century t) \<and> t_month t = 12 \<and>
     t_year t = 99 \<and> t_century t = 99"

abbreviation dpm :: "clock \<Rightarrow> nat" where
  "dpm t \<equiv> get_days_per_month (t_month t) (t_year t) (t_century t)"

lemma dpm_eq: "time_ok t \<Longrightarrow> dpm t = month_days (full_year t) (t_month t)"
  by (simp add: time_ok_def full_year_def get_days_per_month_eq)

lemma dpm_bounds: "time_ok t \<Longrightarrow> 28 \<le> dpm t \<and> dpm t \<le> 31"
  by (simp add: dpm_eq month_days_bounds)

text \<open>The carries of \<^verbatim>\<open>increment_seconds\<close>, one case for each \<^verbatim>\<open>continue\<close>.\<close>

lemma minute_up_cases:
  assumes "time_ok t" "\<not> last_minute t"
  obtains
    (minute) "t_minute t < 59" "minute_up t = t\<lparr>t_minute := t_minute t + 1\<rparr>"
  | (hour) "t_minute t = 59" "t_hour t < 23" "minute_up t = t\<lparr>t_minute := 0, t_hour := t_hour t + 1\<rparr>"
  | (day) "t_minute t = 59" "t_hour t = 23" "t_day t < dpm t"
      "minute_up t = t\<lparr>t_minute := 0, t_hour := 0, t_weekday := t_weekday t mod 7 + 1, t_day := t_day t + 1\<rparr>"
  | (month) "t_minute t = 59" "t_hour t = 23" "t_day t = dpm t" "t_month t < 12"
      "minute_up t = t\<lparr>t_minute := 0, t_hour := 0, t_weekday := t_weekday t mod 7 + 1, t_day := 1, t_month := t_month t + 1\<rparr>"
  | (year) "t_minute t = 59" "t_hour t = 23" "t_day t = dpm t" "t_month t = 12" "t_year t < 99"
      "minute_up t = t\<lparr>t_minute := 0, t_hour := 0, t_weekday := t_weekday t mod 7 + 1, t_day := 1, t_month := 1,
        t_year := t_year t + 1\<rparr>"
  | (century) "t_minute t = 59" "t_hour t = 23" "t_day t = dpm t" "t_month t = 12" "t_year t = 99" "t_century t < 99"
      "minute_up t = t\<lparr>t_minute := 0, t_hour := 0, t_weekday := t_weekday t mod 7 + 1, t_day := 1, t_month := 1,
        t_year := 0, t_century := t_century t + 1\<rparr>"
proof -
  note up = minute_up_def Let_def wrap16_def
  note b = dpm_bounds [OF assms(1)]
  have r: "t_minute t \<le> 59" "t_hour t \<le> 23" "t_day t \<le> dpm t" "t_month t \<le> 12" "t_year t \<le> 99" "t_century t \<le> 99"
    using assms(1) by (auto simp: time_ok_def)
  consider "t_minute t < 59" | "t_minute t = 59" "t_hour t < 23" | "t_minute t = 59" "t_hour t = 23" "t_day t < dpm t"
    | "t_minute t = 59" "t_hour t = 23" "t_day t = dpm t" "t_month t < 12"
    | "t_minute t = 59" "t_hour t = 23" "t_day t = dpm t" "t_month t = 12" "t_year t < 99"
    | "t_minute t = 59" "t_hour t = 23" "t_day t = dpm t" "t_month t = 12" "t_year t = 99" "t_century t < 99"
    using r [unfolded le_less] assms(2) unfolding last_minute_def by blast
  then show thesis
  proof cases
    case 1
    then have "minute_up t = t\<lparr>t_minute := t_minute t + 1\<rparr>" by (simp add: up)
    with 1 show ?thesis by (rule minute)
  next
    case 2
    then have "minute_up t = t\<lparr>t_minute := 0, t_hour := t_hour t + 1\<rparr>" by (simp add: up)
    with 2 show ?thesis by (rule hour)
  next
    case 3
    then have "minute_up t = t\<lparr>t_minute := 0, t_hour := 0, t_weekday := t_weekday t mod 7 + 1, t_day := t_day t + 1\<rparr>"
      using b by (simp add: up)
    with 3 show ?thesis by (rule day)
  next
    case 4
    then have "minute_up t = t\<lparr>t_minute := 0, t_hour := 0, t_weekday := t_weekday t mod 7 + 1, t_day := 1,
        t_month := t_month t + 1\<rparr>"
      using b by (simp add: up)
    with 4 show ?thesis by (rule month)
  next
    case 5
    then have "minute_up t = t\<lparr>t_minute := 0, t_hour := 0, t_weekday := t_weekday t mod 7 + 1, t_day := 1,
        t_month := 1, t_year := t_year t + 1\<rparr>"
      using b by (simp add: up)
    with 5 show ?thesis by (rule year)
  next
    case 6
    then have "minute_up t = t\<lparr>t_minute := 0, t_hour := 0, t_weekday := t_weekday t mod 7 + 1, t_day := 1,
        t_month := 1, t_year := 0, t_century := t_century t + 1\<rparr>"
      using b by (simp add: up)
    with 6 show ?thesis by (rule century)
  qed
qed

lemma weekday_step: "1 \<le> w \<Longrightarrow> w \<le> 7 \<Longrightarrow> (w mod 7 + 1 + 6 * (n + 1)) mod 7 = (w + 6 * n) mod (7 :: nat)"
proof -
  assume "1 \<le> w" "w \<le> 7"
  have "(w mod 7 + 1 + 6 * (n + 1)) mod 7 = (w mod 7 + (6 * n + 7)) mod 7" by (simp add: algebra_simps)
  also have "\<dots> = (w + (6 * n + 7)) mod 7" by (rule mod_add_left_eq)
  also have "\<dots> = (w + 6 * n) mod 7" by (simp add: add.assoc [symmetric])
  finally show ?thesis .
qed

lemma minute_up_ok:
  assumes "time_ok t" "\<not> last_minute t"
  shows "time_ok (minute_up t) \<and> total_minutes (minute_up t) = total_minutes t + 1 \<and>
    weekday_offset (minute_up t) = weekday_offset t"
proof -
  have ok: "1 \<le> t_weekday t" "t_weekday t \<le> 7" "1 \<le> t_day t" "1 \<le> t_month t" "t_month t \<le> 12" "t_year t < 100"
    using assms(1) by (auto simp: time_ok_def)
  have wd: "t_weekday t mod 7 + 1 \<le> 7" "1 \<le> t_weekday t mod 7 + 1" by (simp_all add: Suc_leI)
  have dpm: "dpm t = month_days (full_year t) (t_month t)" by (rule dpm_eq [OF assms(1)])
  have one: "1 \<le> get_days_per_month m y c" if "1 \<le> m" "m \<le> 12" "y < 100" for m y c
    using get_days_per_month_eq [OF that] month_days_bounds(1) by (metis le_trans one_le_numeral)
  have next_day: "?thesis" if "clock_days (minute_up t) = clock_days t + 1" "t_minute t = 59" "t_hour t = 23"
    "t_minute (minute_up t) = 0" "t_hour (minute_up t) = 0" "t_weekday (minute_up t) = t_weekday t mod 7 + 1"
    "time_ok (minute_up t)"
    using that weekday_step [OF ok(1,2), of "clock_days t"]
    by (simp add: total_minutes_def weekday_offset_def)
  from assms show ?thesis
  proof (cases rule: minute_up_cases)
    case minute
    with assms(1) show ?thesis
      by (simp add: time_ok_def total_minutes_def weekday_offset_def clock_days_def full_year_def)
  next
    case hour
    with assms(1) show ?thesis
      by (simp add: time_ok_def total_minutes_def weekday_offset_def clock_days_def full_year_def)
  next
    case day
    have "time_ok (minute_up t)" using assms(1) day wd by (simp add: time_ok_def)
    then show ?thesis
      using day day_number_day [OF ok(3)] by (intro next_day) (simp_all add: clock_days_def full_year_def)
  next
    case month
    have "time_ok (minute_up t)" using assms(1) month wd one by (simp add: time_ok_def)
    then show ?thesis
      using month day_number_month [OF ok(4), of "full_year t"] dpm
      by (intro next_day) (simp_all add: clock_days_def full_year_def)
  next
    case year
    have "time_ok (minute_up t)" using assms(1) year wd one by (simp add: time_ok_def)
    then show ?thesis
      using year day_number_year [of "full_year t"] dpm
      by (intro next_day) (simp_all add: clock_days_def full_year_def)
  next
    case century
    have "time_ok (minute_up t)" using assms(1) century wd one by (simp add: time_ok_def)
    then show ?thesis
      using century day_number_year [of "full_year t"] dpm
      by (intro next_day) (simp_all add: clock_days_def full_year_def algebra_simps)
  qed
qed

text \<open>Going back undoes every carry.\<close>

lemma minute_down_up:
  assumes "time_ok t" "\<not> last_minute t"
  shows "minute_down (minute_up t) = t"
proof -
  have ok: "1 \<le> t_weekday t" "t_weekday t \<le> 7" "1 \<le> t_day t" "1 \<le> t_month t" "t_month t \<le> 12" "t_year t < 100"
    "t_century t < 100" "t_day t \<le> 31"
    using assms(1) dpm_bounds [OF assms(1)] by (auto simp: time_ok_def)
  have wd: "t_weekday t mod 7 = 0 \<Longrightarrow> t_weekday t = 7"
    "0 < t_weekday t mod 7 \<Longrightarrow> wrap16 (65536 + t_weekday t mod 7) = t_weekday t"
    using ok(1,2) by (cases "t_weekday t = 7", auto simp: wrap16_def)+
  note dn = minute_down_def day_down_def month_down_def year_down_def Let_def
  have dec: "wrap16 (Suc n + 65535) = n" if "n < 65536" for n
    using that by (simp add: wrap16_def)
  from assms show ?thesis
  proof (cases rule: minute_up_cases)
    case minute
    then show ?thesis by (cases t) (simp add: dn)
  next
    case hour
    then show ?thesis by (cases t) (simp add: dn)
  next
    case day
    then show ?thesis using wd dec [of "t_day t"] ok by (cases t) (auto simp: dn)
  next
    case month
    then show ?thesis using wd dec [of "t_month t"] ok by (cases t) (auto simp: dn)
  next
    case year
    have d12: "get_days_per_month 12 y c = 31" for y c by (simp add: get_days_per_month_def days_per_month_def)
    from year show ?thesis using wd ok d12 by (cases t) (auto simp: dn)
  next
    case century
    have d12: "get_days_per_month 12 y c = 31" for y c by (simp add: get_days_per_month_def days_per_month_def)
    from century show ?thesis using wd dec [of "t_century t"] ok d12 by (cases t) (auto simp: dn)
  qed
qed

subsection \<open>Any number of seconds\<close>

definition end_of_time :: nat where
  "end_of_time = day_number 10000 1 1 * 86400"

lemma last_minute_total: "time_ok t \<Longrightarrow> last_minute t \<Longrightarrow> (total_minutes t + 1) * 60 = end_of_time"
proof -
  assume t: "time_ok t" "last_minute t"
  then have "clock_days t + 1 = day_number 10000 1 1"
    unfolding clock_days_def full_year_def last_minute_def
    using day_number_year [of 9999] dpm_eq [OF t(1)] by (simp only: full_year_def) (simp add: last_minute_def full_year_def)
  with t(2) show ?thesis by (simp add: last_minute_def total_minutes_def end_of_time_def algebra_simps)
qed

lemma up_iterated:
  "time_ok t \<Longrightarrow> (total_minutes t + k) * 60 < end_of_time \<Longrightarrow>
     time_ok ((minute_up ^^ k) t) \<and> total_minutes ((minute_up ^^ k) t) = total_minutes t + k \<and>
     weekday_offset ((minute_up ^^ k) t) = weekday_offset t \<and> (minute_down ^^ k) ((minute_up ^^ k) t) = t"
proof (induction k)
  case (Suc k)
  let ?u = "(minute_up ^^ k) t"
  have IH: "time_ok ?u" "total_minutes ?u = total_minutes t + k" "weekday_offset ?u = weekday_offset t"
    "(minute_down ^^ k) ?u = t" using Suc by simp_all
  have "\<not> last_minute ?u" using last_minute_total [OF IH(1)] IH(2) Suc.prems(2) by auto
  with IH minute_up_ok [OF IH(1)] minute_down_up [OF IH(1)] show ?case
    by (simp add: funpow_swap1)
qed simp

lemma minute_up_set_second: "minute_up (t\<lparr>t_second := x\<rparr>) = (minute_up t)\<lparr>t_second := x\<rparr>"
  by (simp add: minute_up_def Let_def)

lemma minute_down_set_second: "minute_down (t\<lparr>t_second := x\<rparr>) = (minute_down t)\<lparr>t_second := x\<rparr>"
proof -
  have y: "year_down (t\<lparr>t_second := x\<rparr>) = (year_down t)\<lparr>t_second := x\<rparr>" for t by (simp add: year_down_def Let_def)
  have c: "t\<lparr>t_second := x, t_month := m, t_day := d\<rparr> = t\<lparr>t_month := m, t_day := d, t_second := x\<rparr>"
    "t\<lparr>t_second := x, t_weekday := w\<rparr> = t\<lparr>t_weekday := w, t_second := x\<rparr>"
    "t\<lparr>t_second := x, t_minute := n, t_hour := h\<rparr> = t\<lparr>t_minute := n, t_hour := h, t_second := x\<rparr>" for t m d w n h
    by (cases t, simp)+
  have m: "month_down (t\<lparr>t_second := x\<rparr>) = (month_down t)\<lparr>t_second := x\<rparr>" for t
    by (simp add: month_down_def Let_def c y)
  have d: "day_down (t\<lparr>t_second := x\<rparr>) = (day_down t)\<lparr>t_second := x\<rparr>" for t
    by (simp add: day_down_def Let_def c m)
  show ?thesis by (simp add: minute_down_def Let_def c d)
qed

lemma down_iterated_set_second:
  "(minute_down ^^ k) (t\<lparr>t_second := x\<rparr>) = ((minute_down ^^ k) t)\<lparr>t_second := x\<rparr>"
  by (induction k) (simp_all add: minute_down_set_second)

lemma up_iterated_second [simp]: "t_second ((minute_up ^^ k) t) = t_second t"
  by (induction k) simp_all

lemma inc_loop_eq:
  "inc_loop amount t = ((minute_up ^^ (wrap32 (t_second t + amount) div 60)) t)
     \<lparr>t_second := wrap32 (t_second t + amount) mod 60\<rparr>"
proof (induction amount t rule: inc_loop.induct)
  case (1 amount t)
  let ?S = "wrap32 (t_second t + amount)"
  show ?case
  proof (cases "60 \<le> ?S")
    case True
    have S: "wrap32 (t_second t + wrap32 (amount + 4294967236)) = ?S - 60" by (rule wrap32_minus_60 [OF True])
    have k: "?S div 60 = Suc ((?S - 60) div 60)" "(?S - 60) mod 60 = ?S mod 60"
      using True by (simp_all add: le_div_geq le_mod_geq)
    from 1 [OF True] True show ?thesis
      by (subst inc_loop.simps) (simp add: S k funpow_swap1)
  next
    case False
    have "wrap16 (t_second t + amount) = wrap16 ?S"
      by (simp add: wrap16_def wrap32_def mod_mod_cancel)
    with False show ?thesis by (subst inc_loop.simps) (simp add: wrap16_def)
  qed
qed

lemma increment_eq:
  assumes "time_ok t" "t_second t + n < 4294967296"
  shows "increment_seconds n t = ((minute_up ^^ ((t_second t + n) div 60)) t)\<lparr>t_second := (t_second t + n) mod 60\<rparr>"
  using assms by (simp add: increment_seconds_def wrap32_def inc_loop_eq)

lemma dec_loop_eq:
  assumes "0 \<le> sec" "sec < 60" "a = sec - s + 60 * int k" "0 \<le> s" "s < 60"
  shows "dec_loop sec a t = ((minute_down ^^ k) t)
    \<lparr>t_second := nat ((int (t_second t) - (sec - s)) mod 65536)\<rparr>"
  using assms(3)
proof (induction k arbitrary: a t)
  case 0
  then show ?case using assms by (subst dec_loop.simps) simp
next
  case (Suc k)
  have "sec - a < 0" using Suc.prems assms by simp
  moreover have "a - 60 = sec - s + 60 * int k" using Suc.prems by simp
  ultimately show ?case
    using Suc.IH [of "a - 60" "minute_down t"] by (subst dec_loop.simps) (simp add: funpow_swap1)
qed

subsection \<open>Printing a time\<close>

definition o_time :: "('d ostream \<Rightarrow> 'd ostream option) \<Rightarrow> clock \<Rightarrow> 'd ostream \<Rightarrow> 'd ostream option" where
  "o_time fl t s = do {
     s \<leftarrow> o_puts fl (ascii (get_weekday_string (t_weekday t))) s;
     s \<leftarrow> o_puts fl (ascii (if t_day t < 10 then ''  '' else '' '')) s;
     s \<leftarrow> o_ushort fl (of_nat (t_day t)) s;
     s \<leftarrow> o_puts fl (ascii '' '') s;
     s \<leftarrow> o_puts fl (ascii (get_month_string (t_month t))) s;
     s \<leftarrow> o_puts fl (ascii (if t_century t < 10 then ''  '' else '' '')) s;
     s \<leftarrow> o_ushort fl (of_nat (t_century t)) s;
     s \<leftarrow> o_puts fl (ascii (if t_year t < 10 then ''0'' else [])) s;
     s \<leftarrow> o_ushort fl (of_nat (t_year t)) s;
     s \<leftarrow> o_puts fl (ascii '','') s;
     s \<leftarrow> o_puts fl (ascii (if t_hour t < 10 then '' 0'' else '' '')) s;
     s \<leftarrow> o_ushort fl (of_nat (t_hour t)) s;
     s \<leftarrow> o_puts fl (ascii (if t_minute t < 10 then '':0'' else '':'')) s;
     s \<leftarrow> o_ushort fl (of_nat (t_minute t)) s;
     s \<leftarrow> o_puts fl (ascii (if t_second t < 10 then '':0'' else '':'')) s;
     o_ushort fl (of_nat (t_second t)) s }"

definition time_text :: "clock \<Rightarrow> u8 list" where
  "time_text t = ascii (get_weekday_string (t_weekday t)) @
     ascii (if t_day t < 10 then ''  '' else '' '') @ ulong_text 10 (t_day t) @
     ascii '' '' @ ascii (get_month_string (t_month t)) @
     ascii (if t_century t < 10 then ''  '' else '' '') @ ulong_text 10 (t_century t) @
     ascii (if t_year t < 10 then ''0'' else []) @ ulong_text 10 (t_year t) @ ascii '','' @
     ascii (if t_hour t < 10 then '' 0'' else '' '') @ ulong_text 10 (t_hour t) @
     ascii (if t_minute t < 10 then '':0'' else '':'') @ ulong_text 10 (t_minute t) @
     ascii (if t_second t < 10 then '':0'' else '':'') @ ulong_text 10 (t_second t)"

lemma length_two_digits: "n < 100 \<Longrightarrow> length (ulong_text 10 n) = (if n < 10 then 1 else 2)"
proof -
  assume n: "n < 100"
  have "magnitude 10 n = (if n < 10 then 0 else 1)"
    using n less_mult_imp_div_less [of n 10 10] by (simp add: magnitude.simps [of 10 n] magnitude.simps [of 10 "n div 10"])
  then show ?thesis by (simp add: ulong_text_def prefix_text_def length_digits)
qed

lemma string_tables:
  "length (ascii (get_weekday_string n)) = 3" "length (ascii (get_month_string n)) = 3"
proof -
  have "list_all (\<lambda>s. length s = 3) weekday_string" "list_all (\<lambda>s. length s = 3) month_string"
    "length weekday_string = 8" "length month_string = 13"
    by (simp_all add: weekday_string_def month_string_def)
  then show "length (ascii (get_weekday_string n)) = 3" "length (ascii (get_month_string n)) = 3"
    by (simp_all add: ascii_def get_weekday_string_def get_month_string_def list_all_length)
qed

lemma length_time_text: "time_ok t \<Longrightarrow> length (time_text t) = 25"
proof -
  assume ok: "time_ok t"
  have "t_day t < 100" using ok dpm_bounds [OF ok] by (auto simp: time_ok_def)
  with ok show ?thesis
    by (simp add: time_ok_def time_text_def string_tables length_two_digits) (simp add: ascii_def)
qed

context stream_device begin

lemma ushort_writes:
  assumes "received s d out" "o_base s = 10" "n < 65536"
  shows "writes (o_ushort fl (of_nat n) s) d (out @ ulong_text 10 n) 10"
proof -
  have "unat (ucast (of_nat n :: u16) :: u32) = n"
    using assms(3) by (simp add: unsigned_ucast_eq unat_of_nat_small take_bit_nat_eq_self)
  then show ?thesis using ulong_writes [of s d out 10 "ucast (of_nat n :: u16)"] assms(1,2) by (simp add: o_ushort_def)
qed

lemma puts_writes10: "received s d out \<Longrightarrow> o_base s = 10 \<Longrightarrow> writes (o_puts fl cs s) d (out @ cs) 10"
  using puts_writes [of s d out cs] by simp

lemma time_writes:
  assumes "received s d out" "o_base s = 10" "time_ok t"
  shows "writes (o_time fl t s) d (out @ time_text t) 10"
proof -
  have small: "t_day t < 65536" "t_century t < 65536" "t_year t < 65536" "t_hour t < 65536" "t_minute t < 65536"
    "t_second t < 65536" using assms(3) dpm_bounds [OF assms(3)] by (auto simp: time_ok_def)
  have step: "writes (Option.bind (o_puts fl cs s) f) d (out @ cs @ zs) 10"
    if "received s d out" "o_base s = 10"
      and "\<And>s. received s d (out @ cs) \<Longrightarrow> o_base s = 10 \<Longrightarrow> writes (f s) d ((out @ cs) @ zs) 10" for s f out cs zs
    using writes_bind [OF puts_writes10 [OF that(1,2)]] that(3) by fastforce
  have num: "writes (Option.bind (o_ushort fl (of_nat n) s) f) d (out @ ulong_text 10 n @ zs) 10"
    if "n < 65536" "received s d out" "o_base s = 10"
      and "\<And>s. received s d (out @ ulong_text 10 n) \<Longrightarrow> o_base s = 10 \<Longrightarrow> writes (f s) d ((out @ ulong_text 10 n) @ zs) 10"
    for s f out n zs
    using writes_bind [OF ushort_writes [OF that(2,3,1)]] that(4) by fastforce
  show ?thesis
    unfolding o_time_def time_text_def
    by (intro step num ushort_writes assms small) simp_all
qed

end

subsection \<open>Properties\<close>

text \<open>Property C17. Adding any number of seconds to a valid time gives the valid time that many
  seconds later in the Gregorian calendar, through all carries into minutes, hours, days, months
  of the right length, leap years and centuries, and moves the weekday with the day.\<close>

theorem clock_adds_seconds:
  assumes "time_ok t" "total_seconds t + n < end_of_time" "t_second t + n < 4294967296"
  shows "time_ok (increment_seconds n t) \<and> total_seconds (increment_seconds n t) = total_seconds t + n \<and>
    weekday_offset (increment_seconds n t) = weekday_offset t"
proof -
  let ?k = "(t_second t + n) div 60" and ?r = "(t_second t + n) mod 60"
  have split: "?k * 60 + ?r = t_second t + n" by (rule div_mult_mod_eq)
  then have "(total_minutes t + ?k) * 60 \<le> total_seconds t + n"
    unfolding total_seconds_def add_mult_distrib by linarith
  then have "(total_minutes t + ?k) * 60 < end_of_time" using assms(2) by simp
  from up_iterated [OF assms(1) this] split show ?thesis
    unfolding increment_eq [OF assms(1,3)]
    by (simp add: time_ok_def total_seconds_def total_minutes_def clock_days_def full_year_def weekday_offset_def
        algebra_simps)
qed

definition demo_time :: clock where
  "demo_time = \<lparr>t_second = 58, t_minute = 59, t_hour = 23, t_day = 28, t_month = 2, t_year = 0,
     t_weekday = 2, t_century = 20, t_timezone = 2\<rparr>"

lemma demo_time_ok: "time_ok demo_time"
  by (simp add: time_ok_def demo_time_def get_days_per_month_def days_per_month_def)

lemma day_number_mono: "y \<le> y' \<Longrightarrow> (\<Sum>i < y. year_days i) \<le> (\<Sum>i < y'. year_days i)"
  by (rule sum_mono2) auto

lemma end_of_time_large: "365 * 86400 \<le> end_of_time - (\<Sum>i < 9999. year_days i) * 86400"
proof -
  have "(\<Sum>i < 10000. year_days i) = (\<Sum>i < 9999. year_days i) + year_days 9999"
    using sum.lessThan_Suc [of year_days 9999] by simp
  moreover have "365 \<le> year_days 9999" by (simp add: year_days_def month_days_def numeral_eq_Suc)
  ultimately show ?thesis by (simp add: end_of_time_def day_number_def)
qed

lemma year_days_bounds: "365 \<le> year_days y" "year_days y \<le> 366"
  by (simp_all add: year_days_def month_days_def numeral_eq_Suc)

lemma demo_time_early: "total_seconds demo_time + 200 < end_of_time"
proof -
  have y: "(\<Sum>i < 2000. year_days i) \<le> (\<Sum>i < 9999. year_days i)" by (rule day_number_mono) simp
  have "day_number y 2 28 = (\<Sum>i < y. year_days i) + 58" for y
    by (simp add: day_number_def month_days_def numeral_eq_Suc)
  then have "clock_days demo_time = (\<Sum>i < 2000. year_days i) + 58"
    by (simp only: clock_days_def full_year_def demo_time_def clock.simps) simp
  then have "total_seconds demo_time + 200 = (\<Sum>i < 2000. year_days i) * 86400 + 5097798"
    by (simp add: total_seconds_def total_minutes_def demo_time_def)
  then show ?thesis using y end_of_time_large by linarith
qed

theorem clock_adds_seconds_witness:
  "time_ok (increment_seconds 3 demo_time) \<and>
   total_seconds (increment_seconds 3 demo_time) = total_seconds demo_time + 3 \<and>
   t_day (increment_seconds 3 demo_time) = 29 \<and> t_month (increment_seconds 3 demo_time) = 2"
proof -
  have "t_day (increment_seconds 3 demo_time) = 29 \<and> t_month (increment_seconds 3 demo_time) = 2"
    by (simp add: increment_seconds_def inc_loop.simps demo_time_def minute_up_def wrap16_def wrap32_def
        get_days_per_month_def days_per_month_def)
  moreover have "t_second demo_time + 3 < 4294967296" by (simp add: demo_time_def)
  ultimately show ?thesis
    using clock_adds_seconds [OF demo_time_ok, of 3] demo_time_early by simp
qed

text \<open>Property C18. Subtracting the seconds that were added gives back the time, with its
  weekday: the borrows of \<^verbatim>\<open>decrement_seconds\<close> undo the carries of \<^verbatim>\<open>increment_seconds\<close>, across
  the ends of months, leap years and centuries.\<close>

theorem clock_roundtrip:
  assumes "time_ok t" "total_seconds t + n < end_of_time" "0 < n" "n < 2147483648"
  shows "decrement_seconds (int n) (increment_seconds n t) = Some t"
proof -
  let ?k = "(t_second t + n) div 60" and ?r = "(t_second t + n) mod 60"
  have s: "t_second t < 60" using assms(1) by (simp add: time_ok_def)
  have split: "?k * 60 + ?r = t_second t + n" by (rule div_mult_mod_eq)
  then have "(total_minutes t + ?k) * 60 \<le> total_seconds t + n"
    unfolding total_seconds_def add_mult_distrib by linarith
  then have "(total_minutes t + ?k) * 60 < end_of_time" using assms(2) by simp
  from up_iterated [OF assms(1) this] have
    undo: "(minute_down ^^ ?k) ((minute_up ^^ ?k) t) = t" by blast
  have inc: "increment_seconds n t = ((minute_up ^^ ?k) t)\<lparr>t_second := ?r\<rparr>"
    using s assms(4) by (intro increment_eq [OF assms(1)]) simp
  have "int n = int ?r - int (t_second t) + 60 * int ?k"
    using arg_cong [OF split, of int] by (simp only: of_nat_add of_nat_mult)
  then have "dec_loop (int ?r) (int n) (increment_seconds n t) =
      ((minute_down ^^ ?k) (increment_seconds n t))
        \<lparr>t_second := nat ((int (t_second (increment_seconds n t)) - (int ?r - int (t_second t))) mod 65536)\<rparr>"
    using s by (intro dec_loop_eq) simp_all
  also have "\<dots> = t\<lparr>t_second := t_second t\<rparr>"
    unfolding inc down_iterated_set_second undo using s by simp
  finally show ?thesis using assms(3) inc by (simp add: decrement_seconds_def)
qed

theorem clock_roundtrip_witness:
  "decrement_seconds 200 (increment_seconds 200 demo_time) = Some demo_time"
  using clock_roundtrip [OF demo_time_ok demo_time_early] by simp

text \<open>With the time zone 0, the default of the constructor, \<^verbatim>\<open>apply_timezone\<close> fails the
  assertion of \<^verbatim>\<open>decrement_seconds\<close>.\<close>

lemma apply_timezone_zero: "t_timezone t = 0 \<Longrightarrow> apply_timezone t = None"
  by (simp add: apply_timezone_def HOURS_TO_SECONDS_def decrement_seconds_def)

end
