(* ===== verification/Cmos.thy ===== *)
theory Cmos
  imports Clock CGAStream MathUtil
begin

section \<open>user/time/cmos, user/time/rtc: the real time clock\<close>

text \<open>
  The registers of the clock are reached through the ports \<^verbatim>\<open>0x70\<close> (index, with the NMI mask
  in bit 7) and \<^verbatim>\<open>0x71\<close> (data). \<open>rtc\<close> holds the members of \<^verbatim>\<open>RTC\<close>. A value is only read or
  written while the clock is not updating; the loop that waits for this may not end.
\<close>

definition cmos_ctrl :: u16 where "cmos_ctrl = 0x70"
definition cmos_data :: u16 where "cmos_data = 0x71"
definition nmi_bitmask :: u8 where "nmi_bitmask = 0x80"

datatype offset = OSecond | OMinute | OHour | OWeekday | ODay | OMonth | OYear
  | StatusA | StatusB | StatusC | StatusD | OCentury | AlarmSecond | AlarmMinute | AlarmHour

fun offset_value :: "offset \<Rightarrow> u8" where
  "offset_value OSecond = 0x00" | "offset_value OMinute = 0x02" | "offset_value OHour = 0x04"
| "offset_value OWeekday = 0x06" | "offset_value ODay = 0x07" | "offset_value OMonth = 0x08"
| "offset_value OYear = 0x09" | "offset_value StatusA = 0x0a" | "offset_value StatusB = 0x0b"
| "offset_value StatusC = 0x0c" | "offset_value StatusD = 0x0d" | "offset_value OCentury = 0x32"
| "offset_value AlarmSecond = 0x01" | "offset_value AlarmMinute = 0x03" | "offset_value AlarmHour = 0x05"

definition irq_update :: u8 where "irq_update = 0x10"
definition irq_alarm :: u8 where "irq_alarm = 0x20"
definition irq_periodic :: u8 where "irq_periodic = 0x40"

definition select_offset :: "'w port_ops \<Rightarrow> offset \<Rightarrow> 'w \<Rightarrow> 'w" where
  "select_offset ops off w =
     (let (val, w) = io_inb ops cmos_ctrl w
      in io_outb ops cmos_ctrl ((val AND nmi_bitmask) OR (offset_value off AND NOT nmi_bitmask)) w)"

definition cmos_read :: "'w port_ops \<Rightarrow> offset \<Rightarrow> 'w \<Rightarrow> u8 \<times> 'w" where
  "cmos_read ops off w = io_inb ops cmos_data (select_offset ops off w)"

definition cmos_write :: "'w port_ops \<Rightarrow> offset \<Rightarrow> u8 \<Rightarrow> 'w \<Rightarrow> u8 \<times> 'w" where
  "cmos_write ops off value w =
     (let (old, w) = cmos_read ops off w
      in (old, io_outb ops cmos_data value (select_offset ops off w)))"

text \<open>The bit fields of the status registers A and B.\<close>

definition a_updating :: "u8 \<Rightarrow> bool" where "a_updating v \<longleftrightarrow> bit v 7"
definition a_set_freq :: "u8 \<Rightarrow> u8 \<Rightarrow> u8" where "a_set_freq f v = (v AND 0xf0) OR (f AND 0x0f)"

datatype irq_freq = Freq_0hz | Freq_2hz | Freq_4hz | Freq_8hz | Freq_16hz | Freq_32hz | Freq_64hz
  | Freq_128hz | Freq_256hz | Freq_512hz | Freq_1024hz | Freq_2048hz | Freq_4096hz | Freq_8192hz

fun freq_value :: "irq_freq \<Rightarrow> u8" where
  "freq_value Freq_0hz = 0" | "freq_value Freq_2hz = 15" | "freq_value Freq_4hz = 14"
| "freq_value Freq_8hz = 13" | "freq_value Freq_16hz = 12" | "freq_value Freq_32hz = 11"
| "freq_value Freq_64hz = 10" | "freq_value Freq_128hz = 9" | "freq_value Freq_256hz = 8"
| "freq_value Freq_512hz = 7" | "freq_value Freq_1024hz = 6" | "freq_value Freq_2048hz = 5"
| "freq_value Freq_4096hz = 4" | "freq_value Freq_8192hz = 3"

definition calc_freq :: "irq_freq \<Rightarrow> u32" where
  "calc_freq freq = (if freq = Freq_0hz then 0 else 65536 div math_pow 2 (ucast (freq_value freq)))"

text \<open>The frequencies are those that their names say.\<close>

lemma calc_freq_values:
  "map calc_freq [Freq_0hz, Freq_2hz, Freq_4hz, Freq_8hz, Freq_16hz, Freq_32hz, Freq_64hz, Freq_128hz,
     Freq_256hz, Freq_512hz, Freq_1024hz, Freq_2048hz, Freq_4096hz, Freq_8192hz] =
   [0, 2, 4, 8, 16, 32, 64, 128, 256, 512, 1024, 2048, 4096, 8192]"
  by (simp add: calc_freq_def math_pow_correct)

definition cmos_init :: "'w port_ops \<Rightarrow> bool \<Rightarrow> irq_freq \<Rightarrow> 'w \<Rightarrow> u32 \<times> 'w" where
  "cmos_init ops enable_update_irq freq w =
     (let (b, w) = cmos_read ops StatusB w;
          (irqs, b, w) =
            (if freq \<noteq> Freq_0hz
             then let b = b OR irq_periodic;
                      (a, w) = cmos_read ops StatusA w;
                      (_, w) = cmos_write ops StatusA (a_set_freq (freq_value freq) a) w
                  in (calc_freq freq, b, w)
             else (0, b, w));
          (irqs, b) = (if enable_update_irq then (irqs + 1, b OR irq_update) else (irqs, b));
          (_, w) = cmos_write ops StatusB b w
      in (irqs, w))"

definition clear_status_c :: "'w port_ops \<Rightarrow> 'w \<Rightarrow> 'w" where
  "clear_status_c ops w = snd (cmos_read ops StatusC w)"

definition is_update_irq :: "'w port_ops \<Rightarrow> 'w \<Rightarrow> bool \<times> 'w" where
  "is_update_irq ops w = (let (c, w) = cmos_read ops StatusC w in (c AND irq_update \<noteq> 0, w))"

definition is_alarm_irq :: "'w port_ops \<Rightarrow> 'w \<Rightarrow> bool \<times> 'w" where
  "is_alarm_irq ops w = (let (c, w) = cmos_read ops StatusC w in (c AND irq_alarm \<noteq> 0, w))"

definition is_periodic_irq :: "'w port_ops \<Rightarrow> 'w \<Rightarrow> bool \<times> 'w" where
  "is_periodic_irq ops w = (let (c, w) = cmos_read ops StatusC w in (c AND irq_periodic \<noteq> 0, w))"

subsection \<open>RTC\<close>

record rtc =
  rtc_time :: clock
  rtc_hz :: int

definition is_updating :: "'w port_ops \<Rightarrow> 'w \<Rightarrow> bool \<times> 'w" where
  "is_updating ops w = (let (a, w) = cmos_read ops StatusA w in (a_updating a, w))"

partial_function (option) wait_update :: "'w port_ops \<Rightarrow> 'w \<Rightarrow> 'w option" where
  "wait_update ops w = (let (u, w) = is_updating ops w in if u then wait_update ops w else Some w)"

definition rtc_get_value :: "'w port_ops \<Rightarrow> offset \<Rightarrow> 'w \<Rightarrow> (u16 \<times> 'w) option" where
  "rtc_get_value ops off w = do {
     w \<leftarrow> wait_update ops w;
     let (v, w) = cmos_read ops off w;
     Some (bcd_to_int v, w) }"

definition rtc_set_value :: "'w port_ops \<Rightarrow> offset \<Rightarrow> u16 \<Rightarrow> 'w \<Rightarrow> 'w option" where
  "rtc_set_value ops off value w =
     (if 99 < value then Some w
      else do {
        w \<leftarrow> wait_update ops w;
        Some (snd (cmos_write ops off (ucast (int_to_bcd (ucast value))) w)) })"

definition rtc_get_second :: "'w port_ops \<Rightarrow> 'w \<Rightarrow> (u16 \<times> 'w) option" where
  "rtc_get_second ops = rtc_get_value ops OSecond"

definition rtc_get_minute :: "'w port_ops \<Rightarrow> 'w \<Rightarrow> (u16 \<times> 'w) option" where
  "rtc_get_minute ops = rtc_get_value ops OMinute"

definition rtc_get_hour :: "'w port_ops \<Rightarrow> 'w \<Rightarrow> (u16 \<times> 'w) option" where
  "rtc_get_hour ops = rtc_get_value ops OHour"

definition rtc_get_day :: "'w port_ops \<Rightarrow> 'w \<Rightarrow> (u16 \<times> 'w) option" where
  "rtc_get_day ops = rtc_get_value ops ODay"

definition rtc_get_month :: "'w port_ops \<Rightarrow> 'w \<Rightarrow> (u16 \<times> 'w) option" where
  "rtc_get_month ops = rtc_get_value ops OMonth"

definition rtc_get_year :: "'w port_ops \<Rightarrow> 'w \<Rightarrow> (u16 \<times> 'w) option" where
  "rtc_get_year ops = rtc_get_value ops OYear"

definition rtc_get_weekday :: "'w port_ops \<Rightarrow> 'w \<Rightarrow> (u16 \<times> 'w) option" where
  "rtc_get_weekday ops = rtc_get_value ops OWeekday"

definition rtc_get_century :: "'w port_ops \<Rightarrow> 'w \<Rightarrow> (u16 \<times> 'w) option" where
  "rtc_get_century ops = rtc_get_value ops OCentury"

definition rtc_set_second :: "'w port_ops \<Rightarrow> u16 \<Rightarrow> 'w \<Rightarrow> 'w option" where
  "rtc_set_second ops = rtc_set_value ops OSecond"

definition rtc_set_minute :: "'w port_ops \<Rightarrow> u16 \<Rightarrow> 'w \<Rightarrow> 'w option" where
  "rtc_set_minute ops = rtc_set_value ops OMinute"

definition rtc_set_hour :: "'w port_ops \<Rightarrow> u16 \<Rightarrow> 'w \<Rightarrow> 'w option" where
  "rtc_set_hour ops = rtc_set_value ops OHour"

definition rtc_set_day :: "'w port_ops \<Rightarrow> u16 \<Rightarrow> 'w \<Rightarrow> 'w option" where
  "rtc_set_day ops = rtc_set_value ops ODay"

definition rtc_set_month :: "'w port_ops \<Rightarrow> u16 \<Rightarrow> 'w \<Rightarrow> 'w option" where
  "rtc_set_month ops = rtc_set_value ops OMonth"

definition rtc_set_year :: "'w port_ops \<Rightarrow> u16 \<Rightarrow> 'w \<Rightarrow> 'w option" where
  "rtc_set_year ops = rtc_set_value ops OYear"

definition rtc_set_weekday :: "'w port_ops \<Rightarrow> u16 \<Rightarrow> 'w \<Rightarrow> 'w option" where
  "rtc_set_weekday ops = rtc_set_value ops OWeekday"

definition rtc_set_century :: "'w port_ops \<Rightarrow> u16 \<Rightarrow> 'w \<Rightarrow> 'w option" where
  "rtc_set_century ops = rtc_set_value ops OCentury"

definition rtc_get_real_year :: "'w port_ops \<Rightarrow> 'w \<Rightarrow> (u16 \<times> 'w) option" where
  "rtc_get_real_year ops w = do {
     (c, w) \<leftarrow> rtc_get_century ops w;
     (y, w) \<leftarrow> rtc_get_year ops w;
     Some (c * 100 + y, w) }"

definition rtc_set_real_year :: "'w port_ops \<Rightarrow> u16 \<Rightarrow> 'w \<Rightarrow> 'w option" where
  "rtc_set_real_year ops year w = do {
     w \<leftarrow> rtc_set_century ops (year div 100) w;
     rtc_set_year ops (year mod 100) w }"

text \<open>The remainder of C, which has the sign of the dividend, and the loop behind it.\<close>

definition local_hour :: "int \<Rightarrow> int \<Rightarrow> int" where
  "local_hour hour timezone =
     (let h = hour - timezone; h = (if h < 0 then - ((- h) mod 24) else h mod 24)
      in if h < 0 then h + 24 else h)"

definition rtc_set_local_hour :: "'w port_ops \<Rightarrow> u16 \<Rightarrow> rtc \<Rightarrow> 'w \<Rightarrow> 'w option" where
  "rtc_set_local_hour ops hour r w =
     rtc_set_hour ops (word_of_int (local_hour (uint hour) (t_timezone (rtc_time r)))) w"

definition rtc_update_time :: "'w port_ops \<Rightarrow> rtc \<Rightarrow> 'w \<Rightarrow> (rtc \<times> 'w) option" where
  "rtc_update_time ops r w = do {
     (sec, w) \<leftarrow> rtc_get_second ops w;
     (min, w) \<leftarrow> rtc_get_minute ops w;
     (hour, w) \<leftarrow> rtc_get_hour ops w;
     (day, w) \<leftarrow> rtc_get_day ops w;
     (month, w) \<leftarrow> rtc_get_month ops w;
     (year, w) \<leftarrow> rtc_get_year ops w;
     (weekday, w) \<leftarrow> rtc_get_weekday ops w;
     (century, w) \<leftarrow> rtc_get_century ops w;
     t \<leftarrow> apply_timezone \<lparr>t_second = unat sec, t_minute = unat min, t_hour = unat hour, t_day = unat day,
       t_month = unat month, t_year = unat year, t_weekday = unat weekday, t_century = unat century,
       t_timezone = t_timezone (rtc_time r)\<rparr>;
     Some (r\<lparr>rtc_time := t\<rparr>, w) }"

text \<open>The first part of \<^verbatim>\<open>init\<close>, the prologue and the epilogue.\<close>

definition rtc_get_freq :: "rtc \<Rightarrow> int" where "rtc_get_freq r = rtc_hz r"

definition rtc_setup :: "'w port_ops \<Rightarrow> bool \<Rightarrow> irq_freq \<Rightarrow> rtc \<Rightarrow> 'w \<Rightarrow> (rtc \<times> 'w) option" where
  "rtc_setup ops enable_update_irq freq r w = do {
     let (hz, w) = cmos_init ops enable_update_irq freq w;
     rtc_update_time ops (r\<lparr>rtc_hz := sint hz\<rparr>) w }"

definition rtc_prologue :: "'w port_ops \<Rightarrow> rtc \<Rightarrow> 'w \<Rightarrow> bool \<times> rtc \<times> 'w" where
  "rtc_prologue ops r w =
     (let (u, w) = is_update_irq ops w
      in if u then (True, r\<lparr>rtc_time := increment_seconds 1 (rtc_time r)\<rparr>, w) else (False, r, w))"

definition rtc_epilogue :: "'w port_ops \<Rightarrow> window \<Rightarrow> rtc \<Rightarrow> 'w cgas ostream \<Rightarrow> 'w cgas ostream option" where
  "rtc_epilogue ops w r s = do {
     s \<leftarrow> o_time (cga_flush ops w) (rtc_time r) (cga_stream_reset ops w 32 s);
     cga_flush ops w s }"

subsection \<open>What is relied on of the clock chip\<close>

text \<open>
  The index port selects a cell by its lower seven bits and can be read back, the data port
  reads and writes the selected cell; reading register C may clear it. The law says nothing of a
  clock that ticks between two accesses.
\<close>

definition cmos_ok :: "'w port_ops \<Rightarrow> ('w \<Rightarrow> u8) \<Rightarrow> ('w \<Rightarrow> u8 \<Rightarrow> u8) \<Rightarrow> bool" where
  "cmos_ok ops sel reg \<longleftrightarrow>
     (\<forall>v w. sel (p_outb ops cmos_ctrl v w) = v \<and> reg (p_outb ops cmos_ctrl v w) = reg w) \<and>
     (\<forall>w. fst (p_inb ops cmos_ctrl w) = sel w \<and> sel (snd (p_inb ops cmos_ctrl w)) = sel w \<and>
       reg (snd (p_inb ops cmos_ctrl w)) = reg w) \<and>
     (\<forall>w. fst (p_inb ops cmos_data w) = reg w (sel w AND 0x7f) \<and> sel (snd (p_inb ops cmos_data w)) = sel w \<and>
       (\<forall>k. k \<noteq> 0x0c \<longrightarrow> reg (snd (p_inb ops cmos_data w)) k = reg w k)) \<and>
     (\<forall>v w. sel (p_outb ops cmos_data v w) = sel w \<and>
       (\<forall>k. k \<noteq> 0x0c \<longrightarrow> reg (p_outb ops cmos_data v w) k = (if k = sel w AND 0x7f then v else reg w k)))"

lemma offset_value_inj: "offset_value a = offset_value b \<longleftrightarrow> a = b"
  by (cases a; cases b; simp)

lemma offset_cell: "((v AND nmi_bitmask) OR (offset_value off AND NOT nmi_bitmask)) AND 0x7f = offset_value off"
  "((v AND nmi_bitmask) OR (offset_value off AND NOT nmi_bitmask)) AND 0x80 = v AND 0x80"
proof -
  have "((v AND m) OR (x AND NOT m)) AND NOT m = x AND NOT m"
    "((v AND m) OR (x AND NOT m)) AND m = v AND m" for x m :: u8
    by (rule bit_word_eqI, auto simp: bit_simps)+
  moreover have "(0x7f :: u8) = NOT 0x80" by simp
  ultimately have "((v AND 0x80) OR (x AND NOT 0x80)) AND 0x7f = x AND 0x7f"
    "((v AND 0x80) OR (x AND NOT 0x80)) AND 0x80 = v AND 0x80" for x :: u8
    by (simp_all only:)
  moreover have "offset_value off AND 0x7f = offset_value off" by (cases off) simp_all
  ultimately show "((v AND nmi_bitmask) OR (offset_value off AND NOT nmi_bitmask)) AND 0x7f = offset_value off"
    "((v AND nmi_bitmask) OR (offset_value off AND NOT nmi_bitmask)) AND 0x80 = v AND 0x80"
    by (simp_all add: nmi_bitmask_def)
qed

lemma select_offset_ok:
  assumes "cmos_ok ops sel reg"
  shows "sel (select_offset ops off w) AND 0x7f = offset_value off"
    "sel (select_offset ops off w) AND 0x80 = sel w AND 0x80" "reg (select_offset ops off w) = reg w"
  using assms by (simp_all add: select_offset_def io_inb_def io_outb_def cmos_ok_def case_prod_beta offset_cell)

text \<open>The index of register C apart, the cells are those before.\<close>

definition cells_eq :: "(u8 \<Rightarrow> u8) \<Rightarrow> (u8 \<Rightarrow> u8) \<Rightarrow> bool" where
  "cells_eq r r' \<longleftrightarrow> (\<forall>k. k \<noteq> 0x0c \<longrightarrow> r k = r' k)"

lemma cmos_read_ok:
  assumes "cmos_ok ops sel reg"
  shows "\<exists>w'. cmos_read ops off w = (reg w (offset_value off), w') \<and> cells_eq (reg w') (reg w) \<and>
    sel w' AND 0x80 = sel w AND 0x80"
proof -
  let ?w = "select_offset ops off w"
  have "fst (p_inb ops cmos_data ?w) = reg ?w (sel ?w AND 0x7f) \<and> sel (snd (p_inb ops cmos_data ?w)) = sel ?w \<and>
      cells_eq (reg (snd (p_inb ops cmos_data ?w))) (reg ?w)"
    using assms unfolding cmos_ok_def cells_eq_def by blast
  then have "fst (cmos_read ops off w) = reg w (offset_value off)" "cells_eq (reg (snd (cmos_read ops off w))) (reg w)"
    "sel (snd (cmos_read ops off w)) AND 0x80 = sel w AND 0x80"
    by (simp_all add: cmos_read_def io_inb_def select_offset_ok [OF assms])
  then show ?thesis by (metis prod.collapse)
qed

lemma cmos_write_ok:
  assumes "cmos_ok ops sel reg"
  shows "cells_eq (reg (snd (cmos_write ops off v w))) ((reg w)(offset_value off := v)) \<and>
    sel (snd (cmos_write ops off v w)) AND 0x80 = sel w AND 0x80"
proof -
  obtain w1 where w1: "cmos_read ops off w = (reg w (offset_value off), w1)" "cells_eq (reg w1) (reg w)"
    "sel w1 AND 0x80 = sel w AND 0x80" using cmos_read_ok [OF assms] by blast
  let ?w = "select_offset ops off w1"
  have "sel (p_outb ops cmos_data v ?w) = sel ?w \<and>
      (\<forall>k. k \<noteq> 0x0c \<longrightarrow> reg (p_outb ops cmos_data v ?w) k = (if k = sel ?w AND 0x7f then v else reg ?w k))"
    using assms unfolding cmos_ok_def by blast
  with w1 show ?thesis
    by (simp add: cmos_write_def io_outb_def select_offset_ok [OF assms] cells_eq_def)
qed

lemma wait_update_ok:
  assumes "cmos_ok ops sel reg" "\<not> a_updating (reg w (offset_value StatusA))"
  shows "\<exists>w'. wait_update ops w = Some w' \<and> cells_eq (reg w') (reg w) \<and> sel w' AND 0x80 = sel w AND 0x80"
  using cmos_read_ok [OF assms(1), of StatusA w] assms(2)
  by (subst wait_update.simps) (auto simp: is_updating_def)

lemma rtc_get_value_ok:
  assumes "cmos_ok ops sel reg" "\<not> a_updating (reg w (offset_value StatusA))" "off \<noteq> StatusC"
  shows "\<exists>w'. rtc_get_value ops off w = Some (bcd_to_int (reg w (offset_value off)), w')"
proof -
  obtain w1 where w1: "wait_update ops w = Some w1" "cells_eq (reg w1) (reg w)"
    using wait_update_ok [OF assms(1,2)] by blast
  have "offset_value off \<noteq> 0x0c" using assms(3) by (cases off) simp_all
  with w1(2) have "reg w1 (offset_value off) = reg w (offset_value off)" by (simp add: cells_eq_def)
  with w1(1) cmos_read_ok [OF assms(1), of off w1] show ?thesis by (auto simp: rtc_get_value_def)
qed

subsection \<open>Properties\<close>

text \<open>While no update falls in between, a value up to 99 that was set is the value that
  is read back, every other cell of the clock still reads as before, and the NMI mask in the index
  port is not changed; a value above 99 changes nothing.\<close>

theorem rtc_roundtrip:
  assumes "cmos_ok ops sel reg" "\<not> a_updating (reg w (offset_value StatusA))"
    and "off \<notin> {StatusA, StatusC}" "off' \<notin> {StatusA, StatusC}" "v \<le> 99"
  shows "\<exists>w' w''. rtc_set_value ops off v w = Some w' \<and> sel w' AND nmi_bitmask = sel w AND nmi_bitmask \<and>
    rtc_get_value ops off' w' =
      Some (if off' = off then v else bcd_to_int (reg w (offset_value off')), w'')"
proof -
  define b where "b = (ucast (int_to_bcd (ucast v)) :: u8)"
  obtain w1 where w1: "wait_update ops w = Some w1" "cells_eq (reg w1) (reg w)" "sel w1 AND 0x80 = sel w AND 0x80"
    using wait_update_ok [OF assms(1,2)] by blast
  define w' where "w' = snd (cmos_write ops off b w1)"
  have set: "rtc_set_value ops off v w = Some w'"
    using w1(1) assms(5) by (simp add: rtc_set_value_def w'_def b_def leD)
  have w': "cells_eq (reg w') ((reg w1)(offset_value off := b))" "sel w' AND 0x80 = sel w1 AND 0x80"
    using cmos_write_ok [OF assms(1), of off b w1] by (simp_all add: w'_def)
  have ne: "x \<notin> {StatusA, StatusC} \<Longrightarrow> offset_value x \<noteq> 0x0a \<and> offset_value x \<noteq> 0x0c" for x by (cases x) auto
  have "reg w' 0x0a = reg w 0x0a" using w'(1) w1(2) ne [OF assms(3)] by (simp add: cells_eq_def)
  then have "\<not> a_updating (reg w' (offset_value StatusA))" using assms(2) by simp
  with assms(4) obtain w'' where get: "rtc_get_value ops off' w' = Some (bcd_to_int (reg w' (offset_value off')), w'')"
    using rtc_get_value_ok [OF assms(1), of w' off'] by auto
  have cell: "reg w' (offset_value off') = (if off' = off then b else reg w (offset_value off'))"
    using w'(1) w1(2) ne [OF assms(4)] by (simp add: cells_eq_def offset_value_inj)
  have small: "unat v < 256" using assms(5) by (simp add: word_le_nat_alt)
  then have "unat (ucast v :: u8) = unat v"
    by (simp add: unsigned_ucast_eq unsigned_take_bit_eq take_bit_nat_eq_self)
  then have "(ucast v :: u8) < 100" "ucast (ucast v :: u8) = v"
    using assms(5) by (simp_all add: word_less_nat_alt word_le_nat_alt word_unat_eq_iff unsigned_ucast_eq unsigned_take_bit_eq
      take_bit_nat_eq_self)
  then have "bcd_to_int b = v" unfolding b_def by (simp add: int_to_bcd_roundtrip)
  with set get cell w'(2) w1(3) show ?thesis by (auto simp: nmi_bitmask_def)
qed

text \<open>A chip with 128 cells whose register C is cleared by reading it, for the examples.\<close>

definition rtc_demo :: "(u8 \<times> (u8 \<Rightarrow> u8)) port_ops" where
  "rtc_demo = \<lparr>
     p_inb = (\<lambda>a (i, r). if a = cmos_ctrl then (i, (i, r)) else if a = cmos_data
        then (r (i AND 0x7f), (i, if i AND 0x7f = 0x0c then r(0x0c := 0) else r)) else (0, (i, r))),
     p_outb = (\<lambda>a v (i, r). if a = cmos_ctrl then (v, r) else if a = cmos_data then (i, r(i AND 0x7f := v)) else (i, r))\<rparr>"

lemma rtc_demo_ok: "cmos_ok rtc_demo fst snd"
  by (auto simp: cmos_ok_def rtc_demo_def cmos_ctrl_def cmos_data_def)

theorem rtc_roundtrip_witness:
  "\<exists>w' w''. rtc_set_value rtc_demo OMinute 59 (0x8a, \<lambda>_. 0x12) = Some w' \<and>
     rtc_get_value rtc_demo OMinute w' = Some (59, w'')"
  using rtc_roundtrip [OF rtc_demo_ok, of "(0x8a, \<lambda>_. 0x12)" OMinute OMinute 59]
  by (auto simp: a_updating_def)

end
