(* ===== verification/Serial.thy ===== *)
theory Serial
  imports Ports "HOL-Library.Monad_Syntax"
begin

section \<open>machine/serial: the serial interface\<close>

text \<open>
  The registers of an interface are eight ports from its base address. \<^verbatim>\<open>char\<close> is signed, so
  \<^verbatim>\<open>read\<close> and \<^verbatim>\<open>write\<close> give the byte \<^verbatim>\<open>0xff\<close> back as \<open>-1\<close>, the value that also stands for an
  error. The loops that wait for the interface may not end.
\<close>

datatype com_port = COM1 | COM2 | COM3 | COM4

fun com_base :: "com_port \<Rightarrow> u16" where
  "com_base COM1 = 0x3f8" | "com_base COM2 = 0x2f8" | "com_base COM3 = 0x3e8" | "com_base COM4 = 0x238"

datatype baud_rate = BAUD_300 | BAUD_600 | BAUD_1200 | BAUD_2400 | BAUD_4800 | BAUD_9600
  | BAUD_19200 | BAUD_38400 | BAUD_57600 | BAUD_115200

fun baud_value :: "baud_rate \<Rightarrow> u32" where
  "baud_value BAUD_300 = 384" | "baud_value BAUD_600 = 192" | "baud_value BAUD_1200 = 96"
| "baud_value BAUD_2400 = 48" | "baud_value BAUD_4800 = 24" | "baud_value BAUD_9600 = 12"
| "baud_value BAUD_19200 = 6" | "baud_value BAUD_38400 = 3" | "baud_value BAUD_57600 = 2"
| "baud_value BAUD_115200 = 1"

datatype data_bits = DATA_5BIT | DATA_6BIT | DATA_7BIT | DATA_8BIT

fun data_value :: "data_bits \<Rightarrow> u8" where
  "data_value DATA_5BIT = 0" | "data_value DATA_6BIT = 1" | "data_value DATA_7BIT = 2" | "data_value DATA_8BIT = 3"

datatype stop_bits = STOP_1BIT | STOP_1_5BIT | STOP_2BIT

fun stop_value :: "stop_bits \<Rightarrow> u8" where
  "stop_value STOP_1BIT = 0" | "stop_value STOP_1_5BIT = 4" | "stop_value STOP_2BIT = 4"

datatype parity = PARITY_NONE | PARITY_ODD | PARITY_EVEN | PARITY_MARK | PARITY_SPACE

fun parity_value :: "parity \<Rightarrow> u8" where
  "parity_value PARITY_NONE = 0" | "parity_value PARITY_ODD = 8" | "parity_value PARITY_EVEN = 24"
| "parity_value PARITY_MARK = 40" | "parity_value PARITY_SPACE = 56"

datatype reg_index = Rbr | Tbr | Dll | Ier | Dlh | Irr | Fcr | Lcr | Mcr | Lsr | Msr

fun reg_number :: "reg_index \<Rightarrow> u16" where
  "reg_number Rbr = 0" | "reg_number Tbr = 0" | "reg_number Dll = 0" | "reg_number Ier = 1" | "reg_number Dlh = 1"
| "reg_number Irr = 2" | "reg_number Fcr = 2" | "reg_number Lcr = 3" | "reg_number Mcr = 4" | "reg_number Lsr = 5"
| "reg_number Msr = 6"

definition write_reg :: "'w port_ops \<Rightarrow> u16 \<Rightarrow> reg_index \<Rightarrow> u8 \<Rightarrow> 'w \<Rightarrow> 'w" where
  "write_reg ops port reg out w = io_outb ops (port + reg_number reg) out w"

definition read_reg :: "'w port_ops \<Rightarrow> u16 \<Rightarrow> reg_index \<Rightarrow> 'w \<Rightarrow> u8 \<times> 'w" where
  "read_reg ops port reg w = io_inb ops (port + reg_number reg) w"

definition serial_new ::
  "'w port_ops \<Rightarrow> u16 \<Rightarrow> baud_rate \<Rightarrow> data_bits \<Rightarrow> stop_bits \<Rightarrow> parity \<Rightarrow> 'w \<Rightarrow> 'w"
where
  "serial_new ops port baud databits stopbits par w =
     (let w = write_reg ops port Lcr (push_bit 7 1) w;
          w = write_reg ops port Tbr (ucast (baud_value baud AND 0xff)) w;
          w = write_reg ops port Ier (ucast (drop_bit 8 (baud_value baud) AND 0xff)) w;
          w = write_reg ops port Lcr (push_bit 7 0) w;
          w = write_reg ops port Lcr (data_value databits OR stop_value stopbits OR parity_value par) w
      in write_reg ops port Ier 0 w)"

partial_function (option) wait_lsr :: "'w port_ops \<Rightarrow> u16 \<Rightarrow> u8 \<Rightarrow> 'w \<Rightarrow> 'w option" where
  "wait_lsr ops port bits w =
     (let (v, w) = read_reg ops port Lsr w in if v AND bits \<noteq> 0 then Some w else wait_lsr ops port bits w)"

definition serial_write :: "'w port_ops \<Rightarrow> u16 \<Rightarrow> u8 \<Rightarrow> bool \<Rightarrow> 'w \<Rightarrow> (int \<times> 'w) option" where
  "serial_write ops port out blocking w =
     (if \<not> blocking
      then let (v, w) = read_reg ops port Lsr w
           in if v AND push_bit 5 1 \<noteq> 0 then Some (sint out, write_reg ops port Tbr out w) else Some (-1, w)
      else do {
        w \<leftarrow> wait_lsr ops port (push_bit 5 1) w;
        Some (sint out, write_reg ops port Tbr out w) })"

definition serial_read :: "'w port_ops \<Rightarrow> u16 \<Rightarrow> bool \<Rightarrow> 'w \<Rightarrow> (int \<times> 'w) option" where
  "serial_read ops port blocking w =
     (if \<not> blocking
      then let (v, w) = read_reg ops port Lsr w
           in if v AND 1 \<noteq> 0 then let (c, w) = read_reg ops port Rbr w in Some (sint c, w) else Some (-1, w)
      else do {
        w \<leftarrow> wait_lsr ops port 1 w;
        let (c, w) = read_reg ops port Rbr w;
        Some (sint c, w) })"

text \<open>The loop at the end of \<^verbatim>\<open>receiveInterrupt\<close>.\<close>

partial_function (option) clear_input :: "'w port_ops \<Rightarrow> u16 \<Rightarrow> 'w \<Rightarrow> 'w option" where
  "clear_input ops port w = do {
     (c, w) \<leftarrow> serial_read ops port False w;
     if c \<noteq> -1 then clear_input ops port w else Some w }"

subsection \<open>What is relied on of the interface\<close>

text \<open>
  A law of the hardware, stated for a line that is ready: \<open>inp\<close> are the bytes that wait to be
  read, \<open>outp\<close> those that were sent, in the order of the transfer.
\<close>

definition serial_ok :: "'w port_ops \<Rightarrow> u16 \<Rightarrow> ('w \<Rightarrow> u8 list) \<Rightarrow> ('w \<Rightarrow> u8 list) \<Rightarrow> bool" where
  "serial_ok ops port inp outp \<longleftrightarrow>
     (\<forall>w. bit (fst (p_inb ops (port + 5) w)) 5 \<and> bit (fst (p_inb ops (port + 5) w)) 0 = (inp w \<noteq> []) \<and>
       inp (snd (p_inb ops (port + 5) w)) = inp w \<and> outp (snd (p_inb ops (port + 5) w)) = outp w) \<and>
     (\<forall>w c cs. inp w = c # cs \<longrightarrow> fst (p_inb ops port w) = c \<and> inp (snd (p_inb ops port w)) = cs \<and>
       outp (snd (p_inb ops port w)) = outp w) \<and>
     (\<forall>w c. inp (p_outb ops port c w) = inp w \<and> outp (p_outb ops port c w) = outp w @ [c])"

lemma bit_tests: "(v :: u8) AND 32 = 0 \<longleftrightarrow> \<not> bit v 5" "(v :: u8) AND 1 = 0 \<longleftrightarrow> \<not> bit v 0"
  using and_exp_eq_0_iff_not_bit [of v 5] and_exp_eq_0_iff_not_bit [of v 0] by simp_all

lemma serial_write_ok:
  assumes "serial_ok ops port inp outp"
  shows "\<exists>w'. serial_write ops port c blocking w = Some (sint c, w') \<and> inp w' = inp w \<and> outp w' = outp w @ [c]"
proof -
  let ?w = "snd (p_inb ops (port + 5) w)"
  have ready: "bit (fst (p_inb ops (port + 5) w)) 5" "inp ?w = inp w" "outp ?w = outp w"
    and out: "inp (p_outb ops port c ?w) = inp ?w" "outp (p_outb ops port c ?w) = outp ?w @ [c]"
    using assms by (simp_all add: serial_ok_def)
  have "wait_lsr ops port (push_bit 5 1) w = Some ?w"
    using ready(1) by (subst wait_lsr.simps) (simp add: read_reg_def io_inb_def case_prod_beta Let_def bit_tests)
  then have "serial_write ops port c blocking w = Some (sint c, p_outb ops port c ?w)"
    using ready(1) by (simp add: serial_write_def write_reg_def read_reg_def io_outb_def io_inb_def case_prod_beta
        Let_def bit_tests)
  with ready out show ?thesis by auto
qed

lemma serial_read_ok:
  assumes "serial_ok ops port inp outp" "inp w = c # cs"
  shows "\<exists>w'. serial_read ops port blocking w = Some (sint c, w') \<and> inp w' = cs \<and> outp w' = outp w"
proof -
  let ?w = "snd (p_inb ops (port + 5) w)"
  have ready: "bit (fst (p_inb ops (port + 5) w)) 0" "inp ?w = inp w" "outp ?w = outp w"
    using assms by (simp_all add: serial_ok_def)
  then have rd: "fst (p_inb ops port ?w) = c" "inp (snd (p_inb ops port ?w)) = cs" "outp (snd (p_inb ops port ?w)) = outp ?w"
    using assms unfolding serial_ok_def by simp_all
  have "wait_lsr ops port 1 w = Some ?w"
    using ready(1) by (subst wait_lsr.simps) (simp add: read_reg_def io_inb_def case_prod_beta Let_def bit_tests)
  then have "serial_read ops port blocking w = Some (sint c, snd (p_inb ops port ?w))"
    using ready(1) rd(1) by (simp add: serial_read_def read_reg_def io_inb_def case_prod_beta Let_def bit_tests)
  with ready rd show ?thesis by auto
qed

text \<open>A line for examples: the state are the bytes to come and the bytes sent.\<close>

definition line_ops :: "u16 \<Rightarrow> (u8 list \<times> u8 list) port_ops" where
  "line_ops port = \<lparr>
     p_inb = (\<lambda>a (i, o'). if a = port + 5 then (if i = [] then 0x20 else 0x21, (i, o'))
        else if a = port \<and> i \<noteq> [] then (hd i, (tl i, o')) else (0, (i, o'))),
     p_outb = (\<lambda>a v (i, o'). if a = port then (i, o' @ [v]) else (i, o'))\<rparr>"

lemma line_ops_ok: "serial_ok (line_ops port) port fst snd"
proof -
  have "bit (0x20 :: u8) 5" "bit (0x21 :: u8) 5" "\<not> bit (0x20 :: u8) 0" "bit (0x21 :: u8) 0" by simp_all
  then show ?thesis by (auto simp: serial_ok_def line_ops_def)
qed

end
