(* ===== verification/GdbStub.thy ===== *)
theory GdbStub
  imports Serial MemUtil
begin

section \<open>debug/gdb: the stub for remote debugging\<close>

text \<open>
  The stub talks to the debugger over a serial line. A packet is \<open>$data#cc\<close> with a checksum of two
  hexadecimal digits, and is acknowledged by one byte. \<open>None\<close> is a failed assertion, an access
  outside the packet buffer, the use of memory that was never written, or a wait that does not
  end; \<open>-1\<close>, where a function returns it, is \<open>Some None\<close>. \<^verbatim>\<open>int\<close> overflow in \<^verbatim>\<open>strtol\<close> wraps around.
\<close>

definition ch :: "char \<Rightarrow> u8" where "ch c = of_char c"

subsection \<open>Characters and numbers\<close>

definition get_digit :: "int \<Rightarrow> u8" where
  "get_digit val = (if 0 \<le> val \<and> val \<le> 0xf then ch (''0123456789abcdef'' ! nat val) else -1)"

definition get_val :: "u8 \<Rightarrow> int \<Rightarrow> int" where
  "get_val digit base =
     (let value = (if sint (ch CHR ''0'') \<le> sint digit \<and> sint digit \<le> sint (ch CHR ''9'') then sint digit - 48
                   else if sint (ch CHR ''a'') \<le> sint digit \<and> sint digit \<le> sint (ch CHR ''f'') then sint digit - 97 + 0xa
                   else if sint (ch CHR ''A'') \<le> sint digit \<and> sint digit \<le> sint (ch CHR ''F'') then sint digit - 65 + 0xa
                   else -1)
      in if value < base then value else -1)"

text \<open>A byte of the packet buffer.\<close>

definition at :: "u8 list \<Rightarrow> u32 \<Rightarrow> u8 option" where
  "at buf i = (if unat i < length buf then Some (buf ! unat i) else None)"

text \<open>\<open>str\<close> is an index into the buffer; the second result is the index \<^verbatim>\<open>endptr\<close> or null.\<close>

partial_function (option) gdb_strtol_loop ::
  "u8 list \<Rightarrow> u32 \<Rightarrow> u32 \<Rightarrow> int \<Rightarrow> u32 \<Rightarrow> u32 \<Rightarrow> bool \<Rightarrow> (u32 \<times> u32 \<times> bool) option"
where
  "gdb_strtol_loop buf str len base pos value valid =
     (if pos < len
      then do {
        c \<leftarrow> at buf (str + pos);
        if c = 0 then Some (pos, value, valid)
        else let tmp = get_val c base
             in if tmp = -1 then Some (pos, value, valid)
                else gdb_strtol_loop buf str len base (pos + 1) (value * word_of_int base + word_of_int tmp) True }
      else Some (pos, value, valid))"

definition gdb_strtol :: "u8 list \<Rightarrow> u32 \<Rightarrow> u32 \<Rightarrow> int \<Rightarrow> (u32 \<times> u32 option) option" where
  "gdb_strtol buf str len base =
     (if len < 1 then Some (0, None)
      else do {
        c \<leftarrow> at buf str;
        let (sign, pos) = (if c = ch CHR ''-'' then (-1, 1) else if c = ch CHR ''+'' then (1, 1) else (1, 0));
        (base, pos) \<leftarrow>
          (if pos + 2 < len
           then do {
             c0 \<leftarrow> at buf (str + pos);
             c1 \<leftarrow> at buf (str + pos + 1);
             Some (if c0 = ch CHR ''0'' \<and> (c1 = ch CHR ''x'' \<or> c1 = ch CHR ''X'') then (16, pos + 2) else (base, pos)) }
           else Some (base, pos));
        (pos, value, valid) \<leftarrow> gdb_strtol_loop buf str len (if base = 0 then 10 else base) pos 0 False;
        Some (if valid then (value * sign, Some (str + pos)) else (0, None)) })"

subsection \<open>Encodings\<close>

text \<open>The result is what is written to the buffer.\<close>

definition hex_byte :: "u8 \<Rightarrow> u8 list" where
  "hex_byte b = [get_digit (uint (drop_bit 4 b AND 0xf)), get_digit (uint (b AND 0xf))]"

definition enc_hex :: "nat \<Rightarrow> u8 list \<Rightarrow> u8 list option" where
  "enc_hex buf_len data = (if buf_len < length data * 2 then None else Some (concat (map hex_byte data)))"

fun dec_loop_hex :: "nat \<Rightarrow> u8 list \<Rightarrow> u8 list option" where
  "dec_loop_hex 0 buf = Some []"
| "dec_loop_hex (Suc n) (h # l # buf) =
     (let hi = get_val h 16; lo = get_val l 16
      in if hi = -1 \<or> lo = -1 then None
         else map_option (Cons (push_bit 4 (word_of_int hi) OR word_of_int lo)) (dec_loop_hex n buf))"
| "dec_loop_hex (Suc n) _ = None"

definition dec_hex :: "u8 list \<Rightarrow> u32 \<Rightarrow> u32 \<Rightarrow> u8 list option option" where
  "dec_hex buf buf_len data_len =
     (if buf_len \<noteq> data_len * 2 then Some None else map_option Some (dec_loop_hex (unat data_len) buf))"

definition masked :: "u8 \<Rightarrow> bool" where
  "masked c \<longleftrightarrow> c = ch CHR ''$'' \<or> c = ch CHR ''#'' \<or> c = ch CHR ''}'' \<or> c = ch CHR ''*''"

text \<open>Both stop at an assertion when the target is too small. \<open>room\<close> is what is left of it.\<close>

fun enc_bin :: "nat \<Rightarrow> u8 list \<Rightarrow> u8 list option" where
  "enc_bin room [] = Some []"
| "enc_bin room (c # data) =
     (if masked c
      then if room < 2 then None else map_option (\<lambda>r. ch CHR ''}'' # (c XOR 0x20) # r) (enc_bin (room - 2) data)
      else if room < 1 then None else map_option (Cons c) (enc_bin (room - 1) data))"

fun dec_bin :: "nat \<Rightarrow> u8 list \<Rightarrow> u8 list option" where
  "dec_bin room [] = Some []"
| "dec_bin room (c # buf) =
     (if room = 0 then None
      else if c = ch CHR ''}''
      then (case buf of [] \<Rightarrow> None | d # buf \<Rightarrow> map_option (Cons (d XOR 0x20)) (dec_bin (room - 1) buf))
      else map_option (Cons c) (dec_bin (room - 1) buf))"

subsection \<open>Packets\<close>

fun write_string :: "'w port_ops \<Rightarrow> u16 \<Rightarrow> u8 list \<Rightarrow> 'w \<Rightarrow> (bool \<times> 'w) option" where
  "write_string ops port [] w = Some (True, w)"
| "write_string ops port (c # cs) w = do {
     (r, w) \<leftarrow> serial_write ops port c True w;
     if r = -1 then Some (False, w) else write_string ops port cs w }"

fun read_string :: "'w port_ops \<Rightarrow> u16 \<Rightarrow> nat \<Rightarrow> 'w \<Rightarrow> (u8 list option \<times> 'w) option" where
  "read_string ops port 0 w = Some (Some [], w)"
| "read_string ops port (Suc n) w = do {
     (c, w) \<leftarrow> serial_read ops port True w;
     if c = -1 then Some (None, w)
     else do {
       (r, w) \<leftarrow> read_string ops port n w;
       Some (map_option (Cons (word_of_int c)) r, w) } }"

definition recv_ack :: "'w port_ops \<Rightarrow> u16 \<Rightarrow> 'w \<Rightarrow> (int \<times> 'w) option" where
  "recv_ack ops port w = do {
     (response, w) \<leftarrow> serial_read ops port True w;
     Some (if response = sint (ch CHR ''+'') then 0 else if response = sint (ch CHR ''-'') then 1 else -1, w) }"

definition checksum :: "u8 list \<Rightarrow> u8" where "checksum buf = sum_list buf"

definition send_packet :: "'w port_ops \<Rightarrow> u16 \<Rightarrow> u8 list \<Rightarrow> 'w \<Rightarrow> (int \<times> 'w) option" where
  "send_packet ops port data w = do {
     (r, w) \<leftarrow> serial_write ops port (ch CHR ''$'') True w;
     if r = -1 then Some (-1, w)
     else do {
       (ok, w) \<leftarrow> write_string ops port data w;
       if \<not> ok then Some (-1, w)
       else do {
         (ok, w) \<leftarrow> write_string ops port (ch CHR ''#'' # hex_byte (checksum data)) w;
         if \<not> ok then Some (-1, w) else recv_ack ops port w } } }"

partial_function (option) wait_start :: "'w port_ops \<Rightarrow> u16 \<Rightarrow> 'w \<Rightarrow> 'w option" where
  "wait_start ops port w = do {
     (data, w) \<leftarrow> serial_read ops port True w;
     if data \<noteq> sint (ch CHR ''$'') then wait_start ops port w else Some w }"

text \<open>The loop up to the end of the packet. The buffer is written from its start.\<close>

partial_function (option) recv_loop ::
  "'w port_ops \<Rightarrow> u16 \<Rightarrow> u8 list \<Rightarrow> nat \<Rightarrow> 'w \<Rightarrow> (nat option \<times> u8 list \<times> 'w) option"
where
  "recv_loop ops port buf pkt_len w = do {
     (data, w) \<leftarrow> serial_read ops port True w;
     if data = -1 then Some (None, buf, w)
     else if data = sint (ch CHR ''#'') then Some (Some pkt_len, buf, w)
     else if length buf \<le> pkt_len then Some (None, buf, w)
     else recv_loop ops port (buf[pkt_len := word_of_int data]) (pkt_len + 1) w }"

definition recv_packet :: "'w port_ops \<Rightarrow> u16 \<Rightarrow> u8 list \<Rightarrow> 'w \<Rightarrow> (nat option \<times> u8 list \<times> 'w) option" where
  "recv_packet ops port buf w = do {
     w \<leftarrow> wait_start ops port w;
     (len, buf, w) \<leftarrow> recv_loop ops port buf 0 w;
     case len of None \<Rightarrow> Some (None, buf, w) | Some pkt_len \<Rightarrow> do {
       (cs, w) \<leftarrow> read_string ops port 2 w;
       case cs of None \<Rightarrow> Some (None, buf, w) | Some cs \<Rightarrow> do {
         expected \<leftarrow> dec_hex cs 2 1;
         case expected of None \<Rightarrow> Some (None, buf, w) | Some expected \<Rightarrow>
           if checksum (take pkt_len buf) \<noteq> hd expected
           then do { (_, w) \<leftarrow> serial_write ops port (ch CHR ''-'') True w; Some (None, buf, w) }
           else do { (_, w) \<leftarrow> serial_write ops port (ch CHR ''+'') True w; Some (Some pkt_len, buf, w) } } } }"


subsection \<open>Commands\<close>

text \<open>
  The state of the stub: the signal number, the sixteen registers, and the memory of the system
  (without the stub's own objects and without device memory). Errors that lead to the label
  \<^verbatim>\<open>error\<close> are \<open>Some None\<close>.
\<close>

datatype gdb_register = REG_EAX | REG_ECX | REG_EDX | REG_EBX | REG_ESP | REG_EBP | REG_ESI | REG_EDI | REG_PC
  | REG_PS | REG_CS | REG_SS | REG_DS | REG_ES | REG_FS | REG_GS

fun reg_no :: "gdb_register \<Rightarrow> nat" where
  "reg_no REG_EAX = 0" | "reg_no REG_ECX = 1" | "reg_no REG_EDX = 2" | "reg_no REG_EBX = 3"
| "reg_no REG_ESP = 4" | "reg_no REG_EBP = 5" | "reg_no REG_ESI = 6" | "reg_no REG_EDI = 7"
| "reg_no REG_PC = 8" | "reg_no REG_PS = 9" | "reg_no REG_CS = 10" | "reg_no REG_SS = 11"
| "reg_no REG_DS = 12" | "reg_no REG_ES = 13" | "reg_no REG_FS = 14" | "reg_no REG_GS = 15"

definition NUM_REGISTERS :: u32 where "NUM_REGISTERS = 16"

record gdb_state =
  g_signum :: u32
  g_registers :: "u32 list"
  g_mem :: mem

text \<open>The bytes of a register in memory and back.\<close>

definition reg_bytes :: "u32 \<Rightarrow> u8 list" where
  "reg_bytes v = [ucast v, ucast (drop_bit 8 v), ucast (drop_bit 16 v), ucast (drop_bit 24 v)]"

fun bytes_regs :: "u8 list \<Rightarrow> u32 list" where
  "bytes_regs (a # b # c # d # bs) =
     (ucast a OR push_bit 8 (ucast b) OR push_bit 16 (ucast c) OR push_bit 24 (ucast d)) # bytes_regs bs"
| "bytes_regs _ = []"

definition overwrite :: "u8 list \<Rightarrow> u8 list \<Rightarrow> u8 list" where
  "overwrite bs buf = bs @ drop (length bs) buf"

definition DATA_SIZE :: nat where "DATA_SIZE = 64"

definition mem_read :: "nat \<Rightarrow> u32 \<Rightarrow> u32 \<Rightarrow> bool \<Rightarrow> mem \<Rightarrow> u8 list option option" where
  "mem_read buf_len addr len hex m =
     (if DATA_SIZE < unat len then Some None
      else let data = map (\<lambda>pos. m (addr + of_nat pos)) [0..<unat len]
           in if hex then Some (enc_hex buf_len data) else map_option Some (enc_bin buf_len data))"

fun write_bytes :: "u32 \<Rightarrow> u8 list \<Rightarrow> mem \<Rightarrow> mem" where
  "write_bytes addr [] m = m"
| "write_bytes addr (c # cs) m = write_bytes (addr + 1) cs (m(addr := c))"

text \<open>
  \<open>ptr\<close> and \<open>buf_len\<close> select the source in the packet buffer. When \<^verbatim>\<open>dec_bin\<close> decodes fewer bytes
  than \<open>len\<close>, the rest of the local array was never written.
\<close>

definition mem_write :: "u8 list \<Rightarrow> u32 \<Rightarrow> u32 \<Rightarrow> u32 \<Rightarrow> u32 \<Rightarrow> bool \<Rightarrow> mem \<Rightarrow> mem option option" where
  "mem_write buf ptr buf_len addr len hex m =
     (if DATA_SIZE < unat len then Some None
      else let src = drop (unat ptr) buf
           in if hex
              then do {
                d \<leftarrow> dec_hex src buf_len len;
                case d of None \<Rightarrow> Some None | Some data \<Rightarrow> Some (Some (write_bytes addr data m)) }
              else if length src < unat buf_len then None
              else do {
                data \<leftarrow> dec_bin (unat len) (take (unat buf_len) src);
                if length data < unat len then None else Some (Some (write_bytes addr data m)) })"

definition sys_continue :: "gdb_state \<Rightarrow> gdb_state" where
  "sys_continue st = st\<lparr>g_registers := (g_registers st)
     [reg_no REG_PS := g_registers st ! reg_no REG_PS AND NOT (push_bit 8 1)]\<rparr>"

definition sys_step :: "gdb_state \<Rightarrow> gdb_state" where
  "sys_step st = st\<lparr>g_registers := (g_registers st)
     [reg_no REG_PS := g_registers st ! reg_no REG_PS OR push_bit 8 1]\<rparr>"

definition send_ok_packet :: "'w port_ops \<Rightarrow> u16 \<Rightarrow> 'w \<Rightarrow> (int \<times> 'w) option" where
  "send_ok_packet ops port w = send_packet ops port [ch CHR ''O'', ch CHR ''K''] w"

text \<open>A packet built in the buffer from a letter and a byte; the buffer is returned.\<close>

definition send_letter_packet ::
  "'w port_ops \<Rightarrow> u16 \<Rightarrow> u8 \<Rightarrow> u8 list \<Rightarrow> u8 \<Rightarrow> 'w \<Rightarrow> (int \<times> u8 list \<times> 'w) option"
where
  "send_letter_packet ops port letter buf b w =
     (if length buf < 4 then Some (-1, buf, w)
      else case enc_hex (length buf - 1) [b] of
        None \<Rightarrow> Some (-1, letter # tl buf, w)
      | Some e \<Rightarrow> do {
          let buf = overwrite (letter # e) buf;
          (r, w) \<leftarrow> send_packet ops port (take (1 + length e) buf) w;
          Some (r, buf, w) })"

definition send_signal_packet ::
  "'w port_ops \<Rightarrow> u16 \<Rightarrow> u8 list \<Rightarrow> u8 \<Rightarrow> 'w \<Rightarrow> (int \<times> u8 list \<times> 'w) option"
where
  "send_signal_packet ops port = send_letter_packet ops port (ch CHR ''S'')"

definition send_error_packet ::
  "'w port_ops \<Rightarrow> u16 \<Rightarrow> u8 list \<Rightarrow> u8 \<Rightarrow> 'w \<Rightarrow> (int \<times> u8 list \<times> 'w) option"
where
  "send_error_packet ops port = send_letter_packet ops port (ch CHR ''E'')"

end
