(* ===== verification/GdbHandle.thy ===== *)
theory GdbHandle
  imports GdbStub
begin

section \<open>debug/gdb: the command loop and the interrupt handler\<close>

text \<open>
  The loop of \<^verbatim>\<open>handle\<close> with one definition for each command, the copying of the registers
  by \<open>debug_handler\<close>, and the entry of the handlers in the interrupt descriptor table. The
  output of the debug stream is left out.
\<close>

subsection \<open>Parsing\<close>

text \<open>The macros of \<^verbatim>\<open>handle\<close>. \<open>Some None\<close> is the jump to \<^verbatim>\<open>error\<close>.\<close>

definition or_error :: "'a option option \<Rightarrow> ('a \<Rightarrow> 'b option option) \<Rightarrow> 'b option option" where
  "or_error x f = (case x of None \<Rightarrow> None | Some None \<Rightarrow> Some None | Some (Some a) \<Rightarrow> f a)"

lemma or_error_simps [simp]:
  "or_error None f = None" "or_error (Some None) f = Some None" "or_error (Some (Some a)) f = f a"
  by (simp_all add: or_error_def)

definition token_remaining_buf :: "u32 \<Rightarrow> u32 \<Rightarrow> u32" where
  "token_remaining_buf pkt_len ptr_next = pkt_len - ptr_next"

definition token_expect_seperator :: "u8 list \<Rightarrow> u8 \<Rightarrow> u32 \<Rightarrow> u32 option option" where
  "token_expect_seperator buf c ptr_next =
     map_option (\<lambda>x. if x \<noteq> c then None else Some (ptr_next + 1)) (at buf ptr_next)"

definition token_expect_integer_arg :: "u8 list \<Rightarrow> u32 \<Rightarrow> u32 \<Rightarrow> (u32 \<times> u32) option option" where
  "token_expect_integer_arg buf pkt_len ptr_next =
     map_option (\<lambda>(arg, e). map_option (Pair arg) e)
       (gdb_strtol buf ptr_next (token_remaining_buf pkt_len ptr_next) 16)"

subsection \<open>Commands\<close>

type_synonym 'w reply = "(u8 list \<times> gdb_state \<times> 'w) option option"

text \<open>Sending the packet that was built at the start of the buffer.\<close>

definition answer :: "'w port_ops \<Rightarrow> u16 \<Rightarrow> u8 list \<Rightarrow> u8 list \<Rightarrow> gdb_state \<Rightarrow> 'w \<Rightarrow> 'w reply" where
  "answer ops port data buf st w =
     do { (_, w) \<leftarrow> send_packet ops port data w; Some (Some (overwrite data buf, st, w)) }"

definition answer_ok :: "'w port_ops \<Rightarrow> u16 \<Rightarrow> u8 list \<Rightarrow> gdb_state \<Rightarrow> 'w \<Rightarrow> 'w reply" where
  "answer_ok ops port buf st w = do { (_, w) \<leftarrow> send_ok_packet ops port w; Some (Some (buf, st, w)) }"

definition cmd_read_registers :: "'w port_ops \<Rightarrow> u16 \<Rightarrow> u8 list \<Rightarrow> u32 \<Rightarrow> gdb_state \<Rightarrow> 'w \<Rightarrow> 'w reply" where
  "cmd_read_registers ops port buf pkt_len st w =
     (case enc_hex (length buf) (concat (map reg_bytes (g_registers st))) of
        None \<Rightarrow> Some None
      | Some data \<Rightarrow> answer ops port data buf st w)"

definition cmd_write_registers :: "'w port_ops \<Rightarrow> u16 \<Rightarrow> u8 list \<Rightarrow> u32 \<Rightarrow> gdb_state \<Rightarrow> 'w \<Rightarrow> 'w reply" where
  "cmd_write_registers ops port buf pkt_len st w =
     or_error (dec_hex (drop 1 buf) (pkt_len - 1) (4 * NUM_REGISTERS)) (\<lambda>data.
       answer_ok ops port buf (st\<lparr>g_registers := bytes_regs data\<rparr>) w)"

definition cmd_read_register :: "'w port_ops \<Rightarrow> u16 \<Rightarrow> u8 list \<Rightarrow> u32 \<Rightarrow> gdb_state \<Rightarrow> 'w \<Rightarrow> 'w reply" where
  "cmd_read_register ops port buf pkt_len st w =
     or_error (token_expect_integer_arg buf pkt_len 1) (\<lambda>(addr, ptr_next).
       if NUM_REGISTERS \<le> addr then Some None
       else case enc_hex (length buf) (reg_bytes (g_registers st ! unat addr)) of
          None \<Rightarrow> Some None
        | Some data \<Rightarrow> answer ops port data buf st w)"

definition cmd_write_register :: "'w port_ops \<Rightarrow> u16 \<Rightarrow> u8 list \<Rightarrow> u32 \<Rightarrow> gdb_state \<Rightarrow> 'w \<Rightarrow> 'w reply" where
  "cmd_write_register ops port buf pkt_len st w =
     or_error (token_expect_integer_arg buf pkt_len 1) (\<lambda>(addr, ptr_next).
     or_error (token_expect_seperator buf (ch CHR ''='') ptr_next) (\<lambda>ptr_next.
       if NUM_REGISTERS \<le> addr then Some None
       else or_error (dec_hex (drop (unat ptr_next) buf) (token_remaining_buf pkt_len ptr_next) 4) (\<lambda>data.
         answer_ok ops port buf (st\<lparr>g_registers := (g_registers st)[unat addr := hd (bytes_regs data)]\<rparr>) w)))"

definition cmd_read_memory :: "'w port_ops \<Rightarrow> u16 \<Rightarrow> u8 list \<Rightarrow> u32 \<Rightarrow> gdb_state \<Rightarrow> 'w \<Rightarrow> 'w reply" where
  "cmd_read_memory ops port buf pkt_len st w =
     or_error (token_expect_integer_arg buf pkt_len 1) (\<lambda>(addr, ptr_next).
     or_error (token_expect_seperator buf (ch CHR '','') ptr_next) (\<lambda>ptr_next.
     or_error (token_expect_integer_arg buf pkt_len ptr_next) (\<lambda>(len, ptr_next).
     or_error (mem_read (length buf) addr len True (g_mem st)) (\<lambda>data.
       answer ops port data buf st w))))"

definition cmd_write_memory ::
  "bool \<Rightarrow> 'w port_ops \<Rightarrow> u16 \<Rightarrow> u8 list \<Rightarrow> u32 \<Rightarrow> gdb_state \<Rightarrow> 'w \<Rightarrow> 'w reply"
where
  "cmd_write_memory hex ops port buf pkt_len st w =
     or_error (token_expect_integer_arg buf pkt_len 1) (\<lambda>(addr, ptr_next).
     or_error (token_expect_seperator buf (ch CHR '','') ptr_next) (\<lambda>ptr_next.
     or_error (token_expect_integer_arg buf pkt_len ptr_next) (\<lambda>(len, ptr_next).
     or_error (token_expect_seperator buf (ch CHR '':'') ptr_next) (\<lambda>ptr_next.
     or_error (mem_write buf ptr_next (token_remaining_buf pkt_len ptr_next) addr len hex (g_mem st)) (\<lambda>m.
       answer_ok ops port buf (st\<lparr>g_mem := m\<rparr>) w)))))"

text \<open>The switch over the commands that are followed by \<^verbatim>\<open>break\<close>, and the label \<^verbatim>\<open>error\<close>.\<close>

definition command :: "'w port_ops \<Rightarrow> u16 \<Rightarrow> u8 list \<Rightarrow> u32 \<Rightarrow> gdb_state \<Rightarrow> 'w \<Rightarrow> 'w reply" where
  "command ops port buf pkt_len st w = do {
     c \<leftarrow> at buf 0;
     if c = ch CHR ''g'' then cmd_read_registers ops port buf pkt_len st w
     else if c = ch CHR ''G'' then cmd_write_registers ops port buf pkt_len st w
     else if c = ch CHR ''p'' then cmd_read_register ops port buf pkt_len st w
     else if c = ch CHR ''P'' then cmd_write_register ops port buf pkt_len st w
     else if c = ch CHR ''m'' then cmd_read_memory ops port buf pkt_len st w
     else if c = ch CHR ''M'' then cmd_write_memory True ops port buf pkt_len st w
     else if c = ch CHR ''X'' then cmd_write_memory False ops port buf pkt_len st w
     else if c = ch CHR ''?'' then do { (_, buf, w) \<leftarrow> send_signal_packet ops port buf 0 w; Some (Some (buf, st, w)) }
     else do { (_, w) \<leftarrow> send_packet ops port [] w; Some (Some (buf, st, w)) } }"

definition handle_command ::
  "'w port_ops \<Rightarrow> u16 \<Rightarrow> u8 list \<Rightarrow> u32 \<Rightarrow> gdb_state \<Rightarrow> 'w \<Rightarrow> (u8 list \<times> gdb_state \<times> 'w) option"
where
  "handle_command ops port buf pkt_len st w = do {
     r \<leftarrow> command ops port buf pkt_len st w;
     case r of
       Some next \<Rightarrow> Some next
     | None \<Rightarrow> do { (_, buf, w) \<leftarrow> send_error_packet ops port buf 0 w; Some (buf, st, w) } }"

partial_function (option) handle_loop ::
  "'w port_ops \<Rightarrow> u16 \<Rightarrow> u8 list \<Rightarrow> gdb_state \<Rightarrow> 'w \<Rightarrow> (gdb_state \<times> 'w) option"
where
  "handle_loop ops port buf st w = do {
     (r, buf, w) \<leftarrow> recv_packet ops port buf w;
     case r of
       None \<Rightarrow> Some (st, w)
     | Some pkt_len \<Rightarrow>
         if pkt_len = 0 then handle_loop ops port buf st w
         else do {
           c \<leftarrow> at buf 0;
           if c = ch CHR ''c'' then Some (sys_continue st, w)
           else if c = ch CHR ''s'' then Some (sys_step st, w)
           else do {
             (buf, st, w) \<leftarrow> handle_command ops port buf (of_nat pkt_len) st w;
             handle_loop ops port buf st w } } }"

text \<open>\<open>buf\<close> is what the stack holds in the place of the packet buffer, 256 bytes.\<close>

definition handle :: "'w port_ops \<Rightarrow> u16 \<Rightarrow> u8 list \<Rightarrow> gdb_state \<Rightarrow> 'w \<Rightarrow> (gdb_state \<times> 'w) option" where
  "handle ops port buf st w = do {
     (_, buf, w) \<leftarrow> send_signal_packet ops port buf 0 w;
     handle_loop ops port buf st w }"

subsection \<open>The interrupt handler\<close>

record debug_context =
  c_ss :: u32
  c_gs :: u32
  c_fs :: u32
  c_es :: u32
  c_ds :: u32
  c_edi :: u32
  c_esi :: u32
  c_ebp :: u32
  c_esp :: u32
  c_ebx :: u32
  c_edx :: u32
  c_ecx :: u32
  c_eax :: u32
  c_vector :: u32
  c_error_code :: u32
  c_eip :: u32
  c_cs :: u32
  c_eflags :: u32

definition load_context :: "debug_context \<Rightarrow> gdb_state \<Rightarrow> gdb_state" where
  "load_context c st = st\<lparr>g_signum := c_vector c, g_registers := (g_registers st)
     [reg_no REG_EAX := c_eax c, reg_no REG_ECX := c_ecx c, reg_no REG_EDX := c_edx c,
      reg_no REG_EBX := c_ebx c, reg_no REG_ESP := c_esp c, reg_no REG_EBP := c_ebp c,
      reg_no REG_ESI := c_esi c, reg_no REG_EDI := c_edi c, reg_no REG_PC := c_eip c,
      reg_no REG_CS := c_cs c, reg_no REG_PS := c_eflags c, reg_no REG_SS := c_ss c,
      reg_no REG_DS := c_ds c, reg_no REG_ES := c_es c, reg_no REG_FS := c_fs c, reg_no REG_GS := c_gs c]\<rparr>"

definition restore_context :: "gdb_state \<Rightarrow> debug_context \<Rightarrow> debug_context" where
  "restore_context st c = (let r = (\<lambda>x. g_registers st ! reg_no x) in
     c\<lparr>c_eax := r REG_EAX, c_ecx := r REG_ECX, c_edx := r REG_EDX, c_ebx := r REG_EBX,
       c_esp := r REG_ESP, c_ebp := r REG_EBP, c_esi := r REG_ESI, c_edi := r REG_EDI,
       c_eip := r REG_PC, c_cs := r REG_CS, c_eflags := r REG_PS, c_ss := r REG_SS,
       c_ds := r REG_DS, c_es := r REG_ES, c_fs := r REG_FS, c_gs := r REG_GS\<rparr>)"

text \<open>
  The handler without an instance of the stub returns at once. The ticket lock around the body
  (theory \<open>Guard\<close>) is left out: one CPU runs the body at a time.
\<close>

definition debug_handler ::
  "'w port_ops \<Rightarrow> u16 \<Rightarrow> u8 list \<Rightarrow> debug_context \<Rightarrow> gdb_state option \<Rightarrow> 'w \<Rightarrow> (debug_context \<times> gdb_state option \<times> 'w) option"
where
  "debug_handler ops port buf context inst w =
     (case inst of
        None \<Rightarrow> Some (context, None, w)
      | Some st \<Rightarrow> do {
          (st, w) \<leftarrow> handle ops port buf (load_context context st) w;
          Some (restore_context st context, Some st, w) })"

lemma restore_load:
  assumes "length (g_registers st) = 16"
  shows "restore_context (load_context c st) c = c" "length (g_registers (load_context c st)) = 16"
  using assms by (simp_all add: restore_context_def load_context_def Let_def)

lemma restore_continue:
  assumes "length (g_registers st) = 16"
  shows "restore_context (sys_continue (load_context c st)) c = c\<lparr>c_eflags := c_eflags c AND NOT 0x100\<rparr>"
    "restore_context (sys_step (load_context c st)) c = c\<lparr>c_eflags := c_eflags c OR 0x100\<rparr>"
  using assms by (simp_all add: restore_context_def load_context_def sys_continue_def sys_step_def Let_def)

subsection \<open>Entering the handlers\<close>

record idt_entry =
  address_low :: u16
  selector :: u16
  unused :: u8
  type_bits :: u8
  mode :: bool
  storage :: bool
  privilege_level :: u8
  present :: bool
  address_high :: u16

text \<open>\<open>entries\<close> are the addresses of \<^verbatim>\<open>dbg_irq_entries\<close>.\<close>

definition install_handler :: "u32 list \<Rightarrow> int \<Rightarrow> idt_entry list \<Rightarrow> bool \<times> idt_entry list" where
  "install_handler entries vector idt =
     (if vector < 0 \<or> vector > int (length entries) - 1 then (False, idt)
      else let e = (idt ! nat vector)\<lparr>
             address_low := ucast (entries ! nat vector AND 0xffff),
             address_high := ucast (drop_bit 16 (entries ! nat vector AND 0xffff0000))\<rparr>
           in (True, idt[nat vector := e]))"

definition serial_vector :: int where "serial_vector = 36"

definition gdb_install :: "u32 list \<Rightarrow> idt_entry list \<Rightarrow> idt_entry list" where
  "gdb_install entries idt =
     snd (install_handler entries serial_vector
       (fold (\<lambda>i idt. if i \<noteq> 2 \<and> i \<noteq> 15 then snd (install_handler entries i idt) else idt) [0..16] idt))"

text \<open>
  The constructor of the stub, without the breakpoint of \<^verbatim>\<open>wait\<close>: an assertion that there is no
  other instance, the serial line, the handlers.
\<close>

definition gdb_new ::
  "'w port_ops \<Rightarrow> com_port \<Rightarrow> baud_rate \<Rightarrow> bool \<Rightarrow> u32 list \<Rightarrow> idt_entry list \<Rightarrow> 'w \<Rightarrow> (idt_entry list \<times> 'w) option"
where
  "gdb_new ops port baud has_instance entries idt w =
     (let w = serial_new ops (com_base port) baud DATA_8BIT STOP_1BIT PARITY_NONE w
      in if has_instance then None else Some (gdb_install entries idt, w))"

definition handler_address :: "idt_entry \<Rightarrow> u32" where
  "handler_address e = push_bit 16 (ucast (address_high e)) OR ucast (address_low e)"

lemma address_parts: "push_bit 16 (ucast (ucast (drop_bit 16 (a AND 0xffff0000)) :: u16)) OR ucast (ucast (a AND 0xffff) :: u16) = (a :: u32)"
proof (rule bit_word_eqI)
  fix n assume n: "n < LENGTH(32)"
  have lo: "(0xffff :: u32) = mask 16" by (simp add: mask_eq_exp_minus_1)
  have hi: "(0xffff0000 :: u32) = push_bit 16 (mask 16)" by (simp add: mask_eq_exp_minus_1 push_bit_eq_mult)
  show "bit (push_bit 16 (ucast (ucast (drop_bit 16 (a AND 0xffff0000)) :: u16)) OR ucast (ucast (a AND 0xffff) :: u16) :: u32) n = bit a n"
    unfolding lo hi using n by (cases "n < 16") (auto simp: bit_simps)
qed

lemma install_address:
  assumes "0 \<le> v" "v < int (length entries)" "length entries \<le> length idt"
  shows "fst (install_handler entries v idt)" "handler_address (snd (install_handler entries v idt) ! nat v) = entries ! nat v"
    "j \<noteq> nat v \<Longrightarrow> snd (install_handler entries v idt) ! j = idt ! j"
    "length (snd (install_handler entries v idt)) = length idt"
  using assms by (auto simp: install_handler_def Let_def handler_address_def address_parts [simplified] nat_less_iff)

end
