(* ===== verification/GdbPackets.thy ===== *)
theory GdbPackets
  imports GdbHandle
begin

section \<open>debug/gdb: packets on a line\<close>

text \<open>
  What packets look like on a serial line for which \<open>serial_ok\<close> holds: the bytes that are sent,
  and what is received from them. The properties of the stub rest on these lemmas.
\<close>

lemma sint_eq_simps [simp]: "sint (a :: u8) = sint b \<longleftrightarrow> a = b" "sint (a :: u8) = -1 \<longleftrightarrow> a = -1"
proof -
  show *: "sint (a :: u8) = sint b \<longleftrightarrow> a = b" for a b by (metis signed_word_eqI)
  have "sint (-1 :: u8) = -1" by simp
  then show "sint (a :: u8) = -1 \<longleftrightarrow> a = -1" using * [of a "-1"] by simp
qed

subsection \<open>Hexadecimal digits\<close>

definition digit_ok :: "int \<Rightarrow> bool" where
  "digit_ok n \<longleftrightarrow> get_val (get_digit n) 16 = n \<and> get_digit n \<noteq> -1 \<and> get_digit n \<noteq> ch CHR ''#'' \<and> get_digit n \<noteq> 0 \<and>
     get_digit n \<noteq> ch CHR ''x'' \<and> get_digit n \<noteq> ch CHR ''X'' \<and> get_digit n \<noteq> ch CHR ''-'' \<and> get_digit n \<noteq> ch CHR ''+''"

lemma digits_ok: "list_all digit_ok [0..15]"
  by code_simp

lemma get_digit_val:
  assumes "0 \<le> n" "n < 16"
  shows "get_val (get_digit n) 16 = n" "get_digit n \<noteq> -1" "get_digit n \<noteq> ch CHR ''#''" "get_digit n \<noteq> 0"
    "get_digit n \<noteq> ch CHR ''x''" "get_digit n \<noteq> ch CHR ''X''" "get_digit n \<noteq> ch CHR ''-''" "get_digit n \<noteq> ch CHR ''+''"
  using digits_ok assms by (auto simp: list_all_iff digit_ok_def)

lemma nibbles:
  "0 \<le> uint (drop_bit 4 b AND 0xf :: u8)" "uint (drop_bit 4 b AND 0xf :: u8) < 16"
  "0 \<le> uint (b AND 0xf :: u8)" "uint (b AND 0xf :: u8) < 16"
  "push_bit 4 (drop_bit 4 b AND 0xf :: u8) OR (b AND 0xf) = b"
proof -
  have m: "(0xf :: u8) = mask 4" by (simp add: mask_eq_exp_minus_1)
  have "uint (x AND 0xf :: u8) < 16" for x
    using take_bit_int_less_exp [of 4 "uint x"] by (simp add: m unsigned_take_bit_eq flip: take_bit_eq_mask)
  then show "uint (drop_bit 4 b AND 0xf :: u8) < 16" "uint (b AND 0xf :: u8) < 16" by auto
  show "push_bit 4 (drop_bit 4 b AND 0xf :: u8) OR (b AND 0xf) = b"
    unfolding m by (rule bit_word_eqI) (auto simp: bit_simps)
qed simp_all

lemma hex_byte_ok:
  "length (hex_byte b) = 2" "c \<in> set (hex_byte b) \<Longrightarrow> c \<noteq> -1 \<and> c \<noteq> ch CHR ''#''"
  using get_digit_val(2,3) [OF nibbles(1,2)] get_digit_val(2,3) [OF nibbles(3,4)] by (auto simp: hex_byte_def)

lemma dec_enc_hex: "dec_loop_hex (length data) (concat (map hex_byte data) @ rest) = Some data"
proof (induction data)
  case (Cons b data)
  define hi lo where "hi = uint (drop_bit 4 b AND 0xf)" and "lo = uint (b AND 0xf)"
  note n = nibbles [of b, folded hi_def lo_def]
  have w: "word_of_int hi = drop_bit 4 b AND 0xf" "word_of_int lo = b AND 0xf" by (simp_all add: hi_def lo_def)
  have "hex_byte b = [get_digit hi, get_digit lo]" by (simp add: hex_byte_def hi_def lo_def)
  moreover have "hi \<noteq> -1" "lo \<noteq> -1" using n by auto
  ultimately show ?case
    using Cons n(5) by (simp add: get_digit_val(1) [OF n(1,2)] get_digit_val(1) [OF n(3,4)] Let_def w)
qed simp

subsection \<open>Sending\<close>

definition frame :: "u8 list \<Rightarrow> u8 list" where
  "frame data = ch CHR ''$'' # data @ ch CHR ''#'' # hex_byte (checksum data)"

lemma write_string_ok:
  assumes "serial_ok ops port inp outp" "-1 \<notin> set cs"
  shows "\<exists>w'. write_string ops port cs w = Some (True, w') \<and> inp w' = inp w \<and> outp w' = outp w @ cs"
  using assms(2)
proof (induction cs arbitrary: w)
  case (Cons c cs)
  obtain w1 where w1: "serial_write ops port c True w = Some (sint c, w1)" "inp w1 = inp w" "outp w1 = outp w @ [c]"
    using serial_write_ok [OF assms(1)] by blast
  obtain w2 where "write_string ops port cs w1 = Some (True, w2)" "inp w2 = inp w1" "outp w2 = outp w1 @ cs"
    using Cons by auto
  with w1 Cons.prems show ?case by auto
qed simp

lemma ch_not_minus_one: "ch CHR ''$'' \<noteq> -1" "ch CHR ''#'' \<noteq> -1"
  by code_simp+

lemma recv_ack_ok:
  assumes "serial_ok ops port inp outp" "inp w = a # rest"
  shows "\<exists>w'. recv_ack ops port w = Some (if a = ch CHR ''+'' then 0 else if a = ch CHR ''-'' then 1 else -1, w') \<and>
    inp w' = rest \<and> outp w' = outp w"
proof -
  obtain w1 where "serial_read ops port True w = Some (sint a, w1)" "inp w1 = rest" "outp w1 = outp w"
    using serial_read_ok [OF assms] by blast
  then show ?thesis by (auto simp: recv_ack_def)
qed

lemma send_packet_ok:
  assumes "serial_ok ops port inp outp" "-1 \<notin> set data" "inp w = a # rest"
  shows "\<exists>w'. send_packet ops port data w = Some (if a = ch CHR ''+'' then 0 else if a = ch CHR ''-'' then 1 else -1, w') \<and>
    inp w' = rest \<and> outp w' = outp w @ frame data"
proof -
  obtain w1 where w1: "serial_write ops port (ch CHR ''$'') True w = Some (sint (ch CHR ''$''), w1)"
    "inp w1 = inp w" "outp w1 = outp w @ [ch CHR ''$'']"
    using serial_write_ok [OF assms(1)] by blast
  obtain w2 where w2: "write_string ops port data w1 = Some (True, w2)" "inp w2 = inp w1" "outp w2 = outp w1 @ data"
    using write_string_ok [OF assms(1,2)] by blast
  have "-1 \<notin> set (ch CHR ''#'' # hex_byte (checksum data))" using hex_byte_ok(2) ch_not_minus_one by auto
  then obtain w3 where w3: "write_string ops port (ch CHR ''#'' # hex_byte (checksum data)) w2 = Some (True, w3)"
    "inp w3 = inp w2" "outp w3 = outp w2 @ ch CHR ''#'' # hex_byte (checksum data)"
    using write_string_ok [OF assms(1)] by blast
  have "inp w3 = a # rest" using assms(3) w1 w2 w3 by simp
  from recv_ack_ok [OF assms(1) this] obtain w4 where
    "recv_ack ops port w3 = Some (if a = ch CHR ''+'' then 0 else if a = ch CHR ''-'' then 1 else -1, w4)"
    "inp w4 = rest" "outp w4 = outp w3" by blast
  then show ?thesis using w1 w2 w3 ch_not_minus_one by (simp add: send_packet_def frame_def del: write_string.simps)
qed

subsection \<open>Receiving\<close>

lemma wait_start_ok:
  assumes "serial_ok ops port inp outp" "inp w = junk @ ch CHR ''$'' # rest" "ch CHR ''$'' \<notin> set junk"
  shows "\<exists>w'. wait_start ops port w = Some w' \<and> inp w' = rest \<and> outp w' = outp w"
  using assms(2,3)
proof (induction junk arbitrary: w)
  case Nil
  then obtain w1 where "serial_read ops port True w = Some (sint (ch CHR ''$''), w1)" "inp w1 = rest" "outp w1 = outp w"
    using serial_read_ok [OF assms(1), of w "ch CHR ''$''" rest] by auto
  then show ?case by (subst wait_start.simps) simp
next
  case (Cons c junk)
  obtain w1 where "serial_read ops port True w = Some (sint c, w1)" "inp w1 = junk @ ch CHR ''$'' # rest" "outp w1 = outp w"
    using serial_read_ok [OF assms(1), of w c "junk @ ch CHR ''$'' # rest"] Cons.prems by auto
  moreover from Cons.IH [OF this(2)] Cons.prems obtain w2 where "wait_start ops port w1 = Some w2" "inp w2 = rest" "outp w2 = outp w1"
    by auto
  ultimately show ?case using Cons.prems by (subst wait_start.simps) auto
qed

lemma recv_loop_ok:
  assumes "serial_ok ops port inp outp" "inp w = data @ ch CHR ''#'' # rest" "-1 \<notin> set data" "ch CHR ''#'' \<notin> set data"
    "n + length data \<le> length buf"
  shows "\<exists>w'. recv_loop ops port buf n w = Some (Some (n + length data), take n buf @ data @ drop (n + length data) buf, w') \<and>
    inp w' = rest \<and> outp w' = outp w"
  using assms(2-)
proof (induction data arbitrary: w n buf)
  case Nil
  then obtain w1 where "serial_read ops port True w = Some (sint (ch CHR ''#''), w1)" "inp w1 = rest" "outp w1 = outp w"
    using serial_read_ok [OF assms(1), of w "ch CHR ''#''" rest] by auto
  then show ?case using ch_not_minus_one by (subst recv_loop.simps) simp
next
  case (Cons c data)
  obtain w1 where w1: "serial_read ops port True w = Some (sint c, w1)" "inp w1 = data @ ch CHR ''#'' # rest" "outp w1 = outp w"
    using serial_read_ok [OF assms(1), of w c "data @ ch CHR ''#'' # rest"] Cons.prems by auto
  let ?buf = "buf[n := c]"
  obtain w2 where w2: "recv_loop ops port ?buf (n + 1) w1 =
      Some (Some (n + 1 + length data), take (n + 1) ?buf @ data @ drop (n + 1 + length data) ?buf, w2)"
      "inp w2 = rest" "outp w2 = outp w1"
    using Cons.IH [OF w1(2), of "n + 1" ?buf] Cons.prems by auto
  have "take (n + 1) ?buf = take n buf @ [c]" using Cons.prems(4) by (simp add: take_Suc_conv_app_nth)
  moreover have "word_of_int (sint c) = c" by simp
  ultimately show ?case using w1 w2 Cons.prems by (subst recv_loop.simps) (auto simp: add_ac)
qed

lemma read_string_ok:
  assumes "serial_ok ops port inp outp" "inp w = cs @ rest" "-1 \<notin> set cs"
  shows "\<exists>w'. read_string ops port (length cs) w = Some (Some cs, w') \<and> inp w' = rest \<and> outp w' = outp w"
  using assms(2,3)
proof (induction cs arbitrary: w)
  case (Cons c cs)
  obtain w1 where w1: "serial_read ops port True w = Some (sint c, w1)" "inp w1 = cs @ rest" "outp w1 = outp w"
    using serial_read_ok [OF assms(1), of w c "cs @ rest"] Cons.prems by auto
  moreover obtain w2 where "read_string ops port (length cs) w1 = Some (Some cs, w2)" "inp w2 = rest" "outp w2 = outp w1"
    using Cons.IH [OF w1(2)] Cons.prems by auto
  moreover have "word_of_int (sint c) = c" by simp
  ultimately show ?case using Cons.prems by auto
qed simp

text \<open>A packet as it comes in: bytes before it, its data and two digits of a checksum \<open>cs\<close>.\<close>

lemma recv_packet_cases:
  assumes "serial_ok ops port inp outp"
    "inp w = junk @ ch CHR ''$'' # data @ ch CHR ''#'' # hex_byte cs @ rest"
    "ch CHR ''$'' \<notin> set junk" "-1 \<notin> set data" "ch CHR ''#'' \<notin> set data" "length data \<le> length buf"
  shows "\<exists>w'. recv_packet ops port buf w =
      Some (if checksum data = cs then Some (length data) else None, overwrite data buf, w') \<and>
    inp w' = rest \<and> outp w' = outp w @ [if checksum data = cs then ch CHR ''+'' else ch CHR ''-'']"
proof -
  obtain w1 where w1: "wait_start ops port w = Some w1" "inp w1 = data @ ch CHR ''#'' # hex_byte cs @ rest" "outp w1 = outp w"
    using wait_start_ok [OF assms(1-3)] by auto
  obtain w2 where w2: "recv_loop ops port buf 0 w1 = Some (Some (length data), overwrite data buf, w2)"
    "inp w2 = hex_byte cs @ rest" "outp w2 = outp w1"
    using recv_loop_ok [OF assms(1) w1(2) assms(4,5), of 0 buf] assms(6) by (auto simp: overwrite_def)
  have "-1 \<notin> set (hex_byte cs)" using hex_byte_ok(2) by blast
  from read_string_ok [OF assms(1) w2(2) this] obtain w3 where
    w3: "read_string ops port 2 w2 = Some (Some (hex_byte cs), w3)" "inp w3 = rest" "outp w3 = outp w2"
    by (auto simp: hex_byte_ok(1))
  have dec: "dec_hex (hex_byte cs) 2 1 = Some (Some [cs])"
    using dec_enc_hex [of "[cs]" "[]"] by (simp add: dec_hex_def)
  have pre: "take (length data) (overwrite data buf) = data" by (simp add: overwrite_def)
  obtain w4 where w4: "serial_write ops port (if checksum data = cs then ch CHR ''+'' else ch CHR ''-'') True w3 =
      Some (sint (if checksum data = cs then ch CHR ''+'' else ch CHR ''-''), w4)" "inp w4 = inp w3"
    "outp w4 = outp w3 @ [if checksum data = cs then ch CHR ''+'' else ch CHR ''-'']"
    using serial_write_ok [OF assms(1)] by blast
  show ?thesis using w1 w2 w3 w4
    by (cases "checksum data = cs") (simp_all add: recv_packet_def dec pre)
qed

subsection \<open>Numbers\<close>

text \<open>The number that a list of hexadecimal digits stands for, in 32 bits.\<close>

definition hexval :: "int list \<Rightarrow> u32" where "hexval ns = foldl (\<lambda>v n. v * 16 + word_of_int n) 0 ns"

definition nibbles_ok :: "int list \<Rightarrow> bool" where "nibbles_ok ns \<longleftrightarrow> (\<forall>n \<in> set ns. 0 \<le> n \<and> n < 16)"

definition ends :: "nat \<Rightarrow> u8 list \<Rightarrow> bool" where
  "ends k post \<longleftrightarrow> k = 0 \<or> (\<exists>c rest. post = c # rest \<and> get_val c 16 = -1 \<and> c \<noteq> ch CHR ''x'' \<and> c \<noteq> ch CHR ''X'')"

lemma at_append: "length pre < 2 ^ 32 \<Longrightarrow> at (pre @ c # post) (of_nat (length pre)) = Some c"
  by (simp add: at_def unat_of_nat_small)

lemma gdb_strtol_loop_ok:
  assumes "buf = pre @ map get_digit ns @ post" "length buf < 2 ^ 32" "length pre = s + p" "L < 2 ^ 32"
    "p + length ns + k = L" "ends k post" "nibbles_ok ns"
  shows "gdb_strtol_loop buf (of_nat s) (of_nat L) 16 (of_nat p) v valid =
    Some (of_nat (p + length ns), foldl (\<lambda>v n. v * 16 + word_of_int n) v ns, valid \<or> ns \<noteq> [])"
  using assms
proof (induction ns arbitrary: pre p v valid)
  case Nil
  show ?case
  proof (cases "k = 0")
    case True
    then show ?thesis using Nil by (subst gdb_strtol_loop.simps) simp
  next
    case False
    then obtain c rest where c: "post = c # rest" "get_val c 16 = -1" using Nil by (auto simp: ends_def)
    have "at buf (of_nat s + of_nat p) = Some c" using at_append [of pre c rest] Nil c by simp
    moreover have "\<not> (of_nat p :: u32) < of_nat L \<longleftrightarrow> L \<le> p" using Nil False
      by (subst of_nat_less_word) auto
    ultimately show ?thesis using c False Nil by (subst gdb_strtol_loop.simps) (auto simp: Let_def)
  qed
next
  case (Cons n ns)
  have n: "0 \<le> n" "n < 16" "nibbles_ok ns" using Cons.prems(7) by (auto simp: nibbles_ok_def)
  have buf: "buf = (pre @ [get_digit n]) @ map get_digit ns @ post" using Cons.prems(1) by simp
  have "at buf (of_nat s + of_nat p) = Some (get_digit n)"
    using at_append [of pre "get_digit n" "map get_digit ns @ post"] Cons.prems by simp
  moreover have "(of_nat p :: u32) < of_nat L" using Cons.prems by (subst of_nat_less_word) auto
  moreover have "gdb_strtol_loop buf (of_nat s) (of_nat L) 16 (of_nat (Suc p)) (v * 16 + word_of_int n) True =
      Some (of_nat (Suc p + length ns), foldl (\<lambda>v n. v * 16 + word_of_int n) (v * 16 + word_of_int n) ns, True \<or> ns \<noteq> [])"
    using Cons.IH [OF buf Cons.prems(2) _ Cons.prems(4), of "Suc p"] Cons.prems n by simp
  ultimately show ?case using n(1,2)
    by (subst gdb_strtol_loop.simps) (simp add: get_digit_val Let_def ac_simps)
qed

lemma gdb_strtol_ok:
  assumes "buf = pre @ map get_digit ns @ post" "length buf < 2 ^ 32" "length ns + k = L" "length pre + L \<le> length buf"
    "ends k post" "nibbles_ok ns" "ns \<noteq> []"
  shows "gdb_strtol buf (of_nat (length pre)) (of_nat L) 16 = Some (hexval ns, Some (of_nat (length pre + length ns)))"
proof -
  obtain n ns' where ns: "ns = n # ns'" using assms(7) by (cases ns) auto
  have n: "0 \<le> n" "n < 16" using assms(6) ns by (simp_all add: nibbles_ok_def)
  have L: "L < 2 ^ 32" using assms by simp
  have c0: "at buf (of_nat (length pre)) = Some (get_digit n)"
    using at_append [of pre "get_digit n"] assms(1,2) ns by simp
  have c1: "\<exists>c. at buf (of_nat (length pre) + 1) = Some c \<and> c \<noteq> ch CHR ''x'' \<and> c \<noteq> ch CHR ''X''" if "2 < L"
  proof -
    have at: "at buf (of_nat (length pre) + 1) = Some c" if "buf = (pre @ [d]) @ c # rest" for c d rest
      using at_append [of "pre @ [d]" c rest] that assms(2) by (simp add: add.commute)
    show ?thesis
    proof (cases ns')
      case Nil
      then have "k \<noteq> 0" using assms(3) ns that by simp
      then obtain c rest where "post = c # rest" "c \<noteq> ch CHR ''x''" "c \<noteq> ch CHR ''X''" using assms(5) by (auto simp: ends_def)
      then show ?thesis using at [of "get_digit n" c rest] assms(1) ns Nil by auto
    next
      case (Cons n' ns'')
      then have "0 \<le> n'" "n' < 16" using assms(6) ns by (simp_all add: nibbles_ok_def)
      then show ?thesis using at [of "get_digit n" "get_digit n'"] assms(1) ns Cons get_digit_val(5,6) by auto
    qed
  qed
  have "\<not> (of_nat L :: u32) < 1" using assms(3) ns L by (simp add: word_less_nat_alt unat_of_nat_small)
  moreover have "(2 :: u32) < of_nat L \<longleftrightarrow> 2 < L" using L of_nat_less_word [of 2 L, where ?'a = 32] by simp
  moreover have "gdb_strtol_loop buf (of_nat (length pre)) (of_nat L) 16 0 0 False = Some (of_nat (length ns), hexval ns, True)"
    using gdb_strtol_loop_ok [OF assms(1,2) _ L _ assms(5,6), of "length pre" 0 0 False] assms(3,7)
    by (simp add: hexval_def)
  ultimately show ?thesis using c0 c1 n
    by (cases "2 < L") (auto simp: gdb_strtol_def get_digit_val Let_def)
qed

end
