(* ===== verification/GdbProps.thy ===== *)
theory GdbProps
  imports GdbPackets
begin

section \<open>debug/gdb: properties of the stub\<close>

text \<open>
  The commands that write and read memory, on the level of the bytes of the line, and what the stub
  does with packets that are damaged.
\<close>

lemma token_integer_ok:
  assumes "buf = pre @ map get_digit ns @ post" "length buf < 2 ^ 32" "length pre + length ns + k = N" "N \<le> length buf"
    "ends k post" "nibbles_ok ns" "ns \<noteq> []" "p = length pre"
  shows "token_expect_integer_arg buf (of_nat N) (of_nat p) = Some (Some (hexval ns, of_nat (p + length ns)))"
proof -
  have "(of_nat N :: u32) - of_nat (length pre) = of_nat (length ns + k)" using assms(3) by auto
  then show ?thesis
    using gdb_strtol_ok [OF assms(1,2) refl, of k] assms(3-8)
    by (simp add: token_expect_integer_arg_def token_remaining_buf_def add.assoc)
qed

lemma token_seperator_ok:
  assumes "buf = pre @ c # post" "length buf < 2 ^ 32" "p = length pre"
  shows "token_expect_seperator buf c (of_nat p) = Some (Some (of_nat (p + 1)))"
  using at_append [of pre c post] assms by (simp add: token_expect_seperator_def add.commute)

lemma ends_seperator: "ends k (ch CHR '','' # post)" "ends k (ch CHR '':'' # post)"
proof -
  have "get_val (ch CHR '','') 16 = -1 \<and> ch CHR '','' \<noteq> ch CHR ''x'' \<and> ch CHR '','' \<noteq> ch CHR ''X''" by code_simp
  moreover have "get_val (ch CHR '':'') 16 = -1 \<and> ch CHR '':'' \<noteq> ch CHR ''x'' \<and> ch CHR '':'' \<noteq> ch CHR ''X''" by code_simp
  ultimately show "ends k (ch CHR '','' # post)" "ends k (ch CHR '':'' # post)" by (auto simp: ends_def)
qed

text \<open>The bytes of the memory commands.\<close>

definition read_cmd :: "int list \<Rightarrow> int list \<Rightarrow> u8 list" where
  "read_cmd as ls = ch CHR ''m'' # map get_digit as @ ch CHR '','' # map get_digit ls"

definition write_cmd :: "int list \<Rightarrow> int list \<Rightarrow> u8 list \<Rightarrow> u8 list" where
  "write_cmd as ls bytes = ch CHR ''M'' # map get_digit as @ ch CHR '','' # map get_digit ls @ ch CHR '':'' #
     concat (map hex_byte bytes)"

definition mem_bytes :: "mem \<Rightarrow> u32 \<Rightarrow> nat \<Rightarrow> u8 list" where
  "mem_bytes m a n = map (\<lambda>i. m (a + of_nat i)) [0..<n]"

lemma length_hex: "length (concat (map hex_byte bs)) = 2 * length bs"
  by (induction bs) (simp_all add: hex_byte_ok)

lemma parse_address:
  assumes "buf = c # map get_digit as @ d # rest" "length buf < 2 ^ 32" "1 + length as + k = N" "N \<le> length buf"
    "ends k (d # rest)" "nibbles_ok as" "as \<noteq> []"
  shows "token_expect_integer_arg buf (of_nat N) 1 = Some (Some (hexval as, of_nat (1 + length as)))"
    "token_expect_seperator buf d (of_nat (1 + length as)) = Some (Some (of_nat (2 + length as)))"
  using token_integer_ok [of buf "[c]" as "d # rest" k N 1] token_seperator_ok [of buf "c # map get_digit as" d rest "1 + length as"]
    assms by simp_all

lemma parse_length:
  assumes "buf = c # map get_digit as @ d # map get_digit ls @ post" "length buf < 2 ^ 32"
    "2 + length as + length ls + k = N" "N \<le> length buf" "ends k post" "nibbles_ok ls" "ls \<noteq> []"
  shows "token_expect_integer_arg buf (of_nat N) (of_nat (2 + length as)) =
    Some (Some (hexval ls, of_nat (2 + length as + length ls)))"
  by (rule token_integer_ok [of buf "c # map get_digit as @ [d]" ls post k]) (use assms in simp_all)

lemma cmd_read_memory_ok:
  assumes "buf = overwrite (read_cmd as ls) buf0" "length (read_cmd as ls) \<le> 256" "length buf0 = 256"
    "nibbles_ok as" "as \<noteq> []" "nibbles_ok ls" "ls \<noteq> []" "unat (hexval ls) \<le> 64"
  shows "cmd_read_memory ops port buf (of_nat (length (read_cmd as ls))) st w =
    answer ops port (concat (map hex_byte (mem_bytes (g_mem st) (hexval as) (unat (hexval ls))))) buf st w"
proof -
  let ?N = "length (read_cmd as ls)"
  let ?post = "drop ?N buf0"
  have buf: "buf = ch CHR ''m'' # map get_digit as @ ch CHR '','' # map get_digit ls @ ?post"
    using assms(1) by (simp add: overwrite_def read_cmd_def)
  have len: "length buf = 256" using assms(1-3) by (simp add: overwrite_def)
  have N: "?N = 2 + length as + length ls" by (simp add: read_cmd_def)
  note a = parse_address [OF buf, of "1 + length ls" ?N, OF _ _ _ ends_seperator(1) assms(4,5)]
  note l = parse_length [OF buf, of 0 ?N, OF _ _ _ _ assms(6,7)]
  have m: "mem_read (length buf) (hexval as) (hexval ls) True (g_mem st) =
      Some (Some (concat (map hex_byte (mem_bytes (g_mem st) (hexval as) (unat (hexval ls))))))"
    using assms(8) len by (simp add: mem_read_def DATA_SIZE_def enc_hex_def mem_bytes_def Let_def)
  show ?thesis using a l assms(2) len m N by (simp add: cmd_read_memory_def ends_def del: of_nat_add)
qed

lemma dec_hex_ok:
  assumes "buf = pre @ concat (map hex_byte bytes) @ post" "length bytes < 2 ^ 31" "p = length pre" "length pre < 2 ^ 32"
  shows "dec_hex (drop (unat (of_nat p :: u32)) buf) (of_nat (2 * length bytes)) (of_nat (length bytes)) = Some (Some bytes)"
proof -
  have "unat (of_nat p :: u32) = length pre" "unat (of_nat (length bytes) :: u32) = length bytes"
    using assms by (simp_all add: unat_of_nat_small)
  then show ?thesis using assms(1) dec_enc_hex [of bytes post] by (simp add: dec_hex_def mult.commute)
qed

lemma cmd_write_memory_ok:
  assumes "buf = overwrite (write_cmd as ls bytes) buf0" "length (write_cmd as ls bytes) \<le> 256" "length buf0 = 256"
    "nibbles_ok as" "as \<noteq> []" "nibbles_ok ls" "ls \<noteq> []" "unat (hexval ls) = length bytes" "length bytes \<le> 64"
  shows "cmd_write_memory True ops port buf (of_nat (length (write_cmd as ls bytes))) st w =
    answer_ok ops port buf (st\<lparr>g_mem := write_bytes (hexval as) bytes (g_mem st)\<rparr>) w"
proof -
  let ?N = "length (write_cmd as ls bytes)" and ?h = "concat (map hex_byte bytes)"
  let ?post = "drop ?N buf0"
  have buf: "buf = ch CHR ''M'' # map get_digit as @ ch CHR '','' # map get_digit ls @ ch CHR '':'' # ?h @ ?post"
    using assms(1) by (simp add: overwrite_def write_cmd_def)
  have len: "length buf = 256" using assms(1-3) by (simp add: overwrite_def)
  have N: "?N = 3 + length as + length ls + 2 * length bytes" by (simp add: write_cmd_def length_hex)
  let ?q = "2 + length as + length ls"
  note a = parse_address [OF buf, of "2 + length ls + 2 * length bytes" ?N, OF _ _ _ ends_seperator(1) assms(4,5)]
  note l = parse_length [OF buf, of "1 + 2 * length bytes" ?N, OF _ _ _ ends_seperator(2) assms(6,7)]
  have s: "token_expect_seperator buf (ch CHR '':'') (of_nat ?q) = Some (Some (of_nat (?q + 1)))"
    by (rule token_seperator_ok [of buf "ch CHR ''M'' # map get_digit as @ ch CHR '','' # map get_digit ls"])
      (use buf len in simp_all)
  have "dec_hex (drop (unat (of_nat (?q + 1) :: u32)) buf) (of_nat (2 * length bytes)) (of_nat (length bytes)) = Some (Some bytes)"
    by (rule dec_hex_ok [of buf "ch CHR ''M'' # map get_digit as @ ch CHR '','' # map get_digit ls @ [ch CHR '':'']" bytes ?post])
      (use buf len N assms(2,9) in simp_all)
  moreover have "token_remaining_buf (of_nat ?N) (of_nat (?q + 1)) = of_nat (2 * length bytes)"
    using N by (simp add: token_remaining_buf_def)
  moreover have "hexval ls = of_nat (length bytes)" by (simp flip: assms(8))
  ultimately have w: "mem_write buf (of_nat (?q + 1)) (token_remaining_buf (of_nat ?N) (of_nat (?q + 1))) (hexval as) (hexval ls)
      True (g_mem st) = Some (Some (write_bytes (hexval as) bytes (g_mem st)))"
    using assms(8,9) by (simp add: mem_write_def DATA_SIZE_def Let_def del: of_nat_add)
  show ?thesis using a l s w assms(2) len N by (simp add: cmd_write_memory_def del: of_nat_add of_nat_Suc)
qed

subsection \<open>The loop\<close>

definition sendable :: "u8 list \<Rightarrow> bool" where "sendable data \<longleftrightarrow> -1 \<notin> set data \<and> ch CHR ''#'' \<notin> set data"

lemma sendable_simps [simp]:
  "sendable []" "sendable (a # xs) \<longleftrightarrow> a \<noteq> -1 \<and> a \<noteq> ch CHR ''#'' \<and> sendable xs" "sendable (xs @ ys) \<longleftrightarrow> sendable xs \<and> sendable ys"
  by (auto simp: sendable_def)

lemma sendable_hex: "sendable (concat (map hex_byte bs))"
  using hex_byte_ok(2) by (auto simp: sendable_def)

lemma sendable_digits: "nibbles_ok ns \<Longrightarrow> sendable (map get_digit ns)"
  unfolding sendable_def nibbles_ok_def using get_digit_val(2,3) by (metis (no_types, lifting) imageE list.set_map)

lemma seperators_sendable:
  "ch CHR ''m'' \<noteq> -1 \<and> ch CHR ''m'' \<noteq> ch CHR ''#''" "ch CHR ''M'' \<noteq> -1 \<and> ch CHR ''M'' \<noteq> ch CHR ''#''"
  "ch CHR '','' \<noteq> -1 \<and> ch CHR '','' \<noteq> ch CHR ''#''" "ch CHR '':'' \<noteq> -1 \<and> ch CHR '':'' \<noteq> ch CHR ''#''"
  "ch CHR ''c'' \<noteq> -1 \<and> ch CHR ''c'' \<noteq> ch CHR ''#''"
  by code_simp+

lemma sendable_cmds: "nibbles_ok as \<Longrightarrow> nibbles_ok ls \<Longrightarrow> sendable (read_cmd as ls)"
  "nibbles_ok as \<Longrightarrow> nibbles_ok ls \<Longrightarrow> sendable (write_cmd as ls bytes)"
  by (simp_all add: read_cmd_def write_cmd_def sendable_hex sendable_digits seperators_sendable)

lemma recv_frame:
  assumes "serial_ok ops port inp outp" "inp w = frame data @ rest" "sendable data" "length data \<le> length buf"
  shows "\<exists>w'. recv_packet ops port buf w = Some (Some (length data), overwrite data buf, w') \<and> inp w' = rest \<and>
    outp w' = outp w @ [ch CHR ''+'']"
  using recv_packet_cases [OF assms(1), of w "[]" data "checksum data" rest buf] assms(2-4)
  by (simp add: frame_def sendable_def)

lemma handle_loop_step:
  assumes "serial_ok ops port inp outp" "inp w = frame (c # cs) @ rest" "sendable (c # cs)" "length (c # cs) \<le> length buf"
    "c \<noteq> ch CHR ''c''" "c \<noteq> ch CHR ''s''"
  obtains w1 where "inp w1 = rest" "outp w1 = outp w @ [ch CHR ''+'']"
    "handle_loop ops port buf st w = Option.bind (handle_command ops port (overwrite (c # cs) buf) (of_nat (length (c # cs))) st w1)
       (\<lambda>(buf, st, w). handle_loop ops port buf st w)"
proof -
  obtain w1 where w1: "recv_packet ops port buf w = Some (Some (length (c # cs)), overwrite (c # cs) buf, w1)" "inp w1 = rest"
    "outp w1 = outp w @ [ch CHR ''+'']" using recv_frame [OF assms(1-4)] by blast
  moreover have "at (overwrite (c # cs) buf) 0 = Some c" by (simp add: at_def overwrite_def)
  ultimately have "handle_loop ops port buf st w = Option.bind (handle_command ops port (overwrite (c # cs) buf)
      (of_nat (length (c # cs))) st w1) (\<lambda>(buf, st, w). handle_loop ops port buf st w)"
    using assms(5,6) by (subst handle_loop.simps) simp
  with w1(2,3) that show ?thesis by blast
qed

lemma handle_loop_continue:
  assumes "serial_ok ops port inp outp" "inp w = frame [ch CHR ''c''] @ rest" "buf \<noteq> []"
  shows "\<exists>w1. handle_loop ops port buf st w = Some (sys_continue st, w1) \<and> inp w1 = rest \<and> outp w1 = outp w @ [ch CHR ''+'']"
proof -
  have "1 \<le> length buf" using assms(3) by (cases buf) simp_all
  then obtain w1 where "recv_packet ops port buf w = Some (Some 1, overwrite [ch CHR ''c''] buf, w1)" "inp w1 = rest"
    "outp w1 = outp w @ [ch CHR ''+'']"
    using recv_frame [OF assms(1,2), of buf] seperators_sendable(5) by auto
  moreover have "at (overwrite [ch CHR ''c''] buf) 0 = Some (ch CHR ''c'')" by (simp add: at_def overwrite_def)
  ultimately show ?thesis by (subst handle_loop.simps) simp
qed

lemma answer_ok_sends:
  assumes "serial_ok ops port inp outp" "inp w = a # rest"
  shows "\<exists>w1. answer_ok ops port buf st w = Some (Some (buf, st, w1)) \<and> inp w1 = rest \<and>
    outp w1 = outp w @ frame [ch CHR ''O'', ch CHR ''K'']"
proof -
  have "-1 \<notin> set [ch CHR ''O'', ch CHR ''K'']" by code_simp
  from send_packet_ok [OF assms(1) this assms(2)] show ?thesis by (auto simp: answer_ok_def send_ok_packet_def)
qed

lemma answer_sends:
  assumes "serial_ok ops port inp outp" "inp w = a # rest" "-1 \<notin> set data"
  shows "\<exists>w1. answer ops port data buf st w = Some (Some (overwrite data buf, st, w1)) \<and> inp w1 = rest \<and> outp w1 = outp w @ frame data"
  using send_packet_ok [OF assms(1,3,2)] by (auto simp: answer_def)

definition letter_packet :: "char \<Rightarrow> u8 list" where "letter_packet l = [ch l, ch CHR ''0'', ch CHR ''0'']"

lemma send_letter_ok:
  assumes "serial_ok ops port inp outp" "inp w = a # rest" "length buf = 256" "l = CHR ''S'' \<or> l = CHR ''E''"
  shows "\<exists>r w1. send_letter_packet ops port (ch l) buf 0 w = Some (r, overwrite (letter_packet l) buf, w1) \<and> inp w1 = rest \<and>
    outp w1 = outp w @ frame (letter_packet l)"
proof -
  have hex: "hex_byte 0 = [ch CHR ''0'', ch CHR ''0'']" by code_simp
  have "-1 \<notin> set (letter_packet CHR ''S'')" "-1 \<notin> set (letter_packet CHR ''E'')" by code_simp+
  then have "-1 \<notin> set (letter_packet l)" using assms(4) by auto
  moreover have "take 3 (overwrite (letter_packet l) buf) = letter_packet l" by (simp add: overwrite_def letter_packet_def)
  ultimately show ?thesis using send_packet_ok [OF assms(1) _ assms(2), of "letter_packet l"] assms(3)
    by (fastforce simp: send_letter_packet_def enc_hex_def hex letter_packet_def numeral_3_eq_3)
qed

subsection \<open>Writing and reading memory\<close>

lemma mem_write_bytes:
  assumes "length bytes + k \<le> 2 ^ 32"
  shows "j < k \<Longrightarrow> write_bytes (a + of_nat k) bytes m (a + of_nat j) = m (a + of_nat j)"
  using assms
proof (induction bytes arbitrary: k m)
  case (Cons b bytes)
  have "write_bytes (a + of_nat (Suc k)) bytes (m(a + of_nat k := b)) (a + of_nat j) = (m(a + of_nat k := b)) (a + of_nat j)"
    using Cons.IH [of "Suc k"] Cons.prems by simp
  moreover have "(of_nat j :: u32) \<noteq> of_nat k" using Cons.prems by (subst of_nat_eq_word) auto
  ultimately show ?case by (simp add: algebra_simps)
qed simp

lemma read_written:
  assumes "length bytes < 2 ^ 32"
  shows "mem_bytes (write_bytes a bytes m) a (length bytes) = bytes"
proof -
  have "write_bytes (a + of_nat k) bytes m (a + of_nat (k + i)) = bytes ! i" if "i < length bytes" "k + length bytes < 2 ^ 32" for k i m bytes
    using that
  proof (induction bytes arbitrary: i k m)
    case (Cons b bytes)
    show ?case
    proof (cases i)
      case 0
      have "write_bytes (a + of_nat (Suc k)) bytes (m(a + of_nat k := b)) (a + of_nat k) = b"
        using Cons.prems by (subst mem_write_bytes) simp_all
      with 0 show ?thesis by (simp add: algebra_simps)
    next
      case (Suc i')
      then show ?thesis using Cons.IH [of i' "Suc k" "m(a + of_nat k := b)"] Cons.prems by (simp add: algebra_simps fun_upd_def)
    qed
  qed simp
  from this [of _ bytes 0] assms show ?thesis by (intro nth_equalityI) (simp_all add: mem_bytes_def)
qed

lemma bind_of_handle: "command ops port buf n st w = Some (Some r) \<Longrightarrow> handle_command ops port buf n st w = Some r"
  by (simp add: handle_command_def)

text \<open>One round of the loop for each of the two commands.\<close>

lemma write_round:
  assumes ok: "serial_ok ops port inp outp" and i: "inp w = frame (write_cmd as ls bytes) @ a # rest" and b: "length buf = 256"
    and c: "length (write_cmd as ls bytes) \<le> 256" "nibbles_ok as" "as \<noteq> []" "nibbles_ok ls" "ls \<noteq> []"
      "unat (hexval ls) = length bytes" "length bytes \<le> 64"
  shows "\<exists>w' buf'. handle_loop ops port buf st w =
      handle_loop ops port buf' (st\<lparr>g_mem := write_bytes (hexval as) bytes (g_mem st)\<rparr>) w' \<and> length buf' = 256 \<and>
    inp w' = rest \<and> outp w' = outp w @ ch CHR ''+'' # frame [ch CHR ''O'', ch CHR ''K'']"
proof -
  let ?d = "write_cmd as ls bytes"
  let ?buf = "overwrite ?d buf" and ?st = "st\<lparr>g_mem := write_bytes (hexval as) bytes (g_mem st)\<rparr>"
  have d: "?d = ch CHR ''M'' # tl ?d" by (simp add: write_cmd_def)
  have ne: "ch CHR ''M'' \<noteq> ch CHR ''c''" "ch CHR ''M'' \<noteq> ch CHR ''s''" "ch CHR ''M'' \<noteq> ch CHR ''g''" "ch CHR ''M'' \<noteq> ch CHR ''G''"
    "ch CHR ''M'' \<noteq> ch CHR ''p''" "ch CHR ''M'' \<noteq> ch CHR ''P''" "ch CHR ''M'' \<noteq> ch CHR ''m''" by code_simp+
  obtain w1 where w1: "inp w1 = a # rest" "outp w1 = outp w @ [ch CHR ''+'']" "handle_loop ops port buf st w =
      Option.bind (handle_command ops port ?buf (of_nat (length ?d)) st w1) (\<lambda>(buf, st, w). handle_loop ops port buf st w)"
    using handle_loop_step [OF ok, of w "ch CHR ''M''" "tl ?d" "a # rest" buf st] i b c(1) ne(1,2) sendable_cmds(2) [OF c(2,4)]
    by (auto simp flip: d)
  obtain w2 where w2: "answer_ok ops port ?buf ?st w1 = Some (Some (?buf, ?st, w2))" "inp w2 = rest"
    "outp w2 = outp w1 @ frame [ch CHR ''O'', ch CHR ''K'']" using answer_ok_sends [OF ok w1(1)] by blast
  have at: "at ?buf 0 = Some (ch CHR ''M'')" by (subst d) (simp add: at_def overwrite_def)
  have "command ops port ?buf (of_nat (length ?d)) st w1 = Some (Some (?buf, ?st, w2))"
    using trans [OF cmd_write_memory_ok [OF refl c(1) b c(2-7)] w2(1)] at ne by (simp add: command_def)
  from bind_of_handle [OF this] w1(3) have "handle_loop ops port buf st w = handle_loop ops port ?buf ?st w2" by simp
  moreover have "length ?buf = 256" using b c(1) by (simp add: overwrite_def)
  ultimately show ?thesis using w2(2,3) w1(2) by (intro exI [of _ w2] exI [of _ ?buf]) simp
qed

lemma read_round:
  assumes ok: "serial_ok ops port inp outp" and i: "inp w = frame (read_cmd as ls) @ a # rest" and b: "length buf = 256"
    and c: "length (read_cmd as ls) \<le> 256" "nibbles_ok as" "as \<noteq> []" "nibbles_ok ls" "ls \<noteq> []" "unat (hexval ls) \<le> 64"
  shows "\<exists>w' buf'. handle_loop ops port buf st w = handle_loop ops port buf' st w' \<and> length buf' = 256 \<and> inp w' = rest \<and>
    outp w' = outp w @ ch CHR ''+'' # frame (concat (map hex_byte (mem_bytes (g_mem st) (hexval as) (unat (hexval ls)))))"
proof -
  let ?d = "read_cmd as ls" and ?x = "concat (map hex_byte (mem_bytes (g_mem st) (hexval as) (unat (hexval ls))))"
  let ?buf = "overwrite ?d buf"
  have d: "?d = ch CHR ''m'' # tl ?d" by (simp add: read_cmd_def)
  have ne: "ch CHR ''m'' \<noteq> ch CHR ''c''" "ch CHR ''m'' \<noteq> ch CHR ''s''" "ch CHR ''m'' \<noteq> ch CHR ''g''" "ch CHR ''m'' \<noteq> ch CHR ''G''"
    "ch CHR ''m'' \<noteq> ch CHR ''p''" "ch CHR ''m'' \<noteq> ch CHR ''P''" by code_simp+
  obtain w1 where w1: "inp w1 = a # rest" "outp w1 = outp w @ [ch CHR ''+'']" "handle_loop ops port buf st w =
      Option.bind (handle_command ops port ?buf (of_nat (length ?d)) st w1) (\<lambda>(buf, st, w). handle_loop ops port buf st w)"
    using handle_loop_step [OF ok, of w "ch CHR ''m''" "tl ?d" "a # rest" buf st] i b c(1) ne(1,2) sendable_cmds(1) [OF c(2,4)]
    by (auto simp flip: d)
  have "-1 \<notin> set ?x" using sendable_hex sendable_def by blast
  from answer_sends [OF ok w1(1) this] obtain w2 where w2: "answer ops port ?x ?buf st w1 = Some (Some (overwrite ?x ?buf, st, w2))"
    "inp w2 = rest" "outp w2 = outp w1 @ frame ?x" by blast
  have at: "at ?buf 0 = Some (ch CHR ''m'')" by (subst d) (simp add: at_def overwrite_def)
  have "command ops port ?buf (of_nat (length ?d)) st w1 = Some (Some (overwrite ?x ?buf, st, w2))"
    using trans [OF cmd_read_memory_ok [OF refl c(1) b c(2-6)] w2(1)] at ne by (simp add: command_def)
  from bind_of_handle [OF this] w1(3) have "handle_loop ops port buf st w = handle_loop ops port (overwrite ?x ?buf) st w2" by simp
  moreover have "length ?x \<le> 128" using c(6) by (simp only: length_hex mem_bytes_def length_map length_upt)
  then have "length (overwrite ?x ?buf) = 256" using b c(1) by (simp only: overwrite_def length_append length_drop)
  ultimately show ?thesis using w2(2,3) w1(2) by (intro exI [of _ w2] exI [of _ "overwrite ?x ?buf"]) simp
qed

subsection \<open>Properties\<close>

text \<open>Property C27. The data of a packet that is sent over one line is received from another, whatever
  bytes come before the packet there as long as none of them is the dollar sign that begins a
  packet; the data may hold anything but the number sign that ends a packet and the byte 0xff, which
  the code takes for an error: \<^verbatim>\<open>send_packet\<close> returns 0 after the acknowledgement,
  \<^verbatim>\<open>recv_packet\<close> puts the data in the buffer, leaves the bytes behind the packet on the line and
  sends the acknowledgement.\<close>

theorem packet_roundtrip:
  assumes "serial_ok ops port inp outp" "inp w = ch CHR ''+'' # rest0"
    and "serial_ok ops' port' inp' outp'" "inp' v = junk @ sent @ rest"
    and "send_packet ops port data w = Some (r, w1)" "outp w1 = outp w @ sent"
    and "-1 \<notin> set data" "ch CHR ''#'' \<notin> set data" "ch CHR ''$'' \<notin> set junk" "length data \<le> length buf"
  shows "r = 0 \<and> inp w1 = rest0 \<and> (\<exists>v'. recv_packet ops' port' buf v =
      Some (Some (length data), data @ drop (length data) buf, v') \<and> inp' v' = rest \<and> outp' v' = outp' v @ [ch CHR ''+''])"
proof -
  have s: "r = 0" "inp w1 = rest0" "sent = frame data"
    using send_packet_ok [OF assms(1,7,2)] assms(5,6) by auto
  have "inp' v = junk @ ch CHR ''$'' # data @ ch CHR ''#'' # hex_byte (checksum data) @ rest"
    using assms(4) s(3) by (simp add: frame_def)
  from recv_packet_cases [OF assms(3) this assms(9,7,8,10)] show ?thesis using s by (simp add: overwrite_def)
qed

definition demo_line :: "u8 list \<Rightarrow> u8 list \<times> u8 list" where "demo_line i = (i, [])"

theorem packet_roundtrip_witness:
  "\<exists>w1. send_packet (line_ops 0x3f8) 0x3f8 [ch CHR ''O'', ch CHR ''K''] (demo_line [ch CHR ''+'']) = Some (0, w1) \<and>
     (\<exists>v'. recv_packet (line_ops 0x3f8) 0x3f8 (replicate 256 0) (demo_line (ch CHR ''+'' # snd w1)) =
       Some (Some 2, [ch CHR ''O'', ch CHR ''K''] @ replicate 254 0, v') \<and> fst v' = [])"
proof -
  let ?d = "[ch CHR ''O'', ch CHR ''K'']" and ?w = "demo_line [ch CHR ''+'']"
  have d: "-1 \<notin> set ?d" "ch CHR ''#'' \<notin> set ?d" "ch CHR ''$'' \<notin> set [ch CHR ''+'']" by code_simp+
  obtain w1 where w1: "send_packet (line_ops 0x3f8) 0x3f8 ?d ?w = Some (0, w1)" "snd w1 = snd ?w @ frame ?d"
    using send_packet_ok [OF line_ops_ok d(1), of ?w "ch CHR ''+''" "[]" "0x3f8"] by (auto simp: demo_line_def)
  have "fst (demo_line (ch CHR ''+'' # snd w1)) = [ch CHR ''+''] @ snd w1 @ []" by (simp add: demo_line_def)
  from packet_roundtrip [OF line_ops_ok _ line_ops_ok this w1(1) _ d] w1 show ?thesis
    by (auto simp: demo_line_def numeral_2_eq_2)
qed

text \<open>Property C28. A session of the debugger: it writes up to 64 bytes to an address, reads them back
  and continues the program. The stub reports the signal, acknowledges every packet, answers OK and
  then the bytes that were written; when it returns, the bytes are in memory, and of the registers
  only the trap flag has changed. The loops all end.\<close>

theorem gdb_memory_session:
  assumes "serial_ok ops port inp outp"
    and "inp w = a0 # frame (write_cmd as ls bytes) @ a1 # frame (read_cmd as ls) @ a2 # frame [ch CHR ''c''] @ rest"
    and "length buf = 256" "length (write_cmd as ls bytes) \<le> 256" "nibbles_ok as" "as \<noteq> []" "nibbles_ok ls" "ls \<noteq> []"
    and "unat (hexval ls) = length bytes" "length bytes \<le> 64"
  shows "\<exists>w'. handle ops port buf st w =
      Some (sys_continue (st\<lparr>g_mem := write_bytes (hexval as) bytes (g_mem st)\<rparr>), w') \<and> inp w' = rest \<and>
    outp w' = outp w @ frame (letter_packet CHR ''S'') @ ch CHR ''+'' # frame [ch CHR ''O'', ch CHR ''K''] @
      ch CHR ''+'' # frame (concat (map hex_byte bytes)) @ [ch CHR ''+'']"
proof -
  let ?st = "st\<lparr>g_mem := write_bytes (hexval as) bytes (g_mem st)\<rparr>"
  obtain r w1 where w1: "send_signal_packet ops port buf 0 w = Some (r, overwrite (letter_packet CHR ''S'') buf, w1)"
    "inp w1 = frame (write_cmd as ls bytes) @ a1 # frame (read_cmd as ls) @ a2 # frame [ch CHR ''c''] @ rest"
    "outp w1 = outp w @ frame (letter_packet CHR ''S'')"
    using send_letter_ok [OF assms(1-3), of "CHR ''S''"] by (auto simp: send_signal_packet_def)
  have b1: "length (overwrite (letter_packet CHR ''S'') buf) = 256" using assms(3) by (simp add: overwrite_def letter_packet_def)
  obtain w2 buf2 where w2: "handle_loop ops port (overwrite (letter_packet CHR ''S'') buf) st w1 = handle_loop ops port buf2 ?st w2"
    "length buf2 = 256" "inp w2 = frame (read_cmd as ls) @ a2 # frame [ch CHR ''c''] @ rest"
    "outp w2 = outp w1 @ ch CHR ''+'' # frame [ch CHR ''O'', ch CHR ''K'']"
    using write_round [OF assms(1) w1(2) b1 assms(4-10)] by blast
  have c: "length (read_cmd as ls) \<le> 256" "unat (hexval ls) \<le> 64"
    using assms(4,9,10) by (simp_all add: read_cmd_def write_cmd_def)
  have "mem_bytes (g_mem ?st) (hexval as) (unat (hexval ls)) = bytes"
    using assms(9,10) read_written [of bytes] by simp
  then obtain w3 buf3 where w3: "handle_loop ops port buf2 ?st w2 = handle_loop ops port buf3 ?st w3" "length buf3 = 256"
    "inp w3 = frame [ch CHR ''c''] @ rest" "outp w3 = outp w2 @ ch CHR ''+'' # frame (concat (map hex_byte bytes))"
    using read_round [OF assms(1) w2(3,2) c(1) assms(5-8) c(2), of ?st] by auto
  have "buf3 \<noteq> []" using w3(2) by auto
  from handle_loop_continue [OF assms(1) w3(3) this, of ?st] w1 w2 w3 show ?thesis by (auto simp: handle_def)
qed

definition demo_state :: gdb_state where
  "demo_state = \<lparr>g_signum = 3, g_registers = replicate 16 0, g_mem = (\<lambda>_. 0)\<rparr>"

theorem gdb_memory_session_witness:
  "\<exists>w'. handle (line_ops 0x3f8) 0x3f8 (replicate 256 0) demo_state
      (demo_line (0 # frame (write_cmd [1, 0xf] [2] [0x2a, 0x3b]) @ 0 # frame (read_cmd [1, 0xf] [2]) @ 0 # frame [ch CHR ''c''] @ [])) =
      Some (sys_continue (demo_state\<lparr>g_mem := write_bytes 0x1f [0x2a, 0x3b] (\<lambda>_. 0)\<rparr>), w') \<and> fst w' = []"
proof -
  have v: "hexval [1, 0xf] = 0x1f" "unat (hexval [2]) = 2" by (simp_all add: hexval_def)
  have n: "nibbles_ok [1, 0xf]" "nibbles_ok [2]" by (simp_all add: nibbles_ok_def)
  have l: "length (write_cmd [1, 0xf] [2] [0x2a, 0x3b]) \<le> 256" by (simp add: write_cmd_def hex_byte_def)
  let ?w = "demo_line (0 # frame (write_cmd [1, 0xf] [2] [0x2a, 0x3b]) @ 0 # frame (read_cmd [1, 0xf] [2]) @ 0 # frame [ch CHR ''c''] @ [])"
  have "fst ?w = 0 # frame (write_cmd [1, 0xf] [2] [0x2a, 0x3b]) @ 0 # frame (read_cmd [1, 0xf] [2]) @ 0 # frame [ch CHR ''c''] @ []"
    by (simp add: demo_line_def)
  from gdb_memory_session [OF line_ops_ok this _ l n(1) _ n(2), of "replicate 256 0" "0x3f8" demo_state] v show ?thesis
    by (auto simp: demo_state_def)
qed

text \<open>A packet with a wrong checksum is refused with one byte, but not awaited again: the
  handler of the debug interrupt returns and the interrupted program goes on with the registers it
  had, while the debugger still believes it stopped.\<close>

theorem bad_checksum_resumes:
  assumes "serial_ok ops port inp outp"
    and "inp w = a0 # junk @ ch CHR ''$'' # data @ ch CHR ''#'' # hex_byte cs @ rest"
    and "length buf = 256" "length (g_registers st) = 16" "length data \<le> 256"
    and "ch CHR ''$'' \<notin> set junk" "-1 \<notin> set data" "ch CHR ''#'' \<notin> set data" "checksum data \<noteq> cs"
  shows "\<exists>w' st'. debug_handler ops port buf context (Some st) w = Some (context, Some st', w') \<and>
    inp w' = rest \<and> outp w' = outp w @ frame (letter_packet CHR ''S'') @ [ch CHR ''-'']"
proof -
  let ?buf = "overwrite (letter_packet CHR ''S'') buf"
  obtain r w1 where w1: "send_signal_packet ops port buf 0 w = Some (r, ?buf, w1)"
    "inp w1 = junk @ ch CHR ''$'' # data @ ch CHR ''#'' # hex_byte cs @ rest" "outp w1 = outp w @ frame (letter_packet CHR ''S'')"
    using send_letter_ok [OF assms(1-3), of "CHR ''S''"] by (auto simp: send_signal_packet_def)
  have "length data \<le> length ?buf" using assms(3,5) by (simp add: overwrite_def letter_packet_def)
  then obtain w2 where w2: "recv_packet ops port ?buf w1 = Some (None, overwrite data ?buf, w2)" "inp w2 = rest"
    "outp w2 = outp w1 @ [ch CHR ''-'']"
    using recv_packet_cases [OF assms(1) w1(2) assms(6-8)] assms(9) by auto
  have "handle_loop ops port ?buf (load_context context st) w1 = Some (load_context context st, w2)"
    by (subst handle_loop.simps) (simp add: w2(1))
  then show ?thesis using w1 w2 restore_load(1) [OF assms(4)] by (simp add: debug_handler_def handle_def)
qed

theorem bad_checksum_resumes_witness:
  "\<exists>c st' w'. debug_handler (line_ops 0x3f8) 0x3f8 (replicate 256 0) c (Some demo_state)
      (demo_line (0 # [] @ ch CHR ''$'' # [ch CHR ''g''] @ ch CHR ''#'' # hex_byte 0 @ [])) = Some (c, Some st', w') \<and>
     snd w' = frame (letter_packet CHR ''S'') @ [ch CHR ''-'']"
proof -
  let ?w = "demo_line (0 # [] @ ch CHR ''$'' # [ch CHR ''g''] @ ch CHR ''#'' # hex_byte 0 @ [])"
  have i: "fst ?w = 0 # [] @ ch CHR ''$'' # [ch CHR ''g''] @ ch CHR ''#'' # hex_byte 0 @ []" by (simp add: demo_line_def)
  have d: "ch CHR ''$'' \<notin> set []" "-1 \<notin> set [ch CHR ''g'']" "ch CHR ''#'' \<notin> set [ch CHR ''g'']" "checksum [ch CHR ''g''] \<noteq> 0"
    by code_simp+
  show ?thesis
    using bad_checksum_resumes [OF line_ops_ok i _ _ _ d, of "replicate 256 0" demo_state "0x3f8"]
    by (fastforce simp: demo_state_def demo_line_def)
qed

end
