(* ===== verification/Bits.thy ===== *)
theory Bits
  imports Prelude
begin

section \<open>Bit fields and memory-mapped registers\<close>

text \<open>
  The structs with bit fields of \<^verbatim>\<open>ioapic_registers.h\<close> and \<^verbatim>\<open>lapic_registers.h\<close> are laid out
  from the least significant bit. A field is its first bit and its width; an assignment cuts the
  value to the width. Registers in memory are accessed by the operations \<open>mm_ops\<close>, a parameter as
  in theory \<open>Ports\<close>.
\<close>

type_synonym bitfield = "nat \<times> nat"

definition getf :: "bitfield \<Rightarrow> u32 \<Rightarrow> u32" where
  "getf f v = take_bit (snd f) (drop_bit (fst f) v)"

definition setf :: "bitfield \<Rightarrow> u32 \<Rightarrow> u32 \<Rightarrow> u32" where
  "setf f x v = (v AND NOT (push_bit (fst f) (mask (snd f)))) OR push_bit (fst f) (take_bit (snd f) x)"

definition fits :: "bitfield \<Rightarrow> bool" where "fits f \<longleftrightarrow> fst f + snd f \<le> 32"

definition apart :: "bitfield \<Rightarrow> bitfield \<Rightarrow> bool" where
  "apart f g \<longleftrightarrow> fst f + snd f \<le> fst g \<or> fst g + snd g \<le> fst f"

lemma bit_setf:
  "fits f \<Longrightarrow> i < 32 \<Longrightarrow> bit (setf f x v) i = (if fst f \<le> i \<and> i < fst f + snd f then bit x (i - fst f) else bit v i)"
  by (auto simp: setf_def fits_def bit_simps)

lemma getf_setf_same: "fits f \<Longrightarrow> getf f (setf f x v) = take_bit (snd f) x"
  by (rule bit_word_eqI) (auto simp: getf_def bit_simps bit_setf fits_def)

lemma getf_setf_other: "apart f g \<Longrightarrow> fits f \<Longrightarrow> fits g \<Longrightarrow> getf f (setf g x v) = getf f v"
  by (rule bit_word_eqI) (auto simp: getf_def bit_simps bit_setf fits_def apart_def)

text \<open>A field of a register of which only the bits of \<open>m\<close> can be written.\<close>

definition merge_bits :: "u32 \<Rightarrow> u32 \<Rightarrow> u32 \<Rightarrow> u32" where
  "merge_bits m new old = (new AND m) OR (old AND NOT m)"

definition within :: "bitfield \<Rightarrow> u32 \<Rightarrow> bool" where
  "within f m \<longleftrightarrow> getf f m = mask (snd f)"

lemma getf_merge:
  assumes "fits f" "within f m" shows "getf f (merge_bits m new old) = getf f new"
proof (rule bit_word_eqI)
  fix i assume "i < LENGTH(32)"
  have "bit (getf f m) i \<longleftrightarrow> i < 32 \<and> i < snd f" using assms(2) by (simp add: within_def bit_mask_iff)
  then have "bit m (fst f + i)" if "i < snd f" using that assms(1) \<open>i < LENGTH(32)\<close>
    by (auto simp: getf_def bit_simps fits_def add.commute)
  then show "bit (getf f (merge_bits m new old)) i = bit (getf f new) i"
    using assms(1) by (auto simp: getf_def merge_bits_def bit_simps fits_def add.commute)
qed

record 'w mm_ops =
  mm_read :: "u32 \<Rightarrow> 'w \<Rightarrow> u32 \<times> 'w"
  mm_write :: "u32 \<Rightarrow> u32 \<Rightarrow> 'w \<Rightarrow> 'w"

end
