(* ===== verification/SystemConfig.thy ===== *)
theory SystemConfig
  imports Bits "HOL-Library.Monad_Syntax"
begin

section \<open>machine/apicsystem.h: the configuration of the system\<close>

text \<open>
  What is known of the processors and of the wiring of the interrupts. \<open>ioapic_irqs\<close> has 24
  entries, \<open>slot_map\<close> 16, \<open>lapic_id\<close> as many as there can be CPUs. \<open>None\<close> is an access outside an
  array.
\<close>

definition SYS_CPU_MAX :: nat where "SYS_CPU_MAX = 8"

record system_configuration =
  cpu_count :: u32
  bsp_id :: u32
  ioapic_id :: u32
  conf_disablePICs :: bool
  ioapic_irqs :: "u8 list"
  slot_map :: "u8 list"
  lapic_id :: "u32 list"

text \<open>The constructor. \<open>ids\<close> is what the memory holds in the place of \<^verbatim>\<open>lapic_id\<close>.\<close>

definition new_configuration :: "u32 list \<Rightarrow> system_configuration" where
  "new_configuration ids = \<lparr>cpu_count = 0, bsp_id = 0, ioapic_id = -1, conf_disablePICs = False,
     ioapic_irqs = replicate 24 (-1), slot_map = replicate 16 (-1), lapic_id = ids\<rparr>"

definition sized :: "system_configuration \<Rightarrow> bool" where
  "sized conf \<longleftrightarrow> length (ioapic_irqs conf) = 24 \<and> length (slot_map conf) = 16 \<and> length (lapic_id conf) = SYS_CPU_MAX"

datatype device = Timer | Keyboard | Com1 | Com2 | Com3 | Com4 | Floppy | Lpt1 | Rtc | Ps2mouse | Ide1 | Ide2

fun device_irq :: "device \<Rightarrow> nat" where
  "device_irq Timer = 0" | "device_irq Keyboard = 1" | "device_irq Com1 = 4" | "device_irq Com2 = 3"
| "device_irq Com3 = 4" | "device_irq Com4 = 3" | "device_irq Floppy = 6" | "device_irq Lpt1 = 7"
| "device_irq Rtc = 8" | "device_irq Ps2mouse = 12" | "device_irq Ide1 = 14" | "device_irq Ide2 = 15"

definition getIOAPICSlot :: "system_configuration \<Rightarrow> device \<Rightarrow> u8" where
  "getIOAPICSlot conf d = slot_map conf ! device_irq d"

definition getNumberOfCPUs :: "system_configuration \<Rightarrow> u32" where "getNumberOfCPUs conf = cpu_count conf"
definition getIOAPICID :: "system_configuration \<Rightarrow> u8" where "getIOAPICID conf = ucast (ioapic_id conf)"
definition getBSPID :: "system_configuration \<Rightarrow> u8" where "getBSPID conf = ucast (bsp_id conf)"

text \<open>The two loops of \<^verbatim>\<open>generateIRQMap\<close>.\<close>

definition legacy_irqs :: "u8 list \<Rightarrow> u8 list" where
  "legacy_irqs irqs = fold (\<lambda>i irqs. if irqs ! i = -1 then irqs[i := of_nat i] else irqs) [0..<16] irqs"

definition slot_of :: "u8 list \<Rightarrow> nat \<Rightarrow> u8 list \<Rightarrow> u8 list" where
  "slot_of irqs i slots =
     (let device = irqs ! i
      in if 0 \<le> sint device \<and> sint device < 16 then slots[nat (sint device) := of_nat i] else slots)"

definition generateIRQMap :: "system_configuration \<Rightarrow> system_configuration" where
  "generateIRQMap conf =
     (let irqs = legacy_irqs (ioapic_irqs conf)
      in conf\<lparr>ioapic_irqs := irqs, slot_map := fold (slot_of irqs) [0..<24] (slot_map conf)\<rparr>)"

end
