(* ===== verification/Acpi.thy ===== *)
theory Acpi
  imports SystemConfig MemUtil
begin

section \<open>machine/acpi: the tables of the ACPI\<close>

text \<open>
  The tables lie in memory, where the BIOS has put them. A table is the address of its first byte;
  the null pointer is 0. \<open>None\<close> is a write outside an array or a loop that does not end.
\<close>

definition chars_to_uint32 :: "char \<Rightarrow> char \<Rightarrow> char \<Rightarrow> char \<Rightarrow> u32" where
  "chars_to_uint32 a b c d = of_char a OR push_bit 8 (of_char b) OR push_bit 16 (of_char c) OR push_bit 24 (of_char d)"

definition sums_to_zero :: "mem \<Rightarrow> u32 \<Rightarrow> u32 \<Rightarrow> bool" where
  "sums_to_zero m start len \<longleftrightarrow> len \<noteq> 0 \<and>
     fold (\<lambda>i sum. sum + scast (m (start + of_nat i))) [0..<unat len] (0 :: u32) AND 0xff = 0"

subsection \<open>Tables\<close>

definition sizeof_sdt :: u32 where "sizeof_sdt = 36"
definition sdt_length :: "mem \<Rightarrow> u32 \<Rightarrow> u32" where "sdt_length m t = load32 m (t + 4)"

text \<open>\<^verbatim>\<open>char\<close> is signed.\<close>

definition sdt_type :: "mem \<Rightarrow> u32 \<Rightarrow> u32" where
  "sdt_type m t = scast (m t) OR push_bit 8 (scast (m (t + 1))) OR push_bit 16 (scast (m (t + 2))) OR
     push_bit 24 (scast (m (t + 3)))"

definition MADT_type :: u32 where "MADT_type = chars_to_uint32 CHR ''A'' CHR ''P'' CHR ''I'' CHR ''C''"

definition getNumSDTPtrs :: "mem \<Rightarrow> u32 \<Rightarrow> u32" where "getNumSDTPtrs m rsdt = (sdt_length m rsdt - sizeof_sdt) div 4"
definition getSDTPtr :: "mem \<Rightarrow> u32 \<Rightarrow> u32 \<Rightarrow> u32" where "getSDTPtr m rsdt num = load32 m (rsdt + sizeof_sdt + 4 * num)"

definition LOCAL_APIC :: u8 where "LOCAL_APIC = 0"
definition IO_APIC :: u8 where "IO_APIC = 1"
definition SOURCE_OVERRIDE :: u8 where "SOURCE_OVERRIDE = 2"

definition as_type :: "mem \<Rightarrow> u32 \<Rightarrow> u8" where "as_type m e = m e"
definition as_length :: "mem \<Rightarrow> u32 \<Rightarrow> u8" where "as_length m e = m (e + 1)"
definition as_next :: "mem \<Rightarrow> u32 \<Rightarrow> u32" where "as_next m e = e + ucast (as_length m e)"

definition la_apic_id :: "mem \<Rightarrow> u32 \<Rightarrow> u8" where "la_apic_id m e = m (e + 3)"
definition la_enabled :: "mem \<Rightarrow> u32 \<Rightarrow> bool" where "la_enabled m e \<longleftrightarrow> load32 m (e + 4) AND 1 \<noteq> 0"
definition io_apic_id :: "mem \<Rightarrow> u32 \<Rightarrow> u8" where "io_apic_id m e = m (e + 2)"
definition so_bus :: "mem \<Rightarrow> u32 \<Rightarrow> u8" where "so_bus m e = m (e + 2)"
definition so_source :: "mem \<Rightarrow> u32 \<Rightarrow> u8" where "so_source m e = m (e + 3)"
definition so_interrupt :: "mem \<Rightarrow> u32 \<Rightarrow> u32" where "so_interrupt m e = load32 m (e + 4)"

definition sizeof_madt :: u32 where "sizeof_madt = sizeof_sdt + 8"
definition madt_first :: "u32 \<Rightarrow> u32" where "madt_first madt = madt + sizeof_madt"
definition madt_rear :: "mem \<Rightarrow> u32 \<Rightarrow> u32" where "madt_rear m madt = madt + sdt_length m madt"
definition has_PCAT_COMPAT :: "mem \<Rightarrow> u32 \<Rightarrow> bool" where "has_PCAT_COMPAT m madt \<longleftrightarrow> load32 m (madt + 40) AND 1 \<noteq> 0"

subsection \<open>Finding the root\<close>

definition rsdp_revision :: "mem \<Rightarrow> u32 \<Rightarrow> u8" where "rsdp_revision m p = m (p + 15)"
definition is_ACPI_1_0 :: "mem \<Rightarrow> u32 \<Rightarrow> bool" where "is_ACPI_1_0 m p \<longleftrightarrow> rsdp_revision m p = 0"
definition getRSDTPtr :: "mem \<Rightarrow> u32 \<Rightarrow> u32" where "getRSDTPtr m p = load32 m (p + 16)"

definition rsdp_check_sum :: "mem \<Rightarrow> u32 \<Rightarrow> bool" where
  "rsdp_check_sum m p = (if is_ACPI_1_0 m p then sums_to_zero m p 20 else sums_to_zero m p (load32 m (p + 20)))"

text \<open>\<open>n\<close> counts the sixteen byte steps that are left.\<close>

fun rsdp_search :: "mem \<Rightarrow> u32 \<Rightarrow> nat \<Rightarrow> u32" where
  "rsdp_search m search 0 = 0"
| "rsdp_search m search (Suc n) =
     (if load32 m search = chars_to_uint32 CHR ''R'' CHR ''S'' CHR ''D'' CHR '' '' \<and>
         load32 m (search + 4) = chars_to_uint32 CHR ''P'' CHR ''T'' CHR ''R'' CHR '' '' \<and> rsdp_check_sum m search
      then search else rsdp_search m (search + 16) n)"

definition rsdp_find_in :: "mem \<Rightarrow> u32 \<Rightarrow> nat \<Rightarrow> u32" where
  "rsdp_find_in m start len = rsdp_search m start (if start < start + of_nat len then len div 16 else 0)"

definition rsdp_find :: "mem \<Rightarrow> u32" where
  "rsdp_find m =
     (let ebda_ptr = load32 m 0x40e; found = rsdp_find_in m ebda_ptr 0x400
      in if found \<noteq> 0 then found else rsdp_find_in m 0xe0000 0x20000)"

subsection \<open>Reading the configuration\<close>

text \<open>The loop over the table of tables: the last MADT counts.\<close>

definition find_madt :: "mem \<Rightarrow> u32 \<Rightarrow> u32" where
  "find_madt m rsdt =
     fold (\<lambda>idx madt. let entry = getSDTPtr m rsdt (of_nat idx) in if sdt_type m entry = MADT_type then entry else madt)
       [0..<nat (sint (getNumSDTPtrs m rsdt))] 0"

definition add_lapic :: "mem \<Rightarrow> u32 \<Rightarrow> system_configuration \<Rightarrow> bool \<Rightarrow> (system_configuration \<times> bool) option" where
  "add_lapic m e conf found_bsp =
     (if \<not> la_enabled m e then Some (conf, found_bsp)
      else if cpu_count conf = of_nat SYS_CPU_MAX then Some (conf, found_bsp)
      else let i = la_apic_id m e; current_cpu = ucast (cpu_count conf) :: u8
           in if of_nat SYS_CPU_MAX \<le> current_cpu then Some (conf, found_bsp)
              else let conf = conf\<lparr>cpu_count := cpu_count conf + 1, lapic_id := (lapic_id conf)[unat current_cpu := ucast i]\<rparr>
                   in if \<not> found_bsp then Some (conf\<lparr>bsp_id := ucast i\<rparr>, True) else Some (conf, found_bsp))"

definition add_override :: "mem \<Rightarrow> u32 \<Rightarrow> system_configuration \<Rightarrow> system_configuration option" where
  "add_override m e conf =
     (if so_bus m e \<noteq> 0 then Some conf
      else if unat (so_interrupt m e) < length (ioapic_irqs conf)
           then Some (conf\<lparr>ioapic_irqs := (ioapic_irqs conf)[unat (so_interrupt m e) := so_source m e]\<rparr>)
           else None)"

text \<open>One entry of the MADT.\<close>

definition madt_entry :: "mem \<Rightarrow> u32 \<Rightarrow> system_configuration \<Rightarrow> bool \<Rightarrow> (system_configuration \<times> bool) option" where
  "madt_entry m e conf found_bsp =
     (if as_type m e = LOCAL_APIC then add_lapic m e conf found_bsp
      else if as_type m e = IO_APIC then Some (conf\<lparr>ioapic_id := scast (io_apic_id m e)\<rparr>, found_bsp)
      else if as_type m e = SOURCE_OVERRIDE then map_option (\<lambda>conf. (conf, found_bsp)) (add_override m e conf)
      else Some (conf, found_bsp))"

partial_function (option) madt_loop ::
  "mem \<Rightarrow> u32 \<Rightarrow> u32 \<Rightarrow> system_configuration \<Rightarrow> bool \<Rightarrow> system_configuration option"
where
  "madt_loop m entry end conf found_bsp =
     (if entry < end
      then if as_length m entry = 0 then Some conf
           else do {
             (conf, found_bsp) \<leftarrow> madt_entry m entry conf found_bsp;
             madt_loop m (as_next m entry) end conf found_bsp }
      else Some conf)"

text \<open>When the pointer to the RSDT is null, the code goes on and reads the table at the address 0.\<close>

definition queryACPI :: "mem \<Rightarrow> system_configuration \<Rightarrow> system_configuration option" where
  "queryACPI m conf =
     (let rsdp = rsdp_find m
      in if rsdp = 0 then Some conf
         else let madt = find_madt m (getRSDTPtr m rsdp)
              in if madt = 0 then Some conf
                 else let conf = (if has_PCAT_COMPAT m madt then conf\<lparr>conf_disablePICs := True\<rparr> else conf)
                      in madt_loop m (madt_first madt) (madt_rear m madt) conf False)"

end
