(* ===== verification/MpTable.thy ===== *)
theory MpTable
  imports SystemConfig MemUtil
begin

section \<open>machine/apicsystem: the tables of the MP specification\<close>

text \<open>
  The floating pointer structure and the configuration table of the Intel MP specification, in
  memory. \<open>None\<close> is a loop that does not end.
\<close>

subsection \<open>Structures\<close>

definition MPFPS_ID_SIGNATURE :: u32 where
  "MPFPS_ID_SIGNATURE = push_bit 24 (of_char CHR ''_'') OR push_bit 16 (of_char CHR ''P'') OR push_bit 8 (of_char CHR ''M'') OR
     of_char CHR ''_''"

definition COMPATIBILITY_PIC :: u8 where "COMPATIBILITY_PIC = push_bit 7 1"

definition MPCT_PROCESSOR :: u8 where "MPCT_PROCESSOR = 0"
definition MPCT_BUS :: u8 where "MPCT_BUS = 1"
definition MPCT_IOAPIC :: u8 where "MPCT_IOAPIC = 2"
definition MPCT_IOINT :: u8 where "MPCT_IOINT = 3"
definition MPCT_LINT :: u8 where "MPCT_LINT = 4"
definition CPU_ENABLED :: u8 where "CPU_ENABLED = 1"
definition CPU_BOOTPROCESSOR :: u8 where "CPU_BOOTPROCESSOR = 2"

definition fps_physptr :: "mem \<Rightarrow> u32 \<Rightarrow> u32" where "fps_physptr m p = load32 m (p + 4)"
definition fps_length :: "mem \<Rightarrow> u32 \<Rightarrow> u8" where "fps_length m p = m (p + 8)"
definition fps_spec_rev :: "mem \<Rightarrow> u32 \<Rightarrow> u8" where "fps_spec_rev m p = m (p + 9)"
definition fps_feature1 :: "mem \<Rightarrow> u32 \<Rightarrow> u8" where "fps_feature1 m p = m (p + 11)"
definition fps_feature2 :: "mem \<Rightarrow> u32 \<Rightarrow> u8" where "fps_feature2 m p = m (p + 12)"

definition load16 :: "mem \<Rightarrow> u32 \<Rightarrow> u16" where "load16 m a = ucast (m a) OR push_bit 8 (ucast (m (a + 1)))"

definition sizeof_mpcth :: u32 where "sizeof_mpcth = 44"
definition th_length :: "mem \<Rightarrow> u32 \<Rightarrow> u32" where "th_length m t = ucast (load16 m (t + 4))"

definition pr_lapicid :: "mem \<Rightarrow> u32 \<Rightarrow> u8" where "pr_lapicid m p = m (p + 1)"
definition pr_lapicver :: "mem \<Rightarrow> u32 \<Rightarrow> u8" where "pr_lapicver m p = m (p + 2)"
definition pr_cpuflag :: "mem \<Rightarrow> u32 \<Rightarrow> u8" where "pr_cpuflag m p = m (p + 3)"
definition pr_cpusignature :: "mem \<Rightarrow> u32 \<Rightarrow> u32" where "pr_cpusignature m p = load32 m (p + 4)"
definition sizeof_processor :: u32 where "sizeof_processor = 20"

definition mpio_apicid :: "mem \<Rightarrow> u32 \<Rightarrow> u8" where "mpio_apicid m p = m (p + 1)"
definition sizeof_mpct_ioapic :: u32 where "sizeof_mpct_ioapic = 8"
definition sizeof_mpct_bus :: u32 where "sizeof_mpct_bus = 8"

definition int_srcbus :: "mem \<Rightarrow> u32 \<Rightarrow> u8" where "int_srcbus m p = m (p + 4)"
definition int_srcbusirq :: "mem \<Rightarrow> u32 \<Rightarrow> u8" where "int_srcbusirq m p = m (p + 5)"
definition int_dstirq :: "mem \<Rightarrow> u32 \<Rightarrow> u8" where "int_dstirq m p = m (p + 7)"
definition sizeof_mpct_int :: u32 where "sizeof_mpct_int = 8"

definition mpbChecksumOK :: "mem \<Rightarrow> u32 \<Rightarrow> nat \<Rightarrow> bool" where
  "mpbChecksumOK m start len \<longleftrightarrow> fold (\<lambda>i sum. sum + ucast (m (start + of_nat i))) [0..<len] (0 :: u32) AND 0xff = 0"

subsection \<open>Reading the table\<close>

text \<open>What the system keeps of the processors: version of the local APIC, family and model.\<close>

record cpu_info =
  lapicVersion :: "u32 list"
  cpuFamily :: "u32 list"
  cpuModel :: "u32 list"

definition mpct_processor :: "mem \<Rightarrow> u32 \<Rightarrow> system_configuration \<Rightarrow> cpu_info \<Rightarrow> system_configuration \<times> cpu_info" where
  "mpct_processor m p conf info =
     (if pr_cpuflag m p AND CPU_ENABLED \<noteq> 0
      then let conf = conf\<lparr>cpu_count := cpu_count conf + 1\<rparr>;
               conf = (if pr_cpuflag m p AND CPU_BOOTPROCESSOR \<noteq> 0 then conf\<lparr>bsp_id := ucast (pr_lapicid m p)\<rparr> else conf)
           in if cpu_count conf \<le> of_nat SYS_CPU_MAX
              then let current = unat (cpu_count conf - 1)
                   in (conf\<lparr>lapic_id := (lapic_id conf)[current := ucast (pr_lapicid m p)]\<rparr>,
                       info\<lparr>lapicVersion := (lapicVersion info)[current := ucast (pr_lapicver m p)],
                         cpuFamily := (cpuFamily info)[current := drop_bit 8 (pr_cpusignature m p AND 0xf00)],
                         cpuModel := (cpuModel info)[current := drop_bit 4 (pr_cpusignature m p AND 0xf0)]\<rparr>)
              else (conf, info)
      else (conf, info))"

definition mpct_ioint :: "mem \<Rightarrow> u32 \<Rightarrow> system_configuration \<Rightarrow> system_configuration" where
  "mpct_ioint m p conf =
     (if int_srcbus m p = 0 \<and> int_srcbusirq m p < 16 \<and> int_dstirq m p < 24
      then conf\<lparr>ioapic_irqs := (ioapic_irqs conf)[unat (int_dstirq m p) := int_srcbusirq m p],
             slot_map := (slot_map conf)[unat (int_srcbusirq m p) := int_dstirq m p]\<rparr>
      else conf)"

text \<open>An entry of a type that is not known is not skipped.\<close>

partial_function (option) mpct_loop ::
  "mem \<Rightarrow> u32 \<Rightarrow> u32 \<Rightarrow> u32 \<Rightarrow> system_configuration \<Rightarrow> cpu_info \<Rightarrow> (system_configuration \<times> cpu_info) option"
where
  "mpct_loop m len mpt count conf info =
     (if count <s len
      then if m mpt = MPCT_PROCESSOR
           then let (conf, info) = mpct_processor m mpt conf info
                in mpct_loop m len (mpt + sizeof_processor) (count + sizeof_processor) conf info
           else if m mpt = MPCT_IOAPIC
           then mpct_loop m len (mpt + sizeof_mpct_ioapic) (count + sizeof_mpct_ioapic)
                  (conf\<lparr>ioapic_id := ucast (mpio_apicid m mpt)\<rparr>) info
           else if m mpt = MPCT_BUS
           then mpct_loop m len (mpt + sizeof_mpct_bus) (count + sizeof_mpct_bus) conf info
           else if m mpt = MPCT_IOINT
           then mpct_loop m len (mpt + sizeof_mpct_int) (count + sizeof_mpct_int) (mpct_ioint m mpt conf) info
           else if m mpt = MPCT_LINT
           then mpct_loop m len (mpt + sizeof_mpct_int) (count + sizeof_mpct_int) conf info
           else mpct_loop m len mpt count conf info
      else Some (conf, info))"

definition readMPCT ::
  "mem \<Rightarrow> u32 \<Rightarrow> system_configuration \<Rightarrow> cpu_info \<Rightarrow> (system_configuration \<times> cpu_info) option"
where
  "readMPCT m t conf info =
     (if m t \<noteq> of_char CHR ''P'' \<or> m (t + 1) \<noteq> of_char CHR ''C'' \<or> m (t + 2) \<noteq> of_char CHR ''M'' \<or> m (t + 3) \<noteq> of_char CHR ''P''
      then Some (conf, info)
      else if \<not> mpbChecksumOK m t (unat (th_length m t)) then Some (conf, info)
      else let conf = conf\<lparr>slot_map := fold (\<lambda>i s. s[i := of_nat i]) [3..<16] ((slot_map conf)[0 := 2, 1 := 1, 2 := -1])\<rparr>
           in mpct_loop m (th_length m t) (t + sizeof_mpcth) sizeof_mpcth conf info)"

text \<open>\<open>fps_ok\<close> are the tests on a structure that was found.\<close>

definition fps_ok :: "mem \<Rightarrow> u32 \<Rightarrow> bool" where
  "fps_ok m bp \<longleftrightarrow> load32 m bp = MPFPS_ID_SIGNATURE \<and> fps_length m bp = 1 \<and> mpbChecksumOK m bp (unat (fps_length m bp) * 16) \<and>
     (fps_spec_rev m bp = 1 \<or> fps_spec_rev m bp = 4)"

text \<open>
  \<open>n\<close> counts the steps of sixteen bytes that are left. The state is the configuration, the processors
  and \<^verbatim>\<open>compatibilityMode\<close>.
\<close>

fun search_loop ::
  "mem \<Rightarrow> u32 \<Rightarrow> nat \<Rightarrow> system_configuration \<times> cpu_info \<times> u8 \<Rightarrow> (bool \<times> system_configuration \<times> cpu_info \<times> u8) option"
where
  "search_loop m bp 0 s = Some (False, s)"
| "search_loop m bp (Suc n) (conf, info, cmode) =
     (if \<not> fps_ok m bp then search_loop m (bp + 16) n (conf, info, cmode)
      else let cmode = fps_feature2 m bp AND COMPATIBILITY_PIC;
               conf = (if cmode = COMPATIBILITY_PIC then conf\<lparr>conf_disablePICs := True\<rparr> else conf)
           in do {
             (conf, info) \<leftarrow> (if fps_feature1 m bp \<noteq> 0 then Some (conf, info)
                else if fps_physptr m bp \<noteq> 0 then readMPCT m (fps_physptr m bp) conf info
                else Some (conf, info));
             Some (1 < cpu_count conf, conf, info, cmode) })"

text \<open>The length is a multiple of 16, so the loop ends at 0.\<close>

definition searchConfig ::
  "mem \<Rightarrow> u32 \<Rightarrow> nat \<Rightarrow> system_configuration \<times> cpu_info \<times> u8 \<Rightarrow> (bool \<times> system_configuration \<times> cpu_info \<times> u8) option"
where
  "searchConfig m base len s = search_loop m (base AND NOT 0xf) (len div 16) s"

end
