(* ===== verification/Lapic.thy ===== *)
theory Lapic
  imports SystemConfig Ports MathUtil
begin

section \<open>machine/lapic: the local APIC and its timer\<close>

text \<open>
  The registers of the local APIC of the CPU that runs the code. The timer is measured with the
  programmable interval timer of the PC. \<open>None\<close> is a loop that waits for the hardware and does not
  end, or a division that fails.
\<close>

subsection \<open>Registers\<close>

definition LAPIC_BASE :: u32 where "LAPIC_BASE = 0xfee00000"

datatype lapic_reg = lapicid_reg | lapicver_reg | tpr_reg | eoi_reg | ldr_reg | dfr_reg | spiv_reg | icrl_reg | icrh_reg
  | timerctrl_reg | icr_reg | ccr_reg | dcr_reg

fun lapic_offset :: "lapic_reg \<Rightarrow> u16" where
  "lapic_offset lapicid_reg = 0x020" | "lapic_offset lapicver_reg = 0x030" | "lapic_offset tpr_reg = 0x080"
| "lapic_offset eoi_reg = 0x0b0" | "lapic_offset ldr_reg = 0x0d0" | "lapic_offset dfr_reg = 0x0e0"
| "lapic_offset spiv_reg = 0x0f0" | "lapic_offset icrl_reg = 0x300" | "lapic_offset icrh_reg = 0x310"
| "lapic_offset timerctrl_reg = 0x320" | "lapic_offset icr_reg = 0x380" | "lapic_offset ccr_reg = 0x390"
| "lapic_offset dcr_reg = 0x3e0"

definition P_apic_id :: bitfield where "P_apic_id = (24, 4)"
definition P4_apic_id :: bitfield where "P4_apic_id = (24, 8)"
definition VER_version :: bitfield where "VER_version = (0, 8)"
definition ICR_vector :: bitfield where "ICR_vector = (0, 8)"
definition ICR_delivery_mode :: bitfield where "ICR_delivery_mode = (8, 3)"
definition ICR_destination_mode :: bitfield where "ICR_destination_mode = (11, 1)"
definition ICR_delivery_status :: bitfield where "ICR_delivery_status = (12, 1)"
definition ICR_level :: bitfield where "ICR_level = (14, 1)"
definition ICR_trigger_mode :: bitfield where "ICR_trigger_mode = (15, 1)"
definition ICR_destination_shorthand :: bitfield where "ICR_destination_shorthand = (18, 2)"
definition TIMER_vector :: bitfield where "TIMER_vector = (0, 8)"
definition TIMER_masked :: bitfield where "TIMER_masked = (16, 1)"
definition TIMER_mode :: bitfield where "TIMER_mode = (17, 2)"
definition ICRH_destination :: bitfield where "ICRH_destination = (24, 8)"
definition LDR_lapic_id :: bitfield where "LDR_lapic_id = (24, 8)"
definition DFR_model :: bitfield where "DFR_model = (28, 4)"
definition TPR_task_prio_sub :: bitfield where "TPR_task_prio_sub = (0, 4)"
definition TPR_task_prio :: bitfield where "TPR_task_prio = (4, 4)"
definition SVR_spurious_vector :: bitfield where "SVR_spurious_vector = (0, 8)"
definition SVR_apic_enable :: bitfield where "SVR_apic_enable = (8, 1)"
definition SVR_focus :: bitfield where "SVR_focus = (9, 1)"

definition DESTINATION_MODEL_FLAT :: u32 where "DESTINATION_MODEL_FLAT = 0xf"
definition LAPIC_ENABLED :: u32 where "LAPIC_ENABLED = 1"
definition FOCUS_CPU_DISABLED :: u32 where "FOCUS_CPU_DISABLED = 1"
definition DELIVERY_STATUS_IDLE :: u32 where "DELIVERY_STATUS_IDLE = 0"

subsection \<open>Operations\<close>

definition lapic_write :: "'w mm_ops \<Rightarrow> lapic_reg \<Rightarrow> u32 \<Rightarrow> 'w \<Rightarrow> 'w" where
  "lapic_write mm reg val w = mm_write mm (LAPIC_BASE + ucast (lapic_offset reg)) val w"

definition lapic_read :: "'w mm_ops \<Rightarrow> lapic_reg \<Rightarrow> 'w \<Rightarrow> u32 \<times> 'w" where
  "lapic_read mm reg w = mm_read mm (LAPIC_BASE + ucast (lapic_offset reg)) w"

definition getVersion :: "'w mm_ops \<Rightarrow> 'w \<Rightarrow> u8 \<times> 'w" where
  "getVersion mm w = (let (v, w) = lapic_read mm lapicver_reg w in (ucast (getf VER_version v), w))"

definition isExternalAPIC :: "'w mm_ops \<Rightarrow> 'w \<Rightarrow> bool \<times> 'w" where
  "isExternalAPIC mm w = (let (v, w) = getVersion mm w in (v AND 0xf0 = 0, w))"

definition isLocalAPIC :: "'w mm_ops \<Rightarrow> 'w \<Rightarrow> bool \<times> 'w" where
  "isLocalAPIC mm w = (let (v, w) = getVersion mm w in (v AND 0xf0 = 0x10, w))"

definition isPentium4orNewer :: "'w mm_ops \<Rightarrow> 'w \<Rightarrow> bool \<times> 'w" where
  "isPentium4orNewer mm w = (let (v, w) = getVersion mm w in (0x14 \<le> v, w))"

definition getLAPICID :: "'w mm_ops \<Rightarrow> 'w \<Rightarrow> u8 \<times> 'w" where
  "getLAPICID mm w =
     (let (v, w) = lapic_read mm lapicid_reg w; (p4, w) = isPentium4orNewer mm w
      in (ucast (getf (if p4 then P4_apic_id else P_apic_id) v), w))"

definition lapic_init :: "'w mm_ops \<Rightarrow> 'w \<Rightarrow> 'w" where
  "lapic_init mm w =
     (let (v, w) = lapic_read mm ldr_reg w;
          w = lapic_write mm ldr_reg (setf LDR_lapic_id 0 v) w;
          (v, w) = lapic_read mm tpr_reg w;
          w = lapic_write mm tpr_reg (setf TPR_task_prio_sub 0 (setf TPR_task_prio 0 v)) w;
          (v, w) = lapic_read mm dfr_reg w;
          w = lapic_write mm dfr_reg (setf DFR_model DESTINATION_MODEL_FLAT v) w;
          (v, w) = lapic_read mm spiv_reg w
      in lapic_write mm spiv_reg (setf SVR_focus FOCUS_CPU_DISABLED (setf SVR_apic_enable LAPIC_ENABLED
           (setf SVR_spurious_vector 0xff v))) w)"

definition ackIRQ :: "'w mm_ops \<Rightarrow> 'w \<Rightarrow> 'w" where
  "ackIRQ mm w = (let (_, w) = lapic_read mm spiv_reg w in lapic_write mm eoi_reg 0 w)"

definition setLogicalLAPICID :: "'w mm_ops \<Rightarrow> u8 \<Rightarrow> 'w \<Rightarrow> 'w" where
  "setLogicalLAPICID mm i w =
     (let (v, w) = lapic_read mm ldr_reg w in lapic_write mm ldr_reg (setf LDR_lapic_id (ucast i) v) w)"

definition isIPIDelivered :: "'w mm_ops \<Rightarrow> 'w \<Rightarrow> bool \<times> 'w" where
  "isIPIDelivered mm w =
     (let (v, w) = lapic_read mm icrl_reg w in (getf ICR_delivery_status v = DELIVERY_STATUS_IDLE, w))"

partial_function (option) wait_delivered :: "'w mm_ops \<Rightarrow> 'w \<Rightarrow> 'w option" where
  "wait_delivered mm w = (let (idle, w) = isIPIDelivered mm w in if \<not> idle then wait_delivered mm w else Some w)"

definition sendIPI :: "'w mm_ops \<Rightarrow> u8 \<Rightarrow> u32 \<Rightarrow> 'w \<Rightarrow> 'w option" where
  "sendIPI mm destination data w = do {
     w \<leftarrow> wait_delivered mm w;
     let (v, w) = lapic_read mm icrh_reg w;
     let w = lapic_write mm icrh_reg (setf ICRH_destination (ucast destination) v) w;
     Some (lapic_write mm icrl_reg data w) }"

text \<open>\<^verbatim>\<open>__builtin_ctz\<close> for a value that is not 0.\<close>

definition ctz :: "u8 \<Rightarrow> nat" where "ctz d = length (takeWhile (\<lambda>i. \<not> bit d i) [0..<8])"

definition timer_div :: "u8 \<Rightarrow> u8" where
  "timer_div d =
     (if \<not> (d \<noteq> 0 \<and> d AND (d - 1) = 0) then 0xff
      else let trail = ctz d
           in if 7 < trail then 0xff else [0xb, 0x0, 0x1, 0x2, 0x3, 0x8, 0x9, 0xa] ! trail)"

definition setTimer :: "'w mm_ops \<Rightarrow> u32 \<Rightarrow> u8 \<Rightarrow> u8 \<Rightarrow> bool \<Rightarrow> bool \<Rightarrow> 'w \<Rightarrow> 'w" where
  "setTimer mm counter divider vector periodic masked w =
     (let w = lapic_write mm icr_reg 0 w;
          (lr, w) = lapic_read mm timerctrl_reg w;
          lr = setf TIMER_vector (ucast vector) lr;
          lr = setf TIMER_masked (of_bool masked) lr;
          lr = setf TIMER_mode (of_bool periodic) lr;
          w = lapic_write mm timerctrl_reg lr w;
          w = lapic_write mm dcr_reg (ucast (timer_div divider)) w
      in lapic_write mm icr_reg counter w)"

definition setTimerMasked :: "'w mm_ops \<Rightarrow> bool \<Rightarrow> 'w \<Rightarrow> 'w" where
  "setTimerMasked mm masked w =
     (let (lr, w) = lapic_read mm timerctrl_reg w in lapic_write mm timerctrl_reg (setf TIMER_masked (of_bool masked) lr) w)"

partial_function (option) wait_pit :: "'w port_ops \<Rightarrow> 'w \<Rightarrow> 'w option" where
  "wait_pit ops w = (let (v, w) = io_inb ops 0x61 w in if v AND 0x20 = 0 then wait_pit ops w else Some w)"

definition timer_ticks :: "'w port_ops \<Rightarrow> 'w mm_ops \<Rightarrow> 'w \<Rightarrow> (u32 \<times> 'w) option" where
  "timer_ticks ops mm w = do {
     let w = setTimer mm 0xffffffff 1 42 False True w;
     let w = io_outb ops 0x61 0x01 w;
     let w = io_outb ops 0x43 0xB0 w;
     let w = io_outb ops 0x42 0xFF w;
     let w = io_outb ops 0x42 0xFF w;
     let (ticks, w) = lapic_read mm ccr_reg w;
     w \<leftarrow> wait_pit ops w;
     let (now, w) = lapic_read mm ccr_reg w;
     let ticks = ticks - now;
     let w = setTimer mm 0 1 42 False True w;
     (freq, _) \<leftarrow> div64 (ucast ticks * 1000 * 1000) (838 * 65535);
     Some (ucast freq, w) }"

end
