(* ===== verification/ApicSystem.thy ===== *)
theory ApicSystem
  imports Acpi MpTable Lapic
begin

section \<open>machine/apicsystem: detecting and starting the processors\<close>

text \<open>
  The state of \<^verbatim>\<open>APICSystem\<close>. \<^verbatim>\<open>sys_conf\<close> points to one of the two configurations, so it is the
  flag \<open>use_acpi\<close>. What the CPUs share while one boots another (the cell \<^verbatim>\<open>callout_cpu_number\<close>, the
  stack pointer for the new CPU and two words of the BIOS data area) is part of the hardware \<open>'w\<close>,
  reached through \<open>boot_ops\<close>, since the other CPU changes it. \<open>None\<close> is a wait that does not end or
  an access outside an array.
\<close>

datatype system_type = MP_APIC | UP_APIC | UNDETECTED

record apic_system =
  sys_type :: system_type
  onlineCPUs :: u32
  compatibilityMode :: u8
  sys_info :: cpu_info
  cpuID :: "u8 list"
  logicalLAPICID :: "u8 list"
  relocatedSetupAP :: u32
  mps_conf :: system_configuration
  acpi_conf :: system_configuration
  use_acpi :: bool

definition sys_conf :: "apic_system \<Rightarrow> system_configuration" where
  "sys_conf sys = (if use_acpi sys then acpi_conf sys else mps_conf sys)"

definition set_sys_conf :: "system_configuration \<Rightarrow> apic_system \<Rightarrow> apic_system" where
  "set_sys_conf conf sys = (if use_acpi sys then sys\<lparr>acpi_conf := conf\<rparr> else sys\<lparr>mps_conf := conf\<rparr>)"

definition getLogicalLAPICID :: "apic_system \<Rightarrow> u8 \<Rightarrow> u8" where
  "getLogicalLAPICID sys cpu = logicalLAPICID sys ! unat cpu"

subsection \<open>Detection\<close>

definition disablePICs :: "'w port_ops \<Rightarrow> 'w \<Rightarrow> 'w" where
  "disablePICs ops w = io_outb ops 0x23 0x01 (io_outb ops 0x22 0x70 w)"

text \<open>The places where the structure may be, tried until one gives more than one CPU.\<close>

fun search_places ::
  "mem \<Rightarrow> (u32 \<times> nat) list \<Rightarrow> system_configuration \<times> cpu_info \<times> u8 \<Rightarrow> (system_configuration \<times> cpu_info \<times> u8) option"
where
  "search_places m [] s = Some s"
| "search_places m ((base, len) # places) s = do {
     (found, s) \<leftarrow> searchConfig m base len s;
     if found then Some s else search_places m places s }"

definition mp_places :: "mem \<Rightarrow> (u32 \<times> nat) list" where
  "mp_places m = [(push_bit 4 (ucast (load16 m 0x40e)), 1024), (ucast (load16 m 0x413) * 1024, 1024),
     (511 * 1024, 1024), (639 * 1024, 1024), (0xf0000, 0x10000)]"

definition detectSystemType :: "'w port_ops \<Rightarrow> mem \<Rightarrow> apic_system \<Rightarrow> 'w \<Rightarrow> (apic_system \<times> 'w) option" where
  "detectSystemType ops m sys w = do {
     (mps, info, cmode) \<leftarrow> search_places m (mp_places m) (mps_conf sys, sys_info sys, compatibilityMode sys);
     acpi \<leftarrow> queryACPI m (acpi_conf sys);
     let acpi = generateIRQMap acpi;
     let sys = sys\<lparr>mps_conf := mps, sys_info := info, compatibilityMode := cmode, acpi_conf := acpi,
       use_acpi := cpu_count mps \<le> cpu_count acpi\<rparr>;
     let w = (if conf_disablePICs (sys_conf sys) then disablePICs ops w else w);
     let sys = (if 1 < cpu_count (sys_conf sys) then sys\<lparr>sys_type := MP_APIC\<rparr>
                else let sys = (if sint (ioapic_id (sys_conf sys)) < 0 then sys\<lparr>sys_type := UNDETECTED\<rparr> else sys)
                     in sys\<lparr>sys_type := UP_APIC\<rparr>);
     Some (if sys_type sys \<noteq> MP_APIC then (set_sys_conf ((sys_conf sys)\<lparr>cpu_count := 1\<rparr>) sys)\<lparr>onlineCPUs := 1\<rparr> else sys, w) }"

text \<open>\<open>None\<close>: the identification of the local APIC is not an index of \<^verbatim>\<open>cpuID\<close>.\<close>

definition getCPUID :: "'w mm_ops \<Rightarrow> apic_system \<Rightarrow> 'w \<Rightarrow> (u8 \<times> 'w) option" where
  "getCPUID mm sys w =
     (if sys_type sys = UNDETECTED then Some (0, w)
      else let (i, w) = getLAPICID mm w
           in if unat i < length (cpuID sys) then Some (cpuID sys ! unat i, w) else None)"

subsection \<open>Names of processors\<close>

definition model_defs :: "string list" where
  "model_defs = [''80486DX'', ''80486DX'', ''80486SX'', ''80486DX/2 or 80487'', ''80486SL'', ''Intel5X2(tm)'',
     ''Unknown'', ''Unknown'', ''80486DX/4'']"

definition p6_model :: "u32 \<Rightarrow> string" where
  "p6_model model =
     (if model = 0x01 then ''Pentium Pro''
      else if model = 0x03 then ''Pentium II (model 3)''
      else if model = 0x05 then ''Pentium II (model 5) or Celeron''
      else if model = 0x06 then ''Mobile Pentium II or Celeron''
      else if model = 0x07 then ''Pentium III (model 7)''
      else if model = 0x08 then ''Pentium III (model 8) or Celeron''
      else if model \<in> {0x15, 0x0D, 0x09} then ''Pentium M''
      else if model = 0x0A then ''Pentium III Xeon (model A)''
      else if model = 0x0B then ''Mobile Pentium III or Celeron''
      else if model = 0x0E then ''Core (Yonah)''
      else if model \<in> {0x16, 0x17, 0x0F, 0x1D} then ''Core 2''
      else if model \<in> {0x1E, 0x1F, 0x1A, 0x2E} then ''Core-i (Nehalm)''
      else if model \<in> {0x2A, 0x2D} then ''Core-i (Sandy Bridge)''
      else if model \<in> {0x25, 0x2C, 0x2F} then ''Core-i (Westmere)''
      else if model \<in> {0x3E, 0x3A} then ''Core-i (Ivy Bridge)''
      else if model \<in> {0x3C, 0x3F, 0x45, 0x46} then ''Core-i (Haswell)''
      else if model = 0x3D then ''Core-i (Broadwell)''
      else if model = 0x4A then ''Intel Edison''
      else if model \<in> {0x1C, 0x26, 0x27, 0x35, 0x5A, 0x5D, 0x36} then ''Atom''
      else if model \<in> {0x37, 0x4D} then ''Atom or Pentium or Celeron''
      else ''P6 family'')"

definition getCPUModel :: "cpu_info \<Rightarrow> nat \<Rightarrow> string" where
  "getCPUModel info cpu =
     (let family = cpuFamily info ! cpu; model = cpuModel info ! cpu
      in if family = 0x04 \<and> model <s 9 then model_defs ! unat model
         else if family = 0x5 then if model = 4 \<or> model = 8 then ''Pentium with MMX technology'' else ''Pentium''
         else if family = 0x6 then p6_model model
         else if family = 0x0F
         then if model = 0x03 \<or> model = 0x04 then ''Pentium 4/Xeon''
              else if model = 0x06 then ''Pentium 4''
              else if model = 0x0F then ''Special controller''
              else ''Unknown Intel CPU''
         else ''Unknown CPU'')"

subsection \<open>Waiting\<close>

definition pit_count :: "'w port_ops \<Rightarrow> 'w \<Rightarrow> u32 \<times> 'w" where
  "pit_count ops w =
     (let w = io_outb ops 0x43 0x00 w; (lo, w) = io_inb ops 0x40 w; (hi, w) = io_inb ops 0x40 w
      in (ucast lo OR push_bit 8 (ucast hi), w))"

partial_function (option) delay_loop :: "'w port_ops \<Rightarrow> u32 \<Rightarrow> 'w \<Rightarrow> 'w option" where
  "delay_loop ops prev_count w =
     (let (curr_count, w) = pit_count ops w; delta = curr_count - prev_count
      in if delta <s 300 then delay_loop ops curr_count w else Some w)"

fun delay :: "'w port_ops \<Rightarrow> nat \<Rightarrow> 'w \<Rightarrow> 'w option" where
  "delay ops 0 w = Some w"
| "delay ops (Suc wraparounds) w = do {
     let (curr_count, w) = pit_count ops w;
     w \<leftarrow> delay_loop ops curr_count w;
     delay ops wraparounds w }"

subsection \<open>Interprocessor interrupts\<close>

definition DESTINATION_SHORTHAND_NO :: u32 where "DESTINATION_SHORTHAND_NO = 0"
definition IPI_TRIGGER_EDGE :: u32 where "IPI_TRIGGER_EDGE = 0"
definition IPI_TRIGGER_LEVEL :: u32 where "IPI_TRIGGER_LEVEL = 1"
definition LEVEL_DEASSERT :: u32 where "LEVEL_DEASSERT = 0"
definition LEVEL_ASSERT :: u32 where "LEVEL_ASSERT = 1"
definition IPI_PHYSICAL :: u32 where "IPI_PHYSICAL = 0"
definition IPI_LOGICAL :: u32 where "IPI_LOGICAL = 1"
definition DELIVERY_MODE_FIXED :: u32 where "DELIVERY_MODE_FIXED = 0"
definition DELIVERY_MODE_INIT :: u32 where "DELIVERY_MODE_INIT = 5"
definition DELIVERY_MODE_STARTUP :: u32 where "DELIVERY_MODE_STARTUP = 6"

text \<open>\<open>junk\<close> is what the stack holds in the place of the local struct, of which some fields are set.\<close>

definition init_ipi :: "u32 \<Rightarrow> u32" where
  "init_ipi junk =
     (let ipi = setf ICR_destination_shorthand DESTINATION_SHORTHAND_NO junk;
          ipi = setf ICR_trigger_mode IPI_TRIGGER_LEVEL ipi;
          ipi = setf ICR_level LEVEL_ASSERT ipi;
          ipi = setf ICR_destination_mode IPI_PHYSICAL ipi;
          ipi = setf ICR_delivery_mode DELIVERY_MODE_INIT ipi;
          ipi = setf ICR_vector 0 ipi
      in setf ICR_delivery_status 0 ipi)"

definition startup_ipi :: "u32 \<Rightarrow> u32 \<Rightarrow> u32" where
  "startup_ipi start_eip junk =
     (let ipi = setf ICR_destination_shorthand DESTINATION_SHORTHAND_NO junk;
          ipi = setf ICR_trigger_mode IPI_TRIGGER_EDGE ipi;
          ipi = setf ICR_level LEVEL_DEASSERT ipi;
          ipi = setf ICR_destination_mode IPI_PHYSICAL ipi;
          ipi = setf ICR_delivery_mode DELIVERY_MODE_STARTUP ipi;
          ipi = setf ICR_vector (drop_bit 12 start_eip) ipi
      in setf ICR_delivery_status 0 ipi)"

definition custom_ipi :: "u8 \<Rightarrow> u32 \<Rightarrow> u32" where
  "custom_ipi vector junk =
     (let ipi = setf ICR_destination_shorthand DESTINATION_SHORTHAND_NO junk;
          ipi = setf ICR_level LEVEL_ASSERT ipi;
          ipi = setf ICR_destination_mode IPI_LOGICAL ipi;
          ipi = setf ICR_delivery_mode DELIVERY_MODE_FIXED ipi
      in setf ICR_vector (ucast vector) ipi)"

definition sendCustomIPI :: "'w mm_ops \<Rightarrow> u8 \<Rightarrow> u8 \<Rightarrow> u32 \<Rightarrow> 'w \<Rightarrow> 'w option" where
  "sendCustomIPI mm logicalDestination vector junk w = sendIPI mm logicalDestination (custom_ipi vector junk) w"

subsection \<open>Starting a processor\<close>

record 'w boot_ops =
  b_callout :: "'w \<Rightarrow> u8 \<times> 'w"
  b_set_callout :: "u8 \<Rightarrow> 'w \<Rightarrow> 'w"
  b_set_stack :: "u32 \<Rightarrow> 'w \<Rightarrow> 'w"
  b_poke16 :: "u32 \<Rightarrow> u16 \<Rightarrow> 'w \<Rightarrow> 'w"

text \<open>The wait for the delivery of a startup IPI, with \<open>n + 1\<close> rounds left.\<close>

fun wait_startup :: "'w port_ops \<Rightarrow> 'w mm_ops \<Rightarrow> nat \<Rightarrow> 'w \<Rightarrow> (bool \<times> 'w) option" where
  "wait_startup ops mm n w = do {
     w \<leftarrow> delay ops 1 w;
     let (delivered, w) = isIPIDelivered mm w;
     case n of
       0 \<Rightarrow> Some (delivered, w)
     | Suc n' \<Rightarrow> if \<not> delivered then wait_startup ops mm n' w else Some (delivered, w) }"

declare wait_startup.simps [simp del]

fun send_startups ::
  "'w port_ops \<Rightarrow> 'w mm_ops \<Rightarrow> u8 \<Rightarrow> u32 \<Rightarrow> u32 \<Rightarrow> nat \<Rightarrow> 'w \<Rightarrow> (bool \<times> 'w) option"
where
  "send_startups ops mm lid eip junk 0 w = Some (False, w)"
| "send_startups ops mm lid eip junk (Suc n) w = do {
     w \<leftarrow> sendIPI mm lid (startup_ipi eip junk) w;
     (delivered, w) \<leftarrow> wait_startup ops mm 9 w;
     if delivered then Some (True, w) else send_startups ops mm lid eip junk n w }"

fun wait_callin :: "'w port_ops \<Rightarrow> 'w boot_ops \<Rightarrow> nat \<Rightarrow> 'w \<Rightarrow> (bool \<times> 'w) option" where
  "wait_callin ops bt 0 w = Some (False, w)"
| "wait_callin ops bt (Suc n) w =
     (let (c, w) = b_callout bt w
      in if c = -1 then Some (True, w) else do { w \<leftarrow> delay ops 1 w; wait_callin ops bt n w })"

definition bootCPU ::
  "'w port_ops \<Rightarrow> 'w mm_ops \<Rightarrow> 'w boot_ops \<Rightarrow> u32 \<Rightarrow> u32 \<Rightarrow> u32 \<Rightarrow> apic_system \<Rightarrow> 'w \<Rightarrow> (bool \<times> apic_system \<times> 'w) option"
where
  "bootCPU ops mm bt cpu_id top_of_stack junk sys w =
     (if length (lapic_id (sys_conf sys)) \<le> unat cpu_id then None
      else let lid = ucast (lapic_id (sys_conf sys) ! unat cpu_id);
               w = b_set_stack bt top_of_stack w;
               start_eip = relocatedSetupAP sys;
               vector = ucast (drop_bit 12 start_eip AND 0xff) :: u8
           in if start_eip AND NOT 0x000ff000 \<noteq> 0 \<or> (0xa0 \<le> vector \<and> vector \<le> 0xbf) then Some (False, sys, w)
              else do {
                let w = io_outb ops 0x71 0xa (io_outb ops 0x70 0xf w);
                let w = b_poke16 bt 0x469 (ucast (drop_bit 4 start_eip)) w;
                let w = b_poke16 bt 0x467 (ucast (start_eip AND 0xf)) w;
                let w = b_set_callout bt (-1) w;
                w \<leftarrow> sendIPI mm lid (init_ipi junk) w;
                w \<leftarrow> delay ops 2 w;
                w \<leftarrow> sendIPI mm lid (setf ICR_level LEVEL_DEASSERT (init_ipi junk)) w;
                let (external, w) = isExternalAPIC mm w;
                (delivered, w) \<leftarrow> (if \<not> external then send_startups ops mm lid start_eip junk 2 w else Some (False, w));
                if delivered
                then do {
                  let w = b_set_callout bt (ucast cpu_id) w;
                  (booted, w) \<leftarrow> wait_callin ops bt 500 w;
                  Some (booted, if booted then sys\<lparr>onlineCPUs := onlineCPUs sys + 1\<rparr> else sys, w) }
                else Some (False, sys, w) })"

partial_function (option) wait_callout :: "'w boot_ops \<Rightarrow> 'w \<Rightarrow> 'w option" where
  "wait_callout bt w = (let (c, w) = b_callout bt w in if c <s 0 then wait_callout bt w else Some w)"

definition setupThisProcessor ::
  "'w mm_ops \<Rightarrow> 'w boot_ops \<Rightarrow> apic_system \<Rightarrow> 'w \<Rightarrow> (apic_system \<times> 'w) option"
where
  "setupThisProcessor mm bt sys w = do {
     w \<leftarrow> wait_callout bt w;
     let (cpu_id, w) = b_callout bt w;
     let llapic_id = (ucast (push_bit (unat cpu_id) (1 :: u32)) :: u8);
     let w = lapic_init mm w;
     let w = setLogicalLAPICID mm llapic_id w;
     if length (logicalLAPICID sys) \<le> unat cpu_id then None
     else do {
       let sys = sys\<lparr>logicalLAPICID := (logicalLAPICID sys)[unat cpu_id := llapic_id]\<rparr>;
       let (i, w) = getLAPICID mm w;
       if length (cpuID sys) \<le> unat i then None
       else Some (sys\<lparr>cpuID := (cpuID sys)[unat i := cpu_id]\<rparr>, b_set_callout bt (-1) w) } }"

text \<open>The bytes between the two linker symbols, copied to low memory.\<close>

definition SETUP_AP_DEST :: u32 where "SETUP_AP_DEST = 0x40000"

fun copy_setup :: "u32 \<Rightarrow> u32 \<Rightarrow> nat \<Rightarrow> mem \<Rightarrow> mem" where
  "copy_setup dest src 0 m = m"
| "copy_setup dest src (Suc n) m = copy_setup (dest + 1) (src + 1) n (m(dest := m src))"

definition copySetupAPtoLowMem :: "u32 \<Rightarrow> u32 \<Rightarrow> apic_system \<Rightarrow> mem \<Rightarrow> apic_system \<times> mem" where
  "copySetupAPtoLowMem start stop sys m =
     (sys\<lparr>relocatedSetupAP := SETUP_AP_DEST\<rparr>, copy_setup SETUP_AP_DEST start (if start < stop then unat (stop - start) else 0) m)"

lemma custom_ipi_unset: "getf ICR_trigger_mode (custom_ipi vector junk) = getf ICR_trigger_mode junk"
proof -
  have "fits ICR_trigger_mode" "fits ICR_destination_shorthand" "fits ICR_level" "fits ICR_destination_mode"
    "fits ICR_delivery_mode" "fits ICR_vector"
    "apart ICR_trigger_mode ICR_destination_shorthand" "apart ICR_trigger_mode ICR_level"
    "apart ICR_trigger_mode ICR_destination_mode" "apart ICR_trigger_mode ICR_delivery_mode" "apart ICR_trigger_mode ICR_vector"
    by (simp_all add: fits_def apart_def ICR_trigger_mode_def ICR_destination_shorthand_def ICR_level_def
        ICR_destination_mode_def ICR_delivery_mode_def ICR_vector_def)
  then show ?thesis by (simp add: custom_ipi_def Let_def getf_setf_other)
qed

end
