(* ===== verification/ApicProps.thy ===== *)
theory ApicProps
  imports ApicSystem
begin

section \<open>machine/apicsystem: properties of the detection\<close>

text \<open>
  What the code reads from the tables, compared with a list of the entries the tables hold; the
  map of the interrupts; and what happens with entries that are not known.
\<close>

subsection \<open>The entries of a MADT\<close>

datatype acpi_entry = LocalApic u8 bool | IoApicEntry u8 | Override u8 u8 u32 | OtherEntry u8 u8

fun entry_size :: "acpi_entry \<Rightarrow> nat" where
  "entry_size (LocalApic i en) = 8" | "entry_size (IoApicEntry i) = 12" | "entry_size (Override b s g) = 10"
| "entry_size (OtherEntry t l) = unat l"

fun entry_at :: "mem \<Rightarrow> u32 \<Rightarrow> acpi_entry \<Rightarrow> bool" where
  "entry_at m e (LocalApic i en) \<longleftrightarrow> m e = 0 \<and> m (e + 1) = 8 \<and> m (e + 3) = i \<and> (load32 m (e + 4) AND 1 \<noteq> 0) = en"
| "entry_at m e (IoApicEntry i) \<longleftrightarrow> m e = 1 \<and> m (e + 1) = 12 \<and> m (e + 2) = i"
| "entry_at m e (Override b s g) \<longleftrightarrow> m e = 2 \<and> m (e + 1) = 10 \<and> m (e + 2) = b \<and> m (e + 3) = s \<and> load32 m (e + 4) = g"
| "entry_at m e (OtherEntry t l) \<longleftrightarrow> m e = t \<and> m (e + 1) = l \<and> t \<notin> {0, 1, 2} \<and> l \<noteq> 0"

fun entries_at :: "mem \<Rightarrow> u32 \<Rightarrow> acpi_entry list \<Rightarrow> bool" where
  "entries_at m e [] \<longleftrightarrow> True"
| "entries_at m e (x # xs) \<longleftrightarrow> entry_at m e x \<and> entries_at m (e + of_nat (entry_size x)) xs"

text \<open>What the entries say: the enabled processors in their order, the I/O APIC, the overrides.\<close>

fun enabled :: "acpi_entry list \<Rightarrow> u8 list" where
  "enabled [] = []"
| "enabled (LocalApic i en # es) = (if en then i # enabled es else enabled es)"
| "enabled (_ # es) = enabled es"

fun io_apic_of :: "u32 \<Rightarrow> acpi_entry list \<Rightarrow> u32" where
  "io_apic_of x [] = x"
| "io_apic_of x (IoApicEntry i # es) = io_apic_of (scast i) es"
| "io_apic_of x (_ # es) = io_apic_of x es"

fun overridden :: "u8 list \<Rightarrow> acpi_entry list \<Rightarrow> u8 list" where
  "overridden irqs [] = irqs"
| "overridden irqs (Override b s g # es) = overridden (if b = 0 then irqs[unat g := s] else irqs) es"
| "overridden irqs (_ # es) = overridden irqs es"

fun mappable :: "acpi_entry \<Rightarrow> bool" where
  "mappable (Override b s g) \<longleftrightarrow> b = 0 \<longrightarrow> unat g < 24"
| "mappable _ \<longleftrightarrow> True"

definition with_entries :: "acpi_entry list \<Rightarrow> system_configuration \<Rightarrow> system_configuration" where
  "with_entries es conf =
     (let k = unat (cpu_count conf); ids = take (8 - k) (enabled es)
      in conf\<lparr>cpu_count := of_nat (k + length ids),
           lapic_id := take k (lapic_id conf) @ map ucast ids @ drop (k + length ids) (lapic_id conf),
           bsp_id := (if k = 0 \<and> ids \<noteq> [] then ucast (hd ids) else bsp_id conf),
           ioapic_id := io_apic_of (ioapic_id conf) es,
           ioapic_irqs := overridden (ioapic_irqs conf) es\<rparr>)"

lemma with_entries_nil: "sized conf \<Longrightarrow> unat (cpu_count conf) \<le> 8 \<Longrightarrow> with_entries [] conf = conf"
  by (simp add: with_entries_def Let_def)

lemma add_lapic_ok:
  assumes "sized conf" "unat (cpu_count conf) \<le> 8" "entry_at m e (LocalApic i en)"
  shows "\<exists>conf'. add_lapic m e conf (cpu_count conf \<noteq> 0) = Some (conf', cpu_count conf' \<noteq> 0) \<and> sized conf' \<and>
    unat (cpu_count conf') \<le> 8 \<and> with_entries es conf' = with_entries (LocalApic i en # es) conf"
proof (cases "en \<and> cpu_count conf \<noteq> 8")
  case False
  then consider "\<not> en" | "en" "cpu_count conf = 8" by blast
  then show ?thesis
  proof cases
    case 1
    then show ?thesis using assms by (simp add: add_lapic_def la_enabled_def with_entries_def)
  next
    case 2
    then show ?thesis using assms
      by (simp add: add_lapic_def la_enabled_def with_entries_def SYS_CPU_MAX_def)
  qed
next
  case True
  let ?k = "unat (cpu_count conf)"
  let ?c = "conf\<lparr>cpu_count := cpu_count conf + 1, lapic_id := (lapic_id conf)[?k := ucast i]\<rparr>"
  let ?conf' = "if cpu_count conf = 0 then ?c\<lparr>bsp_id := ucast i\<rparr> else ?c"
  have "?k \<noteq> 8" using True by (simp add: word_unat_eq_iff)
  then have k: "?k < 8" using assms(2) by simp
  then have k1: "unat (cpu_count conf + 1) = ?k + 1" by (simp add: unat_plus_small)
  then have nz: "cpu_count conf + 1 \<noteq> 0" by (metis add_is_0 unsigned_0 zero_neq_one)
  have u8: "unat (ucast (cpu_count conf) :: u8) = ?k"
    using k by (simp add: unsigned_ucast_eq take_bit_nat_eq_self_iff)
  have le: "\<not> (8 :: u8) \<le> ucast (cpu_count conf)" using k u8 by (simp add: word_le_nat_alt)
  have run: "add_lapic m e conf (cpu_count conf \<noteq> 0) = Some (?conf', cpu_count ?conf' \<noteq> 0)"
    using True assms(3) le nz by (simp add: add_lapic_def la_enabled_def la_apic_id_def SYS_CPU_MAX_def u8)
  have sz: "sized ?conf'" using assms(1) by (simp add: sized_def)
  have len: "length (lapic_id conf) = 8" using assms(1) by (simp add: sized_def SYS_CPU_MAX_def)
  define ids where "ids = take (8 - (?k + 1)) (enabled es)"
  have a: "take (8 - unat (cpu_count ?conf')) (enabled es) = ids" using k1 by (simp add: ids_def)
  have b: "take (8 - ?k) (enabled (LocalApic i en # es)) = i # ids" using k True by (simp add: ids_def take_Cons')
  have tk: "take (?k + 1) ((lapic_id conf)[?k := ucast i]) = take ?k (lapic_id conf) @ [ucast i]"
    using k len by (simp add: take_Suc_conv_app_nth)
  have tk0: "cpu_count conf = 0 \<longrightarrow> take (Suc 0) ((lapic_id conf)[0 := ucast i]) = [ucast i]" using tk by auto
  have "with_entries es ?conf' = with_entries (LocalApic i en # es) conf"
    unfolding with_entries_def Let_def a b using k1 nz tk tk0 by (simp add: unat_eq_zero ac_simps)
  with run sz k k1 show ?thesis by (intro exI [of _ ?conf']) simp
qed

lemma madt_entry_ok:
  assumes "sized conf" "unat (cpu_count conf) \<le> 8" "entry_at m e x" "mappable x"
  shows "\<exists>conf'. madt_entry m e conf (cpu_count conf \<noteq> 0) = Some (conf', cpu_count conf' \<noteq> 0) \<and> sized conf' \<and>
    unat (cpu_count conf') \<le> 8 \<and> with_entries es conf' = with_entries (x # es) conf"
proof (cases x)
  case (LocalApic i en)
  then show ?thesis using add_lapic_ok [OF assms(1,2), of m e i en] assms(3)
    by (simp add: madt_entry_def as_type_def LOCAL_APIC_def)
next
  case (IoApicEntry i)
  then show ?thesis using assms
    by (simp add: madt_entry_def as_type_def LOCAL_APIC_def IO_APIC_def io_apic_id_def with_entries_def sized_def Let_def)
next
  case (Override b s g)
  then show ?thesis using assms
    by (auto simp: madt_entry_def as_type_def LOCAL_APIC_def IO_APIC_def SOURCE_OVERRIDE_def add_override_def so_bus_def
        so_source_def so_interrupt_def with_entries_def sized_def Let_def)
next
  case (OtherEntry t l)
  then show ?thesis using assms
    by (simp add: madt_entry_def as_type_def LOCAL_APIC_def IO_APIC_def SOURCE_OVERRIDE_def with_entries_def)
qed

lemma entry_length: "entry_at m e x \<Longrightarrow> unat (as_length m e) = entry_size x \<and> as_length m e \<noteq> 0 \<and> 0 < entry_size x"
  by (cases x) (auto simp: as_length_def unat_gt_0)

lemma madt_loop_ok:
  assumes "entries_at m (of_nat a) es" "sized conf" "unat (cpu_count conf) \<le> 8" "\<forall>x \<in> set es. mappable x"
    "stop = a + sum_list (map entry_size es)" "stop < 2 ^ 32"
  shows "madt_loop m (of_nat a) (of_nat stop) conf (cpu_count conf \<noteq> 0) = Some (with_entries es conf)"
  using assms
proof (induction es arbitrary: a conf)
  case Nil
  then show ?case by (subst madt_loop.simps) (simp add: with_entries_nil)
next
  case (Cons x es)
  have x: "entry_at m (of_nat a) x" "mappable x" using Cons.prems by simp_all
  note len = entry_length [OF x(1)]
  obtain conf' where c: "madt_entry m (of_nat a) conf (cpu_count conf \<noteq> 0) = Some (conf', cpu_count conf' \<noteq> 0)" "sized conf'"
    "unat (cpu_count conf') \<le> 8" "with_entries es conf' = with_entries (x # es) conf"
    using madt_entry_ok [OF Cons.prems(2,3) x] by blast
  have "(of_nat a :: u32) < of_nat stop" using Cons.prems(5,6) len by (subst of_nat_less_word) auto
  moreover have "as_next m (of_nat a) = of_nat (a + entry_size x)"
  proof -
    have "ucast (as_length m (of_nat a)) = (of_nat (unat (as_length m (of_nat a))) :: u32)" by simp
    then show ?thesis using len by (simp add: as_next_def)
  qed
  moreover have "madt_loop m (of_nat (a + entry_size x)) (of_nat stop) conf' (cpu_count conf' \<noteq> 0) = Some (with_entries es conf')"
    by (rule Cons.IH) (use Cons.prems c in auto)
  ultimately show ?case using c len by (subst madt_loop.simps) simp
qed

text \<open>Property C29. The configuration that is read from the ACPI is what the entries of the MADT say:
  the enabled processors in their order, at most eight of them, the first one as the boot processor;
  the last I/O APIC; the interrupt overrides of the ISA bus; and whether the old interrupt controllers
  must be switched off. Entries of other types are skipped and the loop ends.\<close>

theorem acpi_configuration:
  assumes "rsdp_find m = p" "p \<noteq> 0" "find_madt m (getRSDTPtr m p) = of_nat t" "of_nat t \<noteq> (0 :: u32)"
    and "entries_at m (of_nat (t + 44)) es" "sdt_length m (of_nat t) = of_nat (44 + sum_list (map entry_size es))"
    and "t + 44 + sum_list (map entry_size es) < 2 ^ 32" "\<forall>x \<in> set es. mappable x" "length ids = 8"
    and "cpus = take 8 (enabled es)"
  shows "\<exists>conf. queryACPI m (new_configuration ids) = Some conf \<and> unat (cpu_count conf) = length cpus \<and>
    take (length cpus) (lapic_id conf) = map ucast cpus \<and> (cpus \<noteq> [] \<longrightarrow> bsp_id conf = ucast (hd cpus)) \<and>
    ioapic_id conf = io_apic_of (-1) es \<and> ioapic_irqs conf = overridden (replicate 24 (-1)) es \<and>
    conf_disablePICs conf = has_PCAT_COMPAT m (of_nat t)"
proof -
  let ?conf = "(new_configuration ids)\<lparr>conf_disablePICs := has_PCAT_COMPAT m (of_nat t)\<rparr>"
  let ?stop = "t + 44 + sum_list (map entry_size es)"
  have c: "sized ?conf" "cpu_count ?conf = 0" using assms(9) by (simp_all add: sized_def new_configuration_def SYS_CPU_MAX_def)
  have addr: "madt_first (of_nat t) = of_nat (t + 44)" "madt_rear m (of_nat t) = of_nat ?stop"
    using assms(6) by (simp_all add: madt_first_def sizeof_madt_def sizeof_sdt_def madt_rear_def)
  have "madt_loop m (of_nat (t + 44)) (of_nat ?stop) ?conf False = Some (with_entries es ?conf)"
    using madt_loop_ok [OF assms(5) c(1) _ assms(8) _ assms(7)] c(2) by simp
  moreover have "queryACPI m (new_configuration ids) = madt_loop m (madt_first (of_nat t)) (madt_rear m (of_nat t)) ?conf False"
    using assms(1-4) by (simp add: queryACPI_def Let_def new_configuration_def)
  moreover have "unat (of_nat (length cpus) :: u32) = length cpus" using assms(10) by (intro unat_of_nat_small) simp
  ultimately show ?thesis using addr c(2) assms(10)
    by (simp add: with_entries_def Let_def new_configuration_def)
qed

text \<open>A memory with these tables for one machine.\<close>

definition bytes4 :: "u32 \<Rightarrow> u8 list" where
  "bytes4 v = [ucast v, ucast (drop_bit 8 v), ucast (drop_bit 16 v), ucast (drop_bit 24 v)]"

definition text_bytes :: "string \<Rightarrow> u8 list" where "text_bytes s = map of_char s"

definition demo_rsdp :: "u8 list" where
  "demo_rsdp = text_bytes ''RSD PTR '' @ [0xdb] @ replicate 6 0 @ [0] @ bytes4 0x9fd00"
definition demo_rsdt :: "u8 list" where
  "demo_rsdt = text_bytes ''RSDT'' @ bytes4 40 @ replicate 28 0 @ bytes4 0x9fe00"
definition demo_madt :: "u8 list" where
  "demo_madt = text_bytes ''APIC'' @ bytes4 82 @ replicate 32 0 @ bytes4 1 @
     [0, 8, 0, 3] @ bytes4 1 @ [0, 8, 1, 5] @ bytes4 1 @ [1, 12, 9, 0] @ replicate 8 0 @ [2, 10, 0, 0] @ bytes4 2 @ [0, 0]"

definition demo_tables :: mem where
  "demo_tables a =
     (if 0x40e \<le> a \<and> a < 0x412 then bytes4 0x9fc00 ! unat (a - 0x40e)
      else if 0x9fc00 \<le> a \<and> a < 0x9fc14 then demo_rsdp ! unat (a - 0x9fc00)
      else if 0x9fd00 \<le> a \<and> a < 0x9fd28 then demo_rsdt ! unat (a - 0x9fd00)
      else if 0x9fe00 \<le> a \<and> a < 0x9fe52 then demo_madt ! unat (a - 0x9fe00)
      else 0)"

definition demo_entries :: "acpi_entry list" where
  "demo_entries = [LocalApic 3 True, LocalApic 5 True, IoApicEntry 9, Override 0 0 2]"

lemma demo_rsdp_found: "rsdp_find demo_tables = 0x9fc00"
proof -
  have "load32 demo_tables 0x9fc00 = chars_to_uint32 CHR ''R'' CHR ''S'' CHR ''D'' CHR '' ''"
    "load32 demo_tables (0x9fc00 + 4) = chars_to_uint32 CHR ''P'' CHR ''T'' CHR ''R'' CHR '' ''"
    "rsdp_check_sum demo_tables 0x9fc00" by code_simp+
  then have "rsdp_search demo_tables 0x9fc00 (Suc 63) = 0x9fc00" by (simp only: rsdp_search.simps simp_thms if_True)
  moreover have "load32 demo_tables 0x40e = 0x9fc00" by code_simp
  ultimately show ?thesis by (simp add: rsdp_find_def rsdp_find_in_def Let_def)
qed

lemma demo_madt_found: "find_madt demo_tables (getRSDTPtr demo_tables 0x9fc00) = 0x9fe00"
proof -
  have "getRSDTPtr demo_tables 0x9fc00 = 0x9fd00" "sdt_length demo_tables 0x9fd00 = 40" "getSDTPtr demo_tables 0x9fd00 0 = 0x9fe00"
    "sdt_type demo_tables 0x9fe00 = MADT_type" by code_simp+
  then show ?thesis by (simp add: find_madt_def getNumSDTPtrs_def sizeof_sdt_def)
qed

lemma demo_tables_ok: "entries_at demo_tables 0x9fe2c demo_entries" "sdt_length demo_tables 0x9fe00 = 82"
  by code_simp+

theorem acpi_configuration_witness:
  "\<exists>conf. queryACPI demo_tables (new_configuration (replicate 8 0)) = Some conf \<and> unat (cpu_count conf) = 2 \<and>
     take 2 (lapic_id conf) = [3, 5] \<and> bsp_id conf = 3 \<and> ioapic_id conf = 9"
proof -
  let ?t = "0x9fe00 :: nat"
  have e: "enabled demo_entries = [3, 5]" "io_apic_of (-1) demo_entries = 9" "\<forall>x \<in> set demo_entries. mappable x"
    "sum_list (map entry_size demo_entries) = 38"
    by (simp_all add: demo_entries_def)
  have t: "find_madt demo_tables (getRSDTPtr demo_tables 0x9fc00) = of_nat ?t" "(of_nat ?t :: u32) \<noteq> 0"
    "entries_at demo_tables (of_nat (?t + 44)) demo_entries"
    "sdt_length demo_tables (of_nat ?t) = of_nat (44 + sum_list (map entry_size demo_entries))"
    using demo_madt_found demo_tables_ok by (simp_all add: e(4))
  have r: "(0x9fc00 :: u32) \<noteq> 0" "?t + 44 + sum_list (map entry_size demo_entries) < 2 ^ 32" "length (replicate 8 (0 :: u32)) = 8"
    "[3, 5] = take 8 (enabled demo_entries)"
    by (simp_all add: e(1,4))
  obtain conf where c: "queryACPI demo_tables (new_configuration (replicate 8 0)) = Some conf" "unat (cpu_count conf) = length [3, 5 :: u8]"
    "take (length [3, 5 :: u8]) (lapic_id conf) = map ucast [3, 5 :: u8]" "[3, 5 :: u8] \<noteq> [] \<longrightarrow> bsp_id conf = ucast (hd [3, 5 :: u8])"
    "ioapic_id conf = io_apic_of (-1) demo_entries"
    using acpi_configuration [OF demo_rsdp_found r(1) t r(2) e(3) r(3,4)] by blast
  have l: "length [3, 5 :: u8] = 2" "map ucast [3, 5 :: u8] = [3, 5 :: u32]" by simp_all
  have b: "bsp_id conf = 3" using c(4) by simp
  show ?thesis using c(1) c(2,3) [unfolded l] b c(5) [unfolded e(2)] by blast
qed

subsection \<open>The map of the interrupts\<close>

text \<open>The second loop: the last slot that is wired to a device counts.\<close>

definition last_slot :: "u8 list \<Rightarrow> nat \<Rightarrow> nat \<Rightarrow> u8 \<Rightarrow> u8" where
  "last_slot irqs d n x = fold (\<lambda>i x. if sint (irqs ! i) = int d then of_nat i else x) [0..<n] x"

lemma slots_ok:
  assumes "d < 16" "length slots = 16"
  shows "fold (slot_of irqs) [0..<n] slots ! d = last_slot irqs d n (slots ! d) \<and> length (fold (slot_of irqs) [0..<n] slots) = 16"
proof (induction n)
  case 0
  then show ?case using assms by (simp add: last_slot_def)
next
  case (Suc n)
  let ?s = "fold (slot_of irqs) [0..<n] slots"
  have IH: "?s ! d = last_slot irqs d n (slots ! d)" "length ?s = 16" using Suc by simp_all
  have l: "length (fold (slot_of irqs) [0..<Suc n] slots) = 16" using IH(2) by (simp add: slot_of_def Let_def)
  have "fold (slot_of irqs) [0..<Suc n] slots ! d = (if sint (irqs ! n) = int d then of_nat n else ?s ! d)"
    using assms(1) IH(2) by (auto simp: slot_of_def Let_def nth_list_update)
  then show ?case using IH(1) l by (simp add: last_slot_def)
qed

lemma last_slot_none: "(\<forall>i < n. sint (irqs ! i) \<noteq> int d) \<Longrightarrow> last_slot irqs d n x = x"
  by (induction n) (auto simp: last_slot_def)

lemma last_slot_some:
  assumes "k < n" "sint (irqs ! k) = int d" "\<forall>i. k < i \<and> i < n \<longrightarrow> sint (irqs ! i) \<noteq> int d"
  shows "last_slot irqs d n x = of_nat k"
  using assms
proof (induction n)
  case (Suc n)
  show ?case
  proof (cases "k = n")
    case False
    then have "last_slot irqs d n x = of_nat k" using Suc by auto
    moreover have "sint (irqs ! n) \<noteq> int d" using Suc.prems False by auto
    ultimately show ?thesis by (simp add: last_slot_def)
  qed (use Suc.prems in \<open>simp add: last_slot_def\<close>)
qed simp

lemma legacy_ok:
  assumes "length irqs = 24"
  shows "length (legacy_irqs irqs) = 24" "i < 24 \<Longrightarrow> legacy_irqs irqs ! i = (if i < 16 \<and> irqs ! i = -1 then of_nat i else irqs ! i)"
proof -
  have *: "length (fold (\<lambda>i irqs. if irqs ! i = -1 then irqs[i := of_nat i] else irqs) [0..<n] irqs) = 24 \<and>
    (\<forall>i < 24. fold (\<lambda>i irqs. if irqs ! i = -1 then irqs[i := of_nat i] else irqs) [0..<n] irqs ! i =
      (if i < n \<and> irqs ! i = -1 then of_nat i else irqs ! i))" if "n \<le> 16" for n
    using that
  proof (induction n)
    case (Suc n)
    then show ?case using assms by (auto simp: nth_list_update less_Suc_eq)
  qed (use assms in simp)
  from * [of 16] show "length (legacy_irqs irqs) = 24"
    "i < 24 \<Longrightarrow> legacy_irqs irqs ! i = (if i < 16 \<and> irqs ! i = -1 then of_nat i else irqs ! i)"
    by (simp_all add: legacy_irqs_def)
qed

lemma small_sint: "n < 24 \<Longrightarrow> sint (of_nat n :: u8) = int n"
  by (simp add: signed_of_nat signed_take_bit_int_eq_self)

text \<open>An interrupt override wires a device of the ISA bus to another pin of the I/O APIC.
  The map from devices to pins that is made from it follows the override only if the pin has a higher
  number than the interrupt; an override to a lower pin is lost, because the default entry of the
  device is met later. All other devices keep the pin with their own number, but for the one whose pin
  was taken.\<close>

theorem irq_override_lost:
  assumes "sized conf" "ioapic_irqs conf = (replicate 24 (-1))[g := of_nat s]" "s < 16" "g < 24"
  shows "slot_map (generateIRQMap conf) ! s = of_nat (max s g) \<and>
    (\<forall>d < 16. d \<noteq> s \<longrightarrow> slot_map (generateIRQMap conf) ! d = (if d = g then slot_map conf ! d else of_nat d))"
proof -
  let ?irqs = "legacy_irqs (ioapic_irqs conf)"
  have len: "length (ioapic_irqs conf) = 24" "length (slot_map conf) = 16" using assms(1) by (simp_all add: sized_def)
  have ne: "(of_nat s :: u8) \<noteq> -1"
  proof
    assume "(of_nat s :: u8) = -1"
    then have "sint (of_nat s :: u8) = -1" by simp
    with small_sint [of s] assms(3) show False by simp
  qed
  have sint: "sint (?irqs ! i) = (if i = g then int s else if i < 16 then int i else -1)" if "i < 24" for i
    using that assms(2-4) legacy_ok(2) [OF len(1)] small_sint ne by (auto simp: nth_list_update)
  have slot: "slot_map (generateIRQMap conf) ! d = last_slot ?irqs d 24 (slot_map conf ! d)" if "d < 16" for d
    using slots_ok [OF that len(2)] by (simp add: generateIRQMap_def Let_def)
  have "last_slot ?irqs s 24 x = of_nat (max s g)" for x
    by (rule last_slot_some) (use sint assms(3,4) in \<open>auto simp: max_def\<close>)
  moreover have "last_slot ?irqs d 24 x = (if d = g then x else of_nat d)" if "d < 16" "d \<noteq> s" for d x
  proof (cases "d = g")
    case True
    then show ?thesis using that sint by (simp add: last_slot_none)
  next
    case False
    have "last_slot ?irqs d 24 x = of_nat d" by (rule last_slot_some) (use that sint False in auto)
    with False show ?thesis by simp
  qed
  ultimately show ?thesis using slot assms(3) by simp
qed

theorem irq_override_lost_witness:
  "getIOAPICSlot (generateIRQMap ((new_configuration (replicate 8 0))\<lparr>ioapic_irqs := (replicate 24 (-1))[0 := of_nat 8]\<rparr>)) Rtc = 8"
proof -
  let ?c = "(new_configuration (replicate 8 0))\<lparr>ioapic_irqs := (replicate 24 (-1))[0 := of_nat 8]\<rparr>"
  have "sized ?c" "ioapic_irqs ?c = (replicate 24 (-1))[0 := of_nat 8]"
    by (simp_all add: sized_def new_configuration_def SYS_CPU_MAX_def del: of_nat_numeral)
  from irq_override_lost [OF this] show ?thesis by (simp add: getIOAPICSlot_def)
qed

subsection \<open>The MP table\<close>

text \<open>A table of the MP specification that has an entry of a type the code does not know
  stops the system: the loop neither skips the entry nor ends.\<close>

theorem unknown_mp_entry_hangs:
  assumes "count <s len" "m mpt \<notin> {MPCT_PROCESSOR, MPCT_IOAPIC, MPCT_BUS, MPCT_IOINT, MPCT_LINT}"
  shows "mpct_loop m len mpt count conf info = None"
proof -
  have "False" if "mpct_loop m len mpt count conf info = Some r" for r
  proof -
    have "\<not> (m = m \<and> len = len \<and> mpt = mpt \<and> count = count)"
      by (rule mpct_loop.raw_induct [where P = "\<lambda>a b c d e f r. \<not> (a = m \<and> b = len \<and> c = mpt \<and> d = count)", OF _ that])
        (use assms in \<open>auto split: if_splits\<close>)
    then show False by simp
  qed
  then show ?thesis by (cases "mpct_loop m len mpt count conf info") auto
qed

theorem unknown_mp_entry_hangs_witness:
  "mpct_loop (\<lambda>_. 9) 52 44 44 (new_configuration (replicate 8 0)) \<lparr>lapicVersion = [], cpuFamily = [], cpuModel = []\<rparr> = None"
  by (rule unknown_mp_entry_hangs) (simp_all add: word_sless_alt MPCT_PROCESSOR_def MPCT_IOAPIC_def MPCT_BUS_def MPCT_IOINT_def MPCT_LINT_def)

end
