(* ===== verification/Watch.thy ===== *)
theory Watch
  imports Lapic
begin

section \<open>device/watch: the timer interrupt\<close>

text \<open>
  The watch sets the local APIC timer for an interval in microseconds. \<^verbatim>\<open>windup\<close> also enters
  the watch in the plugbox, and the epilogue runs the bellringer on CPU 0 and the scheduler
  (theories \<open>Guard\<close>, \<open>Bellringer\<close> and \<open>Kernel\<close>).
\<close>

record watch =
  irq_interval :: u32
  initial_count :: u32
  timer_divide :: u8

definition new_watch :: watch where "new_watch = \<lparr>irq_interval = 0, initial_count = 0, timer_divide = 0\<rparr>"

text \<open>The loop that looks for a divider: the result is the shift, or \<open>None\<close> for an overflow.\<close>

function shift_loop :: "u64 \<Rightarrow> nat \<Rightarrow> nat option" where
  "shift_loop tmp shift =
     (if drop_bit (32 + shift) tmp \<noteq> 0
      then if 7 < shift + 1 then None else shift_loop tmp (shift + 1)
      else Some shift)"
  by pat_completeness auto
termination by (relation "measure (\<lambda>(_, shift). 8 - shift)") auto

declare shift_loop.simps [simp del]

definition windup :: "'w port_ops \<Rightarrow> 'w mm_ops \<Rightarrow> u32 \<Rightarrow> watch \<Rightarrow> 'w \<Rightarrow> (bool \<times> watch \<times> 'w) option" where
  "windup ops mm us wt w = do {
     (ticks, w) \<leftarrow> timer_ticks ops mm w;
     (tmp, _) \<leftarrow> div64 (ucast us * ucast ticks) 1000;
     case shift_loop tmp 0 of
       None \<Rightarrow> Some (False, wt, w)
     | Some shift \<Rightarrow> Some (True, wt\<lparr>irq_interval := us, initial_count := ucast (drop_bit shift tmp), timer_divide := push_bit shift 1\<rparr>, w) }"

definition watch_interval :: "watch \<Rightarrow> u32" where "watch_interval wt = irq_interval wt"

definition timer_vector :: u8 where "timer_vector = 32"

definition watch_activate :: "'w mm_ops \<Rightarrow> watch \<Rightarrow> 'w \<Rightarrow> 'w" where
  "watch_activate mm wt w = setTimer mm (initial_count wt) (timer_divide wt) timer_vector True False w"

definition watch_block :: "'w mm_ops \<Rightarrow> 'w \<Rightarrow> 'w" where "watch_block mm w = setTimerMasked mm True w"
definition watch_unblock :: "'w mm_ops \<Rightarrow> 'w \<Rightarrow> 'w" where "watch_unblock mm w = setTimerMasked mm False w"

lemma drop_zero: "drop_bit k (tmp :: u64) = 0 \<longleftrightarrow> unat tmp < 2 ^ k"
proof -
  have "drop_bit k tmp = 0 \<longleftrightarrow> unat (drop_bit k tmp) = 0" by (simp add: unat_0_iff)
  also have "\<dots> \<longleftrightarrow> unat tmp div 2 ^ k = 0" by (simp only: unat_drop_bit_div)
  finally show ?thesis by (simp add: div_eq_0_iff)
qed

lemma shift_loop_ok:
  assumes "s \<le> 7" "s = 0 \<or> 2 ^ (31 + s) \<le> unat tmp"
  shows "case shift_loop tmp s of
      None \<Rightarrow> 2 ^ 39 \<le> unat tmp
    | Some k \<Rightarrow> k \<le> 7 \<and> unat tmp < 2 ^ (32 + k) \<and> (k = 0 \<or> 2 ^ (31 + k) \<le> unat tmp)"
  using assms
proof (induction tmp s rule: shift_loop.induct)
  case (1 tmp s)
  show ?case
  proof (cases "unat tmp < 2 ^ (32 + s)")
    case True
    with 1(2,3) show ?thesis by (subst shift_loop.simps) (simp add: drop_zero)
  next
    case False
    then have big: "drop_bit (32 + s) tmp \<noteq> 0" using drop_zero by blast
    show ?thesis
    proof (cases "s = 7")
      case True
      then show ?thesis using big False by (subst shift_loop.simps) simp
    next
      case s: False
      then have "s + 1 \<le> 7" "2 ^ (31 + (s + 1)) \<le> unat tmp" using 1(2) False by simp_all
      with 1(1) [OF big] s 1(2) have "case shift_loop tmp (s + 1) of None \<Rightarrow> 2 ^ 39 \<le> unat tmp
        | Some k \<Rightarrow> k \<le> 7 \<and> unat tmp < 2 ^ (32 + k) \<and> (k = 0 \<or> 2 ^ (31 + k) \<le> unat tmp)" by fastforce
      moreover have "shift_loop tmp s = shift_loop tmp (s + 1)" using big s 1(2) by (subst shift_loop.simps) simp
      ultimately show ?thesis by simp
    qed
  qed
qed

lemma timer_div_valid:
  "k \<le> 7 \<Longrightarrow> timer_div (push_bit k 1) = [0xb, 0x0, 0x1, 0x2, 0x3, 0x8, 0x9, 0xa] ! k"
  "k \<le> 7 \<Longrightarrow> timer_div (push_bit k 1) \<noteq> 0xff"
proof -
  have "list_all (\<lambda>k. timer_div (push_bit k 1) = [0xb, 0x0, 0x1, 0x2, 0x3, 0x8, 0x9, 0xa] ! k) [0..<8]"
    "list_all (\<lambda>k. timer_div (push_bit k 1) \<noteq> 0xff) [0..<8]" by code_simp+
  then show "k \<le> 7 \<Longrightarrow> timer_div (push_bit k 1) = [0xb, 0x0, 0x1, 0x2, 0x3, 0x8, 0x9, 0xa] ! k"
    "k \<le> 7 \<Longrightarrow> timer_div (push_bit k 1) \<noteq> 0xff" by (auto simp: list_all_iff)
qed

lemma timer_div_invalid: "(\<forall>k \<le> 7. d \<noteq> push_bit k 1) \<Longrightarrow> timer_div d = 0xff"
proof -
  have "list_all (\<lambda>n. timer_div (of_nat n) = 0xff \<or> list_ex (\<lambda>k. of_nat n = (push_bit k 1 :: u8)) [0..<8]) [0..<256]"
    by code_simp
  then have "timer_div d = 0xff \<or> list_ex (\<lambda>k. d = push_bit k 1) [0..<8]" by (rule u8_all)
  then show "(\<forall>k \<le> 7. d \<noteq> push_bit k 1) \<Longrightarrow> timer_div d = 0xff" by (fastforce simp: list_ex_iff)
qed

text \<open>Property C31. For an interval of \<open>us\<close> microseconds and \<open>t\<close> timer ticks per millisecond, \<^verbatim>\<open>windup\<close>
  succeeds exactly when the number of ticks is below \<open>2 ^ 39\<close>. The divider is then the smallest of the
  eight the timer has with which the counter fits in 32 bits, and the interval that is set is at most
  one step of the divider short. On failure the watch keeps its setting. No multiplication overflows.\<close>

theorem windup_bounds:
  assumes "timer_ticks ops mm w = Some (t, w')" and "n = unat us * unat t div 1000"
  shows "\<exists>wt'. windup ops mm us wt w = Some (n < 2 ^ 39, wt', w') \<and>
    (if n < 2 ^ 39
     then irq_interval wt' = us \<and> (\<exists>k \<le> 7. timer_divide wt' = push_bit k 1 \<and>
       timer_div (timer_divide wt') \<noteq> 0xff \<and>
       unat (initial_count wt') * 2 ^ k \<le> n \<and> n < (unat (initial_count wt') + 1) * 2 ^ k \<and>
       (k = 0 \<or> 2 ^ 31 \<le> unat (initial_count wt')))
     else wt' = wt)"
proof -
  let ?tmp = "(ucast us * ucast t) div 1000 :: u64"
  have "unat us * unat t < 2 ^ 32 * 2 ^ 32" using unat_lt2p_32 [of us] unat_lt2p_32 [of t]
    by (intro mult_strict_mono) auto
  moreover have up: "unat (ucast x :: u64) = unat x" for x :: u32
    using unat_lt2p_32 [of x] by (simp add: unsigned_ucast_eq take_bit_nat_eq_self_iff)
  ultimately have "unat (ucast us * ucast t :: u64) = unat us * unat t"
    by (simp add: unat_word_ariths up take_bit_nat_eq_self_iff)
  then have n: "unat ?tmp = n" by (simp add: unat_div assms(2))
  have run: "windup ops mm us wt w = (case shift_loop ?tmp 0 of None \<Rightarrow> Some (False, wt, w')
     | Some k \<Rightarrow> Some (True, wt\<lparr>irq_interval := us, initial_count := ucast (drop_bit k ?tmp), timer_divide := push_bit k 1\<rparr>, w'))"
    by (simp add: windup_def assms(1) div64_eq)
  note l = shift_loop_ok [of 0 ?tmp]
  show ?thesis
  proof (cases "shift_loop ?tmp 0")
    case None
    then show ?thesis using l run n by auto
  next
    case (Some k)
    then have k: "k \<le> 7" "n < 2 ^ (32 + k)" "k = 0 \<or> 2 ^ (31 + k) \<le> n" using l n by auto
    have "(2 :: nat) ^ (32 + k) \<le> 2 ^ 39" using k(1) by (intro power_increasing) auto
    then have lt: "n < 2 ^ 39" using k(2) by simp
    have "unat (drop_bit k ?tmp) = n div 2 ^ k" by (simp only: unat_drop_bit_div n)
    moreover have small: "n div 2 ^ k < 2 ^ 32" using k(2) by (simp add: div_less_iff_less_mult power_add)
    ultimately have count: "unat (ucast (drop_bit k ?tmp) :: u32) = n div 2 ^ k"
      by (simp add: unsigned_ucast_eq take_bit_nat_eq_self_iff)
    have "n div 2 ^ k * 2 ^ k \<le> n" "n < (n div 2 ^ k + 1) * 2 ^ k"
      by (simp_all add: div_mult_mod_eq mult.commute dividend_less_times_div)
    moreover have "k = 0 \<or> 2 ^ 31 \<le> n div 2 ^ k" using k(3) by (auto simp: less_eq_div_iff_mult_less_eq power_add)
    moreover have "timer_div (push_bit k 1) \<noteq> 0xff"
      using timer_div_valid(2) [OF k(1)] .
    ultimately show ?thesis using run Some lt k(1) count by (auto intro!: exI [of _ k])
  qed
qed

text \<open>A timer of a million ticks per millisecond.\<close>

definition demo_mm :: "u32 mm_ops" where
  "demo_mm = \<lparr>mm_read = (\<lambda>a n. if a = LAPIC_BASE + 0x390 then (n, n - 54918330) else (0, n)), mm_write = (\<lambda>a v n. n)\<rparr>"

definition demo_ports :: "u32 port_ops" where "demo_ports = \<lparr>p_inb = (\<lambda>a n. (0x20, n)), p_outb = (\<lambda>a v n. n)\<rparr>"

lemma demo_ticks: "\<exists>w'. timer_ticks demo_ports demo_mm 0xffffffff = Some (1000000, w')"
proof -
  have "wait_pit demo_ports w = Some w" for w
    by (subst wait_pit.simps) (simp add: io_inb_def demo_ports_def)
  moreover have "setTimer demo_mm c d v p m w = w" for c d v p m w
    by (simp add: setTimer_def lapic_write_def lapic_read_def demo_mm_def Let_def case_prod_beta LAPIC_BASE_def)
  moreover have "lapic_read demo_mm ccr_reg w = (w, w - 54918330)" for w
    by (simp add: lapic_read_def demo_mm_def)
  moreover have "io_outb demo_ports a v w = w" for a v w by (simp add: io_outb_def demo_ports_def)
  ultimately show ?thesis by (simp add: timer_ticks_def div64_eq Let_def)
qed

theorem windup_bounds_witness:
  "\<exists>wt' w'. windup demo_ports demo_mm 10000000 new_watch 0xffffffff = Some (True, wt', w') \<and>
     irq_interval wt' = 10000000 \<and> unat (initial_count wt') \<le> 10000000000"
proof -
  obtain w' where "timer_ticks demo_ports demo_mm 0xffffffff = Some (1000000, w')" using demo_ticks by blast
  from windup_bounds [OF this refl, of 10000000 new_watch] obtain wt' k where
    "windup demo_ports demo_mm 10000000 new_watch 0xffffffff = Some (True, wt', w')" "irq_interval wt' = 10000000"
    "unat (initial_count wt') * 2 ^ k \<le> 10000000000" by auto
  moreover have "unat (initial_count wt') * 1 \<le> unat (initial_count wt') * 2 ^ k" by (intro mult_left_mono) auto
  ultimately show ?thesis by (intro exI [of _ wt'] exI [of _ w']) linarith
qed

end
