(* ===== verification/IoApic.thy ===== *)
theory IoApic
  imports SystemConfig
begin

section \<open>machine/ioapic: the I/O APIC\<close>

text \<open>
  The I/O APIC has an index register and a data register in memory. Each of its 24 slots has an
  entry of two registers in the redirection table.
\<close>

subsection \<open>Registers\<close>

definition IOAPICID_ID :: bitfield where "IOAPICID_ID = (24, 4)"

definition L_vector :: bitfield where "L_vector = (0, 8)"
definition L_delivery_mode :: bitfield where "L_delivery_mode = (8, 3)"
definition L_destination_mode :: bitfield where "L_destination_mode = (11, 1)"
definition L_delivery_status :: bitfield where "L_delivery_status = (12, 1)"
definition L_polarity :: bitfield where "L_polarity = (13, 1)"
definition L_remote_irr :: bitfield where "L_remote_irr = (14, 1)"
definition L_trigger_mode :: bitfield where "L_trigger_mode = (15, 1)"
definition L_mask :: bitfield where "L_mask = (16, 1)"
definition H_logical_destination :: bitfield where "H_logical_destination = (24, 8)"

lemmas L_defs = L_vector_def L_delivery_mode_def L_destination_mode_def L_delivery_status_def L_polarity_def
  L_remote_irr_def L_trigger_mode_def L_mask_def H_logical_destination_def

definition DELIVERY_MODE_LOWESTPRI :: u32 where "DELIVERY_MODE_LOWESTPRI = 1"
definition DESTINATION_MODE_LOGICAL :: u32 where "DESTINATION_MODE_LOGICAL = 1"
definition POLARITY_HIGH :: u32 where "POLARITY_HIGH = 0"
definition TRIGGER_MODE_EDGE :: u32 where "TRIGGER_MODE_EDGE = 0"
definition MASK_ENABLED :: u32 where "MASK_ENABLED = 0"
definition MASK_DISABLED :: u32 where "MASK_DISABLED = 1"
definition panic_vector :: u32 where "panic_vector = 255"

definition IOREGSEL_REG :: u32 where "IOREGSEL_REG = 0xfec00000"
definition IOWIN_REG :: u32 where "IOWIN_REG = 0xfec00010"

subsection \<open>Operations\<close>

definition ioapic_write_reg :: "'w mm_ops \<Rightarrow> u32 \<Rightarrow> u32 \<Rightarrow> 'w \<Rightarrow> 'w" where
  "ioapic_write_reg mm reg entry w = mm_write mm IOWIN_REG entry (mm_write mm IOREGSEL_REG reg w)"

definition ioapic_read_reg :: "'w mm_ops \<Rightarrow> u32 \<Rightarrow> 'w \<Rightarrow> u32 \<times> 'w" where
  "ioapic_read_reg mm reg w = mm_read mm IOWIN_REG (mm_write mm IOREGSEL_REG reg w)"

text \<open>One round of the loop of \<^verbatim>\<open>init\<close>.\<close>

definition ioapic_init_entry :: "'w mm_ops \<Rightarrow> u8 \<Rightarrow> u32 \<Rightarrow> 'w \<Rightarrow> 'w" where
  "ioapic_init_entry mm cpu_bitmask i w =
     (let (rte_l, w) = ioapic_read_reg mm i w;
          rte_l = setf L_vector panic_vector rte_l;
          rte_l = setf L_delivery_mode DELIVERY_MODE_LOWESTPRI rte_l;
          rte_l = setf L_destination_mode DESTINATION_MODE_LOGICAL rte_l;
          rte_l = setf L_polarity POLARITY_HIGH rte_l;
          rte_l = setf L_trigger_mode TRIGGER_MODE_EDGE rte_l;
          rte_l = setf L_mask MASK_DISABLED rte_l;
          (rte_h, w) = ioapic_read_reg mm (i + 1) w;
          rte_h = setf H_logical_destination (ucast cpu_bitmask) rte_h;
          w = ioapic_write_reg mm i rte_l w
      in ioapic_write_reg mm (i + 1) rte_h w)"

definition ioapic_init :: "'w mm_ops \<Rightarrow> system_configuration \<Rightarrow> 'w \<Rightarrow> 'w" where
  "ioapic_init mm conf w =
     (let (id, w) = ioapic_read_reg mm 0 w;
          w = ioapic_write_reg mm 0 (setf IOAPICID_ID (ucast (getIOAPICID conf)) id) w;
          cpu_bitmask = ucast (push_bit (unat (getNumberOfCPUs conf)) (1 :: u32) - 1)
      in fold (\<lambda>k. ioapic_init_entry mm cpu_bitmask (0x10 + 2 * of_nat k)) [0..<24] w)"

definition ioapic_config :: "'w mm_ops \<Rightarrow> u8 \<Rightarrow> u32 \<Rightarrow> u32 \<Rightarrow> u32 \<Rightarrow> 'w \<Rightarrow> 'w" where
  "ioapic_config mm slot vector trigger_mode polarity w =
     (let reg = 0x10 + 2 * ucast slot;
          (cur_l, w) = ioapic_read_reg mm reg w;
          cur_l = setf L_vector vector cur_l;
          cur_l = setf L_polarity polarity cur_l;
          cur_l = setf L_trigger_mode trigger_mode cur_l
      in ioapic_write_reg mm reg cur_l w)"

definition ioapic_allow :: "'w mm_ops \<Rightarrow> u8 \<Rightarrow> 'w \<Rightarrow> 'w" where
  "ioapic_allow mm slot w =
     (let reg = 0x10 + 2 * ucast slot; (cur_l, w) = ioapic_read_reg mm reg w
      in ioapic_write_reg mm reg (setf L_mask MASK_ENABLED cur_l) w)"

definition ioapic_forbid :: "'w mm_ops \<Rightarrow> u8 \<Rightarrow> 'w \<Rightarrow> 'w" where
  "ioapic_forbid mm slot w =
     (let reg = 0x10 + 2 * ucast slot; (cur_l, w) = ioapic_read_reg mm reg w
      in ioapic_write_reg mm reg (setf L_mask MASK_DISABLED cur_l) w)"

definition ioapic_status :: "'w mm_ops \<Rightarrow> u8 \<Rightarrow> 'w \<Rightarrow> bool \<times> 'w" where
  "ioapic_status mm slot w =
     (let reg = 0x10 + 2 * ucast slot; (cur_l, w) = ioapic_read_reg mm reg w
      in (getf L_mask cur_l = 0, w))"

subsection \<open>What is relied on of the hardware\<close>

text \<open>
  A register that is written through the data register takes the bits that can be written, and
  reading gives the register that is selected. \<open>regs\<close> are the registers of the chip.
\<close>

definition writable :: "u32 \<Rightarrow> u32" where
  "writable reg =
     (if reg = 0 then 0x0f000000
      else if 0x10 \<le> reg \<and> reg \<le> 0x3f then (if even reg then 0x1afff else 0xff000000)
      else 0)"

definition ioapic_ok :: "'w mm_ops \<Rightarrow> ('w \<Rightarrow> u32) \<Rightarrow> ('w \<Rightarrow> u32 \<Rightarrow> u32) \<Rightarrow> bool" where
  "ioapic_ok mm sel regs \<longleftrightarrow>
     (\<forall>w v. sel (mm_write mm IOREGSEL_REG v w) = v \<and> regs (mm_write mm IOREGSEL_REG v w) = regs w) \<and>
     (\<forall>w. fst (mm_read mm IOWIN_REG w) = regs w (sel w) \<and> sel (snd (mm_read mm IOWIN_REG w)) = sel w \<and>
       regs (snd (mm_read mm IOWIN_REG w)) = regs w) \<and>
     (\<forall>w v. sel (mm_write mm IOWIN_REG v w) = sel w \<and>
       regs (mm_write mm IOWIN_REG v w) = (regs w)(sel w := merge_bits (writable (sel w)) v (regs w (sel w))))"

lemma read_reg_ok:
  assumes "ioapic_ok mm sel regs"
  shows "fst (ioapic_read_reg mm r w) = regs w r" "regs (snd (ioapic_read_reg mm r w)) = regs w"
  using assms by (simp_all add: ioapic_ok_def ioapic_read_reg_def)

lemma write_reg_ok:
  assumes "ioapic_ok mm sel regs"
  shows "regs (ioapic_write_reg mm r v w) = (regs w)(r := merge_bits (writable r) v (regs w r))"
  using assms by (simp add: ioapic_ok_def ioapic_write_reg_def)

text \<open>The registers of a slot.\<close>

definition rte_l :: "nat \<Rightarrow> u32" where "rte_l s = 0x10 + 2 * of_nat s"
definition rte_h :: "nat \<Rightarrow> u32" where "rte_h s = rte_l s + 1"

lemma rte_unat: "s < 24 \<Longrightarrow> unat (rte_l s) = 16 + 2 * s" "s < 24 \<Longrightarrow> unat (rte_h s) = 17 + 2 * s"
proof -
  have l: "rte_l s = of_nat (16 + 2 * s)" and h: "rte_h s = of_nat (17 + 2 * s)" by (simp_all add: rte_l_def rte_h_def)
  show "s < 24 \<Longrightarrow> unat (rte_l s) = 16 + 2 * s" "s < 24 \<Longrightarrow> unat (rte_h s) = 17 + 2 * s"
    unfolding l h by (subst unat_of_nat_small; simp)+
qed

lemma rte_distinct:
  assumes "s < 24" "t < 24"
  shows "rte_l s = rte_l t \<longleftrightarrow> s = t" "rte_h s = rte_h t \<longleftrightarrow> s = t" "rte_l s \<noteq> rte_h t" "rte_h s \<noteq> rte_l t"
  unfolding word_unat_eq_iff using rte_unat [OF assms(1)] rte_unat [OF assms(2)] by auto presburger+

lemma writable_rte:
  assumes "s < 24" shows "writable (rte_l s) = 0x1afff" "writable (rte_h s) = 0xff000000"
proof -
  have "rte_l s \<noteq> 0" "rte_h s \<noteq> 0" "even (rte_l s)" "odd (rte_h s)"
    using rte_unat [OF assms] by (auto simp: rte_h_def rte_l_def)
  moreover have "0x10 \<le> rte_l s" "rte_l s \<le> 0x3f" "0x10 \<le> rte_h s" "rte_h s \<le> 0x3f"
    using rte_unat [OF assms] assms by (simp_all add: word_le_nat_alt)
  ultimately show "writable (rte_l s) = 0x1afff" "writable (rte_h s) = 0xff000000" by (simp_all add: writable_def)
qed

subsection \<open>What the operations do\<close>

lemma slot_reg: "0x10 + 2 * ucast slot = rte_l (unat (slot :: u8))"
  by (simp add: rte_l_def)

definition L_fields :: "bitfield set" where
  "L_fields = {L_vector, L_delivery_mode, L_destination_mode, L_polarity, L_trigger_mode, L_mask}"

lemma L_facts:
  "f \<in> L_fields \<Longrightarrow> fits f \<and> within f 0x1afff" "f \<in> L_fields \<Longrightarrow> g \<in> L_fields \<Longrightarrow> f \<noteq> g \<Longrightarrow> apart f g"
  "fits H_logical_destination \<and> within H_logical_destination 0xff000000"
proof -
  have *: "within L_vector 0x1afff" "within L_delivery_mode 0x1afff" "within L_destination_mode 0x1afff"
    "within L_polarity 0x1afff" "within L_trigger_mode 0x1afff" "within L_mask 0x1afff"
    "within H_logical_destination 0xff000000"
    by code_simp+
  then show "f \<in> L_fields \<Longrightarrow> fits f \<and> within f 0x1afff" by (auto simp: L_fields_def fits_def L_defs)
  show "f \<in> L_fields \<Longrightarrow> g \<in> L_fields \<Longrightarrow> f \<noteq> g \<Longrightarrow> apart f g"
    by (auto simp: L_fields_def L_defs apart_def)
  from * show "fits H_logical_destination \<and> within H_logical_destination 0xff000000" by (simp add: fits_def L_defs)
qed

lemma L_set:
  assumes "f \<in> L_fields" "g \<in> L_fields"
  shows "getf f (setf g x v) = (if f = g then take_bit (snd f) x else getf f v)"
  using assms L_facts(1,2) getf_setf_same getf_setf_other by simp

lemma L_members [simp]: "L_vector \<in> L_fields" "L_delivery_mode \<in> L_fields" "L_destination_mode \<in> L_fields"
  "L_polarity \<in> L_fields" "L_trigger_mode \<in> L_fields" "L_mask \<in> L_fields"
  by (simp_all add: L_fields_def)

lemma L_distinct [simp]: "distinct [L_vector, L_delivery_mode, L_destination_mode, L_polarity, L_trigger_mode, L_mask]"
  by (simp add: L_defs)

lemma L_neq [simp]: "L_vector \<noteq> L_polarity" "L_vector \<noteq> L_trigger_mode" "L_vector \<noteq> L_mask" "L_vector \<noteq> L_delivery_mode"
  "L_vector \<noteq> L_destination_mode" "L_polarity \<noteq> L_trigger_mode" "L_polarity \<noteq> L_mask" "L_polarity \<noteq> L_delivery_mode"
  "L_polarity \<noteq> L_destination_mode" "L_trigger_mode \<noteq> L_mask" "L_trigger_mode \<noteq> L_delivery_mode"
  "L_trigger_mode \<noteq> L_destination_mode" "L_mask \<noteq> L_delivery_mode" "L_mask \<noteq> L_destination_mode"
  "L_delivery_mode \<noteq> L_destination_mode"
  by (simp_all add: L_defs)

lemma L_written:
  "f \<in> L_fields \<Longrightarrow> s < 24 \<Longrightarrow> getf f (merge_bits (writable (rte_l s)) new old) = getf f new"
  using L_facts(1) getf_merge by (simp add: writable_rte)

text \<open>Both registers of a slot before and after an operation; the other registers do not change.\<close>

lemma rte_update:
  assumes "ioapic_ok mm sel regs"
  shows "regs (ioapic_write_reg mm r (f (fst (ioapic_read_reg mm r w))) (snd (ioapic_read_reg mm r w))) =
    (regs w)(r := merge_bits (writable r) (f (regs w r)) (regs w r))"
  using read_reg_ok [OF assms] write_reg_ok [OF assms] by simp

lemma ioapic_config_regs:
  assumes "ioapic_ok mm sel regs"
  shows "regs (ioapic_config mm slot v t p w) = (regs w)(rte_l (unat slot) := merge_bits (writable (rte_l (unat slot)))
    (setf L_trigger_mode t (setf L_polarity p (setf L_vector v (regs w (rte_l (unat slot)))))) (regs w (rte_l (unat slot))))"
  using rte_update [OF assms, of _ "\<lambda>x. setf L_trigger_mode t (setf L_polarity p (setf L_vector v x))"]
  by (simp add: ioapic_config_def slot_reg Let_def case_prod_beta)

lemma ioapic_mask_regs:
  assumes "ioapic_ok mm sel regs"
  shows "regs (ioapic_allow mm slot w) = (regs w)(rte_l (unat slot) := merge_bits (writable (rte_l (unat slot)))
      (setf L_mask 0 (regs w (rte_l (unat slot)))) (regs w (rte_l (unat slot))))"
    "regs (ioapic_forbid mm slot w) = (regs w)(rte_l (unat slot) := merge_bits (writable (rte_l (unat slot)))
      (setf L_mask 1 (regs w (rte_l (unat slot)))) (regs w (rte_l (unat slot))))"
    "fst (ioapic_status mm slot w) \<longleftrightarrow> getf L_mask (regs w (rte_l (unat slot))) = 0"
    "regs (snd (ioapic_status mm slot w)) = regs w"
  using rte_update [OF assms, of _ "setf L_mask 0"] rte_update [OF assms, of _ "setf L_mask 1"] read_reg_ok [OF assms]
  by (simp_all add: ioapic_allow_def ioapic_forbid_def ioapic_status_def slot_reg Let_def case_prod_beta
      MASK_ENABLED_def MASK_DISABLED_def)

definition silent :: "(u32 \<Rightarrow> u32) \<Rightarrow> u8 \<Rightarrow> nat \<Rightarrow> bool" where
  "silent r cpus s \<longleftrightarrow> getf L_mask (r (rte_l s)) = 1 \<and> getf L_vector (r (rte_l s)) = 255 \<and>
     getf L_delivery_mode (r (rte_l s)) = DELIVERY_MODE_LOWESTPRI \<and> getf L_destination_mode (r (rte_l s)) = DESTINATION_MODE_LOGICAL \<and>
     getf L_polarity (r (rte_l s)) = POLARITY_HIGH \<and> getf L_trigger_mode (r (rte_l s)) = TRIGGER_MODE_EDGE \<and>
     getf H_logical_destination (r (rte_h s)) = ucast cpus"

lemma init_entry_ok:
  assumes "ioapic_ok mm sel regs" "s < 24" "t < 24" "t \<noteq> s \<longrightarrow> silent (regs w) cpus t"
  shows "silent (regs (ioapic_init_entry mm cpus (0x10 + 2 * of_nat s) w)) cpus t"
proof -
  let ?w = "ioapic_init_entry mm cpus (0x10 + 2 * of_nat s) w"
  have s: "0x10 + 2 * of_nat s = rte_l s" "rte_l s + 1 = rte_h s" by (simp_all add: rte_l_def rte_h_def)
  note rd = read_reg_ok [OF assms(1)] and wr = write_reg_ok [OF assms(1)]
  have h: "getf H_logical_destination (merge_bits 0xff000000 (setf H_logical_destination (ucast cpus) v) old) = ucast cpus" for v old
  proof -
    have "take_bit 8 (ucast cpus) = (ucast cpus :: u32)"
      by (rule bit_word_eqI) (auto simp: bit_simps dest: bit_imp_le_length)
    then show ?thesis using L_facts(3) by (simp add: getf_merge getf_setf_same) (simp add: L_defs)
  qed
  show ?thesis
  proof (cases "t = s")
    case True
    then show ?thesis using rte_distinct [OF assms(2,2)] L_written [OF _ assms(2)] writable_rte [OF assms(2)] h
      by (simp add: silent_def ioapic_init_entry_def s Let_def case_prod_beta rd wr L_set panic_vector_def
          DELIVERY_MODE_LOWESTPRI_def DESTINATION_MODE_LOGICAL_def POLARITY_HIGH_def TRIGGER_MODE_EDGE_def MASK_DISABLED_def)
        (simp add: L_defs)
  next
    case False
    then show ?thesis using assms(4) rte_distinct [OF assms(3,2)]
      by (simp add: silent_def ioapic_init_entry_def s Let_def case_prod_beta rd wr)
  qed
qed

definition cpu_mask :: "system_configuration \<Rightarrow> u8" where
  "cpu_mask conf = ucast (push_bit (unat (cpu_count conf)) (1 :: u32) - 1)"

lemma ioapic_init_ok:
  assumes "ioapic_ok mm sel regs" "s < 24"
  shows "silent (regs (ioapic_init mm conf w)) (cpu_mask conf) s"
proof -
  have "silent (regs (fold (\<lambda>k. ioapic_init_entry mm cpus (0x10 + 2 * of_nat k)) [0..<n] w)) cpus t"
    if "n \<le> 24" "t < n" for n t w cpus
    using that
  proof (induction n arbitrary: t)
    case (Suc n)
    let ?w = "fold (\<lambda>k. ioapic_init_entry mm cpus (0x10 + 2 * of_nat k)) [0..<n] w"
    have "silent (regs (ioapic_init_entry mm cpus (0x10 + 2 * of_nat n) ?w)) cpus t"
      by (rule init_entry_ok [OF assms(1)]) (use Suc in auto)
    then show ?case by simp
  qed simp
  from this [of 24 s] assms(2) show ?thesis
    by (simp only: ioapic_init_def Let_def case_prod_beta getNumberOfCPUs_def cpu_mask_def)
qed

text \<open>Property C30. After \<^verbatim>\<open>init\<close> no slot of the I/O APIC signals an interrupt. Configuring and
  allowing a slot lets exactly this slot signal, with the vector that was given, to the processors
  that were found; the other slots keep the panic vector and stay masked. \<^verbatim>\<open>status\<close> tells the
  slots that are allowed, and \<^verbatim>\<open>forbid\<close> masks the slot again and keeps its vector.\<close>

theorem ioapic_routing:
  assumes "ioapic_ok mm sel regs" "unat slot < 24" "s < 24"
    and "w1 = ioapic_init mm conf w" "w2 = ioapic_allow mm slot (ioapic_config mm slot vector trigger polarity w1)"
    and "w3 = ioapic_forbid mm slot w2"
  shows "\<not> fst (ioapic_status mm (of_nat s) w1) \<and> (fst (ioapic_status mm (of_nat s) w2) \<longleftrightarrow> s = unat slot) \<and>
    \<not> fst (ioapic_status mm (of_nat s) w3) \<and>
    (\<forall>w' \<in> {w2, w3}. getf L_vector (regs w' (rte_l s)) = (if s = unat slot then take_bit 8 vector else 255) \<and>
      getf L_destination_mode (regs w' (rte_l s)) = DESTINATION_MODE_LOGICAL \<and>
      getf H_logical_destination (regs w' (rte_h s)) = ucast (cpu_mask conf))"
proof -
  have s: "unat (of_nat s :: u8) = s" using assms(3) by (intro unat_of_nat_small) simp
  have i: "silent (regs w1) (cpu_mask conf) s" using ioapic_init_ok [OF assms(1,3)] assms(4) by simp
  note eq = rte_distinct [OF assms(3,2)] and wr = L_written [OF _ assms(2)]
  note regs = ioapic_config_regs [OF assms(1)] ioapic_mask_regs [OF assms(1)]
  have v: "take_bit (snd L_vector) x = take_bit 8 x" for x by (simp add: L_defs)
  have m: "snd L_mask = 1" by (simp add: L_defs)
  show ?thesis
  proof (cases "s = unat slot")
    case True
    then show ?thesis using i eq unfolding assms(5,6) silent_def
      by (simp add: regs s wr L_set v m L_neq [symmetric])
  next
    case False
    then show ?thesis using i eq unfolding assms(5,6) silent_def by (simp add: regs s)
  qed
qed

text \<open>A chip for examples: the selected register and the registers.\<close>

definition chip_ops :: "(u32 \<times> (u32 \<Rightarrow> u32)) mm_ops" where
  "chip_ops = \<lparr>mm_read = (\<lambda>a w. (snd w (fst w), w)),
     mm_write = (\<lambda>a v w. if a = IOREGSEL_REG then (v, snd w)
       else (fst w, (snd w)(fst w := merge_bits (writable (fst w)) v (snd w (fst w)))))\<rparr>"

lemma chip_ops_ok: "ioapic_ok chip_ops fst snd"
  by (simp add: ioapic_ok_def chip_ops_def IOREGSEL_REG_def IOWIN_REG_def)

theorem ioapic_routing_witness:
  "\<exists>w. fst (ioapic_status chip_ops 1 w) \<and> \<not> fst (ioapic_status chip_ops 2 w) \<and> getf L_vector (snd w (rte_l 1)) = 33"
proof -
  have r1: "unat (1 :: u8) < 24" "(1 :: nat) < 24" "(2 :: nat) < 24" by simp_all
  note p = ioapic_routing [OF chip_ops_ok r1(1) _ refl refl refl, of _ _ _ 33 0 0]
  let ?w = "ioapic_allow chip_ops 1 (ioapic_config chip_ops 1 33 0 0
    (ioapic_init chip_ops (new_configuration (replicate 8 0)) (0, \<lambda>_. 0)))"
  have "fst (ioapic_status chip_ops 1 ?w)" "getf L_vector (snd ?w (rte_l 1)) = 33" "\<not> fst (ioapic_status chip_ops 2 ?w)"
    using p [OF r1(2), of "new_configuration (replicate 8 0)" "(0, \<lambda>_. 0)"]
      p [OF r1(3), of "new_configuration (replicate 8 0)" "(0, \<lambda>_. 0)"] by simp_all
  then show ?thesis by blast
qed

end
