(* ===== verification/Console.thy ===== *)
theory Console
  imports Serial IoApic OStream BBuffer
begin

section \<open>device/console: a terminal on the serial line\<close>

text \<open>
  The console writes text and the escape sequences of a VT100 to the line and reads its input in the
  interrupt. The device of the stream is the hardware. \<open>None\<close> is a wait that does not end.
\<close>

subsection \<open>The rest of the serial interface\<close>

fun com_device :: "com_port \<Rightarrow> device" where
  "com_device COM1 = Com1" | "com_device COM2 = Com2" | "com_device COM3 = Com3" | "com_device COM4 = Com4"

definition receiveInterrupt ::
  "'w port_ops \<Rightarrow> 'w mm_ops \<Rightarrow> system_configuration \<Rightarrow> com_port \<Rightarrow> bool \<Rightarrow> 'w \<Rightarrow> (bool \<times> 'w) option"
where
  "receiveInterrupt ops mm conf com enable w = do {
     let port = com_base com;
     let (v, w) = read_reg ops port Ier w;
     let old = (v AND 0x01 \<noteq> 0);
     let w = write_reg ops port Ier (if enable then 0x01 else 0x00) w;
     let w = write_reg ops port Mcr 0x0b w;
     let slot = getIOAPICSlot conf (com_device com);
     let w = (if enable then ioapic_allow mm slot w else ioapic_forbid mm slot w);
     w \<leftarrow> clear_input ops port w;
     Some (old, w) }"

subsection \<open>Output\<close>

text \<open>The loop of \<^verbatim>\<open>print\<close>; \<open>prev\<close> is the character before, if there is one.\<close>

fun console_print :: "'w port_ops \<Rightarrow> u16 \<Rightarrow> u8 option \<Rightarrow> u8 list \<Rightarrow> 'w \<Rightarrow> 'w option" where
  "console_print ops port prev [] w = Some w"
| "console_print ops port prev (c # cs) w = do {
     w \<leftarrow> (if c = 10 \<and> prev \<noteq> None \<and> prev \<noteq> Some 13 then map_option snd (serial_write ops port 13 True w) else Some w);
     (_, w) \<leftarrow> serial_write ops port c True w;
     console_print ops port (Some c) cs w }"

definition print_text :: "'w port_ops \<Rightarrow> u16 \<Rightarrow> string \<Rightarrow> 'w \<Rightarrow> 'w option" where
  "print_text ops port s w = console_print ops port None (ascii s) w"

text \<open>The division of C rounds towards 0.\<close>

definition div10 :: "int \<Rightarrow> int" where "div10 x = sgn x * (\<bar>x\<bar> div 10)"

function write_number :: "'w port_ops \<Rightarrow> u16 \<Rightarrow> int \<Rightarrow> 'w \<Rightarrow> 'w option" where
  "write_number ops port x w = do {
     let r = (word_of_int (x - 10 * div10 x) :: u8);
     w \<leftarrow> (if div10 x \<noteq> 0 then write_number ops port (div10 x) w else Some w);
     (_, w) \<leftarrow> serial_write ops port (r + 48) True w;
     Some w }"
  by pat_completeness auto
termination
proof (relation "measure (\<lambda>(ops, port, x, w). nat \<bar>x\<bar>)")
  fix x :: int assume "div10 x \<noteq> 0"
  then have "0 < \<bar>x\<bar>" by (cases "x = 0") (auto simp: div10_def)
  then have "\<bar>x\<bar> div 10 < \<bar>x\<bar>" by (intro int_div_less_self) auto
  moreover have "\<bar>div10 x\<bar> = \<bar>x\<bar> div 10" using \<open>0 < \<bar>x\<bar>\<close> by (simp add: div10_def abs_mult abs_sgn_eq)
  ultimately show "((ops, port, div10 x, w), ops, port, x, w) \<in> measure (\<lambda>(ops, port, x, w). nat \<bar>x\<bar>)" for ops port w
    using \<open>0 < \<bar>x\<bar>\<close> by simp
qed simp

declare write_number.simps [simp del]

definition console_flush :: "'w port_ops \<Rightarrow> u16 \<Rightarrow> 'w ostream \<Rightarrow> 'w ostream option" where
  "console_flush ops port s = do {
     w \<leftarrow> console_print ops port None (take (o_pos s) (o_buf s)) (o_dev s);
     Some (s\<lparr>o_pos := 0, o_dev := w\<rparr>) }"

datatype console_attrib = ARESET | BRIGHT | DIM | UNDERSCORE | BLINK | REVERSE | HIDDEN

fun attrib_value :: "console_attrib \<Rightarrow> int" where
  "attrib_value ARESET = 0" | "attrib_value BRIGHT = 1" | "attrib_value DIM = 2" | "attrib_value UNDERSCORE = 4"
| "attrib_value BLINK = 5" | "attrib_value REVERSE = 7" | "attrib_value HIDDEN = 8"

datatype console_color = CBLACK | CRED | CGREEN | CYELLOW | CBLUE | CMAGENTA | CCYAN | CWHITE

fun console_color_value :: "console_color \<Rightarrow> int" where
  "console_color_value CBLACK = 0" | "console_color_value CRED = 1" | "console_color_value CGREEN = 2" | "console_color_value CYELLOW = 3"
| "console_color_value CBLUE = 4" | "console_color_value CMAGENTA = 5" | "console_color_value CCYAN = 6" | "console_color_value CWHITE = 7"

definition esc :: string where "esc = [CHR 0x1B]"

definition console_setForeground :: "'w port_ops \<Rightarrow> u16 \<Rightarrow> console_color \<Rightarrow> 'w \<Rightarrow> 'w option" where
  "console_setForeground ops port c w = do {
     w \<leftarrow> print_text ops port (esc @ ''[3'') w;
     w \<leftarrow> write_number ops port (console_color_value c) w;
     print_text ops port ''m'' w }"

definition console_setBackground :: "'w port_ops \<Rightarrow> u16 \<Rightarrow> console_color \<Rightarrow> 'w \<Rightarrow> 'w option" where
  "console_setBackground ops port c w = do {
     w \<leftarrow> print_text ops port (esc @ ''[4'') w;
     w \<leftarrow> write_number ops port (console_color_value c) w;
     print_text ops port ''m'' w }"

definition console_setAttribute :: "'w port_ops \<Rightarrow> u16 \<Rightarrow> console_attrib \<Rightarrow> 'w \<Rightarrow> 'w option" where
  "console_setAttribute ops port a w = do {
     w \<leftarrow> print_text ops port (esc @ ''['') w;
     w \<leftarrow> write_number ops port (attrib_value a) w;
     print_text ops port ''m'' w }"

text \<open>An operation on the line behind the buffer of the stream.\<close>

definition on_line :: "('w \<Rightarrow> 'w option) \<Rightarrow> 'w ostream \<Rightarrow> 'w ostream option" where
  "on_line f s = map_option (\<lambda>w. s\<lparr>o_dev := w\<rparr>) (f (o_dev s))"

definition console_reset :: "'w port_ops \<Rightarrow> u16 \<Rightarrow> 'w ostream \<Rightarrow> 'w ostream option" where
  "console_reset ops port s = do {
     s \<leftarrow> console_flush ops port s;
     on_line (print_text ops port (esc @ ''c'')) s }"

definition console_setpos :: "'w port_ops \<Rightarrow> u16 \<Rightarrow> int \<Rightarrow> int \<Rightarrow> 'w ostream \<Rightarrow> 'w ostream option" where
  "console_setpos ops port x y s = do {
     s \<leftarrow> console_flush ops port s;
     on_line (\<lambda>w. do {
       w \<leftarrow> print_text ops port (esc @ ''['') w;
       w \<leftarrow> write_number ops port y w;
       w \<leftarrow> print_text ops port '';'' w;
       w \<leftarrow> write_number ops port x w;
       print_text ops port ''H'' w }) s }"

definition console_new ::
  "'w port_ops \<Rightarrow> com_port \<Rightarrow> baud_rate \<Rightarrow> data_bits \<Rightarrow> stop_bits \<Rightarrow> parity \<Rightarrow> u8 list \<Rightarrow> 'w \<Rightarrow> 'w ostream option"
where
  "console_new ops com baud databits stopbits par buf w = do {
     let port = com_base com;
     s \<leftarrow> console_setpos ops port 0 0 (ostream_new buf (serial_new ops port baud databits stopbits par w));
     s \<leftarrow> on_line (console_setForeground ops port CWHITE) s;
     s \<leftarrow> on_line (console_setBackground ops port CBLACK) s;
     on_line (console_setAttribute ops port ARESET) s }"

subsection \<open>Input\<close>

partial_function (option) getpos_row :: "'w port_ops \<Rightarrow> u16 \<Rightarrow> u32 \<Rightarrow> 'w \<Rightarrow> (int \<times> u32 \<times> 'w) option" where
  "getpos_row ops port y w = do {
     (r, w) \<leftarrow> serial_read ops port True w;
     if r \<noteq> 59 then getpos_row ops port (y * 10 + word_of_int r - 48) w else Some (r, y, w) }"

partial_function (option) getpos_column :: "'w port_ops \<Rightarrow> u16 \<Rightarrow> int \<Rightarrow> u32 \<Rightarrow> 'w \<Rightarrow> (u32 \<times> 'w) option" where
  "getpos_column ops port r x w = do {
     (c, w) \<leftarrow> serial_read ops port True w;
     if c \<noteq> 82 then getpos_column ops port r (x * 10 + word_of_int r - 48) w else Some (x, w) }"

text \<open>The results are the return value, the column and the row.\<close>

definition console_getpos :: "'w port_ops \<Rightarrow> u16 \<Rightarrow> 'w ostream \<Rightarrow> (bool \<times> u32 \<times> u32 \<times> 'w ostream) option" where
  "console_getpos ops port s = do {
     s \<leftarrow> console_flush ops port s;
     w \<leftarrow> print_text ops port (esc @ ''[6n'') (o_dev s);
     (c, w) \<leftarrow> serial_read ops port True w;
     if c \<noteq> 27 then Some (False, 0, 0, s\<lparr>o_dev := w\<rparr>)
     else do {
       (c, w) \<leftarrow> serial_read ops port True w;
       if c \<noteq> 91 then Some (False, 0, 0, s\<lparr>o_dev := w\<rparr>)
       else do {
         (r, y, w) \<leftarrow> getpos_row ops port 0 w;
         (x, w) \<leftarrow> getpos_column ops port r 0 w;
         Some (True, x - 1, y - 1, s\<lparr>o_dev := w\<rparr>) } } }"

definition CONSOLE_CAP :: u32 where "CONSOLE_CAP = 64"

definition console_prologue :: "'w port_ops \<Rightarrow> u16 \<Rightarrow> u8 bbuffer \<Rightarrow> 'w \<Rightarrow> (bool \<times> u8 bbuffer \<times> 'w) option" where
  "console_prologue ops port b w = do {
     (c, w) \<leftarrow> serial_read ops port False w;
     if c = -1 then Some (False, b, w)
     else Some (True, snd (bb_produce CONSOLE_CAP (word_of_int c) b), w) }"

text \<open>\<open>fl\<close> is the flush of \<^verbatim>\<open>kout\<close>.\<close>

partial_function (option) epilogue_loop ::
  "('d ostream \<Rightarrow> 'd ostream option) \<Rightarrow> u8 bbuffer \<Rightarrow> 'd ostream \<Rightarrow> (u8 bbuffer \<times> 'd ostream) option"
where
  "epilogue_loop fl b kout =
     (case bb_consume CONSOLE_CAP b of
        (None, b) \<Rightarrow> Some (b, kout)
      | (Some c, b) \<Rightarrow> do {
          kout \<leftarrow> o_put fl (if c = 13 then 10 else c) kout;
          epilogue_loop fl b kout })"

definition console_epilogue ::
  "('d ostream \<Rightarrow> 'd ostream option) \<Rightarrow> u8 bbuffer \<Rightarrow> 'd ostream \<Rightarrow> (u8 bbuffer \<times> 'd ostream) option"
where
  "console_epilogue fl b kout = do {
     (b, kout) \<leftarrow> epilogue_loop fl b kout;
     kout \<leftarrow> fl kout;
     Some (b, kout) }"

end
