(* ===== verification/ConsoleProps.thy ===== *)
theory ConsoleProps
  imports Console NumberText
begin

section \<open>device/console: properties\<close>

text \<open>
  The interpretation \<open>con\<close> shows that the console keeps the contract of \<open>stream_device\<close>, for the text
  without carriage returns; so the operators of \<^verbatim>\<open>O_Stream\<close> send their text to the line.
\<close>

fun con_bytes :: "u8 option \<Rightarrow> u8 list \<Rightarrow> u8 list" where
  "con_bytes prev [] = []"
| "con_bytes prev (c # cs) =
     (if c = 10 \<and> prev \<noteq> None \<and> prev \<noteq> Some 13 then [13, c] else [c]) @ con_bytes (Some c) cs"

lemma console_print_sends:
  assumes "serial_ok ops port inp outp"
  shows "\<exists>w'. console_print ops port prev cs w = Some w' \<and> inp w' = inp w \<and> outp w' = outp w @ con_bytes prev cs"
proof (induction cs arbitrary: prev w)
  case (Cons c cs)
  let ?cr = "c = 10 \<and> prev \<noteq> None \<and> prev \<noteq> Some 13"
  obtain w1 where w1: "(if ?cr then map_option snd (serial_write ops port 13 True w) else Some w) = Some w1"
    "inp w1 = inp w" "outp w1 = outp w @ (if ?cr then [13] else [])"
    using serial_write_ok [OF assms, of 13 True w] by (cases ?cr) auto
  obtain w2 where w2: "serial_write ops port c True w1 = Some (sint c, w2)" "inp w2 = inp w1" "outp w2 = outp w1 @ [c]"
    using serial_write_ok [OF assms] by blast
  obtain w3 where "console_print ops port (Some c) cs w2 = Some w3" "inp w3 = inp w2" "outp w3 = outp w2 @ con_bytes (Some c) cs"
    using Cons by blast
  with w1 w2 show ?case by (cases ?cr) auto
qed simp

abbreviation no_cr :: "u8 list \<Rightarrow> u8 list" where "no_cr cs \<equiv> filter (\<lambda>c. c \<noteq> 13) cs"

lemma con_bytes_text: "no_cr (con_bytes prev cs) = no_cr cs"
  by (induction cs arbitrary: prev) auto

definition con_shows :: "('w \<Rightarrow> u8 list) \<Rightarrow> ('w \<Rightarrow> u8 list) \<Rightarrow> 'w \<Rightarrow> u8 list \<Rightarrow> 'w \<Rightarrow> bool" where
  "con_shows inp outp d cs d' \<longleftrightarrow> inp d' = inp d \<and> (\<exists>sent. outp d' = outp d @ sent \<and> no_cr sent = no_cr cs)"

interpretation con: stream_device "console_flush ops port" "\<lambda>d. serial_ok ops port inp outp" "con_shows inp outp"
  for ops :: "'w port_ops" and port inp outp
proof unfold_locales
  fix s :: "'w ostream"
  assume ok: "serial_ok ops port inp outp"
  obtain d where "console_print ops port None (take (o_pos s) (o_buf s)) (o_dev s) = Some d" "inp d = inp (o_dev s)"
    "outp d = outp (o_dev s) @ con_bytes None (take (o_pos s) (o_buf s))"
    using console_print_sends [OF ok] by blast
  then show "\<exists>d. console_flush ops port s = Some (s\<lparr>o_pos := 0, o_dev := d\<rparr>) \<and> serial_ok ops port inp outp \<and>
      con_shows inp outp (o_dev s) (take (o_pos s) (o_buf s)) d"
    using ok con_bytes_text by (auto simp: console_flush_def con_shows_def)
next
  fix d :: 'w show "con_shows inp outp d [] d" by (simp add: con_shows_def)
next
  fix d d' d'' :: 'w and xs ys
  assume "con_shows inp outp d xs d'" "con_shows inp outp d' ys d''"
  then show "con_shows inp outp d (xs @ ys) d''" by (auto simp: con_shows_def)
qed

text \<open>A newline at the start of a flushed chunk is sent without a carriage return.\<close>

lemma chunk_newline: "con_bytes None (10 # cs) = 10 # con_bytes (Some 10) cs" "con_bytes None [97, 10] = [97, 13, 10]"
  by simp_all

text \<open>A number that is printed to the console, in base 2, 8, 10 or 16, and flushed is sent
  over the serial line as its text, after the bytes sent before; the input of the line is left alone
  and \<^verbatim>\<open>strtol\<close> reads the number from the text.\<close>

theorem console_sends_number:
  assumes "serial_ok ops port inp outp" "length buf = 80" "b \<in> bases"
    and "if b = 10 then v \<noteq> 0x80000000 else 0 \<le> sint v" "mem_ok alloc 20"
  shows "\<exists>s1 s2 sent. o_long (console_flush ops port) v ((ostream_new buf w)\<lparr>o_base := int b\<rparr>) = Some s1 \<and>
    console_flush ops port s1 = Some s2 \<and> inp (o_dev s2) = inp w \<and> outp (o_dev s2) = outp w @ sent \<and>
    no_cr sent = no_cr (long_text b v) \<and> (\<forall>t. str_rep t (long_text b v) \<longrightarrow> strtol alloc t 0 = Some (sint v, False))"
proof -
  have b: "2 \<le> b" "b \<le> 36" using assms(3) by (auto simp: bases_def)
  have "con.received ops port inp outp ((ostream_new buf w)\<lparr>o_base := int b\<rparr>) w []"
    using con.received_start [OF assms(1,2)] by simp
  from con.long_writes [OF this _ b, of v] obtain s1 where
    s1: "o_long (console_flush ops port) v ((ostream_new buf w)\<lparr>o_base := int b\<rparr>) = Some s1"
      "con.received ops port inp outp s1 w (long_text b v)"
    by (auto simp: ostream_new_def elim: con.writesE)
  obtain s2 where "console_flush ops port s1 = Some s2" "con_shows inp outp w (long_text b v) (o_dev s2)"
    using con.fl_writes [OF s1(2)] by auto
  with s1(1) show ?thesis using strtol_long_text [OF assms(3) _ assms(5,4)] by (auto simp: con_shows_def)
qed

theorem console_sends_number_witness:
  "\<exists>s1 s2. o_long (console_flush (line_ops 0x3f8) 0x3f8) 42 ((ostream_new (replicate 80 0) ([], []))\<lparr>o_base := int 16\<rparr>) = Some s1 \<and>
     console_flush (line_ops 0x3f8) 0x3f8 s1 = Some s2 \<and> no_cr (snd (o_dev s2)) = [48, 120, 50, 97]"
proof -
  have "16 \<in> bases" by (simp add: bases_def)
  moreover have "no_cr (long_text 16 42) = [48, 120, 50, 97]" by code_simp
  ultimately show ?thesis
    using console_sends_number [OF line_ops_ok, of "replicate 80 0" 16 42 plain_heap "0x3f8" "([], [])"]
    by (fastforce simp: mem_ok_always)
qed

subsection \<open>The position of the cursor\<close>

lemma getpos_row_ok:
  assumes "serial_ok ops port inp outp" "inp w = ys @ 59 # rest" "59 \<notin> set ys"
  shows "\<exists>w'. getpos_row ops port y w = Some (59, foldl (\<lambda>y c. y * 10 + scast c - 48) y ys, w') \<and> inp w' = rest \<and> outp w' = outp w"
  using assms(2,3)
proof (induction ys arbitrary: y w)
  case Nil
  then obtain w1 where "serial_read ops port True w = Some (sint (59 :: u8), w1)" "inp w1 = rest" "outp w1 = outp w"
    using serial_read_ok [OF assms(1), of w 59 rest] by auto
  then show ?case by (subst getpos_row.simps) simp
next
  case (Cons c ys)
  obtain w1 where w1: "serial_read ops port True w = Some (sint c, w1)" "inp w1 = ys @ 59 # rest" "outp w1 = outp w"
    using serial_read_ok [OF assms(1), of w c "ys @ 59 # rest"] Cons.prems by auto
  have "sint c \<noteq> 59"
  proof
    assume "sint c = 59"
    then have "sint c = sint (59 :: u8)" by simp
    then have "c = 59" by (rule signed_word_eqI)
    with Cons.prems show False by simp
  qed
  moreover have "word_of_int (sint c) = (scast c :: u32)" by simp
  moreover obtain w2 where "getpos_row ops port (y * 10 + scast c - 48) w1 =
      Some (59, foldl (\<lambda>y c. y * 10 + scast c - 48) (y * 10 + scast c - 48) ys, w2)" "inp w2 = rest" "outp w2 = outp w1"
    using Cons.IH [OF w1(2)] Cons.prems by fastforce
  ultimately show ?case using w1 by (subst getpos_row.simps) simp
qed

lemma getpos_column_ok:
  assumes "serial_ok ops port inp outp" "inp w = xs @ 82 # rest" "82 \<notin> set xs"
  shows "\<exists>w'. getpos_column ops port r x w = Some (foldl (\<lambda>x c. x * 10 + word_of_int r - 48) x xs, w') \<and> inp w' = rest \<and> outp w' = outp w"
  using assms(2,3)
proof (induction xs arbitrary: x w)
  case Nil
  then obtain w1 where "serial_read ops port True w = Some (sint (82 :: u8), w1)" "inp w1 = rest" "outp w1 = outp w"
    using serial_read_ok [OF assms(1), of w 82 rest] by auto
  then show ?case by (subst getpos_column.simps) simp
next
  case (Cons c xs)
  obtain w1 where w1: "serial_read ops port True w = Some (sint c, w1)" "inp w1 = xs @ 82 # rest" "outp w1 = outp w"
    using serial_read_ok [OF assms(1), of w c "xs @ 82 # rest"] Cons.prems by auto
  have "sint c \<noteq> 82"
  proof
    assume "sint c = 82"
    then have "sint c = sint (82 :: u8)" by simp
    then have "c = 82" by (rule signed_word_eqI)
    with Cons.prems show False by simp
  qed
  moreover obtain w2 where "getpos_column ops port r (x * 10 + word_of_int r - 48) w1 =
      Some (foldl (\<lambda>x c. x * 10 + word_of_int r - 48) (x * 10 + word_of_int r - 48) xs, w2)" "inp w2 = rest" "outp w2 = outp w1"
    using Cons.IH [OF w1(2)] Cons.prems by fastforce
  ultimately show ?case using w1 by (subst getpos_column.simps) simp
qed

lemma column_const: "foldl (\<lambda>x c. x * 10 + word_of_int 59 - 48) x xs = foldl (\<lambda>x c. x * 10 + 11) (x :: u32) xs"
  by (induction xs arbitrary: x) (simp_all add: add.commute)

text \<open>\<^verbatim>\<open>getpos\<close> reads the reply of the terminal to its end and computes the row from its
  digits, but the column it returns depends on the number of digits only: the variable that holds the
  character is not set in the second loop.\<close>

theorem getpos_column_wrong:
  assumes "serial_ok ops port inp outp" "o_pos s = 0" "inp (o_dev s) = 27 # 91 # ys @ 59 # xs @ 82 # rest"
    and "59 \<notin> set ys" "82 \<notin> set xs"
  shows "\<exists>s'. console_getpos ops port s = Some (True, foldl (\<lambda>x c. x * 10 + 11) 0 xs - 1,
      foldl (\<lambda>y c. y * 10 + scast c - 48) 0 ys - 1, s') \<and> inp (o_dev s') = rest \<and>
    outp (o_dev s') = outp (o_dev s) @ [27, 91, 54, 110]"
proof -
  have fl: "console_flush ops port s = Some s" using assms(2) by (simp add: console_flush_def)
  have lit: "ascii (esc @ ''[6n'') = [27, 91, 54, 110]" by code_simp
  have bytes: "con_bytes None [27, 91, 54, 110] = [27, 91, 54, 110]" by simp
  obtain w1 where w1: "print_text ops port (esc @ ''[6n'') (o_dev s) = Some w1" "inp w1 = inp (o_dev s)"
    "outp w1 = outp (o_dev s) @ [27, 91, 54, 110]"
    using console_print_sends [OF assms(1), of None "[27, 91, 54, 110]" "o_dev s"] unfolding print_text_def lit bytes by blast
  obtain w2 where w2: "serial_read ops port True w1 = Some (27, w2)" "inp w2 = 91 # ys @ 59 # xs @ 82 # rest" "outp w2 = outp w1"
    using serial_read_ok [OF assms(1), of w1 27] assms(3) w1(2) by auto
  obtain w3 where w3: "serial_read ops port True w2 = Some (91, w3)" "inp w3 = ys @ 59 # xs @ 82 # rest" "outp w3 = outp w2"
    using serial_read_ok [OF assms(1) w2(2)] by auto
  obtain w4 where w4: "getpos_row ops port 0 w3 = Some (59, foldl (\<lambda>y c. y * 10 + scast c - 48) 0 ys, w4)"
    "inp w4 = xs @ 82 # rest" "outp w4 = outp w3" using getpos_row_ok [OF assms(1) w3(2) assms(4)] by blast
  obtain w5 where w5: "getpos_column ops port 59 0 w4 = Some (foldl (\<lambda>x c. x * 10 + 11) 0 xs, w5)" "inp w5 = rest"
    "outp w5 = outp w4" using getpos_column_ok [OF assms(1) w4(2) assms(5), of 59 0] unfolding column_const by blast
  have "console_getpos ops port s = Some (True, foldl (\<lambda>x c. x * 10 + 11) 0 xs - 1,
      foldl (\<lambda>y c. y * 10 + scast c - 48) 0 ys - 1, s\<lparr>o_dev := w5\<rparr>)"
    using fl w1(1) w2(1) w3(1) w4(1) w5(1) by (simp add: console_getpos_def)
  with w1 w2 w3 w4 w5 show ?thesis by simp
qed

theorem getpos_column_wrong_witness:
  "\<exists>s'. console_getpos (line_ops 0x3f8) 0x3f8 (ostream_new [] ([27, 91, 53, 59, 51, 82], [])) = Some (True, 10, 4, s')"
  using getpos_column_wrong [OF line_ops_ok, of "ostream_new [] ([27, 91, 53, 59, 51, 82], [])" "[53]" "[51]" "[]" "0x3f8"]
  by (auto simp: ostream_new_def)

end
