(* ===== verification/RandomGen.thy ===== *)
theory RandomGen
  imports Prelude
begin

section \<open>utils/random: random numbers\<close>

text \<open>
  A feedback shift register of seven 24-bit words and a linear congruential generator. The members are
  \<^verbatim>\<open>unsigned long\<close>. The seed and the local variables are \<^verbatim>\<open>int\<close>, whose arithmetic is taken to wrap
  around and whose \<^verbatim>\<open>>>\<close> keeps the sign.
\<close>

record random =
  r0 :: u32
  r1 :: u32
  r2 :: u32
  r3 :: u32
  r4 :: u32
  r5 :: u32
  r6 :: u32
  ic_state :: u32
  multiplier :: u32
  addend :: u32

definition next_seed :: "u32 \<Rightarrow> u32" where "next_seed seed = (69607 + 8 * 69069) * seed + 12345"

definition seed_bits :: "u32 \<Rightarrow> u32" where "seed_bits seed = signed_drop_bit 8 seed AND 0xffffff"

definition random_new :: "u32 \<Rightarrow> random" where
  "random_new seed =
     (let s0 = next_seed seed; s1 = next_seed s0; s2 = next_seed s1; s3 = next_seed s2; s4 = next_seed s3;
          s5 = next_seed s4; s6 = next_seed s5; s7 = next_seed s6
      in \<lparr>r0 = seed_bits s0, r1 = seed_bits s1, r2 = seed_bits s2, r3 = seed_bits s3, r4 = seed_bits s4, r5 = seed_bits s5,
          r6 = seed_bits s6, ic_state = s7, multiplier = 100005 + 8 * 69069, addend = 12345\<rparr>)"

definition random_number :: "random \<Rightarrow> u32 \<times> random" where
  "random_number g =
     (let t = ((drop_bit 7 (r5 g) OR push_bit 17 (r6 g)) XOR (drop_bit 1 (r4 g) OR push_bit 23 (r5 g))) AND 0xffffff;
          g = g\<lparr>r6 := r5 g, r5 := r4 g, r4 := r3 g, r3 := r2 g, r2 := r1 g, r1 := r0 g, r0 := t\<rparr>;
          s = ic_state g * multiplier g + addend g;
          g = g\<lparr>ic_state := s\<rparr>
      in (t XOR (signed_drop_bit 8 s AND 0xffffff), g))"

lemma low24: "x AND 0xffffff < (0x1000000 :: u32)"
proof -
  have "x AND 0xffffff = take_bit 24 x" by (simp add: take_bit_eq_mask mask_eq_exp_minus_1)
  moreover have "unat (take_bit 24 x) < 2 ^ 24" using take_bit_nat_less_exp [of 24 "unat x"] by (simp add: unsigned_take_bit_eq)
  ultimately show ?thesis by (simp add: word_less_nat_alt)
qed

lemma random_number_range: "fst (random_number g) < 0x1000000" "r0 (snd (random_number g)) < 0x1000000"
proof -
  have "t AND 0xffffff XOR (s AND 0xffffff) = (t XOR s) AND (0xffffff :: u32)" for t s
    by (rule bit_word_eqI) (auto simp: bit_simps)
  then show "fst (random_number g) < 0x1000000" "r0 (snd (random_number g)) < 0x1000000"
    by (simp_all add: random_number_def Let_def low24)
qed

end
