(* ===== verification/Shell.thy ===== *)
theory Shell
  imports LineInput MathUtil
begin

section \<open>user/shell: the screen backup, the history and the line editor\<close>

text \<open>
  The entries of the history are records in a store whose addresses are numbers that are never
  used again; \<open>h_tail\<close> is \<^verbatim>\<open>history_tail\<close>, and a dangling pointer has no entry. The heap serves
  every entry itself, \<open>alloc\<close> tells whether it can serve the characters of a string.
  \<open>reader\<close> holds the local variables of \<^verbatim>\<open>Shell::read\<close>. The expressions that mix \<^verbatim>\<open>int\<close> and
  \<^verbatim>\<open>size_t\<close> are computed in 32 bits as in the source.
\<close>

subsection \<open>Saving what the window shows\<close>

definition screen_backup :: "window \<Rightarrow> (int \<Rightarrow> pixel) \<Rightarrow> (int \<Rightarrow> pixel) \<Rightarrow> (int \<Rightarrow> pixel)" where
  "screen_backup w base backup_cga =
     fold (\<lambda>x b. fold (\<lambda>y b. b(y * COLUMNS + x := base (y * COLUMNS + x))) [w_from_row w..w_to_row w] b)
       [w_from_col w..w_to_col w] backup_cga"

definition screen_restore :: "window \<Rightarrow> (int \<Rightarrow> pixel) \<Rightarrow> (int \<Rightarrow> pixel) \<Rightarrow> (int \<Rightarrow> pixel)" where
  "screen_restore w backup_cga base =
     fold (\<lambda>x b. fold (\<lambda>y b. b(y * COLUMNS + x := backup_cga (y * COLUMNS + x))) [w_from_row w..w_to_row w] b)
       [w_from_col w..w_to_col w] base"

record backup =
  backup_cga :: "(int \<Rightarrow> pixel) option"
  backup_out_x :: int
  backup_out_y :: int

text \<open>\<open>fresh\<close> is what the new array holds, \<open>None\<close> if the heap cannot serve it, which stops at the
  assertion of \<^verbatim>\<open>malloc\<close>.\<close>

definition shell_backup ::
  "'w port_ops \<Rightarrow> window \<Rightarrow> (int \<Rightarrow> pixel) option \<Rightarrow> backup \<Rightarrow> 'w cgas ostream \<Rightarrow> (backup \<times> 'w cgas ostream) option"
where
  "shell_backup ops w fresh b s = do {
     cells \<leftarrow> (case backup_cga b of None \<Rightarrow> fresh | Some c \<Rightarrow> Some c);
     let d = o_dev s;
     let ((x, y), g) = getpos ops w (g_cga d);
     Some (\<lparr>backup_cga = Some (screen_backup w (c_mem g) cells), backup_out_x = x, backup_out_y = y\<rparr>,
       s\<lparr>o_dev := d\<lparr>g_cga := g\<rparr>\<rparr>) }"

definition shell_restore :: "'w port_ops \<Rightarrow> window \<Rightarrow> backup \<Rightarrow> 'w cgas ostream \<Rightarrow> (backup \<times> 'w cgas ostream) option" where
  "shell_restore ops w b s = do {
     cells \<leftarrow> backup_cga b;
     let d = o_dev s;
     let g = setpos ops w (backup_out_x b) (backup_out_y b) (g_cga d);
     Some (b\<lparr>backup_cga := None\<rparr>, s\<lparr>o_dev := d\<lparr>g_cga := g\<lparr>c_mem := screen_restore w cells (c_mem g)\<rparr>\<rparr>\<rparr>) }"

subsection \<open>The history\<close>

record hist_entry =
  he_str :: str
  he_prev :: "nat option"
  he_next :: "nat option"

record history =
  h_tail :: "nat option"
  h_mem :: "nat \<Rightarrow> hist_entry option"
  h_new :: nat

definition history_new :: history where
  "history_new = \<lparr>h_tail = None, h_mem = Map.empty, h_new = 0\<rparr>"

definition new_entry :: "str_heap \<Rightarrow> str \<Rightarrow> history \<Rightarrow> (nat \<times> history) option" where
  "new_entry alloc s h = do {
     t \<leftarrow> str_dup alloc s;
     Some (h_new h, h\<lparr>h_mem := (h_mem h)(h_new h \<mapsto> \<lparr>he_str = t, he_prev = None, he_next = None\<rparr>),
       h_new := h_new h + 1\<rparr>) }"

definition delete_entry :: "nat \<Rightarrow> history \<Rightarrow> history" where
  "delete_entry p h = h\<lparr>h_mem := (h_mem h)(p := None)\<rparr>"

partial_function (option) destroy_loop :: "nat option \<Rightarrow> history \<Rightarrow> history option" where
  "destroy_loop e h = (case e of None \<Rightarrow> Some h
     | Some tmp \<Rightarrow> do { x \<leftarrow> h_mem h tmp; destroy_loop (he_prev x) (delete_entry tmp h) })"

definition history_destroy :: "history \<Rightarrow> history option" where
  "history_destroy h = destroy_loop (h_tail h) h"

text \<open>Without an entry, the comparison reads a string through the null pointer: \<open>null_str\<close> is the
  string that is found there, \<open>None\<close> if the access stops the CPU.\<close>

definition history_add :: "str_heap \<Rightarrow> str option \<Rightarrow> str \<Rightarrow> history \<Rightarrow> history option" where
  "history_add alloc null_str s h = do {
     last \<leftarrow> (case h_tail h of None \<Rightarrow> null_str | Some p \<Rightarrow> map_option he_str (h_mem h p));
     same \<leftarrow> streq s last;
     if same then Some h
     else do {
       (n, h) \<leftarrow> new_entry alloc s h;
       (case h_tail h of
          None \<Rightarrow> Some (h\<lparr>h_tail := Some n\<rparr>)
        | Some p \<Rightarrow> do {
            e \<leftarrow> h_mem h p;
            let mem = (h_mem h)(p \<mapsto> e\<lparr>he_next := Some n\<rparr>);
            e \<leftarrow> mem n;
            Some (h\<lparr>h_mem := mem(n \<mapsto> e\<lparr>he_prev := Some p\<rparr>), h_tail := Some n\<rparr>) }) } }"

subsection \<open>Reading a line\<close>

record 'w reader =
  r_str :: str
  r_cursor :: u32
  r_cur :: "nat option"
  r_tmp :: "nat option"
  r_y :: u32
  r_hist :: history
  r_out :: "'w cgas ostream"

definition scan_up :: u8 where "scan_up = 72"
definition scan_down :: u8 where "scan_down = 80"
definition scan_left :: u8 where "scan_left = 75"
definition scan_right :: u8 where "scan_right = 77"

text \<open>What the \<^verbatim>\<open>switch\<close> over the scan code decides: \<^verbatim>\<open>continue\<close>, or the two flags \<^verbatim>\<open>hist\<close> and
  \<^verbatim>\<open>curs\<close>.\<close>

datatype key_action = Again | Go bool bool

definition history_up :: "str_heap \<Rightarrow> 'w reader \<Rightarrow> (key_action \<times> 'w reader) option" where
  "history_up alloc r =
     (case r_cur r of
        None \<Rightarrow> (case h_tail (r_hist r) of
            None \<Rightarrow> Some (Go True False, r)
          | Some p \<Rightarrow> do {
              (t, h) \<leftarrow> new_entry alloc (r_str r) (r_hist r);
              Some (Go True False, r\<lparr>r_hist := h, r_tmp := Some t, r_cur := Some p\<rparr>) })
      | Some c \<Rightarrow> do {
          e \<leftarrow> h_mem (r_hist r) c;
          (case he_prev e of
             None \<Rightarrow> Some (Again, r)
           | Some p \<Rightarrow> Some (Go True False, r\<lparr>r_cur := Some p\<rparr>)) })"

definition history_down :: "'w reader \<Rightarrow> (key_action \<times> 'w reader) option" where
  "history_down r =
     (case r_cur r of
        None \<Rightarrow> Some (Again, r)
      | Some c \<Rightarrow> do {
          e \<leftarrow> h_mem (r_hist r) c;
          Some (Go True False, r\<lparr>r_cur := (case he_next e of Some n \<Rightarrow> Some n | None \<Rightarrow> r_tmp r)\<rparr>) })"

definition cursor_left :: "key \<Rightarrow> 'w reader \<Rightarrow> key_action \<times> 'w reader" where
  "cursor_left k r =
     (if r_cursor r = 0 then (Again, r)
      else (Go False True, r\<lparr>r_cursor :=
        (if key_has mbit_shift k \<or> key_ctrl k then if r_cursor r < 10 then 0 else r_cursor r - 10
         else r_cursor r - 1)\<rparr>))"

definition cursor_right :: "key \<Rightarrow> 'w reader \<Rightarrow> key_action \<times> 'w reader" where
  "cursor_right k r =
     (let len = s_len (r_str r) in
      if len \<le> r_cursor r then (Again, r)
      else (Go False True, r\<lparr>r_cursor :=
        (if key_has mbit_shift k \<or> key_ctrl k then if len < r_cursor r + 10 then len else r_cursor r + 10
         else r_cursor r + 1)\<rparr>))"

definition key_switch :: "str_heap \<Rightarrow> key \<Rightarrow> 'w reader \<Rightarrow> (key_action \<times> 'w reader) option" where
  "key_switch alloc k r =
     (if k_scan k = scan_up then history_up alloc r
      else if k_scan k = scan_down then history_down r
      else if k_scan k = scan_left then Some (cursor_left k r)
      else if k_scan k = scan_right then Some (cursor_right k r)
      else Some (Go False False, r))"

text \<open>Backspace, and the insertion of a character.\<close>

definition edit_key ::
  "'w port_ops \<Rightarrow> window \<Rightarrow> str_heap \<Rightarrow> key \<Rightarrow> bool \<Rightarrow> bool \<Rightarrow> 'w reader \<Rightarrow> 'w reader option"
where
  "edit_key ops w alloc k hist curs r =
     (if k_asc k = 8
      then if r_cursor r \<noteq> 0
           then do {
             (t, s) \<leftarrow> cga_backspace ops w alloc (Some (r_str r)) (r_cursor r - 1) (r_out r);
             t \<leftarrow> t;
             Some (r\<lparr>r_str := t, r_out := s, r_cursor := r_cursor r - 1\<rparr>) }
           else Some r
      else if \<not> hist \<and> \<not> curs
      then do {
        t \<leftarrow> insert_char alloc (r_cursor r) (k_asc k) (r_str r);
        Some (r\<lparr>r_str := t, r_cursor := r_cursor r + 1\<rparr>) }
      else Some r)"

definition out_width :: "window \<Rightarrow> u32" where
  "out_width w = word_of_int (w_to_col w - w_from_col w + 1)"

definition out_setpos :: "'w port_ops \<Rightarrow> window \<Rightarrow> u32 \<Rightarrow> u32 \<Rightarrow> 'w cgas ostream \<Rightarrow> 'w cgas ostream" where
  "out_setpos ops w x y s =
     (let d = o_dev s in s\<lparr>o_dev := d\<lparr>g_cga := setpos ops w (sint x) (sint y) (g_cga d)\<rparr>\<rparr>)"

text \<open>The division by the width of the window faults if it is 0.\<close>

definition out_rows :: "window \<Rightarrow> u32 \<Rightarrow> u32 option" where
  "out_rows w n = (if out_width w = 0 then None else Some (n div out_width w))"

text \<open>The cursor of the window is put behind \<open>n\<close> characters of the line.\<close>

definition show_cursor ::
  "'w port_ops \<Rightarrow> window \<Rightarrow> u32 \<Rightarrow> u32 \<Rightarrow> u32 \<Rightarrow> 'w cgas ostream \<Rightarrow> 'w cgas ostream option"
where
  "show_cursor ops w x_start n y_start s = do {
     rows \<leftarrow> out_rows w (x_start + n);
     Some (out_setpos ops w (math_min (word_of_int (w_to_col w)) ((x_start + n) mod out_width w))
       (math_min (word_of_int (w_to_row w)) (rows + y_start)) s) }"

definition erase_line :: "'w port_ops \<Rightarrow> window \<Rightarrow> u32 \<Rightarrow> 'w reader \<Rightarrow> 'w reader option" where
  "erase_line ops w x_start r = do {
     let s = out_setpos ops w x_start (r_y r) (r_out r);
     s \<leftarrow> for_loop 0 (s_len (r_str r) + 1) (\<lambda>_ s. o_char (cga_flush ops w) 32 s) s;
     s \<leftarrow> o_flush (cga_flush ops w) s;
     Some (r\<lparr>r_out := s\<rparr>) }"

definition recall_line :: "str_heap \<Rightarrow> 'w reader \<Rightarrow> 'w reader option" where
  "recall_line alloc r =
     (case r_cur r of
        None \<Rightarrow> Some r
      | Some c \<Rightarrow> do {
          e \<leftarrow> h_mem (r_hist r) c;
          t \<leftarrow> str_assign alloc (he_str e) (r_str r);
          let r = r\<lparr>r_str := t, r_cursor := s_len t\<rparr>;
          Some (if r_tmp r = Some c then r\<lparr>r_hist := delete_entry c (r_hist r), r_tmp := None, r_cur := None\<rparr>
                else r) })"

definition show_line :: "'w port_ops \<Rightarrow> window \<Rightarrow> str_heap \<Rightarrow> u32 \<Rightarrow> 'w reader \<Rightarrow> 'w reader option" where
  "show_line ops w alloc x_start r = do {
     (t, s) \<leftarrow> o_string (cga_flush ops w) alloc (r_str r) (out_setpos ops w x_start (r_y r) (r_out r));
     s \<leftarrow> o_flush (cga_flush ops w) s;
     s \<leftarrow> show_cursor ops w x_start (r_cursor r) (r_y r) s;
     Some (r\<lparr>r_str := t, r_out := s\<rparr>) }"

text \<open>The rest of a round behind the \<^verbatim>\<open>switch\<close>.\<close>

definition finish_round ::
  "'w port_ops \<Rightarrow> window \<Rightarrow> str_heap \<Rightarrow> u32 \<Rightarrow> key \<Rightarrow> bool \<Rightarrow> bool \<Rightarrow> 'w reader \<Rightarrow> 'w reader option"
where
  "finish_round ops w alloc x_start k hist curs r = do {
     r \<leftarrow> edit_key ops w alloc k hist curs r;
     num_rows \<leftarrow> out_rows w (x_start + s_len (r_str r));
     let scrollup = (word_of_int (w_to_row w) < r_y r + num_rows);
     r \<leftarrow> (if hist \<or> scrollup \<or> k_asc k = 8 then erase_line ops w x_start r else Some r);
     let r = (if scrollup then r\<lparr>r_y := r_y r - 1\<rparr> else r);
     r \<leftarrow> (if hist then recall_line alloc r else Some r);
     r \<leftarrow> show_line ops w alloc x_start r;
     num_rows_new \<leftarrow> out_rows w (x_start + s_len (r_str r));
     Some (if hist \<and> r_y r + num_rows = word_of_int (w_to_row w) \<and> num_rows < num_rows_new
           then r\<lparr>r_y := r_y r - (num_rows_new - num_rows)\<rparr> else r) }"

definition read_key :: "'w port_ops \<Rightarrow> window \<Rightarrow> str_heap \<Rightarrow> u32 \<Rightarrow> key \<Rightarrow> 'w reader \<Rightarrow> 'w reader option" where
  "read_key ops w alloc x_start k r = do {
     (act, r) \<leftarrow> key_switch alloc k r;
     (case act of Again \<Rightarrow> Some r | Go hist curs \<Rightarrow> finish_round ops w alloc x_start k hist curs r) }"

text \<open>The loop on the keys that \<^verbatim>\<open>getkey\<close> delivers; \<open>None\<close> if they do not suffice.\<close>

fun read_keys ::
  "'w port_ops \<Rightarrow> window \<Rightarrow> str_heap \<Rightarrow> u32 \<Rightarrow> u32 \<Rightarrow> key list \<Rightarrow> 'w reader \<Rightarrow> (key list \<times> 'w reader) option"
where
  "read_keys ops w alloc x_start count [] r = (if s_len (r_str r) < count then None else Some ([], r))"
| "read_keys ops w alloc x_start count (k # ks) r =
     (if \<not> s_len (r_str r) < count then Some (k # ks, r)
      else if key_ctrl k \<and> (k_asc k = 100 \<or> k_asc k = 68) then Some (ks, r)
      else if k_asc k = 10 then do { t \<leftarrow> append_char alloc 10 (r_str r); Some (ks, r\<lparr>r_str := t\<rparr>) }
      else do { r \<leftarrow> read_key ops w alloc x_start k r; read_keys ops w alloc x_start count ks r })"

definition shell_read ::
  "'w port_ops \<Rightarrow> window \<Rightarrow> str_heap \<Rightarrow> u32 \<Rightarrow> key list \<Rightarrow> str \<Rightarrow> history \<Rightarrow> 'w cgas ostream \<Rightarrow>
     (u32 \<times> key list \<times> str \<times> history \<times> 'w cgas ostream) option"
where
  "shell_read ops w alloc count ks str h s = do {
     let d = o_dev s;
     let ((x, y), g) = getpos ops w (g_cga d);
     let x_start = word_of_int x;
     (ks, r) \<leftarrow> read_keys ops w alloc x_start count ks
        \<lparr>r_str = str_clear str, r_cursor = 0, r_cur = None, r_tmp = None, r_y = word_of_int y, r_hist = h,
         r_out = s\<lparr>o_dev := d\<lparr>g_cga := g\<rparr>\<rparr>\<rparr>;
     s \<leftarrow> show_cursor ops w x_start (s_len (r_str r)) (r_y r) (r_out r);
     s \<leftarrow> o_endl (cga_flush ops w) s;
     Some (s_len (r_str r), ks, r_str r, (case r_tmp r of None \<Rightarrow> r_hist r | Some t \<Rightarrow> delete_entry t (r_hist r)), s) }"

end
