(* ===== verification/ShellCommands.thy ===== *)
theory ShellCommands
  imports Shell StringOps Cmos Keyboard
begin

section \<open>user/shell: the commands and the main loop\<close>

text \<open>
  \<open>shell\<close> holds the window of the shell, the four debug windows, the clock and the history. The
  windows share the screen memory and the hardware, which travel with \<open>sh_out\<close>. An output
  statement is executed from left to right; before C++17 the order in which its arguments
  are evaluated is up to the compiler. \<^verbatim>\<open>Secure\<close> only enters and leaves the guard.
\<close>

record 'w shell =
  sh_out :: "'w cgas ostream"
  sh_douts :: "'w cgas ostream list"
  sh_rtc :: rtc
  sh_hist :: history

definition color_of :: "color \<Rightarrow> attribute" where
  "color_of c = attribute_new c BLACK False"

subsection \<open>Output and the hardware\<close>

type_synonym 'w outp = "'w cgas ostream \<Rightarrow> 'w cgas ostream option"

definition print_lit :: "'w outp \<Rightarrow> string \<Rightarrow> 'w cgas ostream \<Rightarrow> 'w cgas ostream option" where
  "print_lit fl cs s = o_puts fl (ascii cs) s"

definition print_string :: "'w outp \<Rightarrow> str_heap \<Rightarrow> str \<Rightarrow> 'w cgas ostream \<Rightarrow> (str \<times> 'w cgas ostream) option" where
  "print_string fl alloc t s = o_string fl alloc t s"

definition perror :: "'w outp \<Rightarrow> str_heap \<Rightarrow> str \<Rightarrow> string \<Rightarrow> 'w cgas ostream \<Rightarrow> 'w cgas ostream option" where
  "perror fl alloc cmd error s = do {
     cmd \<leftarrow> str_dup alloc cmd;
     (_, s) \<leftarrow> print_string fl alloc cmd s;
     s \<leftarrow> print_lit fl '': '' s;
     s \<leftarrow> print_lit fl error s;
     o_endl fl s }"

definition with_out :: "('w cgas ostream \<Rightarrow> 'w cgas ostream option) \<Rightarrow> 'w shell \<Rightarrow> 'w shell option" where
  "with_out f sh = map_option (\<lambda>s. sh\<lparr>sh_out := s\<rparr>) (f (sh_out sh))"

text \<open>A debug window draws on the same screen as the window of the shell.\<close>

definition share_screen :: "'w cgas ostream \<Rightarrow> 'w cgas ostream \<Rightarrow> 'w cgas ostream" where
  "share_screen s t = t\<lparr>o_dev := (o_dev t)\<lparr>g_cga := (g_cga (o_dev t))\<lparr>c_mem := c_mem (g_cga (o_dev s)),
     c_hw := c_hw (g_cga (o_dev s))\<rparr>\<rparr>\<rparr>"

definition with_dout :: "'w port_ops \<Rightarrow> nat \<Rightarrow> ('w outp \<Rightarrow> 'w cgas ostream \<Rightarrow> 'w cgas ostream option) \<Rightarrow> 'w shell \<Rightarrow> 'w shell option" where
  "with_dout ops i f sh = do {
     t \<leftarrow> f (cga_flush ops (kernel_windows ! (i + 1))) (share_screen (sh_out sh) (sh_douts sh ! i));
     Some (sh\<lparr>sh_douts := (sh_douts sh)[i := t], sh_out := share_screen t (sh_out sh)\<rparr>) }"

definition with_hw :: "('w \<Rightarrow> 'w option) \<Rightarrow> 'w shell \<Rightarrow> 'w shell option" where
  "with_hw f sh = (let s = sh_out sh; d = o_dev s; g = g_cga d in
     map_option (\<lambda>hw. sh\<lparr>sh_out := s\<lparr>o_dev := d\<lparr>g_cga := g\<lparr>c_hw := hw\<rparr>\<rparr>\<rparr>\<rparr>) (f (c_hw g)))"

definition with_rtc :: "(rtc \<Rightarrow> 'w \<Rightarrow> (rtc \<times> 'w) option) \<Rightarrow> 'w shell \<Rightarrow> 'w shell option" where
  "with_rtc f sh = do {
     (r, hw) \<leftarrow> f (sh_rtc sh) (c_hw (g_cga (o_dev (sh_out sh))));
     with_hw (\<lambda>_. Some hw) (sh\<lparr>sh_rtc := r\<rparr>) }"

subsection \<open>Arguments\<close>

definition arg_tok :: "str_heap \<Rightarrow> string \<Rightarrow> str \<Rightarrow> (str \<times> str) option" where
  "arg_tok alloc delim s = do { d \<leftarrow> str_from alloc (ascii delim); strtok alloc d s }"

definition is_word :: "str_heap \<Rightarrow> str \<Rightarrow> string \<Rightarrow> bool option" where
  "is_word alloc s lit = do { t \<leftarrow> str_from alloc (ascii lit); streq s t }"

definition arg_u16 :: "str_heap \<Rightarrow> str \<Rightarrow> u16 option" where
  "arg_u16 alloc s = do { (v, _) \<leftarrow> strtol alloc s 0; Some (word_of_int v) }"

text \<open>The chain of comparisons, in its order.\<close>

datatype shell_command = Test | Yes | Time | Cpu nat | Reboot | Nullptr | Hex | Strtol | Strtok | Strcmp | Insert | Set | Unknown

definition command_table :: "(string \<times> shell_command) list" where
  "command_table = [(''test'', Test), (''yes'', Yes), (''time'', Time), (''date'', Time), (''cpu0'', Cpu 0),
     (''cpu1'', Cpu 1), (''cpu2'', Cpu 2), (''cpu3'', Cpu 3), (''reboot'', Reboot), (''restart'', Reboot),
     (''nullptr'', Nullptr), (''hex'', Hex), (''strtol'', Strtol), (''strtok'', Strtok), (''strcmp'', Strcmp),
     (''insert'', Insert), (''set'', Set)]"

fun find_command :: "str_heap \<Rightarrow> str \<Rightarrow> (string \<times> shell_command) list \<Rightarrow> shell_command option" where
  "find_command alloc cmd [] = Some Unknown"
| "find_command alloc cmd ((lit, c) # table) = do {
     b \<leftarrow> is_word alloc cmd lit;
     if b then Some c else find_command alloc cmd table }"

subsection \<open>The commands\<close>

definition color_line :: "'w port_ops \<Rightarrow> window \<Rightarrow> color \<Rightarrow> string \<Rightarrow> 'w cgas ostream \<Rightarrow> 'w cgas ostream option" where
  "color_line ops w c cs s = do {
     s \<leftarrow> cga_attribute ops w (Some (color_of c)) s;
     s \<leftarrow> print_lit (cga_flush ops w) cs s;
     s \<leftarrow> cga_attribute ops w None s;
     o_endl (cga_flush ops w) s }"

definition cmd_hex :: "'w outp \<Rightarrow> 'w cgas ostream \<Rightarrow> 'w cgas ostream option" where
  "cmd_hex fl s = do { s \<leftarrow> o_int fl (- 1) (o_hex s); o_endl fl (o_dec s) }"

definition cmd_strtol :: "'w outp \<Rightarrow> str_heap \<Rightarrow> str \<Rightarrow> 'w cgas ostream \<Rightarrow> 'w cgas ostream option" where
  "cmd_strtol fl alloc str s = do {
     (num, str) \<leftarrow> arg_tok alloc '' '' str;
     (tmp, str) \<leftarrow> arg_tok alloc '' '' str;
     (base, error) \<leftarrow> strtol alloc tmp 0;
     (base, s) \<leftarrow> (if \<not> str_empty tmp \<and> error
       then do {
         s \<leftarrow> print_lit fl ''base invalid, using autodetect'' s;
         s \<leftarrow> o_endl fl s;
         Some (0, s) }
       else Some (base, s));
     (v, error) \<leftarrow> strtol alloc num base;
     s \<leftarrow> o_long fl (word_of_int v) s;
     s \<leftarrow> print_lit fl (if error then '' (error!)'' else []) s;
     o_endl fl s }"

partial_function (option) strtok_lines :: "'w outp \<Rightarrow> str_heap \<Rightarrow> str \<Rightarrow> str \<Rightarrow> 'w cgas ostream \<Rightarrow> 'w cgas ostream option" where
  "strtok_lines fl alloc arg str s = do {
     (t, str) \<leftarrow> arg_tok alloc '' '' str;
     arg \<leftarrow> str_assign alloc t arg;
     if str_empty arg then Some s
     else do {
       (arg, s) \<leftarrow> print_string fl alloc arg s;
       s \<leftarrow> o_endl fl s;
       strtok_lines fl alloc arg str s } }"

definition cmd_strtok :: "'w outp \<Rightarrow> str_heap \<Rightarrow> str \<Rightarrow> 'w cgas ostream \<Rightarrow> 'w cgas ostream option" where
  "cmd_strtok fl alloc str s = strtok_lines fl alloc str_new str s"

definition cmd_strcmp :: "'w outp \<Rightarrow> str_heap \<Rightarrow> str \<Rightarrow> str \<Rightarrow> 'w cgas ostream \<Rightarrow> 'w cgas ostream option" where
  "cmd_strcmp fl alloc cmd str s = do {
     (str1, str) \<leftarrow> arg_tok alloc '' '' str;
     (str2, str) \<leftarrow> arg_tok alloc '' '' str;
     if str_empty str1 \<or> str_empty str2
     then perror fl alloc cmd ''usage: strcmp <str1> <str2>'' s
     else do {
       s \<leftarrow> print_lit fl ''result of comparison: '' s;
       r \<leftarrow> strcmp str1 str2;
       s \<leftarrow> o_int fl (word_of_int r) s;
       o_endl fl s } }"

definition cmd_insert :: "'w outp \<Rightarrow> str_heap \<Rightarrow> str \<Rightarrow> str \<Rightarrow> 'w cgas ostream \<Rightarrow> 'w cgas ostream option" where
  "cmd_insert fl alloc cmd str s = do {
     (t, str) \<leftarrow> arg_tok alloc '' '' str;
     (ins, str) \<leftarrow> arg_tok alloc '' '' str;
     (pos_s, str) \<leftarrow> arg_tok alloc '' '' str;
     if str_empty t \<or> str_empty ins
     then perror fl alloc cmd ''usage: insert <str> <insert_str> <pos>'' s
     else do {
       (pos, _) \<leftarrow> strtol alloc pos_s 0;
       s \<leftarrow> print_lit fl ''inserting '' s;
       (ins, s) \<leftarrow> print_string fl alloc ins s;
       s \<leftarrow> print_lit fl '' into '' s;
       (t, s) \<leftarrow> print_string fl alloc t s;
       s \<leftarrow> print_lit fl '' at '' s;
       s \<leftarrow> o_long fl (word_of_int pos) s;
       s \<leftarrow> print_lit fl '':'' s;
       s \<leftarrow> o_endl fl s;
       t \<leftarrow> str_insert alloc (word_of_int pos) ins t;
       (t, s) \<leftarrow> print_string fl alloc t s;
       o_endl fl s } }"

definition set_time_cmd :: "'w port_ops \<Rightarrow> window \<Rightarrow> str_heap \<Rightarrow> str \<Rightarrow> str \<Rightarrow> 'w shell \<Rightarrow> 'w shell option" where
  "set_time_cmd ops w alloc cmd str sh = do {
     (hour_s, str) \<leftarrow> arg_tok alloc '' :/-,.'' str;
     (minute_s, str) \<leftarrow> arg_tok alloc '' :/-,.'' str;
     (second_s, str) \<leftarrow> arg_tok alloc '' :/-,.'' str;
     if str_empty hour_s \<or> str_empty minute_s \<or> str_empty second_s
     then with_out (perror (cga_flush ops w) alloc cmd ''usage: set time <hour> <minute> <second>'') sh
     else do {
       h \<leftarrow> arg_u16 alloc hour_s;
       sh \<leftarrow> with_hw (rtc_set_local_hour ops h (sh_rtc sh)) sh;
       m \<leftarrow> arg_u16 alloc minute_s;
       sh \<leftarrow> with_hw (rtc_set_minute ops m) sh;
       v \<leftarrow> arg_u16 alloc second_s;
       sh \<leftarrow> with_hw (rtc_set_second ops v) sh;
       with_rtc (rtc_update_time ops) sh } }"

definition set_timezone_cmd :: "'w port_ops \<Rightarrow> window \<Rightarrow> str_heap \<Rightarrow> str \<Rightarrow> 'w shell \<Rightarrow> 'w shell option" where
  "set_timezone_cmd ops w alloc str sh = do {
     (zone_s, str) \<leftarrow> arg_tok alloc '' '' str;
     if str_empty zone_s
     then with_out (\<lambda>s. do {
       s \<leftarrow> print_lit (cga_flush ops w) ''current timezone: '' s;
       s \<leftarrow> o_short (cga_flush ops w) (word_of_int (t_timezone (rtc_time (sh_rtc sh)))) s;
       o_endl (cga_flush ops w) s }) sh
     else do {
       z \<leftarrow> arg_u16 alloc zone_s;
       with_rtc (rtc_update_time ops) (sh\<lparr>sh_rtc := (sh_rtc sh)\<lparr>rtc_time := set_timezone (sint z) (rtc_time (sh_rtc sh))\<rparr>\<rparr>) } }"

definition set_date_cmd :: "'w port_ops \<Rightarrow> window \<Rightarrow> str_heap \<Rightarrow> str \<Rightarrow> str \<Rightarrow> 'w shell \<Rightarrow> 'w shell option" where
  "set_date_cmd ops w alloc cmd str sh = do {
     (day_s, str) \<leftarrow> arg_tok alloc '' :/-,.'' str;
     (month_s, str) \<leftarrow> arg_tok alloc '' :/-,.'' str;
     (year_s, str) \<leftarrow> arg_tok alloc '' :/-,.'' str;
     (weekday_s, str) \<leftarrow> arg_tok alloc '' :/-,.'' str;
     if str_empty day_s \<or> str_empty month_s \<or> str_empty year_s
     then with_out (perror (cga_flush ops w) alloc cmd ''usage: set date <day> <month> <year> [<numeric weekday>]'') sh
     else do {
       d \<leftarrow> arg_u16 alloc day_s;
       sh \<leftarrow> with_hw (rtc_set_day ops d) sh;
       m \<leftarrow> arg_u16 alloc month_s;
       sh \<leftarrow> with_hw (rtc_set_month ops m) sh;
       y \<leftarrow> arg_u16 alloc year_s;
       sh \<leftarrow> with_hw (rtc_set_real_year ops y) sh;
       sh \<leftarrow> (if \<not> str_empty weekday_s
             then do { v \<leftarrow> arg_u16 alloc weekday_s; with_hw (rtc_set_weekday ops v) sh }
             else Some sh);
       with_rtc (rtc_update_time ops) sh } }"

definition cmd_set :: "'w port_ops \<Rightarrow> window \<Rightarrow> str_heap \<Rightarrow> str \<Rightarrow> str \<Rightarrow> 'w shell \<Rightarrow> 'w shell option" where
  "cmd_set ops w alloc cmd str sh = do {
     (subcmd, str) \<leftarrow> arg_tok alloc '' '' str;
     time \<leftarrow> is_word alloc subcmd ''time'';
     if time then set_time_cmd ops w alloc cmd str sh
     else do {
       zone \<leftarrow> is_word alloc subcmd ''timezone'';
       if zone then set_timezone_cmd ops w alloc str sh
       else do {
         date \<leftarrow> is_word alloc subcmd ''date'';
         if date then set_date_cmd ops w alloc cmd str sh
         else with_out (perror (cga_flush ops w) alloc cmd ''usage: set <time|timezone|date>'') sh } } }"

definition run_command ::
  "'w port_ops \<Rightarrow> window \<Rightarrow> str_heap \<Rightarrow> shell_command \<Rightarrow> str \<Rightarrow> str \<Rightarrow> 'w shell \<Rightarrow> 'w shell option"
where
  "run_command ops w alloc c cmd str sh =
     (let fl = cga_flush ops w in
      case c of
        Test \<Rightarrow> with_out (color_line ops w GREEN ''success :)'') sh
      | Yes \<Rightarrow> with_out (color_line ops w YELLOW ''no'') sh
      | Time \<Rightarrow> with_out (\<lambda>s. do { s \<leftarrow> o_time fl (rtc_time (sh_rtc sh)) s; o_endl fl s }) sh
      | Cpu i \<Rightarrow> with_dout ops i (\<lambda>fl t. do { t \<leftarrow> print_lit fl ''sup bitch'' t; o_endl fl t }) sh
      | Reboot \<Rightarrow> with_hw (\<lambda>hw. Some (kb_reboot ops hw)) sh
      | Nullptr \<Rightarrow> with_out (\<lambda>s. do { s \<leftarrow> print_lit fl ''nullptr: '' s; s \<leftarrow> o_pointer fl 0 s; o_endl fl s }) sh
      | Hex \<Rightarrow> with_out (cmd_hex fl) sh
      | Strtol \<Rightarrow> with_out (cmd_strtol fl alloc str) sh
      | Strtok \<Rightarrow> with_out (cmd_strtok fl alloc str) sh
      | Strcmp \<Rightarrow> with_out (cmd_strcmp fl alloc cmd str) sh
      | Insert \<Rightarrow> with_out (cmd_insert fl alloc cmd str) sh
      | Set \<Rightarrow> cmd_set ops w alloc cmd str sh
      | Unknown \<Rightarrow> with_out (perror fl alloc cmd ''command not found'') sh)"

definition process_input ::
  "'w port_ops \<Rightarrow> window \<Rightarrow> str_heap \<Rightarrow> str option \<Rightarrow> str \<Rightarrow> 'w shell \<Rightarrow> 'w shell option"
where
  "process_input ops w alloc null_str str sh = do {
     str \<leftarrow> remove_lf alloc str;
     if str_empty str then Some sh
     else do {
       h \<leftarrow> history_add alloc null_str str (sh_hist sh);
       (cmd, str) \<leftarrow> arg_tok alloc '' '' str;
       c \<leftarrow> find_command alloc cmd command_table;
       run_command ops w alloc c cmd str (sh\<lparr>sh_hist := h\<rparr>) } }"

subsection \<open>The main loop\<close>

partial_function (option) shell_loop ::
  "'w port_ops \<Rightarrow> window \<Rightarrow> str_heap \<Rightarrow> str option \<Rightarrow> str \<Rightarrow> key list \<Rightarrow> 'w shell \<Rightarrow> (key list \<times> 'w shell) option"
where
  "shell_loop ops w alloc null_str prompt ks sh = do {
     s \<leftarrow> cga_attribute ops w (Some (color_of WHITE)) (sh_out sh);
     (prompt, s) \<leftarrow> print_string (cga_flush ops w) alloc prompt s;
     s \<leftarrow> cga_attribute ops w None s;
     s \<leftarrow> o_flush (cga_flush ops w) s;
     (n, ks, str, h, s) \<leftarrow> shell_read ops w alloc 512 ks str_new (sh_hist sh) s;
     let sh = sh\<lparr>sh_out := s, sh_hist := h\<rparr>;
     if n = 0 then Some (ks, sh)
     else do {
       sh \<leftarrow> process_input ops w alloc null_str str sh;
       shell_loop ops w alloc null_str prompt ks sh } }"

definition shell_start ::
  "'w port_ops \<Rightarrow> window \<Rightarrow> str_heap \<Rightarrow> str option \<Rightarrow> (int \<Rightarrow> pixel) option \<Rightarrow> key list \<Rightarrow> backup \<Rightarrow> 'w shell \<Rightarrow>
     (key list \<times> backup \<times> 'w shell) option"
where
  "shell_start ops w alloc null_str fresh ks b sh = do {
     prompt \<leftarrow> str_from alloc (ascii ''$ '');
     (b, s) \<leftarrow> shell_backup ops w fresh b (sh_out sh);
     let s = cga_stream_reset ops w 32 s;
     s \<leftarrow> cga_attribute ops w (Some (color_of GREEN)) s;
     s \<leftarrow> print_lit (cga_flush ops w) ''Welcome to bsh (Best SHell)! '' s;
     s \<leftarrow> o_char (cga_flush ops w) 1 s;
     s \<leftarrow> cga_attribute ops w None s;
     s \<leftarrow> o_endl (cga_flush ops w) s;
     (ks, sh) \<leftarrow> shell_loop ops w alloc null_str prompt ks (sh\<lparr>sh_out := s\<rparr>);
     h \<leftarrow> history_destroy (sh_hist sh);
     (b, s) \<leftarrow> shell_restore ops w b (sh_out sh);
     Some (ks, b, sh\<lparr>sh_out := s, sh_hist := h\<rparr>) }"

end
