(* ===== verification/ShellEdit.thy ===== *)
theory ShellEdit
  imports Shell StringOps
begin

section \<open>What the line editor of the shell does\<close>

text \<open>
  \<open>editor\<close> is the line editor that \<^verbatim>\<open>Shell::read\<close> implements: a text with a position in it, the
  place in the history that is shown, and the line that was left to browse the history. The
  relation \<open>edits\<close> connects it with the pointers and words of theory \<open>Shell\<close>; every key keeps it.
\<close>

record editor =
  e_text :: "u8 list"
  e_pos :: nat
  e_browse :: "nat option"
  e_saved :: "u8 list"

definition ed_width :: "key \<Rightarrow> nat" where
  "ed_width k = (if key_has mbit_shift k \<or> key_ctrl k then 10 else 1)"

definition ed_show :: "u8 list \<Rightarrow> nat option \<Rightarrow> editor \<Rightarrow> editor" where
  "ed_show xs i e = e\<lparr>e_text := xs, e_pos := length xs, e_browse := i\<rparr>"

definition ed_up :: "u8 list list \<Rightarrow> editor \<Rightarrow> editor" where
  "ed_up hs e = (case e_browse e of
     None \<Rightarrow> if hs = [] then e else ed_show (last hs) (Some (length hs - 1)) (e\<lparr>e_saved := e_text e\<rparr>)
   | Some i \<Rightarrow> if i = 0 then e else ed_show (hs ! (i - 1)) (Some (i - 1)) e)"

definition ed_down :: "u8 list list \<Rightarrow> editor \<Rightarrow> editor" where
  "ed_down hs e = (case e_browse e of
     None \<Rightarrow> e
   | Some i \<Rightarrow> if Suc i < length hs then ed_show (hs ! Suc i) (Some (Suc i)) e else ed_show (e_saved e) None e)"

definition ed_key :: "u8 list list \<Rightarrow> key \<Rightarrow> editor \<Rightarrow> editor" where
  "ed_key hs k e =
     (if k_scan k = scan_up then ed_up hs e
      else if k_scan k = scan_down then ed_down hs e
      else if k_scan k = scan_left then e\<lparr>e_pos := e_pos e - ed_width k\<rparr>
      else if k_scan k = scan_right then e\<lparr>e_pos := min (length (e_text e)) (e_pos e + ed_width k)\<rparr>
      else if k_asc k = 8
      then if e_pos e = 0 then e
           else e\<lparr>e_text := take (e_pos e - 1) (e_text e) @ drop (e_pos e) (e_text e), e_pos := e_pos e - 1\<rparr>
      else e\<lparr>e_text := take (e_pos e) (e_text e) @ k_asc k # drop (e_pos e) (e_text e), e_pos := e_pos e + 1\<rparr>)"

fun ed_keys :: "u8 list list \<Rightarrow> nat \<Rightarrow> key list \<Rightarrow> editor \<Rightarrow> (key list \<times> u8 list) option" where
  "ed_keys hs count [] e = (if length (e_text e) < count then None else Some ([], e_text e))"
| "ed_keys hs count (k # ks) e =
     (if \<not> length (e_text e) < count then Some (k # ks, e_text e)
      else if key_ctrl k \<and> (k_asc k = 100 \<or> k_asc k = 68) then Some (ks, e_text e)
      else if k_asc k = 10 then Some (ks, e_text e @ [10])
      else ed_keys hs count ks (ed_key hs k e))"

definition ed_start :: editor where
  "ed_start = \<lparr>e_text = [], e_pos = 0, e_browse = None, e_saved = []\<rparr>"

text \<open>The arrow keys carry no backspace.\<close>

definition editor_key :: "key \<Rightarrow> bool" where
  "editor_key k \<longleftrightarrow> k_scan k \<in> {scan_up, scan_down, scan_left, scan_right} \<longrightarrow> k_asc k \<noteq> 8"

subsection \<open>The history as a list\<close>

definition hist_node :: "(nat \<Rightarrow> hist_entry option) \<Rightarrow> nat list \<Rightarrow> u8 list list \<Rightarrow> nat \<Rightarrow> bool" where
  "hist_node mem ps hs i \<longleftrightarrow> (\<exists>t. str_rep t (hs ! i) \<and>
     mem (ps ! i) = Some \<lparr>he_str = t, he_prev = (if i = 0 then None else Some (ps ! (i - 1))),
       he_next = (if Suc i < length ps then Some (ps ! Suc i) else None)\<rparr>)"

definition hist_nodes :: "(nat \<Rightarrow> hist_entry option) \<Rightarrow> nat list \<Rightarrow> u8 list list \<Rightarrow> bool" where
  "hist_nodes mem ps hs \<longleftrightarrow> length ps = length hs \<and> distinct ps \<and> (\<forall>i < length ps. hist_node mem ps hs i)"

definition tail_of :: "nat list \<Rightarrow> nat option" where
  "tail_of ps = (if ps = [] then None else Some (last ps))"

definition hist_at :: "history \<Rightarrow> nat list \<Rightarrow> u8 list list \<Rightarrow> bool" where
  "hist_at h ps hs \<longleftrightarrow> hist_nodes (h_mem h) ps hs \<and> h_tail h = tail_of ps \<and> (\<forall>p. h_mem h p \<noteq> None \<longrightarrow> p < h_new h)"

definition hist_rep :: "history \<Rightarrow> u8 list list \<Rightarrow> bool" where
  "hist_rep h hs \<longleftrightarrow> (\<exists>ps. hist_at h ps hs \<and> dom (h_mem h) = set ps)"

lemma hist_new_rep: "hist_rep history_new []"
  by (simp add: hist_rep_def hist_at_def hist_nodes_def tail_of_def history_new_def)

lemma hist_nodes_at:
  assumes "hist_nodes mem ps hs" "i < length ps"
  obtains t where "str_rep t (hs ! i)" "mem (ps ! i) = Some \<lparr>he_str = t,
    he_prev = (if i = 0 then None else Some (ps ! (i - 1))), he_next = (if Suc i < length ps then Some (ps ! Suc i) else None)\<rparr>"
  using assms unfolding hist_nodes_def hist_node_def by blast

lemma hist_nodes_other:
  assumes "hist_nodes mem ps hs" "p \<notin> set ps"
  shows "hist_nodes (mem(p := v)) ps hs"
proof -
  have "hist_node (mem(p := v)) ps hs i = hist_node mem ps hs i" if "i < length ps" for i
  proof -
    have "ps ! i \<noteq> p" using assms(2) that by auto
    then show ?thesis by (simp add: hist_node_def)
  qed
  with assms(1) show ?thesis by (simp add: hist_nodes_def)
qed

lemma hist_nodes_mem:
  assumes "hist_nodes mem ps hs" "p \<in> set ps"
  shows "mem p \<noteq> None"
proof -
  obtain i where "i < length ps" "p = ps ! i" using assms(2) by (auto simp: in_set_conv_nth)
  with assms(1) show ?thesis by (auto elim: hist_nodes_at)
qed

lemma hist_nodes_length: "hist_nodes mem ps hs \<Longrightarrow> length ps = length hs"
  by (simp add: hist_nodes_def)

lemma hist_nodes_last:
  assumes "hist_nodes mem ps hs" "hs \<noteq> []"
  obtains t prev where "str_rep t (last hs)" "mem (last ps) = Some \<lparr>he_str = t, he_prev = prev, he_next = None\<rparr>"
proof -
  have len: "length ps = length hs" "ps \<noteq> []" using assms hist_nodes_length [OF assms(1)] by auto
  have "length ps - 1 < length ps" using len(2) by (metis diff_less length_greater_0_conv zero_less_one)
  then obtain t where t: "str_rep t (hs ! (length ps - 1))" "mem (ps ! (length ps - 1)) = Some \<lparr>he_str = t,
      he_prev = (if length ps - 1 = 0 then None else Some (ps ! (length ps - 1 - 1))),
      he_next = (if Suc (length ps - 1) < length ps then Some (ps ! Suc (length ps - 1)) else None)\<rparr>"
    using hist_nodes_at [OF assms(1)] by blast
  have "\<not> Suc (length ps - 1) < length ps" using len(2) by (cases ps) simp_all
  with t(2) have "mem (ps ! (length ps - 1)) = Some \<lparr>he_str = t,
      he_prev = (if length ps - 1 = 0 then None else Some (ps ! (length ps - 1 - 1))), he_next = None\<rparr>"
    by (simp only: if_False)
  then have "mem (last ps) = Some \<lparr>he_str = t,
      he_prev = (if length ps - 1 = 0 then None else Some (ps ! (length ps - 1 - 1))), he_next = None\<rparr>"
    by (simp only: last_conv_nth [OF len(2)])
  moreover have "str_rep t (last hs)" using t(1) len(1) assms(2) by (simp add: last_conv_nth)
  ultimately show thesis by (intro that)
qed

lemma new_entry_rep:
  assumes "str_rep s xs" "mem_ok alloc (length xs)"
  shows "\<exists>t h'. new_entry alloc s h = Some (h_new h, h') \<and> str_rep t xs \<and> h_tail h' = h_tail h \<and> h_new h' = Suc (h_new h) \<and>
    h_mem h' = (h_mem h)(h_new h \<mapsto> \<lparr>he_str = t, he_prev = None, he_next = None\<rparr>)"
proof -
  obtain t where "str_dup alloc s = Some t" "str_rep t xs" using str_dup_rep [OF assms] by (rule yieldsE)
  then show ?thesis by (auto simp: new_entry_def)
qed

text \<open>\<^verbatim>\<open>history_add\<close> appends a line to the list, unless it is the last one already.\<close>

lemma hist_nodes_snoc:
  assumes "hist_nodes mem ps hs" "n \<notin> set ps" "str_rep t xs" "hs \<noteq> []"
    and "mem (last ps) = Some e"
  shows "hist_nodes (mem(last ps \<mapsto> e\<lparr>he_next := Some n\<rparr>, n \<mapsto> \<lparr>he_str = t, he_prev = Some (last ps), he_next = None\<rparr>))
    (ps @ [n]) (hs @ [xs])"
proof -
  have len: "length ps = length hs" "ps \<noteq> []" "distinct ps" using assms(1,4) by (auto simp: hist_nodes_def)
  let ?mem = "mem(last ps \<mapsto> e\<lparr>he_next := Some n\<rparr>, n \<mapsto> \<lparr>he_str = t, he_prev = Some (last ps), he_next = None\<rparr>)"
  let ?ps = "ps @ [n]"
  have "\<exists>u. str_rep u ((hs @ [xs]) ! i) \<and> ?mem (?ps ! i) = Some \<lparr>he_str = u,
      he_prev = (if i = 0 then None else Some (?ps ! (i - 1))),
      he_next = (if Suc i < length ?ps then Some (?ps ! Suc i) else None)\<rparr>" if i: "i < length ?ps" for i
  proof (cases "i < length ps")
    case True
    obtain u where u: "str_rep u (hs ! i)" "mem (ps ! i) = Some \<lparr>he_str = u,
        he_prev = (if i = 0 then None else Some (ps ! (i - 1))),
        he_next = (if Suc i < length ps then Some (ps ! Suc i) else None)\<rparr>"
      using hist_nodes_at [OF assms(1) True] by blast
    have ne: "ps ! i \<noteq> n" using assms(2) True by auto
    have prev: "i \<noteq> 0 \<Longrightarrow> ?ps ! (i - 1) = ps ! (i - 1)" using True by (simp add: nth_append less_imp_diff_less)
    show ?thesis
    proof (cases "Suc i = length ps")
      case True
      then have "last ps = ps ! i" using len(2) by (simp add: last_conv_nth True [symmetric])
      with True u ne prev assms(5) len(1) i show ?thesis by (auto simp: nth_append)
    next
      case False
      then have "ps ! i \<noteq> last ps" using True len(2,3) by (simp add: last_conv_nth nth_eq_iff_index_eq)
      with True False u ne prev len(1) show ?thesis by (auto simp: nth_append)
    qed
  next
    case False
    then have "i = length ps" using i by simp
    with len assms(3,4) show ?thesis by (simp add: nth_append last_conv_nth)
  qed
  with assms(2) len show ?thesis by (simp add: hist_nodes_def hist_node_def)
qed

lemma history_add_rep:
  assumes "hist_rep h hs" "str_rep s xs" "mem_ok alloc (length xs)"
    and "hs = [] \<Longrightarrow> \<exists>t ys. null_str = Some t \<and> str_rep t ys \<and> ys \<noteq> xs"
  shows "\<exists>h'. history_add alloc null_str s h = Some h' \<and>
    hist_rep h' (if hs \<noteq> [] \<and> last hs = xs then hs else hs @ [xs])"
proof -
  obtain ps where ps: "hist_nodes (h_mem h) ps hs" "h_tail h = tail_of ps" "\<forall>p. h_mem h p \<noteq> None \<longrightarrow> p < h_new h"
    "dom (h_mem h) = set ps" using assms(1) by (auto simp: hist_rep_def hist_at_def)
  obtain t h' where new: "new_entry alloc s h = Some (h_new h, h')" "str_rep t xs" "h_tail h' = h_tail h"
    "h_new h' = Suc (h_new h)" "h_mem h' = (h_mem h)(h_new h \<mapsto> \<lparr>he_str = t, he_prev = None, he_next = None\<rparr>)"
    using new_entry_rep [OF assms(2,3)] by blast
  have fresh: "h_mem h (h_new h) = None" using ps(3) by (metis less_irrefl)
  then have n: "h_new h \<notin> set ps" using ps(4) by auto
  have below: "\<forall>p. h_mem h' p \<noteq> None \<longrightarrow> p < h_new h'" using ps(3) new(4,5) by (auto simp: less_Suc_eq)
  show ?thesis
  proof (cases "hs = []")
    case True
    then obtain u ys where u: "null_str = Some u" "str_rep u ys" "ys \<noteq> xs" using assms(4) by blast
    have "ps = []" using True ps(1) hist_nodes_length by fastforce
    moreover have "streq s u = Some False" using strcmp_rep [OF assms(2) u(2)] u(3) by (auto simp: streq_def)
    ultimately have run: "history_add alloc null_str s h = Some (h'\<lparr>h_tail := Some (h_new h)\<rparr>)"
      using u(1) new ps(2) by (simp add: history_add_def tail_of_def)
    have "dom (h_mem h') = {h_new h}" using new(5) ps(4) \<open>ps = []\<close> by simp
    moreover have "hist_nodes (h_mem h') [h_new h] [xs]" using new(2,5) by (simp add: hist_nodes_def hist_node_def)
    ultimately have "hist_rep (h'\<lparr>h_tail := Some (h_new h)\<rparr>) [xs]"
      using below unfolding hist_rep_def hist_at_def by (intro exI [of _ "[h_new h]"]) (simp add: tail_of_def)
    with run True show ?thesis by simp
  next
    case False
    then have len: "ps \<noteq> []" using ps(1) hist_nodes_length by fastforce
    obtain u prev where u: "str_rep u (last hs)" "h_mem h (last ps) = Some \<lparr>he_str = u, he_prev = prev, he_next = None\<rparr>"
      using hist_nodes_last [OF ps(1) False] by blast
    have eq: "streq s u = Some (xs = last hs)" using strcmp_rep [OF assms(2) u(1)] by (auto simp: streq_def)
    show ?thesis
    proof (cases "last hs = xs")
      case True
      with eq u False len ps(2) assms(1) show ?thesis by (simp add: history_add_def tail_of_def)
    next
      case ne: False
      let ?mem = "(h_mem h)(last ps \<mapsto> \<lparr>he_str = u, he_prev = prev, he_next = Some (h_new h)\<rparr>,
        h_new h \<mapsto> \<lparr>he_str = t, he_prev = Some (last ps), he_next = None\<rparr>)"
      have l: "last ps \<noteq> h_new h" using len n last_in_set by metis
      then have run: "history_add alloc null_str s h = Some (h'\<lparr>h_mem := ?mem, h_tail := Some (h_new h)\<rparr>)"
        using eq ne u new ps(2) len by (auto simp: history_add_def tail_of_def fun_upd_twist)
      have "hist_nodes ?mem (ps @ [h_new h]) (hs @ [xs])"
        using hist_nodes_snoc [OF ps(1) n new(2) False u(2)] by simp
      moreover have "dom ?mem = set (ps @ [h_new h])" using ps(4) len by auto
      moreover have "\<forall>p. ?mem p \<noteq> None \<longrightarrow> p < h_new h'" using ps(3) u(2) new(4) by (auto simp: less_Suc_eq)
      ultimately have "hist_rep (h'\<lparr>h_mem := ?mem, h_tail := Some (h_new h)\<rparr>) (hs @ [xs])"
        unfolding hist_rep_def hist_at_def by (intro exI [of _ "ps @ [h_new h]"]) (simp add: tail_of_def)
      with run ne show ?thesis by auto
    qed
  qed
qed

subsection \<open>Every key\<close>

text \<open>For the editor it is enough that writing to a window always succeeds.\<close>

definition stream_ok :: "'d ostream \<Rightarrow> bool" where
  "stream_ok s \<longleftrightarrow> o_pos s < 80 \<and> length (o_buf s) = 80"

lemma cga_flush_any: "stream_device (cga_flush ops w) (\<lambda>_. True) (\<lambda>_ _ _. True)"
  by unfold_locales (auto simp: cga_flush_def Let_def)

interpretation any: stream_device "cga_flush ops w" "\<lambda>_. True" "\<lambda>_ _ _. True"
  by (rule cga_flush_any)

lemma any_received: "any.received s d out \<Longrightarrow> stream_ok s"
  by (simp add: any.received_def stream_ok_def)

lemma stream_received: "stream_ok s \<Longrightarrow> any.received s (o_dev s) (take (o_pos s) (o_buf s))"
  by (auto simp: any.received_def stream_ok_def)

lemma char_succeeds: "stream_ok s \<Longrightarrow> \<exists>s'. o_char (cga_flush ops w) c s = Some s' \<and> stream_ok s'"
  unfolding o_char_def by (metis any.put_writes [OF stream_received] any.writesE any_received)

lemma flush_succeeds: "stream_ok s \<Longrightarrow> \<exists>s'. o_flush (cga_flush ops w) s = Some s' \<and> stream_ok s'"
  unfolding o_flush_def using any.fl_writes [OF stream_received] any_received by blast

lemma endl_succeeds: "stream_ok s \<Longrightarrow> \<exists>s'. o_endl (cga_flush ops w) s = Some s' \<and> stream_ok s'"
  using any.endl_writes [OF stream_received] by (blast dest: any_received)

lemma string_succeeds:
  assumes "stream_ok s" "str_rep t xs" "mem_ok alloc 1"
  shows "\<exists>t' s'. o_string (cga_flush ops w) alloc t s = Some (t', s') \<and> str_rep t' xs \<and> stream_ok s'"
proof (cases "xs = []")
  case True
  with any.empty_string_writes [OF stream_received [OF assms(1)] _ assms(3), of t] assms(2) show ?thesis
    by (blast dest: any_received)
next
  case False
  with any.string_writes [OF stream_received [OF assms(1)] assms(2) False] assms(2) show ?thesis
    by (blast dest: any_received)
qed

lemma setpos_stream [simp]: "stream_ok (out_setpos ops w x y s) \<longleftrightarrow> stream_ok s"
  by (simp add: out_setpos_def stream_ok_def Let_def)

lemma show_cursor_ok:
  "out_width w \<noteq> 0 \<Longrightarrow> \<exists>s'. show_cursor ops w x n y s = Some s' \<and> (stream_ok s' \<longleftrightarrow> stream_ok s)"
  by (simp add: show_cursor_def out_rows_def)

end
