(* ===== verification/ShellRead.thy ===== *)
theory ShellRead
  imports ShellEdit
begin

section \<open>Shell::read refines the line editor\<close>

text \<open>
  \<open>core\<close> relates a \<open>reader\<close> and an \<open>editor\<close> as far as the text, the cursor and the history go;
  the stream and the row where the line starts play no part in it. Every step of a round keeps it.
\<close>

definition browses :: "nat list \<Rightarrow> 'w reader \<Rightarrow> editor \<Rightarrow> bool" where
  "browses ps r e = (case e_browse e of
     None \<Rightarrow> r_cur r = None \<and> r_tmp r = None \<and> dom (h_mem (r_hist r)) = set ps
   | Some i \<Rightarrow> i < length ps \<and> r_cur r = Some (ps ! i) \<and>
       (\<exists>t x. r_tmp r = Some t \<and> t \<notin> set ps \<and> h_mem (r_hist r) t = Some x \<and> str_rep (he_str x) (e_saved e) \<and>
          dom (h_mem (r_hist r)) = insert t (set ps)))"

definition core :: "nat list \<Rightarrow> u8 list list \<Rightarrow> 'w reader \<Rightarrow> editor \<Rightarrow> bool" where
  "core ps hs r e \<longleftrightarrow> str_rep (r_str r) (e_text e) \<and> r_cursor r = of_nat (e_pos e) \<and> e_pos e \<le> length (e_text e) \<and>
     hist_at (r_hist r) ps hs \<and> browses ps r e"

lemma core_screen [simp]:
  "core ps hs (r\<lparr>r_out := s\<rparr>) e \<longleftrightarrow> core ps hs r e" "core ps hs (r\<lparr>r_y := y\<rparr>) e \<longleftrightarrow> core ps hs r e"
  by (simp_all add: core_def browses_def cong: option.case_cong)

lemma core_str:
  "core ps hs r e \<Longrightarrow> str_rep t (e_text e) \<Longrightarrow> core ps hs (r\<lparr>r_str := t\<rparr>) e"
  by (auto simp: core_def browses_def cong: option.case_cong)

lemma core_cursor: "core ps hs r e \<Longrightarrow> unat (r_cursor r) = e_pos e"
  using str_rep_lt by (fastforce simp: core_def unat_of_nat_small)

subsection \<open>The steps of a round\<close>

lemma erase_line_ok:
  assumes "stream_ok (r_out r)"
  shows "\<exists>s. erase_line ops w x r = Some (r\<lparr>r_out := s\<rparr>) \<and> stream_ok s"
proof -
  let ?s = "out_setpos ops w x (r_y r) (r_out r)"
  have "\<exists>s'. for_loop 0 (s_len (r_str r) + 1) (\<lambda>_ s. o_char (cga_flush ops w) 32 s) ?s = Some s' \<and> stream_ok s'"
    by (rule for_loop_rule [where I = "\<lambda>_. stream_ok"]) (simp_all add: assms char_succeeds)
  then obtain s1 where s1: "for_loop 0 (s_len (r_str r) + 1) (\<lambda>_ s. o_char (cga_flush ops w) 32 s) ?s = Some s1" "stream_ok s1"
    by blast
  obtain s2 where "o_flush (cga_flush ops w) s1 = Some s2" "stream_ok s2" using flush_succeeds [OF s1(2)] by blast
  with s1(1) show ?thesis unfolding erase_line_def Let_def by auto
qed

lemma show_line_ok:
  assumes "stream_ok (r_out r)" "str_rep (r_str r) xs" "mem_ok alloc 1" "out_width w \<noteq> 0"
  shows "\<exists>t s. show_line ops w alloc x r = Some (r\<lparr>r_str := t, r_out := s\<rparr>) \<and> str_rep t xs \<and> stream_ok s"
proof -
  obtain t s where t: "o_string (cga_flush ops w) alloc (r_str r) (out_setpos ops w x (r_y r) (r_out r)) = Some (t, s)"
    "str_rep t xs" "stream_ok s" using string_succeeds [OF _ assms(2,3), of "out_setpos ops w x (r_y r) (r_out r)" ops w] assms(1) by auto
  obtain s2 where "o_flush (cga_flush ops w) s = Some s2" "stream_ok s2" using flush_succeeds [OF t(3)] by blast
  moreover obtain s3 where "show_cursor ops w x (r_cursor r) (r_y r) s2 = Some s3" "stream_ok s3 \<longleftrightarrow> stream_ok s2"
    using show_cursor_ok [OF assms(4)] by blast
  ultimately show ?thesis using t by (intro exI [of _ t] exI [of _ s3]) (simp add: show_line_def)
qed

text \<open>\<open>recalls\<close>: copying the entry that is shown leads to \<open>e\<close>.\<close>

definition recalls :: "str_heap \<Rightarrow> nat list \<Rightarrow> u8 list list \<Rightarrow> 'w reader \<Rightarrow> editor \<Rightarrow> bool" where
  "recalls alloc ps hs r e \<longleftrightarrow>
     (\<exists>r'. recall_line alloc r = Some r' \<and> core ps hs r' e \<and> r_out r' = r_out r)"

lemma recall_screen:
  "recall_line alloc (r\<lparr>r_out := s\<rparr>) = map_option (\<lambda>r. r\<lparr>r_out := s\<rparr>) (recall_line alloc r)"
  "recall_line alloc (r\<lparr>r_y := y\<rparr>) = map_option (\<lambda>r. r\<lparr>r_y := y\<rparr>) (recall_line alloc r)"
  by (cases "r_cur r"; cases "r_tmp r"; auto simp: recall_line_def Let_def split: Option.bind_splits)+

lemma recalls_screen:
  "recalls alloc ps hs r e \<Longrightarrow> recalls alloc ps hs (r\<lparr>r_out := s\<rparr>) e"
  "recalls alloc ps hs r e \<Longrightarrow> recalls alloc ps hs (r\<lparr>r_y := y\<rparr>) e"
  by (auto simp: recalls_def recall_screen)

lemma finish_round_ok:
  assumes "edit_key ops w alloc k hist curs r = Some r1" "stream_ok (r_out r1)" "mem_ok alloc 1" "out_width w \<noteq> 0"
    and "if hist then recalls alloc ps hs r1 e else core ps hs r1 e"
  shows "\<exists>r'. finish_round ops w alloc x k hist curs r = Some r' \<and> core ps hs r' e \<and> stream_ok (r_out r')"
proof -
  let ?n = "(x + s_len (r_str r1)) div out_width w"
  let ?up = "word_of_int (w_to_row w) < r_y r1 + ?n"
  let ?R = "\<lambda>r. if hist then recalls alloc ps hs r e else core ps hs r e"
  obtain s where s: "(if hist \<or> ?up \<or> k_asc k = 8 then erase_line ops w x r1 else Some r1) = Some (r1\<lparr>r_out := s\<rparr>)"
    "stream_ok s"
  proof (cases "hist \<or> ?up \<or> k_asc k = 8")
    case True
    with erase_line_ok [OF assms(2)] that show ?thesis by force
  next
    case False
    with that [of "r_out r1"] assms(2) show ?thesis by simp
  qed
  define r2 where "r2 = (if ?up then r1\<lparr>r_out := s\<rparr>\<lparr>r_y := r_y (r1\<lparr>r_out := s\<rparr>) - 1\<rparr> else r1\<lparr>r_out := s\<rparr>)"
  have r2: "?R r2" "r_out r2 = s" using assms(5) by (auto simp: r2_def intro!: recalls_screen)
  obtain r3 where r3: "(if hist then recall_line alloc r2 else Some r2) = Some r3" "core ps hs r3 e" "r_out r3 = s"
    using r2 by (cases hist) (auto simp: recalls_def)
  obtain t s' where r4: "show_line ops w alloc x r3 = Some (r3\<lparr>r_str := t, r_out := s'\<rparr>)" "str_rep t (e_text e)" "stream_ok s'"
    using show_line_ok [of r3 "e_text e" alloc w ops x] r3(2,3) s(2) assms(3,4) by (auto simp: core_def)
  have "core ps hs (r3\<lparr>r_str := t, r_out := s'\<rparr>) e" using core_str [OF r3(2) r4(2)] by simp
  with r4(3) show ?thesis
    using assms(4)
    by (simp only: finish_round_def Let_def assms(1) s(1) r2_def [symmetric] r3(1) r4(1) out_rows_def if_False Option.bind.simps) auto
qed

subsection \<open>The keys\<close>

lemma edit_nothing: "k_asc k \<noteq> 8 \<Longrightarrow> hist \<or> curs \<Longrightarrow> edit_key ops w alloc k hist curs r = Some r"
  by (auto simp: edit_key_def)

lemma insert_key_ok:
  assumes "core ps hs r e" "length (e_text e) < 2147483647" "mem_ok alloc (Suc (length (e_text e)))" "k_asc k \<noteq> 8"
  shows "\<exists>t. edit_key ops w alloc k False False r = Some (r\<lparr>r_str := t, r_cursor := r_cursor r + 1\<rparr>) \<and>
    core ps hs (r\<lparr>r_str := t, r_cursor := r_cursor r + 1\<rparr>)
      (e\<lparr>e_text := take (e_pos e) (e_text e) @ k_asc k # drop (e_pos e) (e_text e), e_pos := e_pos e + 1\<rparr>)"
proof -
  have c: "str_rep (r_str r) (e_text e)" "e_pos e \<le> length (e_text e)" using assms(1) by (simp_all add: core_def)
  obtain t where "insert_char alloc (r_cursor r) (k_asc k) (r_str r) = Some t"
    "str_rep t (take (e_pos e) (e_text e) @ k_asc k # drop (e_pos e) (e_text e))"
    using insert_char_rep [OF c(1) _ assms(2,3), of "r_cursor r" "k_asc k"] c(2)
    by (auto simp: core_cursor [OF assms(1)] elim!: yieldsE)
  with assms(1,4) show ?thesis by (auto simp: edit_key_def core_def browses_def cong: option.case_cong)
qed

lemma backspace_ok:
  assumes "core ps hs r e" "mem_ok alloc (length (e_text e))" "k_asc k = 8" "stream_ok (r_out r)"
  shows "\<exists>r'. edit_key ops w alloc k hist curs r = Some r' \<and> stream_ok (r_out r') \<and>
    core ps hs r' (if e_pos e = 0 then e
      else e\<lparr>e_text := take (e_pos e - 1) (e_text e) @ drop (e_pos e) (e_text e), e_pos := e_pos e - 1\<rparr>)"
proof (cases "e_pos e = 0")
  case True
  with core_cursor [OF assms(1)] assms(1,3,4) show ?thesis by (auto simp: edit_key_def word_unat_eq_iff)
next
  case False
  have c: "str_rep (r_str r) (e_text e)" "e_pos e \<le> length (e_text e)" "unat (r_cursor r) = e_pos e"
    using assms(1) core_cursor [OF assms(1)] by (simp_all add: core_def)
  then have one: "unat (r_cursor r - 1) = e_pos e - 1" "r_cursor r \<noteq> 0"
    using False by (auto simp: unat_minus_le word_le_nat_alt Suc_le_eq)
  have len: "length (e_text e) < 2147483648" by (rule str_rep_lt [OF c(1)])
  obtain t where t: "str_erase alloc (r_cursor r - 1) 1 (r_str r) = Some t"
    "str_rep t (take (e_pos e - 1) (e_text e) @ drop (e_pos e) (e_text e))"
    using str_erase_rep [OF c(1) assms(2), of "r_cursor r - 1" 1] False c(2) len by (auto simp: one elim!: yieldsE)
  have "\<not> str_empty (r_str r)" using c(1,2) False by (auto simp: str_empty_def word_unat_eq_iff str_rep_len)
  then obtain s where s: "cga_backspace ops w alloc (Some (r_str r)) (r_cursor r - 1) (r_out r) = Some (Some t, s)" "stream_ok s"
    using t(1) assms(4) by (simp add: cga_backspace_def Let_def case_prod_beta stream_ok_def)
  let ?r = "r\<lparr>r_str := t, r_out := s, r_cursor := r_cursor r - 1\<rparr>"
  have "r_cursor r - 1 = of_nat (e_pos e - 1)" using one(1) by (metis unat_of_nat_self)
  with t(2) assms(1) c(2) have "core ps hs ?r (e\<lparr>e_text := take (e_pos e - 1) (e_text e) @ drop (e_pos e) (e_text e), e_pos := e_pos e - 1\<rparr>)"
    by (auto simp: core_def browses_def cong: option.case_cong)
  with False s one(2) assms(3) show ?thesis by (simp add: edit_key_def)
qed

text \<open>Showing an entry of the history, and going back to the line that was being typed.\<close>

lemma recall_entry:
  assumes "hist_nodes (h_mem (r_hist r)) ps hs" "i < length ps" "r_cur r = Some (ps ! i)" "r_tmp r \<noteq> Some (ps ! i)"
    and "str_rep (r_str r) xs" "mem_ok alloc (length (hs ! i))"
  shows "\<exists>t. recall_line alloc r = Some (r\<lparr>r_str := t, r_cursor := s_len t\<rparr>) \<and> str_rep t (hs ! i)"
proof -
  obtain u prev nxt where u: "str_rep u (hs ! i)" "h_mem (r_hist r) (ps ! i) = Some \<lparr>he_str = u, he_prev = prev, he_next = nxt\<rparr>"
    using hist_nodes_at [OF assms(1,2)] by metis
  obtain t where "str_assign alloc u (r_str r) = Some t" "str_rep t (hs ! i)"
    using str_assign_rep [OF assms(5) u(1) assms(6)] by (rule yieldsE)
  with assms(3,4) u(2) show ?thesis by (intro exI [of _ t]) (simp add: recall_line_def Let_def)
qed

lemma recall_tmp:
  assumes "r_cur r = Some t" "r_tmp r = Some t" "h_mem (r_hist r) t = Some x" "str_rep (he_str x) ys"
    and "str_rep (r_str r) xs" "mem_ok alloc (length ys)"
  shows "\<exists>u. recall_line alloc r = Some (r\<lparr>r_str := u, r_cursor := s_len u, r_hist := delete_entry t (r_hist r),
    r_tmp := None, r_cur := None\<rparr>) \<and> str_rep u ys"
proof -
  obtain u where "str_assign alloc (he_str x) (r_str r) = Some u" "str_rep u ys"
    using str_assign_rep [OF assms(5,4,6)] by (rule yieldsE)
  with assms(1-3) show ?thesis by (intro exI [of _ u]) (simp add: recall_line_def Let_def)
qed

text \<open>Browsing is at entry \<open>i\<close>: what \<open>recall_line\<close> then shows.\<close>

lemma recalls_entry:
  assumes "hist_at (r_hist r) ps hs" "i < length ps" "r_cur r = Some (ps ! i)" "r_tmp r = Some t" "t \<notin> set ps"
    and "h_mem (r_hist r) t = Some x" "str_rep (he_str x) (e_saved e)" "dom (h_mem (r_hist r)) = insert t (set ps)"
    and "str_rep (r_str r) xs" "mem_ok alloc (length (hs ! i))"
  shows "recalls alloc ps hs r (ed_show (hs ! i) (Some i) e)"
proof -
  have "ps ! i \<noteq> t" using assms(2,5) by auto
  then obtain u where u: "recall_line alloc r = Some (r\<lparr>r_str := u, r_cursor := s_len u\<rparr>)" "str_rep u (hs ! i)"
    using recall_entry [OF _ assms(2,3) _ assms(9,10)] assms(1,4) by (auto simp: hist_at_def)
  with assms show ?thesis
    by (simp add: recalls_def core_def browses_def ed_show_def str_rep_of_nat)
qed

lemma recalls_saved:
  assumes "hist_at (r_hist r) ps hs" "r_cur r = Some t" "r_tmp r = Some t" "t \<notin> set ps"
    and "h_mem (r_hist r) t = Some x" "str_rep (he_str x) (e_saved e)" "dom (h_mem (r_hist r)) = insert t (set ps)"
    and "str_rep (r_str r) xs" "mem_ok alloc (length (e_saved e))"
  shows "recalls alloc ps hs r (ed_show (e_saved e) None e)"
proof -
  obtain u where u: "recall_line alloc r = Some (r\<lparr>r_str := u, r_cursor := s_len u, r_hist := delete_entry t (r_hist r),
      r_tmp := None, r_cur := None\<rparr>)" "str_rep u (e_saved e)" using recall_tmp [OF assms(2,3,5,6,8,9)] by blast
  have "hist_at (delete_entry t (r_hist r)) ps hs"
    using assms(1,4) by (auto simp: hist_at_def delete_entry_def hist_nodes_other)
  with u assms(4,7) show ?thesis
    by (simp add: recalls_def core_def browses_def ed_show_def str_rep_of_nat delete_entry_def)
qed

lemma history_up_ok:
  assumes "core ps hs r e" "mem_ok alloc (length (e_text e))" "\<forall>x \<in> set hs. mem_ok alloc (length x)"
  shows "\<exists>act r'. history_up alloc r = Some (act, r') \<and> r_out r' = r_out r \<and>
    (case act of Again \<Rightarrow> r' = r \<and> ed_up hs e = e | Go hist curs \<Rightarrow> hist \<and> recalls alloc ps hs r' (ed_up hs e))"
proof -
  have c: "str_rep (r_str r) (e_text e)" "hist_at (r_hist r) ps hs" "browses ps r e" using assms(1) by (simp_all add: core_def)
  then have len: "length ps = length hs" using hist_nodes_length by (auto simp: hist_at_def)
  show ?thesis
  proof (cases "e_browse e")
    case None
    then have r: "r_cur r = None" "r_tmp r = None" "dom (h_mem (r_hist r)) = set ps" using c(3) by (simp_all add: browses_def)
    show ?thesis
    proof (cases "hs = []")
      case True
      then have "h_tail (r_hist r) = None" using c(2) len by (simp add: hist_at_def tail_of_def)
      moreover have "recalls alloc ps hs r e" using r(1) assms(1) by (simp add: recalls_def recall_line_def)
      ultimately show ?thesis using r(1) True None by (simp add: history_up_def ed_up_def)
    next
      case False
      then have ne: "ps \<noteq> []" using len by auto
      obtain t h' where new: "new_entry alloc (r_str r) (r_hist r) = Some (h_new (r_hist r), h')" "str_rep t (e_text e)"
        "h_tail h' = h_tail (r_hist r)" "h_new h' = Suc (h_new (r_hist r))"
        "h_mem h' = (h_mem (r_hist r))(h_new (r_hist r) \<mapsto> \<lparr>he_str = t, he_prev = None, he_next = None\<rparr>)"
        using new_entry_rep [OF c(1) assms(2)] by blast
      have fresh: "h_new (r_hist r) \<notin> set ps" using c(2) r(3) by (auto simp: hist_at_def)
      let ?r = "r\<lparr>r_hist := h', r_tmp := Some (h_new (r_hist r)), r_cur := Some (last ps)\<rparr>"
      have "hist_at h' ps hs" using c(2) new fresh by (auto simp: hist_at_def hist_nodes_other less_Suc_eq)
      moreover have "hs ! (length hs - 1) = last hs" "ps ! (length hs - 1) = last ps" "length hs - 1 < length ps"
        using False ne len by (simp_all add: last_conv_nth)
      ultimately have "recalls alloc ps hs ?r (ed_show (last hs) (Some (length hs - 1)) (e\<lparr>e_saved := e_text e\<rparr>))"
        using recalls_entry [of ?r ps hs "length hs - 1" "h_new (r_hist r)" _ "e\<lparr>e_saved := e_text e\<rparr>" "e_text e" alloc]
          new fresh r(3) c(1) assms(3) False by simp
      moreover have "history_up alloc r = Some (Go True False, ?r)"
        using r(1) new(1) c(2) ne by (simp add: history_up_def hist_at_def tail_of_def)
      ultimately show ?thesis using None False by (simp add: ed_up_def)
    qed
  next
    case (Some i)
    then obtain t x where r: "i < length ps" "r_cur r = Some (ps ! i)" "r_tmp r = Some t" "t \<notin> set ps"
      "h_mem (r_hist r) t = Some x" "str_rep (he_str x) (e_saved e)" "dom (h_mem (r_hist r)) = insert t (set ps)"
      using c(3) by (auto simp: browses_def)
    obtain u nxt where u: "h_mem (r_hist r) (ps ! i) = Some \<lparr>he_str = u,
        he_prev = (if i = 0 then None else Some (ps ! (i - 1))), he_next = nxt\<rparr>"
      using hist_nodes_at [OF _ r(1)] c(2) unfolding hist_at_def by metis
    show ?thesis
    proof (cases "i = 0")
      case True
      with r(2) u Some show ?thesis by (simp add: history_up_def ed_up_def)
    next
      case False
      let ?r = "r\<lparr>r_cur := Some (ps ! (i - 1))\<rparr>"
      have "recalls alloc ps hs ?r (ed_show (hs ! (i - 1)) (Some (i - 1)) e)"
        using recalls_entry [of ?r ps hs "i - 1" t x e "e_text e" alloc] r c(1,2) assms(3) len False by simp
      with False r(2) u Some show ?thesis by (simp add: history_up_def ed_up_def)
    qed
  qed
qed

lemma history_down_ok:
  assumes "core ps hs r e" "mem_ok alloc (length (e_saved e))" "\<forall>x \<in> set hs. mem_ok alloc (length x)"
  shows "\<exists>act r'. history_down r = Some (act, r') \<and> r_out r' = r_out r \<and>
    (case act of Again \<Rightarrow> r' = r \<and> ed_down hs e = e | Go hist curs \<Rightarrow> hist \<and> recalls alloc ps hs r' (ed_down hs e))"
proof -
  have c: "str_rep (r_str r) (e_text e)" "hist_at (r_hist r) ps hs" "browses ps r e" using assms(1) by (simp_all add: core_def)
  then have len: "length ps = length hs" using hist_nodes_length by (auto simp: hist_at_def)
  show ?thesis
  proof (cases "e_browse e")
    case None
    with c(3) show ?thesis by (simp add: history_down_def ed_down_def browses_def)
  next
    case (Some i)
    then obtain t x where r: "i < length ps" "r_cur r = Some (ps ! i)" "r_tmp r = Some t" "t \<notin> set ps"
      "h_mem (r_hist r) t = Some x" "str_rep (he_str x) (e_saved e)" "dom (h_mem (r_hist r)) = insert t (set ps)"
      using c(3) by (auto simp: browses_def)
    obtain u prev where u: "h_mem (r_hist r) (ps ! i) = Some \<lparr>he_str = u, he_prev = prev,
        he_next = (if Suc i < length ps then Some (ps ! Suc i) else None)\<rparr>"
      using hist_nodes_at [OF _ r(1)] c(2) unfolding hist_at_def by metis
    show ?thesis
    proof (cases "Suc i < length ps")
      case True
      let ?r = "r\<lparr>r_cur := Some (ps ! Suc i)\<rparr>"
      have "recalls alloc ps hs ?r (ed_show (hs ! Suc i) (Some (Suc i)) e)"
        using recalls_entry [of ?r ps hs "Suc i" t x e "e_text e" alloc] r c(1,2) assms(3) len True by simp
      with True r(2) u Some len show ?thesis by (simp add: history_down_def ed_down_def)
    next
      case False
      let ?r = "r\<lparr>r_cur := Some t\<rparr>"
      have "recalls alloc ps hs ?r (ed_show (e_saved e) None e)"
        using recalls_saved [of ?r ps hs t x e "e_text e" alloc] r c(1,2) assms(2) by simp
      with False r(2,3) u Some len show ?thesis by (simp add: history_down_def ed_down_def)
    qed
  qed
qed

lemma core_moved: "core ps hs r e \<Longrightarrow> p \<le> length (e_text e) \<Longrightarrow> core ps hs (r\<lparr>r_cursor := of_nat p\<rparr>) (e\<lparr>e_pos := p\<rparr>)"
  by (auto simp: core_def browses_def cong: option.case_cong)

lemma core_here: "core ps hs r e \<Longrightarrow> p = e_pos e \<Longrightarrow> core ps hs r (e\<lparr>e_pos := p\<rparr>)"
  by simp

lemma cursor_left_ok:
  assumes "core ps hs r e"
  shows "\<exists>act r'. cursor_left k r = (act, r') \<and> r_out r' = r_out r \<and> act \<in> {Again, Go False True} \<and>
    core ps hs r' (e\<lparr>e_pos := e_pos e - ed_width k\<rparr>)"
proof (cases "e_pos e = 0")
  case True
  then have "r_cursor r = 0" using core_cursor [OF assms] by (simp add: word_unat_eq_iff)
  with True assms show ?thesis by (simp add: cursor_left_def core_here)
next
  case False
  have c: "unat (r_cursor r) = e_pos e" "e_pos e \<le> length (e_text e)" "r_cursor r = of_nat (e_pos e)"
    using core_cursor [OF assms] assms by (simp_all add: core_def)
  then have ne: "r_cursor r \<noteq> 0" using False by auto
  have less: "r_cursor r < 10 \<longleftrightarrow> e_pos e < 10" by (simp add: word_less_nat_alt c(1))
  have sub: "r_cursor r - of_nat n = of_nat (e_pos e - n)" if "n \<le> e_pos e" for n
    using that by (simp add: c(3) of_nat_diff)
  have "(if key_has mbit_shift k \<or> key_ctrl k then if r_cursor r < 10 then 0 else r_cursor r - 10 else r_cursor r - 1)
      = of_nat (e_pos e - ed_width k)"
    using less sub [of 10] sub [of 1] False by (simp add: ed_width_def)
  with ne core_moved [OF assms, of "e_pos e - ed_width k"] c(2) show ?thesis by (simp add: cursor_left_def)
qed

lemma cursor_right_ok:
  assumes "core ps hs r e" "length (e_text e) < 2147483638"
  shows "\<exists>act r'. cursor_right k r = (act, r') \<and> r_out r' = r_out r \<and> act \<in> {Again, Go False True} \<and>
    core ps hs r' (e\<lparr>e_pos := min (length (e_text e)) (e_pos e + ed_width k)\<rparr>)"
proof -
  have c: "unat (r_cursor r) = e_pos e" "e_pos e \<le> length (e_text e)" "unat (s_len (r_str r)) = length (e_text e)"
    using core_cursor [OF assms(1)] assms(1) str_rep_len by (auto simp: core_def)
  show ?thesis
  proof (cases "e_pos e < length (e_text e)")
    case False
    then have "s_len (r_str r) \<le> r_cursor r" using c by (simp add: word_le_nat_alt)
    with False c(2) assms(1) show ?thesis by (simp add: cursor_right_def Let_def core_here)
  next
    case True
    then have le: "\<not> s_len (r_str r) \<le> r_cursor r" using c by (simp add: word_le_nat_alt)
    have plus: "unat (r_cursor r + 10) = e_pos e + 10" "unat (r_cursor r + 1) = e_pos e + 1"
      using c assms(2) by (simp_all add: unat_plus_small)
    let ?p = "if key_has mbit_shift k \<or> key_ctrl k
      then if s_len (r_str r) < r_cursor r + 10 then s_len (r_str r) else r_cursor r + 10 else r_cursor r + 1"
    have "unat ?p = min (length (e_text e)) (e_pos e + ed_width k)"
    proof (cases "key_has mbit_shift k \<or> key_ctrl k")
      case True
      then show ?thesis by (simp add: ed_width_def word_less_nat_alt plus(1) c(3) min_def)
    next
      case False
      then show ?thesis using True by (simp add: ed_width_def plus(2))
    qed
    from arg_cong [OF this, of "of_nat :: nat \<Rightarrow> u32"]
    have p: "?p = of_nat (min (length (e_text e)) (e_pos e + ed_width k))" by (simp only: unat_of_nat_self)
    have "cursor_right k r = (Go False True, r\<lparr>r_cursor := of_nat (min (length (e_text e)) (e_pos e + ed_width k))\<rparr>)"
      unfolding cursor_right_def Let_def p using le by (simp only: if_False)
    moreover have "core ps hs (r\<lparr>r_cursor := of_nat (min (length (e_text e)) (e_pos e + ed_width k))\<rparr>)
        (e\<lparr>e_pos := min (length (e_text e)) (e_pos e + ed_width k)\<rparr>)" by (rule core_moved [OF assms(1)]) simp
    ultimately show ?thesis by simp
  qed
qed

definition bounded :: "nat \<Rightarrow> u8 list list \<Rightarrow> editor \<Rightarrow> bool" where
  "bounded m hs e \<longleftrightarrow> length (e_text e) \<le> m \<and> length (e_saved e) \<le> m \<and> (\<forall>x \<in> set hs. length x \<le> m) \<and>
     (\<forall>i. e_browse e = Some i \<longrightarrow> i < length hs)"

lemma bounded_show:
  "bounded m hs e \<Longrightarrow> length xs \<le> m \<Longrightarrow> (\<forall>j. i = Some j \<longrightarrow> j < length hs) \<Longrightarrow> bounded m hs (ed_show xs i e)"
  by (simp add: bounded_def ed_show_def)

lemma bounded_up: "bounded m hs e \<Longrightarrow> bounded m hs (ed_up hs e)"
proof (cases "e_browse e")
  case None
  assume b: "bounded m hs e"
  then have "bounded m hs (e\<lparr>e_saved := e_text e\<rparr>)" by (simp add: bounded_def)
  moreover have "hs \<noteq> [] \<Longrightarrow> length (last hs) \<le> m" using b by (simp add: bounded_def)
  ultimately show ?thesis using None b by (cases "hs = []") (simp_all add: ed_up_def bounded_show)
next
  case (Some i)
  assume b: "bounded m hs e"
  with Some have "length (hs ! (i - 1)) \<le> m" "i < length hs" by (auto simp: bounded_def)
  with Some b show ?thesis by (auto simp: ed_up_def intro: bounded_show)
qed

lemma bounded_down: "bounded m hs e \<Longrightarrow> bounded m hs (ed_down hs e)"
proof (cases "e_browse e")
  case (Some i)
  assume b: "bounded m hs e"
  then have "Suc i < length hs \<Longrightarrow> length (hs ! Suc i) \<le> m" "length (e_saved e) \<le> m" by (auto simp: bounded_def)
  with Some b show ?thesis by (auto simp: ed_down_def intro: bounded_show)
qed (simp add: ed_down_def)

lemma bounded_key:
  assumes "bounded m hs e" "length (e_text e) < m" "e_pos e \<le> length (e_text e)"
  shows "bounded m hs (ed_key hs k e)"
proof -
  have "bounded m hs (e\<lparr>e_pos := p\<rparr>)" for p using assms(1) by (simp add: bounded_def)
  moreover have "bounded m hs (e\<lparr>e_text := xs, e_pos := p\<rparr>)" if "length xs \<le> m" for xs p
    using assms(1) that by (simp add: bounded_def)
  ultimately show ?thesis using assms bounded_up [OF assms(1)] bounded_down [OF assms(1)] by (simp add: ed_key_def)
qed

lemma read_key_ok:
  assumes "core ps hs r e" "stream_ok (r_out r)" "bounded m hs e" "length (e_text e) < m" "m < 2147483638"
    and "mem_ok alloc (Suc m)" "editor_key k" "out_width w \<noteq> 0"
  shows "\<exists>r'. read_key ops w alloc x k r = Some r' \<and> core ps hs r' (ed_key hs k e) \<and> stream_ok (r_out r')"
proof -
  have al: "mem_ok alloc n" if "n \<le> Suc m" for n by (rule mem_ok_mono [OF assms(6) that])
  have mem: "mem_ok alloc 1" "mem_ok alloc (length (e_text e))" "mem_ok alloc (Suc (length (e_text e)))"
    "mem_ok alloc (length (e_saved e))" "\<forall>x \<in> set hs. mem_ok alloc (length x)"
    using assms(3,4) by (auto intro!: al simp: bounded_def)
  have round: ?thesis if "key_switch alloc k r = Some (Go hist curs, r1)" "edit_key ops w alloc k hist curs r1 = Some r2"
    "stream_ok (r_out r2)" "if hist then recalls alloc ps hs r2 (ed_key hs k e) else core ps hs r2 (ed_key hs k e)"
    for hist curs r1 r2
    using finish_round_ok [OF that(2,3) mem(1) assms(8) that(4)] that(1) by (simp add: read_key_def)
  have again: ?thesis if "key_switch alloc k r = Some (Again, r1)" "core ps hs r1 (ed_key hs k e)" "r_out r1 = r_out r" for r1
    using that assms(2) by (simp add: read_key_def)
  have browse: ?thesis if "key_switch alloc k r = Some (act, r1)" "k_asc k \<noteq> 8" "r_out r1 = r_out r"
    "case act of Again \<Rightarrow> r1 = r \<and> ed_key hs k e = e | Go hist curs \<Rightarrow> hist \<and> recalls alloc ps hs r1 (ed_key hs k e)" for act r1
  proof (cases act)
    case Again
    with again [of r1] that assms(1) show ?thesis by simp
  next
    case (Go hist curs)
    with round [of hist curs r1 r1] edit_nothing [of k hist curs ops w alloc r1] that assms(2) show ?thesis by simp
  qed
  have move: ?thesis if "key_switch alloc k r = Some (act, r1)" "k_asc k \<noteq> 8" "r_out r1 = r_out r"
    "act \<in> {Again, Go False True}" "core ps hs r1 (ed_key hs k e)" for act r1
    using that again [of r1] round [of False True r1 r1] edit_nothing [of k False True ops w alloc r1] assms(2) by auto
  consider (up) "k_scan k = scan_up" | (down) "k_scan k = scan_down" | (left) "k_scan k = scan_left"
    | (right) "k_scan k = scan_right" | (other) "k_scan k \<notin> {scan_up, scan_down, scan_left, scan_right}" by auto
  then show ?thesis
  proof cases
    case up
    then have "k_asc k \<noteq> 8" using assms(7) by (simp add: editor_key_def)
    moreover have "key_switch alloc k r = history_up alloc r" "ed_key hs k e = ed_up hs e"
      using up by (simp_all add: key_switch_def ed_key_def)
    ultimately show ?thesis using history_up_ok [OF assms(1) mem(2,5)] browse by metis
  next
    case down
    then have k: "k_asc k \<noteq> 8" "k_scan k \<noteq> scan_up"
      using assms(7) by (simp_all add: editor_key_def scan_up_def scan_down_def)
    moreover have "key_switch alloc k r = history_down r" "ed_key hs k e = ed_down hs e"
      using down k(2) by (simp_all add: key_switch_def ed_key_def)
    ultimately show ?thesis using history_down_ok [OF assms(1) mem(4,5)] browse by metis
  next
    case left
    then have k: "k_asc k \<noteq> 8" "k_scan k \<noteq> scan_up" "k_scan k \<noteq> scan_down"
      using assms(7) by (simp_all add: editor_key_def scan_up_def scan_down_def scan_left_def)
    with left cursor_left_ok [OF assms(1), of k] move show ?thesis by (auto simp: key_switch_def ed_key_def)
  next
    case right
    then have k: "k_asc k \<noteq> 8" "k_scan k \<noteq> scan_up" "k_scan k \<noteq> scan_down" "k_scan k \<noteq> scan_left"
      using assms(7) by (simp_all add: editor_key_def scan_up_def scan_down_def scan_left_def scan_right_def)
    have "length (e_text e) < 2147483638" using assms(4,5) by simp
    from right k cursor_right_ok [OF assms(1) this, of k] move show ?thesis by (auto simp: key_switch_def ed_key_def)
  next
    case other
    then have sw: "key_switch alloc k r = Some (Go False False, r)" by (simp add: key_switch_def)
    show ?thesis
    proof (cases "k_asc k = 8")
      case True
      have "ed_key hs k e = (if e_pos e = 0 then e
          else e\<lparr>e_text := take (e_pos e - 1) (e_text e) @ drop (e_pos e) (e_text e), e_pos := e_pos e - 1\<rparr>)"
        using other True by (simp add: ed_key_def)
      from backspace_ok [OF assms(1) mem(2) True assms(2), folded this, of ops w False False] round [OF sw] show ?thesis
        by auto
    next
      case False
      have "length (e_text e) < 2147483647" using assms(4,5) by simp
      moreover have "ed_key hs k e =
          e\<lparr>e_text := take (e_pos e) (e_text e) @ k_asc k # drop (e_pos e) (e_text e), e_pos := e_pos e + 1\<rparr>"
        using other False by (simp add: ed_key_def)
      ultimately obtain t where "edit_key ops w alloc k False False r = Some (r\<lparr>r_str := t, r_cursor := r_cursor r + 1\<rparr>)"
        "core ps hs (r\<lparr>r_str := t, r_cursor := r_cursor r + 1\<rparr>) (ed_key hs k e)"
        using insert_key_ok [OF assms(1) _ mem(3) False, of ops w] by metis
      with round [OF sw] assms(2) show ?thesis by simp
    qed
  qed
qed

lemma read_keys_ok:
  assumes "m < 2147483638" "mem_ok alloc (Suc m)" "unat count \<le> m" "out_width w \<noteq> 0"
  shows "core ps hs r e \<Longrightarrow> stream_ok (r_out r) \<Longrightarrow> bounded m hs e \<Longrightarrow> list_all editor_key ks \<Longrightarrow>
    (case ed_keys hs (unat count) ks e of
       None \<Rightarrow> read_keys ops w alloc x count ks r = None
     | Some (rest, text) \<Rightarrow> \<exists>r' e'. read_keys ops w alloc x count ks r = Some (rest, r') \<and> str_rep (r_str r') text \<and>
         stream_ok (r_out r') \<and> length text \<le> Suc m \<and> hist_at (r_hist r') ps hs \<and> browses ps r' e')"
proof (induction ks arbitrary: r e)
  case Nil
  then have "unat (s_len (r_str r)) = length (e_text e)" using str_rep_len by (auto simp: core_def)
  with Nil show ?case by (auto simp: word_less_nat_alt core_def bounded_def)
next
  case (Cons k ks)
  have c: "str_rep (r_str r) (e_text e)" "e_pos e \<le> length (e_text e)" "hist_at (r_hist r) ps hs" "browses ps r e"
    using Cons.prems(1) by (simp_all add: core_def)
  then have len: "s_len (r_str r) < count \<longleftrightarrow> length (e_text e) < unat count"
    by (simp add: word_less_nat_alt str_rep_len)
  consider (full) "\<not> length (e_text e) < unat count" | (quit) "length (e_text e) < unat count" "key_ctrl k \<and> (k_asc k = 100 \<or> k_asc k = 68)"
    | (newline) "length (e_text e) < unat count" "k_asc k = 10"
    | (key) "length (e_text e) < unat count" "\<not> (key_ctrl k \<and> (k_asc k = 100 \<or> k_asc k = 68))" "k_asc k \<noteq> 10" by blast
  then show ?case
  proof cases
    case full
    with c Cons.prems len show ?thesis by (auto simp: bounded_def)
  next
    case quit
    with c Cons.prems len show ?thesis by (auto simp: bounded_def)
  next
    case newline
    have "mem_ok alloc (Suc (length (e_text e)))" using newline(1) assms(3) by (intro mem_ok_mono [OF assms(2)]) simp
    then obtain t where t: "append_char alloc 10 (r_str r) = Some t" "str_rep t (e_text e @ [10])"
      using append_char_rep [OF c(1), of alloc 10] newline(1) assms(1,3) by (auto elim: yieldsE)
    have "browses ps (r\<lparr>r_str := t\<rparr>) e" using c(4) by (auto simp: browses_def cong: option.case_cong)
    with newline t c Cons.prems len assms(3) show ?thesis by (auto simp: intro!: exI [of _ e])
  next
    case key
    have "length (e_text e) < m" using key(1) assms(3) by simp
    note step = read_key_ok [OF Cons.prems(1-3) this assms(1,2)] bounded_key [OF Cons.prems(3) this c(2)]
    from step(1) [of k w ops x] Cons.prems(4) assms(4) obtain r' where r': "read_key ops w alloc x k r = Some r'"
      "core ps hs r' (ed_key hs k e)" "stream_ok (r_out r')" by auto
    have "read_keys ops w alloc x count (k # ks) r = read_keys ops w alloc x count ks r'"
      "ed_keys hs (unat count) (k # ks) e = ed_keys hs (unat count) ks (ed_key hs k e)"
      using key len r'(1) by auto
    moreover have "list_all editor_key ks" using Cons.prems(4) by simp
    ultimately show ?thesis using Cons.IH [OF r'(2,3) step(2)] by (simp only:)
  qed
qed

subsection \<open>Properties\<close>


text \<open>One earlier command; "a" and "b" are typed, the cursor goes back and "c" is inserted; browsing
  to the earlier command and back restores the line, and backspace erases in the middle.\<close>

definition typed :: "u8 \<Rightarrow> u8 \<Rightarrow> key" where
  "typed asc scan = \<lparr>k_asc = asc, k_scan = scan, k_modi = 0\<rparr>"


end
