(* ===== verification/ShellScreen.thy ===== *)
theory ShellScreen
  imports Shell
begin

section \<open>Shell::backup and Shell::restore\<close>

text \<open>The two nested loops copy exactly the cells of the window; what the shell shows in between is
  undone by \<^verbatim>\<open>restore\<close>, with the cursor.\<close>

lemma copy_column:
  "fold (\<lambda>y b. b(y * COLUMNS + x := (f (y * COLUMNS + x) :: 'a))) ys b c =
     (if c \<in> (\<lambda>y. y * COLUMNS + x) ` set ys then f c else b c)"
  by (induction ys arbitrary: b) auto

lemma copy_columns:
  "fold (\<lambda>x b. fold (\<lambda>y b. b(y * COLUMNS + x := (f (y * COLUMNS + x) :: 'a))) ys b) xs b c =
     (if \<exists>x \<in> set xs. c \<in> (\<lambda>y. y * COLUMNS + x) ` set ys then f c else b c)"
  by (induction xs arbitrary: b) (simp_all add: copy_column)

lemma window_cells:
  assumes "window_ok w"
  shows "(\<exists>x \<in> set [w_from_col w..w_to_col w]. c \<in> (\<lambda>y. y * COLUMNS + x) ` set [w_from_row w..w_to_row w]) \<longleftrightarrow> cell_in w c"
proof
  assume "\<exists>x \<in> set [w_from_col w..w_to_col w]. c \<in> (\<lambda>y. y * COLUMNS + x) ` set [w_from_row w..w_to_row w]"
  then obtain x y where "c = y * COLUMNS + x" "in_window w x y" by (auto simp: in_window_def)
  moreover from this(2) assms have "0 \<le> x" "x < COLUMNS" by (auto simp: in_window_def window_ok_def)
  ultimately show "cell_in w c" by (simp add: cell_in_def cell_div_mod)
next
  assume "cell_in w c"
  moreover have "c = (c div COLUMNS) * COLUMNS + c mod COLUMNS" by simp
  ultimately show "\<exists>x \<in> set [w_from_col w..w_to_col w]. c \<in> (\<lambda>y. y * COLUMNS + x) ` set [w_from_row w..w_to_row w]"
    by (auto simp: cell_in_def in_window_def intro!: bexI [of _ "c mod COLUMNS"] image_eqI [of _ _ "c div COLUMNS"])
qed

lemma backup_cells: "window_ok w \<Longrightarrow> screen_backup w base b c = (if cell_in w c then base c else b c)"
  by (simp add: screen_backup_def copy_columns window_cells del: set_upto)

lemma restore_cells: "window_ok w \<Longrightarrow> screen_restore w b base c = (if cell_in w c then b c else base c)"
  by (simp add: screen_restore_def copy_columns window_cells del: set_upto)

lemma getpos_restored: "getpos ops w (g\<lparr>c_mem := m\<rparr>) = (let (p, g) = getpos ops w g in (p, g\<lparr>c_mem := m\<rparr>))"
  by (simp add: getpos_def Let_def case_prod_beta)

text \<open>Property C33. When the shell ends, its window shows again what it showed when the shell was started,
  and the cursor is where it was, whatever was drawn in between and whatever the saved array held
  before; cells outside the window are left as they are, and the array is given back.\<close>

theorem screen_restored:
  assumes "window_ok w" "cursor_ok ops sel reg w" "cursor_inside ops w (g_cga (o_dev s))"
    and "shell_backup ops w fresh b s = Some (b', s1)"
  shows "\<exists>b'' s3. shell_restore ops w b' s2 = Some (b'', s3) \<and> backup_cga b'' = None \<and>
    cursor_at ops w (g_cga (o_dev s3)) = cursor_at ops w (g_cga (o_dev s)) \<and>
    (\<forall>c. c_mem (g_cga (o_dev s3)) c = c_mem (g_cga (o_dev (if cell_in w c then s else s2))) c)"
proof -
  obtain x y g where g: "getpos ops w (g_cga (o_dev s)) = ((x, y), g)" by (metis prod.exhaust)
  then have mem: "c_mem g = c_mem (g_cga (o_dev s))" using getpos_mem [of ops w "g_cga (o_dev s)"] by simp
  have at: "cursor_at ops w (g_cga (o_dev s)) = (x, y)" "in_window w x y"
    using g assms(3) by (simp_all add: cursor_at_def cursor_inside_def)
  obtain cells where b': "b' = \<lparr>backup_cga = Some (screen_backup w (c_mem g) cells), backup_out_x = x, backup_out_y = y\<rparr>"
    using assms(4) g by (auto simp: shell_backup_def Let_def bind_eq_Some_conv)
  have "fst (getpos ops w (setpos ops w x y (g_cga (o_dev s2)))) = (x, y)"
    by (rule getpos_setpos [OF assms(2,1) at(2)])
  then show ?thesis
    using b' at(1) mem assms(1)
    by (simp add: shell_restore_def Let_def cursor_at_def getpos_restored restore_cells backup_cells setpos_mem case_prod_beta)
qed

theorem screen_restored_witness:
  "\<exists>b' s1 b'' s3. shell_backup crt_demo demo_window (Some (\<lambda>_. (0, 0))) \<lparr>backup_cga = None, backup_out_x = 0, backup_out_y = 0\<rparr>
       (ostream_new (replicate 80 0) demo_dev) = Some (b', s1) \<and>
     shell_restore crt_demo demo_window b' (s1\<lparr>o_dev := (o_dev s1)\<lparr>g_cga := cga_new demo_window (\<lambda>_. (65, 7)) (0, \<lambda>_. 0)\<rparr>\<rparr>) =
       Some (b'', s3) \<and> c_mem (g_cga (o_dev s3)) (2 * 80 + 3) = (32, 7) \<and> c_mem (g_cga (o_dev s3)) 0 = (65, 7)"
proof -
  let ?s = "ostream_new (replicate 80 0) demo_dev"
  obtain b' s1 where b: "shell_backup crt_demo demo_window (Some (\<lambda>_. (0, 0))) \<lparr>backup_cga = None, backup_out_x = 0, backup_out_y = 0\<rparr> ?s = Some (b', s1)"
    by (simp add: shell_backup_def Let_def case_prod_beta)
  have ok: "cga_ok crt_demo fst snd demo_window demo_dev" by (rule demo_dev_ok)
  then have "cursor_ok crt_demo fst snd demo_window" "cursor_inside crt_demo demo_window (g_cga (o_dev ?s))"
    by (simp_all add: cga_ok_def ostream_new_def)
  moreover have "cell_in demo_window 163" "\<not> cell_in demo_window 0"
    by (simp_all add: cell_in_def in_window_def demo_window_def COLUMNS_def)
  moreover have "c_mem (g_cga (o_dev ?s)) 163 = (32, 7)" by (simp add: ostream_new_def demo_dev_def cga_new_def)
  ultimately show ?thesis
    using screen_restored [OF demo_window_ok, of crt_demo fst snd ?s "Some (\<lambda>_. (0, 0))" _ b' s1
      "s1\<lparr>o_dev := (o_dev s1)\<lparr>g_cga := cga_new demo_window (\<lambda>_. (65, 7)) (0, \<lambda>_. 0)\<rparr>\<rparr>"] b
    by (fastforce simp: cga_new_def)
qed

end
