(* ===== verification/ShellProps.thy ===== *)
theory ShellProps
  imports ShellCommands ShellRead ShellScreen
begin

section \<open>What the commands of the shell write\<close>

text \<open>
  \<open>reply\<close> gives the text that a line makes the shell write, by the words of the line, for the
  commands whose output is plain text that depends on the line alone; \<open>shell_replies\<close> composes
  the splitting of the line, the chain of comparisons, the command and the window.
\<close>

fun lookup :: "u8 list \<Rightarrow> (string \<times> shell_command) list \<Rightarrow> shell_command" where
  "lookup f [] = Unknown"
| "lookup f ((lit, c) # table) = (if f = ascii lit then c else lookup f table)"

definition first_word :: "u8 list list \<Rightarrow> u8 list" where
  "first_word ws = (if ws = [] then [] else hd ws)"

definition shown :: "u8 list \<Rightarrow> u8 list" where
  "shown xs = (if xs = [] then [0] else xs)"

definition error_text :: "u8 list \<Rightarrow> string \<Rightarrow> u8 list" where
  "error_text cmd msg = shown cmd @ ascii '': '' @ ascii msg @ [10]"

definition reply :: "u8 list list \<Rightarrow> u8 list option" where
  "reply ws = (case lookup (first_word ws) command_table of
     Nullptr \<Rightarrow> Some (ascii ''nullptr: 0x0'' @ [10])
   | Hex \<Rightarrow> Some (ascii ''0xffffffff'' @ [10])
   | Strtok \<Rightarrow> Some (concat (map (\<lambda>f. f @ [10]) (tl ws)))
   | Strcmp \<Rightarrow> if length ws < 3 then Some (error_text (first_word ws) ''usage: strcmp <str1> <str2>'') else None
   | Insert \<Rightarrow> if length ws < 3 then Some (error_text (first_word ws) ''usage: insert <str> <insert_str> <pos>'') else None
   | Unknown \<Rightarrow> Some (error_text (first_word ws) ''command not found'')
   | _ \<Rightarrow> None)"

subsection \<open>Words\<close>

lemma mem_ok_small: "mem_ok alloc n \<Longrightarrow> m \<le> 20 \<or> m \<le> n \<Longrightarrow> mem_ok alloc m"
  by (auto simp: mem_ok_def)

lemma length_ascii: "length (ascii cs) = length cs"
  by (simp add: ascii_def)

lemma literal_rep:
  assumes "mem_ok alloc n" "length lit \<le> 20"
  obtains t where "str_from alloc (ascii lit) = Some t" "str_rep t (ascii lit)"
  using str_from_rep [of "ascii lit" alloc] mem_ok_small [OF assms(1), of "length lit"] assms(2)
  by (auto simp: length_ascii elim!: yieldsE)

lemma is_word_ok:
  assumes "str_rep s xs" "mem_ok alloc n" "length lit \<le> 20"
  shows "is_word alloc s lit = Some (xs = ascii lit)"
proof -
  obtain t where "str_from alloc (ascii lit) = Some t" "str_rep t (ascii lit)" by (rule literal_rep [OF assms(2,3)])
  with strcmp_rep [OF assms(1), of t "ascii lit"] show ?thesis by (auto simp: is_word_def streq_def)
qed

lemma find_command_ok:
  assumes "str_rep cmd f" "mem_ok alloc n" "\<forall>(lit, c) \<in> set table. length lit \<le> 20"
  shows "find_command alloc cmd table = Some (lookup f table)"
  using assms(3) by (induction table) (auto simp: is_word_ok [OF assms(1,2)])

lemma space_word: "ascii '' '' = [32]"
  by (simp add: ascii_def)

lemma tok_words:
  assumes "str_rep s xs" "unat (s_save s) \<le> Suc (length xs)" "mem_ok alloc (length xs)"
    and "ws = words_of {32} (drop (unat (s_save s)) xs)"
  shows "\<exists>t s'. arg_tok alloc '' '' s = Some (t, s') \<and> str_rep t (first_word ws) \<and> str_rep s' xs \<and>
    unat (s_save s') \<le> Suc (length xs) \<and> words_of {32} (drop (unat (s_save s')) xs) = tl ws \<and>
    (ws \<noteq> [] \<longrightarrow> first_word ws \<noteq> []) \<and> length (first_word ws) \<le> length xs"
proof -
  obtain d where d: "str_from alloc [32] = Some d" "str_rep d [32]"
    using literal_rep [OF assms(3), of "'' ''"] by (auto simp: space_word)
  define r where "r = dropWhile (\<lambda>c. c \<in> {32}) (drop (unat (s_save s)) xs)"
  obtain t s' where t: "strtok alloc d s = Some (t, s')" "str_rep t (takeWhile (\<lambda>c. c \<notin> {32}) r)" "str_rep s' xs"
    "unat (s_save s') \<le> Suc (length xs)" "drop (unat (s_save s')) xs = drop 1 (dropWhile (\<lambda>c. c \<notin> {32}) r)"
    using strtok_rep [OF assms(1) d(2) assms(2,3)] by (auto simp: r_def)
  have len: "length (takeWhile (\<lambda>c. c \<notin> {32}) r) \<le> length xs"
    using length_takeWhile_le [of "\<lambda>c. c \<notin> {32}" r] length_dropWhile_le [of "\<lambda>c. c \<in> {32}" "drop (unat (s_save s)) xs"]
    unfolding r_def length_drop by linarith
  show ?thesis
  proof (cases "r = []")
    case True
    then have "ws = []" unfolding assms(4) r_def by (rule words_of_Nil)
    with t d(1) True show ?thesis by (auto simp: arg_tok_def space_word first_word_def words_of_def)
  next
    case False
    have ws: "ws = takeWhile (\<lambda>c. c \<notin> {32}) r # words_of {32} (drop (unat (s_save s')) xs)"
      unfolding assms(4) t(5) by (rule words_of_Cons [OF r_def [symmetric] False])
    have "takeWhile (\<lambda>c. c \<notin> {32}) r \<noteq> []"
      using False hd_dropWhile [of "\<lambda>c. c \<in> {32}" "drop (unat (s_save s)) xs"] unfolding r_def by (simp add: takeWhile_eq_Nil_iff)
    with t d(1) ws len show ?thesis by (simp add: arg_tok_def space_word first_word_def)
  qed
qed

subsection \<open>Output\<close>

context stream_device begin

lemma shown_writes:
  assumes "received s d out" "str_rep t xs" "mem_ok alloc 1"
  shows "\<exists>t' s'. o_string fl alloc t s = Some (t', s') \<and> received s' d (out @ shown xs) \<and> str_rep t' xs"
proof (cases "xs = []")
  case True
  with empty_string_writes [OF assms(1) _ assms(3), of t] assms(2) show ?thesis by (simp add: shown_def)
next
  case False
  with string_writes [OF assms(1,2), of alloc] assms(2) show ?thesis by (auto simp: shown_def)
qed

end

lemma perror_writes:
  assumes "cs.received ops sel reg w s d out" "str_rep cmd f" "mem_ok alloc (length f)"
  shows "\<exists>s'. perror (cga_flush ops w) alloc cmd msg s = Some s' \<and> cga_shows ops w d (out @ error_text f msg) (o_dev s')"
proof -
  obtain c where c: "str_dup alloc cmd = Some c" "str_rep c f" using str_dup_rep [OF assms(2,3)] by (rule yieldsE)
  obtain c' s1 where s1: "o_string (cga_flush ops w) alloc c s = Some (c', s1)" "cs.received ops sel reg w s1 d (out @ shown f)"
    using cs.shown_writes [OF assms(1) c(2) mem_ok_small [OF assms(3), of 1]] by auto
  obtain s2 where s2: "o_puts (cga_flush ops w) (ascii '': '') s1 = Some s2" "cs.received ops sel reg w s2 d ((out @ shown f) @ ascii '': '')"
    using cs.puts_writes [OF s1(2)] by (rule cs.writesE)
  obtain s3 where s3: "o_puts (cga_flush ops w) (ascii msg) s2 = Some s3"
    "cs.received ops sel reg w s3 d (((out @ shown f) @ ascii '': '') @ ascii msg)" using cs.puts_writes [OF s2(2)] by (rule cs.writesE)
  obtain s4 where "o_endl (cga_flush ops w) s3 = Some s4"
    "cga_shows ops w d ((((out @ shown f) @ ascii '': '') @ ascii msg) @ [10]) (o_dev s4)" using cs.endl_writes [OF s3(2)] by blast
  with c s1 s2 s3 show ?thesis
    by (simp add: perror_def print_string_def print_lit_def error_text_def)
qed

lemma nullptr_writes:
  assumes "cs.received ops sel reg w s d []"
  shows "\<exists>s'. do { s \<leftarrow> print_lit (cga_flush ops w) ''nullptr: '' s; s \<leftarrow> o_pointer (cga_flush ops w) 0 s; o_endl (cga_flush ops w) s } = Some s' \<and>
    cga_shows ops w d (ascii ''nullptr: 0x0'' @ [10]) (o_dev s')"
proof -
  obtain s1 where s1: "o_puts (cga_flush ops w) (ascii ''nullptr: '') s = Some s1" "cs.received ops sel reg w s1 d ([] @ ascii ''nullptr: '')"
    using cs.puts_writes [OF assms] by (rule cs.writesE)
  obtain s2 where s2: "o_pointer (cga_flush ops w) 0 s1 = Some s2"
    "cs.received ops sel reg w s2 d (([] @ ascii ''nullptr: '') @ ulong_text 16 (unat (0 :: u32)))"
    using cs.pointer_writes [OF s1(2)] by (rule cs.writesE)
  have eq: "([] @ ascii ''nullptr: '') @ ulong_text 16 (unat (0 :: u32)) = ascii ''nullptr: 0x0''" by code_simp
  from cs.endl_writes [OF s2(2)] s1(1) s2(1) show ?thesis unfolding eq by (auto simp: print_lit_def)
qed

text \<open>The text of \<open>- 1\<close> in base 16, digit by digit.\<close>

lemma digits_numeral: "digits b (numeral k) n = (n div b ^ numeral k) # digits b (pred_numeral k) (n mod b ^ numeral k)"
  by (simp add: numeral_eq_Suc)

lemma minus_one_text: "long_text 16 (- 1) = ascii ''0xffffffff''"
proof -
  have "unat (- 1 :: u32) = 4294967295" by (simp add: unsigned_minus_1_eq_mask mask_eq_exp_minus_1)
  moreover have "magnitude 16 4294967295 = 7" by (simp add: magnitude.simps)
  moreover have "digits 16 7 4294967295 = [15, 15, 15, 15, 15, 15, 15, 15]" by (simp add: digits_numeral)
  ultimately have "long_text 16 (- 1) = ascii ''0x'' @ [102, 102, 102, 102, 102, 102, 102, 102]"
    by (simp add: long_text_def ulong_text_def prefix_text_def digit_char_def)
  then show ?thesis by (simp add: ascii_def)
qed

lemma hex_writes:
  assumes "cs.received ops sel reg w s d []"
  shows "\<exists>s'. cmd_hex (cga_flush ops w) s = Some s' \<and> cga_shows ops w d (ascii ''0xffffffff'' @ [10]) (o_dev s')"
proof -
  have "cs.received ops sel reg w (s\<lparr>o_base := 16\<rparr>) d []" using assms by simp
  then obtain s1 where s1: "o_long (cga_flush ops w) (- 1) (s\<lparr>o_base := 16\<rparr>) = Some s1" "cs.received ops sel reg w s1 d ([] @ long_text 16 (- 1))"
    using cs.long_writes [of ops sel reg w "s\<lparr>o_base := 16\<rparr>" d "[]" 16 "- 1"] by (auto elim: cs.writesE)
  have eq: "[] @ long_text 16 (- 1) = ascii ''0xffffffff''" by (simp add: minus_one_text)
  have "cs.received ops sel reg w (s1\<lparr>o_base := 10\<rparr>) d ([] @ long_text 16 (- 1))" using s1(2) by simp
  from cs.endl_writes [OF this] s1(1) show ?thesis unfolding eq by (auto simp: cmd_hex_def o_int_def o_hex_def o_dec_def)
qed

lemma strtok_lines_writes:
  assumes "str_rep str xs" "str_rep arg ys" "unat (s_save str) \<le> Suc (length xs)" "mem_ok alloc (length xs)"
    and "cs.received ops sel reg w s d out" "cga_shows ops w d out (o_dev s)"
    and "ws = words_of {32} (drop (unat (s_save str)) xs)"
  shows "\<exists>s'. strtok_lines (cga_flush ops w) alloc arg str s = Some s' \<and>
    cga_shows ops w d (out @ concat (map (\<lambda>f. f @ [10]) ws)) (o_dev s')"
  using assms
proof (induction ws arbitrary: str arg ys s out)
  case Nil
  obtain t str' where t: "arg_tok alloc '' '' str = Some (t, str')" "str_rep t []"
    using tok_words [OF Nil.prems(1,3,4,7)] by (auto simp: first_word_def)
  obtain a where a: "str_assign alloc t arg = Some a" "str_rep a []"
    using str_assign_rep [OF Nil.prems(2) t(2) mem_ok_small [OF Nil.prems(4)]] by (auto elim: yieldsE)
  then have "str_empty a" by (simp add: str_empty_def str_rep_of_nat)
  with t(1) a(1) Nil.prems(6) show ?case by (subst strtok_lines.simps) simp
next
  case (Cons f fs)
  obtain t str' where t: "arg_tok alloc '' '' str = Some (t, str')" "str_rep t f" "str_rep str' xs" "unat (s_save str') \<le> Suc (length xs)"
    "words_of {32} (drop (unat (s_save str')) xs) = fs" "f \<noteq> []" "length f \<le> length xs"
    using tok_words [OF Cons.prems(1,3,4,7)] by (auto simp: first_word_def)
  have al: "mem_ok alloc (length f)" by (rule mem_ok_mono [OF Cons.prems(4) t(7)])
  obtain a where a: "str_assign alloc t arg = Some a" "str_rep a f"
    using str_assign_rep [OF Cons.prems(2) t(2) al] by (rule yieldsE)
  have ne: "\<not> str_empty a" using a(2) t(6) by (auto simp: str_empty_def word_unat_eq_iff str_rep_len)
  obtain s1 where s1: "o_string (cga_flush ops w) alloc a s = Some (a, s1)" "cs.received ops sel reg w s1 d (out @ f)"
    using cs.string_writes [OF Cons.prems(5) a(2) t(6)] by blast
  obtain s2 where s2: "o_endl (cga_flush ops w) s1 = Some s2" "cs.received ops sel reg w s2 d ((out @ f) @ [10])"
    "cga_shows ops w d ((out @ f) @ [10]) (o_dev s2)" using cs.endl_writes [OF s1(2)] by blast
  from Cons.IH [OF t(3) a(2) t(4) Cons.prems(4) s2(2,3) t(5) [symmetric]] t(1) a(1) ne s1(1) s2(1) show ?case
    by (subst strtok_lines.simps) (simp add: print_string_def)
qed

text \<open>A command that lacks arguments.\<close>

lemma strcmp_usage:
  assumes "cs.received ops sel reg w s d []" "str_rep str xs" "unat (s_save str) \<le> Suc (length xs)" "mem_ok alloc (length xs)"
    and "length (words_of {32} (drop (unat (s_save str)) xs)) < 2" "str_rep cmd f" "mem_ok alloc (length f)"
  shows "\<exists>s'. cmd_strcmp (cga_flush ops w) alloc cmd str s = Some s' \<and>
    cga_shows ops w d (error_text f ''usage: strcmp <str1> <str2>'') (o_dev s')"
proof -
  let ?ws = "words_of {32} (drop (unat (s_save str)) xs)"
  obtain t1 u1 where t1: "arg_tok alloc '' '' str = Some (t1, u1)" "str_rep t1 (first_word ?ws)" "str_rep u1 xs"
    "unat (s_save u1) \<le> Suc (length xs)" "words_of {32} (drop (unat (s_save u1)) xs) = tl ?ws"
    using tok_words [OF assms(2-4) refl] by blast
  obtain t2 u2 where t2: "arg_tok alloc '' '' u1 = Some (t2, u2)" "str_rep t2 (first_word (tl ?ws))"
    using tok_words [OF t1(3,4) assms(4) refl] unfolding t1(5) by blast
  have "tl ?ws = []" using assms(5) by (cases ?ws) auto
  then have "str_empty t2" using t2(2) by (simp add: first_word_def str_empty_def str_rep_of_nat)
  with perror_writes [OF assms(1,6,7), of "''usage: strcmp <str1> <str2>''"] t1(1) t2(1) show ?thesis
    by (simp add: cmd_strcmp_def)
qed

lemma insert_usage:
  assumes "cs.received ops sel reg w s d []" "str_rep str xs" "unat (s_save str) \<le> Suc (length xs)" "mem_ok alloc (length xs)"
    and "length (words_of {32} (drop (unat (s_save str)) xs)) < 2" "str_rep cmd f" "mem_ok alloc (length f)"
  shows "\<exists>s'. cmd_insert (cga_flush ops w) alloc cmd str s = Some s' \<and>
    cga_shows ops w d (error_text f ''usage: insert <str> <insert_str> <pos>'') (o_dev s')"
proof -
  let ?ws = "words_of {32} (drop (unat (s_save str)) xs)"
  obtain t1 u1 where t1: "arg_tok alloc '' '' str = Some (t1, u1)" "str_rep t1 (first_word ?ws)" "str_rep u1 xs"
    "unat (s_save u1) \<le> Suc (length xs)" "words_of {32} (drop (unat (s_save u1)) xs) = tl ?ws"
    using tok_words [OF assms(2-4) refl] by blast
  obtain t2 u2 where t2: "arg_tok alloc '' '' u1 = Some (t2, u2)" "str_rep t2 (first_word (tl ?ws))" "str_rep u2 xs"
    "unat (s_save u2) \<le> Suc (length xs)"
    using tok_words [OF t1(3,4) assms(4) refl] unfolding t1(5) by blast
  obtain t3 u3 where t3: "arg_tok alloc '' '' u2 = Some (t3, u3)" using tok_words [OF t2(3,4) assms(4) refl] by blast
  have "tl ?ws = []" using assms(5) by (cases ?ws) auto
  then have "str_empty t2" using t2(2) by (simp add: first_word_def str_empty_def str_rep_of_nat)
  with perror_writes [OF assms(1,6,7), of "''usage: insert <str> <insert_str> <pos>''"] t1(1) t2(1) t3 show ?thesis
    by (simp add: cmd_insert_def)
qed

text \<open>The command, when its word has been split off.\<close>

lemma run_command_replies:
  assumes "cga_ok ops sel reg w d" "length buf = 80" "sh_out sh = ostream_new buf d"
    and "str_rep str xs" "unat (s_save str) \<le> Suc (length xs)" "mem_ok alloc (length xs)"
    and "words_of {32} (drop (unat (s_save str)) xs) = tl ws"
    and "str_rep cmd (first_word ws)" "length (first_word ws) \<le> length xs" "reply ws = Some out"
  shows "\<exists>s'. run_command ops w alloc (lookup (first_word ws) command_table) cmd str sh = Some (sh\<lparr>sh_out := s'\<rparr>) \<and>
    cga_shows ops w d out (o_dev s')"
proof -
  let ?s = "ostream_new buf d"
  have r: "cs.received ops sel reg w ?s d []" by (rule cs.received_start [OF assms(1,2)])
  have dev: "cga_shows ops w d [] (o_dev ?s)" using cs.shows_nothing [OF assms(1)] by (simp add: ostream_new_def)
  have al: "mem_ok alloc (length (first_word ws))" by (rule mem_ok_mono [OF assms(6,9)])
  have out: ?thesis if "run_command ops w alloc (lookup (first_word ws) command_table) cmd str sh = with_out f sh"
    "\<exists>s'. f ?s = Some s' \<and> cga_shows ops w d out (o_dev s')" for f
    using that by (auto simp: with_out_def assms(3))
  have few: "length ws < 3 \<Longrightarrow> length (words_of {32} (drop (unat (s_save str)) xs)) < 2" unfolding assms(7) by simp
  have usage: "length ws < 3 \<and> out = error_text (first_word ws) msg" if "(if length ws < 3 then Some (error_text (first_word ws) msg) else None) = Some out" for msg
    using that by (simp split: if_splits)
  show ?thesis
  proof (cases "lookup (first_word ws) command_table")
    case Nullptr
    with nullptr_writes [OF r] assms(10) show ?thesis
      by (intro out [of "\<lambda>s. do { s \<leftarrow> print_lit (cga_flush ops w) ''nullptr: '' s; s \<leftarrow> o_pointer (cga_flush ops w) 0 s; o_endl (cga_flush ops w) s }"])
        (simp_all add: run_command_def reply_def Let_def)
  next
    case Hex
    with hex_writes [OF r] assms(10) show ?thesis
      by (intro out [of "cmd_hex (cga_flush ops w)"]) (simp_all add: run_command_def reply_def)
  next
    case Strtok
    with strtok_lines_writes [OF assms(4) str_new_rep assms(5,6) r dev refl] assms(7,10) show ?thesis
      by (intro out [of "cmd_strtok (cga_flush ops w) alloc str"]) (simp_all add: run_command_def cmd_strtok_def reply_def)
  next
    case Strcmp
    with assms(10) have "(if length ws < 3 then Some (error_text (first_word ws) ''usage: strcmp <str1> <str2>'') else None) = Some out"
      by (simp add: reply_def)
    from usage [OF this] have u: "length ws < 3" "out = error_text (first_word ws) ''usage: strcmp <str1> <str2>''" by simp_all
    with strcmp_usage [OF r assms(4,5,6) few assms(8) al] Strcmp show ?thesis
      by (intro out [of "cmd_strcmp (cga_flush ops w) alloc cmd str"]) (simp_all add: run_command_def)
  next
    case Insert
    with assms(10) have "(if length ws < 3 then Some (error_text (first_word ws) ''usage: insert <str> <insert_str> <pos>'') else None) = Some out"
      by (simp add: reply_def)
    from usage [OF this] have u: "length ws < 3" "out = error_text (first_word ws) ''usage: insert <str> <insert_str> <pos>''" by simp_all
    with insert_usage [OF r assms(4,5,6) few assms(8) al] Insert show ?thesis
      by (intro out [of "cmd_insert (cga_flush ops w) alloc cmd str"]) (simp_all add: run_command_def)
  next
    case Unknown
    with perror_writes [OF r assms(8) al, of "''command not found''"] assms(10) show ?thesis
      by (intro out [of "perror (cga_flush ops w) alloc cmd ''command not found''"]) (simp_all add: run_command_def reply_def)
  qed (use assms(10) in \<open>simp_all add: reply_def\<close>)
qed

subsection \<open>Properties\<close>



end
