(* ===== verification/Wiring.thy ===== *)
theory Wiring
  imports IoApic Keyboard Console Cmos Watch Guard GdbHandle
begin

section \<open>Connecting the devices to their interrupt handlers\<close>

text \<open>
  An interrupt of a device reaches its driver through three tables: the I/O APIC turns the pin
  of the device into a vector, the interrupt descriptor table leads to \<^verbatim>\<open>guardian\<close> or to the debugger, and the
  plugbox names the \<^verbatim>\<open>Gate\<close> object for the vector. This theory holds the operations that fill
  the tables when the system starts, in the order of \<^verbatim>\<open>main\<close>, and \<^verbatim>\<open>guardian\<close>, which calls the prologue.
  Its second half, the epilogue, is requested with the action \<open>Irq\<close> of theory \<open>Guard\<close>.
\<close>

subsection \<open>The gates\<close>

datatype gate_object = PanicGate | WatchGate | KeyboardGate | ConsoleGate | RtcGate | AssassinGate | WakeUpGate

datatype vector = VTimer | VKeyboard | VSerial | VRtc | VAssassin | VWakeup | VPanic

fun vector_number :: "vector \<Rightarrow> nat" where
  "vector_number VTimer = 32" | "vector_number VKeyboard = 33" | "vector_number VSerial = 36" | "vector_number VRtc = 60"
| "vector_number VAssassin = 100" | "vector_number VWakeup = 101" | "vector_number VPanic = 255"

definition vector_word :: "vector \<Rightarrow> u32" where "vector_word v = of_nat (vector_number v)"

definition TRIGGER_MODE_LEVEL :: u32 where "TRIGGER_MODE_LEVEL = 1"

text \<open>The global objects of the drivers, and the hardware.\<close>

record 'w machine =
  m_plugs :: "gate_object list"
  m_idt :: "idt_entry list"
  m_keyboard :: keyboard
  m_keyctrl :: kbctrl
  m_console :: "u8 bbuffer"
  m_rtc :: rtc
  m_watch :: watch
  m_hw :: 'w

definition assign_gate :: "vector \<Rightarrow> gate_object \<Rightarrow> 'w machine \<Rightarrow> 'w machine option" where
  "assign_gate v g m = map_option (\<lambda>t. m\<lparr>m_plugs := t\<rparr>) (plugbox_assign (vector_number v) g (m_plugs m))"

definition on_hw :: "('w \<Rightarrow> 'w) \<Rightarrow> 'w machine \<Rightarrow> 'w machine" where
  "on_hw f m = m\<lparr>m_hw := f (m_hw m)\<rparr>"

subsection \<open>The drivers at the start\<close>

definition keyboard_plugin ::
  "'w port_ops \<Rightarrow> 'w mm_ops \<Rightarrow> system_configuration \<Rightarrow> 'w machine \<Rightarrow> 'w machine option"
where
  "keyboard_plugin ops mm conf m = do {
     let slot = getIOAPICSlot conf Keyboard;
     m \<leftarrow> assign_gate VKeyboard KeyboardGate m;
     let m = on_hw (ioapic_config mm slot (vector_word VKeyboard) TRIGGER_MODE_LEVEL POLARITY_HIGH) m;
     let m = on_hw (ioapic_allow mm slot) m;
     w \<leftarrow> drain_keyboard ops (m_hw m);
     Some (m\<lparr>m_hw := w\<rparr>) }"

definition console_listen ::
  "'w port_ops \<Rightarrow> 'w mm_ops \<Rightarrow> system_configuration \<Rightarrow> com_port \<Rightarrow> 'w machine \<Rightarrow> 'w machine option"
where
  "console_listen ops mm conf com m = do {
     let slot = getIOAPICSlot conf (com_device com);
     m \<leftarrow> assign_gate VSerial ConsoleGate m;
     let m = on_hw (ioapic_config mm slot (vector_word VSerial) TRIGGER_MODE_LEVEL POLARITY_HIGH) m;
     (_, w) \<leftarrow> receiveInterrupt ops mm conf com True (m_hw m);
     Some (m\<lparr>m_hw := w\<rparr>) }"

definition rtc_init ::
  "'w port_ops \<Rightarrow> 'w mm_ops \<Rightarrow> system_configuration \<Rightarrow> bool \<Rightarrow> irq_freq \<Rightarrow> 'w machine \<Rightarrow> 'w machine option"
where
  "rtc_init ops mm conf enable_update_irq freq m = do {
     (r, w) \<leftarrow> rtc_setup ops enable_update_irq freq (m_rtc m) (m_hw m);
     let m = m\<lparr>m_rtc := r, m_hw := w\<rparr>;
     let slot = getIOAPICSlot conf Rtc;
     m \<leftarrow> assign_gate VRtc RtcGate m;
     let m = on_hw (ioapic_config mm slot (vector_word VRtc) TRIGGER_MODE_LEVEL POLARITY_HIGH) m;
     let m = on_hw (ioapic_allow mm slot) m;
     Some (on_hw (clear_status_c ops) m) }"

definition watch_windup :: "'w port_ops \<Rightarrow> 'w mm_ops \<Rightarrow> u32 \<Rightarrow> 'w machine \<Rightarrow> (bool \<times> 'w machine) option" where
  "watch_windup ops mm us m = do {
     (ok, wt, w) \<leftarrow> windup ops mm us (m_watch m) (m_hw m);
     let m = m\<lparr>m_watch := wt, m_hw := w\<rparr>;
     if ok then map_option (Pair True) (assign_gate VTimer WatchGate m) else Some (False, m) }"

definition wakeup_activate :: "'w machine \<Rightarrow> 'w machine option" where
  "wakeup_activate m = assign_gate VWakeup WakeUpGate m"

definition assassin_hire :: "'w machine \<Rightarrow> 'w machine option" where
  "assassin_hire m = assign_gate VAssassin AssassinGate m"

text \<open>The start of the devices in \<^verbatim>\<open>main\<close>; \<open>entries\<close> are the addresses of the debugger's handlers.\<close>

definition main_devices ::
  "'w port_ops \<Rightarrow> 'w mm_ops \<Rightarrow> system_configuration \<Rightarrow> u32 list \<Rightarrow> 'w machine \<Rightarrow> 'w machine option"
where
  "main_devices ops mm conf entries m = do {
     let m = on_hw (ioapic_init mm conf) m;
     m \<leftarrow> keyboard_plugin ops mm conf m;
     (idt, w) \<leftarrow> gdb_new ops COM1 BAUD_9600 False entries (m_idt m) (m_hw m);
     m \<leftarrow> console_listen ops mm conf COM1 (m\<lparr>m_idt := idt, m_hw := w\<rparr>);
     m \<leftarrow> rtc_init ops mm conf True Freq_0hz m;
     (_, m) \<leftarrow> watch_windup ops mm 1000 m;
     m \<leftarrow> wakeup_activate m;
     assassin_hire m }"

subsection \<open>The interrupt handler\<close>

text \<open>The short prologues; that of the panic object stops the CPU.\<close>

definition watch_prologue :: bool where "watch_prologue = True"
definition assassin_prologue :: bool where "assassin_prologue = True"
definition wakeup_prologue :: bool where "wakeup_prologue = False"
definition panic_prologue :: "bool option" where "panic_prologue = None"

text \<open>The call \<^verbatim>\<open>g->prologue()\<close>.\<close>

fun gate_prologue :: "'w port_ops \<Rightarrow> u16 \<Rightarrow> gate_object \<Rightarrow> 'w machine \<Rightarrow> (bool \<times> 'w machine) option" where
  "gate_prologue ops port PanicGate m = map_option (\<lambda>req. (req, m)) panic_prologue"
| "gate_prologue ops port WatchGate m = Some (watch_prologue, m)"
| "gate_prologue ops port KeyboardGate m =
     map_option (\<lambda>(req, kb, kc, w). (req, m\<lparr>m_keyboard := kb, m_keyctrl := kc, m_hw := w\<rparr>))
       (kb_prologue ops (m_keyboard m) (m_keyctrl m, m_hw m))"
| "gate_prologue ops port ConsoleGate m =
     map_option (\<lambda>(req, b, w). (req, m\<lparr>m_console := b, m_hw := w\<rparr>)) (console_prologue ops port (m_console m) (m_hw m))"
| "gate_prologue ops port RtcGate m =
     (let (req, r, w) = rtc_prologue ops (m_rtc m) (m_hw m) in Some (req, m\<lparr>m_rtc := r, m_hw := w\<rparr>))"
| "gate_prologue ops port AssassinGate m = Some (assassin_prologue, m)"
| "gate_prologue ops port WakeUpGate m = Some (wakeup_prologue, m)"

text \<open>The gate that is relayed, if any; the notice about unusual vectors is left out.\<close>

definition guardian ::
  "'w port_ops \<Rightarrow> 'w mm_ops \<Rightarrow> u16 \<Rightarrow> nat \<Rightarrow> 'w machine \<Rightarrow> (gate_object option \<times> 'w machine) option"
where
  "guardian ops mm port vector m = do {
     g \<leftarrow> plugbox_report vector (m_plugs m);
     (req, m) \<leftarrow> gate_prologue ops port g m;
     let m = on_hw (ackIRQ mm) m;
     Some (if req then Some g else None, m) }"

end
