(* ===== verification/WiringProps.thy ===== *)
theory WiringProps
  imports Wiring
begin

section \<open>The devices after the start\<close>

text \<open>
  \<open>devices_wired\<close> follows the start of all devices and says where an interrupt of each pin leads.
  Its first part are frame lemmas: what only uses the ports and the registers of the local APIC
  keeps any property \<open>Q\<close> of the hardware that these accesses keep.
\<close>

subsection \<open>What the drivers keep\<close>

definition io_keeps :: "'w port_ops \<Rightarrow> ('w \<Rightarrow> bool) \<Rightarrow> bool" where
  "io_keeps ops Q \<longleftrightarrow> (\<forall>a v w. Q w \<longrightarrow> Q (p_outb ops a v w) \<and> Q (snd (p_inb ops a w)))"

definition lapic_keeps :: "'w mm_ops \<Rightarrow> ('w \<Rightarrow> bool) \<Rightarrow> bool" where
  "lapic_keeps mm Q \<longleftrightarrow> (\<forall>reg v w. Q w \<longrightarrow> Q (lapic_write mm reg v w) \<and> Q (snd (lapic_read mm reg w)))"

lemma io_keepsD:
  "io_keeps ops Q \<Longrightarrow> Q w \<Longrightarrow> Q (io_outb ops a v w)" "io_keeps ops Q \<Longrightarrow> Q w \<Longrightarrow> Q (snd (io_inb ops a w))"
  by (auto simp: io_keeps_def io_outb_def io_inb_def)

lemma lapic_keepsD:
  "lapic_keeps mm Q \<Longrightarrow> Q w \<Longrightarrow> Q (lapic_write mm reg v w)" "lapic_keeps mm Q \<Longrightarrow> Q w \<Longrightarrow> Q (snd (lapic_read mm reg w))"
  by (auto simp: lapic_keeps_def)

lemma drain_keeps:
  assumes "io_keeps ops Q" "drain_keyboard ops w = Some w'" "Q w" shows "Q w'"
proof -
  have "ops' = ops \<longrightarrow> Q v \<longrightarrow> Q v'" if "drain_keyboard ops' v = Some v'" for ops' v v'
    by (rule drain_keyboard.raw_induct [where P = "\<lambda>o' a b. o' = ops \<longrightarrow> Q a \<longrightarrow> Q b", OF _ that])
      (auto simp: split_beta Let_def io_keepsD [OF assms(1)] split: if_splits)
  then show ?thesis using assms(2,3) by blast
qed

lemma wait_update_keeps:
  assumes "io_keeps ops Q" "wait_update ops w = Some w'" "Q w" shows "Q w'"
proof -
  have "ops' = ops \<longrightarrow> Q v \<longrightarrow> Q v'" if "wait_update ops' v = Some v'" for ops' v v'
    by (rule wait_update.raw_induct [where P = "\<lambda>o' a b. o' = ops \<longrightarrow> Q a \<longrightarrow> Q b", OF _ that])
      (auto simp: split_beta Let_def is_updating_def cmos_read_def select_offset_def io_keepsD [OF assms(1)] split: if_splits)
  then show ?thesis using assms(2,3) by blast
qed

lemma wait_pit_keeps:
  assumes "io_keeps ops Q" "wait_pit ops w = Some w'" "Q w" shows "Q w'"
proof -
  have "ops' = ops \<longrightarrow> Q v \<longrightarrow> Q v'" if "wait_pit ops' v = Some v'" for ops' v v'
    by (rule wait_pit.raw_induct [where P = "\<lambda>o' a b. o' = ops \<longrightarrow> Q a \<longrightarrow> Q b", OF _ that])
      (auto simp: split_beta Let_def io_keepsD [OF assms(1)] split: if_splits)
  then show ?thesis using assms(2,3) by blast
qed

lemma serial_read_keeps:
  "io_keeps ops Q \<Longrightarrow> serial_read ops port False w = Some (c, w') \<Longrightarrow> Q w \<Longrightarrow> Q w'"
  by (auto simp: serial_read_def read_reg_def split_beta Let_def io_keepsD split: if_splits)

lemma clear_input_keeps:
  assumes "io_keeps ops Q" "clear_input ops port w = Some w'" "Q w" shows "Q w'"
proof -
  have "ops' = ops \<longrightarrow> Q v \<longrightarrow> Q v'" if "clear_input ops' port' v = Some v'" for ops' port' v v'
    by (rule clear_input.raw_induct [where P = "\<lambda>o' p a b. o' = ops \<longrightarrow> Q a \<longrightarrow> Q b", OF _ that])
      (auto simp: split_beta bind_eq_Some_conv dest: serial_read_keeps [OF assms(1)] split: if_splits)
  then show ?thesis using assms(2,3) by blast
qed

lemma serial_new_keeps: "io_keeps ops Q \<Longrightarrow> Q w \<Longrightarrow> Q (serial_new ops port b d st p w)"
  by (simp add: serial_new_def write_reg_def Let_def io_keepsD)

lemma cmos_keeps:
  assumes "io_keeps ops Q" "Q w"
  shows "Q (snd (cmos_read ops off w))" "Q (snd (cmos_write ops off v w))"
  using assms by (simp_all add: cmos_read_def cmos_write_def select_offset_def split_beta Let_def io_keepsD)

lemma cmos_init_keeps: "io_keeps ops Q \<Longrightarrow> Q w \<Longrightarrow> Q (snd (cmos_init ops u f w))"
  by (simp add: cmos_init_def split_beta Let_def cmos_keeps)

lemma rtc_get_keeps: "io_keeps ops Q \<Longrightarrow> rtc_get_value ops off w = Some (v, w') \<Longrightarrow> Q w \<Longrightarrow> Q w'"
  by (auto simp: rtc_get_value_def bind_eq_Some_conv split_beta dest: wait_update_keeps intro: cmos_keeps)

lemma rtc_setup_keeps:
  assumes "io_keeps ops Q" "rtc_setup ops u f r w = Some (r', w')" "Q w" shows "Q w'"
  using assms(2) cmos_init_keeps [OF assms(1,3), of u f]
  by (auto simp: rtc_setup_def rtc_update_time_def bind_eq_Some_conv split_beta rtc_get_second_def rtc_get_minute_def
      rtc_get_hour_def rtc_get_day_def rtc_get_month_def rtc_get_year_def rtc_get_weekday_def rtc_get_century_def
      dest!: rtc_get_keeps [OF assms(1)])

lemma setTimer_keeps: "lapic_keeps mm Q \<Longrightarrow> Q w \<Longrightarrow> Q (setTimer mm c d v p m w)"
  by (simp add: setTimer_def split_beta Let_def lapic_keepsD)

lemma windup_keeps:
  assumes "io_keeps ops Q" "lapic_keeps mm Q" "windup ops mm us wt w = Some (ok, wt', w')" "Q w" shows "Q w'"
proof -
  have "Q v'" if "timer_ticks ops mm v = Some (f, v')" "Q v" for f v v'
    using that by (auto simp: timer_ticks_def bind_eq_Some_conv split_beta Let_def
        intro!: setTimer_keeps [OF assms(2)] lapic_keepsD [OF assms(2)] io_keepsD [OF assms(1)]
        dest!: wait_pit_keeps [OF assms(1)])
  then show ?thesis using assms(3,4) by (auto simp: windup_def bind_eq_Some_conv split: option.splits)
qed

subsection \<open>The entries of the I/O APIC\<close>

text \<open>Mask bit and vector of a slot.\<close>

definition pin :: "(u32 \<Rightarrow> u32) \<Rightarrow> nat \<Rightarrow> u32 \<times> u32" where
  "pin r s = (getf L_mask (r (rte_l s)), getf L_vector (r (rte_l s)))"

lemma pin_init: "ioapic_ok mm sel regs \<Longrightarrow> s < 24 \<Longrightarrow> pin (regs (ioapic_init mm conf w)) s = (1, 255)"
  using ioapic_init_ok by (fastforce simp: pin_def silent_def)

lemma pin_config:
  "ioapic_ok mm sel regs \<Longrightarrow> unat slot < 24 \<Longrightarrow> s < 24 \<Longrightarrow> pin (regs (ioapic_config mm slot v t p w)) s =
    (if s = unat slot then (fst (pin (regs w) s), take_bit 8 v) else pin (regs w) s)"
  using rte_distinct(1) [of s "unat slot"]
  by (simp add: pin_def ioapic_config_regs L_written L_set L_neq [symmetric]) (simp add: L_defs)

lemma pin_allow:
  "ioapic_ok mm sel regs \<Longrightarrow> unat slot < 24 \<Longrightarrow> s < 24 \<Longrightarrow> pin (regs (ioapic_allow mm slot w)) s =
    (if s = unat slot then (0, snd (pin (regs w) s)) else pin (regs w) s)"
  using rte_distinct(1) [of s "unat slot"]
  by (simp add: pin_def ioapic_mask_regs(1) L_written L_set L_neq)

text \<open>The ports and the local APIC are different devices from the I/O APIC.\<close>

definition ioapic_apart :: "'w port_ops \<Rightarrow> 'w mm_ops \<Rightarrow> ('w \<Rightarrow> u32 \<Rightarrow> u32) \<Rightarrow> bool" where
  "ioapic_apart ops mm regs \<longleftrightarrow> (\<forall>R. io_keeps ops (\<lambda>w. regs w = R) \<and> lapic_keeps mm (\<lambda>w. regs w = R))"

lemma apartD:
  assumes "ioapic_apart ops mm regs"
  shows "io_keeps ops (\<lambda>w. regs w = R)" "lapic_keeps mm (\<lambda>w. regs w = R)"
  using assms by (auto simp: ioapic_apart_def)

text \<open>One driver: its pin is routed to its vector, its gate is entered, nothing else changes.\<close>

definition pins :: "('w \<Rightarrow> u32 \<Rightarrow> u32) \<Rightarrow> 'w machine \<Rightarrow> nat \<Rightarrow> u32 \<times> u32" where
  "pins regs m s = pin (regs (m_hw m)) s"

definition plugged :: "('w \<Rightarrow> u32 \<Rightarrow> u32) \<Rightarrow> system_configuration \<Rightarrow> device \<Rightarrow> vector \<Rightarrow> gate_object \<Rightarrow> 'w machine \<Rightarrow> 'w machine \<Rightarrow> bool" where
  "plugged regs conf d v g m m' \<longleftrightarrow>
     (\<forall>s < 24. pins regs m' s = (if s = unat (getIOAPICSlot conf d) then (0, vector_word v) else pins regs m s)) \<and>
     m_plugs m' = (m_plugs m)[vector_number v := g] \<and> m_idt m' = m_idt m"

lemma vector_byte: "take_bit 8 (vector_word v) = vector_word v"
  by (cases v) (simp_all add: vector_word_def)

lemma assign_gate_Some:
  "assign_gate v g m = Some m' \<Longrightarrow> m' = m\<lparr>m_plugs := (m_plugs m)[vector_number v := g]\<rparr>"
  by (auto simp: assign_gate_def plugbox_assign_def split: if_splits)

lemma route_pin:
  assumes "ioapic_ok mm sel regs" "unat slot < 24" "s < 24"
  shows "pin (regs (ioapic_allow mm slot (ioapic_config mm slot (vector_word v) t p w))) s =
    (if s = unat slot then (0, vector_word v) else pin (regs w) s)"
  using assms by (simp add: pin_allow pin_config vector_byte)

lemma keyboard_plugged:
  assumes "ioapic_ok mm sel regs" "ioapic_apart ops mm regs" "unat (getIOAPICSlot conf Keyboard) < 24"
    and "keyboard_plugin ops mm conf m = Some m'"
  shows "plugged regs conf Keyboard VKeyboard KeyboardGate m m'"
proof -
  let ?s = "getIOAPICSlot conf Keyboard"
  let ?w = "ioapic_allow mm ?s (ioapic_config mm ?s (vector_word VKeyboard) TRIGGER_MODE_LEVEL POLARITY_HIGH (m_hw m))"
  obtain w' where w': "drain_keyboard ops ?w = Some w'"
    and m': "m' = m\<lparr>m_plugs := (m_plugs m)[vector_number VKeyboard := KeyboardGate], m_hw := w'\<rparr>"
    using assms(4) by (auto simp: keyboard_plugin_def Let_def bind_eq_Some_conv on_hw_def dest!: assign_gate_Some)
  have "regs w' = regs ?w" using drain_keeps [OF apartD(1) [OF assms(2)] w', of "regs ?w"] by simp
  then show ?thesis using route_pin [OF assms(1,3)] by (simp add: plugged_def pins_def m')
qed

lemma console_plugged:
  assumes "ioapic_ok mm sel regs" "ioapic_apart ops mm regs" "unat (getIOAPICSlot conf (com_device com)) < 24"
    and "console_listen ops mm conf com m = Some m'"
  shows "plugged regs conf (com_device com) VSerial ConsoleGate m m'"
proof -
  let ?s = "getIOAPICSlot conf (com_device com)" and ?p = "com_base com"
  let ?c = "ioapic_config mm ?s (vector_word VSerial) TRIGGER_MODE_LEVEL POLARITY_HIGH (m_hw m)"
  let ?v = "write_reg ops ?p Mcr 0x0b (write_reg ops ?p Ier 1 (snd (read_reg ops ?p Ier ?c)))"
  obtain w' where w': "clear_input ops ?p (ioapic_allow mm ?s ?v) = Some w'"
    and m': "m' = m\<lparr>m_plugs := (m_plugs m)[vector_number VSerial := ConsoleGate], m_hw := w'\<rparr>"
    using assms(4)
    by (auto simp: console_listen_def receiveInterrupt_def Let_def bind_eq_Some_conv split_beta on_hw_def dest!: assign_gate_Some)
  have "regs ?v = regs ?c"
    by (simp add: write_reg_def read_reg_def io_keepsD [OF apartD(1) [OF assms(2)]])
  moreover have "regs w' = regs (ioapic_allow mm ?s ?v)"
    using clear_input_keeps [OF apartD(1) [OF assms(2)] w', of "regs (ioapic_allow mm ?s ?v)"] by simp
  ultimately have "regs w' = regs (ioapic_allow mm ?s ?c)" by (simp add: ioapic_mask_regs(1) [OF assms(1)])
  then show ?thesis using route_pin [OF assms(1,3)] by (simp add: plugged_def pins_def m')
qed

lemma rtc_plugged:
  assumes "ioapic_ok mm sel regs" "ioapic_apart ops mm regs" "unat (getIOAPICSlot conf Rtc) < 24"
    and "rtc_init ops mm conf u f m = Some m'"
  shows "plugged regs conf Rtc VRtc RtcGate m m'"
proof -
  let ?s = "getIOAPICSlot conf Rtc"
  obtain r v where su: "rtc_setup ops u f (m_rtc m) (m_hw m) = Some (r, v)"
    and m': "m' = m\<lparr>m_rtc := r, m_plugs := (m_plugs m)[vector_number VRtc := RtcGate], m_hw := clear_status_c ops
      (ioapic_allow mm ?s (ioapic_config mm ?s (vector_word VRtc) TRIGGER_MODE_LEVEL POLARITY_HIGH v))\<rparr>"
    using assms(4) by (auto simp: rtc_init_def Let_def bind_eq_Some_conv on_hw_def dest!: assign_gate_Some)
  have v: "regs v = regs (m_hw m)" using rtc_setup_keeps [OF apartD(1) [OF assms(2)] su] by simp
  have "regs (clear_status_c ops w) = regs w" for w
    by (simp add: clear_status_c_def cmos_keeps [OF apartD(1) [OF assms(2)]])
  then show ?thesis using route_pin [OF assms(1,3)] v by (simp add: plugged_def pins_def m')
qed

text \<open>The interval of one millisecond is never too long for the timer: the number of ticks fits
  in 32 bits, so \<^verbatim>\<open>windup\<close> enters the watch in the plugbox.\<close>

lemma windup_millisecond:
  assumes "windup ops mm 1000 wt w = Some (ok, wt', w')"
  shows "ok" "irq_interval wt' = 1000"
proof -
  obtain t v where t: "timer_ticks ops mm w = Some (t, v)" using assms by (auto simp: windup_def bind_eq_Some_conv)
  let ?tmp = "(ucast (1000 :: u32) * ucast t) div 1000 :: u64"
  have "unat (ucast t :: u64) = unat t"
    using unat_lt2p_32 [of t] by (simp add: unsigned_ucast_eq take_bit_nat_eq_self_iff)
  then have "unat (1000 * ucast t :: u64) = 1000 * unat t"
    using unat_lt2p_32 [of t] by (simp add: unat_word_ariths take_bit_nat_eq_self_iff)
  then have "unat ?tmp = unat t" by (simp add: unat_div)
  then have "shift_loop ?tmp 0 = Some 0"
    using unat_lt2p_32 [of t] by (subst shift_loop.simps) (simp add: drop_zero)
  then show "ok" "irq_interval wt' = 1000"
    using assms by (auto simp: windup_def t div64_eq)
qed

lemma watch_wound:
  assumes "ioapic_apart ops mm regs" "watch_windup ops mm 1000 m = Some (ok, m')"
  shows "pins regs m' = pins regs m" "m_idt m' = m_idt m"
    "m_plugs m' = (m_plugs m)[vector_number VTimer := WatchGate]" "ok" "irq_interval (m_watch m') = 1000"
proof -
  obtain wt w' where w: "windup ops mm 1000 (m_watch m) (m_hw m) = Some (ok, wt, w')"
    and m': "m' = m\<lparr>m_watch := wt, m_hw := w', m_plugs := if ok then (m_plugs m)[vector_number VTimer := WatchGate] else m_plugs m\<rparr>"
    using assms(2)
    by (auto simp: watch_windup_def Let_def bind_eq_Some_conv dest!: assign_gate_Some split: if_splits)
  have hw: "regs w' = regs (m_hw m)" using windup_keeps [OF apartD [OF assms(1)] w] by simp
  note set = windup_millisecond [OF w]
  show "pins regs m' = pins regs m" "m_idt m' = m_idt m" "ok" "irq_interval (m_watch m') = 1000"
    "m_plugs m' = (m_plugs m)[vector_number VTimer := WatchGate]"
    by (simp_all add: m' pins_def hw set fun_eq_iff)
qed

subsection \<open>The whole start\<close>

text \<open>The vectors that \<^verbatim>\<open>GDB_Stub\<close> takes over: the exceptions, but for the non-maskable interrupt
  and the reserved vector 15, and the serial line.\<close>

definition debugger_vector :: "nat \<Rightarrow> bool" where
  "debugger_vector v \<longleftrightarrow> v \<le> 16 \<and> v \<noteq> 2 \<and> v \<noteq> 15 \<or> v = 36"

lemma install_fold:
  assumes "length entries \<le> length idt" "\<forall>i \<in> set xs. 0 \<le> i \<and> i < int (length entries)"
    and "f = (\<lambda>i idt. if i \<noteq> 2 \<and> i \<noteq> 15 then snd (install_handler entries i idt) else idt)"
  shows "length (fold f xs idt) = length idt \<and>
    (if int v \<in> set xs \<and> v \<noteq> 2 \<and> v \<noteq> 15 then handler_address (fold f xs idt ! v) = entries ! v
     else fold f xs idt ! v = idt ! v)"
  using assms(2)
proof (induction xs rule: rev_induct)
  case (snoc i xs)
  let ?t = "fold f xs idt"
  have IH: "length ?t = length idt" "if int v \<in> set xs \<and> v \<noteq> 2 \<and> v \<noteq> 15
      then handler_address (?t ! v) = entries ! v else ?t ! v = idt ! v"
    using snoc.IH snoc.prems by auto
  show ?case
  proof (cases "i = 2 \<or> i = 15")
    case True
    then have "fold f (xs @ [i]) idt = ?t" by (auto simp: assms(3))
    moreover have "int v \<in> set (xs @ [i]) \<and> v \<noteq> 2 \<and> v \<noteq> 15 \<longleftrightarrow> int v \<in> set xs \<and> v \<noteq> 2 \<and> v \<noteq> 15" using True by auto
    ultimately show ?thesis using IH by simp
  next
    case False
    have i: "0 \<le> i" "i < int (length entries)" using snoc.prems by simp_all
    have eq: "fold f (xs @ [i]) idt = snd (install_handler entries i ?t)" using False by (simp add: assms(3))
    note inst = install_address [OF i, of ?t]
    show ?thesis
    proof (cases "v = nat i")
      case True
      with False i(1) have "nat i \<noteq> 2" "nat i \<noteq> 15" by auto
      then show ?thesis unfolding eq using True inst(2,4) IH(1) assms(1) i(1) by simp
    next
      case v: False
      then have "int v \<noteq> i" by auto
      then show ?thesis unfolding eq using inst(3) [of v] inst(4) IH assms(1) v by simp
    qed
  qed
qed simp

lemma gdb_install_vectors:
  assumes "36 < length entries" "length entries \<le> length idt"
  shows "if debugger_vector v then handler_address (gdb_install entries idt ! v) = entries ! v
    else gdb_install entries idt ! v = idt ! v"
proof -
  define f where "f = (\<lambda>i idt. if i \<noteq> 2 \<and> i \<noteq> 15 then snd (install_handler entries i idt) else idt)"
  have t: "length (fold f [0..16] idt) = length idt"
    "if int v \<in> set [0..16] \<and> v \<noteq> 2 \<and> v \<noteq> 15 then handler_address (fold f [0..16] idt ! v) = entries ! v
     else fold f [0..16] idt ! v = idt ! v"
    using install_fold [OF assms(2) _ f_def, of "[0..16]" v] assms(1) by auto
  have eq: "gdb_install entries idt = snd (install_handler entries 36 (fold f [0..16] idt))"
    by (simp add: gdb_install_def f_def serial_vector_def)
  note inst = install_address [of 36 entries "fold f [0..16] idt"]
  show ?thesis
  proof (cases "v = 36")
    case True
    then show ?thesis unfolding eq using inst(2) t(1) assms by (simp add: debugger_vector_def)
  next
    case False
    then have "debugger_vector v \<longleftrightarrow> int v \<in> set [0..16] \<and> v \<noteq> 2 \<and> v \<noteq> 15" by (auto simp: debugger_vector_def)
    then show ?thesis unfolding eq using inst(3) [of v] t assms False by simp
  qed
qed

text \<open>The pins, gates and handlers of a machine whose devices have been started.\<close>

definition wired :: "('w \<Rightarrow> u32 \<Rightarrow> u32) \<Rightarrow> system_configuration \<Rightarrow> u32 list \<Rightarrow> 'w machine \<Rightarrow> 'w machine \<Rightarrow> bool" where
  "wired regs conf entries m m' \<longleftrightarrow>
     (\<forall>s < 24. pins regs m' s =
        (if s = unat (getIOAPICSlot conf Keyboard) then (0, 33)
         else if s = unat (getIOAPICSlot conf Com1) then (0, 36)
         else if s = unat (getIOAPICSlot conf Rtc) then (0, 60) else (1, 255))) \<and>
     map (\<lambda>v. plugbox_report v (m_plugs m')) [32, 33, 36, 60, 100, 101] =
       map Some [WatchGate, KeyboardGate, ConsoleGate, RtcGate, AssassinGate, WakeUpGate] \<and>
     irq_interval (m_watch m') = 1000 \<and>
     (\<forall>v. v \<notin> {32, 33, 36, 60, 100, 101} \<longrightarrow> plugbox_report v (m_plugs m') = plugbox_report v (m_plugs m)) \<and>
     (\<forall>v. if debugger_vector v then handler_address (m_idt m' ! v) = entries ! v else m_idt m' ! v = m_idt m ! v)"

lemma main_devices_steps:
  assumes "main_devices ops mm conf entries m = Some m'"
  obtains m1 m2 m3 m4 ok where
    "keyboard_plugin ops mm conf (on_hw (ioapic_init mm conf) m) = Some m1"
    "console_listen ops mm conf COM1 (m1\<lparr>m_idt := gdb_install entries (m_idt m1),
       m_hw := serial_new ops (com_base COM1) BAUD_9600 DATA_8BIT STOP_1BIT PARITY_NONE (m_hw m1)\<rparr>) = Some m2"
    "rtc_init ops mm conf True Freq_0hz m2 = Some m3" "watch_windup ops mm 1000 m3 = Some (ok, m4)"
    "m' = m4\<lparr>m_plugs := (m_plugs m4)[101 := WakeUpGate, 100 := AssassinGate]\<rparr>"
  using assms
  by (auto simp: main_devices_def gdb_new_def Let_def bind_eq_Some_conv wakeup_activate_def assassin_hire_def
      dest!: assign_gate_Some)

text \<open>
  Property C38. When \<^verbatim>\<open>main\<close> has started the devices, the I/O APIC signals exactly the pins of the
  keyboard, the serial line and the clock, with their vectors, all other pins are masked; the
  plugbox has the gate of every driver at its vector, also that of the watch, which is set to one
  interrupt per millisecond, and is unchanged elsewhere; the interrupt descriptors of the exceptions
  0 to 16 but 2 and 15 and of the serial line lead to the handlers of the debugger, and all others
  are unchanged, so that an interrupt of the keyboard is served by the prologue of the keyboard, acknowledged, and
  its epilogue is requested if the prologue stored a key.
\<close>

theorem devices_wired:
  assumes "ioapic_ok mm sel regs" "ioapic_apart ops mm regs"
    and "\<forall>d \<in> {Keyboard, Com1, Rtc}. unat (getIOAPICSlot conf d) < 24"
    and "distinct (map (getIOAPICSlot conf) [Keyboard, Com1, Rtc])"
    and "length (m_plugs m) = 256" "36 < length entries" "length entries \<le> length (m_idt m)"
    and "main_devices ops mm conf entries m = Some m'"
  shows "wired regs conf entries m m' \<and>
    guardian ops mm port 33 m' = map_option (\<lambda>(req, kb, kc, w). (if req then Some KeyboardGate else None,
      m'\<lparr>m_keyboard := kb, m_keyctrl := kc, m_hw := ackIRQ mm w\<rparr>)) (kb_prologue ops (m_keyboard m') (m_keyctrl m', m_hw m'))"
proof -
  let ?k = "getIOAPICSlot conf Keyboard" and ?c = "getIOAPICSlot conf Com1" and ?r = "getIOAPICSlot conf Rtc"
  let ?m0 = "on_hw (ioapic_init mm conf) m"
  have slots: "unat ?k < 24" "unat ?c < 24" "unat ?r < 24" using assms(3) by simp_all
  have ne: "unat ?k \<noteq> unat ?c" "unat ?k \<noteq> unat ?r" "unat ?c \<noteq> unat ?r"
    using assms(4) by (simp_all add: word_unat_eq_iff)
  obtain m1 m2 m3 m4 ok where s1: "keyboard_plugin ops mm conf ?m0 = Some m1"
    and s2: "console_listen ops mm conf COM1 (m1\<lparr>m_idt := gdb_install entries (m_idt m1),
       m_hw := serial_new ops (com_base COM1) BAUD_9600 DATA_8BIT STOP_1BIT PARITY_NONE (m_hw m1)\<rparr>) = Some m2"
    and s3: "rtc_init ops mm conf True Freq_0hz m2 = Some m3" and s4: "watch_windup ops mm 1000 m3 = Some (ok, m4)"
    and m': "m' = m4\<lparr>m_plugs := (m_plugs m4)[101 := WakeUpGate, 100 := AssassinGate]\<rparr>"
    using main_devices_steps [OF assms(8)] .
  note ok = assms(1,2)
  have p0: "pins regs ?m0 s = (1, 255)" if "s < 24" for s using pin_init [OF ok(1) that] by (simp add: pins_def on_hw_def)
  note p1 = keyboard_plugged [OF ok slots(1) s1]
  have c: "com_device COM1 = Com1" by simp
  note p2 = console_plugged [OF ok _ s2, unfolded c, OF slots(2)]
  note p3 = rtc_plugged [OF ok slots(3) s3]
  note p4 = watch_wound [OF ok(2) s4]
  have line: "pins regs (m1\<lparr>m_idt := t, m_hw := serial_new ops port b d st p (m_hw m1)\<rparr>) s = pins regs m1 s" for t port b d st p s
    using serial_new_keeps [OF apartD(1) [OF ok(2)], of "m_hw m1" "regs (m_hw m1)"] by (simp add: pins_def)
  have pins: "pins regs m' s = pins regs m3 s" for s
  proof -
    have "pins regs m' s = pins regs m4 s" by (simp add: m' pins_def)
    then show ?thesis by (simp add: p4(1))
  qed
  have words: "vector_word VKeyboard = 33" "vector_word VSerial = 36" "vector_word VRtc = 60" by (simp_all add: vector_word_def)
  have plugs: "m_plugs m' = (m_plugs m)[33 := KeyboardGate, 36 := ConsoleGate, 60 := RtcGate, 32 := WatchGate,
      101 := WakeUpGate, 100 := AssassinGate]"
    using p1 p2 p3 p4(3,4) by (simp add: m' plugged_def on_hw_def)
  have idt: "m_idt m' = gdb_install entries (m_idt m)" using p1 p2 p3 p4(2) by (simp add: m' plugged_def on_hw_def)
  have "wired regs conf entries m m'"
    unfolding wired_def
  proof (intro conjI)
    show "\<forall>s < 24. pins regs m' s = (if s = unat ?k then (0, 33) else if s = unat ?c then (0, 36)
        else if s = unat ?r then (0, 60) else (1, 255))"
      using p1 p2 p3 p0 ne by (auto simp: pins plugged_def line words)
    show "\<forall>v. if debugger_vector v then handler_address (m_idt m' ! v) = entries ! v else m_idt m' ! v = m_idt m ! v"
      unfolding idt using gdb_install_vectors [OF assms(6,7)] by blast
    show "irq_interval (m_watch m') = 1000" using p4(5) by (simp add: m')
    show "map (\<lambda>v. plugbox_report v (m_plugs m')) [32, 33, 36, 60, 100, 101] =
       map Some [WatchGate, KeyboardGate, ConsoleGate, RtcGate, AssassinGate, WakeUpGate]"
      "\<forall>v. v \<notin> {32, 33, 36, 60, 100, 101} \<longrightarrow> plugbox_report v (m_plugs m') = plugbox_report v (m_plugs m)"
      unfolding plugs by (simp_all add: plugbox_report_def assms(5) nth_list_update)
  qed
  moreover from this have "plugbox_report 33 (m_plugs m') = Some KeyboardGate" by (simp add: wired_def)
  then have "guardian ops mm port 33 m' = map_option (\<lambda>(req, kb, kc, w). (if req then Some KeyboardGate else None,
      m'\<lparr>m_keyboard := kb, m_keyctrl := kc, m_hw := ackIRQ mm w\<rparr>)) (kb_prologue ops (m_keyboard m') (m_keyctrl m', m_hw m'))"
    by (auto simp: guardian_def on_hw_def map_option_case split: option.splits)
  ultimately show ?thesis by blast
qed

text \<open>A machine for examples: nothing was typed, the line is silent, the clock shows ones.\<close>

type_synonym chip = "u32 \<times> (u32 \<Rightarrow> u32)"

definition start_ports :: "chip port_ops" where
  "start_ports = \<lparr>p_inb = (\<lambda>a w. (if a = 0x71 then 1 else if a = 0x61 then 0x20 else 0, w)), p_outb = (\<lambda>a v w. w)\<rparr>"

definition start_mm :: "chip mm_ops" where
  "start_mm = \<lparr>mm_read = (\<lambda>a w. if a = IOWIN_REG then (snd w (fst w), w) else (0, w)),
     mm_write = (\<lambda>a v w. if a = IOREGSEL_REG then (v, snd w)
       else if a = IOWIN_REG then (fst w, (snd w)(fst w := merge_bits (writable (fst w)) v (snd w (fst w)))) else w)\<rparr>"

definition start_conf :: system_configuration where
  "start_conf = (new_configuration (replicate 8 0))\<lparr>slot_map := map of_nat [0..<16]\<rparr>"

definition start_machine :: "chip machine" where
  "start_machine = \<lparr>m_plugs = plugbox_new PanicGate,
     m_idt = replicate 256 \<lparr>address_low = 0, selector = 8, unused = 0, type_bits = 6, mode = True, storage = False,
       privilege_level = 0, present = True, address_high = 0\<rparr>,
     m_keyboard = keyboard_new (replicate 64 key_new) (replicate 64 key_new), m_keyctrl = \<lparr>kc_decoder = \<lparr>kd_prefix = 0, kd_gather = key_new\<rparr>, kc_leds = 0\<rparr>,
     m_console = bb_new (replicate 64 0),
     m_rtc = \<lparr>rtc_time = \<lparr>t_second = 0, t_minute = 0, t_hour = 0, t_day = 1, t_month = 1, t_year = 0, t_weekday = 1,
       t_century = 20, t_timezone = 2\<rparr>, rtc_hz = -1\<rparr>,
     m_watch = new_watch, m_hw = (0, \<lambda>_. 0)\<rparr>"

lemma start_io: "io_outb start_ports a v w = w"
  "io_inb start_ports a w = (if a = 0x71 then 1 else if a = 0x61 then 0x20 else 0, w)"
  by (simp_all add: io_outb_def io_inb_def start_ports_def)

lemma start_loops:
  "drain_keyboard start_ports w = Some w" "clear_input start_ports 0x3f8 w = Some w" "wait_update start_ports w = Some w"
  "wait_pit start_ports w = Some w"
proof -
  show "drain_keyboard start_ports w = Some w" by (subst drain_keyboard.simps) (simp add: start_io ctrl_port_def)
  show "clear_input start_ports 0x3f8 w = Some w"
    by (subst clear_input.simps) (simp add: serial_read_def read_reg_def start_io)
  show "wait_update start_ports w = Some w"
    by (subst wait_update.simps)
      (simp add: is_updating_def cmos_read_def select_offset_def start_io cmos_data_def cmos_ctrl_def a_updating_def split_beta)
  show "wait_pit start_ports w = Some w" by (subst wait_pit.simps) (simp add: start_io)
qed

lemma start_lapic: "lapic_write start_mm reg v w = w" "lapic_read start_mm reg w = (0, w)"
  by (cases reg; simp add: lapic_write_def lapic_read_def start_mm_def LAPIC_BASE_def IOREGSEL_REG_def IOWIN_REG_def)+

lemma start_ticks: "timer_ticks start_ports start_mm w = Some (0, w)"
proof -
  have "setTimer start_mm c d v p m w = w" for c d v p m by (simp add: setTimer_def start_lapic)
  then show ?thesis
    using div64_eq [of "838 * 65535" 0] by (simp add: timer_ticks_def start_io start_lapic start_loops)
qed

lemma start_windup: "windup start_ports start_mm us wt w = Some (True, wt\<lparr>irq_interval := us, initial_count := 0, timer_divide := 1\<rparr>, w)"
proof -
  have "shift_loop 0 0 = Some 0" by (subst shift_loop.simps) simp
  then show ?thesis using div64_eq [of 1000 0] by (simp add: windup_def start_ticks)
qed

lemma start_setup:
  assumes "0 < t_timezone (rtc_time r)"
  shows "\<exists>r'. rtc_setup start_ports u Freq_0hz r w = Some (r', w)"
proof -
  have cell: "cmos_read start_ports off v = (1, v)" "snd (cmos_write start_ports off x v) = v" for off x v
    by (simp_all add: cmos_read_def cmos_write_def select_offset_def start_io cmos_data_def cmos_ctrl_def split_beta)
  have val: "rtc_get_value start_ports off v = Some (bcd_to_int 1, v)" for off v
    by (simp add: rtc_get_value_def start_loops cell)
  have "snd (cmos_init start_ports u Freq_0hz w) = w" by (simp add: cmos_init_def cell split_beta)
  then show ?thesis using assms
    by (simp add: rtc_setup_def split_beta rtc_update_time_def val rtc_get_second_def rtc_get_minute_def rtc_get_hour_def
        rtc_get_day_def rtc_get_month_def rtc_get_year_def rtc_get_weekday_def rtc_get_century_def apply_timezone_def)
qed

definition startable :: "chip machine \<Rightarrow> bool" where
  "startable m \<longleftrightarrow> 0 < t_timezone (rtc_time (m_rtc m)) \<and> length (m_plugs m) = 256"

lemma start_gate:
  "length (m_plugs n) = 256 \<Longrightarrow> assign_gate v g n = Some (n\<lparr>m_plugs := (m_plugs n)[vector_number v := g]\<rparr>)"
  by (cases v) (simp_all add: assign_gate_def plugbox_assign_def)

lemma start_steps:
  assumes "startable n"
  shows "\<exists>n'. keyboard_plugin start_ports start_mm start_conf n = Some n' \<and> startable n'"
    and "\<exists>n'. console_listen start_ports start_mm start_conf COM1 n = Some n' \<and> startable n'"
    and "\<exists>n'. rtc_init start_ports start_mm start_conf u Freq_0hz n = Some n' \<and> length (m_plugs n') = 256"
proof -
  note ok = assms [unfolded startable_def] and gate = start_gate
  show "\<exists>n'. keyboard_plugin start_ports start_mm start_conf n = Some n' \<and> startable n'"
    using ok by (simp add: keyboard_plugin_def gate on_hw_def start_loops Let_def startable_def)
  show "\<exists>n'. console_listen start_ports start_mm start_conf COM1 n = Some n' \<and> startable n'"
    using ok by (simp add: console_listen_def gate on_hw_def receiveInterrupt_def start_loops Let_def split_beta startable_def)
  obtain r where r: "rtc_setup start_ports u Freq_0hz (m_rtc n) (m_hw n) = Some (r, m_hw n)"
    using start_setup ok by blast
  then show "\<exists>n'. rtc_init start_ports start_mm start_conf u Freq_0hz n = Some n' \<and> length (m_plugs n') = 256"
    using ok by (simp add: rtc_init_def gate on_hw_def Let_def)
qed

lemma start_steps':
  assumes "length (m_plugs n) = 256"
  shows "\<exists>n'. watch_windup start_ports start_mm us n = Some (True, n') \<and> length (m_plugs n') = 256"
    and "\<exists>n'. assign_gate v g n = Some n' \<and> length (m_plugs n') = 256"
  using assms by (simp_all add: watch_windup_def start_windup start_gate Let_def)

lemma start_runs:
  assumes "startable m" shows "\<exists>m'. main_devices start_ports start_mm start_conf entries m = Some m'"
proof -
  have "startable (on_hw (ioapic_init start_mm start_conf) m)" using assms by (simp add: startable_def on_hw_def)
  from start_steps(1) [OF this] obtain m1
    where s1: "keyboard_plugin start_ports start_mm start_conf (on_hw (ioapic_init start_mm start_conf) m) = Some m1" "startable m1" by blast
  have gdb: "startable (m1\<lparr>m_idt := t, m_hw := w\<rparr>)" for t w using s1(2) by (simp add: startable_def)
  obtain idt w where g: "gdb_new start_ports COM1 BAUD_9600 False entries (m_idt m1) (m_hw m1) = Some (idt, w)"
    by (simp add: gdb_new_def)
  from start_steps(2) [OF gdb] obtain m2
    where s2: "console_listen start_ports start_mm start_conf COM1 (m1\<lparr>m_idt := idt, m_hw := w\<rparr>) = Some m2" "startable m2" by blast
  from start_steps(3) [OF s2(2)] obtain m3
    where s3: "rtc_init start_ports start_mm start_conf True Freq_0hz m2 = Some m3" "length (m_plugs m3) = 256" by blast
  from start_steps'(1) [OF s3(2)] obtain m4
    where s4: "watch_windup start_ports start_mm 1000 m3 = Some (True, m4)" "length (m_plugs m4) = 256" by blast
  from start_steps'(2) [OF s4(2)] obtain m5 where s5: "wakeup_activate m4 = Some m5" "length (m_plugs m5) = 256" unfolding wakeup_activate_def by blast
  from start_steps'(2) [OF s5(2)] obtain m6 where s6: "assassin_hire m5 = Some m6" unfolding assassin_hire_def by blast
  show ?thesis by (simp add: main_devices_def s1(1) g s2(1) s3(1) s4(1) s5(1) s6)
qed

lemma start_chip: "ioapic_ok start_mm fst snd" "ioapic_apart start_ports start_mm snd"
proof -
  show "ioapic_ok start_mm fst snd" by (simp add: ioapic_ok_def start_mm_def IOREGSEL_REG_def IOWIN_REG_def)
  show "ioapic_apart start_ports start_mm snd"
    by (simp add: ioapic_apart_def io_keeps_def lapic_keeps_def start_lapic) (simp add: start_ports_def)
qed

theorem devices_wired_witness:
  "\<exists>m'. wired snd start_conf (replicate 37 0x5000) start_machine m'"
proof -
  let ?e = "replicate 37 0x5000"
  have "startable start_machine" by (simp add: startable_def start_machine_def plugbox_new_def)
  then obtain m' where m': "main_devices start_ports start_mm start_conf ?e start_machine = Some m'" using start_runs by blast
  have slot: "getIOAPICSlot start_conf Keyboard = 1" "getIOAPICSlot start_conf Com1 = 4" "getIOAPICSlot start_conf Rtc = 8"
    by (simp_all add: getIOAPICSlot_def start_conf_def)
  have "wired snd start_conf ?e start_machine m'"
    using devices_wired [OF start_chip _ _ _ _ _ m'] by (simp add: slot) (simp add: start_machine_def plugbox_new_def)
  then show ?thesis by blast
qed

end
