(* ===== verification/Context.thy ===== *)
theory Context
  imports MemUtil
begin

section \<open>machine/toc.cc, toc.asm, thread/thread.cc: contexts and their switch\<close>

text \<open>
  A suspended thread is five registers in its \<^verbatim>\<open>struct toc\<close> and a stack with the address to go on at
  on its top. This theory follows the assembler routines of \<^verbatim>\<open>toc.asm\<close> on the byte memory of
  theory \<open>MemUtil\<close>; the abstract view is a map from threads to contexts, and a switch exchanges one
  entry with the registers of the CPU. Flags and \<^verbatim>\<open>ecx\<close>, \<^verbatim>\<open>edx\<close>, which no routine touches, are left out.
\<close>

subsection \<open>The structure and the routines\<close>

record cpu_regs =
  cx_eax :: u32
  cx_ebx :: u32
  cx_esi :: u32
  cx_edi :: u32
  cx_ebp :: u32
  cx_esp :: u32
  cx_eip :: u32

type_synonym exec_state = "cpu_regs \<times> mem"

text \<open>The offsets of the members of \<^verbatim>\<open>struct toc\<close>.\<close>

definition ebx_offset :: u32 where "ebx_offset = 0"
definition esi_offset :: u32 where "esi_offset = 4"
definition edi_offset :: u32 where "edi_offset = 8"
definition ebp_offset :: u32 where "ebp_offset = 12"
definition esp_offset :: u32 where "esp_offset = 16"

definition toc_settle :: "u32 \<Rightarrow> u32 \<Rightarrow> u32 \<Rightarrow> u32 \<Rightarrow> u32 \<Rightarrow> mem \<Rightarrow> mem" where
  "toc_settle fail_addr regs tos kickoff object m =
    (let esp = tos;
         m = store32 m (regs + ebp_offset) esp;
         m = store32 m esp object;
         esp = esp - 4;
         m = store32 m esp fail_addr;
         esp = esp - 4;
         m = store32 m esp kickoff
     in store32 m (regs + esp_offset) esp)"

definition save_toc :: "exec_state \<Rightarrow> exec_state" where
  "save_toc s = (case s of (r, m) \<Rightarrow>
     (let m = store32 m (cx_eax r + ebx_offset) (cx_ebx r);
          m = store32 m (cx_eax r + esi_offset) (cx_esi r);
          m = store32 m (cx_eax r + edi_offset) (cx_edi r);
          m = store32 m (cx_eax r + ebp_offset) (cx_ebp r);
          m = store32 m (cx_eax r + esp_offset) (cx_esp r)
      in (r, m)))"

definition load_toc :: "exec_state \<Rightarrow> exec_state" where
  "load_toc s = (case s of (r, m) \<Rightarrow>
     (let r = r\<lparr>cx_ebx := load32 m (cx_eax r + ebx_offset)\<rparr>;
          r = r\<lparr>cx_esi := load32 m (cx_eax r + esi_offset)\<rparr>;
          r = r\<lparr>cx_edi := load32 m (cx_eax r + edi_offset)\<rparr>;
          r = r\<lparr>cx_ebp := load32 m (cx_eax r + ebp_offset)\<rparr>;
          r = r\<lparr>cx_esp := load32 m (cx_eax r + esp_offset)\<rparr>
      in (r, m)))"

text \<open>The stack instructions.\<close>

definition push32 :: "u32 \<Rightarrow> exec_state \<Rightarrow> exec_state" where
  "push32 v s = (case s of (r, m) \<Rightarrow> (r\<lparr>cx_esp := cx_esp r - 4\<rparr>, store32 m (cx_esp r - 4) v))"

definition ret32 :: "exec_state \<Rightarrow> exec_state" where
  "ret32 s = (case s of (r, m) \<Rightarrow> (r\<lparr>cx_eip := load32 m (cx_esp r), cx_esp := cx_esp r + 4\<rparr>, m))"

definition load_arg :: "u32 \<Rightarrow> exec_state \<Rightarrow> exec_state" where
  "load_arg off s = (case s of (r, m) \<Rightarrow> (r\<lparr>cx_eax := load32 m (cx_esp r + off)\<rparr>, m))"

definition toc_go :: "exec_state \<Rightarrow> exec_state" where
  "toc_go s = ret32 (load_toc (load_arg 4 s))"

definition toc_switch :: "exec_state \<Rightarrow> exec_state" where
  "toc_switch s = ret32 (load_toc (load_arg 8 (save_toc (load_arg 4 s))))"

text \<open>The calls in \<^verbatim>\<open>Thread\<close>: the arguments and the address after the call are on the stack.\<close>

definition thread_go :: "u32 \<Rightarrow> u32 \<Rightarrow> exec_state \<Rightarrow> exec_state" where
  "thread_go ra regs s = toc_go (push32 ra (push32 regs s))"

definition thread_resume :: "u32 \<Rightarrow> u32 \<Rightarrow> u32 \<Rightarrow> exec_state \<Rightarrow> exec_state" where
  "thread_resume ra this other s = toc_switch (push32 ra (push32 this (push32 other s)))"

definition STACK_SIZE :: u32 where "STACK_SIZE = 8 * 1024"

text \<open>The context part of the constructor that is given the block for the stack.\<close>

definition thread_settle :: "u32 \<Rightarrow> u32 \<Rightarrow> u32 \<Rightarrow> u32 \<Rightarrow> u32 \<Rightarrow> mem \<Rightarrow> mem" where
  "thread_settle fail_addr kickoff stack regs this m =
     (let tos = stack + (STACK_SIZE - 4) in toc_settle fail_addr regs tos kickoff this m)"

subsection \<open>The abstract view\<close>

record thread_context =
  c_ebx :: u32
  c_esi :: u32
  c_edi :: u32
  c_ebp :: u32
  c_esp :: u32
  c_eip :: u32

text \<open>The registers of a CPU; the context a caller has when its call returns; the context in memory.\<close>

definition running :: "cpu_regs \<Rightarrow> thread_context" where
  "running r = \<lparr>c_ebx = cx_ebx r, c_esi = cx_esi r, c_edi = cx_edi r, c_ebp = cx_ebp r, c_esp = cx_esp r, c_eip = cx_eip r\<rparr>"

definition after_call :: "u32 \<Rightarrow> u32 \<Rightarrow> cpu_regs \<Rightarrow> thread_context" where
  "after_call ra args r = (running r)\<lparr>c_esp := cx_esp r - args, c_eip := ra\<rparr>"

definition top :: "mem \<Rightarrow> u32 \<Rightarrow> u32" where "top m t = load32 m (t + esp_offset)"

definition saved :: "mem \<Rightarrow> u32 \<Rightarrow> thread_context" where
  "saved m t = \<lparr>c_ebx = load32 m (t + ebx_offset), c_esi = load32 m (t + esi_offset), c_edi = load32 m (t + edi_offset),
     c_ebp = load32 m (t + ebp_offset), c_esp = top m t + 4, c_eip = load32 m (top m t)\<rparr>"

definition toc_cells :: "u32 \<Rightarrow> u32 set" where
  "toc_cells t = {t + ebx_offset, t + esi_offset, t + edi_offset, t + ebp_offset, t + esp_offset}"

definition tocs_ok :: "u32 set \<Rightarrow> bool" where
  "tocs_ok T \<longleftrightarrow> (\<forall>t \<in> T. aligned4 t) \<and> (\<forall>t \<in> T. \<forall>u \<in> T. t \<noteq> u \<longrightarrow> toc_cells t \<inter> toc_cells u = {})"

text \<open>The tops of the stacks of the threads are outside of all the structures.\<close>

definition tops_ok :: "u32 set \<Rightarrow> u32 set \<Rightarrow> mem \<Rightarrow> bool" where
  "tops_ok T S m \<longleftrightarrow> (\<forall>t \<in> S. aligned4 (top m t) \<and> top m t \<notin> \<Union> (toc_cells ` T))"

text \<open>The words that a call writes below the stack pointer of the thread \<open>now\<close> belong to no other thread.\<close>

definition room_below :: "u32 set \<Rightarrow> u32 \<Rightarrow> u32 \<Rightarrow> mem \<Rightarrow> bool" where
  "room_below T now esp m \<longleftrightarrow> aligned4 esp \<and>
     (\<forall>a \<in> {esp - 4, esp - 8, esp - 12}. a \<notin> \<Union> (toc_cells ` T) \<and> a \<notin> top m ` (T - {now}))"

lemmas toc_offsets = ebx_offset_def esi_offset_def edi_offset_def ebp_offset_def esp_offset_def


subsection \<open>Words of memory\<close>

lemma aligned4_add: "aligned4 (a + b) \<longleftrightarrow> (unat a + unat b) mod 4 = 0" for a b :: u32
proof -
  have "unat (a + b) mod 4 = (unat a + unat b) mod 2 ^ 32 mod 4" by (simp add: unat_word_ariths(1))
  also have "\<dots> = (unat a + unat b) mod 4" by (simp add: mod_mod_cancel)
  finally show ?thesis by (simp add: aligned4_unat)
qed

lemma aligned4_offsets:
  assumes "aligned4 a"
  shows "aligned4 (a + 4)" "aligned4 (a + 8)" "aligned4 (a + 12)" "aligned4 (a + 16)"
    "aligned4 (a - 4)" "aligned4 (a - 8)" "aligned4 (a - 12)"
  using assms aligned4_add [of a 4] aligned4_add [of a 8] aligned4_add [of a 12] aligned4_add [of a 16]
    aligned4_add [of a "- 4"] aligned4_add [of a "- 8"] aligned4_add [of a "- 12"]
  by (simp_all add: aligned4_unat mod_add_eq [symmetric])

lemma load32_store32: "aligned4 a \<Longrightarrow> aligned4 b \<Longrightarrow> load32 (store32 m a v) b = (if b = a then v else load32 m b)"
  by auto

lemma toc_cells_aligned: "aligned4 t \<Longrightarrow> a \<in> toc_cells t \<Longrightarrow> aligned4 a"
  by (auto simp: toc_cells_def toc_offsets aligned4_offsets)

lemma saved_cong:
  "(\<And>a. a \<in> toc_cells t \<Longrightarrow> load32 m' a = load32 m a) \<Longrightarrow> load32 m' (top m t) = load32 m (top m t) \<Longrightarrow> saved m' t = saved m t"
  by (simp add: saved_def top_def toc_cells_def)

subsection \<open>What a call and a switch do\<close>

definition call_mem :: "u32 \<Rightarrow> u32 \<Rightarrow> u32 \<Rightarrow> u32 \<Rightarrow> mem \<Rightarrow> mem" where
  "call_mem ra a b esp m = store32 (store32 (store32 m (esp - 4) b) (esp - 8) a) (esp - 12) ra"

lemma call_mem_load:
  assumes "aligned4 esp" "aligned4 c"
  shows "load32 (call_mem ra a b esp m) c =
    (if c = esp - 12 then ra else if c = esp - 8 then a else if c = esp - 4 then b else load32 m c)"
  using assms by (simp add: call_mem_def load32_store32 aligned4_offsets)

definition toc_mem :: "cpu_regs \<Rightarrow> u32 \<Rightarrow> u32 \<Rightarrow> mem \<Rightarrow> mem" where
  "toc_mem r esp t m = store32 (store32 (store32 (store32 (store32 m (t + ebx_offset) (cx_ebx r)) (t + esi_offset) (cx_esi r))
     (t + edi_offset) (cx_edi r)) (t + ebp_offset) (cx_ebp r)) (t + esp_offset) esp"

lemma toc_mem_load:
  assumes "aligned4 t" "aligned4 c"
  shows "load32 (toc_mem r esp t m) c = (if c = t + esp_offset then esp else if c = t + ebp_offset then cx_ebp r
    else if c = t + edi_offset then cx_edi r else if c = t + esi_offset then cx_esi r else if c = t + ebx_offset then cx_ebx r
    else load32 m c)"
  using assms by (simp add: toc_mem_def toc_offsets load32_store32 aligned4_offsets)

lemma offsets_distinct [simp]:
  "ebx_offset \<noteq> esi_offset" "ebx_offset \<noteq> edi_offset" "ebx_offset \<noteq> ebp_offset" "ebx_offset \<noteq> esp_offset"
  "esi_offset \<noteq> ebx_offset" "esi_offset \<noteq> edi_offset" "esi_offset \<noteq> ebp_offset" "esi_offset \<noteq> esp_offset"
  "edi_offset \<noteq> ebx_offset" "edi_offset \<noteq> esi_offset" "edi_offset \<noteq> ebp_offset" "edi_offset \<noteq> esp_offset"
  "ebp_offset \<noteq> ebx_offset" "ebp_offset \<noteq> esi_offset" "ebp_offset \<noteq> edi_offset" "ebp_offset \<noteq> esp_offset"
  "esp_offset \<noteq> ebx_offset" "esp_offset \<noteq> esi_offset" "esp_offset \<noteq> edi_offset" "esp_offset \<noteq> ebp_offset"
  by (simp_all add: toc_offsets)

lemma saved_toc_mem:
  assumes "aligned4 t" "aligned4 esp" "esp \<notin> toc_cells t"
  shows "saved (toc_mem r esp t m) t =
    \<lparr>c_ebx = cx_ebx r, c_esi = cx_esi r, c_edi = cx_edi r, c_ebp = cx_ebp r, c_esp = esp + 4, c_eip = load32 m esp\<rparr>"
proof -
  have cells: "aligned4 (t + ebx_offset)" "aligned4 (t + esi_offset)" "aligned4 (t + edi_offset)"
      "aligned4 (t + ebp_offset)" "aligned4 (t + esp_offset)"
    using assms(1) by (simp_all add: toc_offsets aligned4_offsets)
  have top: "top (toc_mem r esp t m) t = esp" by (simp add: top_def toc_mem_load assms(1) cells)
  show ?thesis
    unfolding saved_def top using assms(3)
    by (simp add: toc_mem_load assms(1,2) cells toc_cells_def)
qed

definition loaded :: "mem \<Rightarrow> u32 \<Rightarrow> cpu_regs \<Rightarrow> cpu_regs" where
  "loaded m t r = r\<lparr>cx_eax := t, cx_ebx := c_ebx (saved m t), cx_esi := c_esi (saved m t), cx_edi := c_edi (saved m t),
     cx_ebp := c_ebp (saved m t), cx_esp := c_esp (saved m t), cx_eip := c_eip (saved m t)\<rparr>"

lemma running_loaded [simp]: "running (loaded m t r) = saved m t"
  by (simp add: running_def loaded_def saved_def)

lemma thread_resume_eq:
  assumes "aligned4 (cx_esp r)" "aligned4 now" "cx_esp r - 4 \<notin> toc_cells now"
  shows "thread_resume ra now other (r, m) =
    (let m' = toc_mem r (cx_esp r - 12) now (call_mem ra now other (cx_esp r) m) in (loaded m' other r, m'))"
proof -
  let ?esp = "cx_esp r"
  let ?c = "call_mem ra now other ?esp m"
  let ?m = "toc_mem r (?esp - 12) now ?c"
  have al: "aligned4 (?esp - 4)" "aligned4 (?esp - 8)" "aligned4 (?esp - 12)" using assms(1) by (simp_all add: aligned4_offsets)
  have arg: "load32 ?c (?esp - 8) = now" by (simp add: call_mem_load assms(1) al)
  have other: "load32 ?m (?esp - 4) = other"
    using assms(3) by (simp add: toc_mem_load call_mem_load assms(1,2) al toc_cells_def)
  have entry: "push32 ra (push32 now (push32 other (r, m))) = (r\<lparr>cx_esp := ?esp - 12\<rparr>, ?c)"
    by (simp add: push32_def call_mem_def)
  have first: "load_arg 4 (r\<lparr>cx_esp := ?esp - 12\<rparr>, ?c) = (r\<lparr>cx_esp := ?esp - 12, cx_eax := now\<rparr>, ?c)"
    using arg by (simp add: load_arg_def)
  have save: "save_toc (r\<lparr>cx_esp := ?esp - 12, cx_eax := now\<rparr>, ?c) = (r\<lparr>cx_esp := ?esp - 12, cx_eax := now\<rparr>, ?m)"
    by (simp add: save_toc_def toc_mem_def)
  have second: "load_arg 8 (r\<lparr>cx_esp := ?esp - 12, cx_eax := now\<rparr>, ?m) = (r\<lparr>cx_esp := ?esp - 12, cx_eax := other\<rparr>, ?m)"
    using other by (simp add: load_arg_def)
  have load: "ret32 (load_toc (r\<lparr>cx_esp := ?esp - 12, cx_eax := other\<rparr>, m')) = (loaded m' other r, m')" for m'
    by (simp add: load_toc_def ret32_def loaded_def saved_def top_def)
  show ?thesis
    unfolding thread_resume_def toc_switch_def entry first save second load by (simp add: Let_def)
qed


subsection \<open>The switch\<close>

lemma tocs_okD: "tocs_ok T \<Longrightarrow> t \<in> T \<Longrightarrow> aligned4 t"
  by (simp add: tocs_ok_def)

lemma tocs_apart: "tocs_ok T \<Longrightarrow> t \<in> T \<Longrightarrow> u \<in> T \<Longrightarrow> t \<noteq> u \<Longrightarrow> a \<in> toc_cells t \<Longrightarrow> a \<notin> toc_cells u"
  by (auto simp: tocs_ok_def)

lemma toc_mem_outside: "aligned4 t \<Longrightarrow> aligned4 a \<Longrightarrow> a \<notin> toc_cells t \<Longrightarrow> load32 (toc_mem r esp t m) a = load32 m a"
  by (simp add: toc_mem_load toc_cells_def)

lemma call_mem_outside:
  "aligned4 esp \<Longrightarrow> aligned4 a \<Longrightarrow> a \<notin> {esp - 4, esp - 8, esp - 12} \<Longrightarrow> load32 (call_mem ra x y esp m) a = load32 m a"
  by (simp add: call_mem_load)

text \<open>What the call and the saving leave of the other threads.\<close>

lemma switch_keeps_others:
  assumes T: "tocs_ok T" and tops: "tops_ok T (T - {now}) m" and room: "room_below T now esp m"
    and "now \<in> T" "t \<in> T" "t \<noteq> now"
  shows "saved (toc_mem r (esp - 12) now (call_mem ra now other esp m)) t = saved m t"
    and "top (toc_mem r (esp - 12) now (call_mem ra now other esp m)) t = top m t"
proof -
  let ?m = "toc_mem r (esp - 12) now (call_mem ra now other esp m)"
  have esp: "aligned4 esp" and al: "aligned4 now" "aligned4 t" using room tocs_okD [OF T] assms(4,5) by (simp_all add: room_below_def)
  have same: "load32 ?m a = load32 m a" if "aligned4 a" "a \<notin> toc_cells now" "a \<notin> {esp - 4, esp - 8, esp - 12}" for a
    using that esp al by (simp add: toc_mem_outside call_mem_outside)
  have cells: "load32 ?m a = load32 m a" if "a \<in> toc_cells t" for a
  proof (rule same)
    show "aligned4 a" using toc_cells_aligned al(2) that by blast
    show "a \<notin> toc_cells now" using tocs_apart [OF T assms(5,4,6) that] .
    show "a \<notin> {esp - 4, esp - 8, esp - 12}" using room that assms(5) unfolding room_below_def by blast
  qed
  have top: "load32 ?m (top m t) = load32 m (top m t)"
  proof (rule same)
    have "t \<in> T - {now}" using assms(5,6) by simp
    then show "aligned4 (top m t)" "top m t \<notin> toc_cells now" using tops assms(4) by (auto simp: tops_ok_def)
    show "top m t \<notin> {esp - 4, esp - 8, esp - 12}" using room \<open>t \<in> T - {now}\<close> unfolding room_below_def by blast
  qed
  show "saved ?m t = saved m t" using saved_cong [OF cells top] .
  show "top ?m t = top m t" using cells [of "t + esp_offset"] by (simp add: top_def toc_cells_def)
qed

lemma switch_saves:
  assumes "tocs_ok T" "room_below T now (cx_esp r) m" "now \<in> T"
  shows "saved (toc_mem r (cx_esp r - 12) now (call_mem ra now other (cx_esp r) m)) now = after_call ra 8 r"
    and "top (toc_mem r (cx_esp r - 12) now (call_mem ra now other (cx_esp r) m)) now = cx_esp r - 12"
proof -
  have al: "aligned4 (cx_esp r)" "aligned4 now" "aligned4 (cx_esp r - 12)" and out: "cx_esp r - 12 \<notin> toc_cells now"
    using assms tocs_okD [OF assms(1)] by (auto simp: room_below_def aligned4_offsets)
  show "saved (toc_mem r (cx_esp r - 12) now (call_mem ra now other (cx_esp r) m)) now = after_call ra 8 r"
    by (simp add: saved_toc_mem al out call_mem_load after_call_def running_def)
  show "top (toc_mem r (cx_esp r - 12) now (call_mem ra now other (cx_esp r) m)) now = cx_esp r - 12"
    using al(2) by (simp add: top_def toc_mem_load toc_offsets aligned4_offsets)
qed

text \<open>
  Property C35. A switch on the bytes of the memory implements a switch between abstract contexts,
  for any number of threads: the context of the caller, which goes on behind its call with its
  arguments still on the stack, becomes the saved one of the thread that gives up the CPU, the CPU
  has the context that was saved for the other thread, and the contexts of all remaining threads
  are unchanged. The condition on the tops of the stacks holds again, so the switches compose.
\<close>

theorem context_switch:
  assumes "tocs_ok T" "now \<in> T" "other \<in> T" "tops_ok T (T - {now}) m" "room_below T now (cx_esp r) m"
    and "thread_resume ra now other (r, m) = (r', m')"
  shows "(\<forall>t \<in> T. saved m' t = ((saved m)(now := after_call ra 8 r)) t) \<and>
    running r' = ((saved m)(now := after_call ra 8 r)) other \<and> tops_ok T T m'"
proof -
  let ?esp = "cx_esp r"
  let ?m = "toc_mem r (?esp - 12) now (call_mem ra now other ?esp m)"
  have "aligned4 ?esp" "?esp - 4 \<notin> toc_cells now" using assms(2,5) by (auto simp: room_below_def)
  then have eq: "r' = loaded ?m other r" "m' = ?m"
    using thread_resume_eq [of r now ra other m] tocs_okD [OF assms(1,2)] assms(6) by (simp_all add: Let_def)
  have keep: "saved ?m t = saved m t" "top ?m t = top m t" if "t \<in> T" "t \<noteq> now" for t
    using switch_keeps_others [OF assms(1,4,5,2) that] .
  note save = switch_saves [OF assms(1,5,2)]
  have all: "saved ?m t = ((saved m)(now := after_call ra 8 r)) t" if "t \<in> T" for t
    using keep(1) [OF that] save(1) by simp
  have tops: "tops_ok T T ?m"
    unfolding tops_ok_def
  proof
    fix t assume t: "t \<in> T"
    show "aligned4 (top ?m t) \<and> top ?m t \<notin> \<Union> (toc_cells ` T)"
    proof (cases "t = now")
      case True
      then show ?thesis using save(2) assms(5) by (simp add: room_below_def aligned4_offsets)
    next
      case False
      then show ?thesis using keep(2) [OF t False] t assms(4) by (simp add: tops_ok_def)
    qed
  qed
  show ?thesis unfolding eq running_loaded using all assms(3) tops by simp
qed

definition demo_mem :: mem where
  "demo_mem = store32 (store32 (\<lambda>_. 0) 0x2010 0x3000) 0x3000 0x1234"

definition demo_regs :: cpu_regs where
  "demo_regs = \<lparr>cx_eax = 0, cx_ebx = 1, cx_esi = 2, cx_edi = 3, cx_ebp = 0x4100, cx_esp = 0x4000, cx_eip = 0x500\<rparr>"

lemma context_switch_witness:
  "running (fst (thread_resume 0x77 0x1000 0x2000 (demo_regs, demo_mem))) = saved demo_mem 0x2000 \<and>
   saved (snd (thread_resume 0x77 0x1000 0x2000 (demo_regs, demo_mem))) 0x1000 = after_call 0x77 8 demo_regs"
proof -
  have T: "tocs_ok {0x1000, 0x2000}" by (simp add: tocs_ok_def aligned4_def toc_cells_def toc_offsets)
  have top: "top demo_mem 0x2000 = 0x3000"
    by (simp add: top_def demo_mem_def load32_store32 aligned4_def toc_offsets)
  have tops: "tops_ok {0x1000, 0x2000} ({0x1000, 0x2000} - {0x1000}) demo_mem"
    by (simp add: tops_ok_def top toc_cells_def toc_offsets aligned4_def)
  have room: "room_below {0x1000, 0x2000} 0x1000 (cx_esp demo_regs) demo_mem"
    by (simp add: room_below_def demo_regs_def top toc_cells_def toc_offsets aligned4_def)
  show ?thesis
    using context_switch [where other = "0x2000" and ra = "0x77", OF T _ _ tops room surjective_pairing] by simp
qed


subsection \<open>A new thread\<close>

definition settle_cells :: "u32 \<Rightarrow> u32 set" where "settle_cells tos = {tos, tos - 4, tos - 8}"

lemma toc_settle_load:
  assumes "aligned4 regs" "aligned4 tos" "aligned4 c"
  shows "load32 (toc_settle fl regs tos kickoff object m) c =
    (if c = regs + esp_offset then tos - 8 else if c = tos - 8 then kickoff else if c = tos - 4 then fl
     else if c = tos then object else if c = regs + ebp_offset then tos else load32 m c)"
  using assms by (simp add: toc_settle_def Let_def load32_store32 toc_offsets aligned4_offsets diff_diff_add)

lemma settle_keeps_others:
  assumes "aligned4 regs" "aligned4 tos" "aligned4 t" "aligned4 (top m t)"
    and "toc_cells t \<inter> (toc_cells regs \<union> settle_cells tos) = {}" "top m t \<notin> toc_cells regs \<union> settle_cells tos"
  shows "saved (toc_settle fl regs tos kickoff object m) t = saved m t"
proof (rule saved_cong)
  have same: "load32 (toc_settle fl regs tos kickoff object m) a = load32 m a"
    if "aligned4 a" "a \<notin> toc_cells regs \<union> settle_cells tos" for a
    using that by (simp add: toc_settle_load assms(1,2) toc_cells_def settle_cells_def)
  show "load32 (toc_settle fl regs tos kickoff object m) (top m t) = load32 m (top m t)" using same assms(4,6) .
  fix a assume "a \<in> toc_cells t"
  then show "load32 (toc_settle fl regs tos kickoff object m) a = load32 m a"
    using same [of a] assms(5) toc_cells_aligned [OF assms(3)] by blast
qed

lemma thread_go_eq:
  assumes "aligned4 (cx_esp r)"
  shows "thread_go ra regs (r, m) =
    (let m' = store32 (store32 m (cx_esp r - 4) regs) (cx_esp r - 8) ra in (loaded m' regs r, m'))"
proof -
  let ?m = "store32 (store32 m (cx_esp r - 4) regs) (cx_esp r - 8) ra"
  have "push32 ra (push32 regs (r, m)) = (r\<lparr>cx_esp := cx_esp r - 8\<rparr>, ?m)" by (simp add: push32_def)
  moreover have "load_arg 4 (r\<lparr>cx_esp := cx_esp r - 8\<rparr>, ?m) = (r\<lparr>cx_esp := cx_esp r - 8, cx_eax := regs\<rparr>, ?m)"
    by (simp add: load_arg_def load32_store32 aligned4_offsets assms)
  moreover have "ret32 (load_toc (r\<lparr>cx_esp := cx_esp r - 8, cx_eax := regs\<rparr>, m')) = (loaded m' regs r, m')" for m'
    by (simp add: load_toc_def ret32_def loaded_def saved_def top_def)
  ultimately show ?thesis by (simp add: thread_go_def toc_go_def Let_def)
qed

text \<open>
  Property C36. The first activation of a thread, from the block for its stack and its constructor
  to \<^verbatim>\<open>toc_go\<close>: the CPU goes on at \<^verbatim>\<open>kickoff\<close>, which finds the thread as its argument on the stack
  and the address of \<^verbatim>\<open>fail\<close>, which ends the thread, as the address it would return to; the stack
  pointer is inside the block.
\<close>

theorem thread_starts:
  assumes "aligned4 regs" "aligned4 stack" "aligned4 (cx_esp r)"
    and "toc_cells regs \<inter> settle_cells (stack + 8188) = {}"
    and "{cx_esp r - 4, cx_esp r - 8} \<inter> (toc_cells regs \<union> settle_cells (stack + 8188)) = {}"
    and "thread_go ra regs (r, thread_settle fail_addr kickoff stack regs this m) = (r', m')"
  shows "cx_eip r' = kickoff \<and> cx_ebp r' = stack + 8188 \<and> cx_esp r' = stack + 8184 \<and>
    load32 m' (cx_esp r') = fail_addr \<and> load32 m' (cx_esp r' + 4) = this"
proof -
  let ?tos = "stack + 8188" and ?esp = "cx_esp r"
  let ?s = "toc_settle fail_addr regs ?tos kickoff this m"
  let ?m = "store32 (store32 ?s (?esp - 4) regs) (?esp - 8) ra"
  have tos: "aligned4 ?tos" using assms(2) aligned4_add [of stack 8188] by (simp add: aligned4_unat mod_add_eq [symmetric])
  have settle: "thread_settle fail_addr kickoff stack regs this m = ?s"
    by (simp add: thread_settle_def STACK_SIZE_def)
  have eq: "r' = loaded ?m regs r" "m' = ?m"
    using assms(6) unfolding settle thread_go_eq [OF assms(3)] Let_def prod.inject by blast+
  have same: "load32 ?m a = load32 ?s a" if "aligned4 a" "a \<in> toc_cells regs \<union> settle_cells ?tos" for a
    using that assms(3,5) by (auto simp: load32_store32 aligned4_offsets)
  have al: "aligned4 (?tos - 4)" "aligned4 (?tos - 8)" "aligned4 (regs + ebp_offset)" "aligned4 (regs + esp_offset)"
    using tos assms(1) by (simp_all only: aligned4_offsets toc_offsets)
  have in_tos: "?tos \<in> toc_cells regs \<union> settle_cells ?tos" "?tos - 4 \<in> toc_cells regs \<union> settle_cells ?tos"
      "?tos - 8 \<in> toc_cells regs \<union> settle_cells ?tos"
    and in_toc: "regs + ebp_offset \<in> toc_cells regs \<union> settle_cells ?tos" "regs + esp_offset \<in> toc_cells regs \<union> settle_cells ?tos"
    by (simp_all only: settle_cells_def toc_cells_def Un_iff insert_iff simp_thms)
  have ne: "regs + esp_offset \<notin> settle_cells ?tos" "regs + ebp_offset \<notin> settle_cells ?tos" using assms(4) by (auto simp: toc_cells_def)
  note load = toc_settle_load [OF assms(1) tos, of _ fail_addr kickoff this m]
  have top: "load32 ?m (regs + esp_offset) = ?tos - 8" unfolding same [OF al(4) in_toc(2)] load [OF al(4)] by simp
  have ebp: "load32 ?m (regs + ebp_offset) = ?tos"
    unfolding same [OF al(3) in_toc(1)] load [OF al(3)] using ne(2) by (simp add: settle_cells_def)
  have "?tos - 4 \<noteq> ?tos - 8" "?tos - 8 \<noteq> regs + esp_offset" "?tos - 4 \<noteq> regs + esp_offset" "?tos \<noteq> regs + esp_offset"
    using ne(1) by (auto simp: settle_cells_def)
  then have kick: "load32 ?m (?tos - 8) = kickoff" and fail: "load32 ?m (?tos - 4) = fail_addr" and obj: "load32 ?m ?tos = this"
    unfolding same [OF al(2) in_tos(3)] same [OF al(1) in_tos(2)] same [OF tos in_tos(1)] load [OF al(1)] load [OF al(2)] load [OF tos]
    by simp_all
  show ?thesis
    using kick fail obj ebp unfolding eq loaded_def saved_def top_def top by (simp add: algebra_simps)
qed

lemma thread_starts_witness:
  "cx_eip (fst (thread_go 0x99 0x1000 (demo_regs, thread_settle 0x700 0x600 0x8000 0x1000 0x5555 demo_mem))) = 0x600"
proof -
  have "toc_cells 0x1000 \<inter> settle_cells (0x8000 + 8188) = {}"
    "{cx_esp demo_regs - 4, cx_esp demo_regs - 8} \<inter> (toc_cells 0x1000 \<union> settle_cells (0x8000 + 8188)) = {}"
    by (simp_all add: toc_cells_def settle_cells_def toc_offsets demo_regs_def)
  moreover have "aligned4 0x1000" "aligned4 0x8000" "aligned4 (cx_esp demo_regs)" by (simp_all add: aligned4_def demo_regs_def)
  ultimately show ?thesis
    using thread_starts [OF _ _ _ _ _ surjective_pairing, of "0x1000" "0x8000" demo_regs "0x99" "0x700" "0x600" "0x5555" demo_mem]
    by simp
qed

end
