(* ===== verification/Startup.thy ===== *)
theory Startup
  imports Ports
begin

section \<open>machine/gdt.h, machine/gdt.cc, boot/startup.cc: segments and the old interrupt controllers\<close>

text \<open>
  A descriptor of the global descriptor table packs the base and the limit of a segment in eight
  bytes, in pieces. \<open>seg_base\<close> and \<open>seg_limit\<close> put them together as the CPU does; \<open>gdt_decodes\<close>
  shows that they give back what the constructor was called with.
\<close>

subsection \<open>The descriptors\<close>

definition place :: "nat \<Rightarrow> nat \<Rightarrow> u32 \<Rightarrow> u64" where
  "place pos width x = push_bit pos (take_bit width (ucast x))"

definition flag32 :: "bool \<Rightarrow> u32" where "flag32 b = (if b then 1 else 0)"

definition GDTDescriptor :: "u32 \<Rightarrow> u32 \<Rightarrow> bool \<Rightarrow> bool \<Rightarrow> bool \<Rightarrow> u64" where
  "GDTDescriptor base limit code user bit32 =
    (let limit_low = if 0xffff < limit then drop_bit 12 limit AND 0x0000FFFF else limit AND 0x0000FFFF;
         base_low = base AND 0x00FFFFFF;
         limit_high = if 0xffff < limit then drop_bit 28 limit AND 0xF else drop_bit 16 limit AND 0xF;
         base_high = drop_bit 24 (base AND 0xFF000000)
     in place 0 16 limit_low OR place 16 24 base_low OR place 40 1 0 OR place 41 1 1 OR place 42 1 0
        OR place 43 1 (flag32 code) OR place 44 1 1 OR place 45 2 (if user then 3 else 0) OR place 47 1 1
        OR place 48 4 limit_high OR place 52 1 0 OR place 53 1 0 OR place 54 1 (flag32 bit32)
        OR place 55 1 (flag32 (0xffff < limit)) OR place 56 8 base_high)"

definition gdt_descriptors :: "u64 list" where
  "gdt_descriptors = [0, GDTDescriptor 0 0xFFFFFFFF True False True, GDTDescriptor 0 0xFFFFFFFF False False True,
     GDTDescriptor 0x90000 0xFFFF False False False, GDTDescriptor 0x90000 0xFFFF True False False]"

text \<open>The limit of the table, in bytes minus 1.\<close>

definition gdt_desc_limit :: u16 where "gdt_desc_limit = of_nat (8 * length gdt_descriptors) - 1"

definition seg_base :: "u64 \<Rightarrow> u32" where
  "seg_base v = ucast (take_bit 24 (drop_bit 16 v) OR push_bit 24 (take_bit 8 (drop_bit 56 v)))"

definition seg_limit :: "u64 \<Rightarrow> u32" where
  "seg_limit v = (let raw = ucast (take_bit 16 v OR push_bit 16 (take_bit 4 (drop_bit 48 v)))
     in if bit v 55 then push_bit 12 raw OR 0xfff else raw)"

lemma bit_place: "bit (place pos width x) i \<longleftrightarrow> i < 64 \<and> pos \<le> i \<and> i < pos + width \<and> bit x (i - pos)"
  by (auto simp: place_def bit_simps dest: bit_imp_le_length)

lemma word_masks:
  "(0xFFFF :: u32) = mask 16" "(0xFFFFFF :: u32) = mask 24" "(0xF :: u32) = mask 4" "(0xFFF :: u32) = mask 12"
  "(0xFF000000 :: u32) = push_bit 24 (mask 8)" "(3 :: u32) = mask 2"
  by (simp_all add: mask_eq_exp_minus_1 push_bit_eq_mult)

lemma gdt_bit:
  "bit (GDTDescriptor base limit code user bit32) i \<longleftrightarrow> i < 64 \<and>
    (if i < 16 then bit limit (if 0xffff < limit then i + 12 else i)
     else if i < 40 then bit base (i - 16)
     else if 48 \<le> i \<and> i < 52 then bit limit (if 0xffff < limit then i - 20 else i - 32)
     else if i = 55 then 0xffff < limit
     else if 56 \<le> i then bit base (i - 32)
     else i = 41 \<or> i = 44 \<or> i = 47 \<or> (i = 43 \<and> code) \<or> ((i = 45 \<or> i = 46) \<and> user) \<or> (i = 54 \<and> bit32))"
    (is "_ \<longleftrightarrow> _ \<and> ?r")
proof (cases "i < 64")
  case True
  note simps = Let_def bit_or_iff bit_place bit_and_iff bit_drop_bit_eq bit_push_bit_iff bit_mask_iff flag32_def
  consider "i < 16" | "16 \<le> i" "i < 40" | "40 \<le> i" "i < 48" | "48 \<le> i" "i < 52" | "52 \<le> i" "i < 56" | "56 \<le> i" by linarith
  then show ?thesis
  proof cases
    case 3
    then consider "i = 40" | "i = 41" | "i = 42" | "i = 43" | "i = 44" | "i = 45" | "i = 46" | "i = 47" by linarith
    then show ?thesis unfolding GDTDescriptor_def word_masks by cases (simp_all add: simps)
  next
    case 5
    then consider "i = 52" | "i = 53" | "i = 54" | "i = 55" by linarith
    then show ?thesis unfolding GDTDescriptor_def word_masks by cases (simp_all add: simps)
  qed (use True in \<open>auto simp: GDTDescriptor_def word_masks simps add.commute\<close>)
qed (auto dest: bit_imp_le_length)

text \<open>
  The constructor of a segment descriptor and the decoding by the CPU are inverse:
  the base is given back, and so is a limit of less than 64 KB; for a larger one the descriptor
  counts pages, and the limit is the end of the page it lies in.
\<close>

theorem gdt_decodes:
  "seg_base (GDTDescriptor base limit code user bit32) = base \<and>
   seg_limit (GDTDescriptor base limit code user bit32) = (if 0xffff < limit then limit OR 0xfff else limit)"
proof
  show "seg_base (GDTDescriptor base limit code user bit32) = base"
    by (rule bit_word_eqI)
      (auto simp: seg_base_def bit_simps gdt_bit bit_ucast_iff)
  have high: "i < 16" if "bit limit i" "\<not> 0xffff < limit" for i
  proof (rule ccontr)
    assume "\<not> i < 16"
    moreover have "unat limit < 2 ^ 16" using that(2) by (simp add: not_less word_le_nat_alt)
    then have "take_bit 16 limit = limit" by (simp add: word_unat_eq_iff unsigned_take_bit_eq take_bit_nat_eq_self)
    ultimately show False using that(1) by (metis bit_take_bit_iff)
  qed
  show "seg_limit (GDTDescriptor base limit code user bit32) = (if 0xffff < limit then limit OR 0xfff else limit)"
  proof (cases "0xffff < limit")
    case True
    then show ?thesis unfolding seg_limit_def word_masks
      by (intro bit_word_eqI) (auto simp: Let_def bit_simps gdt_bit word_masks)
  next
    case False
    then have "\<not> bit (GDTDescriptor base limit code user bit32) 55" by (simp add: gdt_bit)
    moreover have "ucast (take_bit 16 v OR push_bit 16 (take_bit 4 (drop_bit 48 v))) = limit"
      if "v = GDTDescriptor base limit code user bit32" for v
      using False high unfolding that by (intro bit_word_eqI) (auto simp: bit_simps gdt_bit)
    ultimately show ?thesis using False by (simp add: seg_limit_def Let_def)
  qed
qed


text \<open>The table in numbers; its code and data segments are those of the temporary table in \<^verbatim>\<open>startup.asm\<close>.\<close>

lemma gdt_table:
  "gdt_descriptors = [0, 0x00CF9A000000FFFF, 0x00CF92000000FFFF, 0x000092090000FFFF, 0x00009A090000FFFF]"
  by (simp add: gdt_descriptors_def GDTDescriptor_def place_def flag32_def)

lemma gdt_limit: "gdt_desc_limit = 39"
  by (simp add: gdt_desc_limit_def gdt_descriptors_def)

subsection \<open>The old interrupt controllers\<close>

definition initialise_pics :: "'w port_ops \<Rightarrow> 'w \<Rightarrow> 'w" where
  "initialise_pics ops w =
    (let w = io_outb ops 0x20 0x11 w;
         w = io_outb ops 0xa0 0x11 w;
         w = io_outb ops 0x21 0x20 w;
         w = io_outb ops 0xa1 0x28 w;
         w = io_outb ops 0x21 0x04 w;
         w = io_outb ops 0xa1 0x02 w;
         w = io_outb ops 0x21 0x03 w;
         w = io_outb ops 0xa1 0x03 w;
         w = io_outb ops 0xa1 0xff w
     in io_outb ops 0x21 0xff w)"

text \<open>A controller in initialisation takes the second byte for its first vector; both are masked in the end.\<close>

definition pic_logs :: "('w \<Rightarrow> u16 \<Rightarrow> u8 list) \<Rightarrow> 'w port_ops \<Rightarrow> bool" where
  "pic_logs log ops \<longleftrightarrow> (\<forall>a v w. log (p_outb ops a v w) = (log w)(a := log w a @ [v]))"

lemma pics_initialised:
  "pic_logs log ops \<Longrightarrow> log w 0x21 = [] \<Longrightarrow> log w 0xa1 = [] \<Longrightarrow>
    log (initialise_pics ops w) 0x21 = [0x20, 4, 3, 0xff] \<and> log (initialise_pics ops w) 0xa1 = [0x28, 2, 3, 0xff]"
  by (simp add: initialise_pics_def io_outb_def pic_logs_def)

end
