(* ===== verification/Boot.thy ===== *)
theory Boot
  imports KernelProps
begin

section \<open>main.cc: the first threads\<close>

text \<open>
  \<^verbatim>\<open>main\<close> creates an idle thread for every CPU and the applications, which become ready; then each CPU,
  the first one and those it has started, enters the guard and calls \<^verbatim>\<open>schedule\<close>. The addresses of the
  thread objects are parameters, as the heap chooses them, and so is their number. The pointer \<^verbatim>\<open>victim\<close> to
  the first application, for the assassin, is not part of the state of the kernel. \<open>system_starts\<close> shows that this leads to a
  consistent state, so that the theorems of \<open>KernelProps\<close> hold from the start.
\<close>

subsection \<open>What main does\<close>

text \<open>The global objects after their constructors; no CPU has an idle thread yet.\<close>

definition globals_new :: "room set \<Rightarrow> (room \<Rightarrow> u32) \<Rightarrow> nat \<Rightarrow> kstate" where
  "globals_new mx count online = (kernel_init Map.empty mx count online)\<lparr>k_idle := Map.empty\<rparr>"

definition main_idle :: "tid list \<Rightarrow> kstate \<Rightarrow> kstate" where
  "main_idle idles s = fold (\<lambda>(i, idle) s. set_idle_thread i idle (thread_new idle True s)) (enumerate 0 idles) s"

definition main_apps :: "tid list \<Rightarrow> kstate \<Rightarrow> kstate" where
  "main_apps apps s = fold (\<lambda>a s. guarded_ready a (thread_new a True s)) apps s"

definition main_threads :: "tid list \<Rightarrow> tid list \<Rightarrow> kstate \<Rightarrow> kstate" where
  "main_threads idles apps s = main_apps apps (main_idle idles s)"

text \<open>The CPUs call \<^verbatim>\<open>schedule\<close> one after the other, as the guard lets them.\<close>

fun start_cpus :: "nat list \<Rightarrow> kstate \<Rightarrow> kstate option" where
  "start_cpus [] s = Some s"
| "start_cpus (cpu # cpus) s = Option.bind (schedule cpu s) (start_cpus cpus)"

subsection \<open>The threads before the first switch\<close>

text \<open>No thread has run: all members of threads have the values of the constructor.\<close>

definition untouched :: "kstate \<Rightarrow> bool" where
  "untouched s \<longleftrightarrow> k_waiting s = Map.empty \<and> k_killed s = (\<lambda>_. False) \<and> k_stack s = (\<lambda>_. True) \<and>
     k_gone s = (\<lambda>_. False) \<and> k_resume s = Map.empty \<and> fst (k_mutexes s) = (\<lambda>_. queue_new)"

definition ready_only :: "tid list \<Rightarrow> tq \<Rightarrow> tid list" where
  "ready_only ts = (\<lambda>_. [])(ReadyList := ts)"

lemma thread_new_untouched:
  "untouched s \<Longrightarrow> thread_new t True s = s\<lparr>k_queues := (fst (k_queues s), (snd (k_queues s))(t := None))\<rparr>"
  by (cases "k_mutexes s") (auto simp: untouched_def thread_new_def fun_upd_idem)

lemma main_idle_eq:
  "main_idle idles (globals_new mx count online) =
     (globals_new mx count online)\<lparr>k_idle := (\<lambda>c. if c < length idles then Some (idles ! c) else None)\<rparr>"
proof (induction idles rule: rev_induct)
  case Nil
  then show ?case by (simp add: main_idle_def globals_new_def)
next
  case (snoc t ts)
  let ?s = "(globals_new mx count online)\<lparr>k_idle := (\<lambda>c. if c < length ts then Some (ts ! c) else None)\<rparr>"
  have u: "untouched ?s" by (simp add: untouched_def globals_new_def kernel_init_def)
  have "thread_new t True ?s = ?s"
    unfolding thread_new_untouched [OF u] by (simp add: globals_new_def kernel_init_def)
  then have "main_idle (ts @ [t]) (globals_new mx count online) = set_idle_thread (length ts) t ?s"
    using snoc.IH by (simp add: main_idle_def enumerate_append_eq)
  then show ?case by (simp add: set_idle_thread_def fun_eq_iff nth_append)
qed

lemma globals_kinv:
  assumes "distinct idles" "length idles = CPU_MAX"
  shows "kinv None mx (ready_only []) (\<lambda>_. []) (main_idle idles (globals_new mx count online))" (is "kinv _ _ _ _ ?s")
  unfolding main_idle_eq
proof -
  have L: "ready_only [] = (\<lambda>_. [])" by (simp add: ready_only_def fun_eq_iff)
  let ?s = "(globals_new mx count online)\<lparr>k_idle := (\<lambda>c. if c < length idles then Some (idles ! c) else None)\<rparr>"
  have "boot_life Map.empty" by (simp add: boot_life_def)
  note init = kinv_parts [OF kernel_init_kinv [OF this, of mx count online]]
  show "kinv None mx (ready_only []) (\<lambda>_. []) ?s"
    unfolding L
  proof (rule kinvI)
    show "idle_ok None (\<lambda>_. []) ?s"
      using assms by (auto simp: idle_ok_def runs_def globals_new_def kernel_init_def nth_eq_iff_index_eq split: if_splits)
  qed (use init in \<open>simp_all add: queues_ok_def life_ok_def runs_def locks_ok_def mutexes_ok_def counters_ok_def bells_ok_def
      globals_new_def\<close>)
qed

text \<open>An application: its object is new, so it is in no queue, and it becomes the last ready thread.\<close>

lemma fresh_link:
  assumes "mq_rep (k_queues s) L" "\<And>q. t \<notin> set (L q)"
  shows "mq_rep (fst (k_queues s), (snd (k_queues s))(t := None)) L"
proof -
  have "queue_rep (fst (k_queues s) q, (snd (k_queues s))(t := None)) (L q)" for q
    by (rule queue_rep_frame [OF mq_rep_queue [OF assms(1)]]) (use assms(2) in auto)
  then show ?thesis using assms(1) by (simp add: mq_rep_def)
qed

lemma link_frame:
  shows
    "life_ok cur L (s\<lparr>k_queues := q\<rparr>) = life_ok cur L s"
    "idle_ok cur L (s\<lparr>k_queues := q\<rparr>) = idle_ok cur L s"
    "locks_ok mx L (s\<lparr>k_queues := q\<rparr>) = locks_ok mx L s"
    "mutexes_ok M (s\<lparr>k_queues := q\<rparr>) = mutexes_ok M s"
    "counters_ok L (s\<lparr>k_queues := q\<rparr>) = counters_ok L s"
    "bells_ok mx (s\<lparr>k_queues := q\<rparr>) = bells_ok mx s"
  by (cases s; simp only: life_ok_def idle_ok_def runs_def locks_ok_def mutexes_ok_def counters_ok_def bells_ok_def
      kstate.select_convs kstate.update_convs)+

lemma kinv_link:
  assumes "kinv cur mx L M s" "mq_rep q L"
  shows "kinv cur mx L M (s\<lparr>k_queues := q\<rparr>)"
proof -
  note parts = kinv_parts [OF assms(1)]
  have "queues_ok L (s\<lparr>k_queues := q\<rparr>)" using parts(1) assms(2) by (simp add: queues_ok_def)
  then show ?thesis by (rule kinvI) (simp_all only: link_frame parts)
qed

lemma app_ready:
  assumes inv: "kinv None mx (ready_only ts) (\<lambda>_. []) s" and u: "untouched s" and t: "t \<notin> set ts"
    and idle: "\<And>c. k_idle s c \<noteq> Some t" and life: "k_life s = Map.empty"
  shows "kinv None mx (ready_only (ts @ [t])) (\<lambda>_. []) (guarded_ready t (thread_new t True s)) \<and>
    untouched (guarded_ready t (thread_new t True s)) \<and> k_life (guarded_ready t (thread_new t True s)) = Map.empty \<and>
    k_idle (guarded_ready t (thread_new t True s)) = k_idle s"
proof -
  let ?s = "thread_new t True s"
  have eq: "?s = s\<lparr>k_queues := (fst (k_queues s), (snd (k_queues s))(t := None))\<rparr>" by (rule thread_new_untouched [OF u])
  have "kinv None mx (ready_only ts) (\<lambda>_. []) ?s"
    unfolding eq by (rule kinv_link [OF inv fresh_link [OF kinv_queues [OF inv]]]) (use t in \<open>simp add: ready_only_def\<close>)
  then have inc: "kinv None mx (ready_only ts) (\<lambda>_. []) (thread_inc ?s)" by simp
  have loose: "loose None (ready_only ts) t (thread_inc ?s)" "k_resume (thread_inc ?s) t = None"
    using u t idle life by (simp_all add: loose_def untouched_def ready_only_def runs_def eq thread_inc_def)
  have "appended t ReadyList (ready_only ts) = ready_only (ts @ [t])"
    using t by (simp add: appended_def loose_taken [OF loose(1)]) (simp add: ready_only_def fun_eq_iff)
  then have "kinv None mx (ready_only (ts @ [t])) (\<lambda>_. []) (ready_enqueue t (thread_inc ?s))"
    using kinv_ready_loose [OF inc loose] by simp
  then show ?thesis using u life
    by (simp add: guarded_ready_def ready_def untouched_def eq) (simp add: ready_enqueue_def thread_inc_def send_ipi_def)
qed

lemma main_apps_ready:
  assumes "kinv None mx (ready_only ts) (\<lambda>_. []) s" "untouched s" "k_life s = Map.empty"
    and "distinct (ts @ apps)" "\<And>c t. k_idle s c = Some t \<Longrightarrow> t \<notin> set apps"
  shows "kinv None mx (ready_only (ts @ apps)) (\<lambda>_. []) (main_apps apps s) \<and> untouched (main_apps apps s) \<and>
    k_life (main_apps apps s) = Map.empty \<and> k_idle (main_apps apps s) = k_idle s"
  using assms
proof (induction apps arbitrary: ts s)
  case Nil
  then show ?case by (simp add: main_apps_def)
next
  case (Cons t apps)
  let ?s = "guarded_ready t (thread_new t True s)"
  have s: "kinv None mx (ready_only (ts @ [t])) (\<lambda>_. []) ?s" "untouched ?s" "k_life ?s = Map.empty" "k_idle ?s = k_idle s"
    using app_ready [OF Cons.prems(1,2) _ _ Cons.prems(3), of t] Cons.prems(4,5) by auto
  have "main_apps (t # apps) s = main_apps apps ?s" by (simp add: main_apps_def)
  moreover have "kinv None mx (ready_only ((ts @ [t]) @ apps)) (\<lambda>_. []) (main_apps apps ?s) \<and> untouched (main_apps apps ?s) \<and>
      k_life (main_apps apps ?s) = Map.empty \<and> k_idle (main_apps apps ?s) = k_idle ?s"
    by (rule Cons.IH [OF s(1-3)]) (use Cons.prems(4,5) s(4) in auto)
  ultimately show ?case using s(4) by simp
qed

subsection \<open>The CPUs\<close>

text \<open>One CPU starts to execute the first ready thread, or its idle thread.\<close>

lemma schedule_first:
  assumes inv: "kinv None mx (ready_only ts) M s" and res: "k_resume s = Map.empty" and cpu: "cpu < CPU_MAX"
    and life: "k_life s cpu = None"
  shows "\<exists>s'. schedule cpu s = Some s' \<and> kinv None mx (ready_only (tl ts)) M s' \<and> k_resume s' = Map.empty \<and>
    k_idle s' = k_idle s \<and> k_life s' = (k_life s)(cpu := (case ts of [] \<Rightarrow> k_idle s cpu | t # _ \<Rightarrow> Some t))"
proof (cases ts)
  case Nil
  have empty: "is_empty s" using Nil by (simp add: is_empty_def mq_first_rep [OF kinv_queues [OF inv]] ready_only_def)
  obtain t where t: "k_idle s cpu = Some t" using kinv_parts(3) [OF inv] cpu by (auto simp: idle_ok_def)
  from kinv_run_idle [OF kinv_detach [OF inv] t] show ?thesis
    using t empty Nil res by (simp add: schedule_def next_thread_def dispatcher_go_def set_active_def ready_only_def)
next
  case (Cons t us)
  have L: "ready_only ts ReadyList = t # us" "(ready_only ts)(ReadyList := us) = ready_only us"
    using Cons by (simp_all add: ready_only_def)
  have nonempty: "\<not> is_empty s" by (simp add: is_empty_def mq_first_rep [OF kinv_queues [OF inv]] L)
  obtain q where q: "mq_dequeue ReadyList (k_queues s) = (Some t, q)" "mq_rep q (ready_only us)"
    using mq_dequeue_Cons [OF kinv_queues [OF inv] L(1)] L(2) by auto
  have "k_resume s t = None" using res by simp
  from kinv_run_next [OF kinv_detach [OF inv] L(1) this] q L(2) show ?thesis
    using nonempty Cons res by (simp add: schedule_def next_thread_def dispatcher_go_def set_active_def)
qed

text \<open>All CPUs in some order: the first ones get the applications, the others their idle threads.\<close>

lemma start_cpus_run:
  assumes "kinv None mx (ready_only ts) M s" "k_resume s = Map.empty" "distinct cpus" "set cpus \<subseteq> {..<CPU_MAX}"
    and "\<And>c. c \<in> set cpus \<Longrightarrow> k_life s c = None"
  shows "\<exists>s'. start_cpus cpus s = Some s' \<and> kinv None mx (ready_only (drop (length cpus) ts)) M s' \<and>
    (\<forall>c. c \<notin> set cpus \<longrightarrow> k_life s' c = k_life s c) \<and>
    (\<forall>k < length cpus. k_life s' (cpus ! k) = (if k < length ts then Some (ts ! k) else k_idle s (cpus ! k)))"
  using assms
proof (induction cpus arbitrary: s ts)
  case Nil
  then show ?case by simp
next
  case (Cons cpu cpus)
  obtain s1 where s1: "schedule cpu s = Some s1" "kinv None mx (ready_only (tl ts)) M s1" "k_resume s1 = Map.empty"
      "k_idle s1 = k_idle s" "k_life s1 = (k_life s)(cpu := (case ts of [] \<Rightarrow> k_idle s cpu | t # _ \<Rightarrow> Some t))"
    using schedule_first [OF Cons.prems(1,2), of cpu] Cons.prems(4,5) by auto
  have free: "k_life s1 c = None" if "c \<in> set cpus" for c using that Cons.prems(3,5) s1(5) by auto
  obtain s2 where s2: "start_cpus cpus s1 = Some s2" "kinv None mx (ready_only (drop (length cpus) (tl ts))) M s2"
      "\<And>c. c \<notin> set cpus \<Longrightarrow> k_life s2 c = k_life s1 c"
      "\<And>k. k < length cpus \<Longrightarrow> k_life s2 (cpus ! k) = (if k < length (tl ts) then Some (tl ts ! k) else k_idle s1 (cpus ! k))"
    using Cons.IH [OF s1(2,3) _ _ free] Cons.prems(3,4) by auto
  have first: "k_life s2 cpu = (if 0 < length ts then Some (ts ! 0) else k_idle s cpu)"
    using s2(3) [of cpu] Cons.prems(3) s1(5) by (cases ts) simp_all
  have rest: "k_life s2 ((cpu # cpus) ! k) = (if k < length ts then Some (ts ! k) else k_idle s ((cpu # cpus) ! k))"
    if "k < length (cpu # cpus)" for k
    using that first s2(4) [of "k - 1"] s1(4) by (cases k; cases ts) auto
  have other: "k_life s2 c = k_life s c" if "c \<notin> set (cpu # cpus)" for c using that s2(3) [of c] s1(5) by simp
  show ?case
    using s1(1) s2(1,2) rest other by (intro exI [of _ s2]) (simp add: drop_Suc)
qed

subsection \<open>The system starts\<close>

text \<open>No bell is pending.\<close>

lemma start_bells: "start_cpus cpus s = Some s' \<Longrightarrow> k_bells s' = k_bells s"
  by (induction cpus arbitrary: s)
    (auto simp: bind_eq_Some_conv schedule_def next_thread_def dispatcher_go_def set_active_def split: prod.splits if_splits)

lemma threads_bells: "k_bells (main_threads idles apps s) = k_bells s"
proof -
  have "k_bells (fold (\<lambda>a s. guarded_ready a (thread_new a True s)) apps v) = k_bells v" for v
    by (induction apps arbitrary: v)
      (simp_all add: guarded_ready_def ready_def ready_enqueue_def thread_inc_def thread_new_def)
  moreover have "k_bells (fold (\<lambda>(i, idle) s. set_idle_thread i idle (thread_new idle True s)) xs v) = k_bells v" for xs v
    by (induction xs arbitrary: v) (auto simp: set_idle_thread_def thread_new_def)
  ultimately show ?thesis by (simp add: main_threads_def main_apps_def main_idle_def)
qed

text \<open>
  Property C37. After main has created the idle threads and the applications, every CPU that calls schedule
  starts a thread: the k-th CPU to do so starts the k-th application, and its own idle thread once all
  applications run; the others stay ready in order, and the state satisfies the invariant of the kernel.
\<close>

theorem system_starts:
  assumes "distinct (idles @ apps)" "length idles = CPU_MAX" "distinct cpus" "set cpus \<subseteq> {..<CPU_MAX}"
  shows "\<exists>s'. start_cpus cpus (main_threads idles apps (globals_new mx count online)) = Some s' \<and>
    kinv None mx (ready_only (drop (length cpus) apps)) (\<lambda>_. []) s' \<and> bells_alive s' \<and>
    (\<forall>k < length cpus. k_life s' (cpus ! k) = Some (if k < length apps then apps ! k else idles ! (cpus ! k)))"
proof -
  let ?i = "main_idle idles (globals_new mx count online)" and ?s = "main_threads idles apps (globals_new mx count online)"
  have i: "untouched ?i" "k_life ?i = Map.empty" "k_idle ?i = (\<lambda>c. if c < CPU_MAX then Some (idles ! c) else None)"
    unfolding main_idle_eq by (simp_all add: untouched_def globals_new_def kernel_init_def assms(2))
  have "kinv None mx (ready_only []) (\<lambda>_. []) ?i" using assms(1,2) by (intro globals_kinv) auto
  note ready = main_apps_ready [OF this i(1,2), of apps]
  have "t \<notin> set apps" if "k_idle ?i c = Some t" for c t
    using that assms(1,2) nth_mem [of c idles] by (auto simp: i(3) disjoint_iff split: if_splits)
  with ready assms(1) have s: "kinv None mx (ready_only apps) (\<lambda>_. []) ?s" "untouched ?s" "k_life ?s = Map.empty"
      "k_idle ?s = k_idle ?i"
    by (simp_all add: main_threads_def)
  have "k_resume ?s = Map.empty" using s(2) by (simp add: untouched_def)
  from start_cpus_run [OF s(1) this assms(3,4)] s(3) obtain s' where s': "start_cpus cpus ?s = Some s'"
      "kinv None mx (ready_only (drop (length cpus) apps)) (\<lambda>_. []) s'"
      "\<And>k. k < length cpus \<Longrightarrow> k_life s' (cpus ! k) = (if k < length apps then Some (apps ! k) else k_idle ?s (cpus ! k))"
    by auto
  have "k_life s' (cpus ! k) = Some (if k < length apps then apps ! k else idles ! (cpus ! k))" if "k < length cpus" for k
    using s'(3) [OF that] s(4) i(3) assms(4) nth_mem [OF that] by auto
  moreover have "br_rep (k_bells s') []"
    using start_bells [OF s'(1)] by (simp add: threads_bells globals_new_def kernel_init_def br_rep_new)
  then have "bells_alive s'" by (simp add: bells_alive_def pending_iff)
  ultimately show ?thesis using s'(1,2) by blast
qed

theorem system_starts_witness:
  "\<exists>s'. start_cpus [1, 0] (main_threads [10, 11, 12, 13, 14, 15, 16, 17] [20] (globals_new {} (\<lambda>_. 0) 2)) = Some s' \<and>
    kinv None {} (ready_only []) (\<lambda>_. []) s' \<and> k_life s' 1 = Some 20 \<and> k_life s' 0 = Some 10"
proof -
  obtain s' where s': "start_cpus [1, 0] (main_threads [10, 11, 12, 13, 14, 15, 16, 17] [20] (globals_new {} (\<lambda>_. 0) 2)) = Some s'"
      "kinv None {} (ready_only (drop (length [1, 0 :: nat]) [20])) (\<lambda>_. []) s'"
      "\<And>k. k < length [1, 0 :: nat] \<Longrightarrow> k_life s' ([1, 0] ! k) =
         Some (if k < length [20 :: tid] then [20] ! k else [10, 11, 12, 13, 14, 15, 16, 17] ! ([1, 0 :: nat] ! k))"
    using system_starts [of "[10, 11, 12, 13, 14, 15, 16, 17]" "[20]" "[1, 0]" "{}" "\<lambda>_. 0" 2] by (auto simp: CPU_MAX_def)
  show ?thesis using s'(1,2) s'(3) [of 0] s'(3) [of 1] by simp
qed

end
