(* ===== verification/Apps.thy ===== *)
theory Apps
  imports ShellCommands Heap
begin

section \<open>user/app1, user/app2, user/status: the applications\<close>

text \<open>
  The threads that \<^verbatim>\<open>main\<close> starts, as far as they act on the screen, the keyboard and the heap. Each
  locks \<^verbatim>\<open>kout_mutex\<close> around its output, so that a definition here is what happens between
  \<^verbatim>\<open>lock\<close> and \<^verbatim>\<open>unlock\<close>; the calls of the kernel (theory \<open>Kernel\<close>) are left out. \<open>None\<close> is a failed
  assertion, a wait that does not end, or too few keys.
\<close>

subsection \<open>The counters of app1\<close>

definition cga_setpos :: "'w port_ops \<Rightarrow> window \<Rightarrow> int \<Rightarrow> int \<Rightarrow> 'w cgas ostream \<Rightarrow> 'w cgas ostream" where
  "cga_setpos ops w x y s = s\<lparr>o_dev := (o_dev s)\<lparr>g_cga := setpos ops w x y (g_cga (o_dev s))\<rparr>\<rparr>"

definition cga_getpos :: "'w port_ops \<Rightarrow> window \<Rightarrow> 'w cgas ostream \<Rightarrow> (int \<times> int) \<times> 'w cgas ostream" where
  "cga_getpos ops w s = (let (p, c) = getpos ops w (g_cga (o_dev s)) in (p, s\<lparr>o_dev := (o_dev s)\<lparr>g_cga := c\<rparr>\<rparr>))"

definition app_ms :: "u32 \<Rightarrow> u32" where "app_ms i = math_pow 2 i * 8"

definition app_banner :: "'w port_ops \<Rightarrow> window \<Rightarrow> u32 \<Rightarrow> 'w cgas ostream \<Rightarrow> 'w cgas ostream option" where
  "app_banner ops w i s = do {
     let ((x, y), s) = cga_getpos ops w s;
     let s = cga_setpos ops w 4 (sint i + 2) s;
     let fl = cga_flush ops w;
     s \<leftarrow> print_lit fl ''App '' s;
     s \<leftarrow> o_int fl i s;
     s \<leftarrow> print_lit fl '' (ms: '' s;
     s \<leftarrow> o_uint fl (app_ms i) s;
     s \<leftarrow> print_lit fl ''): '' s;
     s \<leftarrow> fl s;
     Some (cga_setpos ops w x y s) }"

definition app_frame :: "'w port_ops \<Rightarrow> window \<Rightarrow> u32 \<Rightarrow> u16 \<Rightarrow> 'w cgas ostream \<Rightarrow> 'w cgas ostream option" where
  "app_frame ops w i n s = do {
     let ((x, y), s) = cga_getpos ops w s;
     let s = cga_setpos ops w 23 (sint i + 2) s;
     s \<leftarrow> o_short (cga_flush ops w) n s;
     s \<leftarrow> cga_flush ops w s;
     Some (cga_setpos ops w x y s) }"

subsection \<open>The status line\<close>

fun idle_cpus :: "'w port_ops \<Rightarrow> window \<Rightarrow> (nat \<Rightarrow> bool) \<Rightarrow> nat list \<Rightarrow> 'w cgas ostream \<Rightarrow> 'w cgas ostream option" where
  "idle_cpus ops w idle [] s = Some s"
| "idle_cpus ops w idle (i # cpus) s = do {
     s \<leftarrow> (if idle i then o_int (cga_flush ops w) (of_nat i) s else o_char (cga_flush ops w) 32 s);
     idle_cpus ops w idle cpus s }"

definition heap_permille :: "heap_stats \<Rightarrow> u32" where "heap_permille st = (1000 * h_used st) div h_total st"

definition heap_percent :: "heap_stats \<Rightarrow> int" where
  "heap_percent st = (let tmp = sint (heap_permille st) in tmp div 10 + (if tmp mod 10 < 5 then 0 else 1))"

definition status_padding :: "int \<Rightarrow> string" where
  "status_padding used = (if used < 10 then ''  '' else if used < 100 then '' '' else '''')"

definition status_line ::
  "'w port_ops \<Rightarrow> window \<Rightarrow> (nat \<Rightarrow> bool) \<Rightarrow> u32 \<Rightarrow> heap_stats \<Rightarrow> 'w cgas ostream \<Rightarrow> 'w cgas ostream option"
where
  "status_line ops w idle threads st s = do {
     let fl = cga_flush ops w;
     let s = cga_stream_reset ops w 32 s;
     s \<leftarrow> print_lit fl ''idle CPUs: '' s;
     s \<leftarrow> idle_cpus ops w idle [0..<CPU_MAX] s;
     s \<leftarrow> fl s;
     let s = cga_setpos ops w (w_from_col w + 20) (w_from_row w) s;
     s \<leftarrow> print_lit fl ''#threads: '' s;
     s \<leftarrow> o_uint fl threads s;
     s \<leftarrow> fl s;
     let s = cga_setpos ops w (w_to_col w - 19) (w_from_row w) s;
     let used = heap_percent st;
     s \<leftarrow> print_lit fl ''RAM: '' s;
     s \<leftarrow> print_lit fl (status_padding used) s;
     s \<leftarrow> o_int fl (word_of_int used) s;
     s \<leftarrow> o_char fl 37 s;
     s \<leftarrow> print_lit fl '' ('' s;
     s \<leftarrow> o_uint fl (h_used_blocks st) s;
     s \<leftarrow> o_char fl 47 s;
     s \<leftarrow> o_uint fl (h_used_blocks st + h_free_blocks st) s;
     s \<leftarrow> o_char fl 41 s;
     fl s }"

text \<open>One round: the numbers come from the kernel and from the walk over the heap.\<close>

definition status_round :: "'w port_ops \<Rightarrow> window \<Rightarrow> u32 \<Rightarrow> mem \<Rightarrow> kstate \<Rightarrow> 'w cgas ostream \<Rightarrow> 'w cgas ostream option" where
  "status_round ops w hb m k s = do {
     st \<leftarrow> get_heap_stats hb m;
     status_line ops w (k_cpu_idle k) (k_threads k) st s }"

subsection \<open>The keyboard application\<close>

record kapp =
  ka_speed :: int
  ka_delay :: int

definition kapp_new :: kapp where "kapp_new = \<lparr>ka_speed = 0, ka_delay = 0\<rparr>"

text \<open>The switches of Ctrl and Alt with the arrow keys: the new rate, and whether it is sent.\<close>

definition rate_key :: "key \<Rightarrow> kapp \<Rightarrow> bool \<times> kapp" where
  "rate_key k a =
     (if key_ctrl k
      then if k_scan k = scan_up then (True, if ka_speed a = 31 then a else a\<lparr>ka_speed := ka_speed a + 1\<rparr>)
           else if k_scan k = scan_down then (True, if ka_speed a = 0 then a else a\<lparr>ka_speed := ka_speed a - 1\<rparr>)
           else (False, a)
      else if k_scan k = scan_up then (True, if ka_delay a = 3 then a else a\<lparr>ka_delay := ka_delay a + 1\<rparr>)
           else if k_scan k = scan_down then (True, if ka_delay a = 0 then a else a\<lparr>ka_delay := ka_delay a - 1\<rparr>)
           else (False, a))"

definition rate_byte :: "kapp \<Rightarrow> u8" where
  "rate_byte a = ucast ((word_of_int (ka_speed a) :: u32) OR push_bit 5 (word_of_int (ka_delay a)))"

text \<open>A key that does not start the shell.\<close>

definition kapp_key ::
  "'w port_ops \<Rightarrow> window \<Rightarrow> str_heap \<Rightarrow> key \<Rightarrow> kapp \<times> 'w shell \<Rightarrow> (kapp \<times> 'w shell) option"
where
  "kapp_key ops w alloc k = (\<lambda>(a, sh).
     if key_ctrl k \<or> key_alt k
     then let (sent, a) = rate_key k a
          in if sent
             then map_option (Pair a) (with_hw (set_repeat_rate ops (word_of_int (ka_speed a)) (word_of_int (ka_delay a))) sh)
             else Some (a, sh)
     else if k_asc k = 8
     then map_option (\<lambda>(_, s). (a, sh\<lparr>sh_out := s\<rparr>)) (cga_backspace ops w alloc None npos (sh_out sh))
     else do {
       s \<leftarrow> o_char (cga_flush ops w) (k_asc k) (sh_out sh);
       s \<leftarrow> cga_flush ops w s;
       Some (a, sh\<lparr>sh_out := s\<rparr>) })"

text \<open>The loop, on the keys that \<^verbatim>\<open>getkey\<close> delivers, until it waits for the next key. A new shell has
  an empty history.\<close>

partial_function (option) kapp_loop ::
  "'w port_ops \<Rightarrow> window \<Rightarrow> str_heap \<Rightarrow> str option \<Rightarrow> (int \<Rightarrow> pixel) option \<Rightarrow> key list \<Rightarrow> backup \<Rightarrow> kapp \<times> 'w shell \<Rightarrow>
     (backup \<times> kapp \<times> 'w shell) option"
where
  "kapp_loop ops w alloc null_str fresh ks b s =
     (case ks of
        [] \<Rightarrow> Some (b, s)
      | k # ks \<Rightarrow>
          if k_asc k = 116
          then do {
            (ks, b, sh) \<leftarrow> shell_start ops w alloc null_str fresh ks b ((snd s)\<lparr>sh_hist := history_new\<rparr>);
            kapp_loop ops w alloc null_str fresh ks b (fst s, sh) }
          else do {
            s \<leftarrow> kapp_key ops w alloc k s;
            kapp_loop ops w alloc null_str fresh ks b s })"

end
