(* ===== verification/AppProps.thy ===== *)
theory AppProps
  imports Apps
begin

section \<open>Properties of the applications\<close>

text \<open>
  The counter of an application and the characters that are typed, on the level of the terminal of
  theory \<open>Screen\<close>; the ranges of the repeat rate; the rounding of the status line.
\<close>

subsection \<open>The counters\<close>

lemma getpos_cursor_at: "cga_getpos ops w s = (cursor_at ops w (g_cga (o_dev s)),
    s\<lparr>o_dev := (o_dev s)\<lparr>g_cga := snd (getpos ops w (g_cga (o_dev s)))\<rparr>\<rparr>)"
  by (simp add: cga_getpos_def cursor_at_def split_beta)

lemma setpos_view:
  assumes "cursor_ok ops sel reg w" "window_ok w" "in_window w x y"
  shows "cursor_at ops w (setpos ops w x y c) = (x, y)" "c_mem (setpos ops w x y c) = c_mem c"
    "cursor_inside ops w (setpos ops w x y c)"
  using getpos_setpos [OF assms] assms(3) by (simp_all add: cursor_at_def setpos_mem cursor_inside_def)

lemma received_idle:
  "cga_ok ops sel reg w (o_dev s) \<Longrightarrow> o_pos s = 0 \<Longrightarrow> length (o_buf s) = 80 \<Longrightarrow> cs.received ops sel reg w s (o_dev s) []"
  using cs.shows_nothing by (auto simp: cs.received_def)

text \<open>
  Property C39. An application shows its counter at a fixed place: the number is printed at column
  23 of its line, as a terminal does, the cursor is back where it was, and no other window changes.
\<close>

theorem app_counter:
  assumes "cga_ok ops sel reg w (o_dev s)" "o_pos s = 0" "length (o_buf s) = 80" "o_base s = 10"
    and "in_window w 23 (sint i + 2)"
  shows "\<exists>s'. app_frame ops w i n s = Some s' \<and>
    cursor_at ops w (g_cga (o_dev s')) = cursor_at ops w (g_cga (o_dev s)) \<and>
    t_rows (screen_view ops w (g_cga (o_dev s'))) = t_rows (term_print (w_width w) (g_attr (o_dev s)) (long_text 10 (scast n))
      ((screen_view ops w (g_cga (o_dev s)))\<lparr>t_col := nat (23 - w_from_col w), t_row := nat (sint i + 2 - w_from_row w)\<rparr>)) \<and>
    same_outside w (c_mem (g_cga (o_dev s))) (c_mem (g_cga (o_dev s'))) \<and> cga_ok ops sel reg w (o_dev s') \<and> o_pos s' = 0"
proof -
  let ?g = "g_cga (o_dev s)"
  obtain x y where p: "cursor_at ops w ?g = (x, y)" by fastforce
  have ok: "cursor_ok ops sel reg w" "window_ok w" "in_window w x y"
    using assms(1) p by (auto simp: cga_ok_def cursor_inside_def)
  let ?s1 = "cga_setpos ops w 23 (sint i + 2) (snd (cga_getpos ops w s))"
  let ?g1 = "g_cga (o_dev ?s1)"
  have g1: "?g1 = setpos ops w 23 (sint i + 2) (snd (getpos ops w ?g))" by (simp add: cga_setpos_def getpos_cursor_at)
  note at1 = setpos_view [OF ok(1,2) assms(5), of "snd (getpos ops w ?g)"]
  have mem1: "c_mem ?g1 = c_mem ?g" by (simp add: g1 at1(2) getpos_mem)
  have view1: "screen_view ops w ?g1 = (screen_view ops w ?g)\<lparr>t_col := nat (23 - w_from_col w), t_row := nat (sint i + 2 - w_from_row w)\<rparr>"
    unfolding screen_view_def mem1 by (simp add: g1 at1(1) terminal_of_def)
  have s1: "cga_ok ops sel reg w (o_dev ?s1)" "o_pos ?s1 = 0" "length (o_buf ?s1) = 80" "o_base ?s1 = int 10"
    "g_attr (o_dev ?s1) = g_attr (o_dev s)"
    using assms(2-4) ok(1,2) at1(3) by (simp_all add: cga_ok_def g1) (simp_all add: cga_setpos_def getpos_cursor_at)
  obtain s2 where s2: "o_long (cga_flush ops w) (scast n) ?s1 = Some s2" "cs.received ops sel reg w s2 (o_dev ?s1) (long_text 10 (scast n))"
    using cs.long_writes [OF received_idle [OF s1(1-3)] s1(4), of "scast n"] by (auto elim: cs.writesE)
  obtain s3 where s3: "cga_flush ops w s2 = Some s3" "cs.received ops sel reg w s3 (o_dev ?s1) (long_text 10 (scast n))"
    "o_pos s3 = 0" "cga_shows ops w (o_dev ?s1) (long_text 10 (scast n)) (o_dev s3)"
    using cs.fl_writes [OF s2(2)] by auto
  let ?s' = "cga_setpos ops w x y s3"
  have g': "g_cga (o_dev ?s') = setpos ops w x y (g_cga (o_dev s3))" by (simp add: cga_setpos_def)
  note at' = setpos_view [OF ok, of "g_cga (o_dev s3)"]
  have run: "app_frame ops w i n s = Some ?s'"
    using s2(1) s3(1) by (simp add: app_frame_def getpos_cursor_at p o_short_def)
  have rows: "t_rows (screen_view ops w (g_cga (o_dev ?s'))) = t_rows (screen_view ops w (g_cga (o_dev s3)))"
    unfolding g' by (simp add: screen_view_def at'(2) terminal_of_def)
  have shown: "screen_view ops w (g_cga (o_dev s3)) = term_print (w_width w) (g_attr (o_dev s)) (long_text 10 (scast n)) (screen_view ops w ?g1)"
    "same_outside w (c_mem ?g) (c_mem (g_cga (o_dev s3)))"
    using s3(4) by (simp_all add: cga_shows_def s1(5) mem1)
  have "cga_ok ops sel reg w (o_dev ?s')" using ok(1,2) at'(3) by (simp add: cga_ok_def g')
  moreover have "o_pos ?s' = 0" using s3(3) by (simp add: cga_setpos_def)
  moreover have "same_outside w (c_mem ?g) (c_mem (g_cga (o_dev ?s')))" using shown(2) by (simp add: g' at'(2))
  moreover have "cursor_at ops w (g_cga (o_dev ?s')) = cursor_at ops w ?g" by (simp add: g' at'(1) p)
  ultimately show ?thesis using run rows shown(1) view1 by (intro exI [of _ ?s']) simp
qed

theorem app_counter_witness:
  "\<exists>s'. app_frame crt_demo (make_window 0 79 0 14 False) 0 7
      (ostream_new (replicate 80 0) \<lparr>g_orig = 7, g_attr = 7, g_cga = cga_new (make_window 0 79 0 14 False) (\<lambda>_. (32, 7)) (0, \<lambda>_. 0)\<rparr>) = Some s' \<and>
    o_pos s' = 0"
proof -
  let ?w = "make_window 0 79 0 14 False"
  let ?s = "ostream_new (replicate 80 0) \<lparr>g_orig = 7, g_attr = 7, g_cga = cga_new ?w (\<lambda>_. (32, 7)) (0, \<lambda>_. 0)\<rparr>"
  have "cga_ok crt_demo fst snd ?w (o_dev ?s)"
    by (simp add: cga_ok_def cursor_ok_def window_ok_def make_window_def COLUMNS_def ROWS_def cursor_inside_def cursor_at_def
        getpos_def in_window_def cga_new_def ostream_new_def)
  from app_counter [OF this, of 0 7] show ?thesis by (auto simp: ostream_new_def in_window_def make_window_def)
qed

subsection \<open>The keyboard application\<close>

definition rate_ok :: "kapp \<Rightarrow> bool" where
  "rate_ok a \<longleftrightarrow> 0 \<le> ka_speed a \<and> ka_speed a \<le> 31 \<and> 0 \<le> ka_delay a \<and> ka_delay a \<le> 3"

lemma rate_key_ok: "rate_ok a \<Longrightarrow> rate_ok (snd (rate_key k a))"
  by (auto simp: rate_ok_def rate_key_def)

lemma kapp_key_rate:
  assumes "kapp_key ops w alloc k (a, sh) = Some (a', sh')" "rate_ok a"
  shows "rate_ok a'"
proof -
  have "a' = a \<or> a' = snd (rate_key k a)"
    using assms(1) by (auto simp: kapp_key_def split_beta bind_eq_Some_conv split: if_splits)
  then show ?thesis using rate_key_ok assms(2) by blast
qed

lemma rate_bytes:
  "list_all (\<lambda>i. list_all (\<lambda>j. unat (rate_byte \<lparr>ka_speed = i, ka_delay = j\<rparr>) = nat i + 32 * nat j) [0..3]) [0..31]"
  by code_simp

lemma rate_byte_unat:
  assumes "rate_ok a" shows "unat (rate_byte a) = nat (ka_speed a) + 32 * nat (ka_delay a)"
  using rate_bytes assms by (cases a) (simp add: list_all_iff rate_ok_def)

lemma rate_sent: "set_repeat_rate ops (word_of_int (ka_speed a)) (word_of_int (ka_delay a)) = send_command ops 0xf3 (rate_byte a)"
  by (simp add: set_repeat_rate_def rate_byte_def fun_eq_iff)

lemma kapp_loop_rate:
  assumes "kapp_loop ops w alloc null_str fresh ks b s = Some (b', a', sh')" "rate_ok (fst s)"
  shows "rate_ok a'"
proof -
  have "rate_ok (fst s) \<longrightarrow> rate_ok (fst (snd r))" if "kapp_loop ops w alloc null_str fresh ks b s = Some r" for r
    by (rule kapp_loop.raw_induct [where P = "\<lambda>ops w alloc ns fr ks b s r. rate_ok (fst s) \<longrightarrow> rate_ok (fst (snd r))", OF _ that])
      (fastforce simp: bind_eq_Some_conv split_beta dest: kapp_key_rate split: list.splits if_splits)
  then show ?thesis using assms by fastforce
qed

text \<open>
  Property C40. Whatever keys are typed, with or without Ctrl and Alt and with shells in between,
  the repeat rate of the keyboard stays in the ranges of the controller, 0 to 31 and 0 to 3, so
  that the byte of the command is the speed in the low five bits and the delay above them.
\<close>

theorem repeat_rate_range:
  assumes "kapp_loop ops w alloc null_str fresh ks b (kapp_new, sh) = Some (b', a, sh')"
  shows "ka_speed a \<in> {0..31} \<and> ka_delay a \<in> {0..3} \<and>
    set_repeat_rate ops (word_of_int (ka_speed a)) (word_of_int (ka_delay a)) = send_command ops 0xf3 (rate_byte a) \<and>
    unat (rate_byte a) = nat (ka_speed a) + 32 * nat (ka_delay a)"
proof -
  have "rate_ok a" using kapp_loop_rate [OF assms] by (simp add: rate_ok_def kapp_new_def)
  then show ?thesis using rate_sent rate_byte_unat by (simp add: rate_ok_def)
qed

definition ctrl_up :: key where "ctrl_up = \<lparr>k_asc = 0, k_scan = scan_up, k_modi = mbit_ctrl_left\<rparr>"

definition demo_shell :: "(u8 \<times> (u8 \<Rightarrow> u8)) shell" where
  "demo_shell = \<lparr>sh_out = ostream_new (replicate 80 0) demo_dev, sh_douts = [],
     sh_rtc = \<lparr>rtc_time = demo_time, rtc_hz = 0\<rparr>, sh_hist = history_new\<rparr>"

lemma ctrl_up_sent: "\<exists>sh. kapp_key crt_demo w alloc ctrl_up (kapp_new, demo_shell) = Some (kapp_new\<lparr>ka_speed := 1\<rparr>, sh)"
proof -
  have "wait_inpb crt_demo v = Some v" for v
    by (subst wait_inpb.simps) (simp add: io_inb_def crt_demo_def ctrl_port_def crt_data_def split_beta)
  then show ?thesis
    by (simp add: kapp_key_def rate_key_def ctrl_up_def key_ctrl_def key_has_def mbit_ctrl_left_def kapp_new_def with_hw_def
        Let_def set_repeat_rate_def send_command_def send_byte_def)
qed

theorem repeat_rate_range_witness:
  "\<exists>b a sh. kapp_loop crt_demo demo_window plain_heap None (Some (\<lambda>_. (32, 7))) [ctrl_up]
      \<lparr>backup_cga = None, backup_out_x = 0, backup_out_y = 0\<rparr> (kapp_new, demo_shell) = Some (b, a, sh) \<and>
    ka_speed a = 1 \<and> ka_delay a \<in> {0..3} \<and> unat (rate_byte a) = 1"
proof -
  let ?b = "\<lparr>backup_cga = None, backup_out_x = 0, backup_out_y = 0\<rparr> :: backup"
  obtain sh where sh: "kapp_key crt_demo demo_window plain_heap ctrl_up (kapp_new, demo_shell) = Some (kapp_new\<lparr>ka_speed := 1\<rparr>, sh)"
    using ctrl_up_sent by blast
  have "kapp_loop crt_demo demo_window plain_heap None (Some (\<lambda>_. (32, 7))) [] ?b (kapp_new\<lparr>ka_speed := 1\<rparr>, sh) =
      Some (?b, kapp_new\<lparr>ka_speed := 1\<rparr>, sh)" by (subst kapp_loop.simps) simp
  moreover have "k_asc ctrl_up \<noteq> 116" by (simp add: ctrl_up_def)
  ultimately have run: "kapp_loop crt_demo demo_window plain_heap None (Some (\<lambda>_. (32, 7))) [ctrl_up] ?b (kapp_new, demo_shell) =
      Some (?b, kapp_new\<lparr>ka_speed := 1\<rparr>, sh)" by (subst kapp_loop.simps) (simp add: sh)
  from repeat_rate_range [OF this] run show ?thesis by (auto simp: kapp_new_def)
qed

definition typed_key :: "key \<Rightarrow> bool" where
  "typed_key k \<longleftrightarrow> \<not> key_ctrl k \<and> \<not> key_alt k \<and> k_asc k \<noteq> 8 \<and> k_asc k \<noteq> 116"

lemma typing_received:
  assumes "list_all typed_key ks" "cs.received ops sel reg w (sh_out sh) d xs" "o_pos (sh_out sh) = 0"
    and "cga_shows ops w d xs (o_dev (sh_out sh))"
  shows "\<exists>s. kapp_loop ops w alloc null_str fresh ks b (a, sh) = Some (b, a, sh\<lparr>sh_out := s\<rparr>) \<and>
    cga_shows ops w d (xs @ map k_asc ks) (o_dev s)"
  using assms
proof (induction ks arbitrary: sh xs)
  case Nil
  have "kapp_loop ops w alloc null_str fresh [] b (a, sh) = Some (b, a, sh)" by (subst kapp_loop.simps) simp
  then show ?case using Nil.prems(4) by (intro exI [of _ "sh_out sh"]) simp
next
  case (Cons k ks)
  have k: "typed_key k" "list_all typed_key ks" using Cons.prems(1) by simp_all
  obtain s1 where s1: "o_put (cga_flush ops w) (k_asc k) (sh_out sh) = Some s1" "cs.received ops sel reg w s1 d (xs @ [k_asc k])"
    using cs.put_writes [OF Cons.prems(2)] by (auto elim: cs.writesE)
  obtain s2 where s2: "cga_flush ops w s1 = Some s2" "cs.received ops sel reg w s2 d (xs @ [k_asc k])" "o_pos s2 = 0"
    "cga_shows ops w d (xs @ [k_asc k]) (o_dev s2)" using cs.fl_writes [OF s1(2)] by auto
  have key: "kapp_key ops w alloc k (a, sh) = Some (a, sh\<lparr>sh_out := s2\<rparr>)"
    using k(1) s1(1) s2(1) by (simp add: kapp_key_def typed_key_def o_char_def)
  from Cons.IH [OF k(2), of "sh\<lparr>sh_out := s2\<rparr>" "xs @ [k_asc k]"] s2
  obtain s where s: "kapp_loop ops w alloc null_str fresh ks b (a, sh\<lparr>sh_out := s2\<rparr>) = Some (b, a, sh\<lparr>sh_out := s\<rparr>)"
    "cga_shows ops w d (xs @ k_asc k # map k_asc ks) (o_dev s)" by auto
  have "kapp_loop ops w alloc null_str fresh (k # ks) b (a, sh) = Some (b, a, sh\<lparr>sh_out := s\<rparr>)"
    using k(1) key s(1) by (subst kapp_loop.simps) (simp add: typed_key_def)
  then show ?case using s(2) by auto
qed

lemma typing_shown:
  assumes "list_all typed_key ks" "cga_ok ops sel reg w (o_dev (sh_out sh))" "o_pos (sh_out sh) = 0" "length (o_buf (sh_out sh)) = 80"
  shows "\<exists>s. kapp_loop ops w alloc null_str fresh ks b (a, sh) = Some (b, a, sh\<lparr>sh_out := s\<rparr>) \<and>
    cga_shows ops w (o_dev (sh_out sh)) (map k_asc ks) (o_dev s)"
  using typing_received [OF assms(1) received_idle [OF assms(2-4)] assms(3), of alloc null_str fresh b a] cs.shows_nothing [OF assms(2)]
  by simp

subsection \<open>The status line\<close>

lemma round_half: "x div 10 + (if x mod 10 < 5 then 0 else 1) = (x + 5) div 10" for x :: int
proof -
  have r: "0 \<le> x mod 10" "x mod 10 < 10" by simp_all
  have "x + 5 = (x mod 10 + 5) + 10 * (x div 10)" by simp
  then have "(x + 5) div 10 = x div 10 + (x mod 10 + 5) div 10" by (simp only: div_mult_self2)
  moreover have "(x mod 10 + 5) div 10 = 1" if "\<not> x mod 10 < 5"
    using r that by (intro int_div_pos_eq [of _ _ _ "x mod 10 - 5"]) auto
  moreover have "(x mod 10 + 5) div 10 = 0" if "x mod 10 < 5" using r that by (intro div_pos_pos_trivial) auto
  ultimately show ?thesis by (cases "x mod 10 < 5") simp_all
qed

text \<open>The share of the used memory, rounded to percent.\<close>

lemma heap_percent_rounds:
  assumes "1000 * unat (h_used st) < 2 ^ 31" "h_used st \<le> h_total st" "0 < h_total st"
  shows "heap_percent st = (1000 * int (unat (h_used st)) div int (unat (h_total st)) + 5) div 10" "heap_percent st \<le> 100"
proof -
  let ?u = "unat (h_used st)" and ?t = "unat (h_total st)"
  have "0 < ?t" using assms(3) by (simp add: word_less_nat_alt)
  have le: "1000 * ?u div ?t \<le> 1000"
    using div_le_mono [of "1000 * ?u" "1000 * ?t" ?t] assms(2) \<open>0 < ?t\<close> by (simp add: word_le_nat_alt)
  have "unat (1000 * h_used st) = 1000 * ?u" using assms(1) by (simp add: unat_word_ariths take_bit_nat_eq_self_iff)
  then have u: "unat (heap_permille st) = 1000 * ?u div ?t" by (simp add: heap_permille_def unat_div)
  have p: "sint (heap_permille st) = int (1000 * ?u div ?t)" using le u by (subst sint_small) simp_all
  have le': "sint (heap_permille st) \<le> 1000" using of_nat_mono [OF le, where 'a = int] unfolding p by (simp only: of_nat_numeral)
  have p': "sint (heap_permille st) = 1000 * int ?u div int ?t" unfolding p by (simp add: zdiv_int)
  show "heap_percent st = (1000 * int ?u div int ?t + 5) div 10"
    unfolding heap_percent_def Let_def p' by (rule round_half)
  have "(x + 5) div 10 \<le> 100" if "x \<le> 1000" for x :: int using that by presburger
  then show "heap_percent st \<le> 100"
    unfolding \<open>heap_percent st = (1000 * int ?u div int ?t + 5) div 10\<close> using le' unfolding p' by blast
qed

end
