(* ===== verification/Spec2Isabelle.thy ===== *)
theory Spec2Isabelle
  imports MathUtil MemUtil HeapProps LinkQueue BBuffer KernelProps Guard GuardLive GuardedKernel Syscalls Keyboard LineInput
    Cmos GdbProps ApicProps Watch ConsoleProps RandomGen ShellProps Wiring WiringProps Context Startup Boot AppProps
begin

section \<open>A multi-core operating system for x86, verified\<close>

text \<open>
  The program is a small 32-bit kernel for several CPUs, with drivers, a shell, a debugger stub and
  demonstration threads, all in one address space. This library follows its C++ sources under
  \<^verbatim>\<open>src/\<close>; every definition that models code keeps the name it has there where possible.

  \<^bold>\<open>The parts and how they interact.\<close> An interrupt enters \<^verbatim>\<open>guardian\<close>, which asks the plugbox for the
  \<^verbatim>\<open>Gate\<close> of the vector, runs its prologue and, if the prologue wants it, relays the gate to the
  guard. The guard runs epilogues and the system calls of threads one at a time over all CPUs. Inside
  it work the scheduler with its ready list, the waiting rooms (semaphores, mutexes, bells) and the
  bellringer. The drivers fill buffers in their prologues and wake threads in their epilogues. Output
  goes through \<^verbatim>\<open>O_Stream\<close> to a window of the screen or to the serial line. The shell and the
  applications are built on strings, streams, keyboard, clock and heap.

  \<^bold>\<open>Shared theories.\<close>
  \<^item> \<open>Prelude\<close>: the machine integers of \<^verbatim>\<open>types.h\<close>, facts on words, the rule collections
    \<open>unat_simps\<close> and \<open>rep_simps\<close>; \<open>Loops\<close>: counting loops over \<^verbatim>\<open>size_t\<close> with their invariant rules;
    \<open>Ports\<close> and \<open>Bits\<close>: hardware as a parameter, bit fields.

  \<^bold>\<open>Data structures and helpers.\<close>
  \<^item> \<open>MathUtil\<close> (\<^verbatim>\<open>utils/math.h\<close>): \<open>div64\<close> is division for every divisor but 0, where it does not end.
  \<^item> \<open>MemUtil\<close> (\<^verbatim>\<open>utils/memutil.cc\<close>): the byte memory; \<open>memmove\<close> copies the old bytes of overlapping ranges.
  \<^item> \<open>LinkQueue\<close>, \<open>QueueSet\<close> (\<^verbatim>\<open>object/queue.h\<close>): the intrusive queue on the level of its pointers is a
    list; many queues share one link member.
  \<^item> \<open>BBuffer\<close> (\<^verbatim>\<open>object/bbuffer.h\<close>): the ring buffer is a bounded list.
  \<^item> \<open>Heap\<close>, \<open>HeapRep\<close>, \<open>HeapOps\<close>, \<open>HeapMerge\<close>, \<open>HeapProps\<close> (\<^verbatim>\<open>utils/heap.cc\<close>): blocks tile the memory, the free
    ones form the doubly linked free list; what malloc, free, realloc and the statistics do to them.
  \<^item> \<open>RandomGen\<close> (\<^verbatim>\<open>utils/random.cc\<close>).

  \<^bold>\<open>The kernel.\<close>
  \<^item> \<open>Bellringer\<close> (\<^verbatim>\<open>meeting/bellringer.cc\<close>): the delta list implements a list of absolute times.
  \<^item> \<open>Kernel\<close>, \<open>KernelInv\<close>, \<open>KernelOps\<close>, \<open>KernelProps\<close> (\<^verbatim>\<open>thread/\<close>, \<^verbatim>\<open>meeting/\<close>, \<^verbatim>\<open>user/mutex\<close>): one state record for all
    objects, one definition per operation. The bell of a sleeping thread is part of its stack: the state
    knows whose stack that is and whether it has been freed, and the bellringer stops when it reaches a
    freed bell. \<open>kinv\<close> is the invariant and \<open>bells_alive\<close> says that no pending bell is freed; every
    operation within the obligations \<open>op_ok\<close> of its caller, one of which is not to kill a sleeping
    thread, succeeds and keeps both. On top of it: mutual exclusion, order and fairness, what goes wrong,
    and stays wrong, when threads are killed.
  \<^item> \<open>Guard\<close>, \<open>GuardLive\<close> (\<^verbatim>\<open>guard/\<close>, \<^verbatim>\<open>machine/ticketlock.h\<close>): the atomic actions of \<^verbatim>\<open>enter\<close>, \<^verbatim>\<open>leave\<close> and \<^verbatim>\<open>relay\<close> as a step
    relation \<open>gexec\<close>, all interleavings; mutual exclusion, every requested epilogue is run, no deadlock and
    a bound on the actions until all CPUs are at the normal level, for up to 255 CPUs, the number of tickets.
  \<^item> \<open>GuardedKernel\<close>: both together. Operations that read and write at different times are atomic
    because of the guard, which justifies the steps of \<open>Kernel\<close>.
  \<^item> \<open>Syscalls\<close> (\<^verbatim>\<open>syscall/\<close>): the guarded operations, the destructor of a waiting room.
  \<^item> \<open>Context\<close> (\<^verbatim>\<open>machine/toc.cc\<close>, \<^verbatim>\<open>machine/toc.asm\<close>): registers and stacks; a switch is an exchange of contexts.

  \<^bold>\<open>Strings and output.\<close>
  \<^item> \<open>KString\<close>, \<open>StringOps\<close> (\<^verbatim>\<open>user/string\<close>): the two buffers of a string represent a list of bytes; every operation
    and what it computes, for a heap that serves the requests and a \<^verbatim>\<open>realloc\<close> that keeps the bytes of a block.
    The one of \<open>Heap\<close> does not always do that (\<open>realloc_overwrites\<close>), and then a string that outgrows its first
    block of 40 bytes loses characters (\<open>growth_loses_characters\<close>); shorter strings rest on \<^verbatim>\<open>malloc\<close> only.
  \<^item> \<open>OStream\<close>, \<open>NumberText\<close> (\<^verbatim>\<open>object/o_stream.cc\<close>): the text that each operator writes; reading numbers back.
  \<^item> \<open>Screen\<close>, \<open>CGAStream\<close> (\<^verbatim>\<open>machine/cgascr.cc\<close>, \<^verbatim>\<open>device/cgastr.cc\<close>): printing implements the terminal \<open>term_print\<close>.

  \<^bold>\<open>Drivers.\<close>
  \<^item> \<open>KeyDecoder\<close>, \<open>Keyboard\<close>, \<open>LineInput\<close> (\<^verbatim>\<open>machine/key*.cc\<close>, \<^verbatim>\<open>device/keyboard.cc\<close>); \<open>Clock\<close>, \<open>Cmos\<close> (\<^verbatim>\<open>user/time\<close>): the
    calendar is the number of its seconds; \<open>Serial\<close>, \<open>Console\<close>, \<open>ConsoleProps\<close> (\<^verbatim>\<open>machine/serial.cc\<close>, \<^verbatim>\<open>device/console.cc\<close>).
  \<^item> \<open>SystemConfig\<close>, \<open>Acpi\<close>, \<open>MpTable\<close>, \<open>ApicSystem\<close>, \<open>ApicProps\<close> (\<^verbatim>\<open>machine/apicsystem.cc\<close>, \<^verbatim>\<open>machine/acpi.cc\<close>): reading
    the tables of the firmware, starting the other CPUs; \<open>IoApic\<close>, \<open>Lapic\<close>, \<open>Watch\<close>: interrupt controllers and timer.
  \<^item> \<open>Startup\<close> (\<^verbatim>\<open>machine/gdt.h\<close>, \<^verbatim>\<open>boot/startup.cc\<close>); \<open>Wiring\<close>, \<open>WiringProps\<close> (\<^verbatim>\<open>main.cc\<close>, \<^verbatim>\<open>guard/guardian.cc\<close>): the start of all
    devices and where each interrupt leads afterwards; \<open>Boot\<close> (\<^verbatim>\<open>main.cc\<close>): the first threads and the first
    call of \<^verbatim>\<open>schedule\<close> of every CPU, in any order, lead to a state in which the theorems on the kernel hold.
  \<^item> \<open>GdbStub\<close>, \<open>GdbHandle\<close>, \<open>GdbPackets\<close>, \<open>GdbProps\<close> (\<^verbatim>\<open>debug/gdb\<close>): packets, commands, sessions.

  \<^bold>\<open>User level.\<close>
  \<^item> \<open>Shell\<close>, \<open>ShellEdit\<close>, \<open>ShellRead\<close>, \<open>ShellScreen\<close>, \<open>ShellCommands\<close>, \<open>ShellProps\<close> (\<^verbatim>\<open>user/shell\<close>): a line editor with
    history, the commands and their replies, saving and restoring the window.
  \<^item> \<open>Apps\<close>, \<open>AppProps\<close> (\<^verbatim>\<open>user/app1\<close>, \<^verbatim>\<open>user/app2\<close>, \<^verbatim>\<open>user/status\<close>).

  \<^bold>\<open>Interfaces.\<close> The locale \<open>bounded_fifo\<close> (interpretation \<open>bb\<close>) is what the drivers rely on of a buffer,
  \<open>link_queue\<close> (\<open>lq\<close>) what the kernel relies on of a queue, \<open>alarm_clock\<close> (\<open>clk\<close>) what it relies on of the
  bellringer, and \<open>stream_device\<close> what \<^verbatim>\<open>O_Stream\<close> relies on of a derived class; the latter is interpreted
  for the screen (\<open>cs\<close>), for the serial console (\<open>con\<close>) and for a screen of which only the buffer
  matters (\<open>any\<close>).

  \<^bold>\<open>Conventions.\<close> \<open>None\<close> is a failed assertion, an access outside an array, a use of memory that was
  never written, or a loop that does not end; so a statement that a result is \<open>Some\<close> is a statement of
  safety and termination. Loops that poll the hardware or follow pointers are partial functions into
  \<open>option\<close>. Where the source has a bound of its own it is kept: the ten rounds of waiting for the
  start of a CPU and the 500 for its answer, the searches of the firmware tables in steps of 16 bytes,
  the shifts of \<^verbatim>\<open>windup\<close>. No fuel is used. Integers are words of their width; \<^verbatim>\<open>int\<close> overflow is taken to
  wrap around. Ports, memory-mapped registers and, for strings, the heap (\<open>str_heap\<close>) are parameters;
  \<open>crt_ok\<close>, \<open>serial_ok\<close>, \<open>ioapic_ok\<close>, \<open>ioapic_apart\<close>, \<open>mem_ok\<close> and the laws of the clock chip say what is
  relied on of them, and the witnesses discharge them for concrete devices.

  \<^bold>\<open>Not modelled.\<close> The single instructions of \<^verbatim>\<open>machine/cpu.h\<close> and the assembler entry of \<^verbatim>\<open>boot/\<close>; the
  choice and the output of debug streams, of assertions and of panics; global constructors; the 16-bit
  ports, which nothing uses; the clock application, which is not started; the test programs for the
  host. The enter and leave of \<^verbatim>\<open>Secure\<close> is left out where an operation does more than change the
  kernel state (shell commands, the guarded keyboard). The debugger is not made to overwrite its own
  variables. A reading of a heap that the program has damaged before is not considered, except where a
  theorem says how the damage arises. Memory is sequentially consistent.
\<close>

end
